(* ===== verification/C_Base.thy ===== *)
theory C_Base
  imports Main "HOL-Library.Word" "HOL-Library.Monad_Syntax"
begin

text \<open>
  The prelude of the development: the fragment of C that the sources of libpomelo use.

  \<^item> Undefined behaviour. A C function that may run into undefined behaviour (a read or
    write outside a buffer, a null or dangling pointer, a signed overflow) has a result of type
    \<open>'a option\<close>: \<open>None\<close> says that the C standard gives the run no meaning. The
    \<open>do\<close> notation of the option monad threads it.
  \<^item> Error returns. A function that reports failure by \<open>-1\<close>, \<open>0\<close> or
    \<open>NULL\<close> returns an \<open>'a cret\<close>: \<open>Fail\<close>, or \<open>Ok\<close> with
    what it returns otherwise.
  \<^item> \<open>size_t\<close> values are natural numbers below \<open>2 ^ 64\<close>; additions and
    subtractions whose operands the peer controls wrap around explicitly (\<open>size_add\<close>,
    \<open>size_sub\<close>).
  \<^item> Buffers are byte lists. \<open>mem_read\<close> and \<open>mem_write\<close> are the two directions
    of \<open>memcpy\<close>, undefined outside the buffer.
  \<^item> Heap pointers to buffers are \<open>NULL_BUF\<close>, \<open>BUF bs\<close> or \<open>FREED\<close>;
    \<open>free\<close> of a freed pointer is undefined.
  \<^item> \<open>malloc\<close> is a parameter: a predicate that says for which sizes the allocator
    succeeds.
\<close>

unbundle bit_operations_syntax

named_theorems size_simps \<open>arithmetic of size_t away from the wrap-around\<close>
named_theorems mem_simps \<open>reads and writes that stay inside their buffer\<close>

section \<open>Types\<close>

type_synonym byte = "8 word"
type_synonym malloc = "nat \<Rightarrow> bool"

datatype 'a cret = Fail | Ok 'a

datatype buf_ptr = NULL_BUF | BUF "byte list" | FREED

section \<open>Definitions\<close>

subsection \<open>Sequencing\<close>

text \<open>\<open>if(!f()) return 0; ...\<close>: an error return and undefined behaviour end the caller.\<close>

definition cbind :: "'a cret option \<Rightarrow> ('a \<Rightarrow> 'b cret option) \<Rightarrow> 'b cret option" where
  "cbind m f = (case m of None \<Rightarrow> None | Some Fail \<Rightarrow> Some Fail | Some (Ok x) \<Rightarrow> f x)"

subsection \<open>Arithmetic of size_t and of int\<close>

definition size_add :: "nat \<Rightarrow> nat \<Rightarrow> nat" where
  "size_add a b = (a + b) mod 2 ^ 64"

definition size_sub :: "nat \<Rightarrow> nat \<Rightarrow> nat" where
  "size_sub a b = nat ((int a - int b) mod 2 ^ 64)"

text \<open>Conversion of an integer value to \<open>size_t\<close> (reduction modulo \<open>2 ^ 64\<close>)
  and of a \<open>size_t\<close> to the 32-bit type \<open>int\<close> (two's complement).\<close>

definition size_of_int :: "int \<Rightarrow> nat" where
  "size_of_int i = nat (i mod 2 ^ 64)"

definition int32_of_size :: "nat \<Rightarrow> int" where
  "int32_of_size n = sint (word_of_nat n :: 32 word)"

subsection \<open>Plain char\<close>

text \<open>Whether plain \<open>char\<close> is signed is implementation-defined: the flag is a parameter
  of the definitions that convert a \<open>char\<close> to a wider type.\<close>

definition char_to_size :: "bool \<Rightarrow> byte \<Rightarrow> nat" where
  "char_to_size signed_char b = (if signed_char then size_of_int (sint b) else unat b)"

subsection \<open>Buffers\<close>

definition mem_read :: "'a list \<Rightarrow> nat \<Rightarrow> nat \<Rightarrow> 'a list option" where
  "mem_read buf off len =
     (if off + len \<le> length buf then Some (take len (drop off buf)) else None)"

definition mem_write :: "'a list \<Rightarrow> nat \<Rightarrow> 'a list \<Rightarrow> 'a list option" where
  "mem_write buf off xs =
     (if off + length xs \<le> length buf
      then Some (take off buf @ xs @ drop (off + length xs) buf) else None)"

definition mem_get :: "'a list \<Rightarrow> nat \<Rightarrow> 'a option" where
  "mem_get buf off = (if off < length buf then Some (buf ! off) else None)"

text \<open>\<open>if(p) free(p)\<close>: the pointer itself is left as it is, so one that was not null dangles.\<close>

fun buf_free :: "buf_ptr \<Rightarrow> buf_ptr option" where
  "buf_free NULL_BUF = Some NULL_BUF"
| "buf_free (BUF bs) = Some FREED"
| "buf_free FREED = None"

fun buf_write :: "buf_ptr \<Rightarrow> nat \<Rightarrow> byte list \<Rightarrow> buf_ptr option" where
  "buf_write (BUF bs) off xs = map_option BUF (mem_write bs off xs)"
| "buf_write NULL_BUF off xs = None"
| "buf_write FREED off xs = None"

fun buf_bytes :: "buf_ptr \<Rightarrow> byte list option" where
  "buf_bytes (BUF bs) = Some bs"
| "buf_bytes NULL_BUF = Some []"
| "buf_bytes FREED = None"

subsection \<open>C strings\<close>

text \<open>A C string is the list of its characters before the terminating zero. Its bytes, and the
  string that \<open>strlen\<close> sees in a byte buffer that holds a zero.\<close>

definition byte_of_char :: "char \<Rightarrow> byte" where
  "byte_of_char c = word_of_nat (of_char c)"

definition char_of_byte :: "byte \<Rightarrow> char" where
  "char_of_byte b = char_of (unat b)"

definition str_bytes :: "string \<Rightarrow> byte list" where
  "str_bytes s = map byte_of_char s"

definition bytes_str :: "byte list \<Rightarrow> string" where
  "bytes_str bs = map char_of_byte (takeWhile (\<lambda>b. b \<noteq> 0) bs)"

definition c_string :: "string \<Rightarrow> bool" where
  "c_string s \<longleftrightarrow> CHR 0x00 \<notin> set s"

text \<open>\<open>sprintf\<close> with the format \<open>%u\<close>: decimal digits without leading zeros.\<close>

fun dec_string :: "nat \<Rightarrow> string" where
  "dec_string n = (if n < 10 then [char_of (48 + n)]
     else dec_string (n div 10) @ [char_of (48 + n mod 10)])"

declare dec_string.simps [simp del]

section \<open>Lemmas\<close>

subsection \<open>Sequencing\<close>

lemma cbind_simps [simp]:
  "cbind None f = None" "cbind (Some Fail) f = Some Fail" "cbind (Some (Ok x)) f = f x"
  by (simp_all add: cbind_def)

lemma cbind_cong [fundef_cong]:
  "m = m' \<Longrightarrow> (\<And>x. m' = Some (Ok x) \<Longrightarrow> f x = g x) \<Longrightarrow> cbind m f = cbind m' g"
  by (auto simp: cbind_def split: option.splits cret.splits)

lemma cbind_assoc [simp]: "cbind (cbind m f) g = cbind m (\<lambda>x. cbind (f x) g)"
  by (simp add: cbind_def split: option.splits cret.splits)

lemma cret_ex: "(\<exists>y :: 'a cret. P y) \<longleftrightarrow> P Fail \<or> (\<exists>x. P (Ok x))"
  by (metis cret.exhaust)

lemma cbind_OkE:
  assumes "cbind m f = Some (Ok y)"
  obtains x where "m = Some (Ok x)" "f x = Some (Ok y)"
  using assms by (auto simp: cbind_def split: option.splits cret.splits)

subsection \<open>size_t\<close>

lemma size_add_small [size_simps]: "a + b < 2 ^ 64 \<Longrightarrow> size_add a b = a + b"
  by (simp add: size_add_def)

lemma size_sub_le [size_simps]: "b \<le> a \<Longrightarrow> a < 2 ^ 64 \<Longrightarrow> size_sub a b = a - b"
  by (simp add: size_sub_def nat_diff_distrib' flip: of_nat_diff)

lemma size_of_int_nat [size_simps]: "n < 2 ^ 64 \<Longrightarrow> size_of_int (int n) = n"
  by (simp add: size_of_int_def nat_mod_distrib)

lemma int32_of_size_small [size_simps]: "n < 2 ^ 31 \<Longrightarrow> int32_of_size n = int n"
  by (simp add: int32_of_size_def signed_of_nat signed_take_bit_int_eq_self)

lemma unat_byte_less [simp]: "unat (b :: byte) < 256"
  using unsigned_less [of b, where 'a = nat] by simp

lemma sint_byte_ascii: "unat (b :: byte) < 128 \<Longrightarrow> sint b = int (unat b)"
proof -
  assume b: "unat b < 128"
  have "signed_take_bit 7 (int n) = int n" if "n < 128" for n
    by (rule signed_take_bit_int_eq_self) (use that in simp_all)
  from this [OF b] show ?thesis by (simp add: sint_uint)
qed

lemma sint_byte_eq: "sint (a :: byte) = sint b \<longleftrightarrow> a = b"
  by (metis signed_word_eqI)

lemma word_of_sint [simp]: "word_of_int (sint (b :: byte)) = b"
  by simp

lemma sint_byte: "sint (b :: byte) = (if unat b < 128 then int (unat b) else int (unat b) - 256)"
proof (cases "unat b < 128")
  case True
  then show ?thesis by (simp add: sint_byte_ascii)
next
  case False
  have small: "signed_take_bit 7 (int n - 256) = int n - 256" if "128 \<le> n" "n < 256" for n
    by (rule signed_take_bit_int_eq_self) (use that in simp_all)
  have "sint b = signed_take_bit 7 (int (unat b))" by (simp add: sint_uint)
  also have "\<dots> = signed_take_bit 7 (int (unat b) - 256)"
    using signed_take_bit_add [of 7 "int (unat b)" "- 256"] by simp
  also have "\<dots> = int (unat b) - 256"
    by (rule small) (use False in simp_all)
  finally show ?thesis using False by simp
qed

lemma sint_ascii: "0 \<le> sint (b :: byte) \<longleftrightarrow> unat b < 128"
proof -
  define n where "n = unat b"
  have "sint b = (if n < 128 then int n else int n - 256)" "n < 256" unfolding n_def by (rule sint_byte) simp
  then show ?thesis by (simp flip: n_def)
qed

lemma char_to_size_ascii: "unat b < 128 \<Longrightarrow> char_to_size sc b = unat b"
  using size_of_int_nat [of "unat b"] by (simp add: char_to_size_def sint_byte_ascii)

subsection \<open>Words\<close>

lemma and_0xff: "(x :: 32 word) AND 0xff = take_bit 8 x"
  by (simp add: take_bit_eq_mask mask_eq_exp_minus_1)

lemma ucast_byte_32: "ucast (ucast (t :: 32 word) :: byte) = take_bit 8 t"
  by (rule bit_word_eqI) (simp add: bit_simps)

lemma take_bit_8_small: "(t :: 32 word) < 256 \<Longrightarrow> take_bit 8 t = t"
  by (intro word_uint_eqI) (simp add: unsigned_take_bit_eq take_bit_int_eq_self word_less_def)

lemma ucast_take_bit_byte: "(ucast (take_bit 8 t) :: byte) = ucast (t :: 32 word)"
  by (rule bit_word_eqI) (simp add: bit_simps)

lemma unat_and_0x7f: "unat (b AND 0x7f :: byte) = unat b mod 128"
proof -
  have "b AND 0x7f = take_bit 7 b" by (simp add: take_bit_eq_mask mask_eq_exp_minus_1)
  then have "unat (b AND 0x7f) = take_bit 7 (unat b)" by (simp only: unsigned_take_bit_eq)
  then show ?thesis by (simp add: take_bit_eq_mod)
qed

lemma unat_byte_of_nat: "n < 256 \<Longrightarrow> unat (word_of_nat n :: byte) = n"
  by (simp add: unat_of_nat)

lemma byte_of_nat_mod: "(word_of_nat (n mod 256) :: byte) = word_of_nat n"
  by (simp add: word_unat_eq_iff unat_of_nat)

text \<open>Seven-bit groups with and without the continuation bit.\<close>

lemma and_7f: "(val :: 64 word) AND 0x7F = take_bit 7 val"
  by (simp add: take_bit_eq_mask mask_eq_exp_minus_1)

lemma ucast_low7: "(ucast ((val :: 64 word) AND 0x7F) :: byte) = word_of_nat (unat val mod 128)"
proof -
  have "unat (ucast (take_bit 7 val) :: byte) = unat val mod 128"
    by (simp add: unsigned_ucast_eq unsigned_take_bit_eq take_bit_eq_mod unat_mod)
  then show ?thesis by (simp add: and_7f word_unat_eq_iff unat_of_nat)
qed

lemma low7_no_high: "n < 128 \<Longrightarrow> (word_of_nat n :: byte) AND 0x80 = 0"
proof (rule bit_word_eqI)
  assume n: "n < 128"
  fix k assume "k < LENGTH(8)"
  have "(word_of_nat n :: byte) = take_bit 7 (word_of_nat n)"
    using n by (simp add: word_unat_eq_iff unsigned_take_bit_eq unat_of_nat take_bit_eq_mod unat_mod)
  then have "\<not> bit (word_of_nat n :: byte) 7" by (metis bit_take_bit_iff less_irrefl)
  moreover have "bit (0x80 :: byte) k \<longleftrightarrow> k = 7"
    using bit_exp_iff [where 'a = "8 word", of 7 k] by auto
  ultimately show "bit (word_of_nat n AND (0x80 :: byte)) k = bit 0 k" by (auto simp: bit_and_iff)
qed

lemma low7_or: "n < 128 \<Longrightarrow> (word_of_nat n OR 0x80 :: byte) = word_of_nat (n + 128)"
  using disjunctive_add_eq_or [OF low7_no_high] by simp

lemma high_bit: "m < 256 \<Longrightarrow> (word_of_nat m :: byte) AND 0x80 = 0 \<longleftrightarrow> m < 128"
proof (cases "m < 128")
  case False
  moreover assume "m < 256"
  ultimately have "(word_of_nat m :: byte) = word_of_nat (m - 128) OR 0x80" using low7_or [of "m - 128"] by simp
  then have "(word_of_nat m :: byte) AND 0x80 = 0x80" by (simp add: bit.conj_disj_distrib2)
  then show ?thesis using False by simp
qed (simp add: low7_no_high)

lemma and_0x7f_nat: "m < 256 \<Longrightarrow> (word_of_nat m :: byte) AND 0x7F = word_of_nat (m mod 128)"
  by (simp add: word_unat_eq_iff unat_and_0x7f unat_of_nat)

lemma low7_and: "n < 128 \<Longrightarrow> (word_of_nat n OR 0x80) AND 0x7F = (word_of_nat n :: byte)"
  by (simp add: low7_or word_unat_eq_iff unat_and_0x7f unat_of_nat del: of_nat_add)

lemma be24_digits:
  fixes a :: nat
  assumes "a < 2 ^ 24"
  shows "a div 65536 mod 256 * 65536 + a div 256 mod 256 * 256 + a mod 256 = a"
proof -
  have "a div 65536 mod 256 = a div 65536" using assms by (simp add: less_mult_imp_div_less)
  moreover have "a mod 65536 = 256 * (a div 256 mod 256) + a mod 256"
    using mod_mult2_eq [of a 256 256] by simp
  ultimately show ?thesis using div_mult_mod_eq [of a 65536] by simp
qed

subsection \<open>Buffers\<close>

lemma mem_read_Some [mem_simps]:
  "off + len \<le> length buf \<Longrightarrow> mem_read buf off len = Some (take len (drop off buf))"
  by (simp add: mem_read_def)

lemma mem_write_Some [mem_simps]:
  "off + length xs \<le> length buf \<Longrightarrow>
   mem_write buf off xs = Some (take off buf @ xs @ drop (off + length xs) buf)"
  by (simp add: mem_write_def)

lemma mem_write_length: "mem_write buf off xs = Some buf' \<Longrightarrow> length buf' = length buf"
  by (auto simp: mem_write_def split: if_splits)

lemma mem_write_take: "mem_write buf off xs = Some buf' \<Longrightarrow>
  take (off + length xs) buf' = take off buf @ xs"
  by (auto simp: mem_write_def split: if_splits)

lemma mem_write_prefix: "mem_write buf off xs = Some buf' \<Longrightarrow> take off buf' = take off buf"
  by (auto simp: mem_write_def min_def split: if_splits)

lemma mem_read_length: "mem_read buf off len = Some xs \<Longrightarrow> length xs = len"
  by (auto simp: mem_read_def split: if_splits)

lemma mem_write_append:
  "off + length xs + length ys \<le> length buf \<Longrightarrow>
   do { b \<leftarrow> mem_write buf off xs; mem_write b (off + length xs) ys } = mem_write buf off (xs @ ys)"
  by (auto simp: mem_write_def ac_simps)

text \<open>Writing at the end of what has been written, and reading what is there.\<close>

lemma mem_write_at [mem_simps]:
  "length xs \<le> length rest \<Longrightarrow>
   mem_write (pre @ rest) (length pre) xs = Some (pre @ xs @ drop (length xs) rest)"
  by (simp add: mem_write_def)

lemma mem_read_at [mem_simps]: "mem_read (pre @ xs @ suf) (length pre) (length xs) = Some xs"
  by (simp add: mem_read_def)

lemma mem_get_at [mem_simps]: "mem_get (pre @ x # suf) (length pre) = Some x"
  by (simp add: mem_get_def)

subsection \<open>Characters and strings\<close>

lemma char_of_byte_of_char [simp]: "char_of_byte (byte_of_char c) = c"
  by (simp add: char_of_byte_def byte_of_char_def unat_of_nat)

lemma byte_of_char_of_byte [simp]: "byte_of_char (char_of_byte b) = b"
  by (simp add: char_of_byte_def byte_of_char_def of_char_of)

lemma byte_of_char_eq_0 [simp]: "byte_of_char c = 0 \<longleftrightarrow> c = CHR 0x00"
proof -
  have "byte_of_char c = byte_of_char (CHR 0x00) \<longleftrightarrow> c = CHR 0x00"
    by (metis char_of_byte_of_char)
  then show ?thesis by (simp add: byte_of_char_def)
qed

lemma bytes_str_str_bytes [simp]:
  "c_string s \<Longrightarrow> bytes_str (str_bytes s @ 0 # bs) = s"
  by (induction s) (auto simp: bytes_str_def str_bytes_def c_string_def)

lemma length_str_bytes [simp]: "length (str_bytes s) = length s"
  by (simp add: str_bytes_def)

end
