(* ===== verification/Package.thy ===== *)
theory Package
  imports C_Base
begin

text \<open>
  The package layer (\<open>package.c\<close>, \<open>package.h\<close>): \<open>pc_pkg_encode\<close> and the
  incremental parser \<open>pc_pkg_parser_t\<close> with its state machine.

  A package is one byte of type, three bytes of big-endian body length and the body. The parser
  copies as much as it can of what \<open>pc_pkg_parser_feed\<close> is given into \<open>head_buf\<close> or
  \<open>pkg_buf\<close> and calls \<open>cb\<close> for every complete package. The callback's \<open>attach\<close>
  pointer is the client that owns the parser, so the callback may change the parser: here it is a
  function on pairs of a world \<open>'s\<close> and the parser.

  The lemmas show that the bulk-copying parser implements a byte-at-a-time automaton
  (\<open>spec_feed\<close>), never leaves its buffers, and consumes a stream of encoded packages.
\<close>

section \<open>Data\<close>

type_synonym pc_pkg_type = "32 word"

definition PC_PKG_HANDSHAKE :: pc_pkg_type where "PC_PKG_HANDSHAKE = 1"
definition PC_PKG_HANDSHAKE_ACK :: pc_pkg_type where "PC_PKG_HANDSHAKE_ACK = 2"
definition PC_PKG_HEARBEAT :: pc_pkg_type where "PC_PKG_HEARBEAT = 3"
definition PC_PKG_DATA :: pc_pkg_type where "PC_PKG_DATA = 4"
definition PC_PKG_KICK :: pc_pkg_type where "PC_PKG_KICK = 5"

abbreviation (input) PC_PKG_TYPE_MASK :: pc_pkg_type where "PC_PKG_TYPE_MASK \<equiv> 0xff"
abbreviation (input) PC_PKG_BODY_LEN_BYTES :: nat where "PC_PKG_BODY_LEN_BYTES \<equiv> 3"
abbreviation (input) PC_PKG_HEAD_BYTES :: nat where "PC_PKG_HEAD_BYTES \<equiv> 4"
abbreviation (input) PC_PKG_MAX_BODY_BYTES :: nat where "PC_PKG_MAX_BODY_BYTES \<equiv> 2 ^ 24"

datatype pc_pkg_parser_state = PC_PKG_HEAD | PC_PKG_BODY | PC_PKG_CLOSED

record pc_pkg_parser =
  head_buf :: "byte list"
  pkg_buf :: buf_ptr
  head_offset :: nat
  head_size :: nat
  pkg_offset :: nat
  pkg_size :: nat
  parser_state :: pc_pkg_parser_state

type_synonym 's pkg_cb =
  "pc_pkg_type \<Rightarrow> byte list \<Rightarrow> nat \<Rightarrow> 's \<times> pc_pkg_parser \<Rightarrow> ('s \<times> pc_pkg_parser) option"

definition pc__pkg_type :: "byte list \<Rightarrow> pc_pkg_type" where
  "pc__pkg_type head = ucast (head ! 0) AND 0xff"

section \<open>Operations\<close>

subsection \<open>Life cycle of the parser\<close>

definition pc_pkg_parser_init :: "pc_pkg_parser \<Rightarrow> pc_pkg_parser" where
  "pc_pkg_parser_init parser = parser\<lparr>
     head_size := PC_PKG_HEAD_BYTES, head_offset := 0, pkg_offset := 0, pkg_size := 0,
     parser_state := PC_PKG_HEAD\<rparr>"

text \<open>\<open>memset(parser, 0, ...)\<close>; the zero of the state field is overwritten by
  \<open>pc_pkg_parser_init\<close> before it is read.\<close>

definition zero_parser :: pc_pkg_parser where
  "zero_parser = \<lparr>head_buf = replicate PC_PKG_HEAD_BYTES 0, pkg_buf = NULL_BUF, head_offset = 0,
     head_size = 0, pkg_offset = 0, pkg_size = 0, parser_state = PC_PKG_HEAD\<rparr>"

definition pc_pkg_parser_new :: "malloc \<Rightarrow> pc_pkg_parser cret" where
  "pc_pkg_parser_new M =
     (if M 72 then Ok (pc_pkg_parser_init zero_parser) else Fail)" \<comment> \<open>\<open>sizeof(pc_pkg_parser_t)\<close>\<close>

definition pc_pkg_parser_close :: "pc_pkg_parser \<Rightarrow> pc_pkg_parser option" where
  "pc_pkg_parser_close parser =
     (if parser_state parser = PC_PKG_CLOSED then Some parser
      else do { b \<leftarrow> buf_free (pkg_buf parser);
                Some (parser\<lparr>parser_state := PC_PKG_CLOSED, pkg_buf := b\<rparr>) })"

definition pc_pkg_parser_destroy :: "pc_pkg_parser \<Rightarrow> unit option" where
  "pc_pkg_parser_destroy parser = do { _ \<leftarrow> pc_pkg_parser_close parser; Some () }"

definition pc_pkg_parser_reset :: "pc_pkg_parser \<Rightarrow> pc_pkg_parser option" where
  "pc_pkg_parser_reset parser =
     (if parser_state parser = PC_PKG_CLOSED then Some parser
      else do { _ \<leftarrow> buf_free (pkg_buf parser);
                Some (parser\<lparr>head_offset := 0, pkg_buf := NULL_BUF, pkg_offset := 0, pkg_size := 0,
                  parser_state := PC_PKG_HEAD\<rparr>) })"

subsection \<open>Encoding\<close>

text \<open>The loop that writes the body length backwards from \<open>base\<close>, least significant byte
  first.\<close>

function pkg_len_write :: "nat \<Rightarrow> nat \<Rightarrow> nat \<Rightarrow> byte list \<Rightarrow> byte list" where
  "pkg_len_write i base body_size buf =
     (if i < PC_PKG_BODY_LEN_BYTES
      then pkg_len_write (Suc i) (base - 1) (body_size div 256)
             (buf[base := word_of_nat (body_size mod 256)])
      else buf)"
  by pat_completeness auto
termination
  by (relation "measure (\<lambda>(i, _). PC_PKG_BODY_LEN_BYTES - i)") auto

declare pkg_len_write.simps [simp del]

definition pc_pkg_encode :: "malloc \<Rightarrow> pc_pkg_type \<Rightarrow> byte list \<Rightarrow> nat \<Rightarrow> byte list cret option" where
  "pc_pkg_encode M type data len =
     (if len \<ge> PC_PKG_MAX_BODY_BYTES then Some Fail
      else let size = PC_PKG_HEAD_BYTES + len in
      if \<not> M size then Some Fail
      else let buf = (replicate size 0)[0 := ucast (type AND PC_PKG_TYPE_MASK)] in
      if len \<noteq> 0 then do {
        let buf = pkg_len_write 0 (PC_PKG_HEAD_BYTES - 1) len buf;
        xs \<leftarrow> mem_read data 0 len;
        buf \<leftarrow> mem_write buf PC_PKG_HEAD_BYTES xs;
        Some (Ok buf) }
      else Some (Ok buf))"

subsection \<open>Parsing\<close>

text \<open>The loop of \<open>pc__pkg_head\<close> that reads the big-endian body length.\<close>

function pkg_len_read :: "byte list \<Rightarrow> nat \<Rightarrow> nat \<Rightarrow> nat" where
  "pkg_len_read head i pkg_len =
     (if i < PC_PKG_HEAD_BYTES
      then pkg_len_read head (Suc i)
             (size_add (if i > 1 then pkg_len * 256 mod 2 ^ 64 else pkg_len) (unat (head ! i)))
      else pkg_len)"
  by pat_completeness auto
termination
  by (relation "measure (\<lambda>(_, i, _). PC_PKG_HEAD_BYTES - i)") auto

declare pkg_len_read.simps [simp del]

definition pc__pkg_head ::
  "malloc \<Rightarrow> byte list \<Rightarrow> nat \<Rightarrow> nat \<Rightarrow> pc_pkg_parser \<Rightarrow> (nat cret \<times> pc_pkg_parser) option" where
  "pc__pkg_head M data offset nread parser = do {
     let need_len = size_sub (head_size parser) (head_offset parser);
     let data_len = size_sub nread offset;
     let len = min need_len data_len;
     xs \<leftarrow> mem_read data offset len;
     hb \<leftarrow> mem_write (head_buf parser) (head_offset parser) xs;
     let parser = parser\<lparr>head_buf := hb, head_offset := size_add (head_offset parser) len\<rparr>;
     if head_offset parser = head_size parser then
       let pkg_len = pkg_len_read (head_buf parser) 1 0 in
       if pkg_len > 0 \<and> \<not> M pkg_len then Some (Fail, parser\<lparr>pkg_buf := NULL_BUF\<rparr>)
       else
         let parser = (if pkg_len > 0 then parser\<lparr>pkg_buf := BUF (replicate pkg_len 0)\<rparr> else parser)
         in Some (Ok (size_add offset len),
              parser\<lparr>pkg_offset := 0, pkg_size := pkg_len, parser_state := PC_PKG_BODY\<rparr>)
     else Some (Ok (size_add offset len), parser) }"

definition pc__pkg_body ::
  "'s pkg_cb \<Rightarrow> byte list \<Rightarrow> nat \<Rightarrow> nat \<Rightarrow> 's \<times> pc_pkg_parser \<Rightarrow> (nat \<times> 's \<times> pc_pkg_parser) option" where
  "pc__pkg_body cb data offset nread = (\<lambda>(s, parser). do {
     let need_len = size_sub (pkg_size parser) (pkg_offset parser);
     let data_len = size_sub nread offset;
     let len = min need_len data_len;
     parser \<leftarrow> (if len > 0 then do {
         xs \<leftarrow> mem_read data offset len;
         b \<leftarrow> buf_write (pkg_buf parser) (pkg_offset parser) xs;
         Some (parser\<lparr>pkg_buf := b, pkg_offset := size_add (pkg_offset parser) len\<rparr>) }
       else Some parser);
     (s, parser) \<leftarrow> (if pkg_offset parser = pkg_size parser then do {
         body \<leftarrow> buf_bytes (pkg_buf parser);
         (s, parser) \<leftarrow> cb (pc__pkg_type (head_buf parser)) body (pkg_size parser) (s, parser);
         parser \<leftarrow> pc_pkg_parser_reset parser;
         Some (s, parser) }
       else Some (s, parser));
     Some (size_add offset len, s, parser) })"

text \<open>One iteration of the loop of \<open>pc_pkg_parser_feed\<close>: it returns from the function with a
  status, or goes on at a new offset. The test for a state that is no value of the enumeration
  cannot succeed in the datatype.\<close>

datatype 's feed_outcome = Return int 's pc_pkg_parser | Continue nat 's pc_pkg_parser

definition feed_iter ::
  "malloc \<Rightarrow> 's pkg_cb \<Rightarrow> byte list \<Rightarrow> nat \<Rightarrow> nat \<Rightarrow> 's \<times> pc_pkg_parser \<Rightarrow> 's feed_outcome option" where
  "feed_iter M cb data nread offset = (\<lambda>(s, parser). do {
     (off, parser) \<leftarrow> (if parser_state parser = PC_PKG_HEAD
        then pc__pkg_head M data offset nread parser else Some (Ok offset, parser));
     case off of
       Fail \<Rightarrow> Some (Return (-1) s parser)
     | Ok offset \<Rightarrow> do {
         (offset, s, parser) \<leftarrow> (if parser_state parser = PC_PKG_BODY
            then pc__pkg_body cb data offset nread (s, parser) else Some (offset, s, parser));
         if parser_state parser = PC_PKG_CLOSED then Some (Return 0 s parser)
         else Some (Continue offset s parser) } })"

text \<open>The loop itself: \<open>None\<close> also stands for a loop that does not end.\<close>

partial_function (option) feed_loop ::
  "malloc \<Rightarrow> 's pkg_cb \<Rightarrow> byte list \<Rightarrow> nat \<Rightarrow> nat \<Rightarrow> 's \<times> pc_pkg_parser \<Rightarrow>
   (int \<times> 's \<times> pc_pkg_parser) option" where
  "feed_loop M cb data nread offset st =
     (if offset < nread then
        (case feed_iter M cb data nread offset st of
           None \<Rightarrow> None
         | Some (Return r s parser) \<Rightarrow> Some (r, s, parser)
         | Some (Continue off s parser) \<Rightarrow> feed_loop M cb data nread off (s, parser))
      else Some (0, st))"

definition pc_pkg_parser_feed ::
  "malloc \<Rightarrow> 's pkg_cb \<Rightarrow> byte list \<Rightarrow> nat \<Rightarrow> 's \<times> pc_pkg_parser \<Rightarrow>
   (int \<times> 's \<times> pc_pkg_parser) option" where
  "pc_pkg_parser_feed M cb data nread st = feed_loop M cb data nread 0 st"

section \<open>Lemmas for the loops\<close>

lemma pkg_len_write_eq:
  "pkg_len_write 0 3 n buf =
     buf[3 := word_of_nat (n mod 256), 2 := word_of_nat (n div 256 mod 256),
         1 := word_of_nat (n div 65536 mod 256)]"
  by (simp add: pkg_len_write.simps [of 0] pkg_len_write.simps [of "Suc 0"]
      pkg_len_write.simps [of "Suc (Suc 0)"] pkg_len_write.simps [of "Suc (Suc (Suc 0))"]
      flip: div_mult2_eq)

lemma pkg_len_read_eq:
  "pkg_len_read h 1 0 = unat (h ! 1) * 65536 + unat (h ! 2) * 256 + unat (h ! 3)"
proof -
  have nth: "h ! Suc (Suc 0) = h ! 2" "h ! Suc (Suc (Suc 0)) = h ! 3"
    by (simp_all add: numeral_2_eq_2 numeral_3_eq_3)
  have sum: "size_add (size_add (size_add 0 a * 256 mod 2 ^ 64) b * 256 mod 2 ^ 64) c =
      a * 65536 + b * 256 + c" if "a < 256" "b < 256" "c < 256" for a b c
    using that by (simp add: size_add_def)
  show ?thesis
    using sum [of "unat (h ! 1)" "unat (h ! 2)" "unat (h ! 3)"]
    by (simp add: pkg_len_read.simps [of _ "Suc 0"] pkg_len_read.simps [of _ "Suc (Suc 0)"]
        pkg_len_read.simps [of _ "Suc (Suc (Suc 0))"]
        pkg_len_read.simps [of _ "Suc (Suc (Suc (Suc 0)))"] nth)
qed

section \<open>The specification: a byte-at-a-time automaton\<close>

text \<open>The specification knows the bytes of the current head, or the head and the bytes of the body
  so far. Every byte is one step; a complete package is handed to \<open>acb\<close>, which acts on the
  world alone.\<close>

datatype pkg_abs = AHead "byte list" | ABody "byte list" "byte list" | AClosed

definition head_len :: "byte list \<Rightarrow> nat" where
  "head_len h = unat (h ! 1) * 65536 + unat (h ! 2) * 256 + unat (h ! 3)"

definition spec_complete ::
  "(pc_pkg_type \<Rightarrow> byte list \<Rightarrow> 's \<Rightarrow> 's option) \<Rightarrow> byte list \<Rightarrow> byte list \<Rightarrow> 's \<Rightarrow>
   (int \<times> 's \<times> pkg_abs) option" where
  "spec_complete acb h body s = do { s \<leftarrow> acb (pc__pkg_type h) body s; Some (0, s, AHead []) }"

fun spec_byte ::
  "malloc \<Rightarrow> (pc_pkg_type \<Rightarrow> byte list \<Rightarrow> 's \<Rightarrow> 's option) \<Rightarrow> byte \<Rightarrow> 's \<Rightarrow> pkg_abs \<Rightarrow>
   (int \<times> 's \<times> pkg_abs) option" where
  "spec_byte M acb b s (AHead h) =
     (let h' = h @ [b] in
      if length h' < 4 then Some (0, s, AHead h')
      else if head_len h' = 0 then spec_complete acb h' [] s
      else if M (head_len h') then Some (0, s, ABody h' []) else Some (-1, s, AHead h'))"
| "spec_byte M acb b s (ABody h xs) =
     (let xs' = xs @ [b] in
      if length xs' < head_len h then Some (0, s, ABody h xs') else spec_complete acb h xs' s)"
| "spec_byte M acb b s AClosed = Some (0, s, AClosed)"

fun spec_feed ::
  "malloc \<Rightarrow> (pc_pkg_type \<Rightarrow> byte list \<Rightarrow> 's \<Rightarrow> 's option) \<Rightarrow> byte list \<Rightarrow> 's \<Rightarrow> pkg_abs \<Rightarrow>
   (int \<times> 's \<times> pkg_abs) option" where
  "spec_feed M acb [] s a = Some (0, s, a)"
| "spec_feed M acb (b # bs) s a =
     (case spec_byte M acb b s a of None \<Rightarrow> None
      | Some (r, s', a') \<Rightarrow> if r = 0 then spec_feed M acb bs s' a' else Some (r, s', a'))"

definition pkg_alpha :: "pc_pkg_parser \<Rightarrow> pkg_abs" where
  "pkg_alpha p = (case parser_state p of
     PC_PKG_HEAD \<Rightarrow> AHead (take (head_offset p) (head_buf p))
   | PC_PKG_BODY \<Rightarrow> ABody (head_buf p) (case pkg_buf p of BUF bs \<Rightarrow> take (pkg_offset p) bs | _ \<Rightarrow> [])
   | PC_PKG_CLOSED \<Rightarrow> AClosed)"

text \<open>The invariant between two calls of \<open>pc_pkg_parser_feed\<close>.\<close>

definition pkg_inv :: "pc_pkg_parser \<Rightarrow> bool" where
  "pkg_inv p \<longleftrightarrow> length (head_buf p) = 4 \<and> head_size p = 4 \<and>
     (case parser_state p of
        PC_PKG_HEAD \<Rightarrow> head_offset p < 4 \<and> pkg_buf p = NULL_BUF
      | PC_PKG_BODY \<Rightarrow> head_offset p = 4 \<and> pkg_size p = head_len (head_buf p) \<and>
          pkg_offset p < pkg_size p \<and> (\<exists>bs. pkg_buf p = BUF bs \<and> length bs = pkg_size p)
      | PC_PKG_CLOSED \<Rightarrow> False)"

subsection \<open>The specification on runs of bytes\<close>

lemma spec_feed_append:
  "spec_feed M acb (xs @ ys) s a =
     (case spec_feed M acb xs s a of None \<Rightarrow> None
      | Some (r, s', a') \<Rightarrow> if r = 0 then spec_feed M acb ys s' a' else Some (r, s', a'))"
  by (induction xs arbitrary: s a) (auto split: option.splits)

lemma spec_feed_head_part:
  "length h + length xs < 4 \<Longrightarrow> spec_feed M acb xs s (AHead h) = Some (0, s, AHead (h @ xs))"
  by (induction xs arbitrary: h) auto

lemma spec_feed_single: "spec_feed M acb [b] s a = spec_byte M acb b s a"
  by (auto split: option.split)

lemma spec_feed_head_full:
  assumes "length h + length xs = 4" "xs \<noteq> []"
  shows "spec_feed M acb xs s (AHead h) =
    (if head_len (h @ xs) = 0 then spec_complete acb (h @ xs) [] s
     else if M (head_len (h @ xs)) then Some (0, s, ABody (h @ xs) [])
     else Some (-1, s, AHead (h @ xs)))"
proof -
  obtain ys b where xs: "xs = ys @ [b]" using assms(2) by (cases xs rule: rev_cases) auto
  with assms(1) have "spec_feed M acb xs s (AHead h) = spec_byte M acb b s (AHead (h @ ys))"
    by (simp add: spec_feed_append spec_feed_head_part spec_feed_single del: spec_feed.simps)
  with xs assms(1) show ?thesis by (simp add: Let_def)
qed

lemma spec_feed_body_part:
  "length ys + length xs < head_len h \<Longrightarrow>
   spec_feed M acb xs s (ABody h ys) = Some (0, s, ABody h (ys @ xs))"
  by (induction xs arbitrary: ys) auto

lemma spec_feed_body_full:
  assumes "length ys + length xs = head_len h" "xs \<noteq> []"
  shows "spec_feed M acb xs s (ABody h ys) = spec_complete acb h (ys @ xs) s"
proof -
  obtain zs b where xs: "xs = zs @ [b]" using assms(2) by (cases xs rule: rev_cases) auto
  with assms(1) have "spec_feed M acb xs s (ABody h ys) = spec_byte M acb b s (ABody h (ys @ zs))"
    by (simp add: spec_feed_append spec_feed_body_part spec_feed_single del: spec_feed.simps)
  with xs assms(1) show ?thesis by (simp add: Let_def)
qed

section \<open>The parser implements the specification\<close>

text \<open>The contract of the client whose callback the parser calls: what the callback does to the
  world does not depend on the parser, and what it does to the parser is undone by the reset that
  follows. (The callback of the client resets the parser itself when it starts a reconnect.)\<close>

definition pkg_ready :: "pc_pkg_parser \<Rightarrow> bool" where
  "pkg_ready p \<longleftrightarrow> parser_state p = PC_PKG_BODY \<and> pkg_buf p \<noteq> FREED"

lemma reset_ready: "pkg_ready p \<Longrightarrow> pc_pkg_parser_reset p =
    Some (p\<lparr>head_offset := 0, pkg_buf := NULL_BUF, pkg_offset := 0, pkg_size := 0,
      parser_state := PC_PKG_HEAD\<rparr>)"
  by (cases "pkg_buf p") (auto simp: pkg_ready_def pc_pkg_parser_reset_def)

lemma reset_ready_inv:
  assumes "pkg_ready p" "length (head_buf p) = 4" "head_size p = 4"
    and "pc_pkg_parser_reset p = Some p'"
  shows "pkg_inv p' \<and> pkg_alpha p' = AHead []"
  using assms by (auto simp: reset_ready pkg_inv_def pkg_alpha_def)

text \<open>What is left of the input at an offset, and how the parser reads from it.\<close>

definition rest_at :: "byte list \<Rightarrow> nat \<Rightarrow> nat \<Rightarrow> byte list" where
  "rest_at data nread offset = drop offset (take nread data)"

lemma length_rest_at: "nread \<le> length data \<Longrightarrow> length (rest_at data nread offset) = nread - offset"
  by (simp add: rest_at_def)

lemma rest_at_drop: "drop len (rest_at data nread offset) = rest_at data nread (offset + len)"
  by (simp add: rest_at_def add.commute)

lemma rest_at_split:
  "rest_at data nread offset = take len (rest_at data nread offset) @ rest_at data nread (offset + len)"
  by (metis append_take_drop_id rest_at_drop)

lemma rest_at_end: "nread \<le> offset \<Longrightarrow> rest_at data nread offset = []"
  by (simp add: rest_at_def)

lemma mem_read_rest:
  "offset + len \<le> nread \<Longrightarrow> nread \<le> length data \<Longrightarrow>
   mem_read data offset len = Some (take len (rest_at data nread offset))"
  by (simp add: mem_read_def rest_at_def take_drop min_def add.commute)

text \<open>What the specification does from the moment the head is complete.\<close>

definition spec_from_body ::
  "malloc \<Rightarrow> (pc_pkg_type \<Rightarrow> byte list \<Rightarrow> 's \<Rightarrow> 's option) \<Rightarrow> byte list \<Rightarrow> 's \<Rightarrow> byte list \<Rightarrow> byte list \<Rightarrow>
   (int \<times> 's \<times> pkg_abs) option" where
  "spec_from_body M acb bs s h ys =
     (if head_len h = 0
      then (case spec_complete acb h [] s of None \<Rightarrow> None | Some (r, s', a') \<Rightarrow> spec_feed M acb bs s' a')
      else spec_feed M acb bs s (ABody h ys))"

definition body_state :: "pc_pkg_parser \<Rightarrow> bool" where
  "body_state p \<longleftrightarrow> length (head_buf p) = 4 \<and> head_size p = 4 \<and> head_offset p = 4 \<and>
     parser_state p = PC_PKG_BODY \<and> pkg_size p = head_len (head_buf p) \<and>
     (if pkg_size p = 0 then pkg_buf p = NULL_BUF \<and> pkg_offset p = 0
      else pkg_offset p < pkg_size p \<and> (\<exists>bs. pkg_buf p = BUF bs \<and> length bs = pkg_size p))"

definition received :: "pc_pkg_parser \<Rightarrow> byte list" where
  "received p = (case pkg_buf p of BUF bs \<Rightarrow> take (pkg_offset p) bs | _ \<Rightarrow> [])"

lemma head_len_less: "head_len h < 2 ^ 24"
proof -
  have "a * 65536 + b * 256 + c < 2 ^ 24" if "a < 256" "b < 256" "c < 256" for a b c :: nat
    using that by simp
  from this [of "unat (h ! 1)" "unat (h ! 2)" "unat (h ! 3)"] show ?thesis
    unfolding head_len_def by simp
qed

text \<open>Copying the next \<open>len\<close> bytes of the body.\<close>

lemma body_copy:
  assumes p: "body_state p" "pkg_size p > 0" and len: "0 < len" "pkg_offset p + len \<le> pkg_size p"
    and xs: "length xs = len"
  obtains bs where "buf_write (pkg_buf p) (pkg_offset p) xs = Some (BUF bs)"
    "length bs = pkg_size p" "take (pkg_offset p + len) bs = received p @ xs"
proof -
  from p obtain b where b: "pkg_buf p = BUF b" "length b = pkg_size p"
    by (auto simp: body_state_def)
  with len xs have "mem_write b (pkg_offset p) xs =
      Some (take (pkg_offset p) b @ xs @ drop (pkg_offset p + len) b)"
    by (simp add: mem_write_def)
  with that b len xs show thesis by (auto simp: received_def min_def)
qed

text \<open>The callback on a complete package and the reset after it.\<close>

definition pkg_deliver :: "'s pkg_cb \<Rightarrow> byte list \<Rightarrow> nat \<Rightarrow> 's \<times> pc_pkg_parser \<Rightarrow>
    ('s \<times> pc_pkg_parser) option" where
  "pkg_deliver cb body n = (\<lambda>(s, p). do {
     (s, p) \<leftarrow> cb (pc__pkg_type (head_buf p)) body n (s, p);
     p \<leftarrow> pc_pkg_parser_reset p;
     Some (s, p) })"

text \<open>The three ways through \<open>pc__pkg_body\<close>: an empty package, a body that is not complete
  at the end of the input, and a body that is.\<close>

lemma pkg_body_zero:
  assumes "body_state p" "pkg_size p = 0" "offset \<le> nread" "nread < 2 ^ 64"
  shows "pc__pkg_body cb data offset nread (s, p) =
     map_option (Pair offset) (pkg_deliver cb [] 0 (s, p))"
proof -
  have "size_sub 0 0 = 0" by (simp add: size_sub_def)
  with assms show ?thesis
    by (auto simp: pc__pkg_body_def body_state_def size_add_small pkg_deliver_def
        split: if_splits option.split Option.bind_split)
qed

lemma pkg_body_part:
  assumes p: "body_state p" "pkg_size p > 0"
    and off: "offset \<le> nread" "nread \<le> length data" "nread < 2 ^ 64"
    and few: "nread - offset < pkg_size p - pkg_offset p"
  obtains p' where "pc__pkg_body cb data offset nread (s, p) = Some (nread, s, p')"
    "body_state p'" "pkg_size p' = pkg_size p" "head_buf p' = head_buf p"
    "received p' = received p @ rest_at data nread offset"
proof -
  define len where "len = nread - offset"
  have small: "pkg_size p < 2 ^ 24"
    using p head_len_less by (auto simp: body_state_def)
  have sub: "size_sub (pkg_size p) (pkg_offset p) = pkg_size p - pkg_offset p"
    "size_sub nread offset = len"
    using p off small by (auto simp: len_def body_state_def size_sub_le split: if_splits)
  have po: "pkg_offset p < pkg_size p" using p by (auto simp: body_state_def)
  have add: "size_add offset len = nread" "size_add (pkg_offset p) len = pkg_offset p + len"
    using off few small by (simp_all add: len_def size_add_small)
  have min: "min (pkg_size p - pkg_offset p) len = len" using few by (simp add: len_def)
  have ne: "pkg_offset p + len \<noteq> pkg_size p" using few po unfolding len_def by linarith
  let ?xs = "rest_at data nread offset"
  have xs: "length ?xs = len" using off by (simp add: length_rest_at len_def)
  show thesis
  proof (cases "len = 0")
    case True
    with off have "offset = nread" by (simp add: len_def)
    with that [of p] p po sub add min True show ?thesis
      by (simp add: pc__pkg_body_def rest_at_end)
  next
    case False
    then obtain bs where bs: "buf_write (pkg_buf p) (pkg_offset p) ?xs = Some (BUF bs)"
      "length bs = pkg_size p" "take (pkg_offset p + len) bs = received p @ ?xs"
      by (rule_tac body_copy [OF p _ _ xs]) (use few in \<open>auto simp: len_def\<close>)
    have rd: "mem_read data offset len = Some ?xs"
      using off xs mem_read_rest [of offset len nread data] by (simp add: len_def)
    let ?p = "p\<lparr>pkg_buf := BUF bs, pkg_offset := pkg_offset p + len\<rparr>"
    have "pc__pkg_body cb data offset nread (s, p) = Some (nread, s, ?p)"
      using False ne po by (simp add: pc__pkg_body_def sub add min rd bs)
    moreover have "body_state ?p"
      using p bs few by (simp add: body_state_def len_def)
    ultimately show ?thesis
      using that [of ?p] bs by (simp add: received_def)
  qed
qed

lemma pkg_body_full:
  assumes p: "body_state p" "pkg_size p > 0"
    and off: "offset \<le> nread" "nread \<le> length data" "nread < 2 ^ 64"
    and enough: "pkg_size p - pkg_offset p \<le> nread - offset"
  defines "len \<equiv> pkg_size p - pkg_offset p"
  obtains p' where "pkg_ready p'" "length (head_buf p') = 4" "head_size p' = 4"
    "head_buf p' = head_buf p"
    "pc__pkg_body cb data offset nread (s, p) = map_option (Pair (offset + len))
       (pkg_deliver cb (received p @ take len (rest_at data nread offset)) (pkg_size p) (s, p'))"
proof -
  have small: "pkg_size p < 2 ^ 24"
    using p head_len_less by (auto simp: body_state_def)
  have sub: "size_sub (pkg_size p) (pkg_offset p) = len" "size_sub nread offset = nread - offset"
    using p off small by (auto simp: len_def body_state_def size_sub_le split: if_splits)
  have po: "pkg_offset p < pkg_size p" using p by (auto simp: body_state_def)
  have add: "size_add offset len = offset + len" "size_add (pkg_offset p) len = pkg_size p"
    using off enough small po by (simp_all add: len_def size_add_small)
  have min: "min len (nread - offset) = len" using enough by (simp add: len_def)
  let ?xs = "take len (rest_at data nread offset)"
  have xs: "length ?xs = len" using off enough by (simp add: length_rest_at len_def)
  have len: "0 < len" "pkg_offset p + len = pkg_size p" using po by (simp_all add: len_def)
  have lt: "offset < nread" using len(1) enough unfolding len_def by linarith
  from len obtain bs where bs: "buf_write (pkg_buf p) (pkg_offset p) ?xs = Some (BUF bs)"
      "length bs = pkg_size p" "take (pkg_offset p + len) bs = received p @ ?xs"
    by (rule_tac body_copy [OF p _ _ xs]) auto
  have rd: "mem_read data offset len = Some ?xs"
    using off enough by (intro mem_read_rest) (simp_all add: len_def)
  let ?p = "p\<lparr>pkg_buf := BUF bs, pkg_offset := pkg_size p\<rparr>"
  have "bs = received p @ ?xs" using bs len by simp
  then have "pc__pkg_body cb data offset nread (s, p) = map_option (Pair (offset + len))
      (pkg_deliver cb (received p @ ?xs) (pkg_size p) (s, ?p))"
    using len bs(1) lt
    by (auto simp: pc__pkg_body_def sub add min rd pkg_deliver_def split: Option.bind_split)
  with that [of ?p] p show thesis by (simp add: pkg_ready_def body_state_def)
qed

text \<open>The two ways through \<open>pc__pkg_head\<close>.\<close>

lemma pkg_head_part:
  assumes p: "pkg_inv p" "parser_state p = PC_PKG_HEAD"
    and off: "offset < nread" "nread \<le> length data" "nread < 2 ^ 64"
    and few: "nread - offset < 4 - head_offset p"
  obtains p' where "pc__pkg_head M data offset nread p = Some (Ok nread, p')"
    "pkg_inv p'" "parser_state p' = PC_PKG_HEAD"
    "pkg_alpha p' = AHead (take (head_offset p) (head_buf p) @ rest_at data nread offset)"
proof -
  define len where "len = nread - offset"
  have ho: "head_offset p < 4" "length (head_buf p) = 4" "head_size p = 4" "pkg_buf p = NULL_BUF"
    using p by (auto simp: pkg_inv_def)
  have arith: "size_sub 4 (head_offset p) = 4 - head_offset p" "size_sub nread offset = len"
    "min (4 - head_offset p) len = len" "size_add offset len = nread"
    "size_add (head_offset p) len = head_offset p + len"
    using ho off few by (simp_all add: len_def size_sub_le size_add_small)
  let ?xs = "rest_at data nread offset"
  have xs: "length ?xs = len" using off by (simp add: length_rest_at len_def)
  have rd: "mem_read data offset len = Some ?xs"
    using off xs mem_read_rest [of offset len nread data] by (simp add: len_def)
  define hb where "hb = take (head_offset p) (head_buf p) @ ?xs @ drop (head_offset p + len) (head_buf p)"
  have lt: "head_offset p + len < 4" using few ho unfolding len_def by linarith
  then have wr: "mem_write (head_buf p) (head_offset p) ?xs = Some hb"
    using xs ho by (simp add: mem_write_def hb_def)
  let ?p = "p\<lparr>head_buf := hb, head_offset := head_offset p + len\<rparr>"
  have "pc__pkg_head M data offset nread p = Some (Ok nread, ?p)"
    using ho lt by (simp add: pc__pkg_head_def arith rd wr)
  moreover have "pkg_inv ?p" "parser_state ?p = PC_PKG_HEAD"
    "pkg_alpha ?p = AHead (take (head_offset p) (head_buf p) @ ?xs)"
    using p ho lt xs by (simp_all add: pkg_inv_def pkg_alpha_def hb_def)
  ultimately show thesis using that by blast
qed

lemma pkg_head_full:
  assumes p: "pkg_inv p" "parser_state p = PC_PKG_HEAD"
    and off: "offset < nread" "nread \<le> length data" "nread < 2 ^ 64"
    and enough: "4 - head_offset p \<le> nread - offset"
  defines "len \<equiv> 4 - head_offset p"
  defines "h \<equiv> take (head_offset p) (head_buf p) @ take len (rest_at data nread offset)"
  obtains (nomem) p' where "head_len h > 0" "\<not> M (head_len h)" "pkg_alpha p' = AHead h"
    "pc__pkg_head M data offset nread p = Some (Fail, p')"
  | (body) p' where "head_len h = 0 \<or> M (head_len h)" "body_state p'" "head_buf p' = h"
    "received p' = []" "pc__pkg_head M data offset nread p = Some (Ok (offset + len), p')"
proof -
  have ho: "head_offset p < 4" "length (head_buf p) = 4" "head_size p = 4" "pkg_buf p = NULL_BUF"
    using p by (auto simp: pkg_inv_def)
  have arith: "size_sub 4 (head_offset p) = len" "size_sub nread offset = nread - offset"
    "min len (nread - offset) = len" "size_add offset len = offset + len"
    "size_add (head_offset p) len = 4"
    using ho off enough by (simp_all add: len_def size_sub_le size_add_small)
  let ?xs = "take len (rest_at data nread offset)"
  have xs: "length ?xs = len" using off enough by (simp add: length_rest_at len_def)
  have rd: "mem_read data offset len = Some ?xs"
    using off enough by (intro mem_read_rest) (simp_all add: len_def)
  have four: "head_offset p + len = 4" using ho by (simp add: len_def)
  then have wr: "mem_write (head_buf p) (head_offset p) ?xs = Some h"
    using xs ho by (simp add: mem_write_def h_def)
  have h4: "length h = 4" using xs ho four by (simp add: h_def)
  have pl: "pkg_len_read h (Suc 0) 0 = head_len h"
    using pkg_len_read_eq [of h] by (simp add: head_len_def)
  let ?p = "p\<lparr>head_buf := h, head_offset := 4\<rparr>"
  show thesis
  proof (cases "head_len h > 0 \<and> \<not> M (head_len h)")
    case True
    then have "pc__pkg_head M data offset nread p = Some (Fail, ?p\<lparr>pkg_buf := NULL_BUF\<rparr>)"
      using ho by (simp add: pc__pkg_head_def arith rd wr pl)
    with True p h4 show ?thesis by (intro nomem) (simp_all add: pkg_alpha_def)
  next
    case False
    let ?p' = "(if head_len h > 0 then ?p\<lparr>pkg_buf := BUF (replicate (head_len h) 0)\<rparr> else ?p)
       \<lparr>pkg_offset := 0, pkg_size := head_len h, parser_state := PC_PKG_BODY\<rparr>"
    have "pc__pkg_head M data offset nread p = Some (Ok (offset + len), ?p')"
      using ho False by (cases "head_len h = 0") (simp_all add: pc__pkg_head_def arith rd wr pl Let_def)
    moreover have "body_state ?p'" "head_buf ?p' = h" "received ?p' = []"
      using h4 ho by (auto simp: body_state_def received_def)
    ultimately show ?thesis using False by (intro body [of ?p']) auto
  qed
qed

lemma body_state_inv: "body_state p \<Longrightarrow> 0 < pkg_size p \<Longrightarrow> pkg_inv p"
  by (auto simp: body_state_def pkg_inv_def)

lemma body_state_alpha: "body_state p \<Longrightarrow> pkg_alpha p = ABody (head_buf p) (received p)"
  by (simp add: body_state_def pkg_alpha_def received_def)

locale pkg_client =
  fixes cb :: "'s pkg_cb"
    and acb :: "pc_pkg_type \<Rightarrow> byte list \<Rightarrow> 's \<Rightarrow> 's option"
  assumes cb_world: "pkg_ready p \<Longrightarrow> map_option fst (cb t body (length body) (s, p)) = acb t body s"
    and cb_reset: "pkg_ready p \<Longrightarrow> cb t body (length body) (s, p) = Some (s', p') \<Longrightarrow>
      pc_pkg_parser_reset p' = pc_pkg_parser_reset p"
begin

lemma complete_refines:
  assumes ready: "pkg_ready p" and hb: "length (head_buf p) = 4" "head_size p = 4"
  shows "case pkg_deliver cb body (length body) (s, p) of
      None \<Rightarrow> spec_complete acb (head_buf p) body s = None
    | Some (s', p') \<Rightarrow> pkg_inv p' \<and> pkg_alpha p' = AHead [] \<and>
        spec_complete acb (head_buf p) body s = Some (0, s', AHead [])"
proof (cases "cb (pc__pkg_type (head_buf p)) body (length body) (s, p)")
  case None
  with cb_world [OF ready, of "pc__pkg_type (head_buf p)" body s] show ?thesis
    by (simp add: spec_complete_def pkg_deliver_def)
next
  case (Some sp)
  obtain s' p' where sp: "sp = (s', p')" by (cases sp)
  with Some cb_world [OF ready, of "pc__pkg_type (head_buf p)" body s]
  have acb: "acb (pc__pkg_type (head_buf p)) body s = Some s'" by simp
  obtain p'' where p'': "pc_pkg_parser_reset p = Some p''"
    using reset_ready [OF ready] by simp
  with Some sp cb_reset [OF ready] have "pc_pkg_parser_reset p' = Some p''" by simp
  with Some sp acb reset_ready_inv [OF ready hb p''] show ?thesis
    by (simp add: spec_complete_def pkg_deliver_def)
qed

lemma body_refines:
  assumes p: "body_state p" and off: "offset \<le> nread" "nread \<le> length data" "nread < 2 ^ 64"
  shows "case pc__pkg_body cb data offset nread (s, p) of
      None \<Rightarrow> spec_from_body M acb (rest_at data nread offset) s (head_buf p) (received p) = None
    | Some (off', s', p') \<Rightarrow> offset \<le> off' \<and> off' \<le> nread \<and> pkg_inv p' \<and>
        (pkg_size p > 0 \<longrightarrow> offset < nread \<longrightarrow> offset < off') \<and>
        spec_from_body M acb (rest_at data nread offset) s (head_buf p) (received p) =
        spec_feed M acb (rest_at data nread off') s' (pkg_alpha p')"
proof -
  consider (zero) "pkg_size p = 0"
    | (part) "pkg_size p > 0" "nread - offset < pkg_size p - pkg_offset p"
    | (full) "pkg_size p > 0" "pkg_size p - pkg_offset p \<le> nread - offset"
    by linarith
  then show ?thesis
  proof cases
    case zero
    then have ready: "pkg_ready p" "length (head_buf p) = 4" "head_size p = 4"
      using p by (auto simp: pkg_ready_def body_state_def)
    have "head_len (head_buf p) = 0" using p zero by (simp add: body_state_def)
    with complete_refines [OF ready, where body = "[]" and s = s] zero off show ?thesis
      by (auto simp: pkg_body_zero [OF p zero] spec_from_body_def split: option.splits)
  next
    case part
    obtain p' where p': "pc__pkg_body cb data offset nread (s, p) = Some (nread, s, p')"
      "body_state p'" "pkg_size p' = pkg_size p" "head_buf p' = head_buf p"
      "received p' = received p @ rest_at data nread offset"
      using pkg_body_part [OF p part(1) off part(2)] by metis
    have "length (received p) = pkg_offset p" "pkg_size p = head_len (head_buf p)"
      using p part by (auto simp: received_def body_state_def)
    with part p p' off show ?thesis
      by (auto simp: spec_from_body_def spec_feed_body_part length_rest_at rest_at_end
          body_state_inv body_state_alpha)
  next
    case full
    define len where "len = pkg_size p - pkg_offset p"
    let ?xs = "take len (rest_at data nread offset)"
    have lens: "length (received p) = pkg_offset p" "pkg_size p = head_len (head_buf p)"
      "pkg_offset p < pkg_size p"
      using p full by (auto simp: received_def body_state_def)
    have xs: "length ?xs = len" using full off by (simp add: len_def length_rest_at)
    have spec: "spec_from_body M acb (rest_at data nread offset) s (head_buf p) (received p) =
        (case spec_complete acb (head_buf p) (received p @ ?xs) s of None \<Rightarrow> None
         | Some (r, s', a') \<Rightarrow>
             if r = 0 then spec_feed M acb (rest_at data nread (offset + len)) s' a'
             else Some (r, s', a'))"
    proof -
      have "length (received p) + length ?xs = head_len (head_buf p)" "?xs \<noteq> []"
        using lens xs by (auto simp: len_def)
      from spec_feed_body_full [OF this, of M acb s] lens show ?thesis
        by (subst rest_at_split [of data nread offset len])
          (simp only: spec_from_body_def spec_feed_append, simp)
    qed
    obtain p' where p': "pkg_ready p'" "length (head_buf p') = 4" "head_size p' = 4"
      "head_buf p' = head_buf p"
      "pc__pkg_body cb data offset nread (s, p) = map_option (Pair (offset + len))
         (pkg_deliver cb (received p @ ?xs) (pkg_size p) (s, p'))"
      using pkg_body_full [OF p full(1) off full(2)] unfolding len_def by metis
    have "offset + len \<le> nread" "0 < len" using full off lens by (auto simp: len_def)
    moreover have "pkg_size p = length (received p @ ?xs)" using lens xs by (simp add: len_def)
    ultimately show ?thesis
      using complete_refines [OF p'(1,2,3), where body = "received p @ ?xs" and s = s] p'(4) spec
      unfolding p'(5) by (auto split: option.splits)
  qed
qed

lemma iter_refines:
  assumes p: "pkg_inv p" and off: "offset < nread" "nread \<le> length data" "nread < 2 ^ 64"
  shows "case feed_iter M cb data nread offset (s, p) of
      None \<Rightarrow> spec_feed M acb (rest_at data nread offset) s (pkg_alpha p) = None
    | Some (Return r s' p') \<Rightarrow> r = -1 \<and>
        spec_feed M acb (rest_at data nread offset) s (pkg_alpha p) = Some (r, s', pkg_alpha p')
    | Some (Continue off' s' p') \<Rightarrow> offset < off' \<and> off' \<le> nread \<and> pkg_inv p' \<and>
        spec_feed M acb (rest_at data nread offset) s (pkg_alpha p) =
        spec_feed M acb (rest_at data nread off') s' (pkg_alpha p')"
proof (cases "parser_state p")
  case PC_PKG_CLOSED
  with p show ?thesis by (simp add: pkg_inv_def)
next
  case PC_PKG_BODY
  have bs: "body_state p" "pkg_size p > 0" "head_len (head_buf p) > 0"
    using p PC_PKG_BODY by (auto simp: pkg_inv_def body_state_def)
  then have "spec_from_body M acb (rest_at data nread offset) s (head_buf p) (received p) =
      spec_feed M acb (rest_at data nread offset) s (pkg_alpha p)"
    by (simp add: spec_from_body_def body_state_alpha)
  with body_refines [OF bs(1), where offset = offset and nread = nread and data = data and s = s and M = M] off bs PC_PKG_BODY show ?thesis
    by (auto simp: feed_iter_def pkg_inv_def split: option.splits prod.splits)
next
  case PC_PKG_HEAD
  let ?h = "take (head_offset p) (head_buf p)"
  have alpha: "pkg_alpha p = AHead ?h" "length ?h = head_offset p" "head_offset p < 4"
    using PC_PKG_HEAD p by (auto simp: pkg_alpha_def pkg_inv_def)
  show ?thesis
  proof (cases "nread - offset < 4 - head_offset p")
    case True
    obtain p' where p': "pc__pkg_head M data offset nread p = Some (Ok nread, p')"
      "pkg_inv p'" "parser_state p' = PC_PKG_HEAD"
      "pkg_alpha p' = AHead (?h @ rest_at data nread offset)"
      using pkg_head_part [OF p PC_PKG_HEAD off True] by metis
    with alpha True off PC_PKG_HEAD show ?thesis
      by (simp add: feed_iter_def spec_feed_head_part length_rest_at rest_at_end)
  next
    case False
    define len where "len = 4 - head_offset p"
    let ?xs = "take len (rest_at data nread offset)"
    have lxs: "length ?xs = len" "0 < len"
      using False off alpha by (simp_all add: length_rest_at len_def)
    then have xs: "length ?h + length ?xs = 4" "?xs \<noteq> []"
      using alpha by (auto simp: len_def)
    have spec: "spec_feed M acb (rest_at data nread offset) s (AHead ?h) =
       (if head_len (?h @ ?xs) > 0 \<and> \<not> M (head_len (?h @ ?xs))
        then Some (-1, s, AHead (?h @ ?xs))
        else spec_from_body M acb (rest_at data nread (offset + len)) s (?h @ ?xs) [])"
      by (subst rest_at_split [of data nread offset len])
        (auto simp: spec_feed_append spec_feed_head_full [OF xs] spec_from_body_def
          spec_complete_def bind_eq_Some_conv split: option.splits)
    have lens: "offset < offset + len" "offset + len \<le> nread"
      using False alpha off by (auto simp: len_def)
    from False have enough: "4 - head_offset p \<le> nread - offset" by simp
    show ?thesis
    proof (cases rule: pkg_head_full [OF p PC_PKG_HEAD off enough, of M, folded len_def,
          case_names nomem body])
      case (nomem p')
      with spec alpha PC_PKG_HEAD show ?thesis by (simp add: feed_iter_def)
    next
      case (body p')
      have "parser_state p' = PC_PKG_BODY" using body by (simp add: body_state_def)
      with body_refines [OF body(2), where offset = "offset + len" and nread = nread and data = data and s = s and M = M] lens off spec alpha body
        PC_PKG_HEAD show ?thesis
        by (auto simp: feed_iter_def pkg_inv_def split: option.splits prod.splits)
    qed
  qed
qed

lemma loop_refines:
  assumes "pkg_inv p" "offset \<le> nread" "nread \<le> length data" "nread < 2 ^ 64"
  shows "map_option (\<lambda>(r, s, p). (r, s, pkg_alpha p)) (feed_loop M cb data nread offset (s, p)) =
      spec_feed M acb (rest_at data nread offset) s (pkg_alpha p) \<and>
    (\<forall>s' p'. feed_loop M cb data nread offset (s, p) = Some (0, s', p') \<longrightarrow> pkg_inv p')"
  using assms
proof (induction "nread - offset" arbitrary: offset s p rule: less_induct)
  case less
  show ?case
  proof (cases "offset < nread")
    case True
    note iter = iter_refines [OF less.prems(1) True less.prems(3,4), where M = M and s = s]
    show ?thesis
    proof (cases "feed_iter M cb data nread offset (s, p)")
      case None
      with iter True show ?thesis by (simp add: feed_loop.simps)
    next
      case (Some out)
      show ?thesis
      proof (cases out)
        case (Return r s' p')
        with iter True Some show ?thesis by (simp add: feed_loop.simps)
      next
        case (Continue off' s' p')
        with iter Some True less.prems have step: "offset < off'" "off' \<le> nread" "pkg_inv p'"
          "spec_feed M acb (rest_at data nread offset) s (pkg_alpha p) =
           spec_feed M acb (rest_at data nread off') s' (pkg_alpha p')"
          by simp_all
        from less.hyps [OF _ step(3,2) less.prems(3,4), where s = s'] step(1) True step(4) Some Continue
        show ?thesis by (simp add: feed_loop.simps [of M cb data nread offset] diff_less_mono2)
      qed
    qed
  next
    case False
    with less.prems show ?thesis by (simp add: feed_loop.simps rest_at_end)
  qed
qed

lemma feed_refines:
  assumes "pkg_inv p" "nread \<le> length data" "nread < 2 ^ 64"
  shows "map_option (\<lambda>(r, s, p). (r, s, pkg_alpha p)) (pc_pkg_parser_feed M cb data nread (s, p)) =
      spec_feed M acb (take nread data) s (pkg_alpha p)"
    and "pc_pkg_parser_feed M cb data nread (s, p) = Some (0, s', p') \<Longrightarrow> pkg_inv p'"
  using loop_refines [of p 0 nread data, where M = M and s = s] assms
  by (simp_all add: pc_pkg_parser_feed_def rest_at_def)

end

text \<open>An invariant of the world that the callback keeps is kept by the parser.\<close>

definition keeps :: "('s \<Rightarrow> bool) \<Rightarrow> 's pkg_cb \<Rightarrow> bool" where
  "keeps P cb \<longleftrightarrow> (\<forall>t body n s p s' p'. P s \<longrightarrow> cb t body n (s, p) = Some (s', p') \<longrightarrow> P s')"

lemma pkg_body_world:
  assumes "keeps P cb" "P s" "pc__pkg_body cb data offset nread (s, p) = Some (off, s', p')"
  shows "P s'"
proof -
  have cb: "P s'" if "P s" "cb t body n (s, p) = Some (s', p')" for t body n s p s' p'
    using assms(1) that unfolding keeps_def by blast
  show ?thesis
    using assms(2,3) by (auto simp: pc__pkg_body_def Let_def bind_eq_Some_conv split: if_splits dest: cb)
qed

lemma feed_iter_world:
  assumes "keeps P cb" "P s"
  shows "feed_iter M cb data nread offset (s, p) = Some (Return r s' p') \<Longrightarrow> P s'"
    and "feed_iter M cb data nread offset (s, p) = Some (Continue off s' p') \<Longrightarrow> P s'"
  using assms
  by (auto simp: feed_iter_def bind_eq_Some_conv cret_ex split: if_splits dest: pkg_body_world)

lemma feed_loop_world:
  "feed_loop M cb data nread offset st = Some res \<Longrightarrow> keeps P cb \<Longrightarrow> P (fst st) \<Longrightarrow> P (fst (snd res))"
proof (induction rule: feed_loop.raw_induct [rotated, consumes 1])
  case (1 feed M cb data nread offset st res)
  obtain s p where st: "st = (s, p)" by (cases st)
  show ?case
  proof (cases "offset < nread")
    case True
    then obtain oc where oc: "feed_iter M cb data nread offset st = Some oc"
      using 1(2) by (auto split: option.splits)
    show ?thesis
    proof (cases oc)
      case (Return r s' p')
      then show ?thesis using 1(2-4) True oc feed_iter_world(1) [of P cb s] by (auto simp: st)
    next
      case (Continue off s' p')
      then have "P s'" using 1(3,4) oc feed_iter_world(2) [of P cb s] by (simp add: st)
      then show ?thesis using 1(1) [of _ cb] 1(2,3) True oc Continue by (auto simp: st)
    qed
  qed (use 1(2,4) in auto)
qed

lemma feed_world:
  "pc_pkg_parser_feed M cb data nread (s, p) = Some (r, s', p') \<Longrightarrow> keeps P cb \<Longrightarrow> P s \<Longrightarrow> P s'"
  using feed_loop_world [where st = "(s, p)" and res = "(r, s', p')"] by (auto simp: pc_pkg_parser_feed_def)

section \<open>Encoded packages\<close>

text \<open>The bytes of a package: type, big-endian length, body.\<close>

definition pkg_bytes :: "pc_pkg_type \<Rightarrow> byte list \<Rightarrow> byte list" where
  "pkg_bytes t body = [ucast t, word_of_nat (length body div 65536),
     word_of_nat (length body div 256), word_of_nat (length body)] @ body"

lemma length_pkg_bytes [simp]: "length (pkg_bytes t body) = 4 + length body"
  by (simp add: pkg_bytes_def)

lemma replicate_4: "replicate (4 + n) x = x # x # x # x # replicate n x"
  by (simp add: numeral_eq_Suc)

lemma update_4: "(a # b # c # d # xs)[3 := w, 2 := v, 1 := u] = a # u # v # w # xs"
  by (simp add: numeral_2_eq_2 numeral_3_eq_3)

lemma pkg_encode_eq:
  assumes "len \<le> length data" "len < 2 ^ 24" "M (4 + len)"
  shows "pc_pkg_encode M t data len = Some (Ok (pkg_bytes t (take len data)))"
proof (cases "len = 0")
  case True
  with assms show ?thesis
    by (simp add: pc_pkg_encode_def pkg_bytes_def and_0xff ucast_take_bit_byte replicate_4 [of 0, simplified])
next
  case False
  let ?buf = "(replicate (4 + len) 0)[0 := ucast (t AND 0xff)] :: byte list"
  have buf: "?buf = ucast t # 0 # 0 # 0 # replicate len 0"
    by (simp only: replicate_4 and_0xff ucast_take_bit_byte list_update.simps nat.case)
  have "pkg_len_write 0 3 len ?buf =
      [ucast t, word_of_nat (len div 65536), word_of_nat (len div 256), word_of_nat len] @
      replicate len 0"
    unfolding pkg_len_write_eq buf update_4 byte_of_nat_mod by simp
  with False assms show ?thesis
    by (simp add: pc_pkg_encode_def mem_read_def mem_write_def pkg_bytes_def Let_def)
qed

lemma head_pkg_bytes:
  "pkg_bytes t body ! 0 = ucast t" "pkg_bytes t body ! 1 = word_of_nat (length body div 65536)"
  "pkg_bytes t body ! 2 = word_of_nat (length body div 256)"
  "pkg_bytes t body ! 3 = word_of_nat (length body)"
  by (simp_all add: pkg_bytes_def)

lemma head_len_pkg_bytes:
  assumes "length body < 2 ^ 24"
  shows "head_len (take 4 (pkg_bytes t body)) = length body"
proof -
  have "head_len (take 4 (pkg_bytes t body)) = length body div 65536 mod 256 * 65536 +
      length body div 256 mod 256 * 256 + length body mod 256"
    by (simp add: head_len_def head_pkg_bytes [simplified] unat_of_nat)
  then show ?thesis using be24_digits [OF assms] by (rule trans)
qed

lemma pkg_type_pkg_bytes: "t < 256 \<Longrightarrow> pc__pkg_type (take 4 (pkg_bytes t body)) = t"
  by (simp add: pc__pkg_type_def head_pkg_bytes ucast_byte_32 and_0xff take_bit_8_small)

lemma drop_pkg_bytes [simp]: "drop 4 (pkg_bytes t body) = body"
  by (simp add: pkg_bytes_def)

text \<open>The specification consumes one encoded package at a time.\<close>

lemma spec_feed_package:
  assumes t: "t < 256" and body: "length body < 2 ^ 24" and M: "body = [] \<or> M (length body)"
  shows "spec_feed M acb (pkg_bytes t body) s (AHead []) =
    (case acb t body s of None \<Rightarrow> None | Some s' \<Rightarrow> Some (0, s', AHead []))"
proof -
  obtain h where h: "pkg_bytes t body = h @ body" "length h = 4" "head_len h = length body"
    "pc__pkg_type h = t"
    using head_len_pkg_bytes [OF body] pkg_type_pkg_bytes [OF t, of body] drop_pkg_bytes [of t body]
    by (metis append_take_drop_id length_pkg_bytes length_take min.absorb2 le_add1)
  then have "h \<noteq> []" by auto
  then have head: "spec_feed M acb h s (AHead []) = (if body = [] then spec_complete acb h [] s
      else Some (0, s, ABody h []))"
    using spec_feed_head_full [of "[]" h M acb s] h M by auto
  show ?thesis
  proof (cases "body = []")
    case True
    with head h show ?thesis by (auto simp: spec_complete_def split: option.splits)
  next
    case False
    with head h show ?thesis
      by (auto simp: spec_feed_append spec_feed_body_full spec_complete_def split: option.splits)
  qed
qed

fun deliver_all :: "(pc_pkg_type \<Rightarrow> byte list \<Rightarrow> 's \<Rightarrow> 's option) \<Rightarrow> (pc_pkg_type \<times> byte list) list \<Rightarrow>
    's \<Rightarrow> 's option" where
  "deliver_all acb [] s = Some s"
| "deliver_all acb ((t, body) # pkgs) s = do { s \<leftarrow> acb t body s; deliver_all acb pkgs s }"

definition pkg_fits :: "malloc \<Rightarrow> pc_pkg_type \<times> byte list \<Rightarrow> bool" where
  "pkg_fits M = (\<lambda>(t, body). t < 256 \<and> length body < 2 ^ 24 \<and> M (4 + length body) \<and>
     (body = [] \<or> M (length body)))"

lemma spec_feed_stream:
  assumes "\<forall>x \<in> set pkgs. pkg_fits M x"
  shows "spec_feed M acb (concat (map (\<lambda>(t, body). pkg_bytes t body) pkgs)) s (AHead []) =
    (case deliver_all acb pkgs s of None \<Rightarrow> None | Some s' \<Rightarrow> Some (0, s', AHead []))"
  using assms
proof (induction pkgs arbitrary: s)
  case Nil
  then show ?case by simp
next
  case (Cons x pkgs)
  obtain t body where x: "x = (t, body)" by (cases x)
  from Cons.prems have "t < 256" "length body < 2 ^ 24" "body = [] \<or> M (length body)"
    by (auto simp: x pkg_fits_def)
  with Cons show ?case
    by (auto simp: x spec_feed_append spec_feed_package split: option.splits)
qed

lemma spec_feed_total:
  assumes "\<And>t body s. acb t body s \<noteq> None"
  shows "\<exists>r s' a'. spec_feed M acb bs s a = Some (r, s', a') \<and> (r = 0 \<or> r = -1)"
proof (induction bs arbitrary: s a)
  case Nil
  then show ?case by simp
next
  case (Cons b bs)
  have "\<exists>r s' a'. spec_byte M acb b s a = Some (r, s', a') \<and> (r = 0 \<or> r = -1)"
  proof (cases a)
    case (AHead h)
    with assms [of "pc__pkg_type (h @ [b])" "[]" s] show ?thesis
      by (auto simp: Let_def spec_complete_def)
  next
    case (ABody h xs)
    with assms [of "pc__pkg_type h" "xs @ [b]" s] show ?thesis
      by (auto simp: Let_def spec_complete_def)
  qed simp
  then show ?case using Cons.IH by (auto split: if_splits)
qed

section \<open>Properties\<close>

text \<open>(C2) Refinement. The bulk-copying parser is a faithful implementation of the byte-at-a-time
  automaton: for every allocator, every callback that keeps the contract, every reachable parser
  state and every input, it delivers the same packages to the same callback in the same order,
  returns the same status and ends in a state that represents the automaton's.\<close>

theorem pkg_feed_refines_automaton:
  assumes "pkg_client cb acb" and "pkg_inv p" and "nread \<le> length data" and "nread < 2 ^ 64"
  shows "map_option (\<lambda>(r, s, p). (r, s, pkg_alpha p)) (pc_pkg_parser_feed M cb data nread (s, p)) =
    spec_feed M acb (take nread data) s (pkg_alpha p)"
  using pkg_client.feed_refines(1) [OF assms(1)] assms by blast

text \<open>A client that logs the packages it is handed.\<close>

definition log_cb :: "(pc_pkg_type \<times> byte list) list pkg_cb" where
  "log_cb t body n = (\<lambda>(s, p). Some (s @ [(t, body)], p))"

definition log_acb :: "pc_pkg_type \<Rightarrow> byte list \<Rightarrow> (pc_pkg_type \<times> byte list) list \<Rightarrow>
    (pc_pkg_type \<times> byte list) list option" where
  "log_acb t body s = Some (s @ [(t, body)])"

lemma log_client: "pkg_client log_cb log_acb"
  by unfold_locales (auto simp: log_cb_def log_acb_def)

definition fresh_parser :: pc_pkg_parser where
  "fresh_parser = pc_pkg_parser_init zero_parser"

lemma fresh_parser_inv: "pkg_inv fresh_parser" "pkg_alpha fresh_parser = AHead []"
  by (simp_all add: fresh_parser_def pc_pkg_parser_init_def zero_parser_def pkg_inv_def pkg_alpha_def)

theorem pkg_feed_refines_automaton_witness:
  "map_option (\<lambda>(r, s, p). (r, s, pkg_alpha p))
     (pc_pkg_parser_feed (\<lambda>_. True) log_cb [4, 0, 0, 2, 7, 8, 3, 0] 8 ([], fresh_parser)) =
   Some (0, [(4, [7, 8])], AHead [3, 0])"
proof -
  have "spec_feed (\<lambda>_. True) log_acb (take 8 [4, 0, 0, 2, 7, 8, 3, 0]) [] (AHead []) =
      Some (0, [(4, [7, 8])], AHead [3, 0])"
    by (simp add: head_len_def spec_complete_def log_acb_def pc__pkg_type_def Let_def)
  then show ?thesis
    using pkg_feed_refines_automaton [OF log_client fresh_parser_inv(1),
        of 8 "[4, 0, 0, 2, 7, 8, 3, 0]" "\<lambda>_. True" "[]"]
    by (simp add: fresh_parser_inv(2))
qed



text \<open>(C29) Fragmentation does not matter. However TCP cuts the stream, feeding the pieces one after
  the other has the effect of feeding them at once: same packages, same status, same state.\<close>

theorem pkg_feed_fragmentation:
  assumes client: "pkg_client cb acb" and inv: "pkg_inv p" and n: "length xs + length ys < 2 ^ 64"
    and first: "pc_pkg_parser_feed M cb xs (length xs) (s, p) = Some (0, s1, p1)"
  shows "map_option (\<lambda>(r, s, p). (r, s, pkg_alpha p))
      (pc_pkg_parser_feed M cb (xs @ ys) (length (xs @ ys)) (s, p)) =
    map_option (\<lambda>(r, s, p). (r, s, pkg_alpha p)) (pc_pkg_parser_feed M cb ys (length ys) (s1, p1))"
proof -
  have inv1: "pkg_inv p1"
    using pkg_client.feed_refines(2) [OF client inv _ _ first] n by simp
  have "spec_feed M acb xs s (pkg_alpha p) = Some (0, s1, pkg_alpha p1)"
    using pkg_client.feed_refines(1) [OF client inv, of "length xs" xs M s] first n by simp
  then have "spec_feed M acb (xs @ ys) s (pkg_alpha p) = spec_feed M acb ys s1 (pkg_alpha p1)"
    by (simp add: spec_feed_append)
  then show ?thesis
    using pkg_client.feed_refines(1) [OF client inv, of "length (xs @ ys)" "xs @ ys" M s]
      pkg_client.feed_refines(1) [OF client inv1, of "length ys" ys M s1] n by simp
qed

lemma log_feed_example:
  "\<exists>p1. pc_pkg_parser_feed (\<lambda>_. True) log_cb [4, 0, 0] (length [4, 0, 0 :: byte]) ([], fresh_parser) =
     Some (0, [], p1) \<and> pkg_inv p1 \<and> pkg_alpha p1 = AHead [4, 0, 0]"
proof -
  have "spec_feed (\<lambda>_. True) log_acb [4, 0, 0] [] (AHead []) = Some (0, [], AHead [4, 0, 0])"
    by (simp add: Let_def)
  then obtain p1 where p1: "pc_pkg_parser_feed (\<lambda>_. True) log_cb [4, 0, 0] (length [4, 0, 0 :: byte])
      ([], fresh_parser) = Some (0, [], p1)" "pkg_alpha p1 = AHead [4, 0, 0]"
    using pkg_client.feed_refines(1) [OF log_client fresh_parser_inv(1),
        of "length [4, 0, 0 :: byte]" "[4, 0, 0]" "\<lambda>_. True" "[]"]
    by (auto simp: fresh_parser_inv)
  with pkg_client.feed_refines(2) [OF log_client fresh_parser_inv(1) _ _ p1(1)] show ?thesis
    by auto
qed

theorem pkg_feed_fragmentation_witness:
  "let xs = [4, 0, 0] :: byte list; ys = [1, 9] in
   \<exists>p1. pc_pkg_parser_feed (\<lambda>_. True) log_cb xs (length xs) ([], fresh_parser) = Some (0, [], p1) \<and>
    map_option (\<lambda>(r, s, p). (r, s, pkg_alpha p))
      (pc_pkg_parser_feed (\<lambda>_. True) log_cb (xs @ ys) (length (xs @ ys)) ([], fresh_parser)) =
    map_option (\<lambda>(r, s, p). (r, s, pkg_alpha p))
      (pc_pkg_parser_feed (\<lambda>_. True) log_cb ys (length ys) ([], p1))"
proof -
  obtain p1 where p1: "pc_pkg_parser_feed (\<lambda>_. True) log_cb [4, 0, 0] (length [4, 0, 0 :: byte])
      ([], fresh_parser) = Some (0, [], p1)"
    using log_feed_example by blast
  with pkg_feed_fragmentation [OF log_client fresh_parser_inv(1) _ p1, of "[1, 9]"]
  show ?thesis unfolding Let_def by fastforce
qed

text \<open>(C8) Round trip of a stream. The concatenation of any packages encoded by
  \<open>pc_pkg_encode\<close>, fed to a parser between two packages, makes the callback run on exactly those
  packages in their order, and leaves the parser between two packages.\<close>

theorem pkg_stream_roundtrip:
  assumes client: "pkg_client cb acb" and p: "pkg_inv p" "pkg_alpha p = AHead []"
    and fits: "\<forall>x \<in> set pkgs. pkg_fits M x"
    and enc: "list_all2 (\<lambda>(t, body) e. pc_pkg_encode M t body (length body) = Some (Ok e)) pkgs es"
    and n: "length (concat es) < 2 ^ 64"
    and deliver: "deliver_all acb pkgs s = Some s'"
  shows "\<exists>p'. pc_pkg_parser_feed M cb (concat es) (length (concat es)) (s, p) = Some (0, s', p') \<and>
    pkg_inv p' \<and> pkg_alpha p' = AHead []"
proof -
  have "es = map (\<lambda>(t, body). pkg_bytes t body) pkgs"
    using enc fits by (induction rule: list_all2_induct)
      (auto simp: pkg_fits_def pkg_encode_eq)
  then have "spec_feed M acb (concat es) s (AHead []) = Some (0, s', AHead [])"
    using spec_feed_stream [OF fits, of acb s] deliver by simp
  with pkg_client.feed_refines(1) [OF client p(1), of "length (concat es)" "concat es" M s] p(2) n
  obtain p' where p': "pc_pkg_parser_feed M cb (concat es) (length (concat es)) (s, p) =
      Some (0, s', p')" "pkg_alpha p' = AHead []" by auto
  moreover have "pkg_inv p'"
    using pkg_client.feed_refines(2) [OF client p(1) _ _ p'(1)] n by simp
  ultimately show ?thesis by blast
qed

theorem pkg_stream_roundtrip_witness:
  "\<exists>p'. pc_pkg_parser_feed (\<lambda>_. True) log_cb (concat [[3, 0, 0, 0], [4, 0, 0, 1, 65]])
     (length (concat [[3, 0, 0, 0], [4, 0, 0, 1, 65 :: byte]])) ([], fresh_parser) =
   Some (0, [(3, []), (4, [65])], p') \<and> pkg_inv p' \<and> pkg_alpha p' = AHead []"
  by (rule pkg_stream_roundtrip [OF log_client fresh_parser_inv, where pkgs = "[(3, []), (4, [65])]"])
    (simp_all add: pkg_fits_def pkg_encode_eq pkg_bytes_def log_acb_def)

text \<open>The encoder on every branch: a body of \<open>2 ^ 24\<close> bytes or more, or a failing
  \<open>malloc\<close>, is reported as an error; otherwise the result is the type byte, the three length
  bytes, most significant first, and the body.\<close>

theorem pkg_encode_branches:
  assumes "len \<le> length data"
  shows "pc_pkg_encode M t data len =
    (if len \<ge> 2 ^ 24 \<or> \<not> M (4 + len) then Some Fail
     else Some (Ok ([ucast t, word_of_nat (len div 65536), word_of_nat (len div 256),
            word_of_nat len] @ take len data)))"
proof (cases "len \<ge> 2 ^ 24 \<or> \<not> M (4 + len)")
  case True
  then show ?thesis by (auto simp: pc_pkg_encode_def)
next
  case False
  with pkg_encode_eq [of len data M t] assms show ?thesis
    by (simp add: pkg_bytes_def byte_of_nat_mod min_def)
qed

theorem pkg_encode_branches_witness:
  "pc_pkg_encode (\<lambda>_. True) PC_PKG_DATA [1, 2, 3] 3 = Some (Ok [4, 0, 0, 3, 1, 2, 3])"
  using pkg_encode_branches [of 3 "[1, 2, 3]" "\<lambda>_. True" PC_PKG_DATA]
  by (simp add: PC_PKG_DATA_def)

end
