(* ===== verification/Message.thy ===== *)
theory Message
  imports C_Base
begin

text \<open>
  The message layer (\<open>message.c\<close>, \<open>message.h\<close>): the header of a message in front of its
  body. A flag byte holds the type and whether the route is compressed; requests and responses carry
  an id in base 128, least significant digit first; everything but a response carries a route, as a
  length byte and a string or as a two-byte code of the dictionary.

  \<open>uint32_t\<close> ids are natural numbers below \<open>2 ^ 32\<close>. The contents of memory from
  \<open>malloc\<close> are indeterminate: the encoders take them as a parameter \<open>junk\<close>. Plain
  \<open>char\<close> is signed or unsigned (parameter \<open>sc\<close> of the decoder).

  The lemmas give the exact bytes of the encoders, the round trips with the decoder, and the inputs
  on which the decoder has undefined behaviour.
\<close>

section \<open>Data\<close>

datatype pc_msg_type = PC_MSG_REQUEST | PC_MSG_NOTIFY | PC_MSG_RESPONSE | PC_MSG_PUSH

fun msg_type_code :: "pc_msg_type \<Rightarrow> nat" where
  "msg_type_code PC_MSG_REQUEST = 0"
| "msg_type_code PC_MSG_NOTIFY = 1"
| "msg_type_code PC_MSG_RESPONSE = 2"
| "msg_type_code PC_MSG_PUSH = 3"

definition PC_MSG_HAS_ID :: "pc_msg_type \<Rightarrow> bool" where
  "PC_MSG_HAS_ID type \<longleftrightarrow> type = PC_MSG_REQUEST \<or> type = PC_MSG_RESPONSE"

definition PC_MSG_HAS_ROUTE :: "pc_msg_type \<Rightarrow> bool" where
  "PC_MSG_HAS_ROUTE type \<longleftrightarrow> type \<noteq> PC_MSG_RESPONSE"

text \<open>\<open>PC_MSG_VALIDATE\<close> and the cast to the enumeration: \<open>None\<close> for a number that is
  no message type.\<close>

definition PC_MSG_VALIDATE :: "nat \<Rightarrow> pc_msg_type option" where
  "PC_MSG_VALIDATE n =
     (if n = 0 then Some PC_MSG_REQUEST else if n = 1 then Some PC_MSG_NOTIFY
      else if n = 2 then Some PC_MSG_RESPONSE else if n = 3 then Some PC_MSG_PUSH else None)"

text \<open>The union \<open>route\<close>: a code when \<open>compressRoute\<close> is set, a string pointer that may
  be null otherwise.\<close>

datatype msg_route = Route_code nat | Route_str "string option"

record pc__msg_raw =
  raw_id :: nat
  raw_type :: pc_msg_type
  raw_compressRoute :: bool
  raw_route :: msg_route
  raw_body :: "byte list"

section \<open>Encoding\<close>

text \<open>The loop shifts the id right by seven bits until nothing is left.\<close>

fun pc__msg_id_length :: "nat \<Rightarrow> nat" where
  "pc__msg_id_length msgid = (if msgid div 128 > 0 then Suc (pc__msg_id_length (msgid div 128)) else 1)"

declare pc__msg_id_length.simps [simp del]

definition pc__msg_encode_flag ::
  "pc_msg_type \<Rightarrow> bool \<Rightarrow> byte list \<Rightarrow> nat \<Rightarrow> (nat \<times> byte list) option" where
  "pc__msg_encode_flag type compressRoute base offset = do {
     base \<leftarrow> mem_write base offset
       [word_of_nat ((msg_type_code type * 2) OR (if compressRoute then 1 else 0))];
     Some (offset + 1, base) }"

function pc__msg_encode_id :: "nat \<Rightarrow> byte list \<Rightarrow> nat \<Rightarrow> (nat \<times> byte list) option" where
  "pc__msg_encode_id msgid base offset =
     (let tmp = msgid mod 128; next = msgid div 128 in
      case mem_write base offset [word_of_nat (if next \<noteq> 0 then tmp + 128 else tmp)] of
        None \<Rightarrow> None
      | Some base \<Rightarrow> if next \<noteq> 0 then pc__msg_encode_id next base (offset + 1)
                     else Some (offset + 1, base))"
  by pat_completeness auto
termination
  by (relation "measure (\<lambda>(msgid, _). msgid)") auto

declare pc__msg_encode_id.simps [simp del]

definition pc__msg_encode_route ::
  "string \<Rightarrow> nat \<Rightarrow> byte list \<Rightarrow> nat \<Rightarrow> (nat \<times> byte list) option" where
  "pc__msg_encode_route route route_len base offset = do {
     base \<leftarrow> mem_write base offset [word_of_nat (route_len mod 256)];
     xs \<leftarrow> mem_read (str_bytes route @ [0]) 0 route_len;
     base \<leftarrow> mem_write base (offset + 1) xs;
     Some (offset + 1 + route_len, base) }"

definition pc_msg_encode_route ::
  "malloc \<Rightarrow> (nat \<Rightarrow> byte) \<Rightarrow> nat \<Rightarrow> pc_msg_type \<Rightarrow> string \<Rightarrow> byte list \<Rightarrow> byte list cret option" where
  "pc_msg_encode_route M junk msgid type route msg =
     (let id_len = (if PC_MSG_HAS_ID type then pc__msg_id_length msgid else 0);
          route_len = (if PC_MSG_HAS_ROUTE type then length route mod 2 ^ 16 else 0);
          msg_len = 1 + id_len + 1 + route_len + length msg in
      if \<not> M msg_len then Some Fail
      else do {
        let base = map junk [0..<msg_len];
        (offset, base) \<leftarrow> pc__msg_encode_flag type False base 0;
        (offset, base) \<leftarrow> (if PC_MSG_HAS_ID type then pc__msg_encode_id msgid base offset
                          else Some (offset, base));
        (offset, base) \<leftarrow> (if PC_MSG_HAS_ROUTE type
                          then pc__msg_encode_route route route_len base offset
                          else Some (offset, base));
        base \<leftarrow> mem_write base offset msg;
        Some (Ok base) })"

definition pc_msg_encode_code ::
  "malloc \<Rightarrow> (nat \<Rightarrow> byte) \<Rightarrow> nat \<Rightarrow> pc_msg_type \<Rightarrow> int \<Rightarrow> byte list \<Rightarrow> byte list cret option" where
  "pc_msg_encode_code M junk msgid type routeCode msg =
     (let id_len = (if PC_MSG_HAS_ID type then pc__msg_id_length msgid else 0);
          route_len = (if PC_MSG_HAS_ROUTE type then 2 else 0);
          msg_len = 1 + id_len + route_len + length msg in
      if \<not> M msg_len then Some Fail
      else do {
        let base = map junk [0..<msg_len];
        (offset, base) \<leftarrow> pc__msg_encode_flag type True base 0;
        (offset, base) \<leftarrow> (if PC_MSG_HAS_ID type then pc__msg_encode_id msgid base offset
                          else Some (offset, base));
        (offset, base) \<leftarrow> (if PC_MSG_HAS_ROUTE type then do {
            base \<leftarrow> mem_write base offset [word_of_int (routeCode div 256 mod 256)];
            base \<leftarrow> mem_write base (offset + 1) [word_of_int (routeCode mod 256)];
            Some (offset + 2, base) }
          else Some (offset, base));
        base \<leftarrow> mem_write base offset msg;
        Some (Ok base) })"

section \<open>Decoding\<close>

text \<open>The loop that reads the id. \<open>1 << (7*i)\<close> is an \<open>int\<close>: a shift of 32 or more and a
  product that does not fit are undefined. Nothing in the loop compares the offset with the length:
  reading past the end of the data is undefined.\<close>

definition id_term :: "byte \<Rightarrow> nat \<Rightarrow> nat option" where
  "id_term m i =
     (if 7 * i < 31 \<and> unat (m AND 0x7f) * 2 ^ (7 * i) < 2 ^ 31
      then Some (unat (m AND 0x7f) * 2 ^ (7 * i)) else None)"

function decode_id_loop :: "byte list \<Rightarrow> nat \<Rightarrow> nat \<Rightarrow> nat \<Rightarrow> (nat \<times> nat) option" where
  "decode_id_loop data offset i msgid =
     (if offset < length data then
        (case id_term (data ! offset) i of
           None \<Rightarrow> None
         | Some t \<Rightarrow>
             if unat (data ! offset) \<ge> 128
             then decode_id_loop data (offset + 1) (i + 1) ((msgid + t) mod 2 ^ 32)
             else Some ((msgid + t) mod 2 ^ 32, offset + 1))
      else None)"
  by pat_completeness auto
termination
  by (relation "measure (\<lambda>(data, offset, _). length data - offset)") auto

declare decode_id_loop.simps [simp del]

text \<open>The route of a message that has one: the code, or the length byte and the string. The
  length is a plain \<open>char\<close> converted to \<open>size_t\<close>, so that a negative \<open>char\<close>
  becomes a huge length; the bound check adds it to the offset modulo \<open>2 ^ 64\<close>.\<close>

definition decode_route ::
  "bool \<Rightarrow> malloc \<Rightarrow> byte list \<Rightarrow> nat \<Rightarrow> bool \<Rightarrow> nat \<Rightarrow> (msg_route \<times> nat) cret option" where
  "decode_route sc M data len compressRoute offset =
     (if compressRoute then
        if size_add offset 2 > len then Some Fail
        else do {
          hi \<leftarrow> mem_get data offset;
          lo \<leftarrow> mem_get data (offset + 1);
          Some (Ok (Route_code (unat hi * 256 + unat lo), offset + 2)) }
      else
        if size_add offset 1 > len then Some Fail
        else do {
          b \<leftarrow> mem_get data offset;
          let route_len = char_to_size sc b;
          let offset = offset + 1;
          if route_len = 0 then Some (Ok (Route_str None, offset))
          else
            let size = size_add route_len 1 in
            if \<not> M size then Some Fail
            else if size_add offset route_len > len then Some Fail
            else do {
              xs \<leftarrow> mem_read data offset route_len;
              route_str \<leftarrow> mem_write (replicate size 0) 0 xs;
              Some (Ok (Route_str (Some (bytes_str route_str)), size_add offset route_len)) } })"

definition pc_msg_decode ::
  "bool \<Rightarrow> malloc \<Rightarrow> byte list \<Rightarrow> nat \<Rightarrow> pc__msg_raw cret option" where
  "pc_msg_decode sc M data len =
     (if \<not> M 40 then Some Fail \<comment> \<open>\<open>sizeof(pc__msg_raw_t)\<close>\<close>
      else if 1 > len then Some Fail
      else do {
        flag \<leftarrow> mem_get data 0;
        let offset = 1;
        let compressRoute = odd (unat flag);
        case PC_MSG_VALIDATE (unat flag div 2) of
          None \<Rightarrow> Some Fail
        | Some type \<Rightarrow>
          if PC_MSG_HAS_ID type \<and> size_add offset 1 > len then Some Fail
          else do {
            (msgid, offset) \<leftarrow> (if PC_MSG_HAS_ID type then decode_id_loop data offset 0 0
                            else Some (0, offset));
            r \<leftarrow> (if PC_MSG_HAS_ROUTE type then decode_route sc M data len compressRoute offset
                  else Some (Ok (Route_str None, offset)));
            case r of
              Fail \<Rightarrow> Some Fail
            | Ok (route, offset) \<Rightarrow> do {
                let body_len = size_sub len offset;
                body \<leftarrow> (if body_len \<noteq> 0
                         then if M body_len then mem_read data offset body_len else None
                         else Some []);
                Some (Ok \<lparr>raw_id = msgid, raw_type = type, raw_compressRoute = compressRoute,
                          raw_route = route, raw_body = body\<rparr>) } } })"

section \<open>The id in base 128\<close>

fun id_bytes :: "nat \<Rightarrow> byte list" where
  "id_bytes n = (if n < 128 then [word_of_nat n]
     else word_of_nat (n mod 128 + 128) # id_bytes (n div 128))"

declare id_bytes.simps [simp del]

lemma id_length_eq: "pc__msg_id_length n = length (id_bytes n)"
proof (induction n rule: id_bytes.induct)
  case (1 n)
  show ?case
  proof (cases "n < 128")
    case True
    then show ?thesis by (simp add: pc__msg_id_length.simps [of n] id_bytes.simps [of n])
  next
    case False
    then have "0 < n div 128" by (simp add: div_greater_zero_iff)
    with False 1 show ?thesis
      by (simp add: pc__msg_id_length.simps [of n] id_bytes.simps [of n])
  qed
qed

lemma encode_id_eq:
  "length (id_bytes n) \<le> length rest \<Longrightarrow>
   pc__msg_encode_id n (pre @ rest) (length pre) =
     Some (length pre + length (id_bytes n), pre @ id_bytes n @ drop (length (id_bytes n)) rest)"
proof (induction n arbitrary: pre rest rule: id_bytes.induct)
  case (1 n)
  show ?case
  proof (cases "n < 128")
    case True
    with 1 show ?thesis
      by (simp add: pc__msg_encode_id.simps [of n] id_bytes.simps [of n] mem_simps)
  next
    case False
    let ?b = "word_of_nat (n mod 128 + 128) :: byte"
    from False have n: "id_bytes n = ?b # id_bytes (n div 128)" "n div 128 \<noteq> 0"
      by (simp_all add: id_bytes.simps [of n] div_greater_zero_iff)
    with 1(2) have len: "length (id_bytes (n div 128)) \<le> length (drop 1 rest)"
      "length [?b] \<le> length rest" by (simp_all add: le_diff_conv2)
    have "pc__msg_encode_id n (pre @ rest) (length pre) =
        pc__msg_encode_id (n div 128) ((pre @ [?b]) @ drop 1 rest) (length (pre @ [?b]))"
      using n(2) mem_write_at [OF len(2), of pre] by (simp add: pc__msg_encode_id.simps [of n])
    also have "\<dots> = Some (length (pre @ [?b]) + length (id_bytes (n div 128)),
        (pre @ [?b]) @ id_bytes (n div 128) @ drop (length (id_bytes (n div 128))) (drop 1 rest))"
      using False 1(1) [OF _ len(1)] by blast
    finally show ?thesis by (simp add: n)
  qed
qed

lemma decode_id_eq:
  "n * 2 ^ (7 * i) + acc < 2 ^ 31 \<Longrightarrow> 7 * i < 31 \<Longrightarrow>
   decode_id_loop (pre @ id_bytes n @ suf) (length pre) i acc =
     Some (acc + n * 2 ^ (7 * i), length pre + length (id_bytes n))"
proof (induction n arbitrary: pre i acc rule: id_bytes.induct)
  case (1 n)
  show ?case
  proof (cases "n < 128")
    case True
    with 1(2,3) show ?thesis
      by (simp add: decode_id_loop.simps [of _ "length pre"] id_bytes.simps [of n] id_term_def
          unat_and_0x7f unat_byte_of_nat add.commute)
  next
    case False
    let ?b = "word_of_nat (n mod 128 + 128) :: byte"
    let ?p = "2 ^ (7 * i) :: nat"
    from False have n: "id_bytes n = ?b # id_bytes (n div 128)"
      by (simp add: id_bytes.simps [of n])
    have b: "unat ?b = n mod 128 + 128" by (rule unat_byte_of_nat) simp
    have pow: "2 ^ (7 * Suc i) = 128 * ?p" by (simp add: power_add)
    have split: "n * ?p = n mod 128 * ?p + n div 128 * (128 * ?p)"
      by (metis add.commute add_mult_distrib div_mult_mod_eq mult.assoc)
    then have small: "n mod 128 * ?p < 2 ^ 31" "acc + n mod 128 * ?p < 2 ^ 31"
      "n div 128 * 2 ^ (7 * Suc i) + (acc + n mod 128 * ?p) < 2 ^ 31"
      using 1(2) unfolding pow by linarith+
    have "1 \<le> n div 128" using False by (simp add: Suc_le_eq div_greater_zero_iff)
    then have "128 * ?p \<le> n div 128 * (128 * ?p)" by (metis mult_1 mult_le_mono1)
    with split 1(2) have "2 ^ (7 * Suc i) < (2 :: nat) ^ 31" unfolding pow by linarith
    then have i: "7 * Suc i < 31" by (rule power_less_imp_less_exp [rotated]) simp
    have "decode_id_loop (pre @ id_bytes n @ suf) (length pre) i acc =
        decode_id_loop ((pre @ [?b]) @ id_bytes (n div 128) @ suf) (length (pre @ [?b]))
          (Suc i) (acc + n mod 128 * ?p)"
      using small 1(3) b
      by (simp add: decode_id_loop.simps [of _ "length pre"] n id_term_def unat_and_0x7f)
    also have "\<dots> = Some (acc + n mod 128 * ?p + n div 128 * 2 ^ (7 * Suc i),
        length (pre @ [?b]) + length (id_bytes (n div 128)))"
      using False small(3) i by (intro 1(1)) auto
    finally show ?thesis using split unfolding pow by (simp add: n)
  qed
qed

lemma id_bytes_length_le: "n < 128 ^ k \<Longrightarrow> 0 < k \<Longrightarrow> length (id_bytes n) \<le> k"
proof (induction n arbitrary: k rule: id_bytes.induct)
  case (1 n)
  show ?case
  proof (cases "n < 128")
    case True
    with 1(3) show ?thesis by (simp add: id_bytes.simps [of n])
  next
    case False
    with 1(2,3) obtain j where j: "k = Suc j" "0 < j"
      by (cases k; cases "k - 1") auto
    with 1(2) have "n div 128 < 128 ^ j" by (simp add: less_mult_imp_div_less mult.commute)
    with 1(1) False j have "length (id_bytes (n div 128)) \<le> j" by simp
    with False j show ?thesis by (simp add: id_bytes.simps [of n])
  qed
qed

section \<open>The bytes the encoders produce\<close>

definition flag_byte :: "pc_msg_type \<Rightarrow> bool \<Rightarrow> byte" where
  "flag_byte type c = word_of_nat (msg_type_code type * 2 + (if c then 1 else 0))"

definition id_part :: "pc_msg_type \<Rightarrow> nat \<Rightarrow> byte list" where
  "id_part type n = (if PC_MSG_HAS_ID type then id_bytes n else [])"

lemma id_part_length: "n < 2 ^ 31 \<Longrightarrow> length (id_part type n) \<le> 5"
  using id_bytes_length_le [of n 5] by (simp add: id_part_def)

lemma unat_flag_byte: "unat (flag_byte type c) = msg_type_code type * 2 + (if c then 1 else 0)"
  unfolding flag_byte_def by (rule unat_byte_of_nat) (cases type; simp)

lemma encode_flag_eq:
  assumes "J \<noteq> []"
  shows "pc__msg_encode_flag type c J 0 = Some (1, [flag_byte type c] @ drop 1 J)"
proof -
  have "(msg_type_code type * 2) OR (if c then 1 else 0) = msg_type_code type * 2 + (if c then 1 else 0)"
    by (cases type) auto
  moreover have "length [flag_byte type c] \<le> length J" using assms by (cases J) auto
  ultimately show ?thesis
    using mem_write_at [of "[flag_byte type c]" J "[]"]
    by (simp add: pc__msg_encode_flag_def flag_byte_def)
qed

lemma msg_encode_route_bytes:
  assumes M: "M (2 + length (id_part type n) + length route + length msg)"
    and type: "PC_MSG_HAS_ROUTE type" and route: "length route < 2 ^ 16"
  shows "pc_msg_encode_route M junk n type route msg =
    Some (Ok (flag_byte type False # id_part type n @ word_of_nat (length route) # str_bytes route @ msg))"
proof -
  define L where "L = 2 + length (id_part type n) + length route + length msg"
  define J where "J = map junk [0..<L]"
  have J: "length J = L" "J \<noteq> []" by (simp_all add: J_def L_def)
  have ml: "1 + (if PC_MSG_HAS_ID type then pc__msg_id_length n else 0) + 1 + length route + length msg = L"
    by (simp add: L_def id_part_def id_length_eq)
  have len: "length route mod 2 ^ 16 = length route" using route by simp
  let ?f = "flag_byte type False" and ?i = "id_part type n" and ?l = "word_of_nat (length route) :: byte"
  have ids: "(if PC_MSG_HAS_ID type then pc__msg_encode_id n ([?f] @ drop 1 J) 1 else Some (1, [?f] @ drop 1 J))
      = Some (length (?f # ?i), (?f # ?i) @ drop (length (?f # ?i)) J)"
    using encode_id_eq [of n "drop 1 J" "[?f]"] J
    by (cases "PC_MSG_HAS_ID type") (simp_all add: id_part_def L_def)
  let ?R = "drop (length (?f # ?i)) J"
  have R: "length ?R = 1 + length route + length msg" using J by (simp add: L_def)
  have l: "mem_write ((?f # ?i) @ ?R) (length (?f # ?i)) [word_of_nat (length route mod 256)] =
      Some ((?f # ?i @ [?l]) @ drop 1 ?R)"
    using mem_write_at [of "[?l]" ?R "?f # ?i"] R by (simp add: byte_of_nat_mod)
  have r: "mem_write ((?f # ?i @ [?l]) @ drop 1 ?R) (length (?f # ?i) + 1) (str_bytes route) =
      Some ((?f # ?i @ [?l] @ str_bytes route) @ drop (1 + length route) ?R)"
    using mem_write_at [of "str_bytes route" "drop 1 ?R" "?f # ?i @ [?l]"] R by (simp add: add.commute)
  have rt: "pc__msg_encode_route route (length route) ((?f # ?i) @ ?R) (length (?f # ?i)) =
      Some (length (?f # ?i @ [?l] @ str_bytes route),
        (?f # ?i @ [?l] @ str_bytes route) @ drop (1 + length route) ?R)"
    unfolding pc__msg_encode_route_def l Option.bind.simps
    using r by (simp add: mem_read_def)
  have m: "mem_write ((?f # ?i @ [?l] @ str_bytes route) @ drop (1 + length route) ?R)
      (length (?f # ?i @ [?l] @ str_bytes route)) msg = Some (?f # ?i @ [?l] @ str_bytes route @ msg)"
    using mem_write_at [of msg "drop (1 + length route) ?R" "?f # ?i @ [?l] @ str_bytes route"] R
    by simp
  have okL: "M L" using M by (simp add: L_def)
  show ?thesis
    unfolding pc_msg_encode_route_def Let_def
    by (simp only: type len ml okL J_def [symmetric] encode_flag_eq [OF J(2)] ids rt m
        Option.bind.simps prod.case if_True if_False not_True_eq_False) simp
qed

lemma msg_encode_code_bytes:
  assumes M: "M (3 + length (id_part type n) + length msg)" and type: "PC_MSG_HAS_ROUTE type"
  shows "pc_msg_encode_code M junk n type code msg =
    Some (Ok (flag_byte type True # id_part type n @
      word_of_int (code div 256) # word_of_int code # msg))"
proof -
  define L where "L = 3 + length (id_part type n) + length msg"
  define J where "J = map junk [0..<L]"
  have J: "length J = L" "J \<noteq> []" by (simp_all add: J_def L_def)
  have ml: "1 + (if PC_MSG_HAS_ID type then pc__msg_id_length n else 0) + 2 + length msg = L"
    by (simp add: L_def id_part_def id_length_eq)
  have okL: "M L" using M by (simp add: L_def)
  let ?f = "flag_byte type True" and ?i = "id_part type n"
  let ?h = "word_of_int (code div 256) :: byte" and ?l = "word_of_int code :: byte"
  have mod: "word_of_int (code div 256 mod 256) = ?h" "word_of_int (code mod 256) = ?l"
    by (simp_all add: word_uint_eq_iff uint_word_of_int)
  have ids: "(if PC_MSG_HAS_ID type then pc__msg_encode_id n ([?f] @ drop 1 J) 1 else Some (1, [?f] @ drop 1 J))
      = Some (length (?f # ?i), (?f # ?i) @ drop (length (?f # ?i)) J)"
    using encode_id_eq [of n "drop 1 J" "[?f]"] J
    by (cases "PC_MSG_HAS_ID type") (simp_all add: id_part_def L_def)
  let ?R = "drop (length (?f # ?i)) J"
  have R: "length ?R = 2 + length msg" using J by (simp add: L_def)
  have h: "mem_write ((?f # ?i) @ ?R) (length (?f # ?i)) [?h] = Some ((?f # ?i @ [?h]) @ drop 1 ?R)"
    using mem_write_at [of "[?h]" ?R "?f # ?i"] R by simp
  have l: "mem_write ((?f # ?i @ [?h]) @ drop 1 ?R) (length (?f # ?i) + 1) [?l] =
      Some ((?f # ?i @ [?h, ?l]) @ drop 2 ?R)"
    using mem_write_at [of "[?l]" "drop 1 ?R" "?f # ?i @ [?h]"] R by simp
  have m: "mem_write ((?f # ?i @ [?h, ?l]) @ drop 2 ?R) (length (?f # ?i) + 2) msg =
      Some (?f # ?i @ [?h, ?l] @ msg)"
    using mem_write_at [of msg "drop 2 ?R" "?f # ?i @ [?h, ?l]"] R by simp
  show ?thesis
    unfolding pc_msg_encode_code_def Let_def
    by (simp only: type ml okL J_def [symmetric] encode_flag_eq [OF J(2)] ids mod h l m
        Option.bind.simps prod.case if_True if_False not_True_eq_False) simp
qed

section \<open>Decoding what was encoded\<close>

definition route_limit :: "bool \<Rightarrow> nat" where
  "route_limit sc = (if sc then 128 else 256)"

lemma char_to_size_route:
  assumes "n < route_limit sc"
  shows "char_to_size sc (word_of_nat n) = n"
proof -
  have n: "unat (word_of_nat n :: byte) = n"
    using assms by (intro unat_byte_of_nat) (simp add: route_limit_def split: if_splits)
  show ?thesis
  proof (cases sc)
    case True
    with assms n char_to_size_ascii [of "word_of_nat n" sc] show ?thesis by (simp add: route_limit_def)
  next
    case False
    with n show ?thesis by (simp add: char_to_size_def)
  qed
qed

lemma decode_route_str:
  assumes route: "route \<noteq> []" "c_string route" "length route < route_limit sc" and M: "\<And>k. M k"
    and data: "data = pre @ word_of_nat (length route) # str_bytes route @ suf"
    and len: "length data < 2 ^ 64"
  shows "decode_route sc M data (length data) False (length pre) =
    Some (Ok (Route_str (Some route), length pre + 1 + length route))"
proof -
  let ?n = "length route"
  have lim: "?n < 256" using route(3) by (simp add: route_limit_def split: if_splits)
  have l: "length data = length pre + 1 + ?n + length suf" by (simp add: data)
  have get: "mem_get data (length pre) = Some (word_of_nat ?n)"
    unfolding data by (rule mem_get_at)
  have rd: "mem_read data (length pre + 1) ?n = Some (str_bytes route)"
    using mem_read_at [of "pre @ [word_of_nat ?n]" "str_bytes route" suf] by (simp add: data)
  have wr: "mem_write (replicate (?n + 1) 0) 0 (str_bytes route) = Some (str_bytes route @ [0])"
    using mem_write_at [of "str_bytes route" "replicate (?n + 1) 0" "[]"]
    by (simp only: length_str_bytes append_Nil list.size length_replicate drop_replicate le_add1) simp
  have adds: "size_add (length pre) 1 = length pre + 1" "size_add ?n 1 = ?n + 1"
    "size_add (length pre + 1) ?n = length pre + 1 + ?n"
    using len lim l by (simp_all only: size_add_small)
  show ?thesis
    unfolding decode_route_def Let_def
    using route l by (simp add: get rd wr adds M char_to_size_route del: One_nat_def add_Suc_right)
qed

lemma decode_route_code:
  assumes code: "0 \<le> code" "code < 2 ^ 16"
    and data: "data = pre @ word_of_int (code div 256) # word_of_int code # suf"
    and len: "length data < 2 ^ 64"
  shows "decode_route sc M data (length data) True (length pre) =
    Some (Ok (Route_code (nat code), length pre + 2))"
proof -
  let ?h = "word_of_int (code div 256) :: byte" and ?l = "word_of_int code :: byte"
  have get: "mem_get data (length pre) = Some ?h" "mem_get data (length pre + 1) = Some ?l"
    using mem_get_at [of pre ?h] mem_get_at [of "pre @ [?h]" ?l] by (simp_all add: data)
  have h: "uint ?h = code div 256" using code by (simp add: uint_word_of_int)
  have l: "uint ?l = code mod 256" by (simp add: uint_word_of_int)
  have "int (unat ?h * 256 + unat ?l) = uint ?h * 256 + uint ?l" by simp
  also have "\<dots> = code" unfolding h l by (rule div_mult_mod_eq)
  finally have "unat ?h * 256 + unat ?l = nat code" by linarith
  with get len show ?thesis
    by (simp add: decode_route_def data size_add_small)
qed

lemma validate_flag: "PC_MSG_VALIDATE (unat (flag_byte type c) div 2) = Some type"
  "odd (unat (flag_byte type c)) = c"
  by (cases type; simp add: unat_flag_byte PC_MSG_VALIDATE_def)+

text \<open>The decoder on a header: the id, then whatever the route decodes to, then the body.\<close>

lemma msg_decode_header:
  assumes M: "\<And>k. M k" and n: "n < 2 ^ 31"
    and data: "data = flag_byte type c # id_part type n @ rt @ msg"
    and len: "length data < 2 ^ 64" and type: "PC_MSG_HAS_ROUTE type"
    and route: "decode_route sc M data (length data) c (length (flag_byte type c # id_part type n)) =
      Some (Ok (r, length (flag_byte type c # id_part type n) + length rt))"
  shows "pc_msg_decode sc M data (length data) =
    Some (Ok \<lparr>raw_id = (if PC_MSG_HAS_ID type then n else 0), raw_type = type,
      raw_compressRoute = c, raw_route = r, raw_body = msg\<rparr>)"
proof -
  let ?h = "flag_byte type c # id_part type n"
  have get: "mem_get data 0 = Some (flag_byte type c)" by (simp add: data mem_get_def)
  have ne: "id_bytes n \<noteq> []" by (simp add: id_bytes.simps [of n])
  have len2: "PC_MSG_HAS_ID type \<Longrightarrow> 2 \<le> length data"
    using ne by (cases "id_bytes n") (simp_all add: data id_part_def)
  have ids: "(if PC_MSG_HAS_ID type then decode_id_loop data 1 0 0 else Some (0, 1)) =
      Some (if PC_MSG_HAS_ID type then n else 0, length ?h)"
    using decode_id_eq [of n 0 0 "[flag_byte type c]" "rt @ msg"] n
    by (simp add: data id_part_def)
  have dl: "length data = length ?h + length rt + length msg" by (simp add: data)
  have sub: "size_sub (length data) (length ?h + length rt) = length msg"
    using len by (subst size_sub_le) (simp_all add: dl)
  have rd: "mem_read data (length ?h + length rt) (length msg) = Some msg"
    using mem_read_at [of "?h @ rt" msg "[]"] by (simp add: data)
  have one: "size_add 1 1 = 2" by (simp add: size_add_def)
  have chk: "\<not> (PC_MSG_HAS_ID type \<and> 2 > length data)" using len2 by auto
  have ld: "\<not> 1 > length data" by (simp add: data)
  show ?thesis
    unfolding pc_msg_decode_def Let_def
    by (simp only: M get validate_flag ids route sub rd type one chk ld if_True if_False
        not_True_eq_False Option.bind.simps prod.case option.case cret.case simp_thms)
      (cases msg; simp)
qed

section \<open>Properties\<close>

lemma route_encode_decode:
  assumes M: "\<And>k. M k" and type: "PC_MSG_HAS_ROUTE type" and n: "n < 2 ^ 31"
    and route: "route \<noteq> []" "c_string route" "length route < route_limit sc"
    and len: "length msg < 2 ^ 32"
  shows "\<exists>bs. pc_msg_encode_route M junk n type route msg = Some (Ok bs) \<and>
    pc_msg_decode sc M bs (length bs) =
    Some (Ok \<lparr>raw_id = (if PC_MSG_HAS_ID type then n else 0), raw_type = type,
      raw_compressRoute = False, raw_route = Route_str (Some route), raw_body = msg\<rparr>)"
proof -
  define rt where "rt = word_of_nat (length route) # str_bytes route"
  let ?h = "flag_byte type False # id_part type n"
  define bs where "bs = flag_byte type False # id_part type n @ rt @ msg"
  have lim: "length route < 256" using route(3) by (simp add: route_limit_def split: if_splits)
  have "length bs < 2 ^ 64"
    using lim len id_part_length [OF n, of type] by (simp add: bs_def rt_def)
  moreover have "decode_route sc M bs (length bs) False (length ?h) =
      Some (Ok (Route_str (Some route), length ?h + length rt))"
    using decode_route_str [OF route M, of bs ?h msg] calculation
    by (simp add: bs_def rt_def)
  ultimately have "pc_msg_decode sc M bs (length bs) =
    Some (Ok \<lparr>raw_id = (if PC_MSG_HAS_ID type then n else 0), raw_type = type,
      raw_compressRoute = False, raw_route = Route_str (Some route), raw_body = msg\<rparr>)"
    by (intro msg_decode_header [OF M n bs_def _ type])
  moreover have "pc_msg_encode_route M junk n type route msg = Some (Ok bs)"
    using msg_encode_route_bytes [of M type n route msg] M type lim by (simp add: bs_def rt_def)
  ultimately show ?thesis by blast
qed

text \<open>(C31) Round trip with a route string. For every request, notification and push whose route is a
  non-empty C string short enough for the length byte (below 128 where plain \<open>char\<close> is signed,
  below 256 where it is not) and whose id fits in 31 bits, \<open>pc_msg_decode\<close> recovers from the
  bytes of \<open>pc_msg_encode_route\<close> the type, the id, the route and the body.\<close>

theorem msg_route_roundtrip:
  assumes M: "\<And>k. M k" and type: "PC_MSG_HAS_ROUTE type" and n: "n < 2 ^ 31"
    and route: "route \<noteq> []" "c_string route" "length route < route_limit sc"
    and len: "length msg < 2 ^ 32"
  shows "\<exists>bs. pc_msg_encode_route M junk n type route msg = Some (Ok bs) \<and>
    pc_msg_decode sc M bs (length bs) =
    Some (Ok \<lparr>raw_id = (if PC_MSG_HAS_ID type then n else 0), raw_type = type,
      raw_compressRoute = False, raw_route = Route_str (Some route), raw_body = msg\<rparr>)"
  using assms by (rule route_encode_decode)

theorem msg_route_roundtrip_witness:
  "\<exists>bs. pc_msg_encode_route (\<lambda>_. True) (\<lambda>_. 0) 300 PC_MSG_REQUEST ''a.b'' [7] = Some (Ok bs) \<and>
    pc_msg_decode True (\<lambda>_. True) bs (length bs) =
    Some (Ok \<lparr>raw_id = 300, raw_type = PC_MSG_REQUEST,
      raw_compressRoute = False, raw_route = Route_str (Some ''a.b''), raw_body = [7]\<rparr>)"
  using msg_route_roundtrip [where M = "\<lambda>_. True" and type = PC_MSG_REQUEST and n = 300 and
      route = "''a.b''" and sc = True and msg = "[7]" and junk = "\<lambda>_. 0"]
  by (simp add: PC_MSG_HAS_ROUTE_def PC_MSG_HAS_ID_def c_string_def route_limit_def)

lemma code_encode_decode:
  assumes M: "\<And>k. M k" and type: "PC_MSG_HAS_ROUTE type" and n: "n < 2 ^ 31"
    and code: "0 \<le> code" "code < 2 ^ 16" and len: "length msg < 2 ^ 32"
  shows "\<exists>bs. pc_msg_encode_code M junk n type code msg = Some (Ok bs) \<and>
    pc_msg_decode sc M bs (length bs) =
    Some (Ok \<lparr>raw_id = (if PC_MSG_HAS_ID type then n else 0), raw_type = type,
      raw_compressRoute = True, raw_route = Route_code (nat code), raw_body = msg\<rparr>)"
proof -
  define rt where "rt = [word_of_int (code div 256), word_of_int code :: byte]"
  let ?h = "flag_byte type True # id_part type n"
  define bs where "bs = flag_byte type True # id_part type n @ rt @ msg"
  have "length bs < 2 ^ 64"
    using len id_part_length [OF n, of type] by (simp add: bs_def rt_def)
  moreover have "decode_route sc M bs (length bs) True (length ?h) =
      Some (Ok (Route_code (nat code), length ?h + length rt))"
    using decode_route_code [OF code, of bs ?h msg sc M] calculation
    by (simp add: bs_def rt_def)
  ultimately have "pc_msg_decode sc M bs (length bs) =
    Some (Ok \<lparr>raw_id = (if PC_MSG_HAS_ID type then n else 0), raw_type = type,
      raw_compressRoute = True, raw_route = Route_code (nat code), raw_body = msg\<rparr>)"
    by (intro msg_decode_header [OF M n bs_def _ type])
  moreover have "pc_msg_encode_code M junk n type code msg = Some (Ok bs)"
    using msg_encode_code_bytes [of M type n msg] M type by (simp add: bs_def rt_def)
  ultimately show ?thesis by blast
qed

text \<open>(C32) Round trip with a route code: every 16-bit code of the dictionary survives
  \<open>pc_msg_encode_code\<close> and \<open>pc_msg_decode\<close>, with type, id and body.\<close>

theorem msg_code_roundtrip:
  assumes M: "\<And>k. M k" and type: "PC_MSG_HAS_ROUTE type" and n: "n < 2 ^ 31"
    and code: "0 \<le> code" "code < 2 ^ 16" and len: "length msg < 2 ^ 32"
  shows "\<exists>bs. pc_msg_encode_code M junk n type code msg = Some (Ok bs) \<and>
    pc_msg_decode sc M bs (length bs) =
    Some (Ok \<lparr>raw_id = (if PC_MSG_HAS_ID type then n else 0), raw_type = type,
      raw_compressRoute = True, raw_route = Route_code (nat code), raw_body = msg\<rparr>)"
  using assms by (rule code_encode_decode)

theorem msg_code_roundtrip_witness:
  "\<exists>bs. pc_msg_encode_code (\<lambda>_. True) (\<lambda>_. 0) 5 PC_MSG_NOTIFY 513 [7] = Some (Ok bs) \<and>
    pc_msg_decode True (\<lambda>_. True) bs (length bs) =
    Some (Ok \<lparr>raw_id = 0, raw_type = PC_MSG_NOTIFY,
      raw_compressRoute = True, raw_route = Route_code 513, raw_body = [7]\<rparr>)"
  using msg_code_roundtrip [where M = "\<lambda>_. True" and type = PC_MSG_NOTIFY and n = 5 and
      code = 513 and sc = True and msg = "[7]" and junk = "\<lambda>_. 0"]
  by (simp add: PC_MSG_HAS_ROUTE_def PC_MSG_HAS_ID_def)

lemma decode_route_safe:
  assumes len: "length data < 2 ^ 63" and off: "offset \<le> length data" and M: "\<And>k. M k"
    and byte: "\<not> c \<Longrightarrow> offset < length data \<Longrightarrow> sc \<Longrightarrow> unat (data ! offset) < 128"
  shows "decode_route sc M data (length data) c offset = Some Fail \<or>
    (\<exists>r off'. decode_route sc M data (length data) c offset = Some (Ok (r, off')) \<and> off' \<le> length data)"
proof (cases c)
  case True
  with len off show ?thesis
    by (cases "offset + 2 \<le> length data") (simp_all add: decode_route_def size_add_small mem_get_def)
next
  case False
  have one: "size_add offset 1 = offset + 1" using len off by (intro size_add_small) simp
  show ?thesis
  proof (cases "offset < length data")
    case True
    let ?n = "unat (data ! offset)"
    have n: "char_to_size sc (data ! offset) = ?n" "?n < 256"
      using byte [OF False True] char_to_size_ascii [of "data ! offset" sc]
      by (auto simp: char_to_size_def)
    have adds: "size_add (offset + 1) ?n = offset + 1 + ?n" "size_add ?n 1 = ?n + 1"
      using len True n(2) by (auto simp: size_add_def simp del: unat_byte_less)
    have get: "mem_get data offset = Some (data ! offset)" using True by (simp add: mem_get_def)
    show ?thesis
    proof (cases "offset + 1 + ?n \<le> length data")
      case True
      then have "mem_read data (offset + 1) ?n = Some (take ?n (drop (offset + 1) data))"
        by (simp add: mem_read_def)
      moreover have "mem_write (replicate (?n + 1) 0) 0 (take ?n (drop (offset + 1) data)) \<noteq> None"
        by (simp add: mem_write_def)
      ultimately show ?thesis
        using False True \<open>offset < length data\<close> n adds one
        by (auto simp: decode_route_def get M Let_def)
    next
      case nofit: False
      with False \<open>offset < length data\<close> n adds one show ?thesis
        by (simp add: decode_route_def get M Let_def)
    qed
  next
    case outside: False
    with False one show ?thesis by (simp add: decode_route_def)
  qed
qed



text \<open>A request or response whose id never ends (every byte after the flag has its high bit
  set) makes \<open>pc_msg_decode\<close> read past the end of the package body or shift out of range: the
  loop over the id checks the length once, before it starts.\<close>

theorem msg_decode_unterminated_id:
  assumes "flag = 0 \<or> flag = 1 \<or> flag = 4 \<or> flag = 5" and "ids \<noteq> []" and "\<forall>b \<in> set ids. unat b \<ge> 128"
    and "M 40"
  shows "pc_msg_decode sc M (flag # ids) (length (flag # ids)) = None"
proof -
  have loop: "decode_id_loop (pre @ ids) (length pre) i acc = None"
    if "\<forall>b \<in> set ids. unat b \<ge> 128" for pre ids i acc
    using that
  proof (induction ids arbitrary: pre i acc)
    case Nil
    then show ?case by (simp add: decode_id_loop.simps [of pre])
  next
    case (Cons b ids)
    have "decode_id_loop ((pre @ [b]) @ ids) (length (pre @ [b])) j acc' = None" for j acc'
      using Cons by (intro Cons.IH) simp
    with Cons.prems show ?case
      by (simp add: decode_id_loop.simps [of "pre @ b # ids"] split: option.split)
  qed
  from loop [OF assms(3), of "[flag]" 0 0] assms show ?thesis
    by (auto simp: pc_msg_decode_def mem_get_def PC_MSG_VALIDATE_def PC_MSG_HAS_ID_def size_add_def
        neq_Nil_conv)
qed

theorem msg_decode_unterminated_id_witness:
  "pc_msg_decode True (\<lambda>_. True) [4, 128, 200] (length [4, 128, 200 :: byte]) = None"
  by (rule msg_decode_unterminated_id) simp_all

text \<open>Where plain \<open>char\<close> is signed, the length byte 255 of a route becomes the length
  \<open>2 ^ 64 - 1\<close>; the bound check wraps around and passes, and the copy that follows has
  undefined behaviour, whatever follows the length byte.\<close>

theorem msg_decode_negative_route_length:
  assumes "M 40" and "M 0" and "length rest < 2 ^ 32"
  shows "pc_msg_decode True M (6 # 255 # rest) (length (6 # 255 # rest)) = None"
proof -
  have "char_to_size True 255 = 2 ^ 64 - 1" by (simp add: char_to_size_def size_of_int_def)
  with assms show ?thesis
    by (simp add: pc_msg_decode_def mem_get_def PC_MSG_VALIDATE_def PC_MSG_HAS_ID_def
        PC_MSG_HAS_ROUTE_def decode_route_def size_add_def mem_read_def Let_def)
qed

theorem msg_decode_negative_route_length_witness:
  "pc_msg_decode True (\<lambda>_. True) [6, 255, 97] (length [6, 255, 97 :: byte]) = None"
  by (rule msg_decode_negative_route_length) simp_all

end
