(* ===== verification/C_Float.thy ===== *)
theory C_Float
  imports C_Base
begin

text \<open>
  The C types \<open>float\<close> and \<open>double\<close> as their IEEE 754 bit patterns (words of 32 and 64
  bits), with the conversions that the protobuf codec performs: an integer to \<open>double\<close>,
  \<open>double\<close> to \<open>float\<close> (both rounding to nearest, ties to even, with overflow to
  infinity, as Annex F of the C standard prescribes), \<open>float\<close> to \<open>double\<close> (exact), and
  \<open>double\<close> to an integer (truncation, undefined outside the target type).

  A format is given by its precision \<open>p\<close> and the exponent \<open>emin\<close> of its least subnormal:
  24 and -149 for \<open>float\<close>, 53 and -1074 for \<open>double\<close>. A finite magnitude is a pair of a
  natural significand and an exponent.
\<close>

section \<open>Rounding and packing\<close>

text \<open>The number of bits of a natural number.\<close>

fun bitlen :: "nat \<Rightarrow> nat" where
  "bitlen n = (if n = 0 then 0 else Suc (bitlen (n div 2)))"

declare bitlen.simps [simp del]

text \<open>\<open>m / 2 ^ k\<close> rounded to the nearest integer, ties to even; exact for \<open>k \<le> 0\<close>.\<close>

definition round_shift :: "nat \<Rightarrow> int \<Rightarrow> nat" where
  "round_shift m k =
     (if k \<le> 0 then m * 2 ^ nat (- k)
      else let d = 2 ^ nat k; q = m div d; r = m mod d
           in if 2 * r < d then q else if d < 2 * r then q + 1 else q + q mod 2)"

text \<open>The magnitude bits of \<open>m * 2 ^ e\<close>: the exponent of the last place is chosen so that the
  significand fits into \<open>p\<close> bits but not below \<open>emin\<close>; a carry out of the rounding moves
  into the exponent field by itself. \<open>ov\<close> is the pattern of infinity.\<close>

definition pack :: "nat \<Rightarrow> int \<Rightarrow> nat \<Rightarrow> nat \<Rightarrow> int \<Rightarrow> nat" where
  "pack p emin ov m e =
     (if m = 0 then 0
      else let t = max (int (bitlen m) + e - int p) emin
           in min ov (round_shift m (t - e) + nat (t - emin) * 2 ^ (p - 1)))"

definition unpack :: "nat \<Rightarrow> int \<Rightarrow> nat \<Rightarrow> nat \<times> int" where
  "unpack p emin b =
     (let E = b div 2 ^ (p - 1); F = b mod 2 ^ (p - 1)
      in if E = 0 then (F, emin) else (2 ^ (p - 1) + F, emin + int E - 1))"

definition DBL_INF :: nat where "DBL_INF = 0x7FF0000000000000"
definition FLT_INF :: nat where "FLT_INF = 0x7F800000"

definition dbl_sign :: "64 word \<Rightarrow> bool" where "dbl_sign d \<longleftrightarrow> 2 ^ 63 \<le> unat d"
definition dbl_mag :: "64 word \<Rightarrow> nat" where "dbl_mag d = unat d mod 2 ^ 63"
definition flt_sign :: "32 word \<Rightarrow> bool" where "flt_sign f \<longleftrightarrow> 2 ^ 31 \<le> unat f"
definition flt_mag :: "32 word \<Rightarrow> nat" where "flt_mag f = unat f mod 2 ^ 31"

definition dbl_make :: "bool \<Rightarrow> nat \<Rightarrow> 64 word" where
  "dbl_make s b = word_of_nat ((if s then 2 ^ 63 else 0) + b)"

definition flt_make :: "bool \<Rightarrow> nat \<Rightarrow> 32 word" where
  "flt_make s b = word_of_nat ((if s then 2 ^ 31 else 0) + b)"

section \<open>The conversions\<close>

text \<open>Neither infinite nor a NaN.\<close>

definition dbl_finite :: "64 word \<Rightarrow> bool" where "dbl_finite d \<longleftrightarrow> dbl_mag d < DBL_INF"
definition flt_finite :: "32 word \<Rightarrow> bool" where "flt_finite f \<longleftrightarrow> flt_mag f < FLT_INF"

definition double_of_int :: "int \<Rightarrow> 64 word" where
  "double_of_int i = dbl_make (i < 0) (pack 53 (- 1074) DBL_INF (nat \<bar>i\<bar>) 0)"

text \<open>The integer part of a finite double.\<close>

definition dbl_trunc :: "64 word \<Rightarrow> int" where
  "dbl_trunc d =
     (let (m, e) = unpack 53 (- 1074) (dbl_mag d);
          n = (if 0 \<le> e then m * 2 ^ nat e else m div 2 ^ nat (- e))
      in if dbl_sign d then - int n else int n)"

definition int_of_double :: "int \<Rightarrow> int \<Rightarrow> 64 word \<Rightarrow> int option" where
  "int_of_double lo hi d =
     (if dbl_finite d \<and> lo \<le> dbl_trunc d \<and> dbl_trunc d \<le> hi then Some (dbl_trunc d) else None)"

definition float_of_double :: "64 word \<Rightarrow> 32 word" where
  "float_of_double d =
     flt_make (dbl_sign d)
       (if dbl_finite d
        then (let (m, e) = unpack 53 (- 1074) (dbl_mag d) in pack 24 (- 149) FLT_INF m e)
        else if dbl_mag d = DBL_INF then FLT_INF else FLT_INF + 2 ^ 22)"

definition double_of_float :: "32 word \<Rightarrow> 64 word" where
  "double_of_float f =
     dbl_make (flt_sign f)
       (if flt_finite f
        then (let (m, e) = unpack 24 (- 149) (flt_mag f) in pack 53 (- 1074) DBL_INF m e)
        else if flt_mag f = FLT_INF then DBL_INF else DBL_INF + 2 ^ 51)"

section \<open>Lemmas\<close>

lemma unat_dbl_make: "b < 2 ^ 63 \<Longrightarrow> unat (dbl_make s b) = (if s then 2 ^ 63 else 0) + b"
  by (simp add: dbl_make_def unat_of_nat del: of_nat_add)

lemma dbl_sel_make: "b < 2 ^ 63 \<Longrightarrow> dbl_mag (dbl_make s b) = b" "b < 2 ^ 63 \<Longrightarrow> dbl_sign (dbl_make s b) = s"
  by (auto simp: dbl_mag_def dbl_sign_def unat_dbl_make)

lemma unat_flt_make: "b < 2 ^ 31 \<Longrightarrow> unat (flt_make s b) = (if s then 2 ^ 31 else 0) + b"
  by (simp add: flt_make_def unat_of_nat del: of_nat_add)

lemma flt_sel_make: "b < 2 ^ 31 \<Longrightarrow> flt_mag (flt_make s b) = b" "b < 2 ^ 31 \<Longrightarrow> flt_sign (flt_make s b) = s"
  by (auto simp: flt_mag_def flt_sign_def unat_flt_make)

lemma flt_make_sel: "flt_make (flt_sign f) (flt_mag f) = f"
proof -
  have "unat f < 2 ^ 32" using unsigned_less [of f, where 'a = nat] by simp
  then have "unat f mod 2 ^ 31 = (if 2 ^ 31 \<le> unat f then unat f - 2 ^ 31 else unat f)"
    by (auto simp: mod_if)
  then have "(if 2 ^ 31 \<le> unat f then 2 ^ 31 else 0) + unat f mod 2 ^ 31 = unat f" by auto
  then show ?thesis by (simp add: flt_make_def flt_sign_def flt_mag_def)
qed

lemma pack_le_inf: "pack p emin ov m e \<le> ov"
  by (simp add: pack_def Let_def)

lemma bitlen_le_iff: "bitlen m \<le> n \<longleftrightarrow> m < 2 ^ n"
proof (induction m arbitrary: n rule: bitlen.induct)
  case (1 m)
  show ?case
  proof (cases "m = 0")
    case False
    then show ?thesis
    proof (cases n)
      case (Suc k)
      then show ?thesis using False 1 [of k] by (simp add: bitlen.simps [of m] div_less_iff_less_mult mult.commute)
    qed (simp add: bitlen.simps [of m])
  qed (simp add: bitlen.simps)
qed

lemma bitlen_unique: "2 ^ n \<le> m \<Longrightarrow> m < 2 ^ Suc n \<Longrightarrow> bitlen m = Suc n"
  using bitlen_le_iff [of m n] bitlen_le_iff [of m "Suc n"] by simp

lemma bitlen_shift: "0 < m \<Longrightarrow> bitlen (m * 2 ^ k) = bitlen m + k"
proof (induction k)
  case (Suc k)
  then have "bitlen (2 * (m * 2 ^ k)) = Suc (bitlen (m * 2 ^ k))"
    by (subst bitlen.simps) simp
  with Suc show ?case by (simp add: mult.left_commute)
qed simp

text \<open>A magnitude that the format represents is packed without rounding.\<close>

lemma pack_exact:
  assumes "bitlen m \<le> p" "emin \<le> e" "e = emin \<or> bitlen m = p"
  shows "pack p emin ov m e = (if m = 0 then 0 else min ov (m + nat (e - emin) * 2 ^ (p - 1)))"
proof -
  have "max (int (bitlen m) + e - int p) emin = e" using assms by auto
  then show ?thesis by (simp add: pack_def round_shift_def)
qed

lemma unpack_bounds:
  assumes "0 < p" "unpack p emin b = (m, e)"
  shows "bitlen m \<le> p" "emin \<le> e" "e = emin \<or> bitlen m = p" "m + nat (e - emin) * 2 ^ (p - 1) = b"
    "m = 0 \<Longrightarrow> b = 0"
proof -
  define E where "E = b div 2 ^ (p - 1)"
  define F where "F = b mod 2 ^ (p - 1)"
  have b: "b = E * 2 ^ (p - 1) + F" unfolding E_def F_def by (rule div_mult_mod_eq [symmetric])
  have F: "F < 2 ^ (p - 1)" by (simp add: F_def)
  have p: "2 ^ p = 2 * (2 ^ (p - 1) :: nat)" using assms(1) by (cases p) auto
  have me: "(m, e) = (if E = 0 then (F, emin) else (2 ^ (p - 1) + F, emin + int E - 1))"
    using assms(2) by (auto simp: unpack_def E_def F_def Let_def split: if_splits)
  have "bitlen (2 ^ (p - 1) + F) = p"
    using bitlen_unique [of "p - 1" "2 ^ (p - 1) + F"] F assms(1) p by simp
  moreover have "bitlen F \<le> p" using F p by (simp add: bitlen_le_iff)
  moreover have "2 ^ (p - 1) + F + nat (int E - 1) * 2 ^ (p - 1) = b" if "E \<noteq> 0"
  proof -
    have "nat (int E - 1) = E - 1" by simp
    moreover have "(E - 1) * 2 ^ (p - 1) + 2 ^ (p - 1) = E * 2 ^ (p - 1)"
      using that by (cases E) auto
    ultimately show ?thesis using b by simp
  qed
  ultimately show "bitlen m \<le> p" "emin \<le> e" "e = emin \<or> bitlen m = p"
    "m + nat (e - emin) * 2 ^ (p - 1) = b" "m = 0 \<Longrightarrow> b = 0"
    using me b by (auto split: if_splits)
qed

lemma pack_unpack:
  assumes "b < ov" "0 < p" "unpack p emin b = (m, e)"
  shows "pack p emin ov m e = b"
  using pack_exact [OF unpack_bounds(1-3) [OF assms(2,3)], of ov] unpack_bounds(4,5) [OF assms(2,3)] assms(1)
  by auto

text \<open>Packing depends on the magnitude only, not on the pair that represents it.\<close>

lemma round_shift_scale: "round_shift (m * 2 ^ s) (k + int s) = round_shift m k"
proof (cases "k \<le> 0")
  case k: True
  show ?thesis
  proof (cases "k + int s \<le> 0")
    case True
    then have "nat (- k) = s + nat (- (k + int s))" by simp
    then show ?thesis using True k by (simp add: round_shift_def power_add)
  next
    case False
    then have s: "s = nat (- k) + nat (k + int s)" using k by simp
    have "m * 2 ^ s = m * 2 ^ nat (- k) * 2 ^ nat (k + int s)" by (subst s) (simp add: power_add)
    then have "m * 2 ^ s div 2 ^ nat (k + int s) = m * 2 ^ nat (- k)" "m * 2 ^ s mod 2 ^ nat (k + int s) = 0"
      by (simp_all only: nonzero_mult_div_cancel_right mod_mult_self2_is_0 power_eq_0_iff) simp
    then show ?thesis using False k by (simp add: round_shift_def Let_def)
  qed
next
  case False
  then have "nat (k + int s) = nat k + s" by simp
  moreover have "m * 2 ^ s div (2 ^ nat k * 2 ^ s) = m div 2 ^ nat k" by simp
  moreover have "m * 2 ^ s mod (2 ^ nat k * 2 ^ s) = (m mod 2 ^ nat k) * 2 ^ s" by simp
  ultimately show ?thesis
    using False by (simp add: round_shift_def Let_def power_add)
qed

lemma pack_scale: "pack p emin ov (m * 2 ^ s) (e - int s) = pack p emin ov m e"
proof (cases "m = 0")
  case False
  then have "int (bitlen (m * 2 ^ s)) + (e - int s) - int p = int (bitlen m) + e - int p"
    by (simp add: bitlen_shift)
  moreover have "round_shift (m * 2 ^ s) (t - (e - int s)) = round_shift m (t - e)" for t
    using round_shift_scale [of m s "t - e"] by (simp add: algebra_simps)
  ultimately show ?thesis using False by (simp only: pack_def Let_def) simp
qed (simp add: pack_def)

lemma divmod_add: "F < n \<Longrightarrow> (F + k * n) div n = k" "F < n \<Longrightarrow> (F + k * n) mod n = (F :: nat)"
  by auto

text \<open>Widening a magnitude of fewer bits only moves the point.\<close>

lemma unpack_pack:
  assumes "0 < m" "bitlen m \<le> p" "emin < e - int (p - bitlen m)" "pack p emin ov m e < ov" "0 < p"
  shows "unpack p emin (pack p emin ov m e) = (m * 2 ^ (p - bitlen m), e - int (p - bitlen m))"
proof -
  let ?s = "p - bitlen m"
  let ?m = "m * 2 ^ ?s" and ?e = "e - int ?s"
  have bl: "bitlen ?m = p" using assms(1,2) by (simp add: bitlen_shift)
  have "pack p emin ov m e = min ov (?m + nat (?e - emin) * 2 ^ (p - 1))"
    using pack_exact [of ?m p emin ?e ov] bl assms(1,3) by (simp add: pack_scale)
  then have pk: "pack p emin ov m e = ?m + nat (?e - emin) * 2 ^ (p - 1)" using assms(4) by simp
  have lo: "2 ^ (p - 1) \<le> ?m" using bitlen_le_iff [of ?m "p - 1"] bl assms(5) by (simp add: not_less [symmetric])
  have hi: "?m < 2 ^ (p - 1) + 2 ^ (p - 1)"
    using bitlen_le_iff [of ?m p] bl assms(5) by (cases p) auto
  define F where "F = ?m - 2 ^ (p - 1)"
  have m: "?m = 2 ^ (p - 1) + F" and F: "F < 2 ^ (p - 1)" using lo hi by (auto simp: F_def)
  have "pack p emin ov m e = F + (nat (?e - emin) + 1) * 2 ^ (p - 1)" using pk m by simp
  then have "pack p emin ov m e div 2 ^ (p - 1) = nat (?e - emin) + 1" "pack p emin ov m e mod 2 ^ (p - 1) = F"
    using F divmod_add [of F "2 ^ (p - 1)"] by metis+
  then show ?thesis using m assms(3) by (simp add: unpack_def)
qed

section \<open>What the conversions keep\<close>

lemma dbl_mag_pack: "dbl_mag (dbl_make s (pack p emin DBL_INF m e)) = pack p emin DBL_INF m e"
  "dbl_sign (dbl_make s (pack p emin DBL_INF m e)) = s"
proof -
  have "pack p emin DBL_INF m e < 2 ^ 63" using pack_le_inf [of p emin DBL_INF m e] by (simp add: DBL_INF_def)
  then show "dbl_mag (dbl_make s (pack p emin DBL_INF m e)) = pack p emin DBL_INF m e"
    "dbl_sign (dbl_make s (pack p emin DBL_INF m e)) = s" by (simp_all add: dbl_sel_make)
qed

text \<open>A magnitude of at most 53 bits and a moderate exponent is a finite double, held exactly.\<close>

lemma dbl_pack_finite:
  assumes "bitlen m \<le> 53" "- 1074 < e - int (53 - bitlen m)" "e \<le> 900" "0 < m"
  shows "pack 53 (- 1074) DBL_INF m e < DBL_INF"
proof -
  let ?s = "53 - bitlen m"
  have bl: "bitlen (m * 2 ^ ?s) = 53" using assms(1,4) by (simp add: bitlen_shift)
  then have lt: "m * 2 ^ ?s < 2 ^ 53" using bitlen_le_iff [of "m * 2 ^ ?s" 53] by simp
  have "nat (e - int ?s + 1074) * 2 ^ 52 \<le> 1974 * (2 :: nat) ^ 52" using assms(3) by (intro mult_le_mono1) simp
  with lt have "m * 2 ^ ?s + nat (e - int ?s + 1074) * 2 ^ 52 < DBL_INF" by (simp add: DBL_INF_def)
  moreover have "pack 53 (- 1074) DBL_INF (m * 2 ^ ?s) (e - int ?s) \<le>
      m * 2 ^ ?s + nat (e - int ?s + 1074) * 2 ^ 52"
    using pack_exact [of "m * 2 ^ ?s" 53 "- 1074" "e - int ?s" DBL_INF] bl assms(2) by simp
  ultimately show ?thesis by (simp add: pack_scale)
qed

lemma double_of_int_exact:
  assumes "\<bar>i\<bar> < 2 ^ 53"
  shows "dbl_finite (double_of_int i)" "dbl_trunc (double_of_int i) = i"
proof -
  let ?m = "nat \<bar>i\<bar>"
  have bl: "bitlen ?m \<le> 53" using assms by (simp add: bitlen_le_iff nat_less_iff)
  have "dbl_finite (double_of_int i) \<and> dbl_trunc (double_of_int i) = i"
  proof (cases "i = 0")
    case True
    then show ?thesis
      by (simp add: dbl_finite_def double_of_int_def dbl_mag_pack dbl_trunc_def pack_def unpack_def DBL_INF_def dbl_make_def dbl_mag_def)
  next
    case False
    then have fin: "pack 53 (- 1074) DBL_INF ?m 0 < DBL_INF" using bl by (intro dbl_pack_finite) auto
    have up: "unpack 53 (- 1074) (pack 53 (- 1074) DBL_INF ?m 0) =
        (?m * 2 ^ (53 - bitlen ?m), 0 - int (53 - bitlen ?m))"
      using False bl fin by (intro unpack_pack) auto
    have e: "nat (- (0 - int (53 - bitlen ?m))) = 53 - bitlen ?m"
      "0 \<le> 0 - int (53 - bitlen ?m) \<longleftrightarrow> 53 - bitlen ?m = 0" by simp_all
    have "dbl_trunc (double_of_int i) = (if i < 0 then - int ?m else int ?m)"
      unfolding dbl_trunc_def double_of_int_def dbl_mag_pack up prod.case Let_def e by simp
    then have "dbl_trunc (double_of_int i) = i" by auto
    then show ?thesis using fin by (simp add: dbl_finite_def double_of_int_def dbl_mag_pack)
  qed
  then show "dbl_finite (double_of_int i)" "dbl_trunc (double_of_int i) = i" by auto
qed

lemma int_of_double_of_int:
  "\<bar>i\<bar> < 2 ^ 53 \<Longrightarrow> lo \<le> i \<Longrightarrow> i \<le> hi \<Longrightarrow> int_of_double lo hi (double_of_int i) = Some i"
  by (simp add: int_of_double_def double_of_int_exact)

lemma unpack_flt:
  assumes "unpack 24 (- 149) b = (m, e)" "b < FLT_INF"
  shows "bitlen m \<le> 24" "- 149 \<le> e" "e \<le> 150"
proof -
  have "b div 8388608 < 256" using assms(2) by (simp add: FLT_INF_def less_mult_imp_div_less)
  then show "e \<le> 150" using assms(1) by (auto simp: unpack_def Let_def split: if_splits)
  show "bitlen m \<le> 24" "- 149 \<le> e" using unpack_bounds(1,2) [OF _ assms(1)] by simp_all
qed

lemma double_of_float_finite: "dbl_finite (double_of_float f) \<longleftrightarrow> flt_finite f"
proof (cases "flt_finite f")
  case True
  obtain m e where me: "unpack 24 (- 149) (flt_mag f) = (m, e)" by fastforce
  note b = unpack_flt [OF me True [unfolded flt_finite_def]]
  have "pack 53 (- 1074) DBL_INF m e < DBL_INF"
  proof (cases "m = 0")
    case False
    then show ?thesis using b by (intro dbl_pack_finite) auto
  qed (simp add: pack_def DBL_INF_def)
  then show ?thesis using True me by (simp add: double_of_float_def dbl_finite_def dbl_mag_pack)
next
  case False
  then show ?thesis by (auto simp: double_of_float_def dbl_finite_def dbl_sel_make DBL_INF_def)
qed

text \<open>A \<open>float\<close> survives the passage through \<open>double\<close>.\<close>

lemma float_double_float: "flt_finite f \<Longrightarrow> float_of_double (double_of_float f) = f"
proof -
  assume fin: "flt_finite f"
  obtain m e where me: "unpack 24 (- 149) (flt_mag f) = (m, e)" by fastforce
  note b = unpack_flt [OF me fin [unfolded flt_finite_def]]
  have dfin: "dbl_finite (double_of_float f)" using fin by (simp add: double_of_float_finite)
  have pk: "pack 24 (- 149) FLT_INF m e = flt_mag f"
    using fin by (intro pack_unpack [OF _ _ me]) (auto simp: flt_finite_def)
  let ?P = "pack 53 (- 1074) DBL_INF m e"
  have d: "double_of_float f = dbl_make (flt_sign f) ?P" using fin me by (simp add: double_of_float_def)
  have "(case unpack 53 (- 1074) ?P of (m', e') \<Rightarrow> pack 24 (- 149) FLT_INF m' e') = flt_mag f"
  proof (cases "m = 0")
    case True
    then show ?thesis using pk by (simp add: pack_def unpack_def)
  next
    case False
    have "?P < DBL_INF" using dfin d by (simp add: dbl_finite_def dbl_mag_pack)
    then have "unpack 53 (- 1074) ?P = (m * 2 ^ (53 - bitlen m), e - int (53 - bitlen m))"
      using False b by (intro unpack_pack) auto
    then show ?thesis using pk by (simp only: prod.case pack_scale)
  qed
  then have "float_of_double (double_of_float f) = flt_make (flt_sign f) (flt_mag f)"
    using dfin by (simp add: float_of_double_def d dbl_mag_pack)
  then show ?thesis by (simp add: flt_make_sel)
qed

end
