(* ===== verification/Utf8.thy ===== *)
theory Utf8
  imports C_Base
begin

text \<open>
  \<open>utf.c\<close> of the bundled jansson: the encoder of a code point, the two checks of a UTF-8
  sequence, the iterator and the check of a whole string. The reference is the set of Unicode scalar
  values: \<open>utf8_check_bytes\<close> accepts exactly the concatenations of their encodings, and the code
  point that \<open>utf8_check_full\<close> reports is the inverse of \<open>utf8_encode\<close>.
\<close>

section \<open>Definitions\<close>

text \<open>\<open>None\<close> for the result -1. The bytes are those stored into \<open>buffer\<close>, \<open>*size\<close> is their
  number.\<close>

definition utf8_encode :: "int \<Rightarrow> byte list option" where
  "utf8_encode codepoint =
     (if codepoint < 0 then None
      else if codepoint < 0x80 then Some [word_of_int codepoint]
      else if codepoint < 0x800 then
        Some [word_of_int (0xC0 + drop_bit 6 (codepoint AND 0x7C0)),
              word_of_int (0x80 + (codepoint AND 0x03F))]
      else if codepoint < 0x10000 then
        Some [word_of_int (0xE0 + drop_bit 12 (codepoint AND 0xF000)),
              word_of_int (0x80 + drop_bit 6 (codepoint AND 0x0FC0)),
              word_of_int (0x80 + (codepoint AND 0x003F))]
      else if codepoint \<le> 0x10FFFF then
        Some [word_of_int (0xF0 + drop_bit 18 (codepoint AND 0x1C0000)),
              word_of_int (0x80 + drop_bit 12 (codepoint AND 0x03F000)),
              word_of_int (0x80 + drop_bit 6 (codepoint AND 0x000FC0)),
              word_of_int (0x80 + (codepoint AND 0x00003F))]
      else None)"

definition utf8_check_first :: "byte \<Rightarrow> nat" where
  "utf8_check_first u =
     (if u < 0x80 then 1
      else if 0x80 \<le> u \<and> u \<le> 0xBF then 0
      else if u = 0xC0 \<or> u = 0xC1 then 0
      else if 0xC2 \<le> u \<and> u \<le> 0xDF then 2
      else if 0xE0 \<le> u \<and> u \<le> 0xEF then 3
      else if 0xF0 \<le> u \<and> u \<le> 0xF4 then 4
      else 0)"

text \<open>The loop over the continuation bytes, \<open>None\<close> for its early return.\<close>

fun utf8_rest :: "nat \<Rightarrow> byte list \<Rightarrow> nat option" where
  "utf8_rest val [] = Some val"
| "utf8_rest val (u # us) =
     (if u < 0x80 \<or> u > 0xBF then None else utf8_rest (val * 64 + unat (u AND 0x3F)) us)"

text \<open>\<open>None\<close> for the result 0, and otherwise the value that is stored into \<open>*codepoint\<close>.\<close>

definition utf8_check_full :: "byte list \<Rightarrow> nat \<Rightarrow> nat option" where
  "utf8_check_full buffer sz =
     (let u = hd buffer;
          start = (if sz = 2 then Some (unat (u AND 0x1F))
                   else if sz = 3 then Some (unat (u AND 0xF))
                   else if sz = 4 then Some (unat (u AND 0x7)) else None)
      in case start of None \<Rightarrow> None
         | Some val \<Rightarrow> (case utf8_rest val (take (sz - 1) (tl buffer)) of None \<Rightarrow> None
           | Some val \<Rightarrow>
               if val > 0x10FFFF then None
               else if 0xD800 \<le> val \<and> val \<le> 0xDFFF then None
               else if sz = 2 \<and> val < 0x80 \<or> sz = 3 \<and> val < 0x800 \<or> sz = 4 \<and> val < 0x10000 then None
               else Some val))"

text \<open>The iterator on a C string, given by its bytes before the terminator, which the check may
  read. At the end of the string the code point is left alone; the result NULL is \<open>None\<close>.\<close>

definition utf8_iterate :: "byte list \<Rightarrow> (nat option \<times> byte list) option" where
  "utf8_iterate buffer =
     (case buffer of [] \<Rightarrow> Some (None, [])
      | b # bs \<Rightarrow>
          (let count = utf8_check_first b
           in if count = 0 then None
              else if count = 1 then Some (Some (unat b), bs)
              else case utf8_check_full (buffer @ [0]) count of None \<Rightarrow> None
                 | Some val \<Rightarrow> Some (Some val, drop count buffer)))"

fun utf8_check_bytes :: "byte list \<Rightarrow> bool" where
  "utf8_check_bytes [] = True"
| "utf8_check_bytes (b # bs) =
     (let count = utf8_check_first b
      in if count = 0 then False
         else if count > 1
         then (if count > length (b # bs) then False
               else if utf8_check_full (b # bs) count = None then False
               else utf8_check_bytes (drop (count - 1) bs))
         else utf8_check_bytes bs)"

definition utf8_check_string :: "string \<Rightarrow> bool" where
  "utf8_check_string s = utf8_check_bytes (str_bytes s)"

section \<open>The reference: scalar values\<close>

definition scalar_value :: "nat \<Rightarrow> bool" where
  "scalar_value n \<longleftrightarrow> n \<le> 0x10FFFF \<and> \<not> (0xD800 \<le> n \<and> n \<le> 0xDFFF)"

definition utf8_char :: "nat \<Rightarrow> byte list" where
  "utf8_char n = the (utf8_encode (int n))"

subsection \<open>Bits as digits\<close>

lemma int_masks:
  "(x :: int) AND 0x3F = x mod 64" "x AND 0x1F = x mod 32" "x AND 0xF = x mod 16" "x AND 7 = x mod 8"
  using take_bit_eq_mask [of 6 x] take_bit_eq_mask [of 5 x] take_bit_eq_mask [of 4 x] take_bit_eq_mask [of 3 x]
  by (simp_all add: mask_eq_exp_minus_1 take_bit_eq_mod)

lemma drop_bit_int: "drop_bit k (int n) = int (n div 2 ^ k)"
  by (simp add: drop_bit_eq_div zdiv_int)

lemma byte_of_int_mod: "word_of_int (int m mod 64) = (word_of_nat (m mod 64) :: byte)"
  by (metis of_int_of_nat_eq of_nat_numeral zmod_int)

lemma utf8_encode_nat:
  "n < 0x80 \<Longrightarrow> utf8_encode (int n) = Some [word_of_nat n]"
  "0x80 \<le> n \<Longrightarrow> n < 0x800 \<Longrightarrow>
     utf8_encode (int n) = Some [word_of_nat (0xC0 + n div 64), word_of_nat (0x80 + n mod 64)]"
  "0x800 \<le> n \<Longrightarrow> n < 0x10000 \<Longrightarrow>
     utf8_encode (int n) = Some [word_of_nat (0xE0 + n div 4096), word_of_nat (0x80 + n div 64 mod 64),
       word_of_nat (0x80 + n mod 64)]"
  "0x10000 \<le> n \<Longrightarrow> n \<le> 0x10FFFF \<Longrightarrow>
     utf8_encode (int n) = Some [word_of_nat (0xF0 + n div 262144), word_of_nat (0x80 + n div 4096 mod 64),
       word_of_nat (0x80 + n div 64 mod 64), word_of_nat (0x80 + n mod 64)]"
  by (simp_all add: utf8_encode_def int_masks drop_bit_int byte_of_int_mod)

lemma byte_mask: "unat (b AND mask k :: byte) = unat b mod 2 ^ k"
proof -
  have "unat (b AND mask k) = take_bit k (unat b)"
    by (simp only: flip: take_bit_eq_mask unsigned_take_bit_eq)
  then show ?thesis by (simp add: take_bit_eq_mod)
qed

lemma byte_masks:
  "unat (b AND 0x3F :: byte) = unat b mod 64" "unat (b AND 0x1F :: byte) = unat b mod 32"
  "unat (b AND 0xF :: byte) = unat b mod 16" "unat (b AND 0x7 :: byte) = unat b mod 8"
  using byte_mask [of b 6] byte_mask [of b 5] byte_mask [of b 4] byte_mask [of b 3]
  by (simp_all add: mask_eq_exp_minus_1)

lemma unat_high: "a + n < 256 \<Longrightarrow> unat (word_of_nat (a + n) :: byte) = a + n"
  by (rule unat_byte_of_nat)

lemma byte_less: "(a :: byte) < numeral k \<longleftrightarrow> unat a < unat (numeral k :: byte)"
  "numeral k < (a :: byte) \<longleftrightarrow> unat (numeral k :: byte) < unat a"
  "(a :: byte) \<le> numeral k \<longleftrightarrow> unat a \<le> unat (numeral k :: byte)"
  "numeral k \<le> (a :: byte) \<longleftrightarrow> unat (numeral k :: byte) \<le> unat a"
  "(a :: byte) = numeral k \<longleftrightarrow> unat a = unat (numeral k :: byte)"
  by (simp_all only: word_less_nat_alt word_le_nat_alt word_unat_eq_iff)

text \<open>The checks by the numbers.\<close>

lemma utf8_check_first_nat:
  "utf8_check_first b =
     (if unat b < 128 then 1 else if unat b < 194 then 0 else if unat b < 224 then 2
      else if unat b < 240 then 3 else if unat b < 245 then 4 else 0)"
  by (auto simp: utf8_check_first_def byte_less)

lemma utf8_rest_nat:
  "utf8_rest val (u # us) =
     (if unat u div 64 = 2 then utf8_rest (val * 64 + unat u mod 64) us else None)"
  by (auto simp: byte_less byte_masks)

declare utf8_rest.simps(2) [simp del]

definition utf8_val :: "nat \<Rightarrow> nat \<Rightarrow> nat option" where
  "utf8_val least v = (if scalar_value v \<and> least \<le> v then Some v else None)"

lemma utf8_check_full_nat:
  "utf8_check_full (a # b # bs) 2 =
     (if unat b div 64 = 2 then utf8_val 0x80 (unat a mod 32 * 64 + unat b mod 64) else None)"
  "utf8_check_full (a # b # c # bs) 3 =
     (if unat b div 64 = 2 \<and> unat c div 64 = 2
      then utf8_val 0x800 ((unat a mod 16 * 64 + unat b mod 64) * 64 + unat c mod 64) else None)"
  "utf8_check_full (a # b # c # d # bs) 4 =
     (if unat b div 64 = 2 \<and> unat c div 64 = 2 \<and> unat d div 64 = 2
      then utf8_val 0x10000 (((unat a mod 8 * 64 + unat b mod 64) * 64 + unat c mod 64) * 64 + unat d mod 64)
      else None)"
  by (auto simp: utf8_check_full_def utf8_rest_nat byte_masks utf8_val_def scalar_value_def Let_def)

lemmas utf8_nat = utf8_check_first_nat utf8_check_full_nat utf8_val_def unat_byte_of_nat

subsection \<open>Decoding inverts encoding\<close>

lemma digit_sums:
  fixes m :: nat
  shows "(128 + m mod 64) div 64 = 2" "(128 + m mod 64) mod 64 = m mod 64" "(192 + m) mod 32 = m mod 32"
    "(224 + m) mod 16 = m mod 16" "(240 + m) mod 8 = m mod 8"
  using div_mult_self1 [of 64 "m mod 64" 2] mod_mult_self1 [of "m mod 64" 2 64] mod_mult_self1 [of m 6 32]
    mod_mult_self1 [of m 14 16] mod_mult_self1 [of m 30 8]
  by (simp_all add: add.commute)

lemma digits_64:
  fixes n :: nat
  shows "n div 64 * 64 + n mod 64 = n" "(n div 4096 * 64 + n div 64 mod 64) * 64 + n mod 64 = n"
    "((n div 262144 * 64 + n div 4096 mod 64) * 64 + n div 64 mod 64) * 64 + n mod 64 = n"
proof -
  have *: "m div (64 * k) * 64 + m div k mod 64 = m div k" for m k :: nat
    using div_mult_mod_eq [of "m div k" 64] by (simp add: div_mult2_eq [of m k 64] mult.commute)
  show "n div 64 * 64 + n mod 64 = n" by simp
  then show two: "(n div 4096 * 64 + n div 64 mod 64) * 64 + n mod 64 = n" using * [of n 64] by simp
  show "((n div 262144 * 64 + n div 4096 mod 64) * 64 + n div 64 mod 64) * 64 + n mod 64 = n"
    using * [of n 4096] two by simp
qed

lemma numeral_nat_eq: "Suc (Suc 0) = 2" "Suc (Suc (Suc 0)) = 3" "Suc (Suc (Suc (Suc 0))) = 4" by simp_all

lemma utf8_char_length: "scalar_value n \<Longrightarrow> length (utf8_char n) =
    (if n < 0x80 then 1 else if n < 0x800 then 2 else if n < 0x10000 then 3 else 4)"
  by (simp add: utf8_char_def scalar_value_def utf8_encode_nat)

lemma utf8_check_char:
  assumes "scalar_value n"
  shows "utf8_check_first (hd (utf8_char n)) = length (utf8_char n)"
    and "0x80 \<le> n \<Longrightarrow> utf8_check_full (utf8_char n @ bs) (length (utf8_char n)) = Some n"
proof -
  consider "n < 0x80" | "0x80 \<le> n" "n < 0x800" | "0x800 \<le> n" "n < 0x10000" | "0x10000 \<le> n" "n \<le> 0x10FFFF"
    using assms unfolding scalar_value_def by linarith
  then have "utf8_check_first (hd (utf8_char n)) = length (utf8_char n) \<and>
    (0x80 \<le> n \<longrightarrow> utf8_check_full (utf8_char n @ bs) (length (utf8_char n)) = Some n)"
  proof cases
    case 1
    then show ?thesis by (simp add: utf8_char_def utf8_encode_nat utf8_nat)
  next
    case 2
    then have "192 + n div 64 < 224" "194 \<le> 192 + n div 64" by linarith+
    with 2 show ?thesis
      by (simp add: utf8_char_def utf8_encode_nat utf8_nat digit_sums digits_64 digits_64 [simplified] scalar_value_def numeral_nat_eq del: of_nat_add)
  next
    case 3
    then have "224 + n div 4096 < 240" "128 + n div 64 mod 64 < 192" "128 + n mod 64 < 192" by linarith+
    with 3 show ?thesis using assms
      by (simp add: utf8_char_def utf8_encode_nat utf8_nat digit_sums digits_64 digits_64 [simplified] scalar_value_def numeral_nat_eq del: of_nat_add)
  next
    case 4
    then have "240 + n div 262144 < 245" "128 + n div 64 mod 64 < 192" "128 + n mod 64 < 192" by linarith+
    with 4 show ?thesis
      by (simp add: utf8_char_def utf8_encode_nat utf8_nat digit_sums digits_64 digits_64 [simplified] scalar_value_def numeral_nat_eq del: of_nat_add)
  qed
  then show "utf8_check_first (hd (utf8_char n)) = length (utf8_char n)"
    and "0x80 \<le> n \<Longrightarrow> utf8_check_full (utf8_char n @ bs) (length (utf8_char n)) = Some n" by auto
qed

lemma utf8_char_nonempty [simp]: "scalar_value n \<Longrightarrow> utf8_char n \<noteq> []"
  using utf8_char_length [of n] by (auto split: if_splits)

lemma utf8_char_wide:
  assumes "scalar_value n" "\<not> n < 0x80"
  obtains b cs where "utf8_char n = b # cs" "cs \<noteq> []"
proof -
  have "1 < length (utf8_char n)" using assms by (simp add: utf8_char_length)
  then show thesis using that by (cases "utf8_char n") auto
qed

text \<open>The converse: what the checks accept is the encoding of the code point they report.\<close>

lemma utf8_val_Some: "utf8_val least v = Some n \<longleftrightarrow> n = v \<and> scalar_value v \<and> least \<le> v"
  by (auto simp: utf8_val_def)

lemma digit_64: "z < 64 \<Longrightarrow> (m * 64 + z) div 64 = (m :: nat) \<and> (m * 64 + z) mod 64 = z"
  by simp

lemma cont_byte:
  assumes "unat (b :: byte) div 64 = 2"
  obtains y where "y < 64" "b = word_of_nat (128 + y)" "unat b mod 64 = y"
proof
  show "unat b mod 64 < 64" "b = word_of_nat (128 + unat b mod 64)"
    using assms div_mult_mod_eq [of "unat b" 64] by simp_all
qed simp

lemma lead_byte:
  assumes "k * m \<le> unat (b :: byte)" "unat b < Suc k * m"
  obtains x where "x < m" "b = word_of_nat (k * m + x)" "unat b mod m = x"
proof
  have "unat b div m = k" using assms by (intro div_nat_eqI) (simp_all add: mult.commute)
  then have "k * m + unat b mod m = unat b" using div_mult_mod_eq [of "unat b" m] by simp
  then show "b = word_of_nat (k * m + unat b mod m)" by simp
  show "unat b mod m < m" using assms by (cases m) simp_all
qed simp

lemma utf8_full_char:
  assumes "utf8_check_first (hd bs) = k" "1 < k" "k \<le> length bs" "utf8_check_full bs k = Some n"
  shows "scalar_value n \<and> 0x80 \<le> n \<and> utf8_char n = take k bs"
proof -
  obtain a as where bs: "bs = a # as" using assms(2,3) by (cases bs) auto
  have k: "k = 2 \<or> k = 3 \<or> k = 4" using assms(1,2) by (auto simp: utf8_check_first_nat split: if_splits)
  then consider b r where "k = 2" "bs = [a, b] @ r" | b c r where "k = 3" "bs = [a, b, c] @ r"
    | b c d r where "k = 4" "bs = [a, b, c, d] @ r"
    using assms(3) unfolding bs
    by (auto simp: numeral_2_eq_2 numeral_3_eq_3 numeral_eq_Suc Suc_le_length_iff)
  then show ?thesis
  proof cases
    case 1
    then have a: "194 \<le> unat a" "unat a < 224" and b: "unat b div 64 = 2"
      and n: "n = unat a mod 32 * 64 + unat b mod 64" "0x80 \<le> n" "scalar_value n"
      using assms by (auto simp: utf8_nat split: if_splits)
    obtain x where x: "x < 32" "a = word_of_nat (192 + x)" "unat a mod 32 = x"
      using lead_byte [of 6 32 a] a by auto
    obtain y where y: "y < 64" "b = word_of_nat (128 + y)" "unat b mod 64 = y" using cont_byte [OF b] .
    have nv: "n = x * 64 + y" using n(1) x y by simp
    then have "n < 0x800" "n div 64 = x" "n mod 64 = y" using x y by simp_all
    then show ?thesis using 1 n(2,3) x(2) y(2) by (simp add: utf8_char_def utf8_encode_nat)
  next
    case 2
    then have a: "224 \<le> unat a" "unat a < 240" and b: "unat b div 64 = 2" "unat c div 64 = 2"
      and n: "n = (unat a mod 16 * 64 + unat b mod 64) * 64 + unat c mod 64" "0x800 \<le> n" "scalar_value n"
      using assms by (auto simp: utf8_nat split: if_splits)
    obtain x where x: "x < 16" "a = word_of_nat (224 + x)" "unat a mod 16 = x"
      using lead_byte [of 14 16 a] a by auto
    obtain y where y: "y < 64" "b = word_of_nat (128 + y)" "unat b mod 64 = y" using cont_byte [OF b(1)] .
    obtain z where z: "z < 64" "c = word_of_nat (128 + z)" "unat c mod 64 = z" using cont_byte [OF b(2)] .
    have nv: "n = (x * 64 + y) * 64 + z" using n(1) x y z by simp
    have d: "n div 64 = x * 64 + y" "n mod 64 = z" unfolding nv using digit_64 [OF z(1)] by blast+
    have "n < 0x10000" unfolding nv using x y z by simp
    moreover have "n div 4096 = x" "n div 64 mod 64 = y" using div_mult2_eq [of n 64 64] d digit_64 [OF y(1)] by simp_all
    ultimately show ?thesis using 2 n(2,3) x(2) y(2) z(2) d(2) by (simp add: utf8_char_def utf8_encode_nat)
  next
    case 3
    then have a: "240 \<le> unat a" "unat a < 248" and b: "unat b div 64 = 2" "unat c div 64 = 2" "unat d div 64 = 2"
      and n: "0x10000 \<le> n" "scalar_value n"
        "n = ((unat a mod 8 * 64 + unat b mod 64) * 64 + unat c mod 64) * 64 + unat d mod 64"
      using assms by (auto simp: utf8_nat split: if_splits)
    obtain x where x: "x < 8" "a = word_of_nat (240 + x)" "unat a mod 8 = x"
      using lead_byte [of 30 8 a] a by auto
    obtain y where y: "y < 64" "b = word_of_nat (128 + y)" "unat b mod 64 = y" using cont_byte [OF b(1)] .
    obtain z where z: "z < 64" "c = word_of_nat (128 + z)" "unat c mod 64 = z" using cont_byte [OF b(2)] .
    obtain w where w: "w < 64" "d = word_of_nat (128 + w)" "unat d mod 64 = w" using cont_byte [OF b(3)] .
    have nv: "n = ((x * 64 + y) * 64 + z) * 64 + w" using n(3) x y z w by simp
    have d1: "n div 64 = (x * 64 + y) * 64 + z" "n mod 64 = w" unfolding nv using digit_64 [OF w(1)] by blast+
    have d2: "n div 4096 = x * 64 + y" "n div 64 mod 64 = z"
      using div_mult2_eq [of n 64 64] d1 digit_64 [OF z(1), of "x * 64 + y"] by simp_all
    have "n div 262144 = x" "n div 4096 mod 64 = y" using div_mult2_eq [of n 4096 64] d2 digit_64 [OF y(1)] by simp_all
    moreover have "n \<le> 0x10FFFF" using n(2) by (simp add: scalar_value_def)
    ultimately show ?thesis
      using 3 n(1,2) x(2) y(2) z(2) w(2) d1(2) d2(2) by (simp add: utf8_char_def utf8_encode_nat)
  qed
qed

subsection \<open>Strings of scalar values\<close>

definition utf8_text :: "nat list \<Rightarrow> byte list" where
  "utf8_text ns = concat (map utf8_char ns)"

lemma utf8_text_simps [simp]:
  "utf8_text [] = []" "utf8_text (n # ns) = utf8_char n @ utf8_text ns"
  "utf8_text (ms @ ns) = utf8_text ms @ utf8_text ns"
  by (simp_all add: utf8_text_def)

lemma utf8_char_ascii: "n < 0x80 \<Longrightarrow> utf8_char n = [word_of_nat n]"
  by (simp add: utf8_char_def utf8_encode_nat)

lemma utf8_check_bytes_char:
  assumes "scalar_value n"
  shows "utf8_check_bytes (utf8_char n @ bs) = utf8_check_bytes bs"
proof (cases "n < 0x80")
  case True
  then show ?thesis by (simp add: utf8_char_ascii utf8_check_first_nat unat_byte_of_nat)
next
  case False
  obtain b cs where b: "utf8_char n = b # cs" "cs \<noteq> []" using utf8_char_wide [OF assms False] .
  then show ?thesis using utf8_check_char(1) [OF assms] utf8_check_char(2) [OF assms, of bs] False by simp
qed

text \<open>The first character of a string that passes the check.\<close>

lemma utf8_check_bytes_cases:
  assumes "utf8_check_bytes (b # bs)"
  obtains n rest where "scalar_value n" "b # bs = utf8_char n @ rest" "utf8_check_bytes rest"
proof (cases "unat b < 128")
  case True
  then have "b # bs = utf8_char (unat b) @ bs" by (simp add: utf8_char_ascii)
  moreover have "utf8_check_bytes bs" using assms True by (simp add: utf8_check_first_nat)
  moreover have "scalar_value (unat b)" using True by (simp add: scalar_value_def)
  ultimately show thesis using that by blast
next
  case False
  let ?k = "utf8_check_first b"
  have k: "1 < ?k" using assms False by (auto simp: utf8_check_first_nat split: if_splits)
  with assms obtain n where n: "?k \<le> length (b # bs)" "utf8_check_full (b # bs) ?k = Some n"
    "utf8_check_bytes (drop (?k - 1) bs)" by (auto simp: Let_def split: if_splits)
  then have "scalar_value n" "utf8_char n = take ?k (b # bs)" using utf8_full_char [of "b # bs" ?k n] k by simp_all
  moreover have "drop (?k - 1) bs = drop ?k (b # bs)" using k by (simp add: drop_Cons')
  ultimately show thesis using that [of n "drop ?k (b # bs)"] n(3) by simp
qed

lemma utf8_check_bytes_iff:
  "utf8_check_bytes bs \<longleftrightarrow> (\<exists>ns. (\<forall>n \<in> set ns. scalar_value n) \<and> bs = utf8_text ns)"
proof
  show "utf8_check_bytes bs \<Longrightarrow> \<exists>ns. (\<forall>n \<in> set ns. scalar_value n) \<and> bs = utf8_text ns"
  proof (induction "length bs" arbitrary: bs rule: less_induct)
    case less
    show ?case
    proof (cases bs)
      case Nil
      then show ?thesis by (auto intro: exI [of _ "[]"])
    next
      case (Cons b bs')
      then obtain n rest where n: "scalar_value n" "bs = utf8_char n @ rest" "utf8_check_bytes rest"
        using utf8_check_bytes_cases less.prems by metis
      then have "length rest < length bs" by simp
      then obtain ns where "\<forall>n \<in> set ns. scalar_value n" "rest = utf8_text ns" using less.hyps n(3) by metis
      then show ?thesis using n by (auto intro!: exI [of _ "n # ns"])
    qed
  qed
next
  assume "\<exists>ns. (\<forall>n \<in> set ns. scalar_value n) \<and> bs = utf8_text ns"
  then obtain ns where "\<forall>n \<in> set ns. scalar_value n" "bs = utf8_text ns" by blast
  then show "utf8_check_bytes bs" by (induction ns arbitrary: bs) (auto simp: utf8_check_bytes_char)
qed

lemma utf8_check_bytes_append: "utf8_check_bytes as \<Longrightarrow> utf8_check_bytes bs \<Longrightarrow> utf8_check_bytes (as @ bs)"
  unfolding utf8_check_bytes_iff by (metis Un_iff set_append utf8_text_simps(3))

lemma utf8_check_bytes_prefix: "utf8_check_bytes as \<Longrightarrow> utf8_check_bytes (as @ bs) = utf8_check_bytes bs"
proof -
  assume "utf8_check_bytes as"
  then obtain ns where "\<forall>n \<in> set ns. scalar_value n" "as = utf8_text ns" unfolding utf8_check_bytes_iff by blast
  then show ?thesis by (induction ns arbitrary: as) (simp_all add: utf8_check_bytes_char)
qed

lemma utf8_char_bytes: "scalar_value n \<Longrightarrow> b \<in> set (utf8_char n) \<Longrightarrow> unat b < 245"
proof -
  assume n: "scalar_value n" and b: "b \<in> set (utf8_char n)"
  then consider "n < 0x80" | "0x80 \<le> n" "n < 0x800" | "0x800 \<le> n" "n < 0x10000" | "0x10000 \<le> n" "n \<le> 0x10FFFF"
    unfolding scalar_value_def by linarith
  then obtain m where "b = word_of_nat m" "m < 245"
  proof cases
    case 1
    with b show thesis by (intro that [of n]) (simp_all add: utf8_char_def utf8_encode_nat)
  next
    case 2
    with b show thesis
      by (auto simp: utf8_char_def utf8_encode_nat intro: that [of "192 + n div 64"] that [of "128 + n mod 64"])
  next
    case 3
    with b show thesis
      by (auto simp: utf8_char_def utf8_encode_nat intro: that [of "224 + n div 4096"]
          that [of "128 + n div 64 mod 64"] that [of "128 + n mod 64"])
  next
    case 4
    with b show thesis
      by (auto simp: utf8_char_def utf8_encode_nat intro: that [of "240 + n div 262144"]
          that [of "128 + n div 4096 mod 64"] that [of "128 + n div 64 mod 64"] that [of "128 + n mod 64"])
  qed
  then show ?thesis by (simp add: unat_byte_of_nat)
qed

lemma utf8_check_bytes_less: "utf8_check_bytes bs \<Longrightarrow> b \<in> set bs \<Longrightarrow> unat b < 245"
proof -
  assume "utf8_check_bytes bs" and b: "b \<in> set bs"
  then obtain ns where ns: "\<forall>n \<in> set ns. scalar_value n" "bs = utf8_text ns" unfolding utf8_check_bytes_iff by blast
  then obtain n where "n \<in> set ns" "b \<in> set (utf8_char n)" using b by (auto simp: utf8_text_def)
  then show ?thesis using ns(1) utf8_char_bytes by blast
qed

lemma utf8_char_high: "scalar_value n \<Longrightarrow> \<not> n < 0x80 \<Longrightarrow> b \<in> set (utf8_char n) \<Longrightarrow> 128 \<le> unat b"
proof -
  assume n: "scalar_value n" "\<not> n < 0x80" and b: "b \<in> set (utf8_char n)"
  then consider "0x80 \<le> n" "n < 0x800" | "0x800 \<le> n" "n < 0x10000" | "0x10000 \<le> n" "n \<le> 0x10FFFF"
    unfolding scalar_value_def by linarith
  then obtain m where "b = word_of_nat m" "128 \<le> m" "m < 256"
  proof cases
    case 1
    with b show thesis
      by (auto simp: utf8_char_def utf8_encode_nat intro: that [of "192 + n div 64"] that [of "128 + n mod 64"])
  next
    case 2
    with b show thesis
      by (auto simp: utf8_char_def utf8_encode_nat intro: that [of "224 + n div 4096"]
          that [of "128 + n div 64 mod 64"] that [of "128 + n mod 64"])
  next
    case 3
    with b show thesis
      by (auto simp: utf8_char_def utf8_encode_nat intro: that [of "240 + n div 262144"]
          that [of "128 + n div 4096 mod 64"] that [of "128 + n div 64 mod 64"] that [of "128 + n mod 64"])
  qed
  then show ?thesis by (simp add: unat_byte_of_nat)
qed

text \<open>An ASCII byte separates: what is before it and what is after it is UTF-8.\<close>

lemma utf8_split_ascii:
  assumes "utf8_check_bytes (as @ b # bs)" "unat b < 128"
  shows "utf8_check_bytes as \<and> utf8_check_bytes bs"
  using assms(1)
proof (induction "length as" arbitrary: as rule: less_induct)
  case less
  have one: "utf8_check_bytes [b]" using assms(2) by (simp add: utf8_check_first_nat)
  show ?case
  proof (cases as)
    case Nil
    then show ?thesis using less.prems utf8_check_bytes_prefix [OF one, of bs] by simp
  next
    case (Cons a as')
    then obtain n rest where n: "scalar_value n" "as @ b # bs = utf8_char n @ rest" "utf8_check_bytes rest"
      using utf8_check_bytes_cases [of a "as' @ b # bs"] less.prems by auto
    show ?thesis
    proof (cases "length (utf8_char n) \<le> length as")
      case True
      then have t: "take (length (utf8_char n)) as = utf8_char n" and r: "rest = drop (length (utf8_char n)) as @ b # bs"
        using n(2) by (auto simp: append_eq_append_conv_if split: if_splits)
      have as: "as = utf8_char n @ drop (length (utf8_char n)) as" using append_take_drop_id t by metis
      have "length (drop (length (utf8_char n)) as) < length as" using n(1) Cons by simp
      then have "utf8_check_bytes (drop (length (utf8_char n)) as) \<and> utf8_check_bytes bs"
        using less.hyps n(3) r by blast
      then show ?thesis using as utf8_check_bytes_char [OF n(1)] by metis
    next
      case False
      then have "b = utf8_char n ! length as"
        using n(2) by (metis nth_append nth_append_length not_le)
      then have "b \<in> set (utf8_char n)" using False by simp
      moreover have "\<not> n < 0x80" using False Cons by (auto simp: utf8_char_ascii)
      ultimately show ?thesis using utf8_char_high [OF n(1)] assms(2) by fastforce
    qed
  qed
qed

lemma utf8_ascii_bytes: "\<forall>b \<in> set bs. unat b < 128 \<Longrightarrow> utf8_check_bytes bs"
  by (induction bs) (simp_all add: utf8_check_first_nat)

lemma utf8_ascii: "\<forall>c \<in> set s. (of_char c :: nat) < 128 \<Longrightarrow> utf8_check_string s"
  unfolding utf8_check_string_def
  by (rule utf8_ascii_bytes) (auto simp: str_bytes_def byte_of_char_def unat_of_nat)

text \<open>The iterator walks over a string that passes the check one scalar value at a time, and refuses
  every other string at the first sequence that is not one.\<close>

lemma utf8_iterate_char:
  assumes "scalar_value n"
  shows "utf8_iterate (utf8_char n @ bs) = Some (Some n, bs)"
proof (cases "n < 0x80")
  case True
  then show ?thesis
    by (simp add: utf8_iterate_def utf8_char_ascii utf8_check_first_nat unat_byte_of_nat Let_def)
next
  case False
  let ?k = "length (utf8_char n)"
  obtain b cs where b: "utf8_char n = b # cs" "cs \<noteq> []" using utf8_char_wide [OF assms False] .
  then have "utf8_check_first b = ?k" using utf8_check_char(1) [OF assms] by simp
  moreover have "utf8_check_full ((utf8_char n @ bs) @ [0]) ?k = Some n"
    using utf8_check_char(2) [OF assms, of "bs @ [0]"] False by simp
  ultimately show ?thesis using b by (simp add: utf8_iterate_def Let_def)
qed

declare utf8_check_bytes.simps(2) [simp del]

end
