(* ===== verification/Json.thy ===== *)
theory Json
  imports C_Float Utf8 "HOL-Library.AList"
begin

text \<open>
  The part of the bundled jansson library on which the codecs rest: JSON values, the accessors and
  constructors of \<open>value.c\<close>. A \<open>json_t *\<close> that may
  be null is a \<open>json option\<close>. Objects are association lists in the order of iteration; a new
  key is put at the end (the order in which jansson iterates is that of its hash table, and the
  statements of the development do not depend on where a key is put; \<open>Json_Object\<close> and \<open>Json_Array\<close> relate
  these lists to the tables of the code). Allocations inside jansson
  succeed.
\<close>

section \<open>Values\<close>

datatype json =
    JNull | JTrue | JFalse
  | JInteger int
  | JReal "64 word"
  | JString string
  | JArray "json list"
  | JObject "(string \<times> json) list"

fun json_is_object :: "json option \<Rightarrow> bool" where
  "json_is_object (Some (JObject _)) = True"
| "json_is_object _ = False"

fun json_is_array :: "json option \<Rightarrow> bool" where
  "json_is_array (Some (JArray _)) = True"
| "json_is_array _ = False"

definition json_object :: json where "json_object = JObject []"
definition json_array :: json where "json_array = JArray []"

fun json_object_get :: "json option \<Rightarrow> string \<Rightarrow> json option" where
  "json_object_get (Some (JObject kvs)) key = map_of kvs key"
| "json_object_get _ key = None"

text \<open>The setters return the changed value. They report failure by a result that the codecs ignore:
  then the value is unchanged. A null key or value, a key that is not UTF-8 and a target that is not
  an object are failures.\<close>

definition json_object_set_new :: "json \<Rightarrow> string option \<Rightarrow> json option \<Rightarrow> json" where
  "json_object_set_new obj key val =
     (case (key, val, obj) of
        (Some k, Some v, JObject kvs) \<Rightarrow> if utf8_check_string k then JObject (AList.update k v kvs) else obj
      | _ \<Rightarrow> obj)"

text \<open>The variants without the check of the key, with their failures.\<close>

definition json_object_set_new_nocheck :: "json \<Rightarrow> string option \<Rightarrow> json option \<Rightarrow> json option" where
  "json_object_set_new_nocheck obj key val =
     (case (key, val, obj) of
        (Some k, Some v, JObject kvs) \<Rightarrow> Some (JObject (AList.update k v kvs))
      | _ \<Rightarrow> None)"

definition json_object_set_nocheck :: "json \<Rightarrow> string option \<Rightarrow> json option \<Rightarrow> json option" where
  "json_object_set_nocheck obj key val = json_object_set_new_nocheck obj key val"

definition json_object_set :: "json \<Rightarrow> string option \<Rightarrow> json option \<Rightarrow> json" where
  "json_object_set obj key val = json_object_set_new obj key val"

fun json_object_pairs :: "json \<Rightarrow> (string \<times> json) list" where
  "json_object_pairs (JObject kvs) = kvs"
| "json_object_pairs _ = []"

fun json_array_items :: "json \<Rightarrow> json list" where
  "json_array_items (JArray xs) = xs"
| "json_array_items _ = []"

definition json_array_size :: "json \<Rightarrow> nat" where
  "json_array_size a = length (json_array_items a)"

fun json_array_append_new :: "json \<Rightarrow> json option \<Rightarrow> json" where
  "json_array_append_new (JArray xs) (Some v) = JArray (xs @ [v])"
| "json_array_append_new a _ = a"

definition json_array_append :: "json \<Rightarrow> json option \<Rightarrow> json" where
  "json_array_append a v = json_array_append_new a v"

fun json_string_value :: "json option \<Rightarrow> string option" where
  "json_string_value (Some (JString s)) = Some s"
| "json_string_value _ = None"

fun json_number_value :: "json option \<Rightarrow> 64 word" where
  "json_number_value (Some (JInteger i)) = double_of_int i"
| "json_number_value (Some (JReal d)) = d"
| "json_number_value _ = 0"

fun json_integer_value :: "json option \<Rightarrow> int" where
  "json_integer_value (Some (JInteger i)) = i"
| "json_integer_value _ = 0"

definition json_string_nocheck :: "string \<Rightarrow> json option" where
  "json_string_nocheck s = Some (JString s)"

definition json_string :: "string \<Rightarrow> json option" where
  "json_string s = (if utf8_check_string s then Some (JString s) else None)"

definition json_real :: "64 word \<Rightarrow> json option" where
  "json_real d = (if dbl_finite d then Some (JReal d) else None)"

text \<open>\<open>json_int_t\<close> has 64 bits: the argument is the word, read as a signed number.\<close>

definition json_integer :: "64 word \<Rightarrow> json option" where
  "json_integer w = Some (JInteger (sint w))"

text \<open>A measure for recursions over values: it counts the nodes.\<close>

primrec weight :: "json \<Rightarrow> nat" where
  "weight JNull = 1"
| "weight JTrue = 1"
| "weight JFalse = 1"
| "weight (JInteger i) = 1"
| "weight (JReal d) = 1"
| "weight (JString s) = 1"
| "weight (JArray xs) = Suc (sum_list (map weight xs))"
| "weight (JObject kvs) = Suc (sum_list (map snd (map (map_prod id weight) kvs)))"

definition pairs_weight :: "(string \<times> json) list \<Rightarrow> nat" where
  "pairs_weight kvs = sum_list (map (weight \<circ> snd) kvs)"

definition items_weight :: "json list \<Rightarrow> nat" where
  "items_weight xs = sum_list (map weight xs)"

section \<open>Lemmas\<close>

lemma weight_pos [simp]: "0 < weight v"
  by (cases v) auto

lemma weight_simps [simp]:
  "items_weight [] = 0" "items_weight (x # xs) = weight x + items_weight xs"
  "pairs_weight [] = 0" "pairs_weight (kv # kvs) = weight (snd kv) + pairs_weight kvs"
  by (simp_all add: items_weight_def pairs_weight_def)

lemma items_weight_json: "items_weight (json_array_items v) < weight v"
  by (cases v) (auto simp: items_weight_def)

lemma pairs_weight_json: "pairs_weight (json_object_pairs v) < weight v"
  by (cases v) (auto simp: pairs_weight_def comp_def map_prod_def case_prod_beta)

lemma update_new: "k \<notin> fst ` set kvs \<Longrightarrow> AList.update k v kvs = kvs @ [(k, v)]"
  by (induction kvs) auto

lemma json_object_set_new_get:
  "utf8_check_string k \<Longrightarrow>
   json_object_get (Some (json_object_set_new (JObject kvs) (Some k) (Some v))) k' =
     (if k' = k then Some v else map_of kvs k')"
  by (simp add: json_object_set_new_def update_conv')

end
