(* ===== verification/Pb_Util.thy ===== *)
theory Pb_Util
  imports Json
begin

text \<open>
  What the two halves of the protobuf codec share: the type names of \<open>pb-util.c\<close>, the lookup of
  the definition of a message type, and the reference forms of variable-length integers (as natural
  numbers) and of the zigzag transformation, to which the loops of encoder and decoder are compared.
\<close>

section \<open>Type names\<close>

definition pb__get_type :: "string \<Rightarrow> nat" where
  "pb__get_type type =
     (if type = ''uInt32'' then 1
      else if type = ''int32'' then 2
      else if type = ''sInt32'' then 3
      else if type = ''float'' then 4
      else if type = ''double'' then 5
      else if type = ''string'' then 6
      else 0)"

definition pb__get_constant_type :: "string \<Rightarrow> nat" where
  "pb__get_constant_type type =
     (if type = ''uInt32'' \<or> type = ''sInt32'' \<or> type = ''int32'' then 0
      else if type = ''double'' then 1
      else if type = ''string'' then 2
      else if type = ''float'' then 5
      else 2)"

definition PB_uInt32 :: nat where "PB_uInt32 = 1"
definition PB_int32 :: nat where "PB_int32 = 2"
definition PB_sInt32 :: nat where "PB_sInt32 = 3"
definition PB_float :: nat where "PB_float = 4"
definition PB_double :: nat where "PB_double = 5"
definition PB_string :: nat where "PB_string = 6"

lemmas pb_type_defs = PB_uInt32_def PB_int32_def PB_sInt32_def PB_float_def PB_double_def PB_string_def

section \<open>The definition of a message type\<close>

text \<open>Both codecs look a type up in the \<open>__messages\<close> of the enclosing message and then, under
  the key \<open>message <type>\<close>, among the global definitions. The buffer for that key is not checked.\<close>

definition pb_sub_msg :: "malloc \<Rightarrow> json option \<Rightarrow> json option \<Rightarrow> string \<Rightarrow> json option option" where
  "pb_sub_msg malloc gprotos messages type =
     (case json_object_get messages type of
        Some sub \<Rightarrow> Some (Some sub)
      | None \<Rightarrow> if \<not> malloc (8 + length type + 1) then None
                else Some (json_object_get gprotos (''message '' @ type)))"

section \<open>Variable-length integers\<close>

fun varint :: "nat \<Rightarrow> byte list" where
  "varint n = (if n < 128 then [word_of_nat n] else word_of_nat (n mod 128 + 128) # varint (n div 128))"

declare varint.simps [simp del]

definition zigzag :: "64 word \<Rightarrow> 64 word" where
  "zigzag v = (if v <s 0 then NOT (push_bit 1 v) else push_bit 1 v)"

definition unzigzag :: "64 word \<Rightarrow> 64 word" where
  "unzigzag v = (if bit v 0 then NOT (drop_bit 1 v) else drop_bit 1 v)"

lemma varint_nonempty [simp]: "varint n \<noteq> []"
  by (subst varint.simps) simp

lemma length_varint: "n < 128 ^ k \<Longrightarrow> 0 < k \<Longrightarrow> length (varint n) \<le> k"
proof (induction n arbitrary: k rule: varint.induct)
  case (1 n)
  show ?case
  proof (cases "n < 128")
    case True
    then show ?thesis using 1(3) by (simp add: varint.simps [of n])
  next
    case False
    then obtain j where k: "k = Suc j" "0 < j" using 1(2,3) by (cases k; cases "k - 1") auto
    then have "n div 128 < 128 ^ j" using 1(2) by (simp add: less_mult_imp_div_less mult.commute)
    then show ?thesis using 1(1) [OF False] False k by (simp add: varint.simps [of n])
  qed
qed

lemma unzigzag_zigzag: "unzigzag (zigzag v) = v"
proof (rule bit_word_eqI)
  fix n assume n: "n < LENGTH(64)"
  have neg: "v <s 0 \<longleftrightarrow> bit v 63" using bit_last_iff [of v] by (simp add: word_sless_alt)
  have p: "bit (push_bit 1 v) k \<longleftrightarrow> 0 < k \<and> k < 64 \<and> bit v (k - 1)" for k
    by (simp add: bit_push_bit_iff Suc_le_eq del: push_bit_of_Suc_0 push_bit_Suc One_nat_def) auto
  have d: "bit (drop_bit 1 w) k \<longleftrightarrow> bit w (Suc k)" for w :: "64 word" and k
    by (simp only: bit_drop_bit_eq comp_def plus_1_eq_Suc)
  consider "n < 63" | "n = 63" using n by force
  then show "bit (unzigzag (zigzag v)) n = bit v n"
    by cases (auto simp: unzigzag_def zigzag_def neg p d bit_not_iff simp del: One_nat_def)
qed

section \<open>A sample schema\<close>

text \<open>A schema, a message and its encoding, on which the statements about the codec are tried.\<close>

definition demo_field :: "string \<Rightarrow> string \<Rightarrow> int \<Rightarrow> json" where
  "demo_field opt type tag =
     JObject [(''option'', JString opt), (''type'', JString type), (''tag'', JInteger tag)]"

definition demo_point :: json where
  "demo_point = JObject [(''x'', demo_field ''required'' ''sInt32'' 1),
     (''__tags'', JObject [(''1'', JString ''x'')])]"

definition demo_protos :: json where
  "demo_protos = JObject [(''id'', demo_field ''required'' ''uInt32'' 1),
     (''name'', demo_field ''optional'' ''string'' 2),
     (''pos'', demo_field ''repeated'' ''Point'' 3),
     (''__messages'', JObject [(''Point'', demo_point)]),
     (''__tags'', JObject [(''1'', JString ''id''), (''2'', JString ''name''), (''3'', JString ''pos'')])]"

definition demo_msg :: json where
  "demo_msg = JObject [(''id'', JInteger 300), (''name'', JString ''ab''),
     (''pos'', JArray [JObject [(''x'', JInteger (- 3))]])]"

definition demo_bytes :: "byte list" where
  "demo_bytes = [8, 172, 2, 18, 2, 97, 98, 26, 2, 8, 5]"

lemma demo_get:
  "json_object_get (Some (demo_field opt type tag)) ''option'' = Some (JString opt)"
  "json_object_get (Some (demo_field opt type tag)) ''type'' = Some (JString type)"
  by (simp_all add: demo_field_def)

lemma demo_types:
  "pb__get_type ''uInt32'' = PB_uInt32" "pb__get_type ''sInt32'' = PB_sInt32"
  "pb__get_type ''string'' = PB_string" "pb__get_type ''Point'' = 0"
  "pb__get_constant_type ''uInt32'' = 0" "pb__get_constant_type ''sInt32'' = 0"
  "pb__get_constant_type ''string'' = 2" "pb__get_constant_type ''Point'' = 2"
  by (simp_all add: pb__get_type_def pb__get_constant_type_def pb_type_defs)

lemma demo_varints:
  "varint 2 = [2]" "varint 5 = [5]" "varint 8 = [8]" "varint 18 = [18]" "varint 26 = [26]" "varint 300 = [172, 2]"
  by (simp_all add: varint.simps)

end
