(* ===== verification/Pb_Encode.thy ===== *)
theory Pb_Encode
  imports Pb_Util
begin

text \<open>
  The protobuf encoder of \<open>pb-encode.c\<close>: output streams, the encoders of the wire formats and
  the recursive encoder of messages, which runs twice over every submessage, first over a stream that
  only counts and then over the output.

  The second half gives a reference encoder without streams, from messages to byte lists, and shows
  that the code implements it: the output is the reference encoding if that fits into the buffer, and
  the error return otherwise.
\<close>

section \<open>Output streams\<close>

text \<open>\<open>sink\<close> is the memory behind the pointer \<open>state\<close>, which is an offset into it. A stream
  without callback only counts.\<close>

record pb_ostream =
  callback :: bool
  sink :: "byte list"
  state :: nat
  max_size :: nat
  bytes_written :: nat

definition pb_ostream_from_buffer :: "byte list \<Rightarrow> nat \<Rightarrow> pb_ostream" where
  "pb_ostream_from_buffer buf bufsize =
     \<lparr>callback = True, sink = buf, state = 0, max_size = bufsize, bytes_written = 0\<rparr>"

definition buf_write_cb :: "pb_ostream \<Rightarrow> byte list option \<Rightarrow> nat \<Rightarrow> pb_ostream option" where
  "buf_write_cb stream buf count = do {
     source \<leftarrow> buf;
     xs \<leftarrow> mem_read source 0 count;
     mem \<leftarrow> mem_write (sink stream) (state stream) xs;
     Some (stream\<lparr>sink := mem, state := state stream + count\<rparr>)
   }"

definition pb_write :: "pb_ostream \<Rightarrow> byte list option \<Rightarrow> nat \<Rightarrow> pb_ostream cret option" where
  "pb_write stream buf count =
     (if callback stream
      then (if size_add (bytes_written stream) count > max_size stream then Some Fail
            else do {
              stream \<leftarrow> buf_write_cb stream buf count;
              Some (Ok (stream\<lparr>bytes_written := size_add (bytes_written stream) count\<rparr>))
            })
      else Some (Ok (stream\<lparr>bytes_written := size_add (bytes_written stream) count\<rparr>)))"

section \<open>Wire formats\<close>

function varint_loop :: "64 word \<Rightarrow> byte list" where
  "varint_loop val =
     (if val = 0 then []
      else (ucast (val AND 0x7F) OR 0x80) # varint_loop (drop_bit 7 val))"
  by auto
termination
proof (relation "measure unat", simp)
  fix val :: "64 word" assume "val \<noteq> 0"
  then have "0 < unat val" by (simp add: unat_gt_0)
  moreover have "unat (drop_bit 7 val) = unat val div 128" by (simp add: drop_bit_eq_div unat_div)
  ultimately show "(drop_bit 7 val, val) \<in> measure unat" by simp
qed

declare varint_loop.simps [simp del]

definition pb_encode_varint :: "pb_ostream \<Rightarrow> 64 word \<Rightarrow> pb_ostream cret option" where
  "pb_encode_varint stream val =
     (if val = 0 then pb_write stream (Some [0]) 1
      else let buffer = varint_loop val
           in if length buffer > 10 then None
              else pb_write stream (Some (butlast buffer @ [last buffer AND 0x7F])) (length buffer))"

text \<open>The shift of a negative number, which the C standard leaves open, is that of the two's
  complement.\<close>

definition pb_encode_svarint :: "pb_ostream \<Rightarrow> 64 word \<Rightarrow> pb_ostream cret option" where
  "pb_encode_svarint stream val =
     (let zigzagged = (if val <s 0 then NOT (push_bit 1 val) else push_bit 1 val)
      in pb_encode_varint stream zigzagged)"

text \<open>The bytes of a variable, least significant first (the build is little endian).\<close>

definition le_bytes :: "nat \<Rightarrow> nat \<Rightarrow> byte list" where
  "le_bytes k n = map (\<lambda>i. word_of_nat (n div 256 ^ i)) [0..<k]"

definition pb_encode_fixed32 :: "pb_ostream \<Rightarrow> 32 word \<Rightarrow> pb_ostream cret option" where
  "pb_encode_fixed32 stream val = pb_write stream (Some (le_bytes 4 (unat val))) 4"

definition pb_encode_fixed64 :: "pb_ostream \<Rightarrow> 64 word \<Rightarrow> pb_ostream cret option" where
  "pb_encode_fixed64 stream val = pb_write stream (Some (le_bytes 8 (unat val))) 8"

definition pb_encode_tag :: "pb_ostream \<Rightarrow> nat \<Rightarrow> 32 word \<Rightarrow> pb_ostream cret option" where
  "pb_encode_tag stream wiretype field_number =
     (let tag = ucast (word_of_nat wiretype OR push_bit 3 field_number) in pb_encode_varint stream tag)"

text \<open>The number of a field is converted from \<open>double\<close> to \<open>uint32_t\<close>.\<close>

definition pb_encode_tag_for_field :: "pb_ostream \<Rightarrow> json \<Rightarrow> pb_ostream cret option" where
  "pb_encode_tag_for_field stream field = do {
     type \<leftarrow> json_string_value (json_object_get (Some field) ''type'');
     let wiretype = pb__get_constant_type type;
     tag \<leftarrow> int_of_double 0 (2 ^ 32 - 1) (json_number_value (json_object_get (Some field) ''tag''));
     pb_encode_tag stream wiretype (word_of_int tag)
   }"

definition pb_encode_string :: "pb_ostream \<Rightarrow> byte list \<Rightarrow> nat \<Rightarrow> pb_ostream cret option" where
  "pb_encode_string stream buffer sz =
     cbind (pb_encode_varint stream (word_of_nat sz)) (\<lambda>stream. pb_write stream (Some buffer) sz)"

text \<open>The scalar cases of \<open>pb_encode_proto\<close>: \<open>json_int_t int_val = json_number_value(value)\<close>
  truncates a \<open>double\<close>, undefined outside 64 bits; \<open>int length = strlen(str)\<close>.\<close>

definition pb_encode_scalar :: "pb_ostream \<Rightarrow> nat \<Rightarrow> json \<Rightarrow> pb_ostream cret option" where
  "pb_encode_scalar stream ty val =
     (if ty = PB_uInt32 then do {
        i \<leftarrow> int_of_double (- (2 ^ 63)) (2 ^ 63 - 1) (json_number_value (Some val));
        pb_encode_varint stream (word_of_int i)
      }
      else if ty = PB_int32 \<or> ty = PB_sInt32 then do {
        i \<leftarrow> int_of_double (- (2 ^ 63)) (2 ^ 63 - 1) (json_number_value (Some val));
        pb_encode_svarint stream (word_of_int i)
      }
      else if ty = PB_float then
        pb_encode_fixed32 stream (float_of_double (json_number_value (Some val)))
      else if ty = PB_double then
        pb_encode_fixed64 stream (json_number_value (Some val))
      else do {
        str \<leftarrow> json_string_value (Some val);
        pb_encode_string stream (str_bytes str @ [0]) (size_of_int (int32_of_size (length str)))
      })"

section \<open>Messages\<close>

definition sizing_stream :: pb_ostream where
  "sizing_stream = \<lparr>callback = False, sink = [], state = 0, max_size = 0, bytes_written = 0\<rparr>"

lemma weight_steps:
  "4 * weight v - Suc 0 < 4 * weight v + n"
  "4 * weight v - 2 < 4 * weight v - Suc 0"
  "4 * items_weight (json_array_items v) < 4 * weight v - Suc 0"
  "4 * pairs_weight (json_object_pairs v) < 4 * weight v - 2"
  using weight_pos [of v] items_weight_json [of v] pairs_weight_json [of v] by linarith+

lemma ref_steps:
  "4 * items_weight (json_array_items v) < 4 * weight v + n"
  "4 * pairs_weight (json_object_pairs v) < 4 * weight v - Suc 0"
  using weight_pos [of v] items_weight_json [of v] pairs_weight_json [of v] by linarith+

text \<open>\<open>pb_encode_fields\<close> is the loop of \<open>pb_encode\<close> over the pairs of an object,
  \<open>pb_encode_items\<close> the two loops of \<open>pb_encode_array\<close> (\<open>tagged\<close> repeats the tag).\<close>

function (sequential)
    pb_encode_fields :: "malloc \<Rightarrow> json option \<Rightarrow> json \<Rightarrow> (string \<times> json) list \<Rightarrow> pb_ostream \<Rightarrow> pb_ostream cret option"
  and pb_encode_array :: "malloc \<Rightarrow> json option \<Rightarrow> json \<Rightarrow> json \<Rightarrow> json \<Rightarrow> pb_ostream \<Rightarrow> pb_ostream cret option"
  and pb_encode_items :: "malloc \<Rightarrow> json option \<Rightarrow> json \<Rightarrow> json \<Rightarrow> bool \<Rightarrow> json list \<Rightarrow> pb_ostream \<Rightarrow> pb_ostream cret option"
  and pb_encode_proto :: "malloc \<Rightarrow> json option \<Rightarrow> json \<Rightarrow> json \<Rightarrow> json \<Rightarrow> pb_ostream \<Rightarrow> pb_ostream cret option"
  and pb_encode_submessage :: "malloc \<Rightarrow> json option \<Rightarrow> json \<Rightarrow> json \<Rightarrow> pb_ostream \<Rightarrow> pb_ostream cret option"
where
  "pb_encode_fields malloc gprotos protos [] stream = Some (Ok stream)"
| "pb_encode_fields malloc gprotos protos ((key, val) # kvs) stream =
     (case json_object_get (Some protos) key of
        None \<Rightarrow> Some Fail
      | Some proto \<Rightarrow>
          cbind
            (do {
               option_text \<leftarrow> json_string_value (json_object_get (Some proto) ''option'');
               if option_text = ''required'' \<or> option_text = ''optional''
               then cbind (pb_encode_tag_for_field stream proto)
                      (pb_encode_proto malloc gprotos protos proto val)
               else if option_text = ''repeated'' \<and> json_is_array (Some val)
               then pb_encode_array malloc gprotos protos proto val stream
               else Some (Ok stream)
             })
            (pb_encode_fields malloc gprotos protos kvs))"
| "pb_encode_array malloc gprotos protos proto array stream = do {
     type \<leftarrow> json_string_value (json_object_get (Some proto) ''type'');
     if pb__get_type type \<noteq> 0 \<and> pb__get_type type \<noteq> PB_string
     then cbind (pb_encode_tag_for_field stream proto) (\<lambda>stream.
          cbind (pb_encode_varint stream (word_of_nat (json_array_size array)))
            (pb_encode_items malloc gprotos protos proto False (json_array_items array)))
     else pb_encode_items malloc gprotos protos proto True (json_array_items array) stream
   }"
| "pb_encode_items malloc gprotos protos proto tagged [] stream = Some (Ok stream)"
| "pb_encode_items malloc gprotos protos proto tagged (val # vals) stream =
     cbind (if tagged then pb_encode_tag_for_field stream proto else Some (Ok stream)) (\<lambda>stream.
     cbind (pb_encode_proto malloc gprotos protos proto val stream)
       (pb_encode_items malloc gprotos protos proto tagged vals))"
| "pb_encode_proto malloc gprotos protos proto val stream = do {
     type \<leftarrow> json_string_value (json_object_get (Some proto) ''type'');
     if pb__get_type type \<noteq> 0 then pb_encode_scalar stream (pb__get_type type) val
     else case json_object_get (Some protos) ''__messages'' of
       None \<Rightarrow> Some (Ok stream)
     | Some messages \<Rightarrow> do {
         sub_msg \<leftarrow> pb_sub_msg malloc gprotos (Some messages) type;
         case sub_msg of
           None \<Rightarrow> Some Fail
         | Some sub \<Rightarrow> pb_encode_submessage malloc gprotos sub val stream
       }
   }"
| "pb_encode_submessage malloc gprotos protos val stream =
     cbind (pb_encode_fields malloc gprotos protos (json_object_pairs val) sizing_stream) (\<lambda>substream.
       let sz = bytes_written substream
       in cbind (pb_encode_varint stream (word_of_nat sz)) (\<lambda>stream.
            if \<not> callback stream then pb_write stream None sz
            else if size_add (bytes_written stream) sz > max_size stream then Some Fail
            else cbind
              (pb_encode_fields malloc gprotos protos (json_object_pairs val)
                (stream\<lparr>max_size := sz, bytes_written := 0\<rparr>))
              (\<lambda>substream.
                 if bytes_written substream \<noteq> sz then Some Fail
                 else Some (Ok (stream\<lparr>bytes_written := size_add (bytes_written stream) (bytes_written substream),
                                       sink := sink substream, state := state substream\<rparr>)))))"
  by pat_completeness auto

text \<open>Every call is on a smaller part of the message.\<close>

termination
  by (relation "measure (\<lambda>x. case x of
        Inl (Inl (_, _, _, kvs, _)) \<Rightarrow> 4 * pairs_weight kvs
      | Inl (Inr (_, _, _, _, array, _)) \<Rightarrow> 4 * weight array - 1
      | Inr (Inl (_, _, _, _, _, vals, _)) \<Rightarrow> 4 * items_weight vals
      | Inr (Inr (Inl (_, _, _, _, val, _))) \<Rightarrow> 4 * weight val - 1
      | Inr (Inr (Inr (_, _, _, val, _))) \<Rightarrow> 4 * weight val - 2)") (auto simp: weight_steps)

declare pb_encode_array.simps [simp del] pb_encode_proto.simps [simp del] pb_encode_submessage.simps [simp del]

definition pb_encode :: "malloc \<Rightarrow> json option \<Rightarrow> json \<Rightarrow> json \<Rightarrow> pb_ostream \<Rightarrow> pb_ostream cret option" where
  "pb_encode malloc gprotos protos msg stream =
     pb_encode_fields malloc gprotos protos (json_object_pairs msg) stream"

text \<open>The result is the buffer and \<open>*written\<close>.\<close>

definition pc_pb_encode ::
  "malloc \<Rightarrow> byte list \<Rightarrow> nat \<Rightarrow> json option \<Rightarrow> json \<Rightarrow> json \<Rightarrow> (byte list \<times> nat) cret option" where
  "pc_pb_encode malloc buf len gprotos protos msg =
     cbind (pb_encode malloc gprotos protos msg (pb_ostream_from_buffer buf len))
       (\<lambda>stream. Some (Ok (sink stream, bytes_written stream)))"

section \<open>The reference encoder\<close>

definition cappend :: "byte list cret option \<Rightarrow> byte list cret option \<Rightarrow> byte list cret option" where
  "cappend a b = cbind a (\<lambda>xs. cbind b (\<lambda>ys. Some (Ok (xs @ ys))))"

definition ref_tag :: "json \<Rightarrow> byte list cret option" where
  "ref_tag field = do {
     type \<leftarrow> json_string_value (json_object_get (Some field) ''type'');
     tag \<leftarrow> int_of_double 0 (2 ^ 32 - 1) (json_number_value (json_object_get (Some field) ''tag''));
     Some (Ok (varint (unat (word_of_nat (pb__get_constant_type type) OR push_bit 3 (word_of_int tag) :: 32 word))))
   }"

definition ref_scalar :: "nat \<Rightarrow> json \<Rightarrow> byte list cret option" where
  "ref_scalar ty val =
     (if ty = PB_uInt32 \<or> ty = PB_int32 \<or> ty = PB_sInt32 then do {
        i \<leftarrow> int_of_double (- (2 ^ 63)) (2 ^ 63 - 1) (json_number_value (Some val));
        let w = (word_of_int i :: 64 word);
        Some (Ok (varint (unat (if ty = PB_uInt32 then w else zigzag w))))
      }
      else if ty = PB_float then Some (Ok (le_bytes 4 (unat (float_of_double (json_number_value (Some val))))))
      else if ty = PB_double then Some (Ok (le_bytes 8 (unat (json_number_value (Some val)))))
      else do {
        str \<leftarrow> json_string_value (Some val);
        if length str < 2 ^ 31 then Some (Ok (varint (length str) @ str_bytes str)) else None
      })"

function (sequential)
    ref_fields :: "malloc \<Rightarrow> json option \<Rightarrow> json \<Rightarrow> (string \<times> json) list \<Rightarrow> byte list cret option"
  and ref_items :: "malloc \<Rightarrow> json option \<Rightarrow> json \<Rightarrow> json \<Rightarrow> bool \<Rightarrow> json list \<Rightarrow> byte list cret option"
  and ref_proto :: "malloc \<Rightarrow> json option \<Rightarrow> json \<Rightarrow> json \<Rightarrow> json \<Rightarrow> byte list cret option"
where
  "ref_fields malloc gprotos protos [] = Some (Ok [])"
| "ref_fields malloc gprotos protos ((key, val) # kvs) =
     (case json_object_get (Some protos) key of
        None \<Rightarrow> Some Fail
      | Some proto \<Rightarrow>
          cappend
            (do {
               option_text \<leftarrow> json_string_value (json_object_get (Some proto) ''option'');
               if option_text = ''required'' \<or> option_text = ''optional''
               then cappend (ref_tag proto) (ref_proto malloc gprotos protos proto val)
               else if option_text = ''repeated'' \<and> json_is_array (Some val)
               then do {
                 type \<leftarrow> json_string_value (json_object_get (Some proto) ''type'');
                 if pb__get_type type \<noteq> 0 \<and> pb__get_type type \<noteq> PB_string
                 then cappend (cappend (ref_tag proto)
                        (Some (Ok (varint (unat (word_of_nat (length (json_array_items val)) :: 64 word))))))
                        (ref_items malloc gprotos protos proto False (json_array_items val))
                 else ref_items malloc gprotos protos proto True (json_array_items val)
               }
               else Some (Ok [])
             })
            (ref_fields malloc gprotos protos kvs))"
| "ref_items malloc gprotos protos proto tagged [] = Some (Ok [])"
| "ref_items malloc gprotos protos proto tagged (val # vals) =
     cappend (cappend (if tagged then ref_tag proto else Some (Ok []))
         (ref_proto malloc gprotos protos proto val))
       (ref_items malloc gprotos protos proto tagged vals)"
| "ref_proto malloc gprotos protos proto val = do {
     type \<leftarrow> json_string_value (json_object_get (Some proto) ''type'');
     if pb__get_type type \<noteq> 0 then ref_scalar (pb__get_type type) val
     else case json_object_get (Some protos) ''__messages'' of
       None \<Rightarrow> Some (Ok [])
     | Some messages \<Rightarrow> do {
         sub_msg \<leftarrow> pb_sub_msg malloc gprotos (Some messages) type;
         case sub_msg of
           None \<Rightarrow> Some Fail
         | Some sub \<Rightarrow> cbind (ref_fields malloc gprotos sub (json_object_pairs val))
             (\<lambda>body. Some (Ok (varint (length body) @ body)))
       }
   }"
  by pat_completeness auto

termination
  by (relation "measure (\<lambda>x. case x of
        Inl (_, _, _, kvs) \<Rightarrow> 4 * pairs_weight kvs
      | Inr (Inl (_, _, _, _, _, vals)) \<Rightarrow> 4 * items_weight vals
      | Inr (Inr (_, _, _, _, val)) \<Rightarrow> 4 * weight val - 1)")
    (auto simp: weight_steps ref_steps)

declare ref_proto.simps [simp del]

section \<open>What a stream does with the bytes it is given\<close>

definition emit :: "pb_ostream \<Rightarrow> byte list \<Rightarrow> pb_ostream cret" where
  "emit st bs =
     (if \<not> callback st then Ok (st\<lparr>bytes_written := bytes_written st + length bs\<rparr>)
      else if bytes_written st + length bs > max_size st then Fail
      else Ok (st\<lparr>sink := take (state st) (sink st) @ bs @ drop (state st + length bs) (sink st),
                  state := state st + length bs, bytes_written := bytes_written st + length bs\<rparr>))"

text \<open>The limit of a writing stream lies inside its memory, and no counter wraps around.\<close>

definition fits :: "pb_ostream \<Rightarrow> byte list \<Rightarrow> bool" where
  "fits st bs \<longleftrightarrow> max_size st < 2 ^ 63 \<and> length bs < 2 ^ 63 \<and>
     (if callback st
      then bytes_written st \<le> max_size st \<and> state st + (max_size st - bytes_written st) \<le> length (sink st)
      else bytes_written st + length bs < 2 ^ 63)"

definition implements :: "(pb_ostream \<Rightarrow> pb_ostream cret option) \<Rightarrow> byte list cret option \<Rightarrow> bool" where
  "implements f r \<longleftrightarrow> (\<forall>st bs. r = Some (Ok bs) \<longrightarrow> fits st bs \<longrightarrow> f st = Some (emit st bs))"

lemma fits_append: "fits st (xs @ ys) \<Longrightarrow> fits st xs"
  by (auto simp: fits_def split: if_splits)

lemma fits_emit: "fits st (xs @ ys) \<Longrightarrow> emit st xs = Ok st' \<Longrightarrow> fits st' ys"
  by (auto simp: fits_def emit_def split: if_splits)

lemma emit_append:
  "fits st (xs @ ys) \<Longrightarrow> emit st (xs @ ys) = (case emit st xs of Fail \<Rightarrow> Fail | Ok st' \<Rightarrow> emit st' ys)"
proof (cases "callback st \<and> bytes_written st + length xs + length ys \<le> max_size st")
  case True
  moreover assume "fits st (xs @ ys)"
  ultimately have "state st + length xs \<le> length (sink st)" by (auto simp: fits_def)
  then show ?thesis using True by (simp add: emit_def ac_simps min_absorb2)
next
  case False
  then show ?thesis by (auto simp: emit_def)
qed

lemma emit_Nil: "fits st [] \<Longrightarrow> emit st [] = Ok st"
  by (auto simp: emit_def fits_def split: if_splits)

lemma implements_return: "implements (\<lambda>st. Some (Ok st)) (Some (Ok []))"
  by (simp add: implements_def emit_Nil)

lemma implements_cbind:
  assumes "implements f a" "implements g b"
  shows "implements (\<lambda>st. cbind (f st) g) (cappend a b)"
  unfolding implements_def
proof (intro allI impI)
  fix st bs assume bs: "cappend a b = Some (Ok bs)" "fits st bs"
  then obtain xs ys where xy: "a = Some (Ok xs)" "b = Some (Ok ys)" "bs = xs @ ys"
    by (auto simp: cappend_def elim!: cbind_OkE)
  then have "f st = Some (emit st xs)" using assms(1) bs fits_append by (auto simp: implements_def)
  moreover have "g st' = Some (emit st' ys)" if "emit st xs = Ok st'" for st'
    using assms(2) xy bs fits_emit [OF _ that] by (auto simp: implements_def)
  ultimately show "cbind (f st) g = Some (emit st bs)"
    using emit_append [of st xs ys] bs xy by (cases "emit st xs") auto
qed

lemma implementsD: "implements f (Some (Ok bs)) \<Longrightarrow> fits st bs \<Longrightarrow> f st = Some (emit st bs)"
  by (simp add: implements_def)

lemma implements_None [simp]: "implements f None" "implements f (Some Fail)"
  by (simp_all add: implements_def)

lemma implements_write:
  assumes "n = length bs" "n \<le> length buf" "take n buf = bs"
  shows "implements (\<lambda>st. pb_write st (Some buf) n) (Some (Ok bs))"
  unfolding implements_def
proof (intro allI impI)
  fix st xs assume "Some (Ok bs) = Some (Ok xs)" "fits st xs"
  then have f: "fits st bs" and xs: "xs = bs" by auto
  have "size_add (bytes_written st) n = bytes_written st + n"
    using f assms(1) by (intro size_add_small) (auto simp: fits_def split: if_splits)
  then show "pb_write st (Some buf) n = Some (emit st xs)"
    using f assms xs
    by (auto simp: pb_write_def emit_def buf_write_cb_def mem_read_def mem_write_def fits_def)
qed

section \<open>The wire formats against the reference\<close>

lemma varint_loop_eq:
  assumes "val \<noteq> 0"
  shows "butlast (varint_loop val) @ [last (varint_loop val) AND 0x7F] = varint (unat val)"
  using assms
proof (induction val rule: varint_loop.induct)
  case (1 val)
  have d: "unat (drop_bit 7 val) = unat val div 128" by (simp add: drop_bit_eq_div unat_div)
  have b: "(ucast (val AND 0x7F) OR 0x80 :: byte) = word_of_nat (unat val mod 128 + 128)"
    by (simp only: ucast_low7 low7_or mod_less_divisor zero_less_numeral)
  show ?case
  proof (cases "drop_bit 7 val = 0")
    case True
    have "unat val < 128" using d True by (simp add: div_eq_0_iff)
    moreover from this have "(ucast (val AND 0x7F) OR 0x80) AND 0x7F = (word_of_nat (unat val) :: byte)"
      by (simp only: ucast_low7 low7_and mod_less)
    ultimately show ?thesis
      using 1(2) True by (simp add: varint_loop.simps [of val] varint_loop.simps [of 0] varint.simps [of "unat val"])
  next
    case False
    then have ge: "\<not> unat val < 128" using d by (auto simp: unat_eq_0 [symmetric])
    have ne: "varint_loop (drop_bit 7 val) \<noteq> []" using False by (simp add: varint_loop.simps)
    show ?thesis
      using 1(1) [OF 1(2) False] 1(2) ge ne d b
      by (simp add: varint_loop.simps [of val] varint.simps [of "unat val"])
  qed
qed

lemma length_varint_64: "length (varint (unat (w :: 64 word))) \<le> 10"
  using length_varint [of "unat w" 10] unsigned_less [of w, where 'a = nat] by simp

lemma implements_varint: "implements (\<lambda>st. pb_encode_varint st w) (Some (Ok (varint (unat w))))"
proof (cases "w = 0")
  case True
  then show ?thesis
    using implements_write [of 1 "[0]" "[0]"] by (simp add: pb_encode_varint_def varint.simps [of 0])
next
  case False
  have ne: "varint_loop w \<noteq> []" using False by (simp add: varint_loop.simps)
  note eq = varint_loop_eq [OF False]
  have len: "length (varint_loop w) = length (varint (unat w))"
    using ne by (simp flip: eq)
  show ?thesis
    using False implements_write [of "length (varint_loop w)" "varint (unat w)" "varint (unat w)"]
      length_varint_64 [of w] len
    by (simp add: pb_encode_varint_def Let_def eq del: length_greater_0_conv)
qed

lemma implements_svarint: "implements (\<lambda>st. pb_encode_svarint st w) (Some (Ok (varint (unat (zigzag w)))))"
  using implements_varint [of "zigzag w"] by (simp add: pb_encode_svarint_def zigzag_def cong: if_cong)

lemma length_le_bytes [simp]: "length (le_bytes k n) = k"
  by (simp add: le_bytes_def)

lemma implements_fixed:
  "implements (\<lambda>st. pb_encode_fixed32 st f) (Some (Ok (le_bytes 4 (unat f))))"
  "implements (\<lambda>st. pb_encode_fixed64 st d) (Some (Ok (le_bytes 8 (unat d))))"
  unfolding pb_encode_fixed32_def pb_encode_fixed64_def by (rule implements_write; simp)+

lemma implements_bind:
  "(\<And>x. m = Some x \<Longrightarrow> implements (f x) (r x)) \<Longrightarrow>
   implements (\<lambda>st. m \<bind> (\<lambda>x. f x st)) (m \<bind> r)"
  by (cases m) auto

lemma implements_tag: "implements (\<lambda>st. pb_encode_tag_for_field st field) (ref_tag field)"
proof -
  have "unat (ucast x :: 64 word) = unat (x :: 32 word)" for x
    using unsigned_less [of x, where 'a = nat] by (simp add: unsigned_ucast_eq take_bit_nat_eq_self)
  then have "implements (\<lambda>st. pb_encode_tag st wt w) (Some (Ok (varint (unat (word_of_nat wt OR push_bit 3 w :: 32 word)))))"
    for wt w
    using implements_varint [of "ucast (word_of_nat wt OR push_bit 3 w :: 32 word)"] by (simp add: pb_encode_tag_def)
  then show ?thesis
    unfolding ref_tag_def pb_encode_tag_for_field_def Let_def by (intro implements_bind)
qed

lemma implements_string:
  assumes "length str < 2 ^ 31"
  shows "implements (\<lambda>st. pb_encode_string st (str_bytes str @ [0]) (size_of_int (int32_of_size (length str))))
    (Some (Ok (varint (length str) @ str_bytes str)))"
proof -
  have sz: "size_of_int (int32_of_size (length str)) = length str"
    using assms by (simp add: int32_of_size_small size_of_int_nat)
  have "unat (word_of_nat (length str) :: 64 word) = length str" using assms by (simp add: unat_of_nat)
  then have "implements (\<lambda>st. pb_encode_varint st (word_of_nat (length str))) (Some (Ok (varint (length str))))"
    using implements_varint [of "word_of_nat (length str)"] by simp
  moreover have "implements (\<lambda>st. pb_write st (Some (str_bytes str @ [0])) (length str)) (Some (Ok (str_bytes str)))"
    by (rule implements_write) simp_all
  ultimately have "implements (\<lambda>st. cbind (pb_encode_varint st (word_of_nat (length str)))
      (\<lambda>st. pb_write st (Some (str_bytes str @ [0])) (length str)))
      (cappend (Some (Ok (varint (length str)))) (Some (Ok (str_bytes str))))"
    by (rule implements_cbind)
  then show ?thesis by (simp add: pb_encode_string_def sz cappend_def)
qed

lemma implements_scalar: "implements (\<lambda>st. pb_encode_scalar st ty val) (ref_scalar ty val)"
proof -
  consider "ty = PB_uInt32" | "ty = PB_int32 \<or> ty = PB_sInt32" | "ty = PB_float" | "ty = PB_double"
    | "ty \<notin> {PB_uInt32, PB_int32, PB_sInt32, PB_float, PB_double}" by auto
  then show ?thesis
  proof cases
    case 5
    have "implements (\<lambda>st. pb_encode_string st (str_bytes str @ [0]) (size_of_int (int32_of_size (length str))))
      (if length str < 2 ^ 31 then Some (Ok (varint (length str) @ str_bytes str)) else None)" for str
      using implements_string by simp
    with 5 show ?thesis
      by (simp add: pb_encode_scalar_def ref_scalar_def) (rule implements_bind)
  qed (simp add: pb_encode_scalar_def ref_scalar_def pb_type_defs implements_fixed;
       auto intro!: implements_bind simp: implements_varint implements_svarint)+
qed

section \<open>Messages against the reference\<close>

text \<open>A submessage: the counting pass finds the length of what the writing pass then writes.\<close>

lemma implements_submessage:
  assumes "implements (pb_encode_fields malloc gprotos sub (json_object_pairs val)) r"
  shows "implements (pb_encode_submessage malloc gprotos sub val)
    (cbind r (\<lambda>body. Some (Ok (varint (length body) @ body))))"
  unfolding implements_def
proof (intro allI impI)
  let ?f = "pb_encode_fields malloc gprotos sub (json_object_pairs val)"
  fix st bs
  assume "cbind r (\<lambda>body. Some (Ok (varint (length body) @ body))) = Some (Ok bs)" and fit: "fits st bs"
  then obtain body where r: "r = Some (Ok body)" and bs: "bs = varint (length body) @ body"
    by (auto elim!: cbind_OkE)
  have lt: "length body < 2 ^ 63" using fit bs by (auto simp: fits_def)
  have "fits sizing_stream body" using lt by (simp add: fits_def sizing_stream_def)
  then have sizing: "?f sizing_stream = Some (Ok (sizing_stream\<lparr>bytes_written := length body\<rparr>))"
    using assms r by (simp add: implements_def emit_def sizing_stream_def)
  have "unat (word_of_nat (length body) :: 64 word) = length body" using lt by (simp add: unat_of_nat)
  then have vi: "pb_encode_varint st (word_of_nat (length body)) = Some (emit st (varint (length body)))"
    using implementsD [OF implements_varint, of st "word_of_nat (length body)"] fits_append fit bs by simp
  have em: "emit st bs = (case emit st (varint (length body)) of Fail \<Rightarrow> Fail | Ok st' \<Rightarrow> emit st' body)"
    using emit_append fit bs by simp
  show "pb_encode_submessage malloc gprotos sub val st = Some (emit st bs)"
  proof (cases "emit st (varint (length body))")
    case Fail
    then show ?thesis using sizing vi em by (simp add: pb_encode_submessage.simps Let_def)
  next
    case (Ok st')
    have fit': "fits st' body" using fits_emit [of st "varint (length body)" body] fit bs Ok by simp
    have sa: "size_add (bytes_written st') (length body) = bytes_written st' + length body"
      using fit' by (intro size_add_small) (auto simp: fits_def split: if_splits)
    have "?f (st'\<lparr>max_size := length body, bytes_written := 0\<rparr>) =
        Some (emit (st'\<lparr>max_size := length body, bytes_written := 0\<rparr>) body)"
      if "callback st'" "bytes_written st' + length body \<le> max_size st'"
      using that fit' lt assms r by (auto simp: implements_def fits_def)
    then show ?thesis
      using sizing vi em Ok sa by (auto simp: pb_encode_submessage.simps Let_def pb_write_def emit_def)
  qed
qed

lemma implements_if:
  "(b \<Longrightarrow> implements f r) \<Longrightarrow> (\<not> b \<Longrightarrow> implements g s) \<Longrightarrow>
   implements (\<lambda>st. if b then f st else g st) (if b then r else s)"
  by (cases b) auto

text \<open>One field of a message, with the bytes of an array as the reference encoder writes them.\<close>

definition ref_array :: "malloc \<Rightarrow> json option \<Rightarrow> json \<Rightarrow> json \<Rightarrow> json \<Rightarrow> byte list cret option" where
  "ref_array malloc gprotos protos proto val = do {
     type \<leftarrow> json_string_value (json_object_get (Some proto) ''type'');
     if pb__get_type type \<noteq> 0 \<and> pb__get_type type \<noteq> PB_string
     then cappend (cappend (ref_tag proto)
            (Some (Ok (varint (unat (word_of_nat (length (json_array_items val)) :: 64 word))))))
            (ref_items malloc gprotos protos proto False (json_array_items val))
     else ref_items malloc gprotos protos proto True (json_array_items val)
   }"

definition ref_field :: "malloc \<Rightarrow> json option \<Rightarrow> json \<Rightarrow> json \<Rightarrow> json \<Rightarrow> byte list cret option" where
  "ref_field malloc gprotos protos proto val = do {
     option_text \<leftarrow> json_string_value (json_object_get (Some proto) ''option'');
     if option_text = ''required'' \<or> option_text = ''optional''
     then cappend (ref_tag proto) (ref_proto malloc gprotos protos proto val)
     else if option_text = ''repeated'' \<and> json_is_array (Some val)
     then ref_array malloc gprotos protos proto val
     else Some (Ok [])
   }"

lemma ref_fields_Cons:
  "ref_fields malloc gprotos protos ((key, val) # kvs) =
     (case json_object_get (Some protos) key of
        None \<Rightarrow> Some Fail
      | Some proto \<Rightarrow> cappend (ref_field malloc gprotos protos proto val) (ref_fields malloc gprotos protos kvs))"
  by (simp only: ref_fields.simps(2) ref_field_def ref_array_def)

lemma implements_items:
  assumes "\<And>v. v \<in> set vals \<Longrightarrow>
    implements (pb_encode_proto malloc gprotos protos proto v) (ref_proto malloc gprotos protos proto v)"
  shows "implements (pb_encode_items malloc gprotos protos proto tagged vals)
    (ref_items malloc gprotos protos proto tagged vals)"
  using assms
proof (induction vals)
  case Nil
  then show ?case using implements_return by (simp add: implements_def)
next
  case (Cons v vals)
  have "implements (\<lambda>st. if tagged then pb_encode_tag_for_field st proto else Some (Ok st))
    (if tagged then ref_tag proto else Some (Ok []))"
    by (intro implements_if implements_tag implements_return)
  from implements_cbind [OF implements_cbind [OF this Cons.prems(1)] Cons.IH] Cons.prems
  show ?case by (simp add: implements_def)
qed

lemma implements_array:
  assumes "\<And>v. v \<in> set (json_array_items val) \<Longrightarrow>
    implements (pb_encode_proto malloc gprotos protos proto v) (ref_proto malloc gprotos protos proto v)"
  shows "implements (\<lambda>st. pb_encode_array malloc gprotos protos proto val st) (ref_array malloc gprotos protos proto val)"
  unfolding pb_encode_array.simps ref_array_def json_array_size_def cbind_assoc [symmetric]
  by (intro implements_bind implements_if implements_cbind implements_tag implements_varint implements_items assms)

lemma implements_fields:
  assumes "\<And>k v proto x. (k, v) \<in> set kvs \<Longrightarrow> x = v \<or> x \<in> set (json_array_items v) \<Longrightarrow>
    implements (pb_encode_proto malloc gprotos protos proto x) (ref_proto malloc gprotos protos proto x)"
  shows "implements (pb_encode_fields malloc gprotos protos kvs) (ref_fields malloc gprotos protos kvs)"
  using assms
proof (induction kvs)
  case Nil
  then show ?case using implements_return by (simp add: implements_def)
next
  case (Cons kv kvs)
  obtain key val where kv: "kv = (key, val)" by fastforce
  show ?case
  proof (cases "json_object_get (Some protos) key")
    case (Some proto)
    have "implements (\<lambda>st. json_string_value (json_object_get (Some proto) ''option'') \<bind> (\<lambda>option_text.
        if option_text = ''required'' \<or> option_text = ''optional''
        then cbind (pb_encode_tag_for_field st proto) (pb_encode_proto malloc gprotos protos proto val)
        else if option_text = ''repeated'' \<and> json_is_array (Some val)
        then pb_encode_array malloc gprotos protos proto val st
        else Some (Ok st))) (ref_field malloc gprotos protos proto val)"
      unfolding ref_field_def
      by (intro implements_bind implements_if implements_cbind implements_tag implements_array implements_return)
        (use Cons.prems kv in auto)
    moreover have "implements (pb_encode_fields malloc gprotos protos kvs) (ref_fields malloc gprotos protos kvs)"
      by (rule Cons.IH, rule Cons.prems) auto
    ultimately have "implements (\<lambda>st. cbind (json_string_value (json_object_get (Some proto) ''option'') \<bind> (\<lambda>option_text.
        if option_text = ''required'' \<or> option_text = ''optional''
        then cbind (pb_encode_tag_for_field st proto) (pb_encode_proto malloc gprotos protos proto val)
        else if option_text = ''repeated'' \<and> json_is_array (Some val)
        then pb_encode_array malloc gprotos protos proto val st
        else Some (Ok st))) (pb_encode_fields malloc gprotos protos kvs))
      (cappend (ref_field malloc gprotos protos proto val) (ref_fields malloc gprotos protos kvs))"
      by (rule implements_cbind)
    then show ?thesis
      by (simp add: implements_def kv Some ref_fields_Cons del: ref_fields.simps)
  qed (simp add: implements_def kv)
qed

lemma weight_in: "(k, v) \<in> set (json_object_pairs u) \<Longrightarrow> weight v < weight u"
  "x \<in> set (json_array_items v) \<Longrightarrow> weight x < weight v"
proof -
  show "weight v < weight u" if "(k, v) \<in> set (json_object_pairs u)"
    using that member_le_sum_list [of "weight v" "map (weight \<circ> snd) (json_object_pairs u)"] pairs_weight_json [of u]
    by (force simp: pairs_weight_def)
  show "weight x < weight v" if "x \<in> set (json_array_items v)"
    using that member_le_sum_list [of "weight x" "map weight (json_array_items v)"] items_weight_json [of v]
    by (simp add: items_weight_def)
qed

lemma implements_proto:
  "implements (pb_encode_proto malloc gprotos protos proto val) (ref_proto malloc gprotos protos proto val)"
proof (induction val arbitrary: protos proto rule: measure_induct_rule [of weight])
  case (less val)
  have "implements (pb_encode_fields malloc gprotos sub (json_object_pairs val))
      (ref_fields malloc gprotos sub (json_object_pairs val))" for sub
    by (rule implements_fields) (use weight_in less.IH in \<open>metis order.strict_trans\<close>)
  note sub = implements_submessage [OF this]
  have msg: "implements (\<lambda>st. case sub_msg of None \<Rightarrow> Some Fail
      | Some sub \<Rightarrow> pb_encode_submessage malloc gprotos sub val st)
    (case sub_msg of None \<Rightarrow> Some Fail
      | Some sub \<Rightarrow> cbind (ref_fields malloc gprotos sub (json_object_pairs val))
          (\<lambda>body. Some (Ok (varint (length body) @ body))))" for sub_msg
    using sub by (cases sub_msg) auto
  have "implements (\<lambda>st. case m of None \<Rightarrow> Some (Ok st)
      | Some messages \<Rightarrow> pb_sub_msg malloc gprotos (Some messages) type \<bind> (\<lambda>sub_msg.
          case sub_msg of None \<Rightarrow> Some Fail
          | Some sub \<Rightarrow> pb_encode_submessage malloc gprotos sub val st))
    (case m of None \<Rightarrow> Some (Ok [])
      | Some messages \<Rightarrow> pb_sub_msg malloc gprotos (Some messages) type \<bind> (\<lambda>sub_msg.
          case sub_msg of None \<Rightarrow> Some Fail
          | Some sub \<Rightarrow> cbind (ref_fields malloc gprotos sub (json_object_pairs val))
              (\<lambda>body. Some (Ok (varint (length body) @ body)))))" for m type
    using implements_return msg by (cases m) (auto intro: implements_bind)
  then have "implements (\<lambda>st. pb_encode_proto malloc gprotos protos proto val st)
      (ref_proto malloc gprotos protos proto val)"
    unfolding pb_encode_proto.simps ref_proto.simps
    by (intro implements_bind implements_if implements_scalar)
  then show ?case .
qed

lemma pb_encode_implements:
  "implements (pb_encode_fields malloc gprotos protos kvs) (ref_fields malloc gprotos protos kvs)"
  by (intro implements_fields implements_proto)

section \<open>Rejected messages\<close>

text \<open>What the reference rejects, the code does not encode, whatever the buffer.\<close>

definition sound :: "(pb_ostream \<Rightarrow> pb_ostream cret option) \<Rightarrow> byte list cret option \<Rightarrow> bool" where
  "sound f r \<longleftrightarrow> (\<forall>st st'. f st = Some (Ok st') \<longrightarrow> r \<noteq> Some Fail)"

lemma cappend_Fail: "cappend a b = Some Fail \<longleftrightarrow> a = Some Fail \<or> (\<exists>xs. a = Some (Ok xs)) \<and> b = Some Fail"
  by (auto simp: cappend_def cbind_def split: option.splits cret.splits)

lemma sound_rules:
  "r \<noteq> Some Fail \<Longrightarrow> sound f r"
  "sound f a \<Longrightarrow> sound g b \<Longrightarrow> sound (\<lambda>st. cbind (f st) g) (cappend a b)"
  "(\<And>x. m = Some x \<Longrightarrow> sound (k x) (q x)) \<Longrightarrow> sound (\<lambda>st. m \<bind> (\<lambda>x. k x st)) (m \<bind> q)"
  "(c \<Longrightarrow> sound f a) \<Longrightarrow> (\<not> c \<Longrightarrow> sound g b) \<Longrightarrow> sound (\<lambda>st. if c then f st else g st) (if c then a else b)"
proof -
  show "sound (\<lambda>st. cbind (f st) g) (cappend a b)" if "sound f a" "sound g b"
    using that by (auto simp: sound_def cappend_Fail elim!: cbind_OkE)
  show "sound (\<lambda>st. m \<bind> (\<lambda>x. k x st)) (m \<bind> q)" if "\<And>x. m = Some x \<Longrightarrow> sound (k x) (q x)"
    using that by (cases m) (auto simp: sound_def)
qed (auto simp: sound_def)

lemma ref_leaves_no_Fail: "ref_tag proto \<noteq> Some Fail" "ref_scalar ty val \<noteq> Some Fail"
  by (auto simp: ref_tag_def ref_scalar_def Let_def bind_eq_Some_conv split: if_splits)

lemmas sound_comb = sound_rules(2) sound_rules(3) sound_rules(4)

lemma sound_leaves: "sound f (ref_tag proto)" "sound f (ref_scalar ty val)" "sound f (Some (Ok bs))"
  by (intro sound_rules(1); simp add: ref_leaves_no_Fail)+

lemma sound_items:
  assumes "\<And>v. v \<in> set vals \<Longrightarrow>
    sound (pb_encode_proto malloc gprotos protos proto v) (ref_proto malloc gprotos protos proto v)"
  shows "sound (pb_encode_items malloc gprotos protos proto tagged vals)
    (ref_items malloc gprotos protos proto tagged vals)"
  using assms
proof (induction vals)
  case (Cons v vals)
  have "sound (\<lambda>st. if tagged then pb_encode_tag_for_field st proto else Some (Ok st))
    (if tagged then ref_tag proto else Some (Ok []))"
    by (intro sound_comb sound_leaves)
  from sound_rules(2) [OF sound_rules(2) [OF this Cons.prems] Cons.IH] Cons.prems
  show ?case by (simp add: sound_def)
qed (simp add: sound_def)

lemma sound_fields:
  assumes "\<And>k v proto x. (k, v) \<in> set kvs \<Longrightarrow> x = v \<or> x \<in> set (json_array_items v) \<Longrightarrow>
    sound (pb_encode_proto malloc gprotos protos proto x) (ref_proto malloc gprotos protos proto x)"
  shows "sound (pb_encode_fields malloc gprotos protos kvs) (ref_fields malloc gprotos protos kvs)"
  using assms
proof (induction kvs)
  case (Cons kv kvs)
  obtain key val where kv: "kv = (key, val)" by fastforce
  show ?case
  proof (cases "json_object_get (Some protos) key")
    case (Some proto)
    have items: "sound (pb_encode_proto malloc gprotos protos proto v) (ref_proto malloc gprotos protos proto v)"
      if "v \<in> set (json_array_items val)" for v using Cons.prems [of key val v] that kv by simp
    have val: "sound (pb_encode_proto malloc gprotos protos proto val) (ref_proto malloc gprotos protos proto val)"
      using Cons.prems [of key val val] kv by simp
    have rest: "sound (pb_encode_fields malloc gprotos protos kvs) (ref_fields malloc gprotos protos kvs)"
      by (rule Cons.IH, rule Cons.prems) auto
    have arr: "sound (\<lambda>st. pb_encode_array malloc gprotos protos proto val st) (ref_array malloc gprotos protos proto val)"
      unfolding pb_encode_array.simps ref_array_def cbind_assoc [symmetric]
      by (intro sound_comb sound_leaves sound_items items)
    have "sound (\<lambda>st. cbind (json_string_value (json_object_get (Some proto) ''option'') \<bind> (\<lambda>option_text.
        if option_text = ''required'' \<or> option_text = ''optional''
        then cbind (pb_encode_tag_for_field st proto) (pb_encode_proto malloc gprotos protos proto val)
        else if option_text = ''repeated'' \<and> json_is_array (Some val)
        then pb_encode_array malloc gprotos protos proto val st
        else Some (Ok st))) (pb_encode_fields malloc gprotos protos kvs))
      (cappend (ref_field malloc gprotos protos proto val) (ref_fields malloc gprotos protos kvs))"
      unfolding ref_field_def by (intro sound_comb sound_leaves arr val rest)
    then show ?thesis
      by (simp add: sound_def kv Some ref_fields_Cons del: ref_fields.simps)
  qed (simp add: sound_def kv)
qed (simp add: sound_def)

lemma sound_proto:
  "sound (pb_encode_proto malloc gprotos protos proto val) (ref_proto malloc gprotos protos proto val)"
proof (induction val arbitrary: protos proto rule: measure_induct_rule [of weight])
  case (less val)
  have "sound (pb_encode_fields malloc gprotos sub (json_object_pairs val))
      (ref_fields malloc gprotos sub (json_object_pairs val))" for sub
    by (rule sound_fields) (use weight_in less.IH in \<open>metis order.strict_trans\<close>)
  then have sub: "sound (pb_encode_submessage malloc gprotos sub val)
      (cbind (ref_fields malloc gprotos sub (json_object_pairs val)) (\<lambda>body. Some (Ok (varint (length body) @ body))))"
    for sub
    unfolding sound_def pb_encode_submessage.simps
    by (intro allI impI) (elim cbind_OkE, auto simp: cbind_def split: option.splits cret.splits)
  have "sound (\<lambda>st. case m of None \<Rightarrow> Some (Ok st)
      | Some messages \<Rightarrow> pb_sub_msg malloc gprotos (Some messages) type \<bind> (\<lambda>sub_msg.
          case sub_msg of None \<Rightarrow> Some Fail
          | Some sub \<Rightarrow> pb_encode_submessage malloc gprotos sub val st))
    (case m of None \<Rightarrow> Some (Ok [])
      | Some messages \<Rightarrow> pb_sub_msg malloc gprotos (Some messages) type \<bind> (\<lambda>sub_msg.
          case sub_msg of None \<Rightarrow> Some Fail
          | Some sub \<Rightarrow> cbind (ref_fields malloc gprotos sub (json_object_pairs val))
              (\<lambda>body. Some (Ok (varint (length body) @ body)))))" for m type
  proof (cases m)
    case (Some messages)
    have "sound (\<lambda>st. case sub_msg of None \<Rightarrow> Some Fail
          | Some sub \<Rightarrow> pb_encode_submessage malloc gprotos sub val st)
        (case sub_msg of None \<Rightarrow> Some Fail
          | Some sub \<Rightarrow> cbind (ref_fields malloc gprotos sub (json_object_pairs val))
              (\<lambda>body. Some (Ok (varint (length body) @ body))))" for sub_msg
      using sub by (cases sub_msg) (auto simp: sound_def)
    then show ?thesis unfolding Some option.case by (intro sound_comb)
  qed (simp add: sound_def)
  then have "sound (\<lambda>st. pb_encode_proto malloc gprotos protos proto val st)
      (ref_proto malloc gprotos protos proto val)"
    unfolding pb_encode_proto.simps ref_proto.simps by (intro sound_comb sound_leaves)
  then show ?case .
qed

section \<open>Properties\<close>

lemma demo_tag:
  "0 \<le> t \<Longrightarrow> t < 16 \<Longrightarrow> ref_tag (demo_field opt type t) =
     Some (Ok (varint (unat (word_of_nat (pb__get_constant_type type) OR push_bit 3 (word_of_int t) :: 32 word))))"
  by (simp add: ref_tag_def demo_field_def int_of_double_of_int)

lemmas demo_eval = demo_get demo_tag demo_types demo_varints ref_fields_Cons ref_field_def ref_array_def
  ref_proto.simps ref_scalar_def pb_type_defs cappend_def int_of_double_of_int pb_sub_msg_def

lemma demo_ref: "ref_fields (\<lambda>_. True) gp demo_protos (json_object_pairs demo_msg) = Some (Ok demo_bytes)"
proof -
  have z: "unat (zigzag (- 3)) = 5" by (simp add: zigzag_def word_sless_alt)
  show ?thesis
    by (simp add: demo_msg_def demo_protos_def demo_point_def demo_bytes_def demo_eval z str_bytes_def byte_of_char_def
        numeral_2_eq_2 [symmetric] del: ref_fields.simps(2))
qed

lemma pb_encode_buffer:
  assumes "ref_fields malloc gprotos protos (json_object_pairs msg) = Some (Ok bs)"
    and "len \<le> length buf" "len < 2 ^ 63" "length bs < 2 ^ 63"
  shows "pc_pb_encode malloc buf len gprotos protos msg =
    Some (if length bs \<le> len then Ok (bs @ drop (length bs) buf, length bs) else Fail)"
proof -
  have "fits (pb_ostream_from_buffer buf len) bs"
    using assms(2-4) by (simp add: fits_def pb_ostream_from_buffer_def)
  from implementsD [OF pb_encode_implements [of malloc gprotos protos "json_object_pairs msg", unfolded assms(1)] this]
  show ?thesis
    by (simp add: pc_pb_encode_def pb_encode_def emit_def pb_ostream_from_buffer_def)
qed

text \<open>(C5) \<open>pc_pb_encode\<close> implements the reference encoder: when that gives the bytes
  \<open>bs\<close>, the code writes exactly \<open>bs\<close> to the front of the buffer, reports their number and
  leaves the rest of the buffer as it was, provided they fit; otherwise it returns the error. In
  particular the counting pass and the writing pass of every submessage agree, and no write leaves the
  buffer.\<close>

theorem pb_encode_refines_reference:
  assumes "ref_fields malloc gprotos protos (json_object_pairs msg) = Some (Ok bs)"
    and "len \<le> length buf" "len < 2 ^ 63" "length bs < 2 ^ 63"
  shows "pc_pb_encode malloc buf len gprotos protos msg =
    Some (if length bs \<le> len then Ok (bs @ drop (length bs) buf, length bs) else Fail)"
  using assms by (rule pb_encode_buffer)

theorem pb_encode_refines_reference_witness:
  "pc_pb_encode (\<lambda>_. True) (replicate 16 0) 16 None demo_protos demo_msg =
     Some (Ok (demo_bytes @ replicate 5 0, 11))"
  using pb_encode_refines_reference [OF demo_ref, where buf = "replicate 16 0" and len = 16]
  by (simp add: demo_bytes_def)

text \<open>A message that the reference encoder rejects (a key without definition, or a type for
  which no message is defined) is never reported as encoded, whatever the buffer and its size.\<close>

theorem pb_encode_rejects:
  assumes "ref_fields malloc gprotos protos (json_object_pairs msg) = Some Fail"
  shows "pc_pb_encode malloc buf len gprotos protos msg \<noteq> Some (Ok r)"
proof
  assume "pc_pb_encode malloc buf len gprotos protos msg = Some (Ok r)"
  moreover have "sound (pb_encode_fields malloc gprotos protos (json_object_pairs msg))
      (ref_fields malloc gprotos protos (json_object_pairs msg))"
    by (intro sound_fields sound_proto)
  ultimately show False
    using assms by (auto simp: pc_pb_encode_def pb_encode_def sound_def elim!: cbind_OkE)
qed

theorem pb_encode_rejects_witness:
  "pc_pb_encode (\<lambda>_. True) (replicate 4 0) 4 None demo_protos (JObject [(''what'', JNull)]) \<noteq> Some (Ok ([], 0))"
  by (rule pb_encode_rejects) (simp add: demo_protos_def)

end
