(* ===== verification/Pb_Decode.thy ===== *)
theory Pb_Decode
  imports Pb_Util
begin

text \<open>
  The protobuf decoder of \<open>pb-decode.c\<close>: input streams, the decoders of the wire formats and the
  recursive decoder of messages. The input buffer is a parameter \<open>src\<close>; a stream is an offset
  into it and the number of bytes that may still be read.

  The decoder of submessages is passed to the functions that need it, so that \<open>pb_decode\<close> is the
  only recursive one; its recursion is bounded by fuel, and a theorem shows that one unit more than
  the number of bytes is always enough.
\<close>

section \<open>Input streams\<close>

record pb_istream =
  istate :: nat
  bytes_left :: nat

definition pb_istream_from_buffer :: "nat \<Rightarrow> nat \<Rightarrow> pb_istream" where
  "pb_istream_from_buffer off bufsize = \<lparr>istate = off, bytes_left = bufsize\<rparr>"

definition buf_read :: "byte list \<Rightarrow> pb_istream \<Rightarrow> nat \<Rightarrow> (byte list \<times> pb_istream) option" where
  "buf_read src stream count = do {
     bs \<leftarrow> mem_read src (istate stream) count;
     Some (bs, stream\<lparr>istate := istate stream + count\<rparr>)
   }"

text \<open>Reading into a buffer. Skipping (a null buffer) is reserved for streams with another callback,
  of which there are none.\<close>

definition pb_read :: "byte list \<Rightarrow> pb_istream \<Rightarrow> nat \<Rightarrow> (byte list \<times> pb_istream) cret option" where
  "pb_read src stream count =
     (if bytes_left stream < count then Some Fail
      else do {
        (bs, stream) \<leftarrow> buf_read src stream count;
        Some (Ok (bs, stream\<lparr>bytes_left := bytes_left stream - count\<rparr>))
      })"

section \<open>Wire formats\<close>

text \<open>The result is the number, or \<open>None\<close> for the error return, and the stream, which the caller
  still looks at after an error.\<close>

function varint_in :: "byte list \<Rightarrow> pb_istream \<Rightarrow> nat \<Rightarrow> 64 word \<Rightarrow> (64 word option \<times> pb_istream) option" where
  "varint_in src stream bitpos dest =
     (if bitpos \<ge> 64 then Some (None, stream)
      else case pb_read src stream 1 of
        None \<Rightarrow> None
      | Some Fail \<Rightarrow> Some (None, stream)
      | Some (Ok (bs, stream)) \<Rightarrow>
          let b = hd bs; dest = dest OR push_bit bitpos (ucast (b AND 0x7F))
          in if b AND 0x80 = 0 then Some (Some dest, stream)
             else varint_in src stream (bitpos + 7) dest)"
  by auto
termination by (relation "measure (\<lambda>(_, _, bitpos, _). 64 - bitpos)") auto

declare varint_in.simps [simp del]

definition pb_decode_varint :: "byte list \<Rightarrow> pb_istream \<Rightarrow> (64 word option \<times> pb_istream) option" where
  "pb_decode_varint src stream = varint_in src stream 0 0"

definition pb_decode_varint32 :: "byte list \<Rightarrow> pb_istream \<Rightarrow> (32 word option \<times> pb_istream) option" where
  "pb_decode_varint32 src stream = do {
     (temp, stream) \<leftarrow> pb_decode_varint src stream;
     Some (map_option ucast temp, stream)
   }"

text \<open>Where the caller only returns the error.\<close>

definition checked :: "('a option \<times> pb_istream) option \<Rightarrow> ('a \<times> pb_istream) cret option" where
  "checked m = do {
     (x, stream) \<leftarrow> m;
     Some (case x of None \<Rightarrow> Fail | Some v \<Rightarrow> Ok (v, stream))
   }"

definition pb_decode_svarint :: "byte list \<Rightarrow> pb_istream \<Rightarrow> (64 word \<times> pb_istream) cret option" where
  "pb_decode_svarint src stream =
     cbind (checked (pb_decode_varint src stream)) (\<lambda>(val, stream).
       Some (Ok (if val AND 1 \<noteq> 0 then NOT (drop_bit 1 val) else drop_bit 1 val, stream)))"

definition le_value :: "byte list \<Rightarrow> nat" where
  "le_value bs = foldr (\<lambda>b n. unat b + 256 * n) bs 0"

definition pb_decode_fixed32 :: "byte list \<Rightarrow> pb_istream \<Rightarrow> (32 word \<times> pb_istream) cret option" where
  "pb_decode_fixed32 src stream =
     cbind (pb_read src stream 4) (\<lambda>(bs, stream). Some (Ok (word_of_nat (le_value bs), stream)))"

definition pb_decode_fixed64 :: "byte list \<Rightarrow> pb_istream \<Rightarrow> (64 word \<times> pb_istream) cret option" where
  "pb_decode_fixed64 src stream =
     cbind (pb_read src stream 8) (\<lambda>(bs, stream). Some (Ok (word_of_nat (le_value bs), stream)))"

definition pb_decode_strlen :: "byte list \<Rightarrow> pb_istream \<Rightarrow> (32 word \<times> pb_istream) cret option" where
  "pb_decode_strlen src stream = checked (pb_decode_varint32 src stream)"

text \<open>\<open>dest\<close> has \<open>cap\<close> bytes. The terminating zero is written even when the read has failed.\<close>

definition pb_decode_string :: "byte list \<Rightarrow> pb_istream \<Rightarrow> nat \<Rightarrow> nat \<Rightarrow> (string \<times> pb_istream) cret option" where
  "pb_decode_string src stream cap sz =
     (if cap \<le> sz then None
      else cbind (pb_read src stream sz) (\<lambda>(bs, stream). Some (Ok (bytes_str (bs @ [0]), stream))))"

datatype tag_result = Tag_Error | Tag_Eof | Tag "32 word"

text \<open>Neither caller uses the wire type.\<close>

definition pb_decode_tag :: "byte list \<Rightarrow> pb_istream \<Rightarrow> (tag_result \<times> pb_istream) option" where
  "pb_decode_tag src stream = do {
     (temp, stream) \<leftarrow> pb_decode_varint32 src stream;
     Some (case temp of
        None \<Rightarrow> (if bytes_left stream = 0 then Tag_Eof else Tag_Error, stream)
      | Some temp \<Rightarrow> (if temp = 0 then Tag_Eof else Tag (drop_bit 3 temp), stream))
   }"

text \<open>The substream and the parent, whose count is reduced but whose position is not moved.\<close>

definition pb_make_string_substream :: "byte list \<Rightarrow> pb_istream \<Rightarrow> (pb_istream \<times> pb_istream) cret option" where
  "pb_make_string_substream src stream =
     cbind (checked (pb_decode_varint32 src stream)) (\<lambda>(sz, stream).
       if bytes_left stream < unat sz then Some Fail
       else Some (Ok (stream\<lparr>bytes_left := unat sz\<rparr>, stream\<lparr>bytes_left := bytes_left stream - unat sz\<rparr>)))"

definition pb_close_string_substream :: "pb_istream \<Rightarrow> pb_istream \<Rightarrow> pb_istream" where
  "pb_close_string_substream stream substream = stream\<lparr>istate := istate substream\<rparr>"

section \<open>Fields\<close>

type_synonym decoder = "json \<Rightarrow> json \<Rightarrow> pb_istream \<Rightarrow> (json \<times> pb_istream) cret option"

definition pb_decode_submessage ::
  "decoder \<Rightarrow> byte list \<Rightarrow> json \<Rightarrow> json \<Rightarrow> pb_istream \<Rightarrow> (json \<times> pb_istream) cret option" where
  "pb_decode_submessage dec src protos dest stream =
     cbind (pb_make_string_substream src stream) (\<lambda>(substream, stream).
     cbind (dec protos dest substream) (\<lambda>(dest, substream).
       Some (Ok (dest, pb_close_string_substream stream substream))))"

text \<open>\<open>if (json_is_object(result)) json_object_set_new(...); else json_array_append_new(...);\<close>\<close>

definition store :: "json \<Rightarrow> string option \<Rightarrow> json option \<Rightarrow> json" where
  "store result key val =
     (if json_is_object (Some result) then json_object_set_new result key val
      else json_array_append_new result val)"

definition pb_decode_scalar ::
  "malloc \<Rightarrow> byte list \<Rightarrow> nat \<Rightarrow> string option \<Rightarrow> json \<Rightarrow> pb_istream \<Rightarrow> (json \<times> pb_istream) cret option" where
  "pb_decode_scalar malloc src ty key result stream =
     (if ty = PB_uInt32 then
        cbind (checked (pb_decode_varint src stream)) (\<lambda>(val, stream).
          Some (Ok (store result key (json_integer val), stream)))
      else if ty = PB_int32 \<or> ty = PB_sInt32 then
        cbind (pb_decode_svarint src stream) (\<lambda>(val, stream).
          Some (Ok (store result key (json_integer val), stream)))
      else if ty = PB_float then
        cbind (pb_decode_fixed32 src stream) (\<lambda>(val, stream).
          Some (Ok (store result key (json_real (double_of_float val)), stream)))
      else if ty = PB_double then
        cbind (pb_decode_fixed64 src stream) (\<lambda>(val, stream).
          Some (Ok (store result key (json_real val), stream)))
      else
        cbind (pb_decode_strlen src stream) (\<lambda>(str_len, stream).
          let cap = unat (str_len + 1)
          in if \<not> malloc cap then Some Fail
             else cbind (pb_decode_string src stream cap (unat str_len)) (\<lambda>(str, stream).
               Some (Ok (store result key (json_string str), stream)))))"

definition pb_decode_proto ::
  "decoder \<Rightarrow> malloc \<Rightarrow> byte list \<Rightarrow> json option \<Rightarrow> json \<Rightarrow> json \<Rightarrow> string option \<Rightarrow> json \<Rightarrow> pb_istream
   \<Rightarrow> (json \<times> pb_istream) cret option" where
  "pb_decode_proto dec malloc src gprotos proto protos key result stream = do {
     type \<leftarrow> json_string_value (json_object_get (Some proto) ''type'');
     if pb__get_type type \<noteq> 0
     then pb_decode_scalar malloc src (pb__get_type type) key result stream
     else case json_object_get (Some protos) ''__messages'' of
       None \<Rightarrow> Some (Ok (result, stream))
     | Some messages \<Rightarrow> do {
         sub_msg \<leftarrow> pb_sub_msg malloc gprotos (Some messages) type;
         case sub_msg of
           None \<Rightarrow> Some Fail
         | Some sub \<Rightarrow>
             (case key of
                None \<Rightarrow> pb_decode_submessage dec src sub result stream
              | Some k \<Rightarrow>
                  cbind (pb_decode_submessage dec src sub json_object stream) (\<lambda>(sub_value, stream).
                    Some (Ok (json_object_set result key (Some sub_value), stream))))
       }
   }"

text \<open>The loop over the elements of a packed array. The index is an \<open>int\<close>: it would overflow
  after \<open>2 ^ 31\<close> elements, each of which takes at least one byte.\<close>

primrec pb_decode_items ::
  "decoder \<Rightarrow> malloc \<Rightarrow> byte list \<Rightarrow> json option \<Rightarrow> json \<Rightarrow> json \<Rightarrow> string option \<Rightarrow> nat \<Rightarrow> json \<Rightarrow> pb_istream
   \<Rightarrow> (json \<times> pb_istream) cret option" where
  "pb_decode_items dec malloc src gprotos proto protos key 0 array stream = Some (Ok (array, stream))"
| "pb_decode_items dec malloc src gprotos proto protos key (Suc n) array stream =
     cbind (pb_decode_proto dec malloc src gprotos proto protos key array stream) (\<lambda>(array, stream).
       pb_decode_items dec malloc src gprotos proto protos key n array stream)"

definition pb_decode_array ::
  "decoder \<Rightarrow> malloc \<Rightarrow> byte list \<Rightarrow> json option \<Rightarrow> json \<Rightarrow> json \<Rightarrow> string \<Rightarrow> json \<Rightarrow> pb_istream
   \<Rightarrow> (json \<times> pb_istream) cret option" where
  "pb_decode_array dec malloc src gprotos proto protos key result stream = do {
     type \<leftarrow> json_string_value (json_object_get (Some proto) ''type'');
     let array = (case json_object_get (Some result) key of None \<Rightarrow> json_array | Some a \<Rightarrow> a);
     cbind
       (if pb__get_type type \<noteq> 0 \<and> pb__get_type type \<noteq> PB_string
        then cbind (checked (pb_decode_varint32 src stream)) (\<lambda>(sz, stream).
               pb_decode_items dec malloc src gprotos proto protos (Some key) (unat sz) array stream)
        else if pb__get_type type \<noteq> 0 \<and> pb__get_type type = PB_string
        then pb_decode_proto dec malloc src gprotos proto protos (Some key) array stream
        else cbind (pb_decode_proto dec malloc src gprotos proto protos None json_object stream) (\<lambda>(val, stream).
               Some (Ok (json_array_append array (Some val), stream))))
       (\<lambda>(array, stream). Some (Ok (json_object_set result (Some key) (Some array), stream)))
   }"

text \<open>The body of the loop of \<open>pb_decode\<close> after the tag.\<close>

definition pb_decode_field ::
  "decoder \<Rightarrow> malloc \<Rightarrow> byte list \<Rightarrow> json option \<Rightarrow> json \<Rightarrow> 32 word \<Rightarrow> json \<Rightarrow> pb_istream
   \<Rightarrow> (json \<times> pb_istream) cret option" where
  "pb_decode_field dec malloc src gprotos protos tag result stream =
     (case json_object_get (Some protos) ''__tags'' of
        None \<Rightarrow> Some Fail
      | Some tags \<Rightarrow> (case json_object_get (Some tags) (dec_string (unat tag)) of
          None \<Rightarrow> Some Fail
        | Some tag' \<Rightarrow> do {
            name \<leftarrow> json_string_value (Some tag');
            case json_object_get (Some protos) name of
              None \<Rightarrow> Some Fail
            | Some proto \<Rightarrow> do {
                option_text \<leftarrow> json_string_value (json_object_get (Some proto) ''option'');
                if option_text = ''optional'' \<or> option_text = ''required''
                then pb_decode_proto dec malloc src gprotos proto protos (Some name) result stream
                else if option_text = ''repeated''
                then pb_decode_array dec malloc src gprotos proto protos name result stream
                else Some (Ok (result, stream))
              }
          }))"

section \<open>Messages\<close>

primrec pb_decode :: "nat \<Rightarrow> malloc \<Rightarrow> byte list \<Rightarrow> json option \<Rightarrow> decoder" where
  "pb_decode 0 malloc src gprotos protos result stream = None"
| "pb_decode (Suc fuel) malloc src gprotos protos result stream =
     (if bytes_left stream = 0 then Some (Ok (result, stream))
      else do {
        (t, stream) \<leftarrow> pb_decode_tag src stream;
        case t of
          Tag_Eof \<Rightarrow> Some (Ok (result, stream))
        | Tag_Error \<Rightarrow> Some Fail
        | Tag tag \<Rightarrow>
            cbind (pb_decode_field (pb_decode fuel malloc src gprotos) malloc src gprotos protos tag result stream)
              (\<lambda>(result, stream). pb_decode fuel malloc src gprotos protos result stream)
      })"

text \<open>\<open>off\<close> is the offset that the caller has added to the pointer.\<close>

definition pc_pb_decode ::
  "malloc \<Rightarrow> byte list \<Rightarrow> nat \<Rightarrow> nat \<Rightarrow> json option \<Rightarrow> json \<Rightarrow> json \<Rightarrow> json cret option" where
  "pc_pb_decode malloc src off len gprotos protos result =
     cbind (pb_decode (len + 1) malloc src gprotos protos result (pb_istream_from_buffer off len))
       (\<lambda>(result, stream). Some (Ok result))"

section \<open>Decoding ends and stays inside its buffer\<close>

definition valid :: "byte list \<Rightarrow> pb_istream \<Rightarrow> bool" where
  "valid src st \<longleftrightarrow> istate st + bytes_left st \<le> length src"

text \<open>A stream that comes after another one: it has no more bytes left, and does not reach further.\<close>

definition after :: "pb_istream \<Rightarrow> pb_istream \<Rightarrow> bool" where
  "after st st' \<longleftrightarrow> bytes_left st' \<le> bytes_left st \<and> istate st' + bytes_left st' \<le> istate st + bytes_left st"

definition safe :: "pb_istream \<Rightarrow> ('a \<times> pb_istream) cret option \<Rightarrow> bool" where
  "safe st r \<longleftrightarrow> (\<exists>c. r = Some c \<and> (\<forall>x st'. c = Ok (x, st') \<longrightarrow> after st st'))"

lemma after_refl [simp]: "after st st"
  by (simp add: after_def)

lemma after_trans: "after a b \<Longrightarrow> after b c \<Longrightarrow> after a c"
  by (auto simp: after_def)

lemma valid_after: "valid src st \<Longrightarrow> after st st' \<Longrightarrow> valid src st'"
  by (auto simp: valid_def after_def)

lemma safe_simps [simp]:
  "safe st (Some Fail)" "\<not> safe st None" "safe st (Some (Ok (x, st'))) \<longleftrightarrow> after st st'"
  by (auto simp: safe_def)

lemma safe_cbind:
  assumes "safe st m" "\<And>x st'. m = Some (Ok (x, st')) \<Longrightarrow> after st st' \<Longrightarrow> safe st' (f (x, st'))"
  shows "safe st (cbind m f)"
proof -
  have "safe st r" if "after st st'" "safe st' r" for st' and r :: "('b \<times> pb_istream) cret option"
    using that after_trans unfolding safe_def by blast
  then show ?thesis using assms by (cases m rule: option.exhaust) (fastforce simp: safe_def cbind_def split: cret.splits)+
qed

lemma pb_read_valid:
  "valid src st \<Longrightarrow> pb_read src st n = Some (if bytes_left st < n then Fail
     else Ok (take n (drop (istate st) src), \<lparr>istate = istate st + n, bytes_left = bytes_left st - n\<rparr>))"
  by (auto simp: pb_read_def buf_read_def mem_read_def valid_def)

lemma safe_read: "valid src st \<Longrightarrow> safe st (pb_read src st n)"
  by (simp add: pb_read_valid after_def)

lemma varint_in_valid:
  "valid src st \<Longrightarrow> \<exists>x st'. varint_in src st bitpos dest = Some (x, st') \<and> after st st' \<and>
     (x \<noteq> None \<longrightarrow> bytes_left st' < bytes_left st)"
proof (induction src st bitpos dest rule: varint_in.induct)
  case (1 src st bitpos dest)
  show ?case
  proof (cases "bitpos \<ge> 64 \<or> bytes_left st = 0")
    case True
    then show ?thesis using 1(2) by (auto simp: varint_in.simps [of src st] pb_read_valid)
  next
    case False
    let ?st = "\<lparr>istate = istate st + 1, bytes_left = bytes_left st - 1\<rparr>"
    let ?bs = "take 1 (drop (istate st) src)"
    have a: "after st ?st" "bytes_left ?st < bytes_left st" using False by (auto simp: after_def)
    have r: "pb_read src st 1 = Some (Ok (?bs, ?st))" using False 1(2) by (simp add: pb_read_valid)
    have "\<exists>x st'. varint_in src ?st (bitpos + 7) (dest OR push_bit bitpos (ucast (hd ?bs AND 0x7F))) = Some (x, st') \<and>
        after ?st st' \<and> (x \<noteq> None \<longrightarrow> bytes_left st' < bytes_left ?st)"
      if "hd ?bs AND 0x80 \<noteq> 0"
      by (rule 1(1) [OF _ r refl refl refl refl]) (use False that 1(2) a valid_after in auto)
    then show ?thesis
      using False r a after_trans [OF a(1)]
      by (cases "hd ?bs AND 0x80 = 0") (fastforce simp: varint_in.simps [of src st] Let_def)+
  qed
qed

lemma varint32_valid:
  assumes "valid src st"
  obtains x st' where "pb_decode_varint32 src st = Some (x, st')" "after st st'"
    "x \<noteq> None \<Longrightarrow> bytes_left st' < bytes_left st"
  using varint_in_valid [OF assms, of 0 0] that by (fastforce simp: pb_decode_varint32_def pb_decode_varint_def)

lemma safe_varint:
  assumes "valid src st"
  shows "safe st (checked (pb_decode_varint src st))" "safe st (checked (pb_decode_varint32 src st))"
    "safe st (pb_decode_svarint src st)" "safe st (pb_decode_strlen src st)"
proof -
  show v: "safe st (checked (pb_decode_varint src st))"
    using varint_in_valid [OF assms, of 0 0] by (auto simp: checked_def pb_decode_varint_def split: option.splits)
  show "safe st (checked (pb_decode_varint32 src st))" "safe st (pb_decode_strlen src st)"
    using varint_in_valid [OF assms, of 0 0]
    by (auto simp: checked_def pb_decode_strlen_def pb_decode_varint32_def pb_decode_varint_def split: option.splits)
  show "safe st (pb_decode_svarint src st)"
    unfolding pb_decode_svarint_def by (rule safe_cbind [OF v]) simp
qed

lemma safe_fixed:
  assumes "valid src st"
  shows "safe st (pb_decode_fixed32 src st)" "safe st (pb_decode_fixed64 src st)"
  unfolding pb_decode_fixed32_def pb_decode_fixed64_def
  by (rule safe_cbind [OF safe_read [OF assms]], simp)+

text \<open>With an allocator that refuses an empty block, the terminating zero stays inside the string's
  buffer.\<close>

lemma safe_scalar:
  assumes "valid src st" "\<not> malloc 0"
  shows "safe st (pb_decode_scalar malloc src ty key result st)"
proof -
  have str: "safe st' (pb_decode_string src st' (unat (n + 1)) (unat n))"
    if "valid src st'" "malloc (unat (n + 1))" for st' and n :: "32 word"
  proof -
    have "n + 1 \<noteq> 0" using that(2) assms(2) by auto
    then have "unat n < unat (n + 1)" using unatSuc [of n] by (simp add: add.commute)
    then show ?thesis
      unfolding pb_decode_string_def by (auto intro!: safe_cbind safe_read that(1))
  qed
  show ?thesis
    unfolding pb_decode_scalar_def Let_def
    by (auto intro!: safe_cbind safe_varint safe_fixed str assms(1) valid_after [OF assms(1)]
        simp: split_def)
qed

text \<open>A field definition with the texts that the code reads unchecked, and a set of message
  definitions that is closed under the types of their fields.\<close>

definition field_texts :: "malloc \<Rightarrow> json option \<Rightarrow> json set \<Rightarrow> json \<Rightarrow> json \<Rightarrow> bool" where
  "field_texts malloc gprotos S protos proto \<longleftrightarrow>
     (\<exists>opt. json_string_value (json_object_get (Some proto) ''option'') = Some opt) \<and>
     (\<exists>type. json_string_value (json_object_get (Some proto) ''type'') = Some type \<and>
        (\<forall>messages. pb__get_type type = 0 \<longrightarrow> json_object_get (Some protos) ''__messages'' = Some messages \<longrightarrow>
           (\<exists>sub. pb_sub_msg malloc gprotos (Some messages) type = Some sub \<and>
              (\<forall>m. sub = Some m \<longrightarrow> m \<in> S))))"

definition schema_closed :: "malloc \<Rightarrow> json option \<Rightarrow> json set \<Rightarrow> bool" where
  "schema_closed malloc gprotos S \<longleftrightarrow>
     (\<forall>protos \<in> S. \<forall>tags t x. json_object_get (Some protos) ''__tags'' = Some tags \<longrightarrow>
        json_object_get (Some tags) t = Some x \<longrightarrow>
        (\<exists>name. x = JString name \<and>
          (\<forall>proto. json_object_get (Some protos) name = Some proto \<longrightarrow>
             field_texts malloc gprotos S protos proto)))"

definition safe_decoder :: "byte list \<Rightarrow> nat \<Rightarrow> json set \<Rightarrow> decoder \<Rightarrow> bool" where
  "safe_decoder src n S dec \<longleftrightarrow>
     (\<forall>protos \<in> S. \<forall>result st. valid src st \<longrightarrow> bytes_left st < n \<longrightarrow> safe st (dec protos result st))"

lemma safe_submessage:
  assumes "safe_decoder src n S dec" "sub \<in> S" "valid src st" "bytes_left st < n"
  shows "safe st (pb_decode_submessage dec src sub dest st)"
proof -
  obtain x st' where v: "pb_decode_varint32 src st = Some (x, st')" "after st st'"
    using varint32_valid [OF assms(3)] by metis
  show ?thesis
  proof (cases x)
    case None
    then show ?thesis using v by (simp add: pb_decode_submessage_def pb_make_string_substream_def checked_def)
  next
    case (Some sz)
    let ?sub = "st'\<lparr>bytes_left := unat sz\<rparr>" and ?par = "st'\<lparr>bytes_left := bytes_left st' - unat sz\<rparr>"
    show ?thesis
    proof (cases "bytes_left st' < unat sz")
      case True
      then show ?thesis
        using v Some by (simp add: pb_decode_submessage_def pb_make_string_substream_def checked_def)
    next
      case False
      have "valid src ?sub" using False valid_after [OF assms(3) v(2)] by (simp add: valid_def)
      moreover have "bytes_left ?sub < n" using False v(2) assms(4) by (simp add: after_def)
      ultimately have "safe ?sub (dec sub dest ?sub)" using assms(1,2) by (simp add: safe_decoder_def)
      then obtain c where c: "dec sub dest ?sub = Some c" "\<And>y st''. c = Ok (y, st'') \<Longrightarrow> after ?sub st''"
        by (auto simp: safe_def)
      have "after st (pb_close_string_substream ?par st'')" if "after ?sub st''" for st''
        using that v(2) False by (auto simp: after_def pb_close_string_substream_def)
      then show ?thesis
        using v Some False c
        by (cases c) (auto simp: pb_decode_submessage_def pb_make_string_substream_def checked_def)
    qed
  qed
qed

lemma safe_proto:
  assumes "safe_decoder src n S dec" "field_texts malloc gprotos S protos proto" "\<not> malloc 0"
    and "valid src st" "bytes_left st < n"
  shows "safe st (pb_decode_proto dec malloc src gprotos proto protos key result st)"
proof -
  obtain type where ty: "json_string_value (json_object_get (Some proto) ''type'') = Some type"
    and sub: "\<And>messages. pb__get_type type = 0 \<Longrightarrow> json_object_get (Some protos) ''__messages'' = Some messages \<Longrightarrow>
       \<exists>sub. pb_sub_msg malloc gprotos (Some messages) type = Some sub \<and> (\<forall>m. sub = Some m \<longrightarrow> m \<in> S)"
    using assms(2) by (auto simp: field_texts_def)
  show ?thesis
  proof (cases "pb__get_type type = 0")
    case False
    then show ?thesis using ty safe_scalar [where malloc = malloc, OF assms(4,3)] by (simp add: pb_decode_proto_def)
  next
    case T: True
    show ?thesis
    proof (cases "json_object_get (Some protos) ''__messages''")
      case None
      then show ?thesis using T ty by (simp add: pb_decode_proto_def)
    next
      case (Some messages)
      then obtain sub where s: "pb_sub_msg malloc gprotos (Some messages) type = Some sub"
        "\<And>m. sub = Some m \<Longrightarrow> m \<in> S" using sub T by auto
      have sm: "safe st (pb_decode_submessage dec src m dest st)" if "sub = Some m" for m dest
        using s(2) [OF that] assms(1,4,5) by (intro safe_submessage)
      show ?thesis
        using T ty Some s sm
        by (auto simp: pb_decode_proto_def split: option.splits intro!: safe_cbind)
    qed
  qed
qed

lemma safe_items:
  assumes "safe_decoder src n S dec" "field_texts malloc gprotos S protos proto" "\<not> malloc 0"
  shows "valid src st \<Longrightarrow> bytes_left st < n \<Longrightarrow>
    safe st (pb_decode_items dec malloc src gprotos proto protos key k array st)"
proof (induction k arbitrary: array st)
  case (Suc k)
  show ?case unfolding pb_decode_items.simps
    by (rule safe_cbind [OF safe_proto [OF assms Suc.prems]])
      (use Suc valid_after in \<open>auto simp: after_def\<close>)
qed simp

lemma safe_array:
  assumes "safe_decoder src n S dec" "field_texts malloc gprotos S protos proto" "\<not> malloc 0"
    and "valid src st" "bytes_left st < n"
  shows "safe st (pb_decode_array dec malloc src gprotos proto protos key result st)"
proof -
  obtain type where ty: "json_string_value (json_object_get (Some proto) ''type'') = Some type"
    using assms(2) by (auto simp: field_texts_def)
  have it: "safe st' (pb_decode_items dec malloc src gprotos proto protos k m array st')"
    if "after st st'" for st' k m array
    using that assms valid_after by (intro safe_items [OF assms(1-3)]) (auto simp: after_def)
  show ?thesis
    unfolding pb_decode_array_def ty bind.bind_lunit Let_def
    by (auto intro!: safe_cbind safe_proto [OF assms] safe_varint [OF assms(4)] it)
qed

lemma safe_field:
  assumes "safe_decoder src n S dec" "schema_closed malloc gprotos S" "protos \<in> S" "\<not> malloc 0"
    and "valid src st" "bytes_left st < n"
  shows "safe st (pb_decode_field dec malloc src gprotos protos tag result st)"
proof (cases "json_object_get (Some protos) ''__tags''")
  case (Some tags)
  show ?thesis
  proof (cases "json_object_get (Some tags) (dec_string (unat tag))")
    case (Some x)
    then obtain name where x: "x = JString name" and
      ft: "\<And>proto. json_object_get (Some protos) name = Some proto \<Longrightarrow> field_texts malloc gprotos S protos proto"
      using assms(2,3) \<open>json_object_get (Some protos) ''__tags'' = Some tags\<close> unfolding schema_closed_def by blast
    show ?thesis
    proof (cases "json_object_get (Some protos) name")
      case (Some proto)
      note f = ft [OF Some]
      then obtain opt where "json_string_value (json_object_get (Some proto) ''option'') = Some opt"
        by (auto simp: field_texts_def)
      then show ?thesis
        using Some x \<open>json_object_get (Some tags) _ = Some x\<close> \<open>_ = Some tags\<close>
          safe_proto [OF assms(1) f assms(4-6)] safe_array [OF assms(1) f assms(4-6)]
        by (simp add: pb_decode_field_def)
    qed (use x \<open>json_object_get (Some tags) _ = Some x\<close> \<open>_ = Some tags\<close> in \<open>simp add: pb_decode_field_def\<close>)
  qed (use Some in \<open>simp add: pb_decode_field_def\<close>)
qed (simp add: pb_decode_field_def)

lemma safe_pb_decode:
  assumes "schema_closed malloc gprotos S" "\<not> malloc 0"
  shows "safe_decoder src n S (pb_decode n malloc src gprotos)"
proof (induction n)
  case 0
  then show ?case by (simp add: safe_decoder_def)
next
  case (Suc n)
  show ?case unfolding safe_decoder_def
  proof (intro ballI allI impI)
    fix protos result st assume p: "protos \<in> S" "valid src st" "bytes_left st < Suc n"
    obtain x st' where v: "pb_decode_varint32 src st = Some (x, st')" "after st st'"
      "x \<noteq> None \<Longrightarrow> bytes_left st' < bytes_left st" by (rule varint32_valid [OF p(2)]) auto
    have f: "safe st' (pb_decode_field (pb_decode n malloc src gprotos) malloc src gprotos protos tag result st')"
      if "x \<noteq> None" for tag
      using v(3) [OF that] p valid_after [OF p(2) v(2)] by (intro safe_field [OF Suc assms(1) p(1) assms(2)]) auto
    have "safe st' (cbind (pb_decode_field (pb_decode n malloc src gprotos) malloc src gprotos protos tag result st')
        (\<lambda>(result, stream). pb_decode n malloc src gprotos protos result stream))" if "x \<noteq> None" for tag
    proof (rule safe_cbind [OF f [OF that]])
      fix y st'' assume "after st' st''"
      moreover from this have "bytes_left st'' < n" using v(3) [OF that] p(3) by (auto simp: after_def)
      ultimately show "safe st'' (case (y, st'') of (result, stream) \<Rightarrow> pb_decode n malloc src gprotos protos result stream)"
        using Suc p(1) valid_after [OF valid_after [OF p(2) v(2)]] by (auto simp: safe_decoder_def)
    qed
    then have g: "safe st (cbind (pb_decode_field (pb_decode n malloc src gprotos) malloc src gprotos protos tag result st')
        (\<lambda>(result, stream). pb_decode n malloc src gprotos protos result stream))" if "x \<noteq> None" for tag
      using that v(2) after_trans unfolding safe_def by blast
    show "safe st (pb_decode (Suc n) malloc src gprotos protos result st)"
      using v(1,2) g by (cases x) (simp_all add: pb_decode_tag_def)
  qed
qed

section \<open>Properties\<close>

text \<open>(C19) \<open>pc_pb_decode\<close> ends on every input, however malformed, with a value or the error
  return, and never reads or writes outside a buffer, if the message definitions carry the texts that
  it reads unchecked and the allocator refuses an empty block. The fuel that the definition of the
  decoder uses, one more than the number of bytes, is always enough.\<close>

theorem pb_decode_total:
  assumes "schema_closed malloc gprotos S" "protos \<in> S" "\<not> malloc 0" "off + len \<le> length src"
  shows "\<exists>r. pc_pb_decode malloc src off len gprotos protos result = Some r"
proof -
  let ?st = "pb_istream_from_buffer off len"
  have "safe ?st (pb_decode (len + 1) malloc src gprotos protos result ?st)"
    using safe_pb_decode [where malloc = malloc, OF assms(1,3), of src "len + 1", unfolded safe_decoder_def] assms(2,4)
    by (simp add: safe_decoder_def valid_def pb_istream_from_buffer_def del: pb_decode.simps)
  then obtain c where "pb_decode (len + 1) malloc src gprotos protos result ?st = Some c"
    by (auto simp: safe_def)
  then show ?thesis by (cases c) (auto simp: pc_pb_decode_def)
qed

lemma demo_closed: "schema_closed malloc None {demo_protos, demo_point}"
  by (auto simp: schema_closed_def demo_protos_def demo_point_def field_texts_def demo_field_def
      demo_types pb_type_defs pb_sub_msg_def split: if_splits)

theorem pb_decode_total_witness:
  "\<exists>r. pc_pb_decode (\<lambda>n. 0 < n) [255, 255, 255, 255, 255, 255] 1 5 None demo_protos json_object = Some r"
  by (rule pb_decode_total [OF demo_closed]) simp_all

text \<open>(C40) With an allocator that returns a block for a request of zero bytes, a string whose
  announced length is \<open>0xFFFFFFFF\<close> runs into undefined behaviour: \<open>str_len + 1\<close> wraps around
  to zero, and the terminating zero is then written \<open>2 ^ 32 - 1\<close> bytes behind the empty block,
  although the read has failed.\<close>

theorem pb_decode_string_length_wraps:
  assumes "malloc 0" "pb_decode_strlen src st = Some (Ok (0xFFFFFFFF, st'))"
  shows "pb_decode_scalar malloc src PB_string key result st = None"
  using assms by (simp add: pb_decode_scalar_def pb_type_defs Let_def pb_decode_string_def)

theorem pb_decode_string_length_wraps_witness:
  "pb_decode_scalar (\<lambda>_. True) [255, 255, 255, 255, 15] PB_string (Some ''name'') json_object
     \<lparr>istate = 0, bytes_left = 5\<rparr> = None"
proof (rule pb_decode_string_length_wraps)
  show "pb_decode_strlen [255, 255, 255, 255, 15] \<lparr>istate = 0, bytes_left = 5\<rparr> =
      Some (Ok (0xFFFFFFFF, \<lparr>istate = 5, bytes_left = 0\<rparr>))"
    by (simp add: pb_decode_strlen_def checked_def pb_decode_varint32_def pb_decode_varint_def
        varint_in.simps pb_read_def buf_read_def mem_read_def)
qed simp

end
