(* ===== verification/Pb_Roundtrip.thy ===== *)
theory Pb_Roundtrip
  imports Pb_Encode Pb_Decode
begin

text \<open>
  The decoder inverts the encoder: a message whose values have the types that the schema announces
  is decoded from its encoding as it was. \<open>wt_fields\<close> says what the codec needs: consistent
  \<open>__tags\<close>, tags between 1 and \<open>2 ^ 29 - 1\<close>, integers that a \<open>double\<close> represents,
  finite reals, UTF-8 strings without zero, no empty arrays of strings or messages.
\<close>

section \<open>Well-typed messages\<close>

definition wt_scalar :: "nat \<Rightarrow> json \<Rightarrow> bool" where
  "wt_scalar ty val =
     (case val of
        JInteger i \<Rightarrow> (ty = PB_uInt32 \<and> 0 \<le> i \<or> ty = PB_int32 \<or> ty = PB_sInt32) \<and> \<bar>i\<bar> < 2 ^ 53
      | JReal d \<Rightarrow> ty = PB_double \<and> dbl_finite d \<or>
          ty = PB_float \<and> flt_finite (float_of_double d) \<and> double_of_float (float_of_double d) = d
      | JString s \<Rightarrow> ty = PB_string \<and> c_string s \<and> utf8_check_string s \<and> length s < 2 ^ 31
      | _ \<Rightarrow> False)"

text \<open>The definition of the field \<open>key\<close>: its number, and the entry for it in \<open>__tags\<close>.\<close>

definition tag_ok :: "json \<Rightarrow> string \<Rightarrow> json \<Rightarrow> bool" where
  "tag_ok protos key proto =
     (utf8_check_string key \<and>
      (case json_object_get (Some proto) ''tag'' of
         Some (JInteger t) \<Rightarrow> 0 < t \<and> t < 2 ^ 29 \<and>
           json_object_get (json_object_get (Some protos) ''__tags'') (dec_string (nat t)) = Some (JString key)
       | _ \<Rightarrow> False))"

lemma pair_weight: "kv \<in> set kvs \<Longrightarrow> weight (snd kv) \<le> pairs_weight kvs"
  using member_le_sum_list [of "weight (snd kv)" "map (weight \<circ> snd) kvs"] by (force simp: pairs_weight_def)

lemma wt_steps:
  "kv \<in> set kvs \<Longrightarrow> 4 * weight (snd kv) - Suc 0 < 4 * pairs_weight kvs"
  "kv \<in> set kvs \<Longrightarrow> x \<in> set (json_array_items (snd kv)) \<Longrightarrow> 4 * weight x - Suc 0 < 4 * pairs_weight kvs"
  using pair_weight [of kv kvs] weight_pos [of "snd kv"] weight_in(2) [of x "snd kv"] by linarith+

function (sequential)
    wt_fields :: "malloc \<Rightarrow> json option \<Rightarrow> json \<Rightarrow> (string \<times> json) list \<Rightarrow> bool"
  and wt_value :: "malloc \<Rightarrow> json option \<Rightarrow> json \<Rightarrow> string \<Rightarrow> json \<Rightarrow> bool"
where
  "wt_fields malloc gprotos protos kvs =
     (distinct (map fst kvs) \<and>
      (\<forall>kv \<in> set kvs. case json_object_get (Some protos) (fst kv) of
         None \<Rightarrow> False
       | Some proto \<Rightarrow>
           tag_ok protos (fst kv) proto \<and>
           (case (json_string_value (json_object_get (Some proto) ''option''),
                  json_string_value (json_object_get (Some proto) ''type'')) of
              (Some opt, Some type) \<Rightarrow>
                if opt = ''required'' \<or> opt = ''optional'' then wt_value malloc gprotos protos type (snd kv)
                else opt = ''repeated'' \<and> json_is_array (Some (snd kv)) \<and>
                  length (json_array_items (snd kv)) < 2 ^ 32 \<and>
                  (json_array_items (snd kv) = [] \<longrightarrow> pb__get_type type \<noteq> 0 \<and> pb__get_type type \<noteq> PB_string) \<and>
                  (\<forall>x \<in> set (json_array_items (snd kv)). wt_value malloc gprotos protos type x)
            | _ \<Rightarrow> False)))"
| "wt_value malloc gprotos protos type val =
     (if pb__get_type type \<noteq> 0 then wt_scalar (pb__get_type type) val
      else json_is_object (Some val) \<and>
        (case json_object_get (Some protos) ''__messages'' of
           None \<Rightarrow> False
         | Some messages \<Rightarrow> (case pb_sub_msg malloc gprotos (Some messages) type of
             Some (Some sub) \<Rightarrow> wt_fields malloc gprotos sub (json_object_pairs val)
           | _ \<Rightarrow> False)))"
  by pat_completeness auto

termination
  by (relation "measure (\<lambda>x. case x of
        Inl (_, _, _, kvs) \<Rightarrow> 4 * pairs_weight kvs
      | Inr (_, _, _, _, val) \<Rightarrow> 4 * weight val - 1)")
    (auto simp: ref_steps intro: wt_steps)

declare wt_fields.simps [simp del] wt_value.simps [simp del]

section \<open>Reading what was written\<close>

text \<open>The bytes \<open>bs\<close> come next in the stream.\<close>

definition reads :: "byte list \<Rightarrow> pb_istream \<Rightarrow> byte list \<Rightarrow> bool" where
  "reads src st bs \<longleftrightarrow> valid src st \<and> length bs \<le> bytes_left st \<and> take (length bs) (drop (istate st) src) = bs"

definition adv :: "pb_istream \<Rightarrow> nat \<Rightarrow> pb_istream" where
  "adv st n = \<lparr>istate = istate st + n, bytes_left = bytes_left st - n\<rparr>"

lemma adv_0 [simp]: "adv st 0 = st"
  by (simp add: adv_def)

lemma adv_adv [simp]: "adv (adv st m) n = adv st (m + n)"
  by (simp add: adv_def)

lemma reads_append: "reads src st (xs @ ys) \<longleftrightarrow> reads src st xs \<and> reads src (adv st (length xs)) ys"
proof
  assume r: "reads src st (xs @ ys)"
  then have "take (length xs + length ys) (drop (istate st) src) = xs @ ys" by (simp add: reads_def)
  then have "take (length xs) (drop (istate st) src) @ take (length ys) (drop (length xs) (drop (istate st) src)) = xs @ ys"
    by (simp only: take_add)
  moreover have "length (take (length xs) (drop (istate st) src)) = length xs"
    using r by (auto simp: reads_def valid_def)
  ultimately have "take (length xs) (drop (istate st) src) = xs"
    "take (length ys) (drop (length xs) (drop (istate st) src)) = ys" by auto
  then show "reads src st xs \<and> reads src (adv st (length xs)) ys"
    using r by (auto simp: reads_def adv_def valid_def add.commute)
next
  assume "reads src st xs \<and> reads src (adv st (length xs)) ys"
  then show "reads src st (xs @ ys)"
    by (auto simp: reads_def adv_def take_add) (simp add: add.commute)
qed

lemma pb_read_reads: "reads src st bs \<Longrightarrow> pb_read src st (length bs) = Some (Ok (bs, adv st (length bs)))"
  by (auto simp: reads_def pb_read_valid adv_def)

lemma word_split7: "(word_of_nat (n mod 128) :: 64 word) OR push_bit 7 (word_of_nat (n div 128)) = word_of_nat n"
proof (rule bit_word_eqI)
  fix k assume "k < LENGTH(64)"
  moreover have "n mod 128 = take_bit 7 n" "n div 128 = drop_bit 7 n"
    by (simp_all add: take_bit_eq_mod drop_bit_eq_div)
  ultimately show "bit ((word_of_nat (n mod 128) :: 64 word) OR push_bit 7 (word_of_nat (n div 128))) k =
      bit (word_of_nat n :: 64 word) k"
    by (auto simp: bit_simps not_le)
qed

lemma ucast_byte_nat: "m < 256 \<Longrightarrow> (ucast (word_of_nat m :: byte) :: 64 word) = word_of_nat m"
  by (simp add: word_unat_eq_iff unsigned_ucast_eq unat_of_nat take_bit_nat_eq_self)

lemma varint_in_reads:
  assumes "reads src st (varint n)" "bitpos < 64" "n < 2 ^ (64 - bitpos)"
  shows "varint_in src st bitpos dest =
    Some (Some (dest OR push_bit bitpos (word_of_nat n)), adv st (length (varint n)))"
  using assms
proof (induction n arbitrary: st bitpos dest rule: varint.induct)
  case (1 n)
  show ?case
  proof (cases "n < 128")
    case True
    then have v: "varint n = [word_of_nat n]" by (simp add: varint.simps)
    have "pb_read src st 1 = Some (Ok ([word_of_nat n], adv st 1))"
      using pb_read_reads [OF 1(2)] by (simp add: v)
    then show ?thesis
      using True 1(3) high_bit [of n] and_0x7f_nat [of n] ucast_byte_nat [of n]
      by (simp add: varint_in.simps [of src st] v Let_def)
  next
    case False
    let ?b = "word_of_nat (n mod 128 + 128) :: byte"
    have v: "varint n = ?b # varint (n div 128)" using False by (simp add: varint.simps [of n])
    have r: "reads src st [?b]" "reads src (adv st 1) (varint (n div 128))"
      using 1(2) reads_append [of src st "[?b]" "varint (n div 128)"] by (simp_all add: v)
    have b7: "bitpos + 7 < 64"
    proof (rule ccontr)
      assume "\<not> bitpos + 7 < 64"
      then have "(2 :: nat) ^ (64 - bitpos) \<le> 2 ^ 7" by (intro power_increasing) auto
      then show False using False 1(4) by simp
    qed
    have "64 - bitpos = (64 - (bitpos + 7)) + 7" using b7 by simp
    then have "(2 :: nat) ^ (64 - bitpos) = 2 ^ (64 - (bitpos + 7)) * 2 ^ 7" by (simp only: power_add)
    then have "n div 128 < 2 ^ (64 - (bitpos + 7))" using 1(4) by (simp add: less_mult_imp_div_less)
    note ih = 1(1) [OF False r(2) b7 this]
    have lt: "n mod 128 + 128 < 256" by simp
    have "(?b AND 0x7F) = word_of_nat (n mod 128)" using and_0x7f_nat [OF lt] by simp
    then have u: "(ucast (?b AND 0x7F) :: 64 word) = word_of_nat (n mod 128)"
      using ucast_byte_nat [of "n mod 128"] by simp
    have h: "?b AND 0x80 \<noteq> 0" using high_bit [OF lt] by simp
    have rd: "pb_read src st 1 = Some (Ok ([?b], adv st 1))" using pb_read_reads [OF r(1)] by simp
    have "push_bit bitpos (word_of_nat (n mod 128) :: 64 word) OR push_bit (bitpos + 7) (word_of_nat (n div 128)) =
        push_bit bitpos (word_of_nat n)"
      using word_split7 [of n] by (simp flip: push_bit_push_bit push_bit_or)
    then show ?thesis
      using ih rd u h 1(3) by (simp add: varint_in.simps [of src st] v Let_def or.assoc del: of_nat_add)
  qed
qed

lemma reads_varint: "reads src st (varint n) \<Longrightarrow> n < 2 ^ 64 \<Longrightarrow>
  pb_decode_varint src st = Some (Some (word_of_nat n), adv st (length (varint n)))"
  using varint_in_reads [of src st n 0 0] by (simp add: pb_decode_varint_def)

lemma reads_varint32: "reads src st (varint n) \<Longrightarrow> n < 2 ^ 64 \<Longrightarrow>
  pb_decode_varint32 src st = Some (Some (word_of_nat n), adv st (length (varint n)))"
  using reads_varint [of src st n]
  by (simp add: pb_decode_varint32_def word_unat_eq_iff unsigned_ucast_eq unat_of_nat take_bit_eq_mod mod_mod_cancel)

lemma checked_Some [simp]: "checked (Some (Some v, st)) = Some (Ok (v, st))"
  by (simp add: checked_def)

lemma le_value_bytes: "le_value (le_bytes k n) = n mod 256 ^ k"
proof (induction k arbitrary: n)
  case (Suc k)
  have "le_bytes (Suc k) n = word_of_nat n # le_bytes k (n div 256)"
    by (simp add: le_bytes_def upt_conv_Cons div_mult2_eq del: upt_Suc) (simp add: map_Suc_upt [symmetric] div_mult2_eq del: upt_Suc)
  then show ?case
    using Suc [of "n div 256"] by (simp add: le_value_def unat_of_nat mod_mult2_eq)
qed (simp add: le_value_def le_bytes_def)

section \<open>Scalars\<close>

lemma sint_word_of_int: "\<bar>i\<bar> < 2 ^ 53 \<Longrightarrow> sint (word_of_int i :: 64 word) = i"
  by (simp add: signed_of_int) (rule signed_take_bit_int_eq_self; simp)

lemma unzigzag_and_1:
  "(if val AND 1 \<noteq> 0 then NOT (drop_bit 1 val) else drop_bit 1 val) = unzigzag val"
  by (simp add: unzigzag_def and_one_eq odd_iff_mod_2_eq_one bit_0 odd_iff_mod_2_eq_one)

lemma unat_less_64 [simp]: "unat (w :: 64 word) < 18446744073709551616"
  using unsigned_less [of w, where 'a = nat] by simp

lemma scalar_roundtrip:
  assumes "wt_scalar ty val" "ref_scalar ty val = Some (Ok bs)" "reads src st bs" "\<forall>n > 0. malloc n"
  shows "pb_decode_scalar malloc src ty key result st = Some (Ok (store result key (Some val), adv st (length bs)))"
proof (cases val)
  case (JInteger i)
  let ?w = "word_of_int i :: 64 word"
  have ty: "ty = PB_uInt32 \<or> ty = PB_int32 \<or> ty = PB_sInt32" and i: "\<bar>i\<bar> < 2 ^ 53"
    using assms(1) JInteger by (auto simp: wt_scalar_def)
  have "int_of_double (- (2 ^ 63)) (2 ^ 63 - 1) (double_of_int i) = Some i"
    using i by (intro int_of_double_of_int) auto
  then have bs: "bs = varint (unat (if ty = PB_uInt32 then ?w else zigzag ?w))"
    using assms(2) ty JInteger by (auto simp: ref_scalar_def Let_def)
  show ?thesis
  proof (cases "ty = PB_uInt32")
    case True
    then show ?thesis
      using reads_varint [of src st "unat ?w"] assms(3) bs JInteger i
      by (simp add: pb_decode_scalar_def json_integer_def sint_word_of_int)
  next
    case False
    then have "pb_decode_svarint src st = Some (Ok (unzigzag (zigzag ?w), adv st (length bs)))"
      using reads_varint [of src st "unat (zigzag ?w)"] assms(3) bs
      by (simp add: pb_decode_svarint_def unzigzag_and_1)
    then show ?thesis
      using ty False JInteger i
      by (auto simp: pb_decode_scalar_def pb_type_defs json_integer_def unzigzag_zigzag sint_word_of_int)
  qed
next
  case (JReal d)
  consider "ty = PB_double" "dbl_finite d" | "ty = PB_float" "flt_finite (float_of_double d)" "double_of_float (float_of_double d) = d"
    using assms(1) JReal by (auto simp: wt_scalar_def)
  then show ?thesis
  proof cases
    case 1
    then have bs: "bs = le_bytes 8 (unat d)" using assms(2) JReal by (simp add: ref_scalar_def pb_type_defs)
    then have "pb_decode_fixed64 src st = Some (Ok (d, adv st 8))"
      using pb_read_reads [OF assms(3)] unat_less_64 [of d] by (simp add: pb_decode_fixed64_def le_value_bytes)
    then show ?thesis using 1 JReal bs by (simp add: pb_decode_scalar_def pb_type_defs json_real_def)
  next
    case 2
    let ?f = "float_of_double d"
    have bs: "bs = le_bytes 4 (unat ?f)" using 2 assms(2) JReal by (simp add: ref_scalar_def pb_type_defs)
    have "unat ?f < 2 ^ 32" using unsigned_less [of ?f, where 'a = nat] by simp
    then have "pb_decode_fixed32 src st = Some (Ok (?f, adv st 4))"
      using pb_read_reads [OF assms(3)] bs by (simp add: pb_decode_fixed32_def le_value_bytes)
    moreover have "dbl_finite d" using 2 double_of_float_finite [of ?f] by simp
    ultimately show ?thesis using 2 JReal bs by (simp add: pb_decode_scalar_def pb_type_defs json_real_def)
  qed
next
  case (JString str)
  then have ty: "ty = PB_string" and str: "c_string str" "utf8_check_string str" "length str < 2 ^ 31"
    using assms(1) by (auto simp: wt_scalar_def)
  have bs: "bs = varint (length str) @ str_bytes str"
    using assms(2) JString ty str(3) by (simp add: ref_scalar_def pb_type_defs)
  let ?n = "word_of_nat (length str) :: 32 word"
  have n: "unat ?n = length str" using str(3) by (simp add: unat_of_nat)
  have "?n + 1 = word_of_nat (length str + 1)" by simp
  then have n1: "unat (?n + 1) = length str + 1" using str(3) by (simp add: unat_of_nat del: of_nat_add of_nat_Suc)
  have r: "reads src st (varint (length str))" "reads src (adv st (length (varint (length str)))) (str_bytes str)"
    using assms(3) bs by (simp_all add: reads_append)
  have "pb_decode_strlen src st = Some (Ok (?n, adv st (length (varint (length str)))))"
    using reads_varint32 [OF r(1)] str(3) by (simp add: pb_decode_strlen_def)
  moreover have "pb_decode_string src (adv st (length (varint (length str)))) (length str + 1) (length str) =
      Some (Ok (str, adv st (length bs)))"
    using pb_read_reads [OF r(2)] bytes_str_str_bytes [OF str(1), of "[]"] bs by (simp add: pb_decode_string_def)
  moreover have "json_string str = Some (JString str)" using str(2) by (simp add: json_string_def)
  ultimately show ?thesis
    using ty n n1 JString assms(4) by (simp add: pb_decode_scalar_def pb_type_defs Let_def del: of_nat_add)
qed (use assms(1) in \<open>simp_all add: wt_scalar_def\<close>)

text \<open>The tag of a field leads back to its key.\<close>

lemma tag_roundtrip:
  assumes "tag_ok protos key proto" "ref_tag proto = Some (Ok bs)" "reads src st bs"
  shows "\<exists>t tags. pb_decode_tag src st = Some (Tag t, adv st (length bs)) \<and>
    json_object_get (Some protos) ''__tags'' = Some tags \<and>
    json_object_get (Some tags) (dec_string (unat t)) = Some (JString key)"
proof -
  obtain t where t: "json_object_get (Some proto) ''tag'' = Some (JInteger t)" "0 < t" "t < 2 ^ 29"
    "json_object_get (json_object_get (Some protos) ''__tags'') (dec_string (nat t)) = Some (JString key)"
    using assms(1) by (auto simp: tag_ok_def split: option.splits json.splits)
  then obtain tags where tags: "json_object_get (Some protos) ''__tags'' = Some tags"
    by (cases "json_object_get (Some protos) ''__tags''") auto
  obtain type where type: "json_string_value (json_object_get (Some proto) ''type'') = Some type"
    using assms(2) by (auto simp: ref_tag_def bind_eq_Some_conv)
  let ?t = "word_of_int t :: 32 word" and ?c = "word_of_nat (pb__get_constant_type type) :: 32 word"
  let ?w = "?c OR push_bit 3 ?t"
  have "int_of_double 0 (2 ^ 32 - 1) (double_of_int t) = Some t"
    using t(2,3) by (intro int_of_double_of_int) auto
  then have bs: "bs = varint (unat ?w)"
    using assms(2) t(1) type by (simp add: ref_tag_def)
  have "?t = word_of_nat (nat t)" using t(2) by simp
  then have ut: "unat ?t = nat t" using t(3) by (simp add: unat_of_nat nat_less_iff)
  have c: "?c = take_bit 3 ?c" by (simp add: pb__get_constant_type_def)
  have t29: "?t = take_bit 29 ?t"
    using ut t(3) by (simp add: word_unat_eq_iff unsigned_take_bit_eq take_bit_nat_eq_self nat_less_iff)
  have d: "drop_bit 3 ?w = ?t"
  proof (rule bit_word_eqI)
    fix k assume "k < LENGTH(32)"
    have "\<not> bit ?c (3 + k)" by (subst c) (simp add: bit_take_bit_iff)
    moreover have "bit ?t k \<Longrightarrow> k < 29" by (subst (asm) t29) (simp add: bit_take_bit_iff)
    ultimately show "bit (drop_bit 3 ?w) k = bit ?t k"
      by (auto simp: bit_drop_bit_eq bit_or_iff bit_push_bit_iff)
  qed
  have "?w \<noteq> 0"
  proof
    assume "?w = 0"
    then have "?t = 0" using d by (metis drop_bit_of_0)
    then show False using ut t(2) by simp
  qed
  moreover have "unat ?w < 2 ^ 64" using unsigned_less [of ?w, where 'a = nat] by simp
  ultimately have "pb_decode_tag src st = Some (Tag ?t, adv st (length bs))"
    using reads_varint32 [of src st "unat ?w"] assms(3) bs d by (simp add: pb_decode_tag_def)
  then show ?thesis using tags t(4) ut by auto
qed

section \<open>Values\<close>

text \<open>The decoder, run on the encoding of a value of the announced type, puts that value where it
  belongs and has consumed exactly the encoding.\<close>

definition inverts :: "malloc \<Rightarrow> json option \<Rightarrow> byte list \<Rightarrow> json \<Rightarrow> bool" where
  "inverts malloc gprotos src val \<longleftrightarrow>
     (\<forall>protos proto type bs st n.
        json_string_value (json_object_get (Some proto) ''type'') = Some type \<longrightarrow>
        wt_value malloc gprotos protos type val \<longrightarrow>
        ref_proto malloc gprotos protos proto val = Some (Ok bs) \<longrightarrow>
        reads src st bs \<longrightarrow> length bs < n \<longrightarrow> length bs < 2 ^ 32 \<longrightarrow>
        (\<forall>key result. pb__get_type type \<noteq> 0 \<longrightarrow>
           pb_decode_proto (pb_decode n malloc src gprotos) malloc src gprotos proto protos key result st =
             Some (Ok (store result key (Some val), adv st (length bs)))) \<and>
        (\<forall>k result. pb__get_type type = 0 \<longrightarrow>
           pb_decode_proto (pb_decode n malloc src gprotos) malloc src gprotos proto protos (Some k) result st =
             Some (Ok (json_object_set result (Some k) (Some val), adv st (length bs)))) \<and>
        (pb__get_type type = 0 \<longrightarrow>
           pb_decode_proto (pb_decode n malloc src gprotos) malloc src gprotos proto protos None json_object st =
             Some (Ok (val, adv st (length bs)))))"

lemma invertsD:
  assumes "inverts malloc gprotos src val" "json_string_value (json_object_get (Some proto) ''type'') = Some type"
    and "wt_value malloc gprotos protos type val" "ref_proto malloc gprotos protos proto val = Some (Ok bs)"
    and "reads src st bs" "length bs < n" "length bs < 2 ^ 32"
  shows "pb__get_type type \<noteq> 0 \<Longrightarrow>
      pb_decode_proto (pb_decode n malloc src gprotos) malloc src gprotos proto protos key result st =
        Some (Ok (store result key (Some val), adv st (length bs)))"
    and "pb__get_type type = 0 \<Longrightarrow>
      pb_decode_proto (pb_decode n malloc src gprotos) malloc src gprotos proto protos (Some k) result st =
        Some (Ok (json_object_set result (Some k) (Some val), adv st (length bs)))"
    and "pb__get_type type = 0 \<Longrightarrow>
      pb_decode_proto (pb_decode n malloc src gprotos) malloc src gprotos proto protos None json_object st =
        Some (Ok (val, adv st (length bs)))"
  using assms unfolding inverts_def by blast+

lemma update_last: "k \<notin> fst ` set acc \<Longrightarrow> AList.update k v (acc @ [(k, u)]) = acc @ [(k, v)]"
  by (induction acc) auto

lemma set_new_field:
  "utf8_check_string k \<Longrightarrow> k \<notin> fst ` set acc \<Longrightarrow>
   json_object_set (JObject acc) (Some k) (Some v) = JObject (acc @ [(k, v)])"
  by (simp add: json_object_set_def json_object_set_new_def update_new)

lemma store_object: "store (JObject acc) key val = json_object_set (JObject acc) key val"
  by (simp add: store_def json_object_set_def)

lemma cappendE:
  assumes "cappend a b = Some (Ok bs)"
  obtains xs ys where "a = Some (Ok xs)" "b = Some (Ok ys)" "bs = xs @ ys"
  using assms by (auto simp: cappend_def elim!: cbind_OkE)

lemma packed_items:
  assumes "\<forall>x \<in> set vals. inverts malloc gprotos src x \<and> wt_value malloc gprotos protos type x"
    and "json_string_value (json_object_get (Some proto) ''type'') = Some type" "pb__get_type type \<noteq> 0"
    and "ref_items malloc gprotos protos proto False vals = Some (Ok bs)" "reads src st bs"
    and "length bs < n" "length bs < 2 ^ 32"
  shows "pb_decode_items (pb_decode n malloc src gprotos) malloc src gprotos proto protos key (length vals) (JArray xs) st =
    Some (Ok (JArray (xs @ vals), adv st (length bs)))"
  using assms
proof (induction vals arbitrary: xs st bs)
  case (Cons v vals)
  obtain b1 b2 where b: "ref_proto malloc gprotos protos proto v = Some (Ok b1)"
    "ref_items malloc gprotos protos proto False vals = Some (Ok b2)" "bs = b1 @ b2"
    using Cons.prems(4) by (auto elim!: cappendE)
  have r: "reads src st b1" "reads src (adv st (length b1)) b2" using Cons.prems(5) b by (auto simp: reads_append)
  have "pb_decode_proto (pb_decode n malloc src gprotos) malloc src gprotos proto protos key (JArray xs) st =
      Some (Ok (JArray (xs @ [v]), adv st (length b1)))"
    using invertsD(1) [OF _ Cons.prems(2) _ b(1) r(1)] Cons.prems(1,3,6,7) b(3) by (simp add: store_def)
  then show ?case using Cons.IH [OF _ _ _ b(2) r(2), of "xs @ [v]"] Cons.prems b by simp
qed simp

lemma ref_tag_nonempty: "ref_tag proto = Some (Ok bs) \<Longrightarrow> bs \<noteq> []"
  by (auto simp: ref_tag_def bind_eq_Some_conv)

section \<open>Fields\<close>

text \<open>One round of the decoding loop.\<close>

lemma decode_round:
  assumes "tag_ok protos key proto" "ref_tag proto = Some (Ok tb)" "reads src st tb"
    and "json_object_get (Some protos) key = Some proto"
    and "json_string_value (json_object_get (Some proto) ''option'') = Some opt"
  shows "pb_decode (Suc n) malloc src gprotos protos result st =
    cbind (if opt = ''optional'' \<or> opt = ''required''
           then pb_decode_proto (pb_decode n malloc src gprotos) malloc src gprotos proto protos (Some key) result (adv st (length tb))
           else if opt = ''repeated''
           then pb_decode_array (pb_decode n malloc src gprotos) malloc src gprotos proto protos key result (adv st (length tb))
           else Some (Ok (result, adv st (length tb))))
      (\<lambda>(result, stream). pb_decode n malloc src gprotos protos result stream)"
proof -
  obtain t tags where "pb_decode_tag src st = Some (Tag t, adv st (length tb))"
    "json_object_get (Some protos) ''__tags'' = Some tags"
    "json_object_get (Some tags) (dec_string (unat t)) = Some (JString key)"
    using tag_roundtrip [OF assms(1-3)] by auto
  moreover have "bytes_left st \<noteq> 0" using assms(3) ref_tag_nonempty [OF assms(2)] by (cases tb) (auto simp: reads_def)
  ultimately show ?thesis using assms(4,5) by (simp add: pb_decode_field_def)
qed

text \<open>The array that a run of repeated fields has collected so far, at the end of the object.\<close>

definition collected :: "(string \<times> json) list \<Rightarrow> string \<Rightarrow> json list \<Rightarrow> (string \<times> json) list" where
  "collected acc k xs = (if xs = [] then acc else acc @ [(k, JArray xs)])"

lemma tagged_items:
  assumes "\<forall>x \<in> set vals. inverts malloc gprotos src x \<and> wt_value malloc gprotos protos type x"
    and "json_string_value (json_object_get (Some proto) ''type'') = Some type"
    and "pb__get_type type = 0 \<or> pb__get_type type = PB_string"
    and "tag_ok protos key proto" "json_object_get (Some protos) key = Some proto"
    and "json_string_value (json_object_get (Some proto) ''option'') = Some ''repeated''"
    and "key \<notin> fst ` set acc"
    and "ref_items malloc gprotos protos proto True vals = Some (Ok bs)" "reads src st bs"
    and "length bs < n" "length bs < 2 ^ 32"
  shows "length vals \<le> length bs \<and>
    pb_decode n malloc src gprotos protos (JObject (collected acc key xs)) st =
    pb_decode (n - length vals) malloc src gprotos protos (JObject (collected acc key (xs @ vals))) (adv st (length bs))"
  using assms
proof (induction vals arbitrary: xs st bs n)
  case (Cons v vals)
  obtain tb b1 b2 where b: "ref_tag proto = Some (Ok tb)" "ref_proto malloc gprotos protos proto v = Some (Ok b1)"
    "ref_items malloc gprotos protos proto True vals = Some (Ok b2)" "bs = tb @ b1 @ b2"
    using Cons.prems(8) by (auto elim!: cappendE)
  have r: "reads src st tb" "reads src (adv st (length tb)) b1" "reads src (adv st (length tb + length b1)) b2"
    using Cons.prems(9) b by (auto simp: reads_append)
  have tb: "0 < length tb" using ref_tag_nonempty [OF b(1)] by simp
  obtain m where n: "n = Suc m" using Cons.prems(10) by (cases n) auto
  have len: "length b1 < m" "length b1 < 2 ^ 32" "length b2 < m" "length b2 < 2 ^ 32"
    using Cons.prems(10,11) n tb b(4) by (simp_all del: length_greater_0_conv)
  have utf: "utf8_check_string key" using Cons.prems(4) by (simp add: tag_ok_def)
  let ?st = "adv st (length tb)" and ?D = "pb_decode m malloc src gprotos"
  have get: "(case json_object_get (Some (JObject (collected acc key xs))) key of None \<Rightarrow> json_array | Some a \<Rightarrow> a) = JArray xs"
  proof -
    have "map_of acc key = None" using Cons.prems(7) by (simp add: map_of_eq_None_iff)
    then show ?thesis by (simp add: collected_def json_array_def map_add_def)
  qed
  have set: "json_object_set (JObject (collected acc key xs)) (Some key) (Some (JArray (xs @ [v]))) =
      JObject (collected acc key (xs @ [v]))"
    using utf Cons.prems(7) by (simp add: collected_def json_object_set_def json_object_set_new_def update_new update_last)
  have v: "inverts malloc gprotos src v" "wt_value malloc gprotos protos type v" using Cons.prems(1) by auto
  note inv = invertsD [OF v(1) Cons.prems(2) v(2) b(2) r(2) len(1,2)]
  have "pb_decode_array ?D malloc src gprotos proto protos key (JObject (collected acc key xs)) ?st =
      Some (Ok (JObject (collected acc key (xs @ [v])), adv st (length tb + length b1)))"
    using Cons.prems(3) inv(1) [of "Some key" "JArray xs"] inv(3) set
    unfolding pb_decode_array_def Cons.prems(2) bind.bind_lunit Let_def get
    by (auto simp: store_def json_array_append_def pb_type_defs)
  then have "pb_decode n malloc src gprotos protos (JObject (collected acc key xs)) st =
      pb_decode m malloc src gprotos protos (JObject (collected acc key (xs @ [v]))) (adv st (length tb + length b1))"
    using decode_round [OF Cons.prems(4) b(1) r(1) Cons.prems(5,6), of m malloc gprotos] n
    by (simp del: pb_decode.simps)
  moreover have "length vals \<le> length b2 \<and>
      pb_decode m malloc src gprotos protos (JObject (collected acc key (xs @ [v]))) (adv st (length tb + length b1)) =
      pb_decode (m - length vals) malloc src gprotos protos (JObject (collected acc key ((xs @ [v]) @ vals)))
        (adv (adv st (length tb + length b1)) (length b2))"
    using Cons.prems(1) by (intro Cons.IH [OF _ Cons.prems(2-7) b(3) r(3) len(3,4)]) simp
  ultimately show ?case using b(4) n tb by (simp add: add.assoc del: length_greater_0_conv pb_decode.simps)
qed simp

text \<open>A packed array is decoded in one round.\<close>

lemma packed_array:
  assumes "\<forall>x \<in> set vals. inverts malloc gprotos src x \<and> wt_value malloc gprotos protos type x"
    and "json_string_value (json_object_get (Some proto) ''type'') = Some type"
    and "pb__get_type type \<noteq> 0" "pb__get_type type \<noteq> PB_string" "length vals < 2 ^ 32"
    and "utf8_check_string key" "key \<notin> fst ` set acc"
    and "ref_items malloc gprotos protos proto False vals = Some (Ok bs)"
    and "reads src st (varint (length vals) @ bs)" "length bs < n" "length bs < 2 ^ 32"
  shows "pb_decode_array (pb_decode n malloc src gprotos) malloc src gprotos proto protos key (JObject acc) st =
    Some (Ok (JObject (acc @ [(key, JArray vals)]), adv st (length (varint (length vals)) + length bs)))"
proof -
  have r: "reads src st (varint (length vals))" "reads src (adv st (length (varint (length vals)))) bs"
    using assms(9) by (auto simp: reads_append)
  have "unat (word_of_nat (length vals) :: 32 word) = length vals" using assms(5) by (simp add: unat_of_nat)
  moreover have "map_of acc key = None" using assms(7) by (simp add: map_of_eq_None_iff)
  ultimately show ?thesis
    using reads_varint32 [OF r(1)] assms(5) packed_items [OF assms(1-3,8) r(2) assms(10,11), of "Some key" "[]"]
      set_new_field [OF assms(6,7)]
    by (simp add: pb_decode_array_def assms(2-4) json_array_def Let_def)
qed

lemma wt_fieldsD:
  assumes "wt_fields malloc gprotos protos kvs" "kv \<in> set kvs"
  obtains proto opt type where "json_object_get (Some protos) (fst kv) = Some proto" "tag_ok protos (fst kv) proto"
    "json_string_value (json_object_get (Some proto) ''option'') = Some opt"
    "json_string_value (json_object_get (Some proto) ''type'') = Some type"
    "opt = ''required'' \<or> opt = ''optional'' \<Longrightarrow> wt_value malloc gprotos protos type (snd kv)"
    "\<not> (opt = ''required'' \<or> opt = ''optional'') \<Longrightarrow> opt = ''repeated'' \<and> json_is_array (Some (snd kv)) \<and>
       length (json_array_items (snd kv)) < 2 ^ 32 \<and>
       (json_array_items (snd kv) = [] \<longrightarrow> pb__get_type type \<noteq> 0 \<and> pb__get_type type \<noteq> PB_string) \<and>
       (\<forall>x \<in> set (json_array_items (snd kv)). wt_value malloc gprotos protos type x)"
proof -
  note w = assms(1) [unfolded wt_fields.simps [of malloc gprotos protos kvs], THEN conjunct2, rule_format, OF assms(2)]
  obtain proto where p: "json_object_get (Some protos) (fst kv) = Some proto"
    using w by (cases "json_object_get (Some protos) (fst kv)") auto
  obtain opt type where ot: "json_string_value (json_object_get (Some proto) ''option'') = Some opt"
    "json_string_value (json_object_get (Some proto) ''type'') = Some type"
    using w p by (auto split: option.splits)
  show ?thesis by (rule that [OF p _ ot]) (use w p ot in \<open>auto split: if_splits\<close>)
qed

text \<open>The rounds that one field takes, with enough fuel left for the fields after it.\<close>

lemma single_field:
  assumes "inverts malloc gprotos src v" "wt_value malloc gprotos protos type v"
    and p: "json_object_get (Some protos) k = Some proto" "tag_ok protos k proto"
      "json_string_value (json_object_get (Some proto) ''option'') = Some opt"
      "json_string_value (json_object_get (Some proto) ''type'') = Some type"
    and "opt = ''required'' \<or> opt = ''optional''" "k \<notin> fst ` set acc"
    and "ref_field malloc gprotos protos proto v = Some (Ok bs)" "reads src st bs"
    and "length bs + r < n" "length bs < 2 ^ 32"
  shows "\<exists>m > r. pb_decode n malloc src gprotos protos (JObject acc) st =
    pb_decode m malloc src gprotos protos (JObject (acc @ [(k, v)])) (adv st (length bs))"
proof -
  obtain tb vb where b: "ref_tag proto = Some (Ok tb)" "ref_proto malloc gprotos protos proto v = Some (Ok vb)" "bs = tb @ vb"
    using assms(7,9) p(3) by (auto simp: ref_field_def elim!: cappendE)
  obtain m where n: "n = Suc m" using assms(11) by (cases n) auto
  have tb: "0 < length tb" using ref_tag_nonempty [OF b(1)] by simp
  have rd: "reads src st tb" "reads src (adv st (length tb)) vb" using assms(10) b by (auto simp: reads_append)
  have len: "length vb < m" "length vb < 2 ^ 32" "r < m"
    using assms(11,12) b(3) n tb by (simp_all del: length_greater_0_conv)
  have utf: "utf8_check_string k" using p(2) by (simp add: tag_ok_def)
  note inv = invertsD(1,2) [OF assms(1) p(4) assms(2) b(2) rd(2) len(1,2)]
  have "pb_decode_proto (pb_decode m malloc src gprotos) malloc src gprotos proto protos (Some k) (JObject acc) (adv st (length tb)) =
      Some (Ok (JObject (acc @ [(k, v)]), adv st (length bs)))"
    using inv(1) [of "Some k" "JObject acc"] inv(2) [of k "JObject acc"] set_new_field [OF utf assms(8)] b(3)
    by (cases "pb__get_type type = 0") (simp_all add: store_object)
  then have "pb_decode n malloc src gprotos protos (JObject acc) st =
      pb_decode m malloc src gprotos protos (JObject (acc @ [(k, v)])) (adv st (length bs))"
    using decode_round [OF p(2) b(1) rd(1) p(1,3), of m malloc gprotos "JObject acc"] assms(7) n
    by (auto simp del: pb_decode.simps)
  then show ?thesis using len(3) by blast
qed

lemma repeated_field:
  assumes "\<forall>x \<in> set vals. inverts malloc gprotos src x \<and> wt_value malloc gprotos protos type x"
    and p: "json_object_get (Some protos) k = Some proto" "tag_ok protos k proto"
      "json_string_value (json_object_get (Some proto) ''option'') = Some ''repeated''"
      "json_string_value (json_object_get (Some proto) ''type'') = Some type"
    and "length vals < 2 ^ 32" "vals = [] \<longrightarrow> pb__get_type type \<noteq> 0 \<and> pb__get_type type \<noteq> PB_string"
    and "k \<notin> fst ` set acc"
    and "ref_field malloc gprotos protos proto (JArray vals) = Some (Ok bs)" "reads src st bs"
    and "length bs + r < n" "length bs < 2 ^ 32"
  shows "\<exists>m > r. pb_decode n malloc src gprotos protos (JObject acc) st =
    pb_decode m malloc src gprotos protos (JObject (acc @ [(k, JArray vals)])) (adv st (length bs))"
proof (cases "pb__get_type type \<noteq> 0 \<and> pb__get_type type \<noteq> PB_string")
  case True
  have "unat (word_of_nat (length vals) :: 64 word) = length vals" using assms(6) by (simp add: unat_of_nat)
  then obtain tb ib where b: "ref_tag proto = Some (Ok tb)" "bs = tb @ varint (length vals) @ ib"
    "ref_items malloc gprotos protos proto False vals = Some (Ok ib)"
    using assms(9) p(3,4) True by (auto simp: ref_field_def ref_array_def elim!: cappendE)
  obtain m where n: "n = Suc m" using assms(11) by (cases n) auto
  have tb: "0 < length tb" using ref_tag_nonempty [OF b(1)] by simp
  have rd: "reads src st tb" "reads src (adv st (length tb)) (varint (length vals) @ ib)"
    using assms(10) b by (auto simp: reads_append)
  have len: "length ib < m" "length ib < 2 ^ 32" "r < m"
    using assms(11,12) b(2) n tb by (simp_all del: length_greater_0_conv)
  have utf: "utf8_check_string k" using p(2) by (simp add: tag_ok_def)
  have "pb_decode_array (pb_decode m malloc src gprotos) malloc src gprotos proto protos k (JObject acc) (adv st (length tb)) =
      Some (Ok (JObject (acc @ [(k, JArray vals)]), adv st (length bs)))"
    using packed_array [OF assms(1) p(4) _ _ assms(6) utf assms(8) b(3) rd(2) len(1,2)] True b(2) by simp
  then have "pb_decode n malloc src gprotos protos (JObject acc) st =
      pb_decode m malloc src gprotos protos (JObject (acc @ [(k, JArray vals)])) (adv st (length bs))"
    using decode_round [OF p(2) b(1) rd(1) p(1,3), of m malloc gprotos "JObject acc"] n
    by (simp del: pb_decode.simps)
  then show ?thesis using len(3) by blast
next
  case False
  then have ib: "ref_items malloc gprotos protos proto True vals = Some (Ok bs)"
    using assms(9) p(3,4) by (auto simp: ref_field_def ref_array_def)
  have "length vals \<le> length bs \<and>
    pb_decode n malloc src gprotos protos (JObject (collected acc k [])) st =
    pb_decode (n - length vals) malloc src gprotos protos (JObject (collected acc k ([] @ vals))) (adv st (length bs))"
    using False assms(11) by (intro tagged_items [OF assms(1) p(4) _ p(2,1,3) assms(8) ib assms(10) _ assms(12)]) auto
  moreover have "vals \<noteq> []" using False assms(7) by auto
  ultimately show ?thesis using assms(11) by (intro exI [of _ "n - length vals"]) (auto simp: collected_def)
qed

lemma fields_roundtrip:
  assumes "\<And>k v x. (k, v) \<in> set kvs \<Longrightarrow> x = v \<or> x \<in> set (json_array_items v) \<Longrightarrow> inverts malloc gprotos src x"
    and "wt_fields malloc gprotos protos kvs" "ref_fields malloc gprotos protos kvs = Some (Ok bs)"
    and "reads src st bs" "bytes_left st = length bs" "length bs < n" "length bs < 2 ^ 32"
    and "fst ` set kvs \<inter> fst ` set acc = {}"
  shows "pb_decode n malloc src gprotos protos (JObject acc) st = Some (Ok (JObject (acc @ kvs), adv st (length bs)))"
  using assms
proof (induction kvs arbitrary: acc st bs n)
  case Nil
  then show ?case by (cases n) (auto simp: adv_def)
next
  case (Cons kv kvs)
  obtain k v where kv: "kv = (k, v)" by fastforce
  obtain proto opt type where p: "json_object_get (Some protos) k = Some proto" "tag_ok protos k proto"
    "json_string_value (json_object_get (Some proto) ''option'') = Some opt"
    "json_string_value (json_object_get (Some proto) ''type'') = Some type"
    and single: "opt = ''required'' \<or> opt = ''optional'' \<Longrightarrow> wt_value malloc gprotos protos type v"
    and rep: "\<not> (opt = ''required'' \<or> opt = ''optional'') \<Longrightarrow> opt = ''repeated'' \<and> json_is_array (Some v) \<and>
       length (json_array_items v) < 2 ^ 32 \<and>
       (json_array_items v = [] \<longrightarrow> pb__get_type type \<noteq> 0 \<and> pb__get_type type \<noteq> PB_string) \<and>
       (\<forall>x \<in> set (json_array_items v). wt_value malloc gprotos protos type x)"
    by (rule wt_fieldsD [OF Cons.prems(2), of kv]) (auto simp: kv)
  obtain b1 b2 where b: "ref_field malloc gprotos protos proto v = Some (Ok b1)"
    "ref_fields malloc gprotos protos kvs = Some (Ok b2)" "bs = b1 @ b2"
    using Cons.prems(3) p(1) unfolding kv ref_fields_Cons by (auto elim!: cappendE)
  have r: "reads src st b1" "reads src (adv st (length b1)) b2" using Cons.prems(4) b by (auto simp: reads_append)
  have wt: "wt_fields malloc gprotos protos kvs" "k \<notin> fst ` set kvs"
    using Cons.prems(2) kv by (auto simp: wt_fields.simps [of malloc gprotos protos])
  have acc: "k \<notin> fst ` set acc" using Cons.prems(8) kv by auto
  have utf: "utf8_check_string k" using p(2) by (simp add: tag_ok_def)
  have ih: "inverts malloc gprotos src x" if "(k', v') \<in> set kvs" "x = v' \<or> x \<in> set (json_array_items v')" for k' v' x
    using Cons.prems(1) [of k' v' x] that by simp
  have rest: "pb_decode m malloc src gprotos protos (JObject (acc @ [(k, v)])) (adv st (length b1)) =
      Some (Ok (JObject (acc @ kv # kvs), adv st (length bs)))" if "length b2 < m" for m
  proof -
    have "pb_decode m malloc src gprotos protos (JObject (acc @ [(k, v)])) (adv st (length b1)) =
        Some (Ok (JObject ((acc @ [(k, v)]) @ kvs), adv (adv st (length b1)) (length b2)))"
      by (rule Cons.IH [OF ih wt(1) b(2) r(2)])
        (use that Cons.prems(5-8) b(3) wt(2) kv in \<open>auto simp: adv_def\<close>)
    then show ?thesis using b(3) kv by simp
  qed
  have n: "length b1 + length b2 < n" "length b1 < 2 ^ 32" using Cons.prems(6,7) b(3) by auto
  have "\<exists>m > length b2. pb_decode n malloc src gprotos protos (JObject acc) st =
      pb_decode m malloc src gprotos protos (JObject (acc @ [(k, v)])) (adv st (length b1))"
  proof (cases "opt = ''required'' \<or> opt = ''optional''")
    case True
    then show ?thesis
      using Cons.prems(1) [of k v v] kv by (intro single_field [OF _ single p _ acc b(1) r(1) n]) auto
  next
    case False
    from rep [OF this] obtain vals where vals: "v = JArray vals" by (cases v) auto
    then show ?thesis
      using rep [OF False] Cons.prems(1) [of k v] kv p acc b(1) r(1) n
      by (simp only: vals, intro repeated_field) auto
  qed
  then show ?case using rest by auto
qed

section \<open>Messages\<close>

lemma submessage_roundtrip:
  assumes "\<And>k v x. (k, v) \<in> set kvs \<Longrightarrow> x = v \<or> x \<in> set (json_array_items v) \<Longrightarrow> inverts malloc gprotos src x"
    and "wt_fields malloc gprotos sub kvs" "ref_fields malloc gprotos sub kvs = Some (Ok body)"
    and "reads src st (varint (length body) @ body)" "length body < n" "length body < 2 ^ 32"
  shows "pb_decode_submessage (pb_decode n malloc src gprotos) src sub json_object st =
    Some (Ok (JObject kvs, adv st (length (varint (length body)) + length body)))"
proof -
  let ?st = "adv st (length (varint (length body)))"
  have r: "reads src st (varint (length body))" "reads src ?st body" using assms(4) by (auto simp: reads_append)
  have "unat (word_of_nat (length body) :: 32 word) = length body" using assms(6) by (simp add: unat_of_nat)
  moreover have le: "length body \<le> bytes_left ?st" using r(2) by (simp add: reads_def)
  ultimately have sub: "pb_make_string_substream src st = Some (Ok (?st\<lparr>bytes_left := length body\<rparr>,
      ?st\<lparr>bytes_left := bytes_left ?st - length body\<rparr>))"
    using reads_varint32 [OF r(1)] assms(6) by (simp add: pb_make_string_substream_def)
  have "reads src (?st\<lparr>bytes_left := length body\<rparr>) body" using r(2) le by (auto simp: reads_def valid_def)
  then have "pb_decode n malloc src gprotos sub (JObject []) (?st\<lparr>bytes_left := length body\<rparr>) =
      Some (Ok (JObject ([] @ kvs), adv (?st\<lparr>bytes_left := length body\<rparr>) (length body)))"
    by (intro fields_roundtrip [OF assms(1-3)]) (use assms(5,6) in auto)
  then show ?thesis
    using sub by (simp add: pb_decode_submessage_def json_object_def pb_close_string_substream_def adv_def)
qed

lemma all_inverts:
  assumes "\<forall>n > 0. malloc n"
  shows "inverts malloc gprotos src val"
proof (induction val rule: measure_induct_rule [of weight])
  case (less val)
  have ih: "inverts malloc gprotos src x" if "(k, v) \<in> set (json_object_pairs val)" "x = v \<or> x \<in> set (json_array_items v)"
    for k v x using weight_in that less.IH by (metis order.strict_trans)
  show ?case unfolding inverts_def
  proof (intro allI impI)
    fix protos proto type bs st n
    assume ty: "json_string_value (json_object_get (Some proto) ''type'') = Some type"
      and wt: "wt_value malloc gprotos protos type val"
      and rf: "ref_proto malloc gprotos protos proto val = Some (Ok bs)"
      and rd: "reads src st bs" and n: "length bs < n" "length bs < 2 ^ 32"
    let ?proto = "pb_decode_proto (pb_decode n malloc src gprotos) malloc src gprotos proto protos"
    show "(\<forall>key result. pb__get_type type \<noteq> 0 \<longrightarrow>
        ?proto key result st = Some (Ok (store result key (Some val), adv st (length bs)))) \<and>
      (\<forall>k result. pb__get_type type = 0 \<longrightarrow>
        ?proto (Some k) result st = Some (Ok (json_object_set result (Some k) (Some val), adv st (length bs)))) \<and>
      (pb__get_type type = 0 \<longrightarrow> ?proto None json_object st = Some (Ok (val, adv st (length bs))))"
    proof (cases "pb__get_type type = 0")
      case False
      then have "wt_scalar (pb__get_type type) val" "ref_scalar (pb__get_type type) val = Some (Ok bs)"
        using wt rf ty by (simp_all add: wt_value.simps ref_proto.simps)
      then show ?thesis
        using False ty scalar_roundtrip [OF _ _ rd assms] by (simp add: pb_decode_proto_def)
    next
      case True
      then obtain messages sub kvs where m: "json_object_get (Some protos) ''__messages'' = Some messages"
        "pb_sub_msg malloc gprotos (Some messages) type = Some (Some sub)" "val = JObject kvs"
        "wt_fields malloc gprotos sub kvs"
        using wt by (cases val) (auto simp: wt_value.simps split: option.splits)
      then obtain body where body: "ref_fields malloc gprotos sub kvs = Some (Ok body)"
        "bs = varint (length body) @ body"
        using rf ty True by (auto simp: ref_proto.simps elim!: cbind_OkE)
      have "pb_decode_submessage (pb_decode n malloc src gprotos) src sub json_object st =
          Some (Ok (val, adv st (length bs)))"
        using submessage_roundtrip [OF _ m(4) body(1), of src st n] ih n rd body(2) m(3) by simp
      then show ?thesis using True ty m(1,2) by (simp add: pb_decode_proto_def)
    qed
  qed
qed

lemma pb_encode_decode:
  assumes "\<forall>n > 0. malloc n" "wt_fields malloc gprotos protos kvs"
    and "ref_fields malloc gprotos protos kvs = Some (Ok bs)" "length bs < 2 ^ 32"
    and "length bs \<le> len" "len \<le> length buf" "len < 2 ^ 63"
  shows "\<exists>out. pc_pb_encode malloc buf len gprotos protos (JObject kvs) = Some (Ok (out, length bs)) \<and>
    pc_pb_decode malloc out 0 (length bs) gprotos protos json_object = Some (Ok (JObject kvs))"
proof -
  let ?out = "bs @ drop (length bs) buf"
  have "fits (pb_ostream_from_buffer buf len) bs"
    using assms(4,6,7) by (simp add: fits_def pb_ostream_from_buffer_def)
  from implementsD [OF pb_encode_implements [of malloc gprotos protos kvs, unfolded assms(3)] this]
  have "pc_pb_encode malloc buf len gprotos protos (JObject kvs) = Some (Ok (?out, length bs))"
    using assms(5) by (simp add: pc_pb_encode_def pb_encode_def emit_def pb_ostream_from_buffer_def)
  moreover have "pb_decode (length bs + 1) malloc ?out gprotos protos (JObject []) (pb_istream_from_buffer 0 (length bs)) =
      Some (Ok (JObject ([] @ kvs), adv (pb_istream_from_buffer 0 (length bs)) (length bs)))"
    by (rule fields_roundtrip [OF all_inverts [OF assms(1)] assms(2,3)])
      (use assms(4) in \<open>auto simp: reads_def valid_def pb_istream_from_buffer_def\<close>)
  ultimately show ?thesis by (simp add: pc_pb_decode_def json_object_def del: pb_decode.simps)
qed

section \<open>Properties\<close>

text \<open>(C4) The protobuf codec is a round trip: a well-typed message, once encoded by
  \<open>pc_pb_encode\<close>, is decoded by \<open>pc_pb_decode\<close> into the same message. This covers packed and
  tagged arrays and nested messages of any depth, zigzag and plain integers, floats and strings.\<close>

theorem pb_roundtrip:
  assumes "\<forall>n > 0. malloc n" "wt_fields malloc gprotos protos kvs"
    and "ref_fields malloc gprotos protos kvs = Some (Ok bs)" "length bs < 2 ^ 32"
    and "length bs \<le> len" "len \<le> length buf" "len < 2 ^ 63"
  shows "\<exists>out. pc_pb_encode malloc buf len gprotos protos (JObject kvs) = Some (Ok (out, length bs)) \<and>
    pc_pb_decode malloc out 0 (length bs) gprotos protos json_object = Some (Ok (JObject kvs))"
  using assms by (rule pb_encode_decode)

lemma demo_tag_ok:
  "t = 1 \<or> t = 2 \<or> t = 3 \<Longrightarrow> utf8_check_string key \<Longrightarrow>
   json_object_get (json_object_get (Some protos) ''__tags'') (dec_string (nat t)) = Some (JString key) \<Longrightarrow>
   tag_ok protos key (demo_field opt type t)"
  by (auto simp: tag_ok_def demo_field_def)

lemma demo_dec: "dec_string (Suc 0) = ''1''" "dec_string 2 = ''2''" "dec_string 3 = ''3''"
  by (simp_all add: dec_string.simps char_of_eq_iff)

lemma demo_point_get: "json_object_get (Some demo_point) ''x'' = Some (demo_field ''required'' ''sInt32'' 1)"
  by (simp add: demo_point_def)

lemma demo_point_wt: "wt_fields (\<lambda>_. True) gp demo_point [(''x'', JInteger (- 3))]"
proof -
  have "tag_ok demo_point ''x'' (demo_field ''required'' ''sInt32'' 1)"
    by (rule demo_tag_ok) (simp_all add: demo_point_def demo_dec utf8_ascii)
  moreover have "wt_value (\<lambda>_. True) gp demo_point ''sInt32'' (JInteger (- 3))"
    by (simp add: wt_value.simps demo_types wt_scalar_def pb_type_defs)
  ultimately show ?thesis
    unfolding wt_fields.simps
    by (simp add: demo_get demo_point_get)
qed

lemma demo_wt: "wt_fields (\<lambda>_. True) gp demo_protos (json_object_pairs demo_msg)"
proof -
  have t: "tag_ok demo_protos ''id'' (demo_field ''required'' ''uInt32'' 1)"
    "tag_ok demo_protos ''name'' (demo_field ''optional'' ''string'' 2)"
    "tag_ok demo_protos ''pos'' (demo_field ''repeated'' ''Point'' 3)"
    by (rule demo_tag_ok; simp add: demo_protos_def demo_dec utf8_ascii)+
  have v: "wt_value (\<lambda>_. True) gp demo_protos ''uInt32'' (JInteger 300)"
    "wt_value (\<lambda>_. True) gp demo_protos ''string'' (JString ''ab'')"
    "wt_value (\<lambda>_. True) gp demo_protos ''Point'' (JObject [(''x'', JInteger (- 3))])"
    using demo_point_wt
    by (simp_all add: wt_value.simps demo_types wt_scalar_def pb_type_defs c_string_def utf8_ascii pb_sub_msg_def demo_protos_def)
  have g: "json_object_get (Some demo_protos) ''id'' = Some (demo_field ''required'' ''uInt32'' 1)"
    "json_object_get (Some demo_protos) ''name'' = Some (demo_field ''optional'' ''string'' 2)"
    "json_object_get (Some demo_protos) ''pos'' = Some (demo_field ''repeated'' ''Point'' 3)"
    by (simp_all add: demo_protos_def)
  show ?thesis unfolding wt_fields.simps using t v by (simp add: demo_msg_def g demo_get)
qed

lemma length_demo_bytes: "length demo_bytes = 11"
  by (simp add: demo_bytes_def)

theorem pb_roundtrip_witness:
  "\<exists>out. pc_pb_encode (\<lambda>_. True) (replicate 16 0) 16 None demo_protos demo_msg = Some (Ok (out, 11)) \<and>
     pc_pb_decode (\<lambda>_. True) out 0 11 None demo_protos json_object = Some (Ok demo_msg)"
  using pb_roundtrip [OF _ demo_wt demo_ref, where len = 16 and buf = "replicate 16 0"]
  by (simp add: length_demo_bytes demo_msg_def)

end
