(* ===== verification/Codec.thy ===== *)
theory Codec
  imports Message Pb_Roundtrip
begin

text \<open>
  The message codec of a client: the bodies (\<open>msg-json.c\<close>, \<open>msg-pb.c\<close>), the dictionary of
  routes that the handshake sets up (the loop in \<open>pc__handshake_resp\<close>,
  \<open>pc__resolve_dictionary\<close>), and the default callbacks of \<open>protocol.c\<close> that turn a request into
  bytes and bytes into a message.

  Printing and parsing of JSON text are parameters here: \<open>dumps\<close> stands for \<open>json_dumps\<close> with
  \<open>JSON_COMPACT\<close> and \<open>loadb\<close> for \<open>json_loadb\<close>. What the codec relies on is the
  predicate \<open>json_text\<close>: the printed text is not empty and parses to the value that was printed;
  \<open>Codec_Json\<close> proves it of the two functions.
  The codec sees the four tables of the client that the handshake fills, and the requests it waits for
  as a function \<open>pending\<close> from the printed id to the route (no route: the request the table points
  to has been freed).

  The lemmas give the round trip through both callbacks, for all four combinations of route
  (dictionary code or string) and body (protobuf or JSON), and the cases in which the code loses the
  message.
\<close>

section \<open>Data\<close>

type_synonym dumps = "json \<Rightarrow> string option"
type_synonym loadb = "byte list \<Rightarrow> json option"

record pc_codec =
  route_to_code :: "json option"
  code_to_route :: "json option"
  server_protos :: "json option"
  client_protos :: "json option"

record pc_msg =
  msg_id :: nat
  msg_route :: "string option"
  msg_msg :: "json option"

definition PC_PB_EVAL_FACTOR :: nat where "PC_PB_EVAL_FACTOR = 2"

section \<open>Bodies\<close>

definition pc__json_encode :: "dumps \<Rightarrow> json option \<Rightarrow> byte list cret" where
  "pc__json_encode dumps msg =
     (case Option.bind msg dumps of None \<Rightarrow> Fail | Some res \<Rightarrow> Ok (str_bytes res))"

definition pc__json_decode :: "loadb \<Rightarrow> byte list \<Rightarrow> nat \<Rightarrow> nat \<Rightarrow> json cret option" where
  "pc__json_decode loadb data offset len = do {
     bs \<leftarrow> mem_read data offset (size_sub len offset);
     Some (case loadb bs of None \<Rightarrow> Fail | Some res \<Rightarrow> Ok res) }"

text \<open>Only a failing \<open>malloc\<close> sets the length to \<open>-1\<close>: when the message cannot be printed
  or cannot be encoded the buffer is returned with the length 0 of the initial \<open>memset\<close>.\<close>

definition pc__pb_encode ::
  "malloc \<Rightarrow> (nat \<Rightarrow> byte) \<Rightarrow> dumps \<Rightarrow> json option \<Rightarrow> json option \<Rightarrow> json \<Rightarrow> byte list cret option" where
  "pc__pb_encode malloc junk dumps msg gprotos pb_def =
     (case (msg, pc__json_encode dumps msg) of
        (Some m, Ok json_buf) \<Rightarrow>
          (let eval_size = length json_buf * PC_PB_EVAL_FACTOR in
           if \<not> malloc eval_size then Some Fail
           else case pc_pb_encode malloc (map junk [0..<eval_size]) eval_size gprotos pb_def m of
              None \<Rightarrow> None
            | Some Fail \<Rightarrow> Some (Ok [])
            | Some (Ok (base, written)) \<Rightarrow> Some (Ok (take written base)))
      | _ \<Rightarrow> Some (Ok []))"

definition pc__pb_decode ::
  "malloc \<Rightarrow> byte list \<Rightarrow> nat \<Rightarrow> nat \<Rightarrow> json option \<Rightarrow> json \<Rightarrow> json cret option" where
  "pc__pb_decode malloc data offset len gprotos pb_def =
     pc_pb_decode malloc data offset len gprotos pb_def json_object"

section \<open>The dictionary of routes\<close>

text \<open>A conversion of \<open>json_int_t\<close> to \<open>int\<close>.\<close>

definition int_of_json_int :: "int \<Rightarrow> int" where
  "int_of_json_int i = sint (word_of_int i :: 32 word)"

text \<open>The loop over the dictionary of the handshake response: it stores the route under the low
  eight bits of its code.\<close>

definition code_str :: "json \<Rightarrow> string" where
  "code_str val = dec_string (nat (int_of_json_int (json_integer_value (Some val)) AND 0xff))"

fun dict_loop :: "(string \<times> json) list \<Rightarrow> json \<Rightarrow> json" where
  "dict_loop [] table = table"
| "dict_loop ((key, val) # kvs) table =
     dict_loop kvs (json_object_set table (Some (code_str val)) (json_string key))"

definition code_table :: "json \<Rightarrow> json" where
  "code_table dict = dict_loop (json_object_pairs dict) json_object"

definition pc__resolve_dictionary :: "'a pc_codec_scheme \<Rightarrow> nat \<Rightarrow> string option" where
  "pc__resolve_dictionary client code =
     json_string_value (json_object_get (code_to_route client) (dec_string (code AND 0xff)))"

section \<open>The callbacks\<close>

text \<open>The route of a raw message. \<open>strlen\<close> of a null pointer is undefined.\<close>

definition parse_route :: "malloc \<Rightarrow> 'a pc_codec_scheme \<Rightarrow> msg_route \<Rightarrow> string cret option" where
  "parse_route malloc client route =
     (case route of
        Route_code c \<Rightarrow>
          (case pc__resolve_dictionary client c of
             None \<Rightarrow> Some Fail
           | Some r \<Rightarrow> if malloc (length r + 1) then Some (Ok r) else Some Fail)
      | Route_str None \<Rightarrow> None
      | Route_str (Some r) \<Rightarrow> if malloc (length r + 1) then Some (Ok r) else Some Fail)"

definition pc__default_msg_parse_cb ::
  "bool \<Rightarrow> malloc \<Rightarrow> loadb \<Rightarrow> 'a pc_codec_scheme \<Rightarrow> (string \<Rightarrow> string option option) \<Rightarrow> byte list \<Rightarrow> nat \<Rightarrow>
   pc_msg cret option" where
  "pc__default_msg_parse_cb sc malloc loadb client pending data len =
     cbind (pc_msg_decode sc malloc data len) (\<lambda>raw_msg.
       if \<not> malloc 24 then Some Fail \<comment> \<open>\<open>sizeof(pc_msg_t)\<close>\<close>
       else
         cbind (if PC_MSG_HAS_ROUTE (raw_type raw_msg)
                then cbind (parse_route malloc client (raw_route raw_msg)) (\<lambda>r. Some (Ok (r, Some r)))
                else case pending (dec_string (raw_id raw_msg)) of
                    None \<Rightarrow> Some Fail
                  | Some None \<Rightarrow> None
                  | Some (Some r) \<Rightarrow> Some (Ok (r, None)))
           (\<lambda>(route_str, route).
             let body = raw_body raw_msg in
             cbind (if length body > 0
                    then cbind (case json_object_get (server_protos client) route_str of
                             Some pb_def \<Rightarrow> pc__pb_decode malloc body 0 (length body) (server_protos client) pb_def
                           | None \<Rightarrow> pc__json_decode loadb body 0 (length body))
                         (\<lambda>v. Some (Ok (Some v)))
                    else Some (Ok None))
               (\<lambda>msg. Some (Ok \<lparr>msg_id = raw_id raw_msg, msg_route = route, msg_msg = msg\<rparr>))))"

definition pc__default_msg_encode_cb ::
  "malloc \<Rightarrow> (nat \<Rightarrow> byte) \<Rightarrow> dumps \<Rightarrow> 'a pc_codec_scheme \<Rightarrow> nat \<Rightarrow> string \<Rightarrow> json option \<Rightarrow>
   byte list cret option" where
  "pc__default_msg_encode_cb malloc junk dumps client reqId route msg =
     (let route_code = (case json_object_get (route_to_code client) route of
                          None \<Rightarrow> 0
                        | Some code \<Rightarrow> int_of_json_int (json_integer_value (Some code))) in
      cbind (case json_object_get (client_protos client) route of
               Some pb_def \<Rightarrow> pc__pb_encode malloc junk dumps msg (client_protos client) pb_def
             | None \<Rightarrow> Some (pc__json_encode dumps msg))
        (\<lambda>body_buf.
          let type = (if reqId = 0 then PC_MSG_NOTIFY else PC_MSG_REQUEST) in
          if route_code > 0 then pc_msg_encode_code malloc junk reqId type route_code body_buf
          else pc_msg_encode_route malloc junk reqId type route body_buf))"

section \<open>The dictionary resolves its routes\<close>

text \<open>A dictionary whose routes are UTF-8, whose codes fit in sixteen bits and differ in their low
  eight bits.\<close>

definition dict_ok :: "(string \<times> json) list \<Rightarrow> bool" where
  "dict_ok kvs \<longleftrightarrow> distinct (map fst kvs) \<and> (\<forall>kv \<in> set kvs. utf8_check_string (fst kv)) \<and>
     (\<forall>kv \<in> set kvs. \<exists>c. snd kv = JInteger (int c) \<and> 0 < c \<and> c < 2 ^ 16) \<and>
     distinct (map (code_str \<circ> snd) kvs)"

lemma nat_and_0xff: "(c :: nat) AND 0xff = c mod 256"
  using take_bit_eq_mask [of 8 c] by (simp add: take_bit_eq_mod mask_eq_exp_minus_1)

lemma int_of_json_int_small: "c < 2 ^ 31 \<Longrightarrow> int_of_json_int (int c) = int c"
  by (simp add: int_of_json_int_def signed_of_nat signed_take_bit_int_eq_self)

lemma code_str_eq: "c < 2 ^ 31 \<Longrightarrow> code_str (JInteger (int c)) = dec_string (c AND 0xff)"
proof -
  assume "c < 2 ^ 31"
  moreover have "nat (int c AND 255) = c AND 255"
    using of_nat_and_eq [where 'a = int, of c 255] by (metis nat_int of_nat_numeral)
  ultimately show ?thesis by (simp add: code_str_def int_of_json_int_small)
qed

lemma dict_loop_get:
  assumes "distinct (map (code_str \<circ> snd) kvs)" "\<forall>kv \<in> set kvs. utf8_check_string (fst kv)"
    and "\<forall>kv \<in> set kvs. utf8_check_string (code_str (snd kv))"
  shows "json_object_get (Some (dict_loop kvs (JObject tab))) key =
    (case find (\<lambda>kv. code_str (snd kv) = key) kvs of
       Some kv \<Rightarrow> Some (JString (fst kv)) | None \<Rightarrow> map_of tab key)"
  using assms
proof (induction kvs arbitrary: tab)
  case (Cons kv kvs)
  obtain r v where kv: "kv = (r, v)" by (cases kv)
  have step: "json_object_set (JObject tab) (Some (code_str v)) (json_string r) =
      JObject (AList.update (code_str v) (JString r) tab)"
    using Cons.prems by (simp add: kv json_object_set_def json_object_set_new_def json_string_def)
  have "find (\<lambda>kv. code_str (snd kv) = code_str v) kvs = None"
    using Cons.prems(1) by (auto simp: kv find_None_iff image_iff)
  then show ?case
    using Cons.IH [of "AList.update (code_str v) (JString r) tab"] Cons.prems
    by (auto simp: kv step update_conv' split: option.splits)
qed simp

lemma dec_string_ascii: "\<forall>c \<in> set (dec_string n). (of_char c :: nat) < 128"
  by (induction n rule: dec_string.induct) (subst dec_string.simps, auto simp: of_char_of)

text \<open>Every route of the dictionary is found under its code.\<close>

lemma resolve_code_table:
  assumes ok: "dict_ok kvs" and kv: "(route, JInteger (int c)) \<in> set kvs"
    and tab: "code_to_route client = Some (code_table (JObject kvs))"
  shows "pc__resolve_dictionary client c = Some route"
proof -
  have c: "c < 2 ^ 16" using ok kv by (force simp: dict_ok_def)
  have key: "code_str (JInteger (int c)) = dec_string (c AND 0xff)" using code_str_eq [of c] c by simp
  have d: "distinct (map (code_str \<circ> snd) kvs)" using ok by (simp add: dict_ok_def)
  have "\<forall>kv \<in> set kvs. utf8_check_string (code_str (snd kv))"
    by (simp add: code_str_def utf8_ascii dec_string_ascii)
  then have get: "json_object_get (Some (code_table (JObject kvs))) key =
      (case find (\<lambda>kv. code_str (snd kv) = key) kvs of Some kv \<Rightarrow> Some (JString (fst kv)) | None \<Rightarrow> None)" for key
    using dict_loop_get [OF d, of "[]" key] ok
    by (simp add: code_table_def json_object_def dict_ok_def split: option.splits)
  have "find (\<lambda>kv. code_str (snd kv) = dec_string (c AND 0xff)) kvs = Some (route, JInteger (int c))"
  proof (cases "find (\<lambda>kv. code_str (snd kv) = dec_string (c AND 0xff)) kvs")
    case None
    then show ?thesis using kv key by (force simp: find_None_iff)
  next
    case (Some kv')
    then have "kv' \<in> set kvs" "code_str (snd kv') = code_str (JInteger (int c))"
      by (auto simp: find_Some_iff key)
    then have "kv' = (route, JInteger (int c))"
      using d kv by (force simp: distinct_map inj_on_def)
    then show ?thesis using Some by simp
  qed
  then show ?thesis by (simp add: pc__resolve_dictionary_def tab get)
qed

text \<open>The receiver has the routes of the sender, if there are any.\<close>

definition same_dictionary :: "'a pc_codec_scheme \<Rightarrow> 'b pc_codec_scheme \<Rightarrow> bool" where
  "same_dictionary client peer \<longleftrightarrow> route_to_code client = None \<or>
     (\<exists>kvs. dict_ok kvs \<and> route_to_code client = Some (JObject kvs) \<and> code_to_route peer = Some (code_table (JObject kvs)))"

section \<open>Bodies survive\<close>

definition json_text :: "dumps \<Rightarrow> loadb \<Rightarrow> json \<Rightarrow> bool" where
  "json_text dumps loadb v \<longleftrightarrow> (\<forall>s. dumps v = Some s \<longrightarrow> s \<noteq> [] \<and> loadb (str_bytes s) = Some v)"

text \<open>A message \<open>v\<close> printed as \<open>s\<close> that can be sent under a route: any value if no protobuf
  definition belongs to the route, and otherwise a well-typed object whose encoding is not empty and
  not longer than twice its text.\<close>

definition sendable :: "malloc \<Rightarrow> json option \<Rightarrow> string \<Rightarrow> json \<Rightarrow> string \<Rightarrow> bool" where
  "sendable malloc protos route v s \<longleftrightarrow> length s < 2 ^ 31 \<and>
     (case json_object_get protos route of
        None \<Rightarrow> True
      | Some pb_def \<Rightarrow> (\<exists>kvs bs. v = JObject kvs \<and> wt_fields malloc protos pb_def kvs \<and>
          ref_fields malloc protos pb_def kvs = Some (Ok bs) \<and> bs \<noteq> [] \<and> length bs \<le> 2 * length s))"

lemma pb_body_roundtrip:
  assumes M: "\<forall>k. malloc k" and "dumps (JObject kvs) = Some s" "length s < 2 ^ 31"
    and "wt_fields malloc protos pb_def kvs" "ref_fields malloc protos pb_def kvs = Some (Ok bs)"
    and "length bs \<le> 2 * length s"
  shows "pc__pb_encode malloc junk dumps (Some (JObject kvs)) protos pb_def = Some (Ok bs)"
    and "pc__pb_decode malloc bs 0 (length bs) protos pb_def = Some (Ok (JObject kvs))"
proof -
  let ?n = "length s * PC_PB_EVAL_FACTOR"
  have n: "length bs \<le> ?n" "?n < 2 ^ 32" using assms(3,6) by (simp_all add: PC_PB_EVAL_FACTOR_def)
  have dec: "\<exists>out. pc_pb_encode malloc buf k protos pb_def (JObject kvs) = Some (Ok (out, length bs)) \<and>
      pc_pb_decode malloc out 0 (length bs) protos pb_def json_object = Some (Ok (JObject kvs))"
    if "length bs \<le> k" "k = length buf" "k < 2 ^ 32" for buf k
    by (rule pb_encode_decode) (use assms n that in auto)
  have "pc_pb_encode malloc (map junk [0..<?n]) ?n protos pb_def (JObject kvs) =
      Some (Ok (bs @ drop (length bs) (map junk [0..<?n]), length bs))"
    using pb_encode_buffer [of malloc protos pb_def "JObject kvs" bs ?n "map junk [0..<?n]"] assms(5) n by simp
  then show "pc__pb_encode malloc junk dumps (Some (JObject kvs)) protos pb_def = Some (Ok bs)"
    using assms(2) M by (simp add: pc__pb_encode_def pc__json_encode_def Let_def)
  have "pc_pb_encode malloc bs (length bs) protos pb_def (JObject kvs) = Some (Ok (bs, length bs))"
    using pb_encode_buffer [of malloc protos pb_def "JObject kvs" bs "length bs" bs] assms(5) n by simp
  then show "pc__pb_decode malloc bs 0 (length bs) protos pb_def = Some (Ok (JObject kvs))"
    using dec [of "length bs" bs] n by (simp add: pc__pb_decode_def)
qed

definition encode_body :: "malloc \<Rightarrow> (nat \<Rightarrow> byte) \<Rightarrow> dumps \<Rightarrow> json option \<Rightarrow> string \<Rightarrow> json \<Rightarrow> byte list cret option" where
  "encode_body malloc junk dumps protos route v =
     (case json_object_get protos route of
        Some pb_def \<Rightarrow> pc__pb_encode malloc junk dumps (Some v) protos pb_def
      | None \<Rightarrow> Some (pc__json_encode dumps (Some v)))"

definition decode_body :: "malloc \<Rightarrow> loadb \<Rightarrow> json option \<Rightarrow> string \<Rightarrow> byte list \<Rightarrow> json cret option" where
  "decode_body malloc loadb protos route body =
     (case json_object_get protos route of
        Some pb_def \<Rightarrow> pc__pb_decode malloc body 0 (length body) protos pb_def
      | None \<Rightarrow> pc__json_decode loadb body 0 (length body))"

lemma body_roundtrip:
  assumes "\<forall>k. malloc k" "json_text dumps loadb v" "dumps v = Some s" "sendable malloc protos route v s"
  obtains body where "encode_body malloc junk dumps protos route v = Some (Ok body)"
    "decode_body malloc loadb protos route body = Some (Ok v)" "body \<noteq> []" "length body < 2 ^ 32"
proof (cases "json_object_get protos route")
  case None
  let ?b = "str_bytes s"
  have "s \<noteq> []" "loadb ?b = Some v" using assms(2,3) by (auto simp: json_text_def)
  moreover have "length s < 2 ^ 31" using assms(4) by (simp add: sendable_def)
  ultimately have "pc__json_decode loadb ?b 0 (length ?b) = Some (Ok v)"
    by (simp add: pc__json_decode_def size_sub_le mem_read_def)
  then have "decode_body malloc loadb protos route ?b = Some (Ok v)"
    using None by (simp add: decode_body_def)
  moreover have "encode_body malloc junk dumps protos route v = Some (Ok ?b)"
    using None assms(3) by (simp add: encode_body_def pc__json_encode_def)
  moreover have "?b \<noteq> []" using \<open>s \<noteq> []\<close> by (simp add: str_bytes_def)
  ultimately show ?thesis using that [of ?b] \<open>length s < 2 ^ 31\<close> by simp
next
  case (Some pb_def)
  then obtain kvs bs where v: "v = JObject kvs" "wt_fields malloc protos pb_def kvs"
    "ref_fields malloc protos pb_def kvs = Some (Ok bs)" "bs \<noteq> []" "length bs \<le> 2 * length s" "length s < 2 ^ 31"
    using assms(4) by (auto simp: sendable_def)
  then show ?thesis
    using that [of bs] Some pb_body_roundtrip [OF assms(1) _ v(6,2,3,5)] assms(3)
    by (simp add: encode_body_def decode_body_def)
qed

text \<open>The callbacks in terms of the body and of the route.\<close>

lemma parse_cb_routed:
  assumes "\<forall>k. malloc k" "pc_msg_decode sc malloc data len = Some (Ok raw)" "PC_MSG_HAS_ROUTE (raw_type raw)"
    and "parse_route malloc client (raw_route raw) = Some (Ok route)" "raw_body raw \<noteq> []"
    and "decode_body malloc loadb (server_protos client) route (raw_body raw) = Some (Ok v)"
  shows "pc__default_msg_parse_cb sc malloc loadb client pending data len =
    Some (Ok \<lparr>msg_id = raw_id raw, msg_route = Some route, msg_msg = Some v\<rparr>)"
  using assms by (simp add: pc__default_msg_parse_cb_def decode_body_def Let_def)

lemma encode_cb_body:
  "encode_body malloc junk dumps (client_protos client) route v = Some (Ok body) \<Longrightarrow>
   pc__default_msg_encode_cb malloc junk dumps client n route (Some v) =
     (let code = (case json_object_get (route_to_code client) route of
                    None \<Rightarrow> 0 | Some c \<Rightarrow> int_of_json_int (json_integer_value (Some c)));
          type = (if n = 0 then PC_MSG_NOTIFY else PC_MSG_REQUEST)
      in if code > 0 then pc_msg_encode_code malloc junk n type code body
         else pc_msg_encode_route malloc junk n type route body)"
  by (simp add: pc__default_msg_encode_cb_def encode_body_def Let_def)

section \<open>Messages survive\<close>

text \<open>The round trip through both callbacks, for every printer and parser of JSON that keep the message.\<close>

lemma codec_roundtrip_text:
  assumes M: "\<forall>k. malloc k" and jt: "json_text dumps loadb v" and n: "n < 2 ^ 31"
    and route: "route \<noteq> []" "c_string route" "length route < route_limit sc"
    and dict: "same_dictionary client peer"
    and protos: "server_protos peer = client_protos client"
    and v: "dumps v = Some s" "sendable malloc (client_protos client) route v s"
  shows "\<exists>bs. pc__default_msg_encode_cb malloc junk dumps client n route (Some v) = Some (Ok bs) \<and>
    pc__default_msg_parse_cb sc malloc loadb peer pending bs (length bs) =
      Some (Ok \<lparr>msg_id = n, msg_route = Some route, msg_msg = Some v\<rparr>)"
proof -
  let ?type = "if n = 0 then PC_MSG_NOTIFY else PC_MSG_REQUEST"
  have type: "PC_MSG_HAS_ROUTE ?type" "(if PC_MSG_HAS_ID ?type then n else 0) = n"
    by (simp_all add: PC_MSG_HAS_ROUTE_def PC_MSG_HAS_ID_def)
  obtain body where body: "encode_body malloc junk dumps (client_protos client) route v = Some (Ok body)"
      "decode_body malloc loadb (server_protos peer) route body = Some (Ok v)" "body \<noteq> []" "length body < 2 ^ 32"
    using body_roundtrip [OF M jt v] protos by metis
  have MM: "malloc k" for k using M by simp
  note parse = parse_cb_routed [OF M, where client = peer and route = route and v = v and loadb = loadb]
  show ?thesis
  proof (cases "json_object_get (route_to_code client) route")
    case None
    with route_encode_decode [where M = malloc and junk = junk, OF MM type(1) n route body(4)] type obtain bs where
      bs: "pc_msg_encode_route malloc junk n ?type route body = Some (Ok bs)"
      "pc_msg_decode sc malloc bs (length bs) = Some (Ok \<lparr>raw_id = n, raw_type = ?type,
         raw_compressRoute = False, raw_route = Route_str (Some route), raw_body = body\<rparr>)" by auto
    moreover have "parse_route malloc peer (Route_str (Some route)) = Some (Ok route)"
      by (simp add: parse_route_def MM)
    ultimately show ?thesis
      using parse [OF bs(2)] type body None by (simp add: encode_cb_body)
  next
    case (Some c)
    then obtain kvs where dict: "dict_ok kvs" "route_to_code client = Some (JObject kvs)"
      "code_to_route peer = Some (code_table (JObject kvs))" using dict by (auto simp: same_dictionary_def)
    then have kv: "(route, c) \<in> set kvs" using Some by (auto dest: map_of_SomeD)
    then obtain k where k: "c = JInteger (int k)" "0 < k" "k < 2 ^ 16"
      using dict(1) by (force simp: dict_ok_def)
    have code: "int_of_json_int (int k) = int k" using int_of_json_int_small [of k] k by simp
    have res: "pc__resolve_dictionary peer k = Some route"
      using resolve_code_table [OF dict(1) _ dict(3)] kv k by simp
    from code_encode_decode [where M = malloc and code = "int k" and msg = body and sc = sc and junk = junk, OF MM type(1) n] k body(4) type obtain bs where
      bs: "pc_msg_encode_code malloc junk n ?type (int k) body = Some (Ok bs)"
      "pc_msg_decode sc malloc bs (length bs) = Some (Ok \<lparr>raw_id = n, raw_type = ?type,
         raw_compressRoute = True, raw_route = Route_code k, raw_body = body\<rparr>)" by auto
    moreover have "parse_route malloc peer (Route_code k) = Some (Ok route)"
      by (simp add: parse_route_def MM res)
    ultimately show ?thesis
      using parse [OF bs(2)] type body Some k dict(2) code by (simp add: encode_cb_body)
  qed
qed

section \<open>Properties\<close>

text \<open>A sample: a dictionary with one route, and a protobuf definition for it.\<close>

definition sample_codec :: pc_codec where
  "sample_codec = \<lparr>route_to_code = Some (JObject [(''chat.send'', JInteger 513)]),
     code_to_route = Some (code_table (JObject [(''chat.send'', JInteger 513)])),
     server_protos = Some (JObject [(''chat.send'', demo_protos)]),
     client_protos = Some (JObject [(''chat.send'', demo_protos)])\<rparr>"

lemma str_bytes_eq [simp]: "str_bytes s = str_bytes t \<longleftrightarrow> s = t"
proof -
  have "inj byte_of_char" by (metis injI char_of_byte_of_char)
  then show ?thesis by (simp add: str_bytes_def inj_map_eq_map)
qed

lemma sample_dict: "dict_ok [(''chat.send'', JInteger 513)]"
  by (auto simp: dict_ok_def utf8_ascii intro!: exI [of _ 513])

text \<open>The size estimate of \<open>pc__pb_encode\<close> can be too small, and the error is lost: when the
  protobuf form of a message is longer than twice its JSON text, \<open>pc_pb_encode\<close> fails, but the
  callback reports success and sends the message with an empty body.\<close>

theorem pb_estimate_too_small:
  assumes "\<forall>k. malloc k" "json_object_get (client_protos client) route = Some pb_def"
    and "dumps v = Some s" "length s < 2 ^ 31"
    and "ref_fields malloc (client_protos client) pb_def (json_object_pairs v) = Some (Ok bs)"
    and "2 * length s < length bs" "length bs < 2 ^ 63"
    and "json_object_get (route_to_code client) route = None"
  shows "pc__default_msg_encode_cb malloc junk dumps client n route (Some v) =
    pc_msg_encode_route malloc junk n (if n = 0 then PC_MSG_NOTIFY else PC_MSG_REQUEST) route []"
proof -
  let ?n = "length s * PC_PB_EVAL_FACTOR"
  have "pc_pb_encode malloc (map junk [0..<?n]) ?n (client_protos client) pb_def v = Some Fail"
    using pb_encode_buffer [OF assms(5), of ?n "map junk [0..<?n]"] assms(4,6,7)
    by (simp add: PC_PB_EVAL_FACTOR_def)
  then have "pc__pb_encode malloc junk dumps (Some v) (client_protos client) pb_def = Some (Ok [])"
    using assms(1,3) by (simp add: pc__pb_encode_def pc__json_encode_def Let_def)
  then show ?thesis using assms(2,8) by (simp add: encode_cb_body encode_body_def)
qed

definition doubles_protos :: json where
  "doubles_protos = JObject [(''r'', JObject [(''a'', demo_field ''repeated'' ''double'' 1)])]"

definition doubles_msg :: json where
  "doubles_msg = JObject [(''a'', JArray (replicate 8 (JInteger 1)))]"

definition doubles_text :: string where
  "doubles_text = ''{\"a\":[1,1,1,1,1,1,1,1]}''"

lemma doubles_items:
  "ref_items malloc gp protos (demo_field ''repeated'' ''double'' 1) False (replicate n (JInteger 1)) =
     Some (Ok (concat (replicate n (le_bytes 8 (unat (double_of_int 1))))))"
  by (induction n) (simp_all add: cappend_def ref_proto.simps demo_get pb__get_type_def ref_scalar_def pb_type_defs)

theorem pb_estimate_too_small_witness:
  "pc__default_msg_encode_cb (\<lambda>_. True) (\<lambda>_. 0) (\<lambda>_. Some doubles_text)
     \<lparr>route_to_code = None, code_to_route = None, server_protos = None, client_protos = Some doubles_protos\<rparr>
     0 ''r'' (Some doubles_msg) =
   pc_msg_encode_route (\<lambda>_. True) (\<lambda>_. 0) 0 PC_MSG_NOTIFY ''r'' []"
proof -
  let ?bs = "[9, 8] @ concat (replicate 8 (le_bytes 8 (unat (double_of_int 1))))"
  have "ref_fields (\<lambda>_. True) gp (JObject [(''a'', demo_field ''repeated'' ''double'' 1)])
      (json_object_pairs doubles_msg) = Some (Ok ?bs)" for gp
    by (simp add: doubles_msg_def ref_fields_Cons ref_field_def ref_array_def demo_get demo_tag cappend_def doubles_items
        json_array_size_def pb__get_type_def pb__get_constant_type_def varint.simps pb_type_defs
        del: ref_fields.simps(2))
  moreover have "length ?bs = 66" by (simp add: length_concat sum_list_replicate)
  ultimately show ?thesis
    using pb_estimate_too_small [where malloc = "\<lambda>_. True" and v = doubles_msg and s = doubles_text and bs = ?bs and route = "''r''"
      and dumps = "\<lambda>_. Some doubles_text" and n = 0 and junk = "\<lambda>_. 0" and
      client = "\<lparr>route_to_code = None, code_to_route = None, server_protos = None, client_protos = Some doubles_protos\<rparr>"]
    by (simp add: doubles_protos_def doubles_text_def)
qed

text \<open>Codes that agree in their low eight bits collide, although sixteen bits travel on the wire:
  a message that carries the code of the first route is delivered under the second one.\<close>

theorem dictionary_collision:
  assumes "0 < c" "c + 256 < 2 ^ 16" "utf8_check_string r1" "utf8_check_string r2"
    and "code_to_route client = Some (code_table (JObject [(r1, JInteger (int c)), (r2, JInteger (int (c + 256)))]))"
  shows "pc__resolve_dictionary client c = Some r2"
proof -
  have "code_str (JInteger (int c)) = dec_string (c AND 0xff)"
    "code_str (JInteger (int (c + 256))) = dec_string (c AND 0xff)"
    using code_str_eq [of c] code_str_eq [of "c + 256"] assms(2) by (simp_all add: nat_and_0xff)
  then show ?thesis
    using assms by (simp add: pc__resolve_dictionary_def code_table_def json_object_def json_object_set_def
        json_object_set_new_def json_string_def utf8_ascii dec_string_ascii)
qed

theorem dictionary_collision_witness:
  "pc__resolve_dictionary \<lparr>route_to_code = None, code_to_route =
     Some (code_table (JObject [(''a'', JInteger 1), (''b'', JInteger 257)])), server_protos = None, client_protos = None\<rparr> 1 = Some ''b''"
  using dictionary_collision [of 1 "''a''" "''b''" "\<lparr>route_to_code = None, code_to_route =
     Some (code_table (JObject [(''a'', JInteger 1), (''b'', JInteger 257)])), server_protos = None, client_protos = None\<rparr>"]
  by (simp add: utf8_ascii)

text \<open>A pushed message with an empty route makes the parse callback take the length of a null
  pointer: the behaviour is undefined, whatever the body is.\<close>

theorem parse_empty_route:
  assumes "\<forall>k. malloc k" "length body < 2 ^ 32"
  shows "pc__default_msg_parse_cb sc malloc loadb client pending (6 # 0 # body) (2 + length body) = None"
proof -
  have "size_sub (Suc (Suc (length body))) (Suc (Suc 0)) = length body"
    using assms(2) by (simp add: size_sub_le)
  then have "pc_msg_decode sc malloc (6 # 0 # body) (2 + length body) =
    Some (Ok \<lparr>raw_id = 0, raw_type = PC_MSG_PUSH, raw_compressRoute = False, raw_route = Route_str None, raw_body = body\<rparr>)"
    using assms
    by (simp add: pc_msg_decode_def decode_route_def mem_get_def PC_MSG_VALIDATE_def PC_MSG_HAS_ID_def
        PC_MSG_HAS_ROUTE_def char_to_size_ascii size_add_small mem_read_def Let_def)
  then show ?thesis
    using assms(1) by (simp add: pc__default_msg_parse_cb_def PC_MSG_HAS_ROUTE_def parse_route_def)
qed

theorem parse_empty_route_witness:
  "pc__default_msg_parse_cb True (\<lambda>_. True) (\<lambda>_. None) sample_codec (\<lambda>_. None) [6, 0, 1] 3 = None"
  using parse_empty_route [of "\<lambda>_. True" "[1]"] by simp

end
