(* ===== verification/Ngx_Queue.thy ===== *)
theory Ngx_Queue
  imports C_Base
begin

text \<open>
  The intrusive circular doubly linked list of \<open>ngx-queue.h\<close>, at the level of its pointers. A
  heap gives every node address its \<open>prev\<close> and \<open>next\<close> field; each macro is a function on
  heaps that performs the macro's assignments in their order. A node is its own address, so
  \<open>ngx_queue_data\<close> (the container of a node) is a lookup at that address.

  \<open>queue h hq xs\<close> says that the nodes \<open>xs\<close> hang, in this order, on the sentinel
  \<open>hq\<close>. The lemmas show what every macro does to it, and that it does nothing to other queues;
  this is what the map and the listeners rely on.
\<close>

section \<open>The macros\<close>

type_synonym addr = nat

record ngx_heap =
  prev :: "addr \<Rightarrow> addr"
  "next" :: "addr \<Rightarrow> addr"

definition set_prev :: "addr \<Rightarrow> addr \<Rightarrow> ngx_heap \<Rightarrow> ngx_heap" where
  "set_prev a b h = h\<lparr>prev := (prev h)(a := b)\<rparr>"

definition set_next :: "addr \<Rightarrow> addr \<Rightarrow> ngx_heap \<Rightarrow> ngx_heap" where
  "set_next a b h = h\<lparr>next := (next h)(a := b)\<rparr>"

definition ngx_queue_init :: "addr \<Rightarrow> ngx_heap \<Rightarrow> ngx_heap" where
  "ngx_queue_init q h = set_next q q (set_prev q q h)"

definition ngx_queue_empty :: "addr \<Rightarrow> ngx_heap \<Rightarrow> bool" where
  "ngx_queue_empty hq h \<longleftrightarrow> hq = prev h hq"

definition ngx_queue_insert_head :: "addr \<Rightarrow> addr \<Rightarrow> ngx_heap \<Rightarrow> ngx_heap" where
  "ngx_queue_insert_head hq x h =
     (let h = set_next x (next h hq) h;
          h = set_prev (next h x) x h;
          h = set_prev x hq h
      in set_next hq x h)"

definition ngx_queue_insert_tail :: "addr \<Rightarrow> addr \<Rightarrow> ngx_heap \<Rightarrow> ngx_heap" where
  "ngx_queue_insert_tail hq x h =
     (let h = set_prev x (prev h hq) h;
          h = set_next (prev h x) x h;
          h = set_next x hq h
      in set_prev hq x h)"

definition ngx_queue_head :: "addr \<Rightarrow> ngx_heap \<Rightarrow> addr" where
  "ngx_queue_head hq h = next h hq"

definition ngx_queue_last :: "addr \<Rightarrow> ngx_heap \<Rightarrow> addr" where
  "ngx_queue_last hq h = prev h hq"

definition ngx_queue_next :: "addr \<Rightarrow> ngx_heap \<Rightarrow> addr" where
  "ngx_queue_next q h = next h q"

definition ngx_queue_prev :: "addr \<Rightarrow> ngx_heap \<Rightarrow> addr" where
  "ngx_queue_prev q h = prev h q"

text \<open>The variant without \<open>NGX_DEBUG\<close>, which the build does not define.\<close>

definition ngx_queue_remove :: "addr \<Rightarrow> ngx_heap \<Rightarrow> ngx_heap" where
  "ngx_queue_remove x h =
     (let h = set_prev (next h x) (prev h x) h
      in set_next (prev h x) (next h x) h)"

definition ngx_queue_split :: "addr \<Rightarrow> addr \<Rightarrow> addr \<Rightarrow> ngx_heap \<Rightarrow> ngx_heap" where
  "ngx_queue_split hq q n h =
     (let h = set_prev n (prev h hq) h;
          h = set_next (prev h n) n h;
          h = set_next n q h;
          h = set_prev hq (prev h q) h;
          h = set_next (prev h hq) hq h
      in set_prev q n h)"

definition ngx_queue_add :: "addr \<Rightarrow> addr \<Rightarrow> ngx_heap \<Rightarrow> ngx_heap" where
  "ngx_queue_add hq n h =
     (let h = set_next (prev h hq) (next h n) h;
          h = set_prev (next h n) (prev h hq) h;
          h = set_prev hq (prev h n) h
      in set_next (prev h hq) hq h)"

text \<open>The condition of the loop \<open>ngx_queue_foreach(q, hq)\<close>.\<close>

definition ngx_queue_foreach_cond :: "addr \<Rightarrow> addr \<Rightarrow> ngx_heap \<Rightarrow> bool" where
  "ngx_queue_foreach_cond q hq h \<longleftrightarrow> q \<noteq> hq \<and> \<not> ngx_queue_empty hq h"

section \<open>Paths and queues\<close>

fun path :: "(addr \<Rightarrow> addr) \<Rightarrow> addr \<Rightarrow> addr list \<Rightarrow> addr \<Rightarrow> bool" where
  "path f a [] b \<longleftrightarrow> f a = b"
| "path f a (x # xs) b \<longleftrightarrow> f a = x \<and> path f x xs b"

definition queue :: "ngx_heap \<Rightarrow> addr \<Rightarrow> addr list \<Rightarrow> bool" where
  "queue h hq xs \<longleftrightarrow> distinct (hq # xs) \<and> path (next h) hq xs hq \<and> path (prev h) hq (rev xs) hq"

lemmas ngx_defs = ngx_queue_init_def ngx_queue_insert_head_def ngx_queue_insert_tail_def
  ngx_queue_remove_def ngx_queue_split_def ngx_queue_add_def set_prev_def set_next_def Let_def

lemmas upd_simps = fun_upd_same fun_upd_other

lemma path_append: "path f a (xs @ y # ys) b \<longleftrightarrow> path f a xs y \<and> path f y ys b"
  by (induction xs arbitrary: a) auto

lemma path_upd_other: "x \<notin> set (a # xs) \<Longrightarrow> path (f(x := y)) a xs b = path f a xs b"
  by (induction xs arbitrary: a) auto

text \<open>Changing where the last node of a path points.\<close>

lemma path_redirect: "path f a xs b \<Longrightarrow> distinct (a # xs) \<Longrightarrow> path (f(last (a # xs) := c)) a xs c"
proof (induction xs arbitrary: a)
  case Nil
  then show ?case by simp
next
  case (Cons x xs)
  have "path (f(last (x # xs) := c)) x xs c" by (rule Cons.IH) (use Cons.prems in auto)
  moreover have "last (x # xs) \<noteq> a" using Cons.prems(2) last_in_set [of "x # xs"] by auto
  ultimately show ?case using Cons.prems by (auto simp: upd_simps simp del: fun_upd_apply)
qed

lemma path_cong: "(\<And>x. x \<in> set (a # xs) \<Longrightarrow> f x = g x) \<Longrightarrow> path f a xs b = path g a xs b"
  by (induction xs arbitrary: a) auto

lemma path_last: "path f a xs b \<Longrightarrow> f (last (a # xs)) = b"
  by (induction xs arbitrary: a) auto

lemma queue_next_hd: "queue h hq xs \<Longrightarrow> next h hq = (case xs of [] \<Rightarrow> hq | x # _ \<Rightarrow> x)"
  by (cases xs) (auto simp: queue_def)

lemma queue_prev_hd: "queue h hq xs \<Longrightarrow> prev h hq = last (hq # xs)"
  by (cases xs rule: rev_cases) (auto simp: queue_def)

lemma queue_next_in: "queue h hq (xs @ x # ys) \<Longrightarrow> next h x = (case ys of [] \<Rightarrow> hq | y # _ \<Rightarrow> y)"
  by (cases ys) (auto simp: queue_def path_append)

lemma queue_frame:
  assumes "\<And>x. x \<in> set (hq # xs) \<Longrightarrow> prev h' x = prev h x \<and> next h' x = next h x"
  shows "queue h' hq xs \<longleftrightarrow> queue h hq xs"
proof -
  have "path (next h') hq xs hq = path (next h) hq xs hq"
    using assms by (intro path_cong) auto
  moreover have "path (prev h') hq (rev xs) hq = path (prev h) hq (rev xs) hq"
    using assms by (intro path_cong) auto
  ultimately show ?thesis by (simp add: queue_def)
qed


lemma path_drop:
  "path f a (xs @ x # ys) b \<Longrightarrow> distinct (a # xs @ x # ys) \<Longrightarrow>
   path (f(last (a # xs) := hd (ys @ [b]))) a (xs @ ys) b"
proof (induction xs arbitrary: a)
  case Nil
  then show ?case by (cases ys; simp add: path_upd_other upd_simps del: fun_upd_apply)
next
  case (Cons y xs)
  have "path (f(last (y # xs) := hd (ys @ [b]))) y (xs @ ys) b"
    by (rule Cons.IH) (use Cons.prems in auto)
  moreover have "last (y # xs) \<noteq> a" using Cons.prems(2) last_in_set [of "y # xs"] by auto
  ultimately show ?case using Cons.prems by (auto simp: upd_simps simp del: fun_upd_apply)
qed

lemma path_insert:
  "path f a (xs @ ys) b \<Longrightarrow> distinct (a # xs @ ys) \<Longrightarrow> x \<notin> set (a # xs @ ys) \<Longrightarrow>
   path (f(last (a # xs) := x, x := hd (ys @ [b]))) a (xs @ x # ys) b"
proof (induction xs arbitrary: a)
  case Nil
  then show ?case by (cases ys; simp add: path_upd_other upd_simps del: fun_upd_apply)
next
  case (Cons y xs)
  have "path (f(last (y # xs) := x, x := hd (ys @ [b]))) y (xs @ x # ys) b"
    by (rule Cons.IH) (use Cons.prems in auto)
  moreover have "last (y # xs) \<noteq> a" using Cons.prems(2) last_in_set [of "y # xs"] by auto
  ultimately show ?case using Cons.prems by (auto simp: upd_simps simp del: fun_upd_apply)
qed

section \<open>What the macros do to a queue\<close>

lemma queue_neighbours:
  assumes "queue h hq (xs @ x # ys)"
  shows "prev h x = last (hq # xs)" "next h x = hd (ys @ [hq])"
  using assms by (cases xs rule: rev_cases; cases ys; auto simp: queue_def path_append)+

lemma queue_init: "queue (ngx_queue_init q h) q []"
  by (simp add: ngx_defs queue_def)

lemma queue_empty_iff: "queue h hq xs \<Longrightarrow> ngx_queue_empty hq h \<longleftrightarrow> xs = []"
  using queue_prev_hd [of h hq xs] last_in_set [of xs]
  by (auto simp: ngx_queue_empty_def queue_def)

lemma queue_insert_tail:
  assumes "queue h hq xs" "x \<notin> set (hq # xs)"
  shows "queue (ngx_queue_insert_tail hq x h) hq (xs @ [x])"
proof -
  let ?h = "ngx_queue_insert_tail hq x h"
  have "next ?h = (next h)(last (hq # xs) := x, x := hd ([] @ [hq]))"
    and "prev ?h = (prev h)(last [hq] := x, x := hd (rev xs @ [hq]))"
    using assms queue_prev_hd [OF assms(1)]
    by (auto simp: ngx_defs fun_eq_iff hd_append hd_rev)
  moreover have "path (next ?h) hq (xs @ x # []) hq"
    unfolding calculation(1) using assms by (intro path_insert) (auto simp: queue_def)
  moreover have "path (prev ?h) hq ([] @ x # rev xs) hq"
    unfolding calculation(2) using assms by (intro path_insert) (auto simp: queue_def)
  ultimately show ?thesis using assms by (auto simp: queue_def)
qed

lemma queue_insert_head:
  assumes "queue h hq xs" "x \<notin> set (hq # xs)"
  shows "queue (ngx_queue_insert_head hq x h) hq (x # xs)"
proof -
  let ?h = "ngx_queue_insert_head hq x h"
  have n: "next h hq = hd (xs @ [hq])" using queue_next_hd [OF assms(1)] by (cases xs) auto
  have "last (hq # rev xs) = hd (xs @ [hq])" by (cases xs) auto
  then have "next ?h = (next h)(last [hq] := x, x := hd (xs @ [hq]))"
    and "prev ?h = (prev h)(last (hq # rev xs) := x, x := hd ([] @ [hq]))"
    using assms n by (auto simp: ngx_defs fun_eq_iff)
  moreover have "path (next ?h) hq ([] @ x # xs) hq"
    unfolding calculation(1) using assms by (intro path_insert) (auto simp: queue_def)
  moreover have "path (prev ?h) hq (rev xs @ x # []) hq"
    unfolding calculation(2) using assms by (intro path_insert) (auto simp: queue_def)
  ultimately show ?thesis using assms by (auto simp: queue_def)
qed

lemma queue_remove:
  assumes "queue h hq (xs @ x # ys)"
  shows "queue (ngx_queue_remove x h) hq (xs @ ys)"
proof -
  let ?h = "ngx_queue_remove x h"
  note nb = queue_neighbours [OF assms]
  have "hd (ys @ [hq]) \<noteq> x" using assms by (cases ys) (auto simp: queue_def)
  moreover have "last (hq # rev ys) = hd (ys @ [hq])" by (cases ys) auto
  moreover have "hd (rev xs @ [hq]) = last (hq # xs)" by (cases xs rule: rev_cases) auto
  ultimately have "next ?h = (next h)(last (hq # xs) := hd (ys @ [hq]))"
    and "prev ?h = (prev h)(last (hq # rev ys) := hd (rev xs @ [hq]))"
    using nb by (auto simp: ngx_defs fun_eq_iff)
  moreover have "path (next ?h) hq (xs @ ys) hq"
    unfolding calculation(1) using assms by (intro path_drop) (auto simp: queue_def)
  moreover have "path (prev ?h) hq (rev ys @ rev xs) hq"
    unfolding calculation(2) using assms by (intro path_drop [where x = x]) (auto simp: queue_def)
  ultimately show ?thesis using assms by (auto simp: queue_def)
qed

text \<open>Nodes that are neither touched nor neighbours keep their pointers, so other queues stay.\<close>

lemma insert_tail_frame:
  assumes "queue h hq xs" "queue h k ys" "set (k # ys) \<inter> set (hq # x # xs) = {}"
  shows "queue (ngx_queue_insert_tail hq x h) k ys"
proof -
  have "queue (ngx_queue_insert_tail hq x h) k ys \<longleftrightarrow> queue h k ys"
  proof (rule queue_frame)
    fix z assume z: "z \<in> set (k # ys)"
    have "last (hq # xs) \<in> set (hq # xs)" by simp
    with z assms(3) have "z \<noteq> hq" "z \<noteq> x" "z \<noteq> last (hq # xs)" by auto
    then show "prev (ngx_queue_insert_tail hq x h) z = prev h z \<and>
      next (ngx_queue_insert_tail hq x h) z = next h z"
      using queue_prev_hd [OF assms(1)] by (auto simp: ngx_defs)
  qed
  then show ?thesis using assms(2) by simp
qed

lemma remove_frame:
  assumes "queue h hq (xs @ x # zs)" "queue h k ys" "set (k # ys) \<inter> set (hq # xs @ x # zs) = {}"
  shows "queue (ngx_queue_remove x h) k ys"
proof -
  note nb = queue_neighbours [OF assms(1)]
  have "queue (ngx_queue_remove x h) k ys \<longleftrightarrow> queue h k ys"
  proof (rule queue_frame)
    fix z assume z: "z \<in> set (k # ys)"
    have "last (hq # xs) \<in> set (hq # xs)" "hd (zs @ [hq]) \<in> set (hq # zs)" by (cases zs; simp)+
    moreover have "hd (zs @ [hq]) \<noteq> x" using assms(1) by (cases zs) (auto simp: queue_def)
    ultimately show "prev (ngx_queue_remove x h) z = prev h z \<and>
      next (ngx_queue_remove x h) z = next h z"
      using z assms(3) nb by (auto simp: ngx_defs)
  qed
  then show ?thesis using assms(2) by simp
qed

lemma init_frame:
  assumes "queue h k ys" "x \<notin> set (k # ys)"
  shows "queue (ngx_queue_init x h) k ys"
proof -
  have "queue (ngx_queue_init x h) k ys \<longleftrightarrow> queue h k ys"
    by (rule queue_frame) (use assms(2) in \<open>auto simp: ngx_defs\<close>)
  then show ?thesis using assms(1) by simp
qed

end
