(* ===== verification/Pc_Map.thy ===== *)
theory Pc_Map
  imports Ngx_Queue
begin

text \<open>
  The hash map of \<open>map.c\<close>, on the pointers of \<open>Ngx_Queue\<close>: an array of sentinels, one
  per bucket, on which the pairs hang. The memory is the queue heap together with the pairs that are
  live; a pair is addressed by its queue node. The loops of the code may run forever on a broken
  list, so they are partial functions: \<open>None\<close> is undefined behaviour or no return.

  \<open>map_ok\<close> relates a map in memory to a finite map from keys to values. The lemmas show that
  lookup, insertion of a new key, deletion and clearing implement the operations on finite maps, that
  insertion replaces a key that is alone in its bucket, and that it never returns when the key shares
  its bucket with another one. A locale states the contract on which the client's tables rely.
\<close>

section \<open>The model of map.c\<close>

definition PC__MAP_DEFAULT_CAPACITY :: nat where
  "PC__MAP_DEFAULT_CAPACITY = 64"

record pc_map =
  capacity :: nat
  buckets :: "addr option"

record 'v pc_mem =
  queues :: ngx_heap
  pairs :: "addr \<Rightarrow> (string \<times> 'v) option"

text \<open>\<open>&map->buckets[i]\<close>; a node has 16 bytes, a pair 32, the map itself 24.\<close>

definition bucket :: "addr \<Rightarrow> nat \<Rightarrow> addr" where
  "bucket base i = base + 16 * i"

definition pc__hash :: "bool \<Rightarrow> string \<Rightarrow> nat" where
  "pc__hash sc str = foldl (\<lambda>hash c. size_add hash (char_to_size sc (byte_of_char c))) 0 str"

primrec init_buckets :: "addr \<Rightarrow> nat \<Rightarrow> ngx_heap \<Rightarrow> ngx_heap" where
  "init_buckets base 0 h = h"
| "init_buckets base (Suc i) h = ngx_queue_init (bucket base i) (init_buckets base i h)"

text \<open>\<open>base\<close> is the address the allocator returns. The index of the loop is an \<open>int\<close>, so a
  larger capacity overflows it.\<close>

definition pc_map_init :: "malloc \<Rightarrow> addr \<Rightarrow> nat \<Rightarrow> 'v pc_mem \<Rightarrow> (pc_map \<times> 'v pc_mem) cret option" where
  "pc_map_init malloc base cap mem =
     (let cap = (if cap < PC__MAP_DEFAULT_CAPACITY then PC__MAP_DEFAULT_CAPACITY else cap)
      in if \<not> malloc (16 * cap mod 2 ^ 64) then Some Fail
         else if cap \<ge> 2 ^ 31 then None
         else Some (Ok (\<lparr>capacity = cap, buckets = Some base\<rparr>,
                        mem\<lparr>queues := init_buckets base cap (queues mem)\<rparr>)))"

definition pc_map_new :: "malloc \<Rightarrow> addr \<Rightarrow> nat \<Rightarrow> 'v pc_mem \<Rightarrow> (pc_map \<times> 'v pc_mem) cret option" where
  "pc_map_new malloc base cap mem =
     (if \<not> malloc 24 then Some Fail else pc_map_init malloc base cap mem)"

text \<open>\<open>&map->buckets[hash % map->capacity]\<close>: undefined once the buckets are freed.\<close>

definition bucket_of :: "bool \<Rightarrow> pc_map \<Rightarrow> string \<Rightarrow> addr option" where
  "bucket_of sc mp key =
     (case buckets mp of
        None \<Rightarrow> None
      | Some base \<Rightarrow> if capacity mp = 0 then None
          else Some (bucket base (pc__hash sc key mod capacity mp)))"

partial_function (option) get_loop ::
  "(addr \<Rightarrow> (string \<times> 'v) option) \<Rightarrow> ngx_heap \<Rightarrow> string \<Rightarrow> addr \<Rightarrow> addr \<Rightarrow> 'v option option" where
  "get_loop ps h key head q =
     (if \<not> ngx_queue_foreach_cond q head h then Some None
      else do {
        pair \<leftarrow> ps q;
        if key = fst pair then Some (Some (snd pair))
        else get_loop ps h key head (ngx_queue_next q h)
      })"

text \<open>The outer option is undefined behaviour, the inner one the null pointer.\<close>

definition pc_map_get :: "bool \<Rightarrow> pc_map \<Rightarrow> string \<Rightarrow> 'v pc_mem \<Rightarrow> 'v option option" where
  "pc_map_get sc mp key mem = do {
     head \<leftarrow> bucket_of sc mp key;
     get_loop (pairs mem) (queues mem) key head (ngx_queue_head head (queues mem))
   }"

text \<open>The loop of \<open>pc_map_set\<close>: it does not leave after it has unlinked the old pair.\<close>

partial_function (option) set_loop ::
  "(addr \<Rightarrow> (string \<times> 'v) option) \<Rightarrow> string \<Rightarrow> addr \<Rightarrow> ngx_heap \<Rightarrow> addr \<Rightarrow> addr option
   \<Rightarrow> (ngx_heap \<times> addr option) option" where
  "set_loop ps key head h q old_pair =
     (if \<not> ngx_queue_foreach_cond q head h then Some (h, old_pair)
      else do {
        pair \<leftarrow> ps q;
        if fst pair = key
        then (let h = ngx_queue_init q (ngx_queue_remove q h)
              in set_loop ps key head h (ngx_queue_next q h) (Some q))
        else set_loop ps key head h (ngx_queue_next q h) None
      })"

text \<open>\<open>pair\<close> is the address the allocator returns for the new pair, \<open>rel\<close> the callback
  \<open>release_value\<close>, which acts on a world of its own.\<close>

definition pc_map_set ::
  "malloc \<Rightarrow> bool \<Rightarrow> (string \<Rightarrow> 'v \<Rightarrow> 'w \<Rightarrow> 'w) \<Rightarrow> addr \<Rightarrow> pc_map \<Rightarrow> string \<Rightarrow> 'v
   \<Rightarrow> 'v pc_mem \<Rightarrow> 'w \<Rightarrow> ('v pc_mem \<times> 'w) cret option" where
  "pc_map_set malloc sc rel pair mp key value mem w =
     (if \<not> malloc 32 \<or> \<not> malloc (length key + 1) then Some Fail
      else do {
        let h = ngx_queue_init pair (queues mem);
        let ps = (pairs mem)(pair \<mapsto> (key, value));
        head \<leftarrow> bucket_of sc mp key;
        (h, old_pair) \<leftarrow> set_loop ps key head h (ngx_queue_head head h) None;
        let h = ngx_queue_insert_tail head pair h;
        case old_pair of
          None \<Rightarrow> Some (Ok (\<lparr>queues = h, pairs = ps\<rparr>, w))
        | Some old \<Rightarrow> do {
            kv \<leftarrow> ps old;
            Some (Ok (\<lparr>queues = h, pairs = ps(old := None)\<rparr>, rel (fst kv) (snd kv) w))
          }
      })"

partial_function (option) del_loop ::
  "string \<Rightarrow> addr \<Rightarrow> 'v pc_mem \<Rightarrow> addr \<Rightarrow> ('v option \<times> 'v pc_mem) option" where
  "del_loop key head mem q =
     (if \<not> ngx_queue_foreach_cond q head (queues mem) then Some (None, mem)
      else do {
        pair \<leftarrow> pairs mem q;
        if key = fst pair
        then Some (Some (snd pair),
               \<lparr>queues = ngx_queue_init q (ngx_queue_remove q (queues mem)),
                pairs = (pairs mem)(q := None)\<rparr>)
        else del_loop key head mem (ngx_queue_next q (queues mem))
      })"

definition pc_map_del :: "bool \<Rightarrow> pc_map \<Rightarrow> string \<Rightarrow> 'v pc_mem \<Rightarrow> ('v option \<times> 'v pc_mem) option" where
  "pc_map_del sc mp key mem = do {
     head \<leftarrow> bucket_of sc mp key;
     del_loop key head mem (ngx_queue_head head (queues mem))
   }"

partial_function (option) clear_bucket ::
  "(string \<Rightarrow> 'v \<Rightarrow> 'w \<Rightarrow> 'w) \<Rightarrow> addr \<Rightarrow> 'v pc_mem \<Rightarrow> 'w \<Rightarrow> ('v pc_mem \<times> 'w) option" where
  "clear_bucket rel head mem w =
     (if ngx_queue_empty head (queues mem) then Some (mem, w)
      else do {
        let q = ngx_queue_next head (queues mem);
        pair \<leftarrow> pairs mem q;
        clear_bucket rel head
          \<lparr>queues = ngx_queue_init q (ngx_queue_remove q (queues mem)),
           pairs = (pairs mem)(q := None)\<rparr>
          (rel (fst pair) (snd pair) w)
      })"

primrec clear_buckets ::
  "(string \<Rightarrow> 'v \<Rightarrow> 'w \<Rightarrow> 'w) \<Rightarrow> addr \<Rightarrow> nat list \<Rightarrow> 'v pc_mem \<Rightarrow> 'w \<Rightarrow> ('v pc_mem \<times> 'w) option" where
  "clear_buckets rel base [] mem w = Some (mem, w)"
| "clear_buckets rel base (i # is) mem w = do {
     (mem, w) \<leftarrow> clear_bucket rel (bucket base i) mem w;
     clear_buckets rel base is mem w
   }"

definition pc_map_clear ::
  "(string \<Rightarrow> 'v \<Rightarrow> 'w \<Rightarrow> 'w) \<Rightarrow> pc_map \<Rightarrow> 'v pc_mem \<Rightarrow> 'w \<Rightarrow> ('v pc_mem \<times> 'w) option" where
  "pc_map_clear rel mp mem w =
     (case buckets mp of
        None \<Rightarrow> Some (mem, w)
      | Some base \<Rightarrow> if capacity mp \<ge> 2 ^ 31 then None
          else clear_buckets rel base [0..<capacity mp] mem w)"

definition pc_map_close ::
  "(string \<Rightarrow> 'v \<Rightarrow> 'w \<Rightarrow> 'w) \<Rightarrow> pc_map \<Rightarrow> 'v pc_mem \<Rightarrow> 'w \<Rightarrow> (pc_map \<times> 'v pc_mem \<times> 'w) option" where
  "pc_map_close rel mp mem w = do {
     (mem, w) \<leftarrow> pc_map_clear rel mp mem w;
     Some (mp\<lparr>buckets := None\<rparr>, mem, w)
   }"

text \<open>\<open>pc_map_destroy\<close> then frees the map itself.\<close>

definition pc_map_destroy ::
  "(string \<Rightarrow> 'v \<Rightarrow> 'w \<Rightarrow> 'w) \<Rightarrow> pc_map \<Rightarrow> 'v pc_mem \<Rightarrow> 'w \<Rightarrow> ('v pc_mem \<times> 'w) option" where
  "pc_map_destroy rel mp mem w = map_option snd (pc_map_close rel mp mem w)"

section \<open>The abstraction\<close>

text \<open>\<open>ns i\<close> lists the pairs of bucket \<open>i\<close>.\<close>

definition layout :: "bool \<Rightarrow> pc_map \<Rightarrow> 'v pc_mem \<Rightarrow> addr \<Rightarrow> (nat \<Rightarrow> addr list) \<Rightarrow> bool" where
  "layout sc mp mem base ns \<longleftrightarrow>
     buckets mp = Some base \<and> 0 < capacity mp \<and> capacity mp < 2 ^ 31 \<and>
     (\<forall>i < capacity mp. queue (queues mem) (bucket base i) (ns i)) \<and>
     (\<forall>i < capacity mp. \<forall>x \<in> set (ns i).
        (\<exists>k v. pairs mem x = Some (k, v) \<and> pc__hash sc k mod capacity mp = i) \<and>
        (\<forall>j < capacity mp. x \<noteq> bucket base j)) \<and>
     (\<forall>i < capacity mp. distinct (List.map (fst \<circ> the \<circ> pairs mem) (ns i)))"

definition bucket_kvs :: "'v pc_mem \<Rightarrow> addr list \<Rightarrow> (string \<times> 'v) list" where
  "bucket_kvs mem xs = List.map (the \<circ> pairs mem) xs"

definition map_abs :: "bool \<Rightarrow> pc_map \<Rightarrow> 'v pc_mem \<Rightarrow> (nat \<Rightarrow> addr list) \<Rightarrow> string \<rightharpoonup> 'v" where
  "map_abs sc mp mem ns k = map_of (bucket_kvs mem (ns (pc__hash sc k mod capacity mp))) k"

definition map_ok :: "bool \<Rightarrow> pc_map \<Rightarrow> 'v pc_mem \<Rightarrow> (string \<rightharpoonup> 'v) \<Rightarrow> bool" where
  "map_ok sc mp mem m \<longleftrightarrow> (\<exists>base ns. layout sc mp mem base ns \<and> m = map_abs sc mp mem ns)"

section \<open>The loops on a well-formed bucket\<close>

lemma foreach_cond_queue:
  "queue h hq (xs @ x # ys) \<Longrightarrow> ngx_queue_foreach_cond x hq h"
  "queue h hq xs \<Longrightarrow> \<not> ngx_queue_foreach_cond hq hq h"
proof -
  assume "queue h hq (xs @ x # ys)"
  moreover from this have "x \<noteq> hq" by (auto simp: queue_def)
  ultimately show "ngx_queue_foreach_cond x hq h"
    using queue_empty_iff by (auto simp: ngx_queue_foreach_cond_def)
qed (simp add: ngx_queue_foreach_cond_def)

lemma get_loop_map_of:
  "queue h hq (xs @ ys) \<Longrightarrow> \<forall>y \<in> set ys. ps y \<noteq> None \<Longrightarrow>
   get_loop ps h key hq (hd (ys @ [hq])) = Some (map_of (List.map (the \<circ> ps) ys) key)"
proof (induction ys arbitrary: xs)
  case Nil
  then show ?case by (simp add: get_loop.simps foreach_cond_queue)
next
  case (Cons y ys)
  obtain k v where "ps y = Some (k, v)" using Cons.prems(2) by auto
  then show ?case
    using Cons.IH [of "xs @ [y]"] Cons.prems queue_neighbours(2) [OF Cons.prems(1)]
    by (auto simp: get_loop.simps [of ps h key hq y] foreach_cond_queue(1) ngx_queue_next_def)
qed

lemma set_loop_new:
  "queue h hq (xs @ ys) \<Longrightarrow> \<forall>y \<in> set ys. \<exists>k v. ps y = Some (k, v) \<and> k \<noteq> key \<Longrightarrow>
   set_loop ps key hq h (hd (ys @ [hq])) None = Some (h, None)"
proof (induction ys arbitrary: xs)
  case Nil
  then show ?case by (simp add: set_loop.simps foreach_cond_queue)
next
  case (Cons y ys)
  then obtain k v where "ps y = Some (k, v)" "k \<noteq> key" by auto
  then show ?case
    using Cons.IH [of "xs @ [y]"] Cons.prems queue_neighbours(2) [OF Cons.prems(1)]
    by (auto simp: set_loop.simps [of ps key hq h y] foreach_cond_queue(1) ngx_queue_next_def)
qed

lemma set_loop_single:
  assumes "queue h hq [y]" "ps y = Some (key, v)"
  shows "set_loop ps key hq h y None = Some (ngx_queue_init y (ngx_queue_remove y h), Some y)"
proof -
  let ?h = "ngx_queue_init y (ngx_queue_remove y h)"
  have "queue (ngx_queue_remove y h) hq []" using queue_remove [of h hq "[]" y "[]"] assms by simp
  then have "queue ?h hq []" using assms(1) by (intro init_frame) (auto simp: queue_def)
  then have "\<not> ngx_queue_foreach_cond (ngx_queue_next y ?h) hq ?h"
    using queue_empty_iff by (auto simp: ngx_queue_foreach_cond_def)
  then show ?thesis
    using assms foreach_cond_queue(1) [of h hq "[]" y "[]"]
    by (simp add: set_loop.simps [of ps key hq h y] set_loop.simps [of ps key hq ?h] Let_def)
qed

text \<open>A node that is linked to itself while the bucket is not empty: the loop visits it forever.\<close>

lemma set_loop_stuck:
  assumes "ps q = Some (key, v)" "next h q = q" "prev h q = q" "q \<noteq> head" "\<not> ngx_queue_empty head h"
  shows "set_loop ps key head h q old = None"
proof (rule ccontr)
  have "ngx_queue_init q (ngx_queue_remove q h) = h"
    using assms(2,3) by (simp add: ngx_defs) (metis fun_upd_triv ngx_heap.surjective ngx_heap.update_convs)
  moreover assume "set_loop ps key head h q old \<noteq> None"
  then obtain r where "set_loop ps key head h q old = Some r" by auto
  from this have "ngx_queue_init q (ngx_queue_remove q h) = h \<Longrightarrow> ps q = Some (key, v) \<Longrightarrow> next h q = q \<Longrightarrow>
    q \<noteq> head \<Longrightarrow> \<not> ngx_queue_empty head h \<Longrightarrow> False"
  proof (induction rule: set_loop.raw_induct [rotated, consumes 1])
    case (1 loop ps key head h q old r)
    have "loop ps key head h q (Some q) = Some r"
      using 1(2-) by (simp add: ngx_queue_foreach_cond_def ngx_queue_next_def Let_def)
    then show ?case using 1(1) 1(3-) by blast
  qed
  ultimately show False using assms by simp
qed

lemma set_loop_shared:
  assumes "queue h hq (xs @ ys @ y # zs)" "xs @ ys @ zs \<noteq> []" "ps y = Some (key, v)"
    "\<forall>y \<in> set ys. \<exists>k v. ps y = Some (k, v) \<and> k \<noteq> key"
  shows "set_loop ps key hq h (hd (ys @ [y])) old = None"
  using assms
proof (induction ys arbitrary: xs old)
  case Nil
  let ?r = "ngx_queue_remove y h"
  let ?h = "ngx_queue_init y ?r"
  have q: "queue h hq (xs @ y # zs)" using Nil by simp
  then have "queue ?r hq (xs @ zs)" by (rule queue_remove)
  then have "queue ?h hq (xs @ zs)" using q by (intro init_frame) (auto simp: queue_def)
  then have "\<not> ngx_queue_empty hq ?h" using Nil(2) queue_empty_iff by auto
  moreover have "y \<noteq> hq" using q by (auto simp: queue_def)
  moreover have "next ?h y = y" "prev ?h y = y" by (simp_all add: ngx_defs)
  ultimately have "set_loop ps key hq ?h y (Some y) = None" using Nil(3) by (intro set_loop_stuck)
  then show ?case
    using Nil foreach_cond_queue(1) [OF q] \<open>next ?h y = y\<close>
    by (simp add: set_loop.simps [of ps key hq h y] Let_def ngx_queue_next_def)
next
  case (Cons x ys)
  then obtain k w where x: "ps x = Some (k, w)" "k \<noteq> key" by auto
  have q: "queue h hq (xs @ x # ys @ y # zs)" using Cons.prems by simp
  have "set_loop ps key hq h (hd (ys @ [y])) None = None"
    using Cons.IH [of "xs @ [x]"] Cons.prems by simp
  moreover have "next h x = hd (ys @ [y])"
    using queue_neighbours(2) [OF q] by (cases ys) auto
  ultimately show ?case
    using x foreach_cond_queue(1) [OF q]
    by (simp add: set_loop.simps [of ps key hq h x] ngx_queue_next_def)
qed

lemma del_loop_absent:
  "queue (queues mem) hq (xs @ ys) \<Longrightarrow> \<forall>y \<in> set ys. \<exists>k v. pairs mem y = Some (k, v) \<and> k \<noteq> key \<Longrightarrow>
   del_loop key hq mem (hd (ys @ [hq])) = Some (None, mem)"
proof (induction ys arbitrary: xs)
  case Nil
  then show ?case by (simp add: del_loop.simps foreach_cond_queue)
next
  case (Cons y ys)
  then obtain k v where "pairs mem y = Some (k, v)" "k \<noteq> key" by auto
  then show ?case
    using Cons.IH [of "xs @ [y]"] Cons.prems queue_neighbours(2) [OF Cons.prems(1)]
    by (auto simp: del_loop.simps [of key hq mem y] foreach_cond_queue(1) ngx_queue_next_def)
qed

lemma del_loop_present:
  "queue (queues mem) hq (xs @ ys @ y # zs) \<Longrightarrow> pairs mem y = Some (key, v) \<Longrightarrow>
   \<forall>y \<in> set ys. \<exists>k v. pairs mem y = Some (k, v) \<and> k \<noteq> key \<Longrightarrow>
   del_loop key hq mem (hd (ys @ [y])) =
     Some (Some v, \<lparr>queues = ngx_queue_init y (ngx_queue_remove y (queues mem)),
                    pairs = (pairs mem)(y := None)\<rparr>)"
proof (induction ys arbitrary: xs)
  case Nil
  then show ?case by (simp add: del_loop.simps [of key hq mem y] foreach_cond_queue(1) fun_upd_def)
next
  case (Cons x ys)
  then obtain k w where x: "pairs mem x = Some (k, w)" "k \<noteq> key" by auto
  have q: "queue (queues mem) hq (xs @ x # ys @ y # zs)" using Cons.prems by simp
  have "next (queues mem) x = hd (ys @ [y])" using queue_neighbours(2) [OF q] by (cases ys) auto
  then show ?case
    using Cons.IH [of "xs @ [x]"] Cons.prems x foreach_cond_queue(1) [OF q]
    by (simp add: del_loop.simps [of key hq mem x] ngx_queue_next_def fun_upd_def)
qed

section \<open>The operations\<close>

definition fresh_pair :: "pc_map \<Rightarrow> 'v pc_mem \<Rightarrow> addr \<Rightarrow> bool" where
  "fresh_pair mp mem a \<longleftrightarrow> pairs mem a = None \<and>
     (\<forall>base. buckets mp = Some base \<longrightarrow> (\<forall>j < capacity mp. a \<noteq> bucket base j))"

text \<open>Whether another key of the map falls into the bucket of \<open>key\<close>.\<close>

definition shares_bucket :: "bool \<Rightarrow> pc_map \<Rightarrow> (string \<rightharpoonup> 'v) \<Rightarrow> string \<Rightarrow> bool" where
  "shares_bucket sc mp m key \<longleftrightarrow> (\<exists>k. k \<noteq> key \<and> m k \<noteq> None \<and>
     pc__hash sc k mod capacity mp = pc__hash sc key mod capacity mp)"

lemma bucket_eq [simp]: "bucket base i = bucket base j \<longleftrightarrow> i = j"
  by (simp add: bucket_def)

lemma layoutD:
  assumes "layout sc mp mem base ns"
  shows "buckets mp = Some base" "0 < capacity mp" "capacity mp < 2 ^ 31"
    "pc__hash sc key mod capacity mp < capacity mp"
    "bucket_of sc mp key = Some (bucket base (pc__hash sc key mod capacity mp))"
    "i < capacity mp \<Longrightarrow> queue (queues mem) (bucket base i) (ns i)"
    "i < capacity mp \<Longrightarrow> x \<in> set (ns i) \<Longrightarrow>
       \<exists>k v. pairs mem x = Some (k, v) \<and> pc__hash sc k mod capacity mp = i"
    "i < capacity mp \<Longrightarrow> j < capacity mp \<Longrightarrow> x \<in> set (ns i) \<Longrightarrow> x \<noteq> bucket base j"
    "i < capacity mp \<Longrightarrow> distinct (List.map (fst \<circ> the \<circ> pairs mem) (ns i))"
  using assms by (auto simp: layout_def bucket_of_def)

lemma layout_disjoint:
  assumes "layout sc mp mem base ns" "i < capacity mp" "j < capacity mp" "i \<noteq> j"
  shows "set (bucket base i # ns i) \<inter> set (bucket base j # ns j) = {}"
proof -
  have "x \<notin> set (ns j)" if "x \<in> set (ns i)" for x
    using layoutD(7) [OF assms(1,2) that] layoutD(7) [OF assms(1,3), of x] assms(4) by auto
  moreover have "bucket base i \<notin> set (ns j)" "bucket base j \<notin> set (ns i)"
    using layoutD(8) [OF assms(1)] assms(2,3) by blast+
  ultimately show ?thesis using assms(4) by auto
qed

lemma fresh_pair_node:
  assumes "layout sc mp mem base ns" "fresh_pair mp mem a" "i < capacity mp"
  shows "a \<notin> set (bucket base i # ns i)"
  using layoutD(1,7) [OF assms(1)] assms(2,3) by (fastforce simp: fresh_pair_def)

lemma layout_update:
  assumes lay: "layout sc mp mem base ns" and i: "i < capacity mp"
    and q: "queue h (bucket base i) xs"
    and oth: "\<forall>j < capacity mp. j \<noteq> i \<longrightarrow> queue h (bucket base j) (ns j) \<and>
      (\<forall>x \<in> set (ns j). ps x = pairs mem x)"
    and new: "\<forall>x \<in> set xs. (\<exists>k v. ps x = Some (k, v) \<and> pc__hash sc k mod capacity mp = i) \<and>
      (\<forall>j < capacity mp. x \<noteq> bucket base j)"
    and dist: "distinct (List.map (fst \<circ> the \<circ> ps) xs)"
  shows "layout sc mp \<lparr>queues = h, pairs = ps\<rparr> base (ns(i := xs))"
    and "map_abs sc mp \<lparr>queues = h, pairs = ps\<rparr> (ns(i := xs)) =
      (\<lambda>k. if pc__hash sc k mod capacity mp = i then map_of (List.map (the \<circ> ps) xs) k
           else map_abs sc mp mem ns k)"
proof -
  let ?m = "\<lparr>queues = h, pairs = ps\<rparr>"
  have others: "queue h (bucket base j) (ns j)" "x \<in> set (ns j) \<Longrightarrow> ps x = pairs mem x"
    if "j < capacity mp" "j \<noteq> i" for j x using oth that by auto
  have eq: "List.map (f \<circ> ps) (ns j) = List.map (f \<circ> pairs mem) (ns j)"
    if "j < capacity mp" "j \<noteq> i" for j and f :: "_ \<Rightarrow> 'd"
    using others(2) that by simp
  have "distinct (List.map (fst \<circ> the \<circ> ps) (ns j))" if "j < capacity mp" "j \<noteq> i" for j
    using layoutD(9) [OF lay that(1)] eq [OF that] by (metis comp_assoc)
  moreover have "(\<exists>k v. ps x = Some (k, v) \<and> pc__hash sc k mod capacity mp = j)"
    if "j < capacity mp" "j \<noteq> i" "x \<in> set (ns j)" for j x
    using layoutD(7) [OF lay that(1,3)] others(2) [OF that] by simp
  ultimately show "layout sc mp ?m base (ns(i := xs))"
    unfolding layout_def
    using layoutD(1,2,3) [OF lay] layoutD(8) [OF lay] q others(1) new dist by simp
  show "map_abs sc mp ?m (ns(i := xs)) =
      (\<lambda>k. if pc__hash sc k mod capacity mp = i then map_of (List.map (the \<circ> ps) xs) k
           else map_abs sc mp mem ns k)"
  proof
    fix k
    show "map_abs sc mp ?m (ns(i := xs)) k =
      (if pc__hash sc k mod capacity mp = i then map_of (List.map (the \<circ> ps) xs) k
       else map_abs sc mp mem ns k)"
      using eq [of "pc__hash sc k mod capacity mp" the] layoutD(4) [OF lay, of k]
      by (simp add: map_abs_def bucket_kvs_def del: map_eq_conv)
  qed
qed

lemma key_absent:
  assumes "layout sc mp mem base ns" "map_abs sc mp mem ns key = None"
    and "x \<in> set (ns (pc__hash sc key mod capacity mp))"
  shows "\<exists>k v. pairs mem x = Some (k, v) \<and> k \<noteq> key"
proof -
  obtain k v where kv: "pairs mem x = Some (k, v)"
    using layoutD(7) [OF assms(1) layoutD(4) [OF assms(1)] assms(3)] by auto
  moreover have "k \<noteq> key"
    using kv assms(2,3) by (force simp: map_abs_def bucket_kvs_def map_of_eq_None_iff)
  ultimately show ?thesis by auto
qed

lemma key_present:
  assumes "layout sc mp mem base ns" "map_abs sc mp mem ns key = Some v"
  obtains xs x ys where "ns (pc__hash sc key mod capacity mp) = xs @ x # ys"
    "pairs mem x = Some (key, v)" "\<forall>y \<in> set (xs @ ys). \<exists>k v. pairs mem y = Some (k, v) \<and> k \<noteq> key"
proof -
  let ?i = "pc__hash sc key mod capacity mp"
  have i: "?i < capacity mp" using layoutD(4) [OF assms(1)] .
  obtain x where x: "x \<in> set (ns ?i)" "the (pairs mem x) = (key, v)"
    using map_of_SomeD [of _ key v] assms(2) by (force simp: map_abs_def bucket_kvs_def)
  then obtain xs ys where ns: "ns ?i = xs @ x # ys" by (auto simp: in_set_conv_decomp)
  have "distinct (List.map (fst \<circ> the \<circ> pairs mem) (xs @ x # ys))"
    using layoutD(9) [OF assms(1) i] ns by simp
  then have neq: "fst (the (pairs mem y)) \<noteq> key" if "y \<in> set (xs @ ys)" for y
    using that x(2) by force
  have "\<exists>k v. pairs mem y = Some (k, v) \<and> k \<noteq> key" if "y \<in> set (xs @ ys)" for y
    using layoutD(7) [OF assms(1) i, of y] ns neq that by force
  moreover have "pairs mem x = Some (key, v)" using layoutD(7) [OF assms(1) i x(1)] x(2) by auto
  ultimately show ?thesis using that ns by blast
qed

lemma map_get_ok: "map_ok sc mp mem m \<Longrightarrow> pc_map_get sc mp key mem = Some (m key)"
proof -
  assume "map_ok sc mp mem m"
  then obtain base ns where lay: "layout sc mp mem base ns" and m: "m = map_abs sc mp mem ns"
    by (auto simp: map_ok_def)
  let ?i = "pc__hash sc key mod capacity mp"
  have q: "queue (queues mem) (bucket base ?i) ([] @ ns ?i)" using layoutD(4,6) [OF lay] by simp
  moreover have "\<forall>y \<in> set (ns ?i). pairs mem y \<noteq> None" using layoutD(4,7) [OF lay] by fastforce
  ultimately have "get_loop (pairs mem) (queues mem) key (bucket base ?i) (hd (ns ?i @ [bucket base ?i])) = Some (m key)"
    unfolding m map_abs_def bucket_kvs_def by (rule get_loop_map_of)
  moreover have "ngx_queue_head (bucket base ?i) (queues mem) = hd (ns ?i @ [bucket base ?i])"
    using queue_next_hd [of "queues mem" _ "ns ?i"] q by (cases "ns ?i") (auto simp: ngx_queue_head_def)
  ultimately show ?thesis by (simp add: pc_map_get_def layoutD(5) [OF lay])
qed

text \<open>Linking a fresh pair and unlinking a pair, as steps on layouts.\<close>

lemma layout_link:
  assumes lay: "layout sc mp mem base ns" and fresh: "fresh_pair mp mem a"
    and absent: "map_abs sc mp mem ns key = None" and i: "i = pc__hash sc key mod capacity mp"
  shows "layout sc mp
      \<lparr>queues = ngx_queue_insert_tail (bucket base i) a (ngx_queue_init a (queues mem)),
       pairs = (pairs mem)(a \<mapsto> (key, v))\<rparr> base (ns(i := ns i @ [a]))"
      (is "layout _ _ \<lparr>queues = ?h, pairs = ?ps\<rparr> _ _")
    and "map_abs sc mp
      \<lparr>queues = ngx_queue_insert_tail (bucket base i) a (ngx_queue_init a (queues mem)),
       pairs = (pairs mem)(a \<mapsto> (key, v))\<rparr> (ns(i := ns i @ [a])) = (map_abs sc mp mem ns)(key \<mapsto> v)"
proof -
  have ic: "i < capacity mp" using layoutD(4) [OF lay] i by simp
  note fr = fresh_pair_node [OF lay fresh]
  let ?hi = "ngx_queue_init a (queues mem)"
  have q0: "queue ?hi (bucket base j) (ns j)" if "j < capacity mp" for j
    using layoutD(6) [OF lay that] fr [OF that] by (rule init_frame)
  have q: "queue ?h (bucket base i) (ns i @ [a])" using q0 [OF ic] fr [OF ic] by (rule queue_insert_tail)
  have oq: "queue ?h (bucket base j) (ns j)" if "j < capacity mp" "j \<noteq> i" for j
    using layout_disjoint [OF lay that(1) ic that(2)] fr [OF that(1)]
    by (intro insert_tail_frame [OF q0 [OF ic] q0 [OF that(1)]]) auto
  have ps: "?ps x = pairs mem x" if "j < capacity mp" "x \<in> set (ns j)" for j x
    using fr [OF that(1)] that(2) by auto
  have mapeq: "List.map (f \<circ> ?ps) (ns i) = List.map (f \<circ> pairs mem) (ns i)" for f :: "_ \<Rightarrow> 'd"
    using ps [OF ic] by simp
  have live: "\<exists>k v. ?ps x = Some (k, v) \<and> pc__hash sc k mod capacity mp = i"
    if "x \<in> set (ns i @ [a])" for x
    using that layoutD(7) [OF lay ic] ps [OF ic] i by fastforce
  have sep: "x \<noteq> bucket base j" if "x \<in> set (ns i @ [a])" "j < capacity mp" for x j
    using that layoutD(8) [OF lay ic that(2)] fr [OF that(2)] by auto
  have nk: "key \<notin> (fst \<circ> the \<circ> pairs mem) ` set (ns i)"
    using key_absent [OF lay absent] i by force
  have oth: "\<forall>j < capacity mp. j \<noteq> i \<longrightarrow> queue ?h (bucket base j) (ns j) \<and>
      (\<forall>x \<in> set (ns j). ?ps x = pairs mem x)" using oq ps by blast
  have new: "\<forall>x \<in> set (ns i @ [a]). (\<exists>k v. ?ps x = Some (k, v) \<and> pc__hash sc k mod capacity mp = i) \<and>
      (\<forall>j < capacity mp. x \<noteq> bucket base j)" using live sep by blast
  have "List.map (fst \<circ> the \<circ> ?ps) (ns i @ [a]) = List.map (fst \<circ> the \<circ> pairs mem) (ns i) @ [key]"
    unfolding map_append mapeq by simp
  then have "distinct (List.map (fst \<circ> the \<circ> ?ps) (ns i @ [a]))"
    using layoutD(9) [OF lay ic] nk by (simp only: distinct_append set_map) simp
  note upd = layout_update [where ps = ?ps, OF lay ic q oth new this]
  show "layout sc mp \<lparr>queues = ?h, pairs = ?ps\<rparr> base (ns(i := ns i @ [a]))" by (rule upd(1))
  have "map_of (List.map (the \<circ> ?ps) (ns i @ [a])) k = ((map_abs sc mp mem ns)(key \<mapsto> v)) k"
    if "pc__hash sc k mod capacity mp = i" for k
  proof -
    have "map_of (List.map (the \<circ> pairs mem) (ns i)) key = None"
      using absent i by (simp add: map_abs_def bucket_kvs_def)
    then show ?thesis
      unfolding map_append mapeq
      using that by (simp add: map_abs_def bucket_kvs_def map_add_def split: option.splits)
  qed
  then show "map_abs sc mp \<lparr>queues = ?h, pairs = ?ps\<rparr> (ns(i := ns i @ [a]))
      = (map_abs sc mp mem ns)(key \<mapsto> v)"
    unfolding upd(2) using i by (intro ext) auto
qed

lemma layout_unlink:
  assumes lay: "layout sc mp mem base ns" and ns: "ns i = xs @ x # ys"
    and x: "pairs mem x = Some (key, v)" and i: "i < capacity mp"
    and others: "\<forall>y \<in> set (xs @ ys). \<exists>k v. pairs mem y = Some (k, v) \<and> k \<noteq> key"
  shows "layout sc mp
      \<lparr>queues = ngx_queue_init x (ngx_queue_remove x (queues mem)), pairs = (pairs mem)(x := None)\<rparr>
      base (ns(i := xs @ ys))" (is "layout _ _ \<lparr>queues = ?h, pairs = ?ps\<rparr> _ _")
    and "map_abs sc mp
      \<lparr>queues = ngx_queue_init x (ngx_queue_remove x (queues mem)), pairs = (pairs mem)(x := None)\<rparr>
      (ns(i := xs @ ys)) = (map_abs sc mp mem ns)(key := None)"
proof -
  have key: "pc__hash sc key mod capacity mp = i" using layoutD(7) [OF lay i, of x] ns x by auto
  note qi = layoutD(6) [OF lay i, unfolded ns]
  have nx: "x \<notin> set (bucket base i # xs @ ys)" using qi by (auto simp: queue_def)
  have onx: "x \<notin> set (bucket base j # ns j)" if "j < capacity mp" "j \<noteq> i" for j
    using layout_disjoint [OF lay that(1) i that(2)] ns by auto
  have q: "queue ?h (bucket base i) (xs @ ys)" using queue_remove [OF qi] nx by (rule init_frame)
  have oq: "queue ?h (bucket base j) (ns j)" if "j < capacity mp" "j \<noteq> i" for j
    using layout_disjoint [OF lay that(1) i that(2)] onx [OF that] layoutD(6) [OF lay that(1)] ns
    by (intro init_frame remove_frame [OF qi]) auto
  have ps: "?ps y = pairs mem y" if "j < capacity mp" "j \<noteq> i" "y \<in> set (ns j)" for j y
    using onx [OF that(1,2)] that(3) by auto
  have mapeq: "List.map (f \<circ> ?ps) (xs @ ys) = List.map (f \<circ> pairs mem) (xs @ ys)" for f :: "_ \<Rightarrow> 'd"
    using nx by auto
  have live: "\<exists>k v. ?ps y = Some (k, v) \<and> pc__hash sc k mod capacity mp = i"
    if "y \<in> set (xs @ ys)" for y
    using that layoutD(7) [OF lay i, of y] nx ns by auto
  have sep: "y \<noteq> bucket base j" if "y \<in> set (xs @ ys)" "j < capacity mp" for y j
    using that layoutD(8) [OF lay i that(2), of y] ns by auto
  have oth: "\<forall>j < capacity mp. j \<noteq> i \<longrightarrow> queue ?h (bucket base j) (ns j) \<and>
      (\<forall>x \<in> set (ns j). ?ps x = pairs mem x)" using oq ps by blast
  have new: "\<forall>x \<in> set (xs @ ys). (\<exists>k v. ?ps x = Some (k, v) \<and> pc__hash sc k mod capacity mp = i) \<and>
      (\<forall>j < capacity mp. x \<noteq> bucket base j)" using live sep by blast
  have "distinct (List.map (fst \<circ> the \<circ> pairs mem) (xs @ ys))"
    using layoutD(9) [OF lay i] ns by auto
  then have "distinct (List.map (fst \<circ> the \<circ> ?ps) (xs @ ys))"
    using mapeq [of "fst \<circ> the"] by (simp only: comp_assoc)
  note upd = layout_update [where ps = ?ps, OF lay i q oth new this]
  show "layout sc mp \<lparr>queues = ?h, pairs = ?ps\<rparr> base (ns(i := xs @ ys))" by (rule upd(1))
  have "map_of (List.map (the \<circ> pairs mem) (xs @ ys)) k = ((map_abs sc mp mem ns)(key := None)) k"
    if "pc__hash sc k mod capacity mp = i" for k
  proof -
    have "map_of (List.map (the \<circ> pairs mem) zs) key = None" if "set zs \<subseteq> set (xs @ ys)" for zs
      using others that by (force simp: map_of_eq_None_iff)
    from this [of xs] this [of ys] show ?thesis
      using that x by (auto simp: map_abs_def bucket_kvs_def ns map_add_def split: option.splits)
  qed
  then show "map_abs sc mp \<lparr>queues = ?h, pairs = ?ps\<rparr> (ns(i := xs @ ys))
      = (map_abs sc mp mem ns)(key := None)"
    unfolding upd(2) mapeq [of the] using key by (intro ext) auto
qed

lemma map_okE:
  assumes "map_ok sc mp mem m"
  obtains base ns where "layout sc mp mem base ns" "m = map_abs sc mp mem ns"
  using assms by (auto simp: map_ok_def)

lemma map_okI: "layout sc mp mem base ns \<Longrightarrow> map_abs sc mp mem ns = m \<Longrightarrow> map_ok sc mp mem m"
  by (auto simp: map_ok_def)

lemma head_of_bucket: "queue h hq xs \<Longrightarrow> ngx_queue_head hq h = hd (xs @ [hq])"
  using queue_next_hd [of h hq xs] by (cases xs) (auto simp: ngx_queue_head_def)

lemma map_set_new:
  assumes "map_ok sc mp mem m" "fresh_pair mp mem a" "m key = None"
    and "malloc 32" "malloc (length key + 1)"
  shows "\<exists>mem'. pc_map_set malloc sc rel a mp key v mem w = Some (Ok (mem', w)) \<and>
    map_ok sc mp mem' (m(key \<mapsto> v)) \<and> pairs mem' = (pairs mem)(a \<mapsto> (key, v))"
proof -
  obtain base ns where lay: "layout sc mp mem base ns" and m: "m = map_abs sc mp mem ns"
    using assms(1) by (rule map_okE)
  let ?i = "pc__hash sc key mod capacity mp"
  let ?h = "ngx_queue_init a (queues mem)" and ?ps = "(pairs mem)(a \<mapsto> (key, v))"
  note i = layoutD(4) [OF lay, of key] and b = layoutD(5) [OF lay, of key]
  note fr = fresh_pair_node [OF lay assms(2) i]
  have q: "queue ?h (bucket base ?i) ([] @ ns ?i)"
    using init_frame [OF layoutD(6) [OF lay i] fr] by simp
  have "\<forall>y \<in> set (ns ?i). \<exists>k v. ?ps y = Some (k, v) \<and> k \<noteq> key"
    using key_absent [OF lay] assms(3) m fr by force
  then have "set_loop ?ps key (bucket base ?i) ?h (ngx_queue_head (bucket base ?i) ?h) None = Some (?h, None)"
    using set_loop_new [OF q] head_of_bucket [OF q] by (simp del: fun_upd_apply)
  moreover note map_okI [OF layout_link [OF lay assms(2) assms(3) [unfolded m] refl, of v]]
  ultimately show ?thesis
    using assms(4,5) b m by (simp add: pc_map_set_def del: fun_upd_apply)
qed

text \<open>The new pair is initialised before the old one is unlinked; the two do not touch.\<close>

lemma init_remove_swap:
  assumes "next h x = hq" "prev h x = hq" "a \<noteq> x" "a \<noteq> hq"
  shows "ngx_queue_init x (ngx_queue_remove x (ngx_queue_init a h)) =
    ngx_queue_init a (ngx_queue_init x (ngx_queue_remove x h))"
  using assms by (auto simp: ngx_defs fun_eq_iff intro!: ngx_heap.equality)

lemma map_set_alone:
  assumes "map_ok sc mp mem m" "fresh_pair mp mem a" "m key = Some old"
    and "\<not> shares_bucket sc mp m key" "malloc 32" "malloc (length key + 1)"
  shows "\<exists>mem'. pc_map_set malloc sc rel a mp key v mem w = Some (Ok (mem', rel key old w)) \<and>
    map_ok sc mp mem' (m(key \<mapsto> v))"
proof -
  obtain base ns where lay: "layout sc mp mem base ns" and m: "m = map_abs sc mp mem ns"
    using assms(1) by (rule map_okE)
  let ?i = "pc__hash sc key mod capacity mp"
  let ?h = "ngx_queue_init a (queues mem)" and ?ps = "(pairs mem)(a \<mapsto> (key, v))"
  note i = layoutD(4) [OF lay, of key] and b = layoutD(5) [OF lay, of key]
  note fr = fresh_pair_node [OF lay assms(2) i]
  obtain xs x ys where ns: "ns ?i = xs @ x # ys" and x: "pairs mem x = Some (key, old)"
    and oth: "\<forall>y \<in> set (xs @ ys). \<exists>k v. pairs mem y = Some (k, v) \<and> k \<noteq> key"
    using key_present [OF lay] assms(3) m by metis
  have "xs @ ys = []"
  proof (rule ccontr)
    assume "xs @ ys \<noteq> []"
    then obtain y where y: "y \<in> set (xs @ ys)" by (meson last_in_set)
    then obtain k u where k: "pairs mem y = Some (k, u)" "k \<noteq> key" using oth by blast
    have "y \<in> set (ns ?i)" using y ns by auto
    then have hk: "pc__hash sc k mod capacity mp = ?i" and "(k, u) \<in> set (bucket_kvs mem (ns ?i))"
      using layoutD(7) [OF lay i, of y] k(1) by (force simp: bucket_kvs_def)+
    then have "m k \<noteq> None" using weak_map_of_SomeI by (fastforce simp: m map_abs_def)
    then show False using assms(4) k(2) hk by (auto simp: shares_bucket_def)
  qed
  then have ns1: "ns ?i = [] @ x # []" and e: "xs = []" "ys = []" using ns by auto
  have ax: "a \<noteq> x" "a \<noteq> bucket base ?i" using fr ns1 by auto
  have q: "queue ?h (bucket base ?i) [x]" using init_frame [OF layoutD(6) [OF lay i] fr] ns1 by simp
  have loop: "set_loop ?ps key (bucket base ?i) ?h (ngx_queue_head (bucket base ?i) ?h) None =
      Some (ngx_queue_init x (ngx_queue_remove x ?h), Some x)"
    using set_loop_single [OF q, of ?ps key old] head_of_bucket [OF q] x ax by simp
  note nb = queue_neighbours [OF layoutD(6) [OF lay i, unfolded ns1]]
  have "ngx_queue_init x (ngx_queue_remove x ?h) =
      ngx_queue_init a (ngx_queue_init x (ngx_queue_remove x (queues mem)))"
    using nb ax by (intro init_remove_swap [where hq = "bucket base ?i"]) auto
  moreover have "(?ps)(x := None) = ((pairs mem)(x := None))(a \<mapsto> (key, v))"
    using ax by (auto simp: fun_eq_iff)
  moreover note unl = layout_unlink [OF lay ns1 x i, simplified]
  let ?m1 = "\<lparr>queues = ngx_queue_init x (ngx_queue_remove x (queues mem)), pairs = (pairs mem)(x := None)\<rparr>"
  have "fresh_pair mp ?m1 a" using assms(2) ax by (auto simp: fresh_pair_def)
  note map_okI [OF layout_link [OF unl(1) this _ refl, of key v, unfolded unl(2)]]
  ultimately show ?thesis
    using loop assms(5,6) b m x ax by (simp add: pc_map_set_def del: fun_upd_apply) (simp add: fun_upd_upd)
qed

lemma map_set_shared:
  assumes "map_ok sc mp mem m" "fresh_pair mp mem a" "m key = Some old"
    and "shares_bucket sc mp m key" "malloc 32" "malloc (length key + 1)"
  shows "pc_map_set malloc sc rel a mp key v mem w = None"
proof -
  obtain base ns where lay: "layout sc mp mem base ns" and m: "m = map_abs sc mp mem ns"
    using assms(1) by (rule map_okE)
  let ?i = "pc__hash sc key mod capacity mp"
  let ?h = "ngx_queue_init a (queues mem)" and ?ps = "(pairs mem)(a \<mapsto> (key, v))"
  note i = layoutD(4) [OF lay, of key] and b = layoutD(5) [OF lay, of key]
  note fr = fresh_pair_node [OF lay assms(2) i]
  obtain xs x ys where ns: "ns ?i = xs @ x # ys" and x: "pairs mem x = Some (key, old)"
    and oth: "\<forall>y \<in> set (xs @ ys). \<exists>k v. pairs mem y = Some (k, v) \<and> k \<noteq> key"
    using key_present [OF lay] assms(3) m by metis
  obtain k where k: "k \<noteq> key" "m k \<noteq> None" "pc__hash sc k mod capacity mp = ?i"
    using assms(4) by (auto simp: shares_bucket_def)
  then have "[] @ xs @ ys \<noteq> []"
    using ns x by (auto simp: m map_abs_def bucket_kvs_def split: if_splits)
  moreover have q: "queue ?h (bucket base ?i) ([] @ xs @ x # ys)"
    using init_frame [OF layoutD(6) [OF lay i] fr] ns by simp
  moreover have "?ps x = Some (key, old)" "\<forall>y \<in> set xs. \<exists>k v. ?ps y = Some (k, v) \<and> k \<noteq> key"
    using x oth fr ns by auto
  ultimately have "set_loop ?ps key (bucket base ?i) ?h (hd (xs @ [x])) None = None"
    using set_loop_shared by metis
  moreover have "ngx_queue_head (bucket base ?i) ?h = hd (xs @ [x])"
    using head_of_bucket [OF q] by (cases xs) auto
  ultimately show ?thesis using assms(5,6) b by (simp add: pc_map_set_def)
qed

lemma map_del_ok:
  assumes "map_ok sc mp mem m"
  shows "\<exists>mem'. pc_map_del sc mp key mem = Some (m key, mem') \<and> map_ok sc mp mem' (m(key := None))"
proof -
  obtain base ns where lay: "layout sc mp mem base ns" and m: "m = map_abs sc mp mem ns"
    using assms(1) by (rule map_okE)
  let ?i = "pc__hash sc key mod capacity mp"
  note i = layoutD(4) [OF lay, of key] and b = layoutD(5) [OF lay, of key]
  have q: "queue (queues mem) (bucket base ?i) ([] @ ns ?i)" using layoutD(6) [OF lay i] by simp
  show ?thesis
  proof (cases "m key")
    case None
    then have "\<forall>y \<in> set (ns ?i). \<exists>k v. pairs mem y = Some (k, v) \<and> k \<noteq> key"
      using key_absent [OF lay] m by blast
    then have "pc_map_del sc mp key mem = Some (None, mem)"
      using del_loop_absent [OF q] head_of_bucket [OF q] b by (simp add: pc_map_del_def)
    moreover have "m(key := None) = m" using None by (simp add: fun_upd_idem)
    ultimately show ?thesis using None assms by simp
  next
    case (Some v)
    then obtain xs x ys where ns: "ns ?i = xs @ x # ys" and x: "pairs mem x = Some (key, v)"
      and oth: "\<forall>y \<in> set (xs @ ys). \<exists>k v. pairs mem y = Some (k, v) \<and> k \<noteq> key"
      using key_present [OF lay] m by metis
    have "ngx_queue_head (bucket base ?i) (queues mem) = hd (xs @ [x])"
      using head_of_bucket [OF q] ns by (cases xs) auto
    then show ?thesis
      using del_loop_present [of mem "bucket base ?i" "[]" xs x ys key v] q ns x oth b m Some
        map_okI [OF layout_unlink [OF lay ns x i oth]]
      by (simp add: pc_map_del_def del: fun_upd_apply)
  qed
qed

text \<open>Clearing: every pair is released once, bucket after bucket, each in the order of its list.\<close>

lemma queue_init_buckets:
  "i < n \<Longrightarrow> queue (init_buckets base n h) (bucket base i) []"
proof (induction n)
  case (Suc n)
  then show ?case by (cases "i = n") (auto simp: queue_init intro!: init_frame)
qed simp

lemma map_init_ok:
  assumes "malloc (16 * cap')" "cap' = max 64 cap" "cap' < 2 ^ 31"
  shows "\<exists>mp mem'. pc_map_init malloc base cap mem = Some (Ok (mp, mem')) \<and> capacity mp = cap' \<and>
    map_ok sc mp mem' Map.empty"
proof -
  let ?mp = "\<lparr>capacity = cap', buckets = Some base\<rparr>"
  let ?mem = "mem\<lparr>queues := init_buckets base cap' (queues mem)\<rparr>"
  have "layout sc ?mp ?mem base (\<lambda>_. [])"
    using assms by (auto simp: layout_def queue_init_buckets)
  then have "map_ok sc ?mp ?mem Map.empty"
    by (rule map_okI) (simp add: map_abs_def bucket_kvs_def fun_eq_iff)
  moreover have "16 * cap' mod 2 ^ 64 = 16 * cap'" using assms(3) by simp
  ultimately show ?thesis
    using assms by (simp add: pc_map_init_def PC__MAP_DEFAULT_CAPACITY_def max_def Let_def split: if_splits)
qed

lemma clear_bucket_ok:
  "layout sc mp mem base ns \<Longrightarrow> i < capacity mp \<Longrightarrow>
   \<exists>mem'. clear_bucket rel (bucket base i) mem w =
       Some (mem', fold (\<lambda>(k, v). rel k v) (bucket_kvs mem (ns i)) w) \<and>
     layout sc mp mem' base (ns(i := [])) \<and>
     (\<forall>j < capacity mp. j \<noteq> i \<longrightarrow> bucket_kvs mem' (ns j) = bucket_kvs mem (ns j))"
proof (induction "ns i" arbitrary: ns mem w)
  case Nil
  then have "ngx_queue_empty (bucket base i) (queues mem)" "ns(i := []) = ns"
    using queue_empty_iff [OF layoutD(6) [OF Nil(2,3)]] by auto
  then show ?case using Nil by (auto simp: clear_bucket.simps bucket_kvs_def simp del: fun_upd_apply)
next
  case (Cons x xs)
  note lay = Cons.prems(1) and i = Cons.prems(2)
  have ns: "ns i = [] @ x # xs" using Cons.hyps(2) by simp
  obtain k v where x: "pairs mem x = Some (k, v)" using layoutD(7) [OF lay i, of x] ns by auto
  have "distinct (List.map (fst \<circ> the \<circ> pairs mem) (x # xs))" using layoutD(9) [OF lay i] ns by simp
  then have ne: "fst (the (pairs mem y)) \<noteq> k" if "y \<in> set xs" for y using that x by force
  have "\<forall>y \<in> set ([] @ xs). \<exists>k' v. pairs mem y = Some (k', v) \<and> k' \<noteq> k"
  proof
    fix y assume "y \<in> set ([] @ xs)"
    then show "\<exists>k' v. pairs mem y = Some (k', v) \<and> k' \<noteq> k"
      using layoutD(7) [OF lay i, of y] ns ne by force
  qed
  let ?m = "\<lparr>queues = ngx_queue_init x (ngx_queue_remove x (queues mem)), pairs = (pairs mem)(x := None)\<rparr>"
  have lay': "layout sc mp ?m base (ns(i := [] @ xs))"
    using \<open>\<forall>y \<in> set ([] @ xs). _\<close> by (rule layout_unlink(1) [OF lay ns x i])
  have "x \<notin> set xs" using layoutD(6) [OF lay i] ns by (auto simp: queue_def)
  then have kvs: "bucket_kvs ?m xs = bucket_kvs mem xs" by (auto simp: bucket_kvs_def)
  have kvs': "bucket_kvs ?m (ns j) = bucket_kvs mem (ns j)" if "j < capacity mp" "j \<noteq> i" for j
    using layout_disjoint [OF lay that(1) i that(2)] ns by (auto simp: bucket_kvs_def)
  have "xs = (ns(i := [] @ xs)) i" by simp
  from Cons.hyps(1) [OF this lay' i, of "rel k v w"]
  obtain mem' where mem': "clear_bucket rel (bucket base i) ?m (rel k v w) =
      Some (mem', fold (\<lambda>(k, v). rel k v) (bucket_kvs mem xs) (rel k v w))"
    "layout sc mp mem' base (ns(i := []))"
    "\<forall>j < capacity mp. j \<noteq> i \<longrightarrow> bucket_kvs mem' (ns j) = bucket_kvs mem (ns j)"
    using kvs kvs' by auto
  have "\<not> ngx_queue_empty (bucket base i) (queues mem)" "next (queues mem) (bucket base i) = x"
    using queue_empty_iff [OF layoutD(6) [OF lay i]] queue_next_hd [OF layoutD(6) [OF lay i]] ns by auto
  then have "clear_bucket rel (bucket base i) mem w = clear_bucket rel (bucket base i) ?m (rel k v w)"
    using x by (simp add: clear_bucket.simps [of rel "bucket base i" mem] ngx_queue_next_def fun_upd_def)
  then show ?case using mem' ns x by (auto simp: bucket_kvs_def)
qed

lemma clear_buckets_ok:
  "layout sc mp mem base ns \<Longrightarrow> distinct is \<Longrightarrow> set is \<subseteq> {..<capacity mp} \<Longrightarrow>
   \<exists>mem'. clear_buckets rel base is mem w =
       Some (mem', fold (\<lambda>(k, v). rel k v) (concat (List.map (bucket_kvs mem \<circ> ns) is)) w) \<and>
     layout sc mp mem' base (\<lambda>j. if j \<in> set is then [] else ns j)"
proof (induction "is" arbitrary: mem ns w)
  case Nil
  then show ?case by simp
next
  case (Cons i "is")
  obtain mem1 where mem1: "clear_bucket rel (bucket base i) mem w =
      Some (mem1, fold (\<lambda>(k, v). rel k v) (bucket_kvs mem (ns i)) w)"
    "layout sc mp mem1 base (ns(i := []))"
    "\<forall>j < capacity mp. j \<noteq> i \<longrightarrow> bucket_kvs mem1 (ns j) = bucket_kvs mem (ns j)"
    using clear_bucket_ok [OF Cons.prems(1), of i rel w] Cons.prems(3) by auto
  have eqs: "List.map (bucket_kvs mem1 \<circ> ns(i := [])) is = List.map (bucket_kvs mem \<circ> ns) is"
    "(\<lambda>j. if j \<in> set is then [] else (ns(i := [])) j) = (\<lambda>j. if j \<in> set (i # is) then [] else ns j)"
    using mem1(3) Cons.prems by auto
  have "distinct is" "set is \<subseteq> {..<capacity mp}" using Cons.prems by auto
  note Cons.IH [OF mem1(2) this, of "fold (\<lambda>(k, v). rel k v) (bucket_kvs mem (ns i)) w", unfolded eqs]
  then show ?case using mem1(1) by (simp add: comp_def)
qed

text \<open>All pairs of the map, in the order in which \<open>pc_map_clear\<close> meets them.\<close>

definition map_entries :: "pc_map \<Rightarrow> 'v pc_mem \<Rightarrow> (nat \<Rightarrow> addr list) \<Rightarrow> (string \<times> 'v) list" where
  "map_entries mp mem ns = concat (List.map (bucket_kvs mem \<circ> ns) [0..<capacity mp])"

lemma bucket_kvs_hash:
  assumes "layout sc mp mem base ns" "i < capacity mp" "(k, v) \<in> set (bucket_kvs mem (ns i))"
  shows "pc__hash sc k mod capacity mp = i"
  using layoutD(7) [OF assms(1,2)] assms(3) by (fastforce simp: bucket_kvs_def)

lemma distinct_keys_entries:
  assumes "layout sc mp mem base ns"
  shows "distinct (List.map fst (map_entries mp mem ns))"
proof -
  have "List.map fst (map_entries mp mem ns) =
      concat (List.map (\<lambda>i. List.map fst (bucket_kvs mem (ns i))) [0..<capacity mp])"
    by (simp add: map_entries_def map_concat comp_def)
  also have "distinct \<dots>"
  proof -
    have "distinct (concat (List.map (\<lambda>i. List.map fst (bucket_kvs mem (ns i))) is))"
      if "distinct is" "set is \<subseteq> {..<capacity mp}" for "is"
      using that
    proof (induction "is")
      case (Cons i "is")
      have "distinct (List.map fst (bucket_kvs mem (ns i)))"
        using layoutD(9) [OF assms, of i] Cons.prems by (simp add: bucket_kvs_def comp_assoc)
      moreover have "fst kv \<noteq> fst kv'"
        if "kv \<in> set (bucket_kvs mem (ns i))" "j \<in> set is" "kv' \<in> set (bucket_kvs mem (ns j))" for kv kv' j
        using bucket_kvs_hash [OF assms, of i "fst kv" "snd kv"]
          bucket_kvs_hash [OF assms, of j "fst kv'" "snd kv'"] that Cons.prems by auto
      ultimately show ?case using Cons by fastforce
    qed simp
    from this [of "[0..<capacity mp]"] show ?thesis by (simp add: atLeast0LessThan)
  qed
  finally show ?thesis .
qed

lemma map_of_entries:
  assumes "layout sc mp mem base ns"
  shows "map_of (map_entries mp mem ns) = map_abs sc mp mem ns"
proof
  fix k
  let ?i = "pc__hash sc k mod capacity mp"
  have i: "?i < capacity mp" by (rule layoutD(4) [OF assms])
  show "map_of (map_entries mp mem ns) k = map_abs sc mp mem ns k"
  proof (cases "map_abs sc mp mem ns k")
    case None
    have "k \<notin> fst ` set (map_entries mp mem ns)"
    proof
      assume "k \<in> fst ` set (map_entries mp mem ns)"
      then obtain j v where "j < capacity mp" "(k, v) \<in> set (bucket_kvs mem (ns j))"
        by (auto simp: map_entries_def)
      moreover from this have "?i = j" using bucket_kvs_hash [OF assms] by blast
      ultimately show False using None weak_map_of_SomeI by (fastforce simp: map_abs_def)
    qed
    then show ?thesis using None by (simp add: map_of_eq_None_iff)
  next
    case (Some v)
    then have "(k, v) \<in> set (bucket_kvs mem (ns ?i))" by (auto simp: map_abs_def dest: map_of_SomeD)
    then have "(k, v) \<in> set (map_entries mp mem ns)" using i by (auto simp: map_entries_def)
    then show ?thesis using Some distinct_keys_entries [OF assms] by simp
  qed
qed

lemma map_clear_ok:
  assumes "map_ok sc mp mem m"
  shows "\<exists>mem' kvs. pc_map_clear rel mp mem w = Some (mem', fold (\<lambda>(k, v). rel k v) kvs w) \<and>
    distinct (List.map fst kvs) \<and> map_of kvs = m \<and> map_ok sc mp mem' Map.empty"
proof -
  obtain base ns where lay: "layout sc mp mem base ns" and m: "m = map_abs sc mp mem ns"
    using assms(1) by (rule map_okE)
  have "set [0..<capacity mp] \<subseteq> {..<capacity mp}" by auto
  from clear_buckets_ok [OF lay distinct_upt this, of rel w]
  obtain mem' where mem': "clear_buckets rel base [0..<capacity mp] mem w =
      Some (mem', fold (\<lambda>(k, v). rel k v) (map_entries mp mem ns) w)"
    and lay': "layout sc mp mem' base (\<lambda>j. if j \<in> set [0..<capacity mp] then [] else ns j)"
    by (auto simp: map_entries_def)
  have "map_ok sc mp mem' Map.empty"
    using lay' by (rule map_okI) (use layoutD(2) [OF lay] in \<open>auto simp: map_abs_def bucket_kvs_def\<close>)
  then show ?thesis
    using mem' distinct_keys_entries [OF lay] map_of_entries [OF lay] layoutD(1,3) [OF lay] m
    by (auto simp: pc_map_clear_def)
qed

section \<open>The contract\<close>

text \<open>What the client relies on: a table behaves as a finite map as long as a key is set only while
  it is absent.\<close>

locale table_contract =
  fixes ok :: "'s \<Rightarrow> (string \<rightharpoonup> 'v) \<Rightarrow> bool"
    and fresh :: "'a \<Rightarrow> 's \<Rightarrow> bool"
    and lookup :: "string \<Rightarrow> 's \<Rightarrow> 'v option option"
    and put :: "'a \<Rightarrow> string \<Rightarrow> 'v \<Rightarrow> 's \<Rightarrow> 's cret option"
    and del :: "string \<Rightarrow> 's \<Rightarrow> ('v option \<times> 's) option"
  assumes lookup_ok: "ok s m \<Longrightarrow> lookup k s = Some (m k)"
    and put_ok: "ok s m \<Longrightarrow> fresh a s \<Longrightarrow> m k = None \<Longrightarrow>
      put a k v s = Some Fail \<or> (\<exists>s'. put a k v s = Some (Ok s') \<and> ok s' (m(k \<mapsto> v)))"
    and del_ok: "ok s m \<Longrightarrow> \<exists>s'. del k s = Some (m k, s') \<and> ok s' (m(k := None))"
begin

lemma register_take:
  assumes "ok s m" "fresh a s" "m k = None" "put a k v s = Some (Ok s')"
  shows "lookup k s' = Some (Some v)"
    "k' \<noteq> k \<Longrightarrow> lookup k' s' = lookup k' s"
    "\<exists>s''. del k s' = Some (Some v, s'') \<and> ok s'' m \<and> (\<exists>t. del k s'' = Some (None, t))"
proof -
  have s': "ok s' (m(k \<mapsto> v))" using put_ok [OF assms(1-3), of v] assms(4) by auto
  show "lookup k s' = Some (Some v)" "k' \<noteq> k \<Longrightarrow> lookup k' s' = lookup k' s"
    using lookup_ok [OF s'] lookup_ok [OF assms(1)] by auto
  obtain s'' where "del k s' = Some (Some v, s'')" "ok s'' m"
    using del_ok [OF s', of k] assms(3) by (auto simp: fun_upd_idem)
  moreover from this(2) assms(3) have "\<exists>t. del k s'' = Some (None, t)" using del_ok [of s'' m k] by auto
  ultimately show "\<exists>s''. del k s' = Some (Some v, s'') \<and> ok s'' m \<and> (\<exists>t. del k s'' = Some (None, t))"
    by blast
qed

end

definition table_put ::
  "malloc \<Rightarrow> bool \<Rightarrow> (string \<Rightarrow> 'v \<Rightarrow> 'w \<Rightarrow> 'w) \<Rightarrow> pc_map \<Rightarrow> addr \<Rightarrow> string \<Rightarrow> 'v
   \<Rightarrow> 'v pc_mem \<times> 'w \<Rightarrow> ('v pc_mem \<times> 'w) cret option" where
  "table_put malloc sc rel mp a k v s = pc_map_set malloc sc rel a mp k v (fst s) (snd s)"

definition table_del ::
  "bool \<Rightarrow> pc_map \<Rightarrow> string \<Rightarrow> 'v pc_mem \<times> 'w \<Rightarrow> ('v option \<times> 'v pc_mem \<times> 'w) option" where
  "table_del sc mp k s = map_option (\<lambda>(v, mem). (v, mem, snd s)) (pc_map_del sc mp k (fst s))"

interpretation pm: table_contract "\<lambda>s. map_ok sc mp (fst s)" "\<lambda>a s. fresh_pair mp (fst s) a"
  "\<lambda>k s. pc_map_get sc mp k (fst s)" "table_put malloc sc rel mp" "table_del sc mp"
  for malloc sc rel mp
proof unfold_locales
  fix s :: "'a pc_mem \<times> 'b" and m :: "string \<rightharpoonup> 'a" and k v a
  assume ok: "map_ok sc mp (fst s) m"
  show "pc_map_get sc mp k (fst s) = Some (m k)" using map_get_ok [OF ok] .
  show "\<exists>s'. table_del sc mp k s = Some (m k, s') \<and> map_ok sc mp (fst s') (m(k := None))"
    using map_del_ok [OF ok, of k] by (auto simp: table_del_def)
  assume "fresh_pair mp (fst s) a" "m k = None"
  then show "table_put malloc sc rel mp a k v s = Some Fail \<or>
      (\<exists>s'. table_put malloc sc rel mp a k v s = Some (Ok s') \<and> map_ok sc mp (fst s') (m(k \<mapsto> v)))"
    using map_set_new [OF ok, of a k malloc rel v "snd s"]
    by (cases "malloc 32 \<and> malloc (length k + 1)") (auto simp: table_put_def pc_map_set_def)
qed

section \<open>Properties\<close>

definition empty_mem :: "'v pc_mem" where
  "empty_mem = \<lparr>queues = init_buckets 1000 64 \<lparr>prev = (\<lambda>_. 0), next = (\<lambda>_. 0)\<rparr>, pairs = Map.empty\<rparr>"

definition empty_map :: pc_map where
  "empty_map = \<lparr>capacity = 64, buckets = Some 1000\<rparr>"

lemma empty_map_ok: "map_ok sc empty_map empty_mem Map.empty"
proof -
  have "layout sc empty_map empty_mem 1000 (\<lambda>_. [])"
    by (auto simp: layout_def empty_map_def empty_mem_def queue_init_buckets)
  then show ?thesis by (rule map_okI) (simp add: map_abs_def bucket_kvs_def fun_eq_iff)
qed

lemma empty_map_fresh: "a < 1000 \<Longrightarrow> pairs mem a = None \<Longrightarrow> fresh_pair empty_map mem a"
  by (simp add: fresh_pair_def empty_map_def bucket_def)

lemma collision: "pc__hash sc ''ab'' = pc__hash sc ''ba''"
  by (simp add: pc__hash_def size_add_def mod_add_right_eq add.commute)

text \<open>(C33) \<open>pc_map_set\<close> on every branch. With a failing allocation it reports the error and
  changes nothing. A key that is absent is added. A key that is alone in its bucket is replaced, and
  the callback releases its old value, once. If the bucket holds any other key as well, a call that
  should replace the value never returns: the loop unlinks the old pair, links it to itself and goes
  on from it.\<close>

theorem map_set_branches:
  assumes "map_ok sc mp mem m" "fresh_pair mp mem a"
  shows "(\<not> malloc 32 \<or> \<not> malloc (length key + 1) \<longrightarrow>
      pc_map_set malloc sc rel a mp key v mem w = Some Fail) \<and>
    (malloc 32 \<and> malloc (length key + 1) \<and> m key = None \<longrightarrow>
      (\<exists>mem'. pc_map_set malloc sc rel a mp key v mem w = Some (Ok (mem', w)) \<and>
        map_ok sc mp mem' (m(key \<mapsto> v)))) \<and>
    (malloc 32 \<and> malloc (length key + 1) \<and> m key = Some old \<and> \<not> shares_bucket sc mp m key \<longrightarrow>
      (\<exists>mem'. pc_map_set malloc sc rel a mp key v mem w = Some (Ok (mem', rel key old w)) \<and>
        map_ok sc mp mem' (m(key \<mapsto> v)))) \<and>
    (malloc 32 \<and> malloc (length key + 1) \<and> m key = Some old \<and> shares_bucket sc mp m key \<longrightarrow>
      pc_map_set malloc sc rel a mp key v mem w = None)"
proof (intro conjI impI)
  assume "\<not> malloc 32 \<or> \<not> malloc (length key + 1)"
  then show "pc_map_set malloc sc rel a mp key v mem w = Some Fail" by (auto simp: pc_map_set_def)
next
  assume "malloc 32 \<and> malloc (length key + 1) \<and> m key = None"
  then show "\<exists>mem'. pc_map_set malloc sc rel a mp key v mem w = Some (Ok (mem', w)) \<and>
      map_ok sc mp mem' (m(key \<mapsto> v))"
    using map_set_new [OF assms, where key = key and malloc = malloc] by metis
next
  assume "malloc 32 \<and> malloc (length key + 1) \<and> m key = Some old \<and> \<not> shares_bucket sc mp m key"
  then show "\<exists>mem'. pc_map_set malloc sc rel a mp key v mem w = Some (Ok (mem', rel key old w)) \<and>
      map_ok sc mp mem' (m(key \<mapsto> v))"
    by (intro map_set_alone assms) simp_all
next
  assume "malloc 32 \<and> malloc (length key + 1) \<and> m key = Some old \<and> shares_bucket sc mp m key"
  then show "pc_map_set malloc sc rel a mp key v mem w = None"
    by (intro map_set_shared [OF assms]) simp_all
qed

theorem map_set_branches_witness:
  "\<exists>mem1 mem2 :: nat pc_mem.
     pc_map_set (\<lambda>_. True) True (\<lambda>k v w. v # w) 1 empty_map ''ab'' 5 empty_mem [] = Some (Ok (mem1, [])) \<and>
     pc_map_set (\<lambda>_. True) True (\<lambda>k v w. v # w) 2 empty_map ''ba'' 6 mem1 [] = Some (Ok (mem2, [])) \<and>
     (\<exists>mem3. pc_map_set (\<lambda>_. True) True (\<lambda>k v w. v # w) 3 empty_map ''ab'' 7 mem1 [] = Some (Ok (mem3, [5]))) \<and>
     pc_map_set (\<lambda>_. True) True (\<lambda>k v w. v # w) 3 empty_map ''ab'' 7 mem2 [] = None"
proof -
  let ?rel = "\<lambda>k v w. v # w :: nat list"
  note b = map_set_branches [where malloc = "\<lambda>_. True" and sc = True and rel = ?rel and mp = empty_map]
  note n = map_set_new [where malloc = "\<lambda>_. True" and sc = True and rel = ?rel and mp = empty_map]
  have f1: "fresh_pair empty_map (empty_mem :: nat pc_mem) 1"
    by (rule empty_map_fresh) (simp_all add: empty_mem_def)
  obtain mem1 where m1: "pc_map_set (\<lambda>_. True) True ?rel 1 empty_map ''ab'' 5 empty_mem [] = Some (Ok (mem1, []))"
    "map_ok True empty_map mem1 [''ab'' \<mapsto> 5]" "pairs mem1 = [1 \<mapsto> (''ab'', 5)]"
    using n [OF empty_map_ok f1, of "''ab''" 5 "[]"] by (auto simp: empty_mem_def simp del: fun_upd_apply)
  have f2: "fresh_pair empty_map mem1 2" "fresh_pair empty_map mem1 3"
    using m1(3) by (auto intro!: empty_map_fresh)
  obtain mem2 where m2: "pc_map_set (\<lambda>_. True) True ?rel 2 empty_map ''ba'' 6 mem1 [] = Some (Ok (mem2, []))"
    "map_ok True empty_map mem2 [''ab'' \<mapsto> 5, ''ba'' \<mapsto> 6]" "pairs mem2 = [1 \<mapsto> (''ab'', 5), 2 \<mapsto> (''ba'', 6)]"
    using n [OF m1(2) f2(1), of "''ba''" 6 "[]"] m1(3) by (auto simp del: fun_upd_apply) auto
  have f3: "fresh_pair empty_map mem2 3" using m2(3) by (auto intro!: empty_map_fresh)
  have "\<not> shares_bucket True empty_map [''ab'' \<mapsto> 5 :: nat] ''ab''" by (auto simp: shares_bucket_def)
  moreover have "shares_bucket True empty_map [''ab'' \<mapsto> 5 :: nat, ''ba'' \<mapsto> 6] ''ab''"
    unfolding shares_bucket_def by (rule exI [of _ "''ba''"]) (simp add: collision)
  ultimately show ?thesis
    using m1(1) m2(1) b [OF m1(2) f2(2), of "''ab''" 7 "[]" 5] b [OF m2(2) f3, of "''ab''" 7 "[]" 5] by auto
qed

text \<open>(C35) \<open>pc_map_get\<close> and \<open>pc_map_del\<close> return, for every key and every well-formed map,
  what the finite map holds; after the deletion the map is well-formed and holds everything but that
  key.\<close>

theorem map_get_del_ok:
  assumes "map_ok sc mp mem m"
  shows "pc_map_get sc mp key mem = Some (m key) \<and>
    (\<exists>mem'. pc_map_del sc mp key mem = Some (m key, mem') \<and> map_ok sc mp mem' (m(key := None)))"
  using map_get_ok [OF assms] map_del_ok [OF assms] by blast

theorem map_get_del_ok_witness:
  "pc_map_get True empty_map ''ab'' (empty_mem :: nat pc_mem) = Some None \<and>
   (\<exists>mem' :: nat pc_mem. pc_map_del True empty_map ''ab'' empty_mem = Some (None, mem'))"
  using map_get_del_ok [OF empty_map_ok [where 'a = nat and sc = True], of "''ab''"] by auto

text \<open>(C34) A value that is registered under an absent key is found under that key and under no
  other, is handed out by exactly one deletion, and its deletion gives back the map that was there
  before. The client's tables of requests and of listeners are used in this way.\<close>

theorem map_register_take:
  assumes "map_ok sc mp (fst s) m" "fresh_pair mp (fst s) a" "m k = None"
    and "table_put malloc sc rel mp a k v s = Some (Ok s')"
  shows "pc_map_get sc mp k (fst s') = Some (Some v) \<and>
    (\<forall>k'. k' \<noteq> k \<longrightarrow> pc_map_get sc mp k' (fst s') = pc_map_get sc mp k' (fst s)) \<and>
    (\<exists>s''. table_del sc mp k s' = Some (Some v, s'') \<and> map_ok sc mp (fst s'') m \<and>
      (\<exists>t. table_del sc mp k s'' = Some (None, t)))"
  using pm.register_take [OF assms] by blast

theorem map_register_take_witness:
  "\<exists>s'. table_put (\<lambda>_. True) True (\<lambda>k v w. v # w) empty_map 1 ''12'' (5 :: nat) (empty_mem, []) = Some (Ok s') \<and>
     pc_map_get True empty_map ''12'' (fst s') = Some (Some 5) \<and>
     pc_map_get True empty_map ''13'' (fst s') = pc_map_get True empty_map ''13'' (empty_mem :: nat pc_mem) \<and>
     (\<exists>s''. table_del True empty_map ''12'' s' = Some (Some 5, s''))"
proof -
  let ?s = "(empty_mem :: nat pc_mem, [] :: nat list)"
  have f: "fresh_pair empty_map (fst ?s) 1" by (rule empty_map_fresh) (simp_all add: empty_mem_def)
  have e: "map_ok True empty_map (fst ?s) Map.empty" by (simp add: empty_map_ok)
  obtain s' where s': "table_put (\<lambda>_. True) True (\<lambda>k v w. v # w) empty_map 1 ''12'' 5 ?s = Some (Ok s')"
    using map_set_new [OF e f, where key = "''12''" and malloc = "\<lambda>_. True" and rel = "\<lambda>k v w. v # w" and v = 5 and w = "[]"]
    by (auto simp: table_put_def)
  show ?thesis using s' map_register_take [OF e f _ s'] by auto
qed

text \<open>\<open>pc_map_clear\<close> hands every pair of the map to the release callback exactly once and
  leaves an empty, well-formed map.\<close>

theorem map_clear_releases_all:
  assumes "map_ok sc mp mem m"
  shows "\<exists>mem' kvs. pc_map_clear rel mp mem w = Some (mem', fold (\<lambda>(k, v). rel k v) kvs w) \<and>
    distinct (List.map fst kvs) \<and> map_of kvs = m \<and> map_ok sc mp mem' Map.empty"
  using map_clear_ok [OF assms] .

theorem map_clear_releases_all_witness:
  "\<exists>mem' (kvs :: (string \<times> nat) list). pc_map_clear (\<lambda>k v w. v # w) empty_map (empty_mem :: nat pc_mem) [] =
     Some (mem', fold (\<lambda>(k, v) w. v # w) kvs []) \<and> map_of kvs = Map.empty"
  using map_clear_releases_all [OF empty_map_ok [where 'a = nat and sc = True],
    where rel = "\<lambda>k v w. v # w" and w = "[]"] by fast

end
