(* ===== verification/Listeners.thy ===== *)
theory Listeners
  imports Pc_Map
begin

text \<open>
  Event listeners (\<open>listener.c\<close> and the listener functions of \<open>client.c\<close>): a table from event
  names to queues of listeners, both on their pointers. A listener is addressed by its queue node, a
  queue by its sentinel, which is allocated by itself. The callbacks are values of a type of their own;
  emitting an event yields the callbacks it calls, in order. They run under the listener mutex, which is
  not recursive, so they cannot change the table.

  \<open>listeners_ok\<close> relates the memory to the abstract state, a function from event names to lists of
  callbacks; every operation is shown to implement the operation on lists.
\<close>

section \<open>The model\<close>

record 'c lst_mem =
  lqueues :: ngx_heap
  lnodes :: "addr \<Rightarrow> 'c option option"
  lheads :: "addr set"

record 'c listeners =
  ltable :: pc_map
  lpairs :: "addr pc_mem"
  lmem :: "'c lst_mem"

text \<open>A listener has 24 bytes, a sentinel 16. The callback of a new listener is null.\<close>

definition pc_listener_init :: "addr \<Rightarrow> 'c lst_mem \<Rightarrow> 'c lst_mem" where
  "pc_listener_init l m = m\<lparr>lnodes := (lnodes m)(l \<mapsto> None), lqueues := ngx_queue_init l (lqueues m)\<rparr>"

definition pc_listener_new :: "malloc \<Rightarrow> addr \<Rightarrow> 'c lst_mem \<Rightarrow> 'c lst_mem cret" where
  "pc_listener_new malloc l m = (if \<not> malloc 24 then Fail else Ok (pc_listener_init l m))"

definition pc_listener_destroy :: "addr \<Rightarrow> 'c lst_mem \<Rightarrow> 'c lst_mem option" where
  "pc_listener_destroy l m =
     (if lnodes m l = None then None
      else Some (m\<lparr>lqueues := ngx_queue_remove l (lqueues m), lnodes := (lnodes m)(l := None)\<rparr>))"

partial_function (option) release_loop :: "addr \<Rightarrow> 'c lst_mem \<Rightarrow> 'c lst_mem option" where
  "release_loop hq m =
     (if ngx_queue_empty hq (lqueues m) then Some m
      else do {
        let q = ngx_queue_head hq (lqueues m);
        m \<leftarrow> pc_listener_destroy q (m\<lparr>lqueues := ngx_queue_init q (ngx_queue_remove q (lqueues m))\<rparr>);
        release_loop hq m })"

definition pc__release_listeners :: "addr option \<Rightarrow> 'c lst_mem \<Rightarrow> 'c lst_mem option" where
  "pc__release_listeners val m =
     (case val of None \<Rightarrow> Some m
      | Some hq \<Rightarrow> if hq \<notin> lheads m then None
          else do {
            m \<leftarrow> release_loop hq m;
            Some (m\<lparr>lheads := lheads m - {hq}\<rparr>) })"

text \<open>The release callback of the table, on a memory that may have become undefined.\<close>

definition release_cb :: "string \<Rightarrow> addr \<Rightarrow> 'c lst_mem option \<Rightarrow> 'c lst_mem option" where
  "release_cb key val w = Option.bind w (pc__release_listeners (Some val))"

text \<open>\<open>l\<close>, \<open>hq\<close> and \<open>pr\<close> are the addresses that the allocator returns for the listener, the
  sentinel and the pair of the table; \<open>closed\<close> says whether the client is in the state
  \<open>PC_ST_CLOSED\<close>. The result of \<open>pc_map_set\<close> is ignored.\<close>

definition pc_add_listener ::
  "malloc \<Rightarrow> bool \<Rightarrow> bool \<Rightarrow> addr \<Rightarrow> addr \<Rightarrow> addr \<Rightarrow> string \<Rightarrow> 'c \<Rightarrow> 'c listeners \<Rightarrow> 'c listeners cret option" where
  "pc_add_listener malloc sc closed l hq pr event cb s =
     (if closed then Some Fail
      else case pc_listener_new malloc l (lmem s) of
        Fail \<Rightarrow> Some Fail
      | Ok m \<Rightarrow> do {
          let m = m\<lparr>lnodes := (lnodes m)(l \<mapsto> Some cb)\<rparr>;
          head \<leftarrow> pc_map_get sc (ltable s) event (lpairs s);
          case head of
            Some hq \<Rightarrow> Some (Ok (s\<lparr>lmem := m\<lparr>lqueues := ngx_queue_insert_tail hq l (lqueues m)\<rparr>\<rparr>))
          | None \<Rightarrow>
              if \<not> malloc 16 then do { m \<leftarrow> pc_listener_destroy l m; Some Fail }
              else do {
                let m = m\<lparr>lheads := insert hq (lheads m), lqueues := ngx_queue_init hq (lqueues m)\<rparr>;
                r \<leftarrow> pc_map_set malloc sc release_cb pr (ltable s) event hq (lpairs s) (Some m);
                (ps, m) \<leftarrow> (case r of Fail \<Rightarrow> Some (lpairs s, m) | Ok (ps, w) \<Rightarrow> map_option (Pair ps) w);
                Some (Ok (s\<lparr>lpairs := ps, lmem := m\<lparr>lqueues := ngx_queue_insert_tail hq l (lqueues m)\<rparr>\<rparr>)) } })"

text \<open>The loop of \<open>pc_remove_listener\<close> up to the \<open>break\<close>: the listener it removes.\<close>

partial_function (option) find_listener ::
  "(addr \<Rightarrow> 'c option option) \<Rightarrow> ngx_heap \<Rightarrow> 'c \<Rightarrow> addr \<Rightarrow> addr \<Rightarrow> addr option option" where
  "find_listener nodes h cb hq item =
     (if \<not> ngx_queue_foreach_cond item hq h then Some None
      else do {
        c \<leftarrow> nodes item;
        if c = Some cb then Some (Some item)
        else find_listener nodes h cb hq (ngx_queue_next item h) })"

definition pc_remove_listener :: "bool \<Rightarrow> string \<Rightarrow> 'c \<Rightarrow> 'c listeners \<Rightarrow> 'c listeners option" where
  "pc_remove_listener sc event cb s = do {
     head \<leftarrow> pc_map_get sc (ltable s) event (lpairs s);
     case head of
       None \<Rightarrow> Some s
     | Some hq \<Rightarrow> do {
         let m = lmem s;
         item \<leftarrow> find_listener (lnodes m) (lqueues m) cb hq (ngx_queue_head hq (lqueues m));
         m \<leftarrow> (case item of
                None \<Rightarrow> Some m
              | Some l \<Rightarrow> pc_listener_destroy l (m\<lparr>lqueues := ngx_queue_remove l (lqueues m)\<rparr>));
         if ngx_queue_empty hq (lqueues m)
         then do {
           (v, ps) \<leftarrow> pc_map_del sc (ltable s) event (lpairs s);
           if hq \<in> lheads m then Some (s\<lparr>lpairs := ps, lmem := m\<lparr>lheads := lheads m - {hq}\<rparr>\<rparr>) else None }
         else Some (s\<lparr>lmem := m\<rparr>) } }"

partial_function (option) emit_loop ::
  "(addr \<Rightarrow> 'c option option) \<Rightarrow> ngx_heap \<Rightarrow> addr \<Rightarrow> addr \<Rightarrow> 'c list option" where
  "emit_loop nodes h hq item =
     (if \<not> ngx_queue_foreach_cond item hq h then Some []
      else do {
        c \<leftarrow> nodes item;
        cb \<leftarrow> c;
        cbs \<leftarrow> emit_loop nodes h hq (ngx_queue_next item h);
        Some (cb # cbs) })"

definition pc_emit_event :: "bool \<Rightarrow> string \<Rightarrow> 'c listeners \<Rightarrow> 'c list option" where
  "pc_emit_event sc event s = do {
     head \<leftarrow> pc_map_get sc (ltable s) event (lpairs s);
     case head of
       None \<Rightarrow> Some []
     | Some hq \<Rightarrow> emit_loop (lnodes (lmem s)) (lqueues (lmem s)) hq (ngx_queue_head hq (lqueues (lmem s))) }"

text \<open>What \<open>pc__client_clear\<close> does with the table.\<close>

definition destroy_listeners :: "'c listeners \<Rightarrow> 'c lst_mem option" where
  "destroy_listeners s = do {
     (ps, w) \<leftarrow> pc_map_destroy release_cb (ltable s) (lpairs s) (Some (lmem s));
     w }"

section \<open>The abstraction\<close>

definition hung :: "'c lst_mem \<Rightarrow> addr set \<Rightarrow> (addr \<Rightarrow> addr list) \<Rightarrow> bool" where
  "hung m H ns \<longleftrightarrow>
     (\<forall>hq \<in> H. hq \<in> lheads m \<and> queue (lqueues m) hq (ns hq) \<and>
        (\<forall>x \<in> set (ns hq). (\<exists>c. lnodes m x = Some (Some c)) \<and> x \<notin> H)) \<and>
     (\<forall>hq \<in> H. \<forall>k \<in> H. hq \<noteq> k \<longrightarrow> set (ns hq) \<inter> set (ns k) = {})"

definition cbs_of :: "'c lst_mem \<Rightarrow> addr list \<Rightarrow> 'c list" where
  "cbs_of m xs = List.map (the \<circ> the \<circ> lnodes m) xs"

text \<open>Nothing is leaked: the sentinels of the table are the live ones, and every live listener hangs
  on one of them.\<close>

definition owned :: "'c lst_mem \<Rightarrow> addr set \<Rightarrow> (addr \<Rightarrow> addr list) \<Rightarrow> bool" where
  "owned m H ns \<longleftrightarrow> lheads m = H \<and> dom (lnodes m) = (\<Union>hq \<in> H. set (ns hq))"

definition listeners_ok :: "bool \<Rightarrow> 'c listeners \<Rightarrow> (string \<Rightarrow> 'c list) \<Rightarrow> bool" where
  "listeners_ok sc s L \<longleftrightarrow> (\<exists>tab ns. map_ok sc (ltable s) (lpairs s) tab \<and> inj_on tab (dom tab) \<and>
     hung (lmem s) (ran tab) ns \<and> owned (lmem s) (ran tab) ns \<and> (\<forall>hq \<in> ran tab. ns hq \<noteq> []) \<and>
     L = (\<lambda>event. case tab event of None \<Rightarrow> [] | Some hq \<Rightarrow> cbs_of (lmem s) (ns hq)))"

definition fresh_node :: "'c lst_mem \<Rightarrow> addr \<Rightarrow> bool" where
  "fresh_node m a \<longleftrightarrow> lnodes m a = None \<and> a \<notin> lheads m"

section \<open>Queues of listeners\<close>

lemma hungI:
  assumes "\<And>hq. hq \<in> H \<Longrightarrow> hq \<in> lheads m \<and> queue (lqueues m) hq (ns hq)"
    and "\<And>hq x. hq \<in> H \<Longrightarrow> x \<in> set (ns hq) \<Longrightarrow> (\<exists>c. lnodes m x = Some (Some c)) \<and> x \<notin> H"
    and "\<And>hq k. hq \<in> H \<Longrightarrow> k \<in> H \<Longrightarrow> hq \<noteq> k \<Longrightarrow> set (ns hq) \<inter> set (ns k) = {}"
  shows "hung m H ns"
  using assms by (simp add: hung_def)

lemma hungD:
  assumes "hung m H ns" "hq \<in> H"
  shows "hq \<in> lheads m" "queue (lqueues m) hq (ns hq)"
    and "x \<in> set (ns hq) \<Longrightarrow> \<exists>c. lnodes m x = Some (Some c)" "x \<in> set (ns hq) \<Longrightarrow> x \<notin> H"
    and "k \<in> H \<Longrightarrow> k \<noteq> hq \<Longrightarrow> set (ns k) \<inter> set (ns hq) = {}"
  using assms by (simp_all add: hung_def)

lemma hung_disjoint:
  assumes "hung m H ns" "hq \<in> H" "k \<in> H" "k \<noteq> hq"
  shows "set (k # ns k) \<inter> set (hq # ns hq) = {}"
  using hungD(4,5) [OF assms(1,2)] hungD(4) [OF assms(1,3)] assms by auto

lemma hung_fresh:
  assumes "hung m H ns" "fresh_node m a" "hq \<in> H"
  shows "a \<notin> set (hq # ns hq)"
  using hungD(1,3) [OF assms(1,3)] assms(2) by (force simp: fresh_node_def)

lemma hung_insert:
  assumes "hung m H ns" "fresh_node m l" "hq \<in> H"
  shows "hung (m\<lparr>lnodes := (lnodes m)(l \<mapsto> Some cb), lqueues := ngx_queue_insert_tail hq l (ngx_queue_init l (lqueues m))\<rparr>)
    H (ns(hq := ns hq @ [l]))"
proof -
  let ?h = "ngx_queue_init l (lqueues m)"
  have q: "queue ?h k (ns k)" if "k \<in> H" for k
    using hungD(2) [OF assms(1) that] hung_fresh [OF assms(1,2) that] by (rule init_frame)
  have f: "l \<notin> set (k # ns k)" if "k \<in> H" for k by (rule hung_fresh [OF assms(1,2) that])
  have "queue (ngx_queue_insert_tail hq l ?h) k ((ns(hq := ns hq @ [l])) k)" if "k \<in> H" for k
  proof (cases "k = hq")
    case True
    then show ?thesis using queue_insert_tail [OF q f] assms(3) by simp
  next
    case False
    then have "queue (ngx_queue_insert_tail hq l ?h) k (ns k)"
      by (intro insert_tail_frame [OF q [OF assms(3)] q [OF that]])
        (use hung_disjoint [OF assms(1,3) that] f [OF that] in auto)
    then show ?thesis using False by simp
  qed
  then show ?thesis using assms(1,3) f by (fastforce simp: hung_def)
qed

lemma hung_new_head:
  assumes "hung m H ns" "fresh_node m hq"
  shows "hung (m\<lparr>lheads := insert hq (lheads m), lqueues := ngx_queue_init hq (lqueues m)\<rparr>)
    (insert hq H) (ns(hq := []))"
proof -
  have f: "hq \<notin> set (k # ns k)" if "k \<in> H" for k by (rule hung_fresh [OF assms that])
  then have "queue (ngx_queue_init hq (lqueues m)) k (ns k)" if "k \<in> H" for k
    using hungD(2) [OF assms(1) that] that by (intro init_frame)
  then show ?thesis using assms(1) f by (fastforce simp: hung_def queue_init)
qed

lemma hung_remove:
  assumes "hung m H ns" "hq \<in> H" "ns hq = xs @ l # ys"
  shows "hung (m\<lparr>lqueues := ngx_queue_remove l (lqueues m), lnodes := (lnodes m)(l := None)\<rparr>) H (ns(hq := xs @ ys))"
proof -
  have q: "queue (lqueues m) hq (xs @ l # ys)" using hungD(2) [OF assms(1,2)] assms(3) by simp
  have "queue (ngx_queue_remove l (lqueues m)) k ((ns(hq := xs @ ys)) k)" if "k \<in> H" for k
  proof (cases "k = hq")
    case True
    then show ?thesis using queue_remove [OF q] by simp
  next
    case False
    then have "queue (ngx_queue_remove l (lqueues m)) k (ns k)"
      by (intro remove_frame [OF q hungD(2) [OF assms(1) that]])
        (use hung_disjoint [OF assms(1,2) that] assms(3) in auto)
    then show ?thesis using False by simp
  qed
  moreover have "l \<notin> set xs \<union> set ys" using q by (auto simp: queue_def)
  moreover have "l \<notin> set (ns k)" if "k \<in> H" "k \<noteq> hq" for k
    using hung_disjoint [OF assms(1,2) that] assms(3) by auto
  moreover have "set (ns hq') \<inter> set (ns k) = {}" if "hq' \<in> H" "k \<in> H" "hq' \<noteq> k" for hq' k
    using hungD(5) [OF assms(1) that(2,1) that(3)] .
  then have "set ((ns(hq := xs @ ys)) hq') \<inter> set ((ns(hq := xs @ ys)) k) = {}"
    if "hq' \<in> H" "k \<in> H" "hq' \<noteq> k" for hq' k
    using that assms(3) by (cases "hq' = hq"; cases "k = hq"; fastforce)
  ultimately show ?thesis
    using assms(2,3) hungD(1,3,4) [OF assms(1)] by (intro hungI) (auto split: if_splits)
qed

lemma hung_init:
  assumes "hung m H ns" "l \<notin> H" "\<forall>k \<in> H. l \<notin> set (ns k)"
  shows "hung (m\<lparr>lqueues := ngx_queue_init l (lqueues m)\<rparr>) H ns"
proof -
  have "queue (ngx_queue_init l (lqueues m)) k (ns k)" if "k \<in> H" for k
    using hungD(2) [OF assms(1) that] assms(2,3) that by (intro init_frame) auto
  then show ?thesis using assms(1) by (simp add: hung_def)
qed

lemma hung_drop_head: "hung m H ns \<Longrightarrow> hung (m\<lparr>lheads := lheads m - {hq}\<rparr>) (H - {hq}) ns"
  by (auto simp: hung_def)

text \<open>\<open>pc_listener_destroy\<close> unlinks a listener that the caller has unlinked already: nothing changes.\<close>

lemma remove_twice:
  assumes "queue h hq (xs @ l # ys)"
  shows "ngx_queue_remove l (ngx_queue_remove l h) = ngx_queue_remove l h"
proof -
  have "last (hq # xs) \<noteq> l" "hd (ys @ [hq]) \<noteq> l"
    using assms last_in_set [of "hq # xs"] list.set_sel(1) [of "ys @ [hq]"] by (auto simp: queue_def)
  then show ?thesis
    using queue_neighbours [OF assms] by (simp add: ngx_defs)
qed

lemma remove_init: "ngx_queue_remove l (ngx_queue_init l h) = ngx_queue_init l h"
  by (auto simp: ngx_defs fun_eq_iff intro!: ngx_heap.equality)

lemma lst_mem_comm: "(m :: 'c lst_mem)\<lparr>lqueues := h, lnodes := n\<rparr> = m\<lparr>lnodes := n, lqueues := h\<rparr>"
  "m\<lparr>lheads := H, lnodes := n\<rparr> = m\<lparr>lnodes := n, lheads := H\<rparr>"
  "m\<lparr>lheads := H, lqueues := h\<rparr> = m\<lparr>lqueues := h, lheads := H\<rparr>"
  by simp_all

section \<open>The loops\<close>

lemma emit_loop_queue:
  "queue h hq (pre @ xs) \<Longrightarrow> \<forall>x \<in> set xs. \<exists>c. nodes x = Some (Some c) \<Longrightarrow>
   emit_loop nodes h hq (hd (xs @ [hq])) = Some (List.map (the \<circ> the \<circ> nodes) xs)"
proof (induction xs arbitrary: pre)
  case Nil
  then show ?case by (simp add: emit_loop.simps foreach_cond_queue)
next
  case (Cons x xs)
  then obtain c where "nodes x = Some (Some c)" by auto
  then show ?case
    using Cons.IH [of "pre @ [x]"] Cons.prems queue_neighbours(2) [OF Cons.prems(1)]
    by (simp add: emit_loop.simps [of nodes h hq x] foreach_cond_queue(1) ngx_queue_next_def)
qed

lemma find_listener_queue:
  "queue h hq (pre @ xs) \<Longrightarrow> \<forall>x \<in> set xs. \<exists>c. nodes x = Some (Some c) \<Longrightarrow>
   find_listener nodes h cb hq (hd (xs @ [hq])) = Some (find (\<lambda>x. nodes x = Some (Some cb)) xs)"
proof (induction xs arbitrary: pre)
  case Nil
  then show ?case by (simp add: find_listener.simps foreach_cond_queue)
next
  case (Cons x xs)
  then obtain c where "nodes x = Some (Some c)" by auto
  then show ?case
    using Cons.IH [of "pre @ [x]"] Cons.prems queue_neighbours(2) [OF Cons.prems(1)]
    by (simp add: find_listener.simps [of nodes h cb hq x] foreach_cond_queue(1) ngx_queue_next_def)
qed

lemma release_loop_queue:
  "hung m H ns \<Longrightarrow> hq \<in> H \<Longrightarrow> \<exists>m'. release_loop hq m = Some m' \<and> hung m' H (ns(hq := [])) \<and>
     lheads m' = lheads m \<and> lnodes m' = (\<lambda>x. if x \<in> set (ns hq) then None else lnodes m x)"
proof (induction "ns hq" arbitrary: ns m)
  case Nil
  then have "ngx_queue_empty hq (lqueues m)" using queue_empty_iff [OF hungD(2) [OF Nil(2,3)]] by simp
  then show ?case using Nil by (auto simp: release_loop.simps [of hq m] fun_upd_idem)
next
  case (Cons x xs)
  note q = hungD(2) [OF Cons.prems]
  let ?h = "ngx_queue_init x (ngx_queue_remove x (lqueues m))"
  let ?m = "m\<lparr>lqueues := ?h, lnodes := (lnodes m)(x := None)\<rparr>"
  have x: "x \<in> set (ns hq)" using Cons.hyps(2) by (metis list.set_intros(1))
  have "hung (m\<lparr>lqueues := ngx_queue_remove x (lqueues m), lnodes := (lnodes m)(x := None)\<rparr>) H (ns(hq := [] @ xs))"
    by (rule hung_remove [OF Cons.prems]) (simp flip: Cons.hyps(2))
  moreover have "x \<notin> set xs" using q by (auto simp: queue_def simp flip: Cons.hyps(2))
  moreover have "x \<notin> set (ns k)" if "k \<in> H" "k \<noteq> hq" for k
    using hungD(5) [OF Cons.prems that] x by auto
  ultimately have m: "hung ?m H (ns(hq := xs))"
    using hung_init [of "m\<lparr>lqueues := ngx_queue_remove x (lqueues m), lnodes := (lnodes m)(x := None)\<rparr>"
        H "ns(hq := [] @ xs)" x] hungD(4) [OF Cons.prems x] by (auto simp: lst_mem_comm)
  have "release_loop hq m = release_loop hq ?m"
    using hungD(3) [OF Cons.prems x] queue_empty_iff [OF q] queue_next_hd [OF q]
    by (auto simp: release_loop.simps [of hq m] pc_listener_destroy_def remove_init ngx_queue_head_def
        fun_upd_def simp flip: Cons.hyps(2))
  then show ?case
    using Cons.hyps(1) [OF _ m Cons.prems(2)] by (auto simp: fun_eq_iff simp flip: Cons.hyps(2))
qed

section \<open>The operations\<close>

lemma listeners_okE:
  assumes "listeners_ok sc s L"
  obtains tab ns where "map_ok sc (ltable s) (lpairs s) tab" "inj_on tab (dom tab)"
    "hung (lmem s) (ran tab) ns" "owned (lmem s) (ran tab) ns" "\<forall>hq \<in> ran tab. ns hq \<noteq> []"
    "L = (\<lambda>event. case tab event of None \<Rightarrow> [] | Some hq \<Rightarrow> cbs_of (lmem s) (ns hq))"
  using assms by (auto simp: listeners_ok_def)

lemma emit_event_ok:
  assumes "listeners_ok sc s L"
  shows "pc_emit_event sc event s = Some (L event)"
  using assms
proof (rule listeners_okE)
  fix tab ns
  assume ok: "map_ok sc (ltable s) (lpairs s) tab" and h: "hung (lmem s) (ran tab) ns"
    and L: "L = (\<lambda>event. case tab event of None \<Rightarrow> [] | Some hq \<Rightarrow> cbs_of (lmem s) (ns hq))"
  show ?thesis
  proof (cases "tab event")
    case None
    then show ?thesis using map_get_ok [OF ok] L by (simp add: pc_emit_event_def)
  next
    case (Some hq)
    then have hq: "hq \<in> ran tab" by (auto simp: ran_def)
    have "emit_loop (lnodes (lmem s)) (lqueues (lmem s)) hq (hd (ns hq @ [hq])) = Some (cbs_of (lmem s) (ns hq))"
      using emit_loop_queue [of "lqueues (lmem s)" hq "[]" "ns hq" "lnodes (lmem s)"] hungD(2,3) [OF h hq] by (simp add: cbs_of_def)
    then show ?thesis
      using Some map_get_ok [OF ok] L head_of_bucket [OF hungD(2) [OF h hq]]
      by (simp add: pc_emit_event_def)
  qed
qed

lemma cbs_of_cong: "(\<And>x. x \<in> set xs \<Longrightarrow> lnodes m' x = lnodes m x) \<Longrightarrow> cbs_of m' xs = cbs_of m xs"
  by (simp add: cbs_of_def)

lemma cbs_of_upd:
  assumes "x \<notin> set xs"
  shows "cbs_of (m\<lparr>lnodes := (lnodes m)(x := c), lqueues := h\<rparr>) xs = cbs_of m xs"
    "cbs_of (m\<lparr>lqueues := h, lnodes := (lnodes m)(x := c)\<rparr>) xs = cbs_of m xs"
  using assms by (auto simp: cbs_of_def)

lemma cbs_of_simps [simp]:
  "cbs_of m (xs @ ys) = cbs_of m xs @ cbs_of m ys" "cbs_of m [] = []"
  "cbs_of m (x # xs) = the (the (lnodes m x)) # cbs_of m xs"
  "cbs_of (m\<lparr>lheads := H\<rparr>) xs = cbs_of m xs"
  by (simp_all add: cbs_of_def)

lemma init_swap: "a \<noteq> b \<Longrightarrow> ngx_queue_init a (ngx_queue_init b h) = ngx_queue_init b (ngx_queue_init a h)"
  by (auto simp: ngx_defs fun_eq_iff intro!: ngx_heap.equality)

lemma add_listener_ok:
  assumes ok: "listeners_ok sc s L" and M: "malloc 24" "malloc 16" "malloc 32" "malloc (length event + 1)"
    and fresh: "fresh_node (lmem s) l" "fresh_node (lmem s) hq" "l \<noteq> hq" "fresh_pair (ltable s) (lpairs s) pr"
  shows "\<exists>s'. pc_add_listener malloc sc False l hq pr event cb s = Some (Ok s') \<and>
    listeners_ok sc s' (L(event := L event @ [cb]))"
  using ok
proof (rule listeners_okE)
  fix tab ns
  assume tab: "map_ok sc (ltable s) (lpairs s) tab" "inj_on tab (dom tab)" and h: "hung (lmem s) (ran tab) ns"
    and own: "owned (lmem s) (ran tab) ns" and ne: "\<forall>hq \<in> ran tab. ns hq \<noteq> []"
    and L: "L = (\<lambda>event. case tab event of None \<Rightarrow> [] | Some hq \<Rightarrow> cbs_of (lmem s) (ns hq))"
  let ?m = "lmem s"
  note get = map_get_ok [OF tab(1), of event]
  have fr: "l \<notin> set (ns k)" "l \<noteq> k" if "k \<in> ran tab" for k using hung_fresh [OF h fresh(1) that] by auto
  show ?thesis
  proof (cases "tab event")
    case (Some k)
    then have k: "k \<in> ran tab" by (auto simp: ran_def)
    let ?m' = "?m\<lparr>lnodes := (lnodes ?m)(l \<mapsto> Some cb), lqueues := ngx_queue_insert_tail k l (ngx_queue_init l (lqueues ?m))\<rparr>"
    have eq: "pc_add_listener malloc sc False l hq pr event cb s = Some (Ok (s\<lparr>lmem := ?m'\<rparr>))"
      using get Some M by (simp add: pc_add_listener_def pc_listener_new_def pc_listener_init_def)
    have inj: "k' = k \<longleftrightarrow> e = event" if "tab e = Some k'" for e k'
      using that Some tab(2) by (auto simp: inj_on_def dom_def)
    have "listeners_ok sc (s\<lparr>lmem := ?m'\<rparr>) (L(event := L event @ [cb]))"
      unfolding listeners_ok_def
    proof (intro exI [of _ tab] exI [of _ "ns(k := ns k @ [l])"] conjI)
      show "hung (lmem (s\<lparr>lmem := ?m'\<rparr>)) (ran tab) (ns(k := ns k @ [l]))"
        using hung_insert [OF h fresh(1) k] by simp
      show "L(event := L event @ [cb]) =
          (\<lambda>e. case tab e of None \<Rightarrow> [] | Some hq \<Rightarrow> cbs_of (lmem (s\<lparr>lmem := ?m'\<rparr>)) ((ns(k := ns k @ [l])) hq))"
        using Some inj fr by (auto simp: L fun_eq_iff cbs_of_upd ranI split: option.splits)
      show "owned (lmem (s\<lparr>lmem := ?m'\<rparr>)) (ran tab) (ns(k := ns k @ [l]))"
        using own k by (auto simp: owned_def split: if_splits)
    qed (use tab ne in auto)
    then show ?thesis using eq by blast
  next
    case None
    let ?m' = "?m\<lparr>lheads := insert hq (lheads ?m), lqueues := ngx_queue_insert_tail hq l (ngx_queue_init l (ngx_queue_init hq (lqueues ?m))),
        lnodes := (lnodes ?m)(l \<mapsto> Some cb)\<rparr>"
    let ?tab = "tab(event \<mapsto> hq)"
    let ?w = "Some (?m\<lparr>lnodes := (lnodes ?m)(l \<mapsto> Some cb),
        lqueues := ngx_queue_init hq (ngx_queue_init l (lqueues ?m)), lheads := insert hq (lheads ?m)\<rparr>)"
    obtain ps where ps: "pc_map_set malloc sc release_cb pr (ltable s) event hq (lpairs s) ?w = Some (Ok (ps, ?w))"
      and tab': "map_ok sc (ltable s) ps ?tab"
      using map_set_new [OF tab(1) fresh(4) None M(3,4), of release_cb hq ?w] by blast
    have same: "cbs_of ?m' (ns k) = cbs_of ?m (ns k)" if "tab e = Some k" for e k
      by (rule cbs_of_cong) (use fr(1) [of k] that in \<open>auto simp: ran_def\<close>)
    have new: "hq \<notin> ran tab" using hung_fresh [OF h fresh(2)] by auto
    have ran: "ran ?tab = insert hq (ran tab)" using None by (simp add: ran_map_upd)
    have eq: "pc_add_listener malloc sc False l hq pr event cb s = Some (Ok (s\<lparr>lpairs := ps, lmem := ?m'\<rparr>))"
      using get None M fresh(3) ps
      by (simp add: pc_add_listener_def pc_listener_new_def pc_listener_init_def init_swap [of l hq] lst_mem_comm Let_def)
    have "listeners_ok sc (s\<lparr>lpairs := ps, lmem := ?m'\<rparr>) (L(event := L event @ [cb]))"
      unfolding listeners_ok_def
    proof (intro exI [of _ ?tab] exI [of _ "ns(hq := [l])"] conjI)
      show "hung (lmem (s\<lparr>lpairs := ps, lmem := ?m'\<rparr>)) (ran ?tab) (ns(hq := [l]))"
        using hung_insert [OF hung_new_head [OF h fresh(2)], of l hq] fresh(1,3) ran
        by (simp add: fresh_node_def lst_mem_comm)
      show "L(event := L event @ [cb]) =
          (\<lambda>e. case ?tab e of None \<Rightarrow> [] | Some hq' \<Rightarrow> cbs_of (lmem (s\<lparr>lpairs := ps, lmem := ?m'\<rparr>)) ((ns(hq := [l])) hq'))"
        using None new same by (auto simp: L fun_eq_iff ranI split: option.splits)
      show "owned (lmem (s\<lparr>lpairs := ps, lmem := ?m'\<rparr>)) (ran ?tab) (ns(hq := [l]))"
        using own new by (auto simp: owned_def ran split: if_splits)
      show "inj_on ?tab (dom ?tab)" using tab(2) new None by (auto simp: inj_on_def ranI dom_def)
    qed (use tab' ne ran in auto)
    then show ?thesis using eq by blast
  qed
qed

lemma find_split:
  "find P xs = Some x \<Longrightarrow> \<exists>as bs. xs = as @ x # bs \<and> P x \<and> (\<forall>a \<in> set as. \<not> P a)"
  by (induction xs) (auto split: if_splits intro: exI [of _ "[]"] dest: spec, metis append_Cons set_ConsD)

text \<open>The table after the listener \<open>l\<close> has been unlinked and destroyed: an event without
  listeners is taken out of the table.\<close>

lemma remove_present:
  assumes tab: "map_ok sc (ltable s) (lpairs s) tab" "inj_on tab (dom tab)" and h: "hung (lmem s) (ran tab) ns"
    and own: "owned (lmem s) (ran tab) ns" and ne: "\<forall>hq \<in> ran tab. ns hq \<noteq> []" and ev: "tab event = Some hq"
    and ns: "ns hq = xs @ l # ys" "lnodes (lmem s) l = Some (Some cb)"
    and find: "find_listener (lnodes (lmem s)) (lqueues (lmem s)) cb hq (ngx_queue_head hq (lqueues (lmem s))) = Some (Some l)"
    and L: "L = (\<lambda>event. case tab event of None \<Rightarrow> [] | Some hq \<Rightarrow> cbs_of (lmem s) (ns hq))"
  shows "\<exists>s'. pc_remove_listener sc event cb s = Some s' \<and>
    listeners_ok sc s' (L(event := cbs_of (lmem s) (xs @ ys)))"
proof -
  let ?m = "(lmem s)\<lparr>lqueues := ngx_queue_remove l (lqueues (lmem s)), lnodes := (lnodes (lmem s))(l := None)\<rparr>"
  let ?ns = "ns(hq := xs @ ys)"
  have hq: "hq \<in> ran tab" using ev by (auto simp: ran_def)
  have q: "queue (lqueues (lmem s)) hq (xs @ l # ys)" using hungD(2) [OF h hq] ns by simp
  have l: "l \<notin> set (?ns k)" if "k \<in> ran tab" for k
    using q hungD(5) [OF h hq that] ns by (cases "k = hq") (auto simp: queue_def)
  note h' = hung_remove [OF h hq ns(1)]
  have dest: "pc_listener_destroy l ((lmem s)\<lparr>lqueues := ngx_queue_remove l (lqueues (lmem s))\<rparr>) = Some ?m"
    using ns(2) remove_twice [OF q] by (simp add: pc_listener_destroy_def)
  have empty: "ngx_queue_empty hq (ngx_queue_remove l (lqueues (lmem s))) \<longleftrightarrow> xs @ ys = []"
    using queue_empty_iff [OF queue_remove [OF q]] .
  have inj: "k = hq \<longleftrightarrow> e = event" if "tab e = Some k" for e k
    using that ev tab(2) by (auto simp: inj_on_def dom_def)
  have c: "cbs_of ?m (?ns k) = cbs_of (lmem s) (?ns k)" if "k \<in> ran tab" for k
    by (rule cbs_of_upd(2) [OF l [OF that]])
  have cbs: "cbs_of ?m (xs @ ys) = cbs_of (lmem s) (xs @ ys)"
    "tab e = Some k \<Longrightarrow> e \<noteq> event \<Longrightarrow> cbs_of ?m (ns k) = cbs_of (lmem s) (ns k)" for e k
    using c [OF hq] c [OF ranI, of e k] inj [of e k] by (simp_all del: cbs_of_simps)
  have own': "owned ?m (ran tab) ?ns"
  proof -
    have "(\<Union>k \<in> ran tab. set (ns k)) - {l} = (\<Union>k \<in> ran tab. set (?ns k))"
    proof (intro equalityI subsetI)
      fix x assume "x \<in> (\<Union>k \<in> ran tab. set (ns k)) - {l}"
      then obtain k where "k \<in> ran tab" "x \<in> set (ns k)" "x \<noteq> l" by auto
      then have "x \<in> set (?ns k)" using ns(1) by auto
      then show "x \<in> (\<Union>k \<in> ran tab. set (?ns k))" using \<open>k \<in> ran tab\<close> by blast
    next
      fix x assume "x \<in> (\<Union>k \<in> ran tab. set (?ns k))"
      then obtain k where "k \<in> ran tab" "x \<in> set (?ns k)" by auto
      then show "x \<in> (\<Union>k \<in> ran tab. set (ns k)) - {l}" using l ns(1) by (fastforce split: if_splits)
    qed
    then show ?thesis using own by (auto simp: owned_def)
  qed
  show ?thesis
  proof (cases "xs @ ys = []")
    case False
    have "listeners_ok sc (s\<lparr>lmem := ?m\<rparr>) (L(event := cbs_of (lmem s) (xs @ ys)))"
      unfolding listeners_ok_def
      by (intro exI [of _ tab] exI [of _ ?ns])
        (use tab ne h' own' False ev inj cbs in \<open>auto simp: L fun_eq_iff ranI split: option.splits simp del: cbs_of_simps(1)\<close>)
    then show ?thesis
      using map_get_ok [OF tab(1)] ev find dest empty False by (auto simp: pc_remove_listener_def Let_def)
  next
    case True
    obtain ps where ps: "pc_map_del sc (ltable s) event (lpairs s) = Some (Some hq, ps)"
      "map_ok sc (ltable s) ps (tab(event := None))"
      using map_del_ok [OF tab(1), of event] ev by auto
    let ?s = "s\<lparr>lpairs := ps, lmem := ?m\<lparr>lheads := lheads ?m - {hq}\<rparr>\<rparr>"
    have ran: "ran (tab(event := None)) = ran tab - {hq}"
      using inj ev by (auto simp: ran_def)
    have "listeners_ok sc ?s (L(event := cbs_of (lmem s) (xs @ ys)))"
      unfolding listeners_ok_def
    proof (intro exI [of _ "tab(event := None)"] exI [of _ ?ns] conjI)
      show "hung (lmem ?s) (ran (tab(event := None))) ?ns"
        using hung_drop_head [OF h', of hq] unfolding ran by simp
      show "owned (lmem ?s) (ran (tab(event := None))) ?ns"
        using own' True by (auto simp: owned_def ran split: if_splits)
      show "L(event := cbs_of (lmem s) (xs @ ys)) = (\<lambda>e. case (tab(event := None)) e of None \<Rightarrow> []
          | Some k \<Rightarrow> cbs_of (lmem ?s) (?ns k))"
        using True inj cbs by (auto simp: L fun_eq_iff ranI split: option.splits)
    qed (use tab ps ne ran in \<open>auto simp: inj_on_def dom_def\<close>)
    moreover have "hq \<in> lheads (lmem s)" using hungD(1) [OF h hq] .
    ultimately show ?thesis
      using map_get_ok [OF tab(1)] ev find dest empty True ps by (simp add: pc_remove_listener_def Let_def)
  qed
qed

lemma remove_listener_ok:
  assumes "listeners_ok sc s L"
  shows "\<exists>s'. pc_remove_listener sc event cb s = Some s' \<and> listeners_ok sc s' (L(event := remove1 cb (L event)))"
  using assms
proof (rule listeners_okE)
  fix tab ns
  assume tab: "map_ok sc (ltable s) (lpairs s) tab" "inj_on tab (dom tab)" and h: "hung (lmem s) (ran tab) ns"
    and own: "owned (lmem s) (ran tab) ns" and ne: "\<forall>hq \<in> ran tab. ns hq \<noteq> []"
    and L: "L = (\<lambda>event. case tab event of None \<Rightarrow> [] | Some hq \<Rightarrow> cbs_of (lmem s) (ns hq))"
  let ?m = "lmem s"
  note get = map_get_ok [OF tab(1), of event]
  show ?thesis
  proof (cases "tab event")
    case None
    then have "L(event := remove1 cb (L event)) = L" by (auto simp: L)
    then show ?thesis using assms get None by (auto simp: pc_remove_listener_def)
  next
    case (Some hq)
    then have hq: "hq \<in> ran tab" by (auto simp: ran_def)
    note q = hungD(2) [OF h hq]
    have cbs: "\<forall>x \<in> set (ns hq). \<exists>c. lnodes ?m x = Some (Some c)" using hungD(3) [OF h hq] by blast
    have find: "find_listener (lnodes ?m) (lqueues ?m) cb hq (ngx_queue_head hq (lqueues ?m)) =
        Some (find (\<lambda>x. lnodes ?m x = Some (Some cb)) (ns hq))"
      using find_listener_queue [of "lqueues ?m" hq "[]" "ns hq" "lnodes ?m" cb] q cbs head_of_bucket [OF q] by simp
    show ?thesis
    proof (cases "find (\<lambda>x. lnodes ?m x = Some (Some cb)) (ns hq)")
      case None
      then have "cb \<notin> set (L event)" using Some cbs by (force simp: L cbs_of_def find_None_iff)
      then have "L(event := remove1 cb (L event)) = L" by (simp add: remove1_idem)
      moreover have "pc_remove_listener sc event cb s = Some s"
        using get Some find None queue_empty_iff [OF q] ne hq by (simp add: pc_remove_listener_def)
      ultimately show ?thesis using assms by simp
    next
      case (Some l)
      then obtain xs ys where ns: "ns hq = xs @ l # ys" "lnodes ?m l = Some (Some cb)"
          "\<forall>x \<in> set xs. lnodes ?m x \<noteq> Some (Some cb)"
        using find_split [OF Some] by blast
      have "cb \<notin> set (cbs_of ?m xs)" using ns(1,3) cbs by (force simp: cbs_of_def)
      then have "remove1 cb (L event) = cbs_of ?m (xs @ ys)"
        using ns \<open>tab event = Some hq\<close> by (simp add: L remove1_append)
      then show ?thesis
        using remove_present [OF tab h own ne \<open>tab event = Some hq\<close> ns(1,2) _ L] find Some by simp
    qed
  qed
qed

lemma release_all:
  "hung m H ns \<Longrightarrow> set (List.map snd kvs) \<subseteq> H \<Longrightarrow> distinct (List.map snd kvs) \<Longrightarrow>
   \<exists>m'. fold (\<lambda>(k, v). release_cb k v) kvs (Some m) = Some m' \<and> lheads m' = lheads m - set (List.map snd kvs) \<and>
     lnodes m' = (\<lambda>x. if \<exists>hq \<in> set (List.map snd kvs). x \<in> set (ns hq) then None else lnodes m x)"
proof (induction kvs arbitrary: m H ns)
  case (Cons kv kvs)
  obtain k hq where kv: "kv = (k, hq)" by (cases kv)
  have hq: "hq \<in> H" using Cons.prems by (simp add: kv)
  obtain m1 where m1: "release_loop hq m = Some m1" "hung m1 H (ns(hq := []))" "lheads m1 = lheads m"
    "lnodes m1 = (\<lambda>x. if x \<in> set (ns hq) then None else lnodes m x)"
    using release_loop_queue [OF Cons.prems(1) hq] by blast
  let ?m = "m1\<lparr>lheads := lheads m1 - {hq}\<rparr>"
  have "release_cb k hq (Some m) = Some ?m"
    using m1 hungD(1) [OF Cons.prems(1) hq] by (simp add: release_cb_def pc__release_listeners_def)
  moreover obtain m2 where "fold (\<lambda>(k, v). release_cb k v) kvs (Some ?m) = Some m2"
    "lheads m2 = lheads ?m - set (List.map snd kvs)"
    "lnodes m2 = (\<lambda>x. if \<exists>k \<in> set (List.map snd kvs). x \<in> set ((ns(hq := [])) k) then None else lnodes ?m x)"
    using Cons.IH [OF hung_drop_head [OF m1(2), of hq]] Cons.prems by (auto simp: kv)
  moreover have "hq \<notin> set (List.map snd kvs)" using Cons.prems(3) by (simp add: kv)
  ultimately show ?case using m1(3,4) by (auto simp: kv fun_eq_iff split: if_splits)
qed simp

lemma destroy_listeners_ok:
  assumes "listeners_ok sc s L"
  shows "\<exists>m. destroy_listeners s = Some m \<and> lnodes m = Map.empty \<and> lheads m = {}"
  using assms
proof (rule listeners_okE)
  fix tab ns
  assume tab: "map_ok sc (ltable s) (lpairs s) tab" "inj_on tab (dom tab)" and h: "hung (lmem s) (ran tab) ns"
    and own: "owned (lmem s) (ran tab) ns"
  obtain mem' kvs where c: "pc_map_clear release_cb (ltable s) (lpairs s) (Some (lmem s)) =
      Some (mem', fold (\<lambda>(k, v). release_cb k v) kvs (Some (lmem s)))"
    and kvs: "distinct (List.map fst kvs)" "map_of kvs = tab"
    using map_clear_ok [OF tab(1), of release_cb "Some (lmem s)"] by blast
  have set: "set (List.map snd kvs) = ran tab" using ran_distinct [OF kvs(1)] kvs(2) by simp
  have "distinct (List.map snd kvs)"
    unfolding distinct_map
  proof (intro conjI inj_onI)
    show "distinct kvs" using kvs(1) by (simp add: distinct_map)
    fix x y assume "x \<in> set kvs" "y \<in> set kvs" "snd x = snd y"
    then have "tab (fst x) = Some (snd x)" "tab (fst y) = Some (snd x)"
      using map_of_is_SomeI [OF kvs(1)] kvs(2) by (metis prod.collapse)+
    then have "fst x = fst y" using tab(2) by (auto simp: inj_on_def dom_def)
    then show "x = y" using \<open>snd x = snd y\<close> by (rule prod_eqI)
  qed
  from release_all [OF h _ this] obtain m where
    m: "fold (\<lambda>(k, v). release_cb k v) kvs (Some (lmem s)) = Some m" "lheads m = lheads (lmem s) - ran tab"
      "lnodes m = (\<lambda>x. if \<exists>hq \<in> ran tab. x \<in> set (ns hq) then None else lnodes (lmem s) x)"
    unfolding set by blast
  have "lnodes m = Map.empty" using own m(3) by (auto simp: owned_def fun_eq_iff dom_def)
  then show ?thesis
    using c m own by (simp add: destroy_listeners_def pc_map_destroy_def pc_map_close_def owned_def)
qed

section \<open>Properties\<close>

definition no_listeners :: "'c listeners" where
  "no_listeners = \<lparr>ltable = empty_map, lpairs = empty_mem,
     lmem = \<lparr>lqueues = \<lparr>prev = (\<lambda>_. 0), next = (\<lambda>_. 0)\<rparr>, lnodes = Map.empty, lheads = {}\<rparr>\<rparr>"

lemma no_listeners_ok: "listeners_ok sc no_listeners (\<lambda>_. [])"
  unfolding listeners_ok_def
  by (intro exI [of _ Map.empty] exI [of _ "\<lambda>_. []"])
    (simp add: no_listeners_def empty_map_ok hung_def owned_def)

text \<open>(C14) The listener table refines a function from events to lists of callbacks: adding appends,
  removing takes out the first listener with that callback and does nothing if there is none, and an
  event calls the callbacks registered for it, all of them, in the order of registration. The removal
  unlinks a listener twice, which is harmless.\<close>

theorem listeners_refine_lists:
  assumes "listeners_ok sc s L"
  shows "pc_emit_event sc event s = Some (L event) \<and>
    (\<exists>s'. pc_remove_listener sc event cb s = Some s' \<and> listeners_ok sc s' (L(event := remove1 cb (L event)))) \<and>
    ((\<forall>n. malloc n) \<and> fresh_node (lmem s) l \<and> fresh_node (lmem s) hq \<and> l \<noteq> hq \<and> fresh_pair (ltable s) (lpairs s) pr \<longrightarrow>
     (\<exists>s'. pc_add_listener malloc sc False l hq pr event cb s = Some (Ok s') \<and>
        listeners_ok sc s' (L(event := L event @ [cb]))))"
  using emit_event_ok [OF assms] remove_listener_ok [OF assms]
    add_listener_ok [OF assms, of malloc event l hq pr cb] by blast

theorem listeners_refine_lists_witness:
  "\<exists>s. pc_add_listener (\<lambda>_. True) True False 1 2 3 ''onKick'' ''cb'' no_listeners = Some (Ok s) \<and>
     listeners_ok True s ((\<lambda>_. [])(''onKick'' := [''cb'']))"
  using listeners_refine_lists [OF no_listeners_ok [of True], where event = "''onKick''" and cb = "''cb''" and malloc = "\<lambda>_. True" and l = 1 and hq = 2 and pr = 3]
  by (simp add: fresh_node_def no_listeners_def empty_map_fresh empty_mem_def)

text \<open>Destroying the table of listeners frees every listener and every queue, each of them once
  (a second \<open>free\<close> would be undefined): nothing is left.\<close>

theorem listeners_destroyed:
  assumes "listeners_ok sc s L"
  shows "\<exists>m. destroy_listeners s = Some m \<and> lnodes m = Map.empty \<and> lheads m = {}"
  using assms by (rule destroy_listeners_ok)

theorem listeners_destroyed_witness:
  "\<exists>s m. pc_add_listener (\<lambda>_. True) True False 1 2 3 ''onKick'' ''cb'' no_listeners = Some (Ok s) \<and>
     destroy_listeners s = Some m \<and> lnodes m = Map.empty \<and> lheads m = {}"
proof -
  obtain s where s: "pc_add_listener (\<lambda>_. True) True False 1 2 3 ''onKick'' ''cb'' no_listeners = Some (Ok s)"
    "listeners_ok True s ((\<lambda>_. [])(''onKick'' := [] @ [''cb'']))"
    using add_listener_ok [OF no_listeners_ok, of "\<lambda>_. True" "''onKick''" 1 2 3 True "''cb''"]
    by (auto simp: fresh_node_def no_listeners_def empty_map_fresh empty_mem_def)
  then show ?thesis using listeners_destroyed [OF s(2)] by blast
qed

text \<open>\<open>pc_add_listener\<close> ignores the result of \<open>pc_map_set\<close>: if the pair or its key cannot
  be allocated, the call reports success although the event still has no listener.\<close>

theorem add_listener_lost:
  assumes "listeners_ok sc s L" "L event = []" "malloc 24" "malloc 16" "\<not> malloc 32"
  shows "\<exists>s'. pc_add_listener malloc sc False l hq pr event cb s = Some (Ok s') \<and> pc_emit_event sc event s' = Some []"
proof -
  obtain tab ns where tab: "map_ok sc (ltable s) (lpairs s) tab" and ne: "\<forall>hq \<in> ran tab. ns hq \<noteq> []"
    and L: "L = (\<lambda>event. case tab event of None \<Rightarrow> [] | Some hq \<Rightarrow> cbs_of (lmem s) (ns hq))"
    using assms(1) by (rule listeners_okE)
  have "tab event = None"
    using assms(2) ne L ranI [of tab event] by (cases "tab event") (auto simp: cbs_of_def)
  then have "pc_map_get sc (ltable s) event (lpairs s) = Some None" using map_get_ok [OF tab] by simp
  then show ?thesis
    using assms(3-5)
    by (simp add: pc_add_listener_def pc_listener_new_def pc_map_set_def pc_emit_event_def)
qed

theorem add_listener_lost_witness:
  "\<exists>s'. pc_add_listener (\<lambda>n. n \<noteq> 32) True False 1 2 3 ''e'' ''cb'' no_listeners = Some (Ok s') \<and>
     pc_emit_event True ''e'' s' = Some []"
  by (rule add_listener_lost [OF no_listeners_ok]) simp_all

end
