(* ===== verification/Client_Base.thy ===== *)
theory Client_Base
  imports Package Codec Listeners
begin

text \<open>
  The state of a client and the operations at the bottom of \<open>client.c\<close>, \<open>network.c\<close> and
  \<open>transport.c\<close>: the structures of \<open>pomelo.h\<close>, the timers of libuv, transports, the table of
  pending requests, event delivery and the raw write.

  \<^item> \<open>pc_world\<close> is the structure \<open>pc_client_s\<close> together with the objects it points to
    (transports, requests, connect requests, by address) and what libuv has been asked to do and has not
    done yet (connects, writes, asyncs). A freed object is no longer in its map; using it is undefined
    behaviour (\<open>None\<close>). New objects get addresses that were never used before.
  \<^item> Callbacks into user code are recorded in \<open>trace\<close>, in order. They do not act on the client:
    what they call is a step of its own.
  \<^item> \<open>env\<close> is what the world answers during one callback of libuv or one call of the interface:
    whether allocations and libuv calls succeed, the text form of JSON values, the random number, files.
  \<^item> The package parser is kept beside the world, since only the reconnect touches it.
  \<^item> The table of listeners is its abstraction (\<open>Listeners\<close>), the table of requests is the list of
    its pairs in the order of insertion, from which the order inside the buckets follows
    (\<open>Pc_Map\<close>).
\<close>

section \<open>Data\<close>

datatype pc_client_state =
  PC_ST_INITED | PC_ST_CONNECTING | PC_ST_CONNECTED | PC_ST_WORKING | PC_ST_DISCONNECTING | PC_ST_CLOSED

datatype pc_transport_state = PC_TP_ST_INITED | PC_TP_ST_CONNECTING | PC_TP_ST_WORKING | PC_TP_ST_CLOSED

datatype pc_req_type = PC_CONNECT | PC_REQUEST | PC_NOTIFY

text \<open>The functions that are installed as callbacks.\<close>

datatype timer_cb = Heartbeat_timer_cb | Timeout_timer_cb | Handshake_timer_cb | Reconnect_timer_cb

datatype connect_cb = Client_connected_cb | Client_reconnected_cb | Client_connect3_cb | User_connect_cb

datatype write_cb =
    On_request nat | On_notify nat
  | Handshake_req_cb nat | Handshake_ack_cb nat | Heartbeat_req_cb nat

record uv_timer =
  t_active :: bool
  t_closing :: bool
  t_cb :: "timer_cb option"
  t_timeout :: nat
  t_repeat :: nat

record uv_write =
  w_transport :: nat
  w_bytes :: "byte list"
  w_cb :: write_cb

record pc_tcp_req =
  r_type :: pc_req_type
  r_id :: nat
  r_route :: "string option"
  r_msg :: "json option"
  r_transport :: "nat option"

text \<open>An address: IP and port.\<close>

type_synonym sockaddr_in = "nat \<times> nat"

record pc_connect_s =
  c_address :: "sockaddr_in option"
  c_cb :: "connect_cb option"
  c_transport :: "nat option"

datatype event =
    Request_cb nat int "json option"
  | Notify_cb nat int
  | Connect_cb nat int
  | Event_cb nat string "json option"
  | Handshake_cb "json option"
  | Dump_file string "json option"
  | Proto_write string "json option"
  | Broadcast

record pc_client = pc_codec +
  state :: pc_client_state
  transport :: "nat option"
  listeners :: "string \<Rightarrow> nat list"
  requests :: "(string \<times> nat) list"
  heartbeat :: int
  timeout :: int
  handshake_opts :: "json option"
  handshake_cb :: bool
  conn_req :: "nat option"
  proto_ver :: "json option"
  proto_read_dir :: "string option"
  proto_write_dir :: "string option"
  proto_event_cb :: bool
  heartbeat_timer :: "uv_timer option"
  timeout_timer :: "uv_timer option"
  handshake_timer :: "uv_timer option"
  close_async :: bool
  reconnect_timer :: uv_timer
  enable_reconnect :: bool
  reconnects :: int
  reconnecting :: bool
  max_reconnects_incr :: int
  reconnect_delay :: int
  reconnect_delay_max :: int
  enable_exp_backoff :: bool
  host :: "string option"
  port :: int
  client_addr :: sockaddr_in

record pc_world = pc_client +
  transports :: "nat \<Rightarrow> pc_transport_state option"
  tcp_reqs :: "nat \<Rightarrow> pc_tcp_req option"
  connects :: "nat \<Rightarrow> pc_connect_s option"
  uv_connects :: "(nat \<times> nat) list"
  uv_writes :: "uv_write list"
  uv_asyncs :: "nat list"
  close_sent :: bool
  pc__req_id :: nat
  heap_next :: nat
  trace :: "event list"

text \<open>Objects of a fixed size that are allocated, and calls of libuv that may fail.\<close>

datatype obj = Obj_uv_connect | Obj_ptr_pair | Obj_transport | Obj_uv_tcp | Obj_uv_write | Obj_uv_async
  | Obj_request | Obj_notify | Obj_connect | Obj_sockaddr | Obj_client | Obj_uv_loop | Obj_uv_timer

datatype uv_call = Uv_tcp_init | Uv_tcp_connect | Uv_read_start | Uv_write | Uv_async_init | Uv_async_send

record env =
  malloc_ok :: malloc
  alloc_ok :: "obj \<Rightarrow> bool"
  uv_ok :: "uv_call \<Rightarrow> bool"
  env_junk :: "nat \<Rightarrow> byte"
  env_dumps :: dumps
  env_loadb :: loadb
  signed_char :: bool
  env_rand :: nat
  env_handshake :: "json option \<Rightarrow> int"
  env_load_file :: "string \<Rightarrow> json option"
  env_proto_read :: "string \<Rightarrow> json option"
  env_addrinfo :: "string \<Rightarrow> (bool \<times> nat) list option"

definition PC_EVENT_DISCONNECT :: string where "PC_EVENT_DISCONNECT = ''disconnect''"
definition PC_EVENT_TIMEOUT :: string where "PC_EVENT_TIMEOUT = ''timeout''"
definition PC_EVENT_KICK :: string where "PC_EVENT_KICK = ''onKick''"
definition PC_EVENT_RECONNECT :: string where "PC_EVENT_RECONNECT = ''reconnect''"

section \<open>Timers\<close>

text \<open>\<open>t_timeout\<close> is the time until the timer expires, as it was passed; the clock is not modelled.\<close>

definition uv_timer_init :: uv_timer where
  "uv_timer_init = \<lparr>t_active = False, t_closing = False, t_cb = None, t_timeout = 0, t_repeat = 0\<rparr>"

definition uv_timer_stop :: "uv_timer \<Rightarrow> uv_timer" where
  "uv_timer_stop t = t\<lparr>t_active := False\<rparr>"

definition uv_timer_start :: "timer_cb \<Rightarrow> nat \<Rightarrow> nat \<Rightarrow> uv_timer \<Rightarrow> uv_timer" where
  "uv_timer_start cb tmo rep t =
     (if t_active t then uv_timer_stop t else t)\<lparr>t_cb := Some cb, t_timeout := tmo, t_repeat := rep, t_active := True\<rparr>"

definition uv_timer_again :: "uv_timer \<Rightarrow> uv_timer" where
  "uv_timer_again t =
     (case t_cb t of
        None \<Rightarrow> t
      | Some cb \<Rightarrow> if t_repeat t \<noteq> 0 then uv_timer_start cb (t_repeat t) (t_repeat t) (uv_timer_stop t) else t)"

definition uv_timer_set_repeat :: "nat \<Rightarrow> uv_timer \<Rightarrow> uv_timer" where
  "uv_timer_set_repeat rep t = t\<lparr>t_repeat := rep\<rparr>"

text \<open>What \<open>uv__run_timers\<close> does to an expired timer before it calls the callback.\<close>

definition uv_run_timer :: "uv_timer \<Rightarrow> uv_timer" where
  "uv_run_timer t = uv_timer_again (uv_timer_stop t)"

text \<open>\<open>uv_close\<close> asserts that the handle is not closing already.\<close>

definition uv_timer_close :: "uv_timer \<Rightarrow> uv_timer option" where
  "uv_timer_close t = (if t_closing t then None else Some ((uv_timer_stop t)\<lparr>t_closing := True\<rparr>))"

text \<open>An operation on a timer through a pointer of the client that may be null.\<close>

definition on_timer :: "(uv_timer \<Rightarrow> uv_timer) \<Rightarrow> uv_timer option \<Rightarrow> uv_timer option option" where
  "on_timer f p = map_option (Some \<circ> f) p"

section \<open>Callbacks into user code\<close>

definition logged :: "event \<Rightarrow> pc_world \<Rightarrow> pc_world" where
  "logged ev s = s\<lparr>trace := trace s @ [ev]\<rparr>"

text \<open>\<open>req->cb(req, status, resp)\<close>: undefined if the request has been freed.\<close>

definition request_cb :: "nat \<Rightarrow> int \<Rightarrow> json option \<Rightarrow> pc_world \<Rightarrow> pc_world option" where
  "request_cb r status resp s =
     (case tcp_reqs s r of None \<Rightarrow> None | Some _ \<Rightarrow> Some (logged (Request_cb r status resp) s))"

definition notify_cb :: "nat \<Rightarrow> int \<Rightarrow> pc_world \<Rightarrow> pc_world option" where
  "notify_cb r status s =
     (case tcp_reqs s r of None \<Rightarrow> None | Some _ \<Rightarrow> Some (logged (Notify_cb r status) s))"

text \<open>\<open>pc_emit_event\<close>, on the abstraction of the table of listeners. (The data of the reconnect
  event is the client itself; it is left out.)\<close>

definition client_emit :: "string \<Rightarrow> json option \<Rightarrow> pc_world \<Rightarrow> pc_world" where
  "client_emit event data s =
     s\<lparr>trace := trace s @ map (\<lambda>l. Event_cb l event data) (listeners s event)\<rparr>"

section \<open>The table of requests\<close>

definition requests_get :: "string \<Rightarrow> pc_world \<Rightarrow> nat option" where
  "requests_get key s = map_of (requests s) key"

definition requests_del :: "string \<Rightarrow> pc_world \<Rightarrow> pc_world" where
  "requests_del key s = s\<lparr>requests := filter (\<lambda>kv. fst kv \<noteq> key) (requests s)\<rparr>"

definition same_bucket :: "bool \<Rightarrow> string \<Rightarrow> string \<Rightarrow> bool" where
  "same_bucket sc k k' \<longleftrightarrow> pc__hash sc k mod 256 = pc__hash sc k' mod 256"

text \<open>\<open>pc_map_set\<close>, whose result the caller ignores: nothing happens if an allocation fails; a
  request that is registered under the same id is released, unless another one shares its bucket: then
  the call does not return.\<close>

definition requests_set :: "env \<Rightarrow> string \<Rightarrow> nat \<Rightarrow> pc_world \<Rightarrow> pc_world option" where
  "requests_set e key r s =
     (if \<not> malloc_ok e 32 \<or> \<not> malloc_ok e (length key + 1) then Some s
      else case requests_get key s of
        None \<Rightarrow> Some (s\<lparr>requests := requests s @ [(key, r)]\<rparr>)
      | Some old \<Rightarrow>
          if list_ex (\<lambda>kv. fst kv \<noteq> key \<and> same_bucket (signed_char e) (fst kv) key) (requests s) then None
          else request_cb old (-1) None
            (s\<lparr>requests := filter (\<lambda>kv. fst kv \<noteq> key) (requests s) @ [(key, r)]\<rparr>))"

text \<open>\<open>pc_map_clear\<close> with \<open>pc__release_requests\<close>, bucket by bucket.\<close>

definition bucket_order :: "bool \<Rightarrow> (string \<times> nat) list \<Rightarrow> (string \<times> nat) list" where
  "bucket_order sc kvs = concat (map (\<lambda>i. filter (\<lambda>kv. pc__hash sc (fst kv) mod 256 = i) kvs) [0..<256])"

fun pc__release_requests :: "(string \<times> nat) list \<Rightarrow> pc_world \<Rightarrow> pc_world option" where
  "pc__release_requests [] s = Some s"
| "pc__release_requests ((key, r) # kvs) s = do {
     s \<leftarrow> request_cb r (-1) None s;
     pc__release_requests kvs s }"

definition requests_clear :: "env \<Rightarrow> pc_world \<Rightarrow> pc_world option" where
  "requests_clear e s =
     pc__release_requests (bucket_order (signed_char e) (requests s)) (s\<lparr>requests := []\<rparr>)"

section \<open>Transports\<close>

text \<open>The error path of \<open>pc_transport_new\<close> reads a field of the transport even if that is what
  could not be allocated.\<close>

definition pc_transport_new :: "env \<Rightarrow> pc_world \<Rightarrow> (nat \<times> pc_world) cret option" where
  "pc_transport_new e s =
     (if \<not> alloc_ok e Obj_transport then None
      else if \<not> alloc_ok e Obj_uv_tcp then Some Fail
      else if \<not> uv_ok e Uv_tcp_init then Some Fail
      else Some (Ok (heap_next s, s\<lparr>heap_next := heap_next s + 1,
                                    transports := (transports s)(heap_next s \<mapsto> PC_TP_ST_INITED)\<rparr>)))"

definition pc_transport_destroy :: "nat \<Rightarrow> pc_world \<Rightarrow> pc_world option" where
  "pc_transport_destroy t s =
     (case transports s t of
        None \<Rightarrow> None
      | Some PC_TP_ST_CLOSED \<Rightarrow> Some s
      | Some PC_TP_ST_INITED \<Rightarrow> Some (s\<lparr>transports := (transports s)(t := None)\<rparr>)
      | Some _ \<Rightarrow> Some (s\<lparr>transports := (transports s)(t \<mapsto> PC_TP_ST_CLOSED)\<rparr>))"

definition pc_transport_start :: "nat \<Rightarrow> pc_world \<Rightarrow> (int \<times> pc_world) option" where
  "pc_transport_start t s =
     (case transports s t of
        None \<Rightarrow> None
      | Some PC_TP_ST_CONNECTING \<Rightarrow> Some (0, s\<lparr>transports := (transports s)(t \<mapsto> PC_TP_ST_WORKING)\<rparr>)
      | Some _ \<Rightarrow> Some (-1, s))"

text \<open>The close callback frees the socket and the transport.\<close>

definition pc__tcp_close_cb :: "nat \<Rightarrow> pc_world \<Rightarrow> pc_world option" where
  "pc__tcp_close_cb t s =
     (case transports s t of None \<Rightarrow> None | Some _ \<Rightarrow> Some (s\<lparr>transports := (transports s)(t := None)\<rparr>))"

definition tp_working :: "nat \<Rightarrow> pc_world \<Rightarrow> bool option" where
  "tp_working t s = map_option (\<lambda>st. st = PC_TP_ST_WORKING) (transports s t)"

section \<open>The raw write\<close>

text \<open>\<open>pc__binary_write\<close>. The buffer may be null; that is checked where the code means to check the
  second allocation, whose failure is therefore undefined behaviour. The callback is given the
  transport.\<close>

definition pc__binary_write ::
  "env \<Rightarrow> byte list option \<Rightarrow> (nat \<Rightarrow> write_cb) \<Rightarrow> pc_world \<Rightarrow> pc_world cret option" where
  "pc__binary_write e data cb s =
     (if state s \<noteq> PC_ST_CONNECTED \<and> state s \<noteq> PC_ST_WORKING then Some Fail
      else if \<not> alloc_ok e Obj_uv_write then Some Fail
      else case data of
        None \<Rightarrow> Some Fail
      | Some bs \<Rightarrow>
          if \<not> alloc_ok e Obj_ptr_pair then None
          else case transport s of
            None \<Rightarrow> None
          | Some t \<Rightarrow>
              if transports s t = None then None
              else if \<not> uv_ok e Uv_write then Some Fail
              else Some (Ok (s\<lparr>uv_writes := uv_writes s @ [\<lparr>w_transport = t, w_bytes = bs, w_cb = cb t\<rparr>]\<rparr>)))"

end
