(* ===== verification/Connection.thy ===== *)
theory Connection
  imports Client_Base Complex_Main
begin

text \<open>
  The life of a connection: \<open>client.c\<close> without the listeners, the connect part of
  \<open>network.c\<close>, \<open>pkg-handshake.c\<close>, \<open>pkg-heartbeat.c\<close> and \<open>thread.c\<close>. The functions that
  may end in \<open>pc_client_stop\<close> act on the world and the parser, since a reconnect resets the parser.

  Signed arithmetic that does not fit in an \<open>int\<close> is undefined (\<open>c_int\<close>). An \<open>abort\<close> and a
  failing \<open>assert\<close> end the run as well and are \<open>None\<close> too.
\<close>

type_synonym pc_state = "pc_world \<times> pc_pkg_parser"

definition c_int :: "int \<Rightarrow> int option" where
  "c_int i = (if - (2 ^ 31) \<le> i \<and> i < 2 ^ 31 then Some i else None)"

section \<open>Stopping and reconnecting\<close>

text \<open>\<open>pc__client_reconnect_reset\<close>: the handshake timer is not stopped, the code stops the timeout
  timer a second time instead.\<close>

definition drop_transport :: "pc_world \<Rightarrow> pc_world option" where
  "drop_transport s =
     (case transport s of
        None \<Rightarrow> Some s
      | Some t \<Rightarrow> do { s \<leftarrow> pc_transport_destroy t s; Some (s\<lparr>transport := None\<rparr>) })"

definition stop_timers :: "pc_world \<Rightarrow> pc_world option" where
  "stop_timers s = do {
     let s = (if heartbeat_timer s \<noteq> None
              then s\<lparr>heartbeat_timer := map_option uv_timer_stop (heartbeat_timer s), heartbeat := 0\<rparr> else s);
     let s = (if timeout_timer s \<noteq> None
              then s\<lparr>timeout_timer := map_option uv_timer_stop (timeout_timer s), timeout := 0\<rparr> else s);
     if handshake_timer s \<noteq> None
     then do { t \<leftarrow> on_timer uv_timer_stop (timeout_timer s); Some (s\<lparr>timeout_timer := t\<rparr>) }
     else Some s }"

definition pc__client_reconnect_reset :: "env \<Rightarrow> pc_state \<Rightarrow> pc_state option" where
  "pc__client_reconnect_reset e = (\<lambda>(s, p). do {
     s \<leftarrow> drop_transport s;
     s \<leftarrow> stop_timers s;
     s \<leftarrow> requests_clear e s;
     p \<leftarrow> pc_pkg_parser_reset p;
     Some (s\<lparr>handshake_opts := None, route_to_code := None, code_to_route := None,
             server_protos := None, client_protos := None, state := PC_ST_INITED\<rparr>, p) })"

text \<open>The delay in seconds before it is randomised.\<close>

definition reconnect_base :: "pc_world \<Rightarrow> int option" where
  "reconnect_base s = do {
     delay \<leftarrow> (if reconnects s \<ge> max_reconnects_incr s then Some (reconnect_delay_max s)
              else if enable_exp_backoff s
              then if 0 \<le> reconnects s \<and> reconnects s < 32 \<and> 0 \<le> reconnect_delay s
                   then c_int (reconnect_delay s * 2 ^ nat (reconnects s)) else None
              else c_int (reconnect_delay s * reconnects s));
     Some (if delay > reconnect_delay_max s then reconnect_delay_max s else delay) }"

definition pc__client_reconnect :: "env \<Rightarrow> pc_state \<Rightarrow> pc_state option" where
  "pc__client_reconnect e = (\<lambda>(s, p). do {
     (s, p) \<leftarrow> pc__client_reconnect_reset e (s\<lparr>reconnecting := True\<rparr>, p);
     n \<leftarrow> c_int (reconnects s + 1);
     let s = s\<lparr>reconnects := n\<rparr>;
     delay \<leftarrow> reconnect_base s;
     delay \<leftarrow> (if delay = 0 then None else c_int (int (env_rand e) mod \<bar>delay\<bar> + delay));
     tmo \<leftarrow> c_int (delay * 1000);
     Some (s\<lparr>reconnect_timer := uv_timer_start Reconnect_timer_cb (size_of_int tmo) 0 (reconnect_timer s)\<rparr>, p) })"

definition close_timer :: "uv_timer option \<Rightarrow> uv_timer option option" where
  "close_timer p = (case p of None \<Rightarrow> Some None | Some t \<Rightarrow> map_option (\<lambda>_. None) (uv_timer_close t))"

text \<open>The part of \<open>pc_client_stop\<close> that closes everything; the pointers to closed timers become null.\<close>

definition client_close :: "pc_world \<Rightarrow> pc_world option" where
  "client_close s = do {
     s \<leftarrow> drop_transport (s\<lparr>state := PC_ST_CLOSED\<rparr>);
     hb \<leftarrow> close_timer (heartbeat_timer s);
     let s = s\<lparr>heartbeat := (if heartbeat_timer s \<noteq> None then 0 else heartbeat s), heartbeat_timer := hb\<rparr>;
     tm \<leftarrow> close_timer (timeout_timer s);
     let s = s\<lparr>timeout := (if timeout_timer s \<noteq> None then 0 else timeout s), timeout_timer := tm\<rparr>;
     hs \<leftarrow> close_timer (handshake_timer s);
     let s = s\<lparr>handshake_timer := hs, close_async := False\<rparr>;
     if enable_reconnect s
     then do { rt \<leftarrow> uv_timer_close (reconnect_timer s); Some (s\<lparr>reconnect_timer := rt\<rparr>) }
     else Some s }"

definition pc_client_stop :: "env \<Rightarrow> pc_state \<Rightarrow> pc_state option" where
  "pc_client_stop e = (\<lambda>(s, p).
     if enable_reconnect s \<and> state s \<noteq> PC_ST_DISCONNECTING then
       if reconnecting s then Some (s, p) else pc__client_reconnect e (s, p)
     else if state s = PC_ST_INITED then Some (s\<lparr>state := PC_ST_CLOSED\<rparr>, p)
     else if state s = PC_ST_CLOSED then Some (s, p)
     else do { s \<leftarrow> client_close s; Some (s, p) })"

text \<open>\<open>uv_async_send\<close> through a null pointer is undefined.\<close>

definition pc_client_disconnect :: "pc_world \<Rightarrow> pc_world option" where
  "pc_client_disconnect s =
     (if close_async s then Some (s\<lparr>state := PC_ST_DISCONNECTING, close_sent := True\<rparr>) else None)"

definition pc__close_async_cb :: "env \<Rightarrow> pc_state \<Rightarrow> pc_state option" where
  "pc__close_async_cb e = pc_client_stop e"

section \<open>Callbacks of connect requests\<close>

definition pc_connect_req_new :: "env \<Rightarrow> sockaddr_in option \<Rightarrow> pc_world \<Rightarrow> (nat \<times> pc_world) cret" where
  "pc_connect_req_new e address s =
     (case address of
        None \<Rightarrow> Fail
      | Some a \<Rightarrow> if \<not> alloc_ok e Obj_connect \<or> \<not> alloc_ok e Obj_sockaddr then Fail
          else Ok (heap_next s, s\<lparr>heap_next := heap_next s + 1,
            connects := (connects s)(heap_next s \<mapsto> \<lparr>c_address = Some a, c_cb = None, c_transport = None\<rparr>)\<rparr>))"

definition pc_connect_req_destroy :: "nat \<Rightarrow> pc_world \<Rightarrow> pc_world option" where
  "pc_connect_req_destroy c s =
     (case connects s c of None \<Rightarrow> None | Some _ \<Rightarrow> Some (s\<lparr>connects := (connects s)(c := None)\<rparr>))"

definition pc__client_connected_cb :: "env \<Rightarrow> int \<Rightarrow> pc_state \<Rightarrow> pc_state option" where
  "pc__client_connected_cb e status = (\<lambda>(s, p).
     if status = -1 then pc_client_stop e (s, p) else Some (logged Broadcast s, p))"

definition pc__client_reconnected_cb :: "env \<Rightarrow> int \<Rightarrow> pc_state \<Rightarrow> pc_state option" where
  "pc__client_reconnected_cb e status = (\<lambda>(s, p).
     let s = s\<lparr>reconnecting := False, reconnect_timer := uv_timer_stop (reconnect_timer s)\<rparr> in
     if status = 0 then Some (client_emit PC_EVENT_RECONNECT None (s\<lparr>reconnects := 0\<rparr>), p)
     else pc_client_stop e (s, p))"

definition pc__client_connect3_cb :: "env \<Rightarrow> nat \<Rightarrow> int \<Rightarrow> pc_state \<Rightarrow> pc_state option" where
  "pc__client_connect3_cb e c status = (\<lambda>(s, p).
     if status = -1 then do {
       (s, p) \<leftarrow> pc_client_stop e (s, p);
       s \<leftarrow> pc_connect_req_destroy c s;
       Some (s, p) }
     else do {
       s \<leftarrow> pc_connect_req_destroy c (client_emit PC_EVENT_RECONNECT None s);
       Some (s, p) })"

text \<open>\<open>conn_req->cb(conn_req, status)\<close>.\<close>

definition run_connect_cb :: "env \<Rightarrow> nat \<Rightarrow> int \<Rightarrow> pc_state \<Rightarrow> pc_state option" where
  "run_connect_cb e c status = (\<lambda>(s, p). do {
     conn \<leftarrow> connects s c;
     cb \<leftarrow> c_cb conn;
     let s = logged (Connect_cb c status) s;
     case cb of
       Client_connected_cb \<Rightarrow> pc__client_connected_cb e status (s, p)
     | Client_reconnected_cb \<Rightarrow> pc__client_reconnected_cb e status (s, p)
     | Client_connect3_cb \<Rightarrow> pc__client_connect3_cb e c status (s, p)
     | User_connect_cb \<Rightarrow> Some (s, p) })"

text \<open>The code that takes the connect request out of the client and calls it.\<close>

definition finish_connect :: "env \<Rightarrow> int \<Rightarrow> pc_state \<Rightarrow> pc_state option" where
  "finish_connect e status = (\<lambda>(s, p).
     case conn_req s of
       None \<Rightarrow> Some (s, p)
     | Some c \<Rightarrow> run_connect_cb e c status (s\<lparr>conn_req := None\<rparr>, p))"

section \<open>Handshake and heartbeat\<close>

definition PC_PROTO_VERSION :: string where "PC_PROTO_VERSION = ''protoVersion''"
definition PC_PROTO_CLIENT :: string where "PC_PROTO_CLIENT = ''clientProtos''"
definition PC_PROTO_SERVER :: string where "PC_PROTO_SERVER = ''serverProtos''"

definition HANDSHAKE_TIMEOUT :: nat where "HANDSHAKE_TIMEOUT = 10000"
definition PC_HANDSHAKE_OK :: int where "PC_HANDSHAKE_OK = 200"
definition PC_HEARTBEAT_TIMEOUT_FACTOR :: int where "PC_HEARTBEAT_TIMEOUT_FACTOR = 2"

text \<open>The allocation of the path is not checked. The file is written next to the files that are read:
  the code uses \<open>proto_read_dir\<close> where it has tested \<open>proto_write_dir\<close>.\<close>

definition pc__load_file :: "env \<Rightarrow> string \<Rightarrow> pc_world \<Rightarrow> json option option" where
  "pc__load_file e name s =
     (if proto_event_cb s then Some (env_proto_read e name)
      else case proto_read_dir s of
        Some dir \<Rightarrow> if malloc_ok e (length dir + 1 + length name + 1)
          then Some (env_load_file e (dir @ ''/'' @ name)) else None
      | None \<Rightarrow> Some (env_load_file e name))"

definition pc__dump_file :: "env \<Rightarrow> string \<Rightarrow> json option \<Rightarrow> pc_world \<Rightarrow> pc_world option" where
  "pc__dump_file e name src s =
     (if proto_event_cb s then Some (logged (Proto_write name src) s)
      else case proto_write_dir s of
        Some _ \<Rightarrow> do {
          dir \<leftarrow> proto_read_dir s;
          if malloc_ok e (length dir + 1 + length name + 1)
          then Some (logged (Dump_file (dir @ ''/'' @ name) src) s) else None }
      | None \<Rightarrow> Some (logged (Dump_file name src) s))"

text \<open>The body of the handshake request. (The code puts \<open>sys\<close> into the body first and fills it
  through the shared pointer.)\<close>

definition handshake_sys :: "env \<Rightarrow> pc_world \<Rightarrow> (json \<times> pc_world) option" where
  "handshake_sys e s = do {
     let sys = json_object_set json_object (Some ''type'') (json_string ''c'');
     let sys = json_object_set sys (Some ''version'') (json_string ''0.3.4'');
     case proto_ver s of
       Some v \<Rightarrow> Some (json_object_set sys (Some PC_PROTO_VERSION) (Some v), s)
     | None \<Rightarrow> do {
         proto \<leftarrow> pc__load_file e PC_PROTO_VERSION s;
         case proto of
           None \<Rightarrow> Some (sys, s)
         | Some pr \<Rightarrow>
             let v = json_object_get (Some pr) PC_PROTO_VERSION
             in Some (json_object_set sys (Some PC_PROTO_VERSION) v, s\<lparr>proto_ver := v\<rparr>) } }"

definition handshake_body :: "json \<Rightarrow> json option \<Rightarrow> json" where
  "handshake_body sys opts =
     (let body = json_object_set json_object (Some ''sys'') (Some sys)
      in case json_object_get opts ''user'' of
           None \<Rightarrow> body
         | Some user \<Rightarrow> json_object_set body (Some ''user'') (Some user))"

text \<open>The result of \<open>pc_pkg_encode\<close> is not checked; a null buffer is refused by
  \<open>pc__binary_write\<close>.\<close>

definition pc__handshake_req :: "env \<Rightarrow> pc_world \<Rightarrow> (int \<times> pc_world) option" where
  "pc__handshake_req e s = do {
     (sys, s) \<leftarrow> handshake_sys e s;
     case env_dumps e (handshake_body sys (handshake_opts s)) of
       None \<Rightarrow> Some (-1, s)
     | Some data \<Rightarrow> do {
         buf \<leftarrow> pc_pkg_encode (malloc_ok e) PC_PKG_HANDSHAKE (str_bytes data) (length data);
         r \<leftarrow> pc__binary_write e (case buf of Fail \<Rightarrow> None | Ok bs \<Rightarrow> Some bs) Handshake_req_cb s;
         case r of
           Fail \<Rightarrow> Some (-1, s)
         | Ok s \<Rightarrow> do {
             t \<leftarrow> on_timer (uv_timer_start Handshake_timer_cb HANDSHAKE_TIMEOUT 0) (handshake_timer s);
             Some (0, s\<lparr>handshake_timer := t\<rparr>) } } }"

definition pc__handshake_ack :: "env \<Rightarrow> pc_world \<Rightarrow> (int \<times> pc_world) option" where
  "pc__handshake_ack e s = do {
     buf \<leftarrow> pc_pkg_encode (malloc_ok e) PC_PKG_HANDSHAKE_ACK [] 0;
     case buf of
       Fail \<Rightarrow> Some (-1, s)
     | Ok bs \<Rightarrow> do {
         r \<leftarrow> pc__binary_write e (Some bs) Handshake_ack_cb s;
         Some (case r of Fail \<Rightarrow> (-1, s) | Ok s \<Rightarrow> (0, s)) } }"

definition pc__heartbeat :: "pc_world \<Rightarrow> (int \<times> pc_world) option" where
  "pc__heartbeat s = do {
     tm \<leftarrow> on_timer uv_timer_stop (timeout_timer s);
     hb \<leftarrow> on_timer uv_timer_again (heartbeat_timer s);
     Some (0, s\<lparr>timeout_timer := tm, heartbeat_timer := hb\<rparr>) }"

text \<open>The pieces of \<open>pc__handshake_resp\<close> that read \<open>sys\<close>: heartbeat, dictionary, protobuf
  definitions. \<open>json_int_t\<close> has 64 bits, \<open>heartbeat\<close> and \<open>timeout\<close> have 32.\<close>

definition setup_heartbeat :: "json \<Rightarrow> pc_world \<Rightarrow> pc_world option" where
  "setup_heartbeat sys s =
     (let hb = json_integer_value (json_object_get (Some sys) ''heartbeat'') in
      if hb \<le> 0 then Some (s\<lparr>heartbeat := -1, timeout := -1\<rparr>)
      else if hb * 1000 \<ge> 2 ^ 63 then None
      else do {
        let beat = int_of_json_int (hb * 1000);
        tmo \<leftarrow> c_int (beat * PC_HEARTBEAT_TIMEOUT_FACTOR);
        hbt \<leftarrow> on_timer (uv_timer_set_repeat (size_of_int beat)) (heartbeat_timer s);
        tmt \<leftarrow> on_timer (uv_timer_set_repeat (size_of_int tmo)) (timeout_timer s);
        Some (s\<lparr>heartbeat := beat, timeout := tmo, heartbeat_timer := hbt, timeout_timer := tmt\<rparr>) })"

definition setup_dict :: "json \<Rightarrow> pc_world \<Rightarrow> pc_world" where
  "setup_dict sys s =
     (case json_object_get (Some sys) ''dict'' of
        None \<Rightarrow> s
      | Some dict \<Rightarrow> s\<lparr>route_to_code := Some dict, code_to_route := Some (code_table dict)\<rparr>)"

definition setup_protos :: "env \<Rightarrow> json \<Rightarrow> pc_world \<Rightarrow> pc_world option" where
  "setup_protos e sys s =
     (if json_object_get (Some sys) ''useProto'' = None
      then Some (s\<lparr>server_protos := None, client_protos := None, proto_ver := None\<rparr>)
      else case json_object_get (Some sys) ''protos'' of
        Some protos \<Rightarrow> do {
          let s = s\<lparr>server_protos := json_object_get (Some protos) ''server'',
                    client_protos := json_object_get (Some protos) ''client''\<rparr>;
          let t = json_object_set json_object (Some PC_PROTO_VERSION) (json_object_get (Some protos) ''version'');
          s \<leftarrow> pc__dump_file e PC_PROTO_VERSION (Some t) s;
          s \<leftarrow> pc__dump_file e PC_PROTO_SERVER (server_protos s) s;
          pc__dump_file e PC_PROTO_CLIENT (client_protos s) s }
      | None \<Rightarrow> do {
          sp \<leftarrow> (if server_protos s = None then pc__load_file e PC_PROTO_SERVER s else Some (server_protos s));
          let s = s\<lparr>server_protos := sp\<rparr>;
          cp \<leftarrow> (if client_protos s = None then pc__load_file e PC_PROTO_CLIENT s else Some (client_protos s));
          Some (s\<lparr>client_protos := cp\<rparr>) })"

definition pc__handshake_resp :: "env \<Rightarrow> byte list \<Rightarrow> nat \<Rightarrow> pc_world \<Rightarrow> (int \<times> pc_world) option" where
  "pc__handshake_resp e data len s = do {
     bs \<leftarrow> mem_read data 0 len;
     hs \<leftarrow> on_timer uv_timer_stop (handshake_timer s);
     let s = s\<lparr>handshake_timer := hs\<rparr>;
     case env_loadb e bs of
       None \<Rightarrow> Some (-1, s)
     | Some res \<Rightarrow>
         if json_integer_value (json_object_get (Some res) ''code'') \<noteq> PC_HANDSHAKE_OK then Some (-1, s)
         else do {
           s \<leftarrow> (case json_object_get (Some res) ''sys'' of
                  None \<Rightarrow> Some s
                | Some sys \<Rightarrow> do { s \<leftarrow> setup_heartbeat sys s; setup_protos e sys (setup_dict sys s) });
           let user = json_object_get (Some res) ''user'';
           let status = (if handshake_cb s then env_handshake e user else 0);
           let s = (if handshake_cb s then logged (Handshake_cb user) s else s);
           (_, s) \<leftarrow> (if status = 0 then pc__handshake_ack e s else Some (0, s));
           (_, s) \<leftarrow> pc__heartbeat s;
           Some (0, s) } }"

definition pc__heartbeat_req :: "env \<Rightarrow> pc_world \<Rightarrow> (int \<times> pc_world) option" where
  "pc__heartbeat_req e s =
     (if state s \<noteq> PC_ST_WORKING then Some (-1, s)
      else do {
        buf \<leftarrow> pc_pkg_encode (malloc_ok e) PC_PKG_HEARBEAT [] 0;
        case buf of
          Fail \<Rightarrow> Some (-1, s)
        | Ok bs \<Rightarrow> do {
            r \<leftarrow> pc__binary_write e (Some bs) Heartbeat_req_cb s;
            Some (case r of Fail \<Rightarrow> (-1, s) | Ok s \<Rightarrow> (0, s)) } })"

text \<open>The callbacks of the timers. libuv has rearmed a repeating timer before it calls them.\<close>

definition pc__heartbeat_cb :: "env \<Rightarrow> int \<Rightarrow> pc_state \<Rightarrow> pc_state option" where
  "pc__heartbeat_cb e status = (\<lambda>(s, p). do {
     hb \<leftarrow> on_timer uv_timer_stop (heartbeat_timer s);
     let s = s\<lparr>heartbeat_timer := hb\<rparr>;
     if status = -1 then pc_client_stop e (s, p)
     else do {
       (r, s) \<leftarrow> pc__heartbeat_req e s;
       if r \<noteq> 0 then pc_client_stop e (s, p)
       else do { tm \<leftarrow> on_timer uv_timer_again (timeout_timer s); Some (s\<lparr>timeout_timer := tm\<rparr>, p) } } })"

definition pc__timeout_cb :: "env \<Rightarrow> int \<Rightarrow> pc_state \<Rightarrow> pc_state option" where
  "pc__timeout_cb e status = (\<lambda>(s, p). do {
     tm \<leftarrow> on_timer uv_timer_stop (timeout_timer s);
     let s = s\<lparr>timeout_timer := tm\<rparr>;
     pc_client_stop e (if status = -1 then s else client_emit PC_EVENT_TIMEOUT None s, p) })"

definition pc__handshake_timeout_cb :: "env \<Rightarrow> pc_state \<Rightarrow> pc_state option" where
  "pc__handshake_timeout_cb e = (\<lambda>(s, p). do {
     hs \<leftarrow> on_timer uv_timer_stop (handshake_timer s);
     pc_client_stop e (client_emit PC_EVENT_TIMEOUT None (s\<lparr>handshake_timer := hs\<rparr>), p) })"

text \<open>The callbacks of writes. That of the heartbeat takes the transport for the client: what it does
  after a failed write is undefined.\<close>

definition pc__handshake_req_cb :: "env \<Rightarrow> nat \<Rightarrow> int \<Rightarrow> pc_state \<Rightarrow> pc_state option" where
  "pc__handshake_req_cb e t status = (\<lambda>(s, p). do {
     working \<leftarrow> tp_working t s;
     if \<not> working then Some (s, p)
     else if status = -1 then do {
       (s, p) \<leftarrow> pc_client_stop e (s, p);
       finish_connect e status (s, p) }
     else Some (s, p) })"

definition pc__handshake_ack_cb :: "env \<Rightarrow> nat \<Rightarrow> int \<Rightarrow> pc_state \<Rightarrow> pc_state option" where
  "pc__handshake_ack_cb e t status = (\<lambda>(s, p). do {
     working \<leftarrow> tp_working t s;
     if \<not> working then Some (s, p)
     else do {
       (s, p) \<leftarrow> (if status = -1 then pc_client_stop e (s, p) else Some (s\<lparr>state := PC_ST_WORKING\<rparr>, p));
       finish_connect e status (s, p) } })"

definition pc__heartbeat_req_cb :: "env \<Rightarrow> nat \<Rightarrow> int \<Rightarrow> pc_state \<Rightarrow> pc_state option" where
  "pc__heartbeat_req_cb e t status = (\<lambda>(s, p). if status = -1 then None else Some (s, p))"

section \<open>Connecting\<close>

text \<open>A failure after the state has been set leaves the client in \<open>PC_ST_CONNECTING\<close>.\<close>

definition pc_connect :: "env \<Rightarrow> nat option \<Rightarrow> json option \<Rightarrow> connect_cb \<Rightarrow> pc_world \<Rightarrow> (int \<times> pc_world) option" where
  "pc_connect e req opts cb s =
     (if state s \<noteq> PC_ST_INITED then Some (-1, s)
      else case req of
        None \<Rightarrow> Some (-1, s)
      | Some c \<Rightarrow> do {
          conn \<leftarrow> connects s c;
          if c_address conn = None then Some (-1, s)
          else do {
            let s = s\<lparr>state := PC_ST_CONNECTING\<rparr>;
            if \<not> alloc_ok e Obj_uv_connect then Some (-1, s)
            else if \<not> alloc_ok e Obj_ptr_pair then Some (-1, s)
            else do {
              r \<leftarrow> pc_transport_new e s;
              case r of
                Fail \<Rightarrow> Some (-1, s)
              | Ok (t, s) \<Rightarrow> do {
                  let s = s\<lparr>handshake_opts := opts, conn_req := Some c,
                    connects := (connects s)(c \<mapsto> conn\<lparr>c_cb := Some cb, c_transport := Some t\<rparr>)\<rparr>;
                  if \<not> uv_ok e Uv_tcp_connect
                  then do { s \<leftarrow> pc_transport_destroy t s; Some (-1, s) }
                  else Some (0, s\<lparr>uv_connects := uv_connects s @ [(t, c)],
                    transports := (transports s)(t \<mapsto> PC_TP_ST_CONNECTING)\<rparr>) } } } })"

text \<open>The end of \<open>pc__on_tcp_connect\<close>, reached by \<open>goto error\<close>.\<close>

definition connect_failed :: "env \<Rightarrow> nat \<Rightarrow> pc_state \<Rightarrow> pc_state option" where
  "connect_failed e c = (\<lambda>(s, p). do {
     (s, p) \<leftarrow> pc_client_stop e (s\<lparr>conn_req := None\<rparr>, p);
     run_connect_cb e c (-1) (s, p) })"

definition pc__on_tcp_connect :: "env \<Rightarrow> nat \<Rightarrow> nat \<Rightarrow> int \<Rightarrow> pc_state \<Rightarrow> pc_state option" where
  "pc__on_tcp_connect e t c status = (\<lambda>(s, p).
     if transports s t = None then None
     else if state s \<noteq> PC_ST_CONNECTING then run_connect_cb e c (-1) (s\<lparr>conn_req := None\<rparr>, p)
     else if status = -1 then do {
       s \<leftarrow> pc_transport_destroy t s;
       connect_failed e c (s, p) }
     else do {
       let s = s\<lparr>transport := Some t\<rparr>;
       if \<not> uv_ok e Uv_read_start then connect_failed e c (s, p)
       else do {
         (_, s) \<leftarrow> pc_transport_start t (s\<lparr>state := PC_ST_CONNECTED\<rparr>);
         (r, s) \<leftarrow> pc__handshake_req e s;
         if r \<noteq> 0 then connect_failed e c (s, p) else Some (s, p) } })"

text \<open>The first IPv4 address in the list that \<open>getaddrinfo\<close> returns (each entry with whether it is
  one), with the port.\<close>

fun first_inet :: "(bool \<times> nat) list \<Rightarrow> nat option" where
  "first_inet [] = None"
| "first_inet ((inet, ip) # rps) = (if inet then Some ip else first_inet rps)"

definition pc_client_dns_resolve :: "env \<Rightarrow> string \<Rightarrow> int \<Rightarrow> sockaddr_in option" where
  "pc_client_dns_resolve e h prt = do {
     ainfo \<leftarrow> env_addrinfo e h;
     ip \<leftarrow> first_inet ainfo;
     Some (ip, nat (prt mod 2 ^ 16)) }"

text \<open>The timer callback from the label where the address is known, and the whole.\<close>

definition reconnect_to_addr :: "env \<Rightarrow> pc_state \<Rightarrow> pc_state option" where
  "reconnect_to_addr e = (\<lambda>(s, p).
     case pc_connect_req_new e (Some (client_addr s)) s of
       Fail \<Rightarrow> pc_client_stop e (s\<lparr>reconnecting := False\<rparr>, p)
     | Ok (c, s) \<Rightarrow> do {
         (r, s) \<leftarrow> pc_connect e (Some c) None Client_reconnected_cb s;
         if r \<noteq> 0 then do {
           s \<leftarrow> pc_connect_req_destroy c s;
           pc_client_stop e (s\<lparr>reconnecting := False\<rparr>, p) }
         else Some (s, p) })"

definition pc__client_reconnect_timer_cb :: "env \<Rightarrow> pc_state \<Rightarrow> pc_state option" where
  "pc__client_reconnect_timer_cb e = (\<lambda>(s, p).
     case host s of
       None \<Rightarrow> reconnect_to_addr e (s, p)
     | Some h \<Rightarrow>
         (case pc_client_dns_resolve e h (port s) of
            None \<Rightarrow> pc_client_stop e (s\<lparr>reconnecting := False\<rparr>, p)
          | Some a \<Rightarrow> reconnect_to_addr e (s\<lparr>client_addr := a\<rparr>, p)))"

text \<open>The functions of the interface that start a connection, up to the creation of the worker thread
  (and, for \<open>pc_client_connect\<close>, the wait for the broadcast).\<close>

definition keep_addr :: "sockaddr_in \<Rightarrow> pc_world \<Rightarrow> pc_world" where
  "keep_addr addr s = (if enable_reconnect s then s\<lparr>client_addr := addr\<rparr> else s)"

definition pc_client_connect :: "env \<Rightarrow> sockaddr_in \<Rightarrow> pc_world \<Rightarrow> (int \<times> pc_world) option" where
  "pc_client_connect e addr s =
     (case pc_connect_req_new e (Some addr) s of
        Fail \<Rightarrow> Some (-1, keep_addr addr s)
      | Ok (c, s) \<Rightarrow> do {
          (r, s) \<leftarrow> pc_connect e (Some c) None Client_connected_cb (keep_addr addr s);
          if r \<noteq> 0 then do { s \<leftarrow> pc_connect_req_destroy c s; Some (-1, s) } else Some (0, s) })"

definition pc_client_connect2 :: "env \<Rightarrow> nat \<Rightarrow> pc_world \<Rightarrow> (int \<times> pc_world) option" where
  "pc_client_connect2 e c s = do {
     s \<leftarrow> (if enable_reconnect s
          then do { conn \<leftarrow> connects s c; a \<leftarrow> c_address conn; Some (s\<lparr>client_addr := a\<rparr>) }
          else Some s);
     (r, s) \<leftarrow> pc_connect e (Some c) None User_connect_cb s;
     Some (if r \<noteq> 0 then -1 else 0, s) }"

definition pc_client_connect3 :: "env \<Rightarrow> sockaddr_in \<Rightarrow> pc_world \<Rightarrow> (int \<times> pc_world) option" where
  "pc_client_connect3 e addr s =
     (case pc_connect_req_new e (Some addr) s of
        Fail \<Rightarrow> Some (-1, keep_addr addr s)
      | Ok (c, s) \<Rightarrow> do {
          (r, s) \<leftarrow> pc_connect e (Some c) None Client_connect3_cb (keep_addr addr s);
          if r \<noteq> 0 then do { s \<leftarrow> pc_connect_req_destroy c s; Some (-1, s) } else Some (0, s) })"

definition pc_client_connect4 :: "env \<Rightarrow> string \<Rightarrow> int \<Rightarrow> pc_world \<Rightarrow> (int \<times> pc_world) option" where
  "pc_client_connect4 e h prt s =
     (case pc_client_dns_resolve e h prt of
        None \<Rightarrow> Some (-1, s)
      | Some addr \<Rightarrow> pc_client_connect3 e addr (s\<lparr>host := Some h, port := prt\<rparr>))"

section \<open>Creation and end\<close>

definition zero_world :: pc_world where
  "zero_world = \<lparr>route_to_code = None, code_to_route = None, server_protos = None, client_protos = None,
     state = PC_ST_INITED, transport = None, listeners = (\<lambda>_. []), requests = [], heartbeat = 0, timeout = 0,
     handshake_opts = None, handshake_cb = False, conn_req = None, proto_ver = None,
     proto_read_dir = None, proto_write_dir = None, proto_event_cb = False,
     heartbeat_timer = None, timeout_timer = None, handshake_timer = None, close_async = False,
     reconnect_timer = uv_timer_init, enable_reconnect = False, reconnects = 0, reconnecting = False,
     max_reconnects_incr = 0, reconnect_delay = 0, reconnect_delay_max = 0, enable_exp_backoff = False,
     host = None, port = 0, client_addr = (0, 0), transports = Map.empty, tcp_reqs = Map.empty, connects = Map.empty, uv_connects = [],
     uv_writes = [], uv_asyncs = [], close_sent = False, pc__req_id = 0, heap_next = 1, trace = []\<rparr>"

text \<open>The timers of heartbeat and timeout are given their callbacks here, before they are started.\<close>

definition pc__client_init :: "env \<Rightarrow> pc_world \<Rightarrow> pc_state option" where
  "pc__client_init e s =
     (if \<not> malloc_ok e 24 \<or> \<not> malloc_ok e (16 * 256) then None
      else case pc_pkg_parser_new (malloc_ok e) of
        Fail \<Rightarrow> None
      | Ok p \<Rightarrow>
          if \<not> alloc_ok e Obj_uv_timer \<or> \<not> alloc_ok e Obj_uv_async then None
          else Some (s\<lparr>listeners := (\<lambda>_. []), requests := [],
                 heartbeat_timer := Some (uv_timer_init\<lparr>t_cb := Some Heartbeat_timer_cb\<rparr>), heartbeat := 0,
                 timeout_timer := Some (uv_timer_init\<lparr>t_cb := Some Timeout_timer_cb\<rparr>), timeout := 0,
                 handshake_timer := Some uv_timer_init, close_async := True,
                 state := PC_ST_INITED, host := None, port := -1\<rparr>, p))"

definition pc_client_new :: "env \<Rightarrow> pc_state option" where
  "pc_client_new e =
     (if \<not> alloc_ok e Obj_client \<or> \<not> alloc_ok e Obj_uv_loop then None else pc__client_init e zero_world)"

text \<open>The number of reconnects after which the delay stays at its maximum. The conversion to
  \<open>int\<close> in the code applies to the logarithm of the quotient, not to the division.\<close>

definition c_trunc :: "real \<Rightarrow> int" where
  "c_trunc x = (if x \<ge> 0 then \<lfloor>x\<rfloor> else \<lceil>x\<rceil>)"

definition max_incr :: "int \<Rightarrow> int \<Rightarrow> bool \<Rightarrow> int" where
  "max_incr delay delay_max backoff =
     (if \<not> backoff then delay_max div delay + 1
      else c_trunc (real_of_int (c_trunc (ln (real_of_int delay_max / real_of_int delay))) / ln 2 + 1))"

definition pc_client_new_with_reconnect :: "env \<Rightarrow> int \<Rightarrow> int \<Rightarrow> bool \<Rightarrow> pc_state cret option" where
  "pc_client_new_with_reconnect e delay delay_max exp_backoff = do {
     (s, p) \<leftarrow> pc_client_new e;
     if delay \<le> 0 \<or> delay_max \<le> 0 then Some Fail
     else Some (Ok (s\<lparr>enable_reconnect := True, reconnect_delay := delay, reconnect_delay_max := delay_max,
                      enable_exp_backoff := exp_backoff,
                      max_reconnects_incr := max_incr delay delay_max exp_backoff,
                      reconnect_timer := uv_timer_init\<rparr>, p)) }"

text \<open>What the worker thread does when the loop has ended.\<close>

definition pc__worker :: "pc_world \<Rightarrow> pc_world" where
  "pc__worker s = logged Broadcast (client_emit PC_EVENT_DISCONNECT None (s\<lparr>state := PC_ST_CLOSED\<rparr>))"

definition pc__client_clear :: "env \<Rightarrow> pc_state \<Rightarrow> pc_world option" where
  "pc__client_clear e = (\<lambda>(s, p). do {
     s \<leftarrow> requests_clear e (s\<lparr>listeners := (\<lambda>_. [])\<rparr>);
     _ \<leftarrow> pc_pkg_parser_destroy p;
     Some (s\<lparr>handshake_opts := None, route_to_code := None, code_to_route := None, server_protos := None,
             client_protos := None, proto_ver := None, host := None\<rparr>) })"

text \<open>\<open>pc_client_destroy\<close>: a client that is running is disconnected first, and the call waits for
  the worker thread (\<open>Inl\<close>); what is cleared is not used afterwards (\<open>Inr\<close>).\<close>

definition pc_client_destroy :: "env \<Rightarrow> pc_state \<Rightarrow> (pc_world + pc_world) option" where
  "pc_client_destroy e = (\<lambda>(s, p).
     if state s = PC_ST_INITED \<or> state s = PC_ST_CLOSED then map_option Inr (pc__client_clear e (s, p))
     else map_option Inl (pc_client_disconnect s))"

definition pc_client_get_state :: "pc_world \<Rightarrow> pc_client_state" where
  "pc_client_get_state s = state s"

section \<open>Protobuf definitions given by the user\<close>

definition pc_proto_init :: "string option \<Rightarrow> string option \<Rightarrow> pc_world \<Rightarrow> pc_world" where
  "pc_proto_init read_dir write_dir s = s\<lparr>proto_read_dir := read_dir, proto_write_dir := write_dir\<rparr>"

definition pc_proto_init2 :: "bool \<Rightarrow> pc_world \<Rightarrow> pc_world" where
  "pc_proto_init2 proto_cb s = s\<lparr>proto_event_cb := proto_cb\<rparr>"

definition pc_proto_copy :: "json option \<Rightarrow> json option \<Rightarrow> json option \<Rightarrow> pc_world \<Rightarrow> pc_world" where
  "pc_proto_copy ver cprotos sprotos s = s\<lparr>proto_ver := ver, client_protos := cprotos, server_protos := sprotos\<rparr>"

end
