(* ===== verification/Requests.thy ===== *)
theory Requests
  imports Connection
begin

text \<open>
  Requests and notifications (the rest of \<open>network.c\<close>) and the incoming direction
  (\<open>protocol.c\<close>, \<open>transport.c\<close>): a request is handed to the loop thread by an async handle,
  encoded and written there, registered under its id, and taken out again by the response, by a failed
  write or by a reconnect. The callback of the package parser dispatches to handshake, heartbeat, messages
  and kick.

  The last section shows that this callback keeps the contract on which the parser relies, by an
  interpretation of the locale \<open>pkg_client\<close>.
\<close>

section \<open>Sending\<close>

definition pc_request_new :: "env \<Rightarrow> pc_world \<Rightarrow> (nat \<times> pc_world) cret" where
  "pc_request_new e s =
     (if \<not> alloc_ok e Obj_request then Fail
      else Ok (heap_next s, s\<lparr>heap_next := heap_next s + 1, tcp_reqs := (tcp_reqs s)(heap_next s \<mapsto>
        \<lparr>r_type = PC_REQUEST, r_id = 0, r_route = None, r_msg = None, r_transport = None\<rparr>)\<rparr>))"

definition pc_notify_new :: "env \<Rightarrow> pc_world \<Rightarrow> (nat \<times> pc_world) cret" where
  "pc_notify_new e s =
     (if \<not> alloc_ok e Obj_notify then Fail
      else Ok (heap_next s, s\<lparr>heap_next := heap_next s + 1, tcp_reqs := (tcp_reqs s)(heap_next s \<mapsto>
        \<lparr>r_type = PC_NOTIFY, r_id = 0, r_route = None, r_msg = None, r_transport = None\<rparr>)\<rparr>))"

text \<open>\<open>pc_request_destroy\<close> and \<open>pc_notify_destroy\<close>.\<close>

definition pc_request_destroy :: "nat \<Rightarrow> pc_world \<Rightarrow> pc_world option" where
  "pc_request_destroy r s =
     (case tcp_reqs s r of None \<Rightarrow> None | Some _ \<Rightarrow> Some (s\<lparr>tcp_reqs := (tcp_reqs s)(r := None)\<rparr>))"

definition pc_notify_destroy :: "nat \<Rightarrow> pc_world \<Rightarrow> pc_world option" where
  "pc_notify_destroy r s =
     (case tcp_reqs s r of None \<Rightarrow> None | Some _ \<Rightarrow> Some (s\<lparr>tcp_reqs := (tcp_reqs s)(r := None)\<rparr>))"

definition set_req :: "nat \<Rightarrow> (pc_tcp_req \<Rightarrow> pc_tcp_req) \<Rightarrow> pc_world \<Rightarrow> pc_world option" where
  "set_req r f s = do { q \<leftarrow> tcp_reqs s r; Some (s\<lparr>tcp_reqs := (tcp_reqs s)(r \<mapsto> f q)\<rparr>) }"

text \<open>\<open>IS_VALID_JSON\<close> reads through the pointer to the message: a null message is undefined.\<close>

definition pc__async_write ::
  "env \<Rightarrow> nat option \<Rightarrow> nat option \<Rightarrow> string option \<Rightarrow> json option \<Rightarrow> pc_world \<Rightarrow> (int \<times> pc_world) option" where
  "pc__async_write e tp req route msg s =
     (case tp of
        None \<Rightarrow> Some (-1, s)
      | Some t \<Rightarrow> do {
          working \<leftarrow> tp_working t s;
          if \<not> working then Some (-1, s)
          else case (req, route) of
            (Some r, Some rt) \<Rightarrow> do {
              s \<leftarrow> set_req r (\<lambda>q. q\<lparr>r_route := None\<rparr>) s;
              if \<not> malloc_ok e (length rt + 1) then Some (-1, s)
              else do {
                s \<leftarrow> set_req r (\<lambda>q. q\<lparr>r_transport := Some t, r_route := Some rt, r_msg := msg\<rparr>) s;
                if msg = None then None
                else if \<not> alloc_ok e Obj_uv_async \<or> \<not> uv_ok e Uv_async_init \<or> \<not> uv_ok e Uv_async_send
                then do { s \<leftarrow> set_req r (\<lambda>q. q\<lparr>r_route := None\<rparr>) s; Some (-1, s) }
                else Some (0, s\<lparr>uv_asyncs := uv_asyncs s @ [r]\<rparr>) } }
          | _ \<Rightarrow> Some (-1, s) })"

definition pc_request :: "env \<Rightarrow> nat \<Rightarrow> string option \<Rightarrow> json option \<Rightarrow> pc_world \<Rightarrow> (int \<times> pc_world) option" where
  "pc_request e r route msg s =
     (if state s \<noteq> PC_ST_WORKING then Some (-1, s)
      else do {
        let n = (pc__req_id s + 1) mod 2 ^ 32;
        s \<leftarrow> set_req r (\<lambda>q. q\<lparr>r_id := n\<rparr>) (s\<lparr>pc__req_id := n\<rparr>);
        pc__async_write e (transport s) (Some r) route msg s })"

definition pc_notify :: "env \<Rightarrow> nat \<Rightarrow> string option \<Rightarrow> json option \<Rightarrow> pc_world \<Rightarrow> (int \<times> pc_world) option" where
  "pc_notify e r route msg s =
     (if state s \<noteq> PC_ST_WORKING then Some (-1, s)
      else if tcp_reqs s r = None then None
      else pc__async_write e (transport s) (Some r) route msg s)"

text \<open>What \<open>pc__request\<close> and \<open>pc__notify\<close> share: encoding, packing and the write. The result of
  \<open>pc_pkg_encode\<close> is not checked (the code tests the message buffer a second time): a write of the
  invalid buffer is undefined. \<open>Fail\<close> is the jump to the error label.\<close>

definition send_msg :: "env \<Rightarrow> nat \<Rightarrow> pc_tcp_req \<Rightarrow> write_cb \<Rightarrow> pc_world \<Rightarrow> pc_world cret option" where
  "send_msg e reqId q cb s = do {
     route \<leftarrow> r_route q;
     cbind (pc__default_msg_encode_cb (malloc_ok e) (env_junk e) (env_dumps e) s reqId route (r_msg q))
       (\<lambda>msg_buf. do {
         pkg \<leftarrow> pc_pkg_encode (malloc_ok e) PC_PKG_DATA msg_buf (length msg_buf);
         if \<not> alloc_ok e Obj_uv_write \<or> \<not> alloc_ok e Obj_ptr_pair then Some Fail
         else do {
           t \<leftarrow> transport s;
           _ \<leftarrow> transports s t;
           case pkg of
             Fail \<Rightarrow> None
           | Ok bs \<Rightarrow>
               if \<not> uv_ok e Uv_write then Some Fail
               else Some (Ok (s\<lparr>uv_writes := uv_writes s @ [\<lparr>w_transport = t, w_bytes = bs, w_cb = cb\<rparr>]\<rparr>)) } }) }"

text \<open>A transport that is no longer working makes \<open>pc__request\<close> and \<open>pc__notify\<close> call back with
  the status they were given, which is 0.\<close>

definition pc__request :: "env \<Rightarrow> nat \<Rightarrow> int \<Rightarrow> pc_world \<Rightarrow> pc_world option" where
  "pc__request e r status s =
     (if status = -1 then request_cb r status None s
      else do {
        q \<leftarrow> tcp_reqs s r;
        t \<leftarrow> r_transport q;
        working \<leftarrow> tp_working t s;
        if \<not> working then request_cb r status None s
        else do {
          res \<leftarrow> send_msg e (r_id q) q (On_request r) s;
          case res of
            Fail \<Rightarrow> request_cb r (-1) None s
          | Ok s \<Rightarrow> requests_set e (dec_string (r_id q)) r s } })"

definition pc__notify :: "env \<Rightarrow> nat \<Rightarrow> int \<Rightarrow> pc_world \<Rightarrow> pc_world option" where
  "pc__notify e r status s =
     (if status = -1 then notify_cb r status s
      else do {
        q \<leftarrow> tcp_reqs s r;
        t \<leftarrow> r_transport q;
        working \<leftarrow> tp_working t s;
        if \<not> working then notify_cb r status s
        else do {
          res \<leftarrow> send_msg e 0 q (On_notify r) s;
          case res of
            Fail \<Rightarrow> notify_cb r (-1) s
          | Ok s \<Rightarrow> Some s } })"

definition pc__async_write_cb :: "env \<Rightarrow> nat \<Rightarrow> int \<Rightarrow> pc_world \<Rightarrow> pc_world option" where
  "pc__async_write_cb e r status s = do {
     q \<leftarrow> tcp_reqs s r;
     _ \<leftarrow> r_msg q;
     case r_type q of
       PC_NOTIFY \<Rightarrow> pc__notify e r status s
     | PC_REQUEST \<Rightarrow> pc__request e r status s
     | PC_CONNECT \<Rightarrow> Some (s\<lparr>tcp_reqs := (tcp_reqs s)(r := None)\<rparr>) }"

definition pc__on_request :: "nat \<Rightarrow> int \<Rightarrow> pc_world \<Rightarrow> pc_world option" where
  "pc__on_request r status s = do {
     q \<leftarrow> tcp_reqs s r;
     t \<leftarrow> r_transport q;
     working \<leftarrow> tp_working t s;
     if \<not> working then request_cb r (-1) None s
     else if status = -1 then request_cb r status None (requests_del (dec_string (r_id q)) s)
     else Some s }"

definition pc__on_notify :: "nat \<Rightarrow> int \<Rightarrow> pc_world \<Rightarrow> pc_world option" where
  "pc__on_notify r status s = do {
     q \<leftarrow> tcp_reqs s r;
     t \<leftarrow> r_transport q;
     working \<leftarrow> tp_working t s;
     if \<not> working then notify_cb r (-1) s else notify_cb r status s }"

section \<open>Receiving\<close>

definition pc__process_response :: "pc_msg \<Rightarrow> pc_world \<Rightarrow> pc_world option" where
  "pc__process_response msg s =
     (case requests_get (dec_string (msg_id msg)) s of
        None \<Rightarrow> Some s
      | Some r \<Rightarrow> request_cb r 0 (msg_msg msg) (requests_del (dec_string (msg_id msg)) s))"

text \<open>The routes of the pending requests, as the parse callback looks them up.\<close>

definition pending_route :: "pc_world \<Rightarrow> string \<Rightarrow> string option option" where
  "pending_route s key =
     map_option (\<lambda>r. Option.bind (tcp_reqs s r) r_route) (requests_get key s)"

text \<open>A message without id is a push. Its route is there unless the peer sent a response with id 0.\<close>

definition pc__data :: "env \<Rightarrow> byte list \<Rightarrow> nat \<Rightarrow> pc_world \<Rightarrow> (int \<times> pc_world) option" where
  "pc__data e data len s = do {
     r \<leftarrow> pc__default_msg_parse_cb (signed_char e) (malloc_ok e) (env_loadb e) s (pending_route s) data len;
     case r of
       Fail \<Rightarrow> Some (-1, s)
     | Ok msg \<Rightarrow>
         if msg_id msg > 0 then do { s \<leftarrow> pc__process_response msg s; Some (0, s) }
         else do { route \<leftarrow> msg_route msg; Some (0, client_emit route (msg_msg msg) s) } }"

definition pkg_dispatch :: "env \<Rightarrow> pc_pkg_type \<Rightarrow> byte list \<Rightarrow> nat \<Rightarrow> pc_world \<Rightarrow> (int \<times> pc_world) option" where
  "pkg_dispatch e type data len s =
     (if type = PC_PKG_HANDSHAKE then pc__handshake_resp e data len s
      else if type = PC_PKG_HEARBEAT then pc__heartbeat s
      else if type = PC_PKG_DATA then pc__data e data len s
      else if type = PC_PKG_KICK then Some (0, client_emit PC_EVENT_KICK None s)
      else Some (-1, s))"

definition pc__pkg_cb :: "env \<Rightarrow> pc_world pkg_cb" where
  "pc__pkg_cb e type data len = (\<lambda>(s, p). do {
     (status, s) \<leftarrow> pkg_dispatch e type data len s;
     if status = -1 then pc_client_stop e (s, p) else Some (s, p) })"

definition pc_client_on_tcp_read :: "env \<Rightarrow> byte list \<Rightarrow> nat \<Rightarrow> pc_state \<Rightarrow> pc_state option" where
  "pc_client_on_tcp_read e data len st = do {
     (r, st) \<leftarrow> pc_pkg_parser_feed (malloc_ok e) (pc__pkg_cb e) data len st;
     if r \<noteq> 0 then pc_client_stop e st else Some st }"

text \<open>\<open>nread\<close> is \<open>None\<close> for \<open>-1\<close>, an error or the end of the stream.\<close>

definition pc_tp_on_tcp_read :: "env \<Rightarrow> nat \<Rightarrow> byte list option \<Rightarrow> pc_state \<Rightarrow> pc_state option" where
  "pc_tp_on_tcp_read e t nread = (\<lambda>(s, p). do {
     working \<leftarrow> tp_working t s;
     if \<not> working then Some (s, p)
     else case nread of
       None \<Rightarrow> pc_client_stop e (s\<lparr>reconnecting := False\<rparr>, p)
     | Some bs \<Rightarrow> if length bs = 0 then Some (s, p) else pc_client_on_tcp_read e bs (length bs) (s, p) })"

section \<open>The contract of the parser\<close>

text \<open>Stopping the client acts on the world in the same way for every parser that holds a package, and
  at most resets the parser.\<close>

lemma reset_cases:
  assumes "pkg_ready p \<or> p = fresh_parser"
  obtains p' where "pc_pkg_parser_reset p = Some p'" "pc_pkg_parser_reset p' = Some p'"
proof (cases "pkg_ready p")
  case True
  then show ?thesis using that reset_ready [OF True] by (simp add: pc_pkg_parser_reset_def)
next
  case False
  then have "p = fresh_parser" using assms by simp
  then show ?thesis
    using that by (simp add: pc_pkg_parser_reset_def fresh_parser_def pc_pkg_parser_init_def zero_parser_def)
qed

definition stop_world :: "env \<Rightarrow> pc_world \<Rightarrow> pc_world option" where
  "stop_world e s = map_option fst (pc_client_stop e (s, fresh_parser))"

lemma bind_fst_cong:
  "(\<And>x. m = Some x \<Longrightarrow> map_option fst (f x) = map_option fst (g x)) \<Longrightarrow>
   map_option fst (m \<bind> f) = map_option fst (m \<bind> g)"
  by (cases m) simp_all

lemma reconnect_world:
  assumes "pkg_ready p"
  shows "map_option fst (pc__client_reconnect e (s, p)) = map_option fst (pc__client_reconnect e (s, fresh_parser))"
proof -
  obtain p' q' where "pc_pkg_parser_reset p = Some p'" "pc_pkg_parser_reset fresh_parser = Some q'"
    using reset_cases [of p] reset_cases [of fresh_parser] assms by metis
  then show ?thesis
    by (simp add: pc__client_reconnect_def pc__client_reconnect_reset_def Let_def)
      (intro bind_fst_cong; simp)+
qed

lemma stop_world_ready: "pkg_ready p \<Longrightarrow> map_option fst (pc_client_stop e (s, p)) = stop_world e s"
  using reconnect_world [of p e s]
  by (auto simp: stop_world_def pc_client_stop_def intro!: bind_fst_cong)

lemma stop_parser:
  assumes "pc_client_stop e (s, p) = Some (s', p')"
  shows "p' = p \<or> pc_pkg_parser_reset p = Some p'"
  using assms
  by (auto simp: pc_client_stop_def pc__client_reconnect_def pc__client_reconnect_reset_def Let_def bind_eq_Some_conv
      split: if_splits)

definition pkg_world :: "env \<Rightarrow> pc_pkg_type \<Rightarrow> byte list \<Rightarrow> pc_world \<Rightarrow> pc_world option" where
  "pkg_world e type data s = do {
     (status, s) \<leftarrow> pkg_dispatch e type data (length data) s;
     if status = -1 then stop_world e s else Some s }"

interpretation client_pkg: pkg_client "pc__pkg_cb e" "pkg_world e" for e
proof unfold_locales
  fix p t body s
  assume p: "pkg_ready p"
  show "map_option fst (pc__pkg_cb e t body (length body) (s, p)) = pkg_world e t body s"
    using stop_world_ready [OF p]
    by (auto simp: pc__pkg_cb_def pkg_world_def split: Option.bind_split)
  fix s' p'
  assume "pc__pkg_cb e t body (length body) (s, p) = Some (s', p')"
  then have "p' = p \<or> pc_pkg_parser_reset p = Some p'"
    by (auto simp: pc__pkg_cb_def bind_eq_Some_conv split: if_splits dest: stop_parser)
  then show "pc_pkg_parser_reset p' = pc_pkg_parser_reset p"
    using reset_cases [of p] p by (metis option.inject)
qed

end
