(* ===== verification/Client_Machine.thy ===== *)
theory Client_Machine
  imports Requests
begin

text \<open>
  The client as a state machine. \<open>client_step\<close> has one rule for every call of the interface and for
  every callback that libuv may run: a rule needs what it consumes (a pending connect, write or async, an
  active timer, a signalled close handle, a closed socket without pending requests) and allows every answer
  of the environment, so the order of callbacks is any order that libuv could choose. Calls from other
  threads happen between callbacks.

  \<open>client_inv\<close> is the invariant of the reachable states: it ties the state of the client to its
  transport, says that the transport pointer never dangles, that the timers exist as long as they may
  be used, and that the parameters of the reconnect are those the constructor accepts. There is one lemma
  per operation that shows that it keeps the invariant; an operation that touches none of its fields is
  \<open>same_core\<close>. The locale \<open>machine\<close> carries an invariant to all reachable states.
\<close>

section \<open>Steps\<close>

fun run_write_cb :: "env \<Rightarrow> write_cb \<Rightarrow> int \<Rightarrow> pc_state \<Rightarrow> pc_state option" where
  "run_write_cb e (On_request r) status (s, p) = map_option (\<lambda>s. (s, p)) (pc__on_request r status s)"
| "run_write_cb e (On_notify r) status (s, p) = map_option (\<lambda>s. (s, p)) (pc__on_notify r status s)"
| "run_write_cb e (Handshake_req_cb t) status st = pc__handshake_req_cb e t status st"
| "run_write_cb e (Handshake_ack_cb t) status st = pc__handshake_ack_cb e t status st"
| "run_write_cb e (Heartbeat_req_cb t) status st = pc__heartbeat_req_cb e t status st"

text \<open>The loop ends when no handle is active and no request is pending.\<close>

definition loop_alive :: "pc_world \<Rightarrow> bool" where
  "loop_alive s \<longleftrightarrow> (\<exists>t. transports s t \<noteq> None) \<or> close_async s \<or> uv_connects s \<noteq> [] \<or>
     uv_writes s \<noteq> [] \<or> uv_asyncs s \<noteq> [] \<or> t_active (reconnect_timer s)"

inductive client_step :: "pc_state \<Rightarrow> pc_state \<Rightarrow> bool" where
  connect_req_new: "pc_connect_req_new e a s = Ok (c, s') \<Longrightarrow> client_step (s, p) (s', p)"
| connect_req_destroy: "pc_connect_req_destroy c s = Some s' \<Longrightarrow> client_step (s, p) (s', p)"
| connect: "pc_client_connect e a s = Some (r, s') \<Longrightarrow> client_step (s, p) (s', p)"
| connect2: "pc_client_connect2 e c s = Some (r, s') \<Longrightarrow> client_step (s, p) (s', p)"
| connect3: "pc_client_connect3 e a s = Some (r, s') \<Longrightarrow> client_step (s, p) (s', p)"
| connect4: "pc_client_connect4 e h a s = Some (r, s') \<Longrightarrow> client_step (s, p) (s', p)"
| disconnect: "pc_client_disconnect s = Some s' \<Longrightarrow> client_step (s, p) (s', p)"
| request_new: "pc_request_new e s = Ok (r, s') \<Longrightarrow> client_step (s, p) (s', p)"
| notify_new: "pc_notify_new e s = Ok (r, s') \<Longrightarrow> client_step (s, p) (s', p)"
| request: "pc_request e r route msg s = Some (res, s') \<Longrightarrow> client_step (s, p) (s', p)"
| notify: "pc_notify e r route msg s = Some (res, s') \<Longrightarrow> client_step (s, p) (s', p)"
| request_destroy: "pc_request_destroy r s = Some s' \<Longrightarrow> client_step (s, p) (s', p)"
| notify_destroy: "pc_notify_destroy r s = Some s' \<Longrightarrow> client_step (s, p) (s', p)"
| proto_init: "client_step (s, p) (pc_proto_init rd wd s, p)"
| proto_init2: "client_step (s, p) (pc_proto_init2 cb s, p)"
| proto_copy: "client_step (s, p) (pc_proto_copy ver cprotos sprotos s, p)"
| listen: "client_step (s, p) (s\<lparr>listeners := L\<rparr>, p)"
| tcp_connect: "uv_connects s = xs @ (t, c) # ys \<Longrightarrow>
    pc__on_tcp_connect e t c status (s\<lparr>uv_connects := xs @ ys\<rparr>, p) = Some st' \<Longrightarrow> client_step (s, p) st'"
| tcp_read: "pc_tp_on_tcp_read e t nread (s, p) = Some st' \<Longrightarrow> client_step (s, p) st'"
| write_done: "uv_writes s = xs @ w # ys \<Longrightarrow>
    run_write_cb e (w_cb w) status (s\<lparr>uv_writes := xs @ ys\<rparr>, p) = Some st' \<Longrightarrow> client_step (s, p) st'"
| async: "uv_asyncs s = xs @ r # ys \<Longrightarrow>
    pc__async_write_cb e r 0 (s\<lparr>uv_asyncs := xs @ ys\<rparr>) = Some s' \<Longrightarrow> client_step (s, p) (s', p)"
| heartbeat_timer: "heartbeat_timer s = Some t \<Longrightarrow> t_active t \<Longrightarrow>
    pc__heartbeat_cb e 0 (s\<lparr>heartbeat_timer := Some (uv_run_timer t)\<rparr>, p) = Some st' \<Longrightarrow> client_step (s, p) st'"
| timeout_timer: "timeout_timer s = Some t \<Longrightarrow> t_active t \<Longrightarrow>
    pc__timeout_cb e 0 (s\<lparr>timeout_timer := Some (uv_run_timer t)\<rparr>, p) = Some st' \<Longrightarrow> client_step (s, p) st'"
| handshake_timer: "handshake_timer s = Some t \<Longrightarrow> t_active t \<Longrightarrow>
    pc__handshake_timeout_cb e (s\<lparr>handshake_timer := Some (uv_run_timer t)\<rparr>, p) = Some st' \<Longrightarrow> client_step (s, p) st'"
| reconnect_timer: "t_active (reconnect_timer s) \<Longrightarrow>
    pc__client_reconnect_timer_cb e (s\<lparr>reconnect_timer := uv_run_timer (reconnect_timer s)\<rparr>, p) = Some st' \<Longrightarrow>
    client_step (s, p) st'"
| close_async: "close_sent s \<Longrightarrow> close_async s \<Longrightarrow>
    pc__close_async_cb e (s\<lparr>close_sent := False\<rparr>, p) = Some st' \<Longrightarrow> client_step (s, p) st'"
| socket_closed: "transports s t = Some PC_TP_ST_CLOSED \<Longrightarrow> t \<notin> fst ` set (uv_connects s) \<Longrightarrow>
    t \<notin> w_transport ` set (uv_writes s) \<Longrightarrow> pc__tcp_close_cb t s = Some s' \<Longrightarrow> client_step (s, p) (s', p)"
| worker: "\<not> loop_alive s \<Longrightarrow> client_step (s, p) (pc__worker s, p)"

section \<open>The invariant\<close>

fun write_on :: "write_cb \<Rightarrow> nat \<Rightarrow> bool" where
  "write_on (Handshake_req_cb t) t' \<longleftrightarrow> t = t'"
| "write_on (Handshake_ack_cb t) t' \<longleftrightarrow> t = t'"
| "write_on (Heartbeat_req_cb t) t' \<longleftrightarrow> t = t'"
| "write_on _ t' \<longleftrightarrow> True"

definition transport_inv :: "pc_world \<Rightarrow> bool" where
  "transport_inv s \<longleftrightarrow>
     (\<forall>t. transport s = Some t \<longrightarrow> transports s t \<in> {Some PC_TP_ST_CONNECTING, Some PC_TP_ST_WORKING} \<and>
        t \<notin> fst ` set (uv_connects s)) \<and>
     (\<forall>t. transport s \<noteq> Some t \<longrightarrow> transports s t \<noteq> Some PC_TP_ST_WORKING) \<and>
     (\<forall>t \<in> fst ` set (uv_connects s). transports s t = Some PC_TP_ST_CONNECTING) \<and>
     distinct (map fst (uv_connects s)) \<and>
     (\<forall>t. transports s t \<noteq> None \<longrightarrow> t < heap_next s) \<and>
     (\<forall>w \<in> set (uv_writes s). transports s (w_transport w) \<noteq> None \<and> write_on (w_cb w) (w_transport w))"

definition state_inv :: "pc_world \<Rightarrow> bool" where
  "state_inv s \<longleftrightarrow>
     (state s \<in> {PC_ST_INITED, PC_ST_CLOSED} \<longrightarrow> transport s = None) \<and>
     (state s = PC_ST_CONNECTING \<longrightarrow> (\<forall>t. transport s = Some t \<longrightarrow> transports s t = Some PC_TP_ST_CONNECTING)) \<and>
     (state s \<in> {PC_ST_CONNECTED, PC_ST_WORKING} \<longrightarrow>
        (\<exists>t. transport s = Some t \<and> transports s t = Some PC_TP_ST_WORKING))"

text \<open>The three timers of a client and the close handle are there together, and a timer that the
  client points to is not closing. The parameters of the reconnect are those the constructor accepts.\<close>

definition reconnect_params :: "int \<Rightarrow> int \<Rightarrow> bool \<Rightarrow> int \<Rightarrow> bool" where
  "reconnect_params delay delay_max exp_backoff incr \<longleftrightarrow>
     0 < delay \<and> 0 < delay_max \<and> incr = max_incr delay delay_max exp_backoff"

abbreviation reconnect_config :: "pc_world \<Rightarrow> bool" where
  "reconnect_config s \<equiv>
     reconnect_params (reconnect_delay s) (reconnect_delay_max s) (enable_exp_backoff s) (max_reconnects_incr s)"

abbreviation timer_handle :: "uv_timer option \<Rightarrow> bool option" where
  "timer_handle \<equiv> map_option t_closing"

definition handle_inv :: "pc_world \<Rightarrow> bool" where
  "handle_inv s \<longleftrightarrow>
     timer_handle (heartbeat_timer s) = (if close_async s then Some False else None) \<and>
     timer_handle (timeout_timer s) = (if close_async s then Some False else None) \<and>
     timer_handle (handshake_timer s) = (if close_async s then Some False else None) \<and>
     (\<not> enable_reconnect s \<and> state s \<noteq> PC_ST_CLOSED \<longrightarrow> close_async s) \<and>
     0 \<le> reconnects s \<and> (enable_reconnect s \<longrightarrow> reconnect_config s)"

definition client_inv :: "pc_world \<Rightarrow> bool" where
  "client_inv s \<longleftrightarrow> transport_inv s \<and> state_inv s \<and> handle_inv s"

lemma transport_invI:
  assumes "\<And>t. transport s = Some t \<Longrightarrow> transports s t = Some PC_TP_ST_CONNECTING \<or> transports s t = Some PC_TP_ST_WORKING"
    and "\<And>t. transport s = Some t \<Longrightarrow> t \<notin> fst ` set (uv_connects s)"
    and "\<And>t. transports s t = Some PC_TP_ST_WORKING \<Longrightarrow> transport s = Some t"
    and "\<And>t. t \<in> fst ` set (uv_connects s) \<Longrightarrow> transports s t = Some PC_TP_ST_CONNECTING"
    and "distinct (map fst (uv_connects s))"
    and "\<And>t x. transports s t = Some x \<Longrightarrow> t < heap_next s"
    and "\<And>w. w \<in> set (uv_writes s) \<Longrightarrow> transports s (w_transport w) \<noteq> None"
    and "\<And>w. w \<in> set (uv_writes s) \<Longrightarrow> write_on (w_cb w) (w_transport w)"
  shows "transport_inv s"
  unfolding transport_inv_def
proof (intro conjI allI impI ballI)
  show "transports s t \<in> {Some PC_TP_ST_CONNECTING, Some PC_TP_ST_WORKING}" if "transport s = Some t" for t
    using assms(1) [OF that] by simp
  show "transports s t \<noteq> Some PC_TP_ST_WORKING" if "transport s \<noteq> Some t" for t using assms(3) that by blast
  show "t < heap_next s" if "transports s t \<noteq> None" for t using assms(6) that by blast
qed (fact assms)+

lemma transport_invD:
  assumes "client_inv s"
  shows "transport s = Some t \<Longrightarrow> transports s t = Some PC_TP_ST_CONNECTING \<or> transports s t = Some PC_TP_ST_WORKING"
    and "transport s = Some t \<Longrightarrow> t \<notin> fst ` set (uv_connects s)"
    and "transports s t = Some PC_TP_ST_WORKING \<Longrightarrow> transport s = Some t"
    and "t \<in> fst ` set (uv_connects s) \<Longrightarrow> transports s t = Some PC_TP_ST_CONNECTING"
    and "distinct (map fst (uv_connects s))"
    and "transports s t = Some x \<Longrightarrow> t < heap_next s"
    and "w \<in> set (uv_writes s) \<Longrightarrow> transports s (w_transport w) \<noteq> None"
    and "w \<in> set (uv_writes s) \<Longrightarrow> write_on (w_cb w) (w_transport w)"
  using assms unfolding client_inv_def transport_inv_def by blast+

lemmas inv_defs = client_inv_def transport_inv_def state_inv_def handle_inv_def

section \<open>Operations at the bottom\<close>

text \<open>What an operation leaves alone.\<close>

definition same_core :: "pc_world \<Rightarrow> pc_world \<Rightarrow> bool" where
  "same_core s s' \<longleftrightarrow> state s' = state s \<and> transport s' = transport s \<and> transports s' = transports s \<and>
     uv_connects s' = uv_connects s \<and> uv_writes s' = uv_writes s \<and> heap_next s' = heap_next s \<and>
     timer_handle (heartbeat_timer s') = timer_handle (heartbeat_timer s) \<and>
     timer_handle (timeout_timer s') = timer_handle (timeout_timer s) \<and>
     timer_handle (handshake_timer s') = timer_handle (handshake_timer s) \<and>
     close_async s' = close_async s \<and> enable_reconnect s' = enable_reconnect s \<and>
     (0 \<le> reconnects s \<longrightarrow> 0 \<le> reconnects s') \<and>
     (reconnect_config s' \<longleftrightarrow> reconnect_config s)"

lemma timer_closing [simp]:
  "t_closing (uv_timer_stop t) = t_closing t" "t_closing (uv_timer_start cb tmo rep t) = t_closing t"
  "t_closing (uv_timer_again t) = t_closing t" "t_closing (uv_timer_set_repeat rep t) = t_closing t"
  "t_closing (uv_run_timer t) = t_closing t"
proof -
  show *: "t_closing (uv_timer_stop t) = t_closing t" "t_closing (uv_timer_start cb tmo rep t) = t_closing t"
    "t_closing (uv_timer_set_repeat rep t) = t_closing t" for t cb tmo rep
    by (simp_all add: uv_timer_stop_def uv_timer_start_def uv_timer_set_repeat_def)
  show again: "t_closing (uv_timer_again t) = t_closing t" for t
    by (simp add: uv_timer_again_def * split: option.split)
  show "t_closing (uv_run_timer t) = t_closing t" by (simp add: uv_run_timer_def * again)
qed

lemma on_timer_handle: "on_timer f x = Some y \<Longrightarrow> (\<And>t. t_closing (f t) = t_closing t) \<Longrightarrow> timer_handle y = timer_handle x"
  by (cases x) (auto simp: on_timer_def)

lemma transport_inv_cong:
  "transport s' = transport s \<Longrightarrow> transports s' = transports s \<Longrightarrow> uv_connects s' = uv_connects s \<Longrightarrow>
   uv_writes s' = uv_writes s \<Longrightarrow> heap_next s' = heap_next s \<Longrightarrow> transport_inv s' \<longleftrightarrow> transport_inv s"
  unfolding transport_inv_def by (simp only:)

lemma same_core_refl [simp]: "same_core s s"
  by (simp add: same_core_def)

lemma same_core_trans: "same_core s t \<Longrightarrow> same_core t u \<Longrightarrow> same_core s u"
  by (simp add: same_core_def)

lemma same_core_inv:
  assumes "same_core s s'" "client_inv s"
  shows "client_inv s'"
proof -
  note eqs = assms(1) [unfolded same_core_def]
  have "transport_inv s' \<longleftrightarrow> transport_inv s" using eqs by (intro transport_inv_cong) simp_all
  moreover have "state_inv s' \<longleftrightarrow> state_inv s" using eqs unfolding state_inv_def by (simp only:)
  moreover have "handle_inv s \<Longrightarrow> handle_inv s'" using eqs unfolding handle_inv_def by simp
  ultimately show ?thesis using assms(2) by (simp add: client_inv_def)
qed

lemma logged_core [simp]: "same_core s (logged ev s)" "same_core s (client_emit name d s)"
  by (simp_all add: same_core_def logged_def client_emit_def)

lemma request_cb_core: "request_cb r st msg s = Some s' \<Longrightarrow> same_core s s'"
  "notify_cb r st s = Some s' \<Longrightarrow> same_core s s'"
  by (auto simp: request_cb_def notify_cb_def split: option.splits)

lemma requests_del_core [simp]: "same_core s (requests_del k s)"
  by (simp add: same_core_def requests_del_def)

lemma release_core: "pc__release_requests kvs s = Some s' \<Longrightarrow> same_core s s'"
  by (induction kvs s rule: pc__release_requests.induct)
    (auto simp: bind_eq_Some_conv intro: same_core_trans dest: request_cb_core)

lemma requests_clear_core: "requests_clear e s = Some s' \<Longrightarrow> same_core s s'"
  using release_core [of _ "s\<lparr>requests := []\<rparr>" s'] by (simp add: requests_clear_def same_core_def)

lemma requests_set_core: "requests_set e k r s = Some s' \<Longrightarrow> same_core s s'"
  by (auto simp: requests_set_def same_core_def split: if_splits option.splits dest!: request_cb_core)

section \<open>Stopping keeps the invariant\<close>

lemma drop_transport_SomeD:
  assumes "drop_transport s = Some s'" "transport_inv s"
  shows "s' = s\<lparr>transport := None, transports := (case transport s of None \<Rightarrow> transports s
    | Some t \<Rightarrow> (transports s)(t \<mapsto> PC_TP_ST_CLOSED))\<rparr>"
proof (cases "transport s")
  case (Some t)
  then have "transports s t = Some PC_TP_ST_CONNECTING \<or> transports s t = Some PC_TP_ST_WORKING"
    using assms(2) by (auto simp: transport_inv_def)
  then show ?thesis using Some assms(1) by (auto simp: drop_transport_def pc_transport_destroy_def)
qed (use assms in \<open>simp add: drop_transport_def\<close>)

lemma drop_transport_inv:
  assumes "transport_inv s" "drop_transport s = Some s'"
  shows "transport_inv s'" "transport s' = None"
proof -
  note s' = drop_transport_SomeD [OF assms(2,1)]
  show "transport s' = None" by (simp add: s')
  show "transport_inv s'"
    using assms(1) unfolding transport_inv_def s' by (auto split: option.splits)
qed

lemma drop_transport_frame:
  assumes "transport_inv s" "drop_transport s = Some s'"
  shows "state s' = state s" "enable_reconnect s' = enable_reconnect s" "close_async s' = close_async s"
    "heartbeat_timer s' = heartbeat_timer s" "timeout_timer s' = timeout_timer s" "handshake_timer s' = handshake_timer s"
    "reconnects s' = reconnects s" "reconnect_config s' \<longleftrightarrow> reconnect_config s"
  by (simp_all add: drop_transport_SomeD [OF assms(2,1)])

lemma stop_timers_core: "stop_timers s = Some s' \<Longrightarrow> same_core s s'"
  by (auto simp: stop_timers_def same_core_def on_timer_def bind_eq_Some_conv Let_def split: if_splits)

lemma reconnect_reset_inv:
  assumes "client_inv s" "enable_reconnect s" "pc__client_reconnect_reset e (s, p) = Some (s', p')"
  shows "client_inv s'" "state s' = PC_ST_INITED" "enable_reconnect s'"
proof -
  obtain s1 s2 s3 where s1: "drop_transport s = Some s1" and s2: "stop_timers s1 = Some s2"
    and s3: "requests_clear e s2 = Some s3"
    and s': "s' = s3\<lparr>handshake_opts := None, route_to_code := None, code_to_route := None,
      server_protos := None, client_protos := None, state := PC_ST_INITED\<rparr>"
    using assms(3) by (auto simp: pc__client_reconnect_reset_def bind_eq_Some_conv)
  have t: "transport_inv s" using assms(1) by (simp add: client_inv_def)
  have core: "same_core s1 s3"
    using same_core_trans stop_timers_core [OF s2] requests_clear_core [OF s3] by blast
  note f = drop_transport_inv [OF t s1] drop_transport_frame [OF t s1]
  show "state s' = PC_ST_INITED" "enable_reconnect s'"
    using core f assms(2) by (simp_all add: s' same_core_def)
  have "transport_inv s3" "transport s3 = None"
    using f(1,2) core transport_inv_cong [of s3 s1] by (simp_all add: same_core_def)
  moreover have "handle_inv s3" using assms(1,2) core f unfolding client_inv_def handle_inv_def same_core_def by simp
  ultimately show "client_inv s'"
    using core f assms(2) transport_inv_cong [of s' s3]
    by (simp add: s' client_inv_def state_inv_def handle_inv_def same_core_def)
qed

lemma reconnect_inv:
  assumes "client_inv s" "enable_reconnect s" "pc__client_reconnect e (s, p) = Some (s', p')"
  shows "client_inv s'" "state s' = PC_ST_INITED"
proof -
  obtain s1 p1 where s1: "pc__client_reconnect_reset e (s\<lparr>reconnecting := True\<rparr>, p) = Some (s1, p1)"
    and core: "same_core s1 s'"
    using assms(3) by (auto simp: pc__client_reconnect_def bind_eq_Some_conv same_core_def Let_def c_int_def split: if_splits)
  have "same_core s (s\<lparr>reconnecting := True\<rparr>)" by (simp add: same_core_def)
  then have "client_inv (s\<lparr>reconnecting := True\<rparr>)" using assms(1) by (rule same_core_inv)
  note r = reconnect_reset_inv [OF this _ s1]
  show "client_inv s'" using same_core_inv [OF core] r(1) assms(2) by simp
  show "state s' = PC_ST_INITED" using core r(2) assms(2) by (simp add: same_core_def)
qed

lemma close_timer_Some [simp]:
  "close_timer p = Some p' \<longleftrightarrow> p' = None \<and> (\<forall>t. p = Some t \<longrightarrow> \<not> t_closing t)"
  by (cases p) (auto simp: close_timer_def uv_timer_close_def)

lemma client_close_inv:
  assumes "client_inv s" "client_close s = Some s'"
  shows "client_inv s'" "state s' = PC_ST_CLOSED"
proof -
  let ?s = "s\<lparr>state := PC_ST_CLOSED\<rparr>"
  obtain s1 where s1: "drop_transport ?s = Some s1" using assms(2) by (cases "drop_transport ?s") (simp_all add: client_close_def)
  then have t: "transports s' = transports s1" "transport s' = transport s1" "uv_connects s' = uv_connects s1"
      "uv_writes s' = uv_writes s1" "heap_next s' = heap_next s1" "state s' = state s1"
      "enable_reconnect s' = enable_reconnect s1" "reconnects s' = reconnects s1" "reconnect_config s' \<longleftrightarrow> reconnect_config s1"
    and n: "heartbeat_timer s' = None" "timeout_timer s' = None" "handshake_timer s' = None" "\<not> close_async s'"
    using assms(2) by (auto simp: client_close_def bind_eq_Some_conv Let_def split: if_splits)
  have inv: "transport_inv ?s" using assms(1) transport_inv_cong [of ?s s] by (simp add: client_inv_def)
  note f = drop_transport_inv [OF inv s1] drop_transport_frame [OF inv s1]
  show "state s' = PC_ST_CLOSED" using t f by simp
  have "transport_inv s'" using f(1) t transport_inv_cong [of s' s1] by simp
  then show "client_inv s'"
    using t n f assms(1) by (simp add: client_inv_def state_inv_def handle_inv_def)
qed

lemma stop_cases:
  assumes "pc_client_stop e (s, p) = Some (s', p')"
  shows "s' = s \<or> pc__client_reconnect e (s, p) = Some (s', p') \<and> enable_reconnect s \<or>
    state s = PC_ST_INITED \<and> s' = s\<lparr>state := PC_ST_CLOSED\<rparr> \<or> client_close s = Some s'"
  using assms by (cases "client_close s") (simp_all add: pc_client_stop_def split: if_splits)

lemma stop_inv:
  assumes "client_inv s" "pc_client_stop e (s, p) = Some (s', p')"
  shows "client_inv s'"
proof -
  consider "s' = s" | "pc__client_reconnect e (s, p) = Some (s', p')" "enable_reconnect s"
    | "state s = PC_ST_INITED" "s' = s\<lparr>state := PC_ST_CLOSED\<rparr>" | "client_close s = Some s'"
    using stop_cases [OF assms(2)] by metis
  then show ?thesis
  proof cases
    case 1
    then show ?thesis using assms(1) by simp
  next
    case 2
    then show ?thesis using reconnect_inv(1) [OF assms(1)] by blast
  next
    case 3
    then show ?thesis
      using assms(1) transport_inv_cong [of s' s] by (simp add: client_inv_def state_inv_def handle_inv_def)
  next
    case 4
    then show ?thesis by (rule client_close_inv(1) [OF assms(1)])
  qed
qed

section \<open>Every step keeps the invariant\<close>

lemma connect_cb_inv:
  assumes "client_inv s" "run_connect_cb e c status (s, p) = Some (s', p')"
  shows "client_inv s'"
proof -
  obtain cb conn where c: "connects s c = Some conn" "c_cb conn = Some cb"
    using assms(2) by (auto simp: run_connect_cb_def bind_eq_Some_conv)
  let ?s = "logged (Connect_cb c status) s"
  have inv: "client_inv ?s" by (rule same_core_inv [OF logged_core(1) assms(1)])
  show ?thesis
  proof (cases cb)
    case Client_connected_cb
    then show ?thesis
      using assms(2) c inv
      by (auto simp: run_connect_cb_def pc__client_connected_cb_def Let_def split: if_splits
          intro: same_core_inv [OF logged_core(1)] stop_inv)
  next
    case Client_reconnected_cb
    let ?r = "?s\<lparr>reconnecting := False, reconnect_timer := uv_timer_stop (reconnect_timer ?s)\<rparr>"
    have "client_inv ?r" by (rule same_core_inv [OF _ inv]) (simp add: same_core_def)
    moreover have "same_core ?r (client_emit PC_EVENT_RECONNECT None (?r\<lparr>reconnects := 0\<rparr>))"
      by (simp add: same_core_def client_emit_def)
    ultimately show ?thesis
      using assms(2) c Client_reconnected_cb
      by (auto simp: run_connect_cb_def pc__client_reconnected_cb_def Let_def split: if_splits
          intro: same_core_inv stop_inv)
  next
    case Client_connect3_cb
    have d: "same_core t t'" if "pc_connect_req_destroy c t = Some t'" for t t'
      using that by (auto simp: pc_connect_req_destroy_def same_core_def split: option.splits)
    consider s1 p1 where "pc_client_stop e (?s, p) = Some (s1, p1)" "pc_connect_req_destroy c s1 = Some s'"
      | "pc_connect_req_destroy c (client_emit PC_EVENT_RECONNECT None ?s) = Some s'"
      using assms(2) c Client_connect3_cb
      by (auto simp: run_connect_cb_def pc__client_connect3_cb_def Let_def bind_eq_Some_conv split: if_splits)
    then show ?thesis
      by cases (use inv d stop_inv same_core_inv logged_core(2) same_core_trans in meson)+
  next
    case User_connect_cb
    then show ?thesis using assms(2) c inv by (simp add: run_connect_cb_def)
  qed
qed

lemma finish_connect_inv:
  assumes "client_inv s" "finish_connect e status (s, p) = Some (s', p')"
  shows "client_inv s'"
proof -
  have "same_core s (s\<lparr>conn_req := None\<rparr>)" by (simp add: same_core_def)
  then have "client_inv (s\<lparr>conn_req := None\<rparr>)" using assms(1) by (rule same_core_inv)
  then show ?thesis
    using assms connect_cb_inv by (auto simp: finish_connect_def split: option.splits)
qed

lemma write_inv:
  assumes "client_inv s" "transport s = Some t" "write_on cb t"
  shows "client_inv (s\<lparr>uv_writes := uv_writes s @ [\<lparr>w_transport = t, w_bytes = bs, w_cb = cb\<rparr>]\<rparr>)"
proof -
  have "transports s t \<noteq> None" using assms(1,2) by (auto simp: client_inv_def transport_inv_def)
  then show ?thesis
    using assms by (simp add: client_inv_def transport_inv_def state_inv_def handle_inv_def)
qed

lemma binary_write_inv:
  assumes "client_inv s" "pc__binary_write e data cb s = Some (Ok s')" "\<And>t. write_on (cb t) t"
  shows "client_inv s'"
proof -
  obtain t bs where "transport s = Some t" "s' = s\<lparr>uv_writes := uv_writes s @ [\<lparr>w_transport = t, w_bytes = bs, w_cb = cb t\<rparr>]\<rparr>"
    using assms(2) by (auto simp: pc__binary_write_def split: if_splits option.splits)
  then show ?thesis using write_inv [OF assms(1)] assms(3) by blast
qed

lemma handshake_sys_core: "handshake_sys e s = Some (sys, s') \<Longrightarrow> same_core s s'"
  by (auto simp: handshake_sys_def same_core_def bind_eq_Some_conv Let_def split: option.splits)

lemma handshake_req_inv:
  assumes "client_inv s" "pc__handshake_req e s = Some (r, s')"
  shows "client_inv s'"
proof -
  obtain sys s1 where s1: "handshake_sys e s = Some (sys, s1)"
    using assms(2) by (auto simp: pc__handshake_req_def bind_eq_Some_conv)
  have inv: "client_inv s1" by (rule same_core_inv [OF handshake_sys_core [OF s1] assms(1)])
  show ?thesis
  proof (cases "env_dumps e (handshake_body sys (handshake_opts s1))")
    case None
    then show ?thesis using assms(2) s1 inv by (simp add: pc__handshake_req_def)
  next
    case (Some str)
    then obtain data res where w: "pc__binary_write e data Handshake_req_cb s1 = Some res"
      "(case res of Fail \<Rightarrow> Some (-1, s1) | Ok s \<Rightarrow> do {
         t \<leftarrow> on_timer (uv_timer_start Handshake_timer_cb HANDSHAKE_TIMEOUT 0) (handshake_timer s);
         Some (0, s\<lparr>handshake_timer := t\<rparr>) }) = Some (r, s')"
      using assms(2) s1 by (auto simp: pc__handshake_req_def bind_eq_Some_conv)
    show ?thesis
    proof (cases res)
      case (Ok s2)
      then have "client_inv s2" using binary_write_inv [OF inv] w(1) by simp
      moreover have "same_core s2 s'" using w(2) Ok by (auto simp: same_core_def on_timer_def bind_eq_Some_conv)
      ultimately show ?thesis by (rule same_core_inv [rotated])
    qed (use w inv in simp)
  qed
qed

lemma handshake_ack_inv:
  assumes "client_inv s" "pc__handshake_ack e s = Some (r, s')"
  shows "client_inv s'"
proof -
  consider "s' = s" | data where "pc__binary_write e data Handshake_ack_cb s = Some (Ok s')"
    using assms(2) by (auto simp: pc__handshake_ack_def bind_eq_Some_conv cret_ex)
  then show ?thesis using assms(1) binary_write_inv [OF assms(1)] by cases simp_all
qed

lemma heartbeat_req_inv:
  assumes "client_inv s" "pc__heartbeat_req e s = Some (r, s')"
  shows "client_inv s'"
proof -
  consider "s' = s" | data where "pc__binary_write e data Heartbeat_req_cb s = Some (Ok s')"
    using assms(2) by (auto simp: pc__heartbeat_req_def bind_eq_Some_conv cret_ex split: if_splits)
  then show ?thesis using assms(1) binary_write_inv [OF assms(1)] by cases simp_all
qed

lemma heartbeat_core: "pc__heartbeat s = Some (r, s') \<Longrightarrow> same_core s s'"
  by (auto simp: pc__heartbeat_def same_core_def on_timer_def bind_eq_Some_conv)

lemma dump_file_core: "pc__dump_file e name src s = Some s' \<Longrightarrow> same_core s s'"
  by (auto simp: pc__dump_file_def bind_eq_Some_conv split: if_splits option.splits)

lemma setup_core:
  "setup_heartbeat sys s = Some s' \<Longrightarrow> same_core s s'"
  "same_core s (setup_dict sys s)"
  "setup_protos e sys s = Some s' \<Longrightarrow> same_core s s'"
proof -
  show "setup_heartbeat sys s = Some s' \<Longrightarrow> same_core s s'"
    by (auto simp: setup_heartbeat_def same_core_def on_timer_def bind_eq_Some_conv Let_def split: if_splits)
  show "same_core s (setup_dict sys s)" by (simp add: setup_dict_def same_core_def split: option.splits)
  assume *: "setup_protos e sys s = Some s'"
  show "same_core s s'"
  proof (cases "json_object_get (Some sys) ''useProto'' = None \<or> json_object_get (Some sys) ''protos'' = None")
    case True
    then show ?thesis using *
      by (auto simp: setup_protos_def same_core_def bind_eq_Some_conv Let_def split: if_splits)
  next
    case False
    then obtain pr where "json_object_get (Some sys) ''protos'' = Some pr" by auto
    let ?s = "s\<lparr>server_protos := json_object_get (Some pr) ''server'', client_protos := json_object_get (Some pr) ''client''\<rparr>"
    have "same_core s ?s" by (simp add: same_core_def)
    moreover obtain t1 t2 x y where "pc__dump_file e PC_PROTO_VERSION x ?s = Some t1"
      "pc__dump_file e PC_PROTO_SERVER y t1 = Some t2" "pc__dump_file e PC_PROTO_CLIENT (client_protos t2) t2 = Some s'"
      using * False \<open>json_object_get (Some sys) ''protos'' = Some pr\<close>
      by (auto simp: setup_protos_def bind_eq_Some_conv Let_def)
    ultimately show ?thesis by (meson same_core_trans dump_file_core)
  qed
qed

lemma handshake_resp_inv:
  assumes "client_inv s" "pc__handshake_resp e data len s = Some (r, s')"
  shows "client_inv s'"
proof -
  obtain bs hs where hs: "mem_read data 0 len = Some bs" "on_timer uv_timer_stop (handshake_timer s) = Some hs"
    using assms(2) by (auto simp: pc__handshake_resp_def bind_eq_Some_conv)
  let ?s = "s\<lparr>handshake_timer := hs\<rparr>"
  have "same_core s ?s" using hs(2) by (auto simp: same_core_def on_timer_def)
  then have inv: "client_inv ?s" using assms(1) by (rule same_core_inv)
  consider "s' = ?s" | res where "env_loadb e bs = Some res"
      "json_integer_value (json_object_get (Some res) ''code'') = PC_HANDSHAKE_OK"
    using assms(2) hs
    by (cases "env_loadb e bs") (auto simp: pc__handshake_resp_def Let_def split: if_splits)
  then show ?thesis
  proof cases
    case 2
    let ?u = "json_object_get (Some res) ''user''"
    from 2 assms(2) hs obtain s1 s2 x y where
      s1: "(case json_object_get (Some res) ''sys'' of None \<Rightarrow> Some ?s
            | Some sys \<Rightarrow> do { s \<leftarrow> setup_heartbeat sys ?s; setup_protos e sys (setup_dict sys s) }) = Some s1"
      and s2: "(if (if handshake_cb s1 then env_handshake e ?u else 0) = 0
               then pc__handshake_ack e (if handshake_cb s1 then logged (Handshake_cb ?u) s1 else s1)
               else Some (0, if handshake_cb s1 then logged (Handshake_cb ?u) s1 else s1)) = Some (x, s2)"
      and s': "pc__heartbeat s2 = Some (y, s')"
      by (auto simp: pc__handshake_resp_def bind_eq_Some_conv Let_def)
    have "same_core ?s s1"
      using s1 by (auto simp: bind_eq_Some_conv split: option.splits dest!: setup_core(1,3))
        (meson same_core_trans setup_core(2))
    then have "client_inv s1" using inv by (rule same_core_inv)
    then have "client_inv (if handshake_cb s1 then logged (Handshake_cb ?u) s1 else s1)"
      using same_core_inv [OF logged_core(1)] by simp
    then have "client_inv s2" using s2 handshake_ack_inv by (auto split: if_splits)
    then show ?thesis by (rule same_core_inv [OF heartbeat_core [OF s']])
  qed (use inv in simp)
qed

lemma process_response_core: "pc__process_response msg s = Some s' \<Longrightarrow> same_core s s'"
  by (auto simp: pc__process_response_def split: option.splits
      intro: same_core_trans [OF requests_del_core request_cb_core(1)])

lemma data_core: "pc__data e data len s = Some (r, s') \<Longrightarrow> same_core s s'"
  by (auto simp: pc__data_def bind_eq_Some_conv cret_ex split: if_splits dest: process_response_core)

lemma dispatch_inv:
  "client_inv s \<Longrightarrow> pkg_dispatch e type data len s = Some (r, s') \<Longrightarrow> client_inv s'"
  by (auto simp: pkg_dispatch_def split: if_splits intro: handshake_resp_inv same_core_inv [OF heartbeat_core]
      same_core_inv [OF data_core] same_core_inv [OF logged_core(2)])

lemma pkg_cb_inv: "keeps client_inv (pc__pkg_cb e)"
  unfolding keeps_def
proof (intro allI impI)
  fix t body n s p s' p'
  assume inv: "client_inv s" and cb: "pc__pkg_cb e t body n (s, p) = Some (s', p')"
  obtain r s1 where d: "pkg_dispatch e t body n s = Some (r, s1)"
    and k: "(if r = -1 then pc_client_stop e (s1, p) else Some (s1, p)) = Some (s', p')"
    using cb by (cases "pkg_dispatch e t body n s") (auto simp: pc__pkg_cb_def)
  have "client_inv s1" by (rule dispatch_inv [OF inv d])
  then show "client_inv s'" using k stop_inv [of s1 e p s' p'] by (simp split: if_splits)
qed

lemma client_read_inv:
  assumes "client_inv s" "pc_client_on_tcp_read e bs n (s, p) = Some (s', p')"
  shows "client_inv s'"
proof (cases "pc_pkg_parser_feed (malloc_ok e) (pc__pkg_cb e) bs n (s, p)")
  case (Some res)
  obtain r s1 p1 where res: "res = (r, s1, p1)" by (cases res)
  have "client_inv s1" using feed_world [OF Some [unfolded res] pkg_cb_inv assms(1)] .
  then show ?thesis
    using assms(2) Some res stop_inv [of s1 e p1 s' p'] by (simp add: pc_client_on_tcp_read_def split: if_splits)
qed (use assms in \<open>simp add: pc_client_on_tcp_read_def\<close>)

lemma tcp_read_inv:
  assumes "client_inv s" "pc_tp_on_tcp_read e t nread (s, p) = Some (s', p')"
  shows "client_inv s'"
proof -
  have r: "client_inv (s\<lparr>reconnecting := False\<rparr>)" by (rule same_core_inv [OF _ assms(1)]) (simp add: same_core_def)
  consider "s' = s" | "pc_client_stop e (s\<lparr>reconnecting := False\<rparr>, p) = Some (s', p')"
    | bs where "pc_client_on_tcp_read e bs (length bs) (s, p) = Some (s', p')"
    using assms(2) by (cases nread) (auto simp: pc_tp_on_tcp_read_def bind_eq_Some_conv split: if_splits)
  then show ?thesis
    by cases (use assms(1) stop_inv [OF r] client_read_inv [OF assms(1)] in blast)+
qed

lemma fresh_inv:
  assumes "client_inv s" "same_core (s\<lparr>heap_next := heap_next s + 1\<rparr>) s'"
  shows "client_inv s'"
proof -
  have "client_inv (s\<lparr>heap_next := heap_next s + 1\<rparr>)"
    using assms(1) unfolding inv_defs by (simp add: less_Suc_eq)
  then show ?thesis by (rule same_core_inv [OF assms(2)])
qed

lemma new_inv:
  "client_inv s \<Longrightarrow> pc_connect_req_new e a s = Ok (c, s') \<Longrightarrow> client_inv s'"
  "client_inv s \<Longrightarrow> pc_request_new e s = Ok (r, s') \<Longrightarrow> client_inv s'"
  "client_inv s \<Longrightarrow> pc_notify_new e s = Ok (r, s') \<Longrightarrow> client_inv s'"
  by (erule fresh_inv, force simp: pc_connect_req_new_def pc_request_new_def pc_notify_new_def same_core_def
      split: option.splits if_splits)+

lemma destroy_core:
  "pc_connect_req_destroy c s = Some s' \<Longrightarrow> same_core s s'"
  "pc_request_destroy r s = Some s' \<Longrightarrow> same_core s s'"
  "pc_notify_destroy r s = Some s' \<Longrightarrow> same_core s s'"
  by (auto simp: pc_connect_req_destroy_def pc_request_destroy_def pc_notify_destroy_def same_core_def split: option.splits)

text \<open>What \<open>pc_connect\<close> makes of the transports.\<close>

lemma pc_connect_cases:
  assumes "pc_connect e req opts cb s = Some (r, s')"
  obtains (refused) "r = -1" "s' = s"
  | (failed) "r = -1" "state s = PC_ST_INITED" "same_core (s\<lparr>state := PC_ST_CONNECTING\<rparr>) s'"
  | (aborted) "r = -1" "state s = PC_ST_INITED"
      "same_core (s\<lparr>state := PC_ST_CONNECTING, heap_next := heap_next s + 1,
         transports := (transports s)(heap_next s := None)\<rparr>) s'"
  | (started) c where "r = 0" "state s = PC_ST_INITED" "req = Some c" "same_core (s\<lparr>state := PC_ST_CONNECTING,
      heap_next := heap_next s + 1, transports := (transports s)(heap_next s \<mapsto> PC_TP_ST_CONNECTING),
      uv_connects := uv_connects s @ [(heap_next s, c)]\<rparr>) s'"
proof (cases "state s = PC_ST_INITED \<and> req \<noteq> None")
  case True
  then obtain c where c: "req = Some c" and st: "state s = PC_ST_INITED" by auto
  obtain conn where conn: "connects s c = Some conn"
    using assms c st by (cases "connects s c") (simp_all add: pc_connect_def)
  let ?s = "s\<lparr>state := PC_ST_CONNECTING\<rparr>"
  have "r = -1 \<and> s' = s \<or> r = -1 \<and> s' = ?s \<or>
    r = -1 \<and> same_core (?s\<lparr>heap_next := heap_next s + 1, transports := (transports s)(heap_next s := None)\<rparr>) s' \<or>
    r = 0 \<and> same_core (?s\<lparr>heap_next := heap_next s + 1, transports := (transports s)(heap_next s \<mapsto> PC_TP_ST_CONNECTING),
      uv_connects := uv_connects s @ [(heap_next s, c)]\<rparr>) s'"
    using assms c st conn
    by (auto simp: pc_connect_def pc_transport_new_def pc_transport_destroy_def same_core_def Let_def split: if_splits)
  then consider "r = -1" "s' = s" | "r = -1" "s' = ?s"
    | "r = -1" "same_core (?s\<lparr>heap_next := heap_next s + 1, transports := (transports s)(heap_next s := None)\<rparr>) s'"
    | "r = 0" "same_core (?s\<lparr>heap_next := heap_next s + 1, transports := (transports s)(heap_next s \<mapsto> PC_TP_ST_CONNECTING),
      uv_connects := uv_connects s @ [(heap_next s, c)]\<rparr>) s'"
    by blast
  then show ?thesis
  proof cases
    case 1
    then show ?thesis by (rule refused)
  next
    case 2
    then show ?thesis using failed st by simp
  next
    case 3
    then show ?thesis using aborted st by simp
  next
    case 4
    then show ?thesis using started st c by simp
  qed
qed (use assms that(1) in \<open>auto simp: pc_connect_def split: if_splits\<close>)

lemma pc_connect_inv:
  assumes "client_inv s" "pc_connect e req opts cb s = Some (r, s')"
  shows "client_inv s'"
  using assms(2)
proof (cases rule: pc_connect_cases)
  case refused
  then show ?thesis using assms(1) by simp
next
  case failed
  then have "client_inv (s\<lparr>state := PC_ST_CONNECTING\<rparr>)" using assms(1) unfolding inv_defs by simp
  then show ?thesis by (rule same_core_inv [OF failed(3)])
next
  case aborted
  have "transports s (heap_next s) = None"
    using transport_invD(6) [OF assms(1), of "heap_next s"] by (cases "transports s (heap_next s)") auto
  then have "client_inv (s\<lparr>state := PC_ST_CONNECTING, heap_next := heap_next s + 1,
      transports := (transports s)(heap_next s := None)\<rparr>)"
    using assms(1) aborted(2) unfolding inv_defs by (simp add: less_Suc_eq fun_upd_idem)
  then show ?thesis by (rule same_core_inv [OF aborted(3)])
next
  case (started c)
  let ?t = "heap_next s"
  note D = transport_invD [OF assms(1)]
  have n: "transports s ?t = None" using D(6) [of ?t] by (cases "transports s ?t") auto
  have w: "?t \<notin> fst ` set (uv_connects s)" using D(4) [of ?t] n by auto
  have tn: "transport s = None" using assms(1) started(2) unfolding client_inv_def state_inv_def by simp
  let ?s = "s\<lparr>state := PC_ST_CONNECTING, heap_next := heap_next s + 1,
      transports := (transports s)(heap_next s \<mapsto> PC_TP_ST_CONNECTING),
      uv_connects := uv_connects s @ [(heap_next s, c)]\<rparr>"
  have "transport_inv ?s"
  proof (rule transport_invI)
    show "distinct (map fst (uv_connects ?s))" using D(5) w by simp
    show "transports ?s t = Some PC_TP_ST_CONNECTING" if "t \<in> fst ` set (uv_connects ?s)" for t
      using that D(4) [of t] by auto
    show "t < heap_next ?s" if "transports ?s t = Some x" for t x using that D(6) [of t] by (auto split: if_splits)
    show "transport ?s = Some t" if "transports ?s t = Some PC_TP_ST_WORKING" for t
      using that D(3) [of t] by (auto split: if_splits)
  qed (use tn D(7,8) in auto)
  moreover have "state_inv ?s" "handle_inv ?s"
    using assms(1) started(2) unfolding inv_defs by simp_all
  ultimately have "client_inv ?s" by (simp add: client_inv_def)
  then show ?thesis by (rule same_core_inv [OF started(4)])
qed

lemma connect_failed_inv:
  assumes "client_inv s" "connect_failed e c (s, p) = Some (s', p')"
  shows "client_inv s'"
proof -
  let ?s = "s\<lparr>conn_req := None\<rparr>"
  have "client_inv ?s" by (rule same_core_inv [OF _ assms(1)]) (simp add: same_core_def)
  moreover obtain s1 p1 where "pc_client_stop e (?s, p) = Some (s1, p1)" "run_connect_cb e c (-1) (s1, p1) = Some (s', p')"
    using assms(2) by (cases "pc_client_stop e (?s, p)") (auto simp: connect_failed_def)
  ultimately show ?thesis using stop_inv connect_cb_inv by blast
qed

text \<open>The transport whose connect has finished becomes that of the client.\<close>

definition adopts :: "pc_world \<Rightarrow> nat \<Rightarrow> bool" where
  "adopts s t \<longleftrightarrow> client_inv s \<and> transports s t = Some PC_TP_ST_CONNECTING \<and> transport s \<noteq> Some t \<and>
     t \<notin> fst ` set (uv_connects s)"

lemma transport_inv_update:
  assumes inv: "client_inv s" and t: "transports s t = Some y" "t \<notin> fst ` set (uv_connects s)"
    and s': "transports s' = (transports s)(t \<mapsto> x)" "uv_connects s' = uv_connects s" "uv_writes s' = uv_writes s"
      "heap_next s' = heap_next s"
    and T: "\<And>u. transport s' = Some u \<Longrightarrow> u \<notin> fst ` set (uv_connects s) \<and>
      (transports s' u = Some PC_TP_ST_CONNECTING \<or> transports s' u = Some PC_TP_ST_WORKING)"
    and W: "\<And>u. transports s' u = Some PC_TP_ST_WORKING \<Longrightarrow> transport s' = Some u"
  shows "transport_inv s'"
proof (rule transport_invI)
  note D = transport_invD [OF inv]
  show "transports s' u = Some PC_TP_ST_CONNECTING" if "u \<in> fst ` set (uv_connects s')" for u
    using D(4) [of u] that t(2) s'(1,2) by auto
  show "u < heap_next s'" if "transports s' u = Some z" for u z
    using D(6) [of u] D(6) [OF t(1)] that s'(1,4) by (cases "u = t") simp_all
  show "transports s' (w_transport w) \<noteq> None" if "w \<in> set (uv_writes s')" for w
    using D(7) [of w] that s'(1,3) by simp
  show "write_on (w_cb w) (w_transport w)" if "w \<in> set (uv_writes s')" for w using D(8) [of w] that s'(3) by simp
  show "distinct (map fst (uv_connects s'))" using D(5) s'(2) by simp
  show "transport s' = Some u" if "transports s' u = Some PC_TP_ST_WORKING" for u using W that .
  show "u \<notin> fst ` set (uv_connects s')" if "transport s' = Some u" for u using T that s'(2) by simp
  show "transports s' u = Some PC_TP_ST_CONNECTING \<or> transports s' u = Some PC_TP_ST_WORKING"
    if "transport s' = Some u" for u using T that by simp
qed

lemma transport_inv_less:
  assumes inv: "client_inv s" and c: "set (uv_connects s') \<subseteq> set (uv_connects s)" "distinct (map fst (uv_connects s'))"
    and w: "set (uv_writes s') \<subseteq> set (uv_writes s)"
    and s': "transport s' = transport s" "transports s' = transports s" "heap_next s' = heap_next s"
  shows "transport_inv s'"
proof (rule transport_invI)
  note D = transport_invD [OF inv]
  have i: "u \<in> fst ` set (uv_connects s)" if "u \<in> fst ` set (uv_connects s')" for u
    using that image_mono [OF c(1), of fst] by (rule rev_subsetD)
  show "transports s' u = Some PC_TP_ST_CONNECTING" if "u \<in> fst ` set (uv_connects s')" for u
    using D(4) [OF i [OF that]] s'(2) by simp
  show "u \<notin> fst ` set (uv_connects s')" if "transport s' = Some u" for u using D(2) [of u] that s'(1) i by metis
  show "transports s' (w_transport x) \<noteq> None" if "x \<in> set (uv_writes s')" for x
    using D(7) [of x] w that s'(2) by (metis subsetD)
  show "write_on (w_cb x) (w_transport x)" if "x \<in> set (uv_writes s')" for x using D(8) w that by (metis subsetD)
  show "u < heap_next s'" if "transports s' u = Some z" for u z using D(6) that s' by simp
  show "transport s' = Some u" if "transports s' u = Some PC_TP_ST_WORKING" for u using D(3) that s' by simp
  show "transports s' u = Some PC_TP_ST_CONNECTING \<or> transports s' u = Some PC_TP_ST_WORKING"
    if "transport s' = Some u" for u using D(1) that s' by simp
qed (rule c(2))

lemma write_done_inv:
  assumes "client_inv s" "uv_writes s = xs @ w # ys"
  shows "client_inv (s\<lparr>uv_writes := xs @ ys\<rparr>)"
proof -
  have "transport_inv (s\<lparr>uv_writes := xs @ ys\<rparr>)"
    using assms(2) transport_invD(5) [OF assms(1)] by (intro transport_inv_less [OF assms(1)]) auto
  then show ?thesis using assms(1) unfolding client_inv_def state_inv_def handle_inv_def by simp
qed

lemma connect_done_adopts:
  assumes "client_inv s" "uv_connects s = xs @ (t, c) # ys"
  shows "adopts (s\<lparr>uv_connects := xs @ ys\<rparr>) t"
proof -
  note D = transport_invD [OF assms(1)]
  have t: "(t, c) \<in> set (uv_connects s)" using assms(2) by auto
  have "transport_inv (s\<lparr>uv_connects := xs @ ys\<rparr>)"
    using assms(2) D(5) by (intro transport_inv_less [OF assms(1)]) auto
  then have "client_inv (s\<lparr>uv_connects := xs @ ys\<rparr>)"
    using assms(1) unfolding client_inv_def state_inv_def handle_inv_def by simp
  moreover have "t \<notin> fst ` set (xs @ ys)" using D(5) assms(2) by auto
  moreover have "transports s t = Some PC_TP_ST_CONNECTING" "transport s \<noteq> Some t"
    using D(2,4) [of t] t by force+
  ultimately show ?thesis by (simp add: adopts_def)
qed

lemma adopt_dropped:
  assumes "adopts s t" "pc_transport_destroy t s = Some s'"
  shows "client_inv s'"
proof -
  have s': "s' = s\<lparr>transports := (transports s)(t \<mapsto> PC_TP_ST_CLOSED)\<rparr>"
    using assms by (simp add: adopts_def pc_transport_destroy_def)
  have a: "client_inv s" "transports s t = Some PC_TP_ST_CONNECTING" "transport s \<noteq> Some t" "t \<notin> fst ` set (uv_connects s)"
    using assms(1) by (simp_all add: adopts_def)
  have "transport_inv s'"
    by (rule transport_inv_update [OF a(1,2,4), of s' PC_TP_ST_CLOSED])
      (use transport_invD(1-3) [OF a(1)] a(3) in \<open>auto simp: s' split: if_splits\<close>)
  moreover have "state_inv s'" "handle_inv s'"
    using a(1,3) unfolding client_inv_def state_inv_def handle_inv_def by (auto simp: s')
  ultimately show ?thesis by (simp add: client_inv_def)
qed

lemma adopt_connecting:
  assumes "adopts s t" "state s = PC_ST_CONNECTING"
  shows "client_inv (s\<lparr>transport := Some t\<rparr>)"
proof -
  have a: "client_inv s" "transports s t = Some PC_TP_ST_CONNECTING" "t \<notin> fst ` set (uv_connects s)"
    using assms(1) by (simp_all add: adopts_def)
  have nw: "transports s t' \<noteq> Some PC_TP_ST_WORKING" for t'
    using transport_invD(3) [OF a(1), of t'] a(1) assms(2) unfolding client_inv_def state_inv_def by auto
  have "transport_inv (s\<lparr>transport := Some t\<rparr>)"
    by (rule transport_inv_update [OF a, of _ PC_TP_ST_CONNECTING]) (use nw a in \<open>auto simp: fun_upd_idem\<close>)
  then show ?thesis using a(1,2) assms(2) unfolding client_inv_def state_inv_def handle_inv_def by simp
qed

lemma adopt_working:
  assumes "adopts s t" "state s = PC_ST_CONNECTING"
    "pc_transport_start t (s\<lparr>transport := Some t, state := PC_ST_CONNECTED\<rparr>) = Some (r, s')"
  shows "client_inv s'"
proof -
  have s': "s' = s\<lparr>transport := Some t, state := PC_ST_CONNECTED, transports := (transports s)(t \<mapsto> PC_TP_ST_WORKING)\<rparr>"
    using assms by (simp add: adopts_def pc_transport_start_def)
  have a: "client_inv s" "transports s t = Some PC_TP_ST_CONNECTING" "t \<notin> fst ` set (uv_connects s)"
    using assms(1) by (simp_all add: adopts_def)
  have nw: "transports s t' \<noteq> Some PC_TP_ST_WORKING" for t'
    using transport_invD(3) [OF a(1), of t'] a(1) assms(2) unfolding client_inv_def state_inv_def by auto
  have "transport_inv s'"
    by (rule transport_inv_update [OF a, of _ PC_TP_ST_WORKING]) (use nw a in \<open>auto simp: s' split: if_splits\<close>)
  moreover have "state_inv s'" "handle_inv s'"
    using a(1) assms(2) unfolding client_inv_def state_inv_def handle_inv_def by (simp_all add: s')
  ultimately show ?thesis by (simp add: client_inv_def)
qed

lemma on_tcp_connect_inv:
  assumes "adopts s t" "pc__on_tcp_connect e t c status (s, p) = Some (s', p')"
  shows "client_inv s'"
proof -
  have inv: "client_inv s" using assms(1) by (simp add: adopts_def)
  have conn: "transports s t = Some PC_TP_ST_CONNECTING" using assms(1) by (simp add: adopts_def)
  show ?thesis
  proof (cases "state s = PC_ST_CONNECTING")
    case False
    have "client_inv (s\<lparr>conn_req := None\<rparr>)" by (rule same_core_inv [OF _ inv]) (simp add: same_core_def)
    then show ?thesis using connect_cb_inv assms(2) False conn by (simp add: pc__on_tcp_connect_def)
  next
    case True
    consider s1 where "pc_transport_destroy t s = Some s1" "connect_failed e c (s1, p) = Some (s', p')"
      | "connect_failed e c (s\<lparr>transport := Some t\<rparr>, p) = Some (s', p')"
      | r s1 r' s2 where "pc_transport_start t (s\<lparr>transport := Some t, state := PC_ST_CONNECTED\<rparr>) = Some (r, s1)"
        "pc__handshake_req e s1 = Some (r', s2)"
        "(if r' \<noteq> 0 then connect_failed e c (s2, p) else Some (s2, p)) = Some (s', p')"
      using assms(2) True conn
      by (cases "status = -1"; cases "uv_ok e Uv_read_start") (auto simp: pc__on_tcp_connect_def bind_eq_Some_conv)
    then show ?thesis
    proof cases
      case 1
      then show ?thesis using connect_failed_inv adopt_dropped [OF assms(1)] by blast
    next
      case 2
      then show ?thesis using connect_failed_inv adopt_connecting [OF assms(1) True] by blast
    next
      case (3 r s1 r' s2)
      have "client_inv s2" using handshake_req_inv [OF adopt_working [OF assms(1) True 3(1)] 3(2)] .
      then show ?thesis using 3(3) connect_failed_inv [of s2 e c p s' p'] by (simp split: if_splits)
    qed
  qed
qed

lemma keep_addr_core [simp]: "same_core s (keep_addr a s)"
  by (simp add: keep_addr_def same_core_def)

lemma proto_core: "same_core s (pc_proto_init rd wd s)" "same_core s (pc_proto_init2 cb s)" "same_core s (pc_proto_copy ver cp sp s)"
  by (simp_all add: pc_proto_init_def pc_proto_init2_def pc_proto_copy_def same_core_def)

lemma reconnect_to_addr_inv:
  assumes "client_inv s" "reconnect_to_addr e (s, p) = Some (s', p')"
  shows "client_inv s'"
proof -
  have stop: "client_inv t'" if "pc_client_stop e (t\<lparr>reconnecting := False\<rparr>, p) = Some (t', q)" "client_inv t" for t t' q
    using stop_inv [OF same_core_inv [OF _ that(2)] that(1)] by (simp add: same_core_def)
  show ?thesis
  proof (cases "pc_connect_req_new e (Some (client_addr s)) s")
    case Fail
    then show ?thesis using assms stop by (auto simp: reconnect_to_addr_def)
  next
    case (Ok cs)
    obtain c s1 where cs: "cs = (c, s1)" by (cases cs)
    have "client_inv s1" using new_inv(1) [OF assms(1)] Ok cs by blast
    moreover obtain r s2 where s2: "pc_connect e (Some c) None Client_reconnected_cb s1 = Some (r, s2)"
      and k: "(if r \<noteq> 0 then do { s \<leftarrow> pc_connect_req_destroy c s2; pc_client_stop e (s\<lparr>reconnecting := False\<rparr>, p) }
        else Some (s2, p)) = Some (s', p')"
      using assms(2) Ok cs
      by (cases "pc_connect e (Some c) None Client_reconnected_cb s1") (auto simp: reconnect_to_addr_def)
    ultimately have "client_inv s2" using pc_connect_inv by blast
    then show ?thesis
      using k stop same_core_inv [OF destroy_core(1)] by (auto simp: bind_eq_Some_conv split: if_splits)
  qed
qed

lemma reconnect_timer_inv:
  assumes "client_inv s" "pc__client_reconnect_timer_cb e (s, p) = Some (s', p')"
  shows "client_inv s'"
proof -
  have f: "client_inv (s\<lparr>reconnecting := False\<rparr>)" and ad: "client_inv (s\<lparr>client_addr := a\<rparr>)" for a
    by (rule same_core_inv [OF _ assms(1)], simp add: same_core_def)+
  show ?thesis
  proof (cases "host s")
    case None
    then show ?thesis
      using assms(2) reconnect_to_addr_inv [OF assms(1)] by (simp add: pc__client_reconnect_timer_cb_def)
  next
    case (Some h)
    then show ?thesis
      using assms(2) stop_inv [OF f, of e p s' p'] reconnect_to_addr_inv [OF ad, of e _ p s' p']
      by (cases "pc_client_dns_resolve e h (port s)") (simp_all add: pc__client_reconnect_timer_cb_def)
  qed
qed

lemma client_connect_inv:
  assumes "client_inv s" "pc_client_connect e a s = Some (r, s') \<or> pc_client_connect3 e a s = Some (r, s')"
  shows "client_inv s'"
proof (cases "pc_connect_req_new e (Some a) s")
  case Fail
  then show ?thesis
    using assms same_core_inv [OF keep_addr_core, of s a] by (auto simp: pc_client_connect_def pc_client_connect3_def)
next
  case (Ok cs)
  obtain c s1 where cs: "cs = (c, s1)" by (cases cs)
  have inv: "client_inv s1" using new_inv(1) [OF assms(1)] Ok cs by blast
  have inv': "client_inv (keep_addr a s1)" by (rule same_core_inv [OF keep_addr_core inv])
  obtain cb r1 s2 where s2: "pc_connect e (Some c) None cb (keep_addr a s1) = Some (r1, s2)"
    and k: "(if r1 \<noteq> 0 then do { s \<leftarrow> pc_connect_req_destroy c s2; Some (-1, s) } else Some (0, s2)) = Some (r, s')"
    using assms(2) Ok cs by (auto simp: pc_client_connect_def pc_client_connect3_def bind_eq_Some_conv)
  have "client_inv s2" using pc_connect_inv [OF inv' s2] .
  then show ?thesis
    using k same_core_inv [OF destroy_core(1)] by (auto simp: bind_eq_Some_conv split: if_splits)
qed

lemma client_connect2_inv:
  assumes "client_inv s" "pc_client_connect2 e c s = Some (r, s')"
  shows "client_inv s'"
proof -
  have ad: "client_inv (s\<lparr>client_addr := a\<rparr>)" for a by (rule same_core_inv [OF _ assms(1)]) (simp add: same_core_def)
  obtain s1 r1 where "s1 = s \<or> (\<exists>a. s1 = s\<lparr>client_addr := a\<rparr>)" "pc_connect e (Some c) None User_connect_cb s1 = Some (r1, s')"
    using assms(2) by (auto simp: pc_client_connect2_def bind_eq_Some_conv split: if_splits)
  then show ?thesis using assms(1) ad pc_connect_inv by blast
qed

lemma client_connect4_inv:
  assumes "client_inv s" "pc_client_connect4 e h prt s = Some (r, s')"
  shows "client_inv s'"
proof -
  have "client_inv (s\<lparr>host := Some h, port := prt\<rparr>)" by (rule same_core_inv [OF _ assms(1)]) (simp add: same_core_def)
  then show ?thesis
    using client_connect_inv [of "s\<lparr>host := Some h, port := prt\<rparr>" e _ r s'] assms
    by (auto simp: pc_client_connect4_def split: option.splits)
qed

lemma set_req_core: "set_req r f s = Some s' \<Longrightarrow> same_core s s'"
  by (auto simp: set_req_def same_core_def bind_eq_Some_conv)

lemma uv_asyncs_core: "same_core s t \<Longrightarrow> same_core s (t\<lparr>uv_asyncs := rs\<rparr>)"
  by (simp add: same_core_def)

lemma async_write_core:
  assumes "pc__async_write e tp req route msg s = Some (res, s')"
  shows "same_core s s'"
proof (cases tp; cases req; cases route)
  fix t r rt
  assume *: "tp = Some t" "req = Some r" "route = Some rt"
  let ?send = "\<lambda>s2. if msg = None then None
    else if \<not> alloc_ok e Obj_uv_async \<or> \<not> uv_ok e Uv_async_init \<or> \<not> uv_ok e Uv_async_send
    then do { s \<leftarrow> set_req r (\<lambda>q. q\<lparr>r_route := None\<rparr>) s2; Some (-1, s) }
    else Some (0, s2\<lparr>uv_asyncs := uv_asyncs s2 @ [r]\<rparr>)"
  have send: "same_core s2 s'" if "?send s2 = Some (res, s')" for s2
    using that set_req_core uv_asyncs_core [OF same_core_refl] by (auto simp: bind_eq_Some_conv split: if_splits)
  show ?thesis
  proof (cases "tp_working t s = Some True")
    case True
    then obtain s1 where s1: "set_req r (\<lambda>q. q\<lparr>r_route := None\<rparr>) s = Some s1"
      using assms * by (cases "set_req r (\<lambda>q. q\<lparr>r_route := None\<rparr>) s") (simp_all add: pc__async_write_def)
    show ?thesis
    proof (cases "malloc_ok e (length rt + 1)")
      case False
      then show ?thesis using assms * True s1 set_req_core by (simp add: pc__async_write_def)
    next
      case m: True
      let ?set = "set_req r (\<lambda>q. q\<lparr>r_transport := Some t, r_route := Some rt, r_msg := msg\<rparr>) s1"
      obtain s2 where s2: "?set = Some s2" and "?send s2 = Some (res, s')"
        using assms * True m s1 by (cases ?set) (simp_all add: pc__async_write_def)
      then show ?thesis using set_req_core [OF s1] set_req_core [OF s2] send same_core_trans by blast
    qed
  next
    case False
    then show ?thesis using assms * by (cases "tp_working t s") (simp_all add: pc__async_write_def)
  qed
qed (use assms in \<open>auto simp: pc__async_write_def bind_eq_Some_conv split: if_splits\<close>)

lemma request_core:
  "pc_request e r route msg s = Some (res, s') \<Longrightarrow> same_core s s'"
  "pc_notify e r route msg s = Some (res, s') \<Longrightarrow> same_core s s'"
  by (auto simp: pc_request_def pc_notify_def Let_def bind_eq_Some_conv same_core_def split: if_splits
      dest!: async_write_core set_req_core)

lemma send_msg_inv:
  assumes "client_inv s" "send_msg e n q cb s = Some (Ok s')" "\<And>t. write_on cb t"
  shows "client_inv s'"
proof -
  obtain t bs where "transport s = Some t" "s' = s\<lparr>uv_writes := uv_writes s @ [\<lparr>w_transport = t, w_bytes = bs, w_cb = cb\<rparr>]\<rparr>"
    using assms(2) by (auto simp: send_msg_def bind_eq_Some_conv cbind_def cret_ex split: if_splits option.splits)
  then show ?thesis using write_inv [OF assms(1)] assms(3) by blast
qed

lemma request_notify_inv:
  assumes "client_inv s" "pc__request e r status s = Some s' \<or> pc__notify e r status s = Some s'"
  shows "client_inv s'"
proof -
  note cb = same_core_inv [OF request_cb_core(1)] same_core_inv [OF request_cb_core(2)]
  have rq: "client_inv s'" if req: "pc__request e r status s = Some s'"
  proof -
    consider st where "request_cb r st None s = Some s'" | n q s1 k where "send_msg e n q (On_request r) s = Some (Ok s1)"
        "requests_set e k r s1 = Some s'"
      using req by (auto simp: pc__request_def bind_eq_Some_conv cret_ex split: if_splits)
    then show ?thesis
      by cases (use cb assms(1) send_msg_inv [OF assms(1)] same_core_inv [OF requests_set_core] in auto)
  qed
  have nt: "client_inv s'" if req: "pc__notify e r status s = Some s'"
  proof -
    consider st where "notify_cb r st s = Some s'" | n q where "send_msg e n q (On_notify r) s = Some (Ok s')"
      using req by (auto simp: pc__notify_def bind_eq_Some_conv cret_ex split: if_splits)
    then show ?thesis by cases (use cb assms(1) send_msg_inv [OF assms(1)] in auto)
  qed
  show ?thesis using assms(2) rq nt by blast
qed

lemma async_cb_inv:
  assumes "client_inv s" "pc__async_write_cb e r status s = Some s'"
  shows "client_inv s'"
proof -
  have "client_inv (s\<lparr>tcp_reqs := f\<rparr>)" for f by (rule same_core_inv [OF _ assms(1)]) (simp add: same_core_def)
  moreover obtain q m where "tcp_reqs s r = Some q" "r_msg q = Some m"
    using assms(2) by (auto simp: pc__async_write_cb_def bind_eq_Some_conv)
  ultimately show ?thesis
    using assms(2) request_notify_inv [OF assms(1), of e r status s']
    by (cases "r_type q") (auto simp: pc__async_write_cb_def)
qed

lemma on_request_core:
  "pc__on_request r status s = Some s' \<Longrightarrow> same_core s s'"
  "pc__on_notify r status s = Some s' \<Longrightarrow> same_core s s'"
  by (auto simp: pc__on_request_def pc__on_notify_def bind_eq_Some_conv split: if_splits
      dest: request_cb_core same_core_trans [OF requests_del_core request_cb_core(1)])

lemma write_cb_inv:
  assumes "client_inv s" "run_write_cb e cb status (s, p) = Some (s', p')"
  shows "client_inv s'"
proof (cases cb)
  case (Handshake_req_cb t)
  consider "s' = s" | s1 p1 where "pc_client_stop e (s, p) = Some (s1, p1)" "finish_connect e status (s1, p1) = Some (s', p')"
    using assms(2) Handshake_req_cb by (auto simp: pc__handshake_req_cb_def bind_eq_Some_conv split: if_splits)
  then show ?thesis by cases (use assms(1) stop_inv finish_connect_inv in blast)+
next
  case (Handshake_ack_cb t)
  show ?thesis
  proof (cases "tp_working t s = Some True")
    case True
    then have w: "transports s t = Some PC_TP_ST_WORKING" by (auto simp: tp_working_def)
    then have t: "transport s = Some t" using transport_invD(3) [OF assms(1)] by simp
    have "client_inv (s\<lparr>state := PC_ST_WORKING\<rparr>)"
      using assms(1) t w transport_inv_cong [of "s\<lparr>state := PC_ST_WORKING\<rparr>" s]
      unfolding client_inv_def state_inv_def handle_inv_def by auto
    moreover obtain s1 p1 where "(if status = -1 then pc_client_stop e (s, p) else Some (s\<lparr>state := PC_ST_WORKING\<rparr>, p)) = Some (s1, p1)"
      "finish_connect e status (s1, p1) = Some (s', p')"
      using assms(2) Handshake_ack_cb True by (auto simp: pc__handshake_ack_cb_def bind_eq_Some_conv)
    ultimately show ?thesis
      using stop_inv [OF assms(1), of e p s1 p1] finish_connect_inv [of s1 e status p1 s' p']
      by (auto split: if_splits)
  next
    case False
    then show ?thesis
      using assms Handshake_ack_cb by (cases "tp_working t s") (auto simp: pc__handshake_ack_cb_def)
  qed
next
  case (Heartbeat_req_cb t)
  then show ?thesis using assms by (simp add: pc__heartbeat_req_cb_def split: if_splits)
qed (use assms same_core_inv [OF on_request_core(1)] same_core_inv [OF on_request_core(2)] in auto)

lemma timer_cb_inv:
  assumes "client_inv s"
  shows "pc__heartbeat_cb e status (s, p) = Some (s', p') \<Longrightarrow> client_inv s'"
    and "pc__timeout_cb e status (s, p) = Some (s', p') \<Longrightarrow> client_inv s'"
    and "pc__handshake_timeout_cb e (s, p) = Some (s', p') \<Longrightarrow> client_inv s'"
proof -
  have hb: "client_inv (s\<lparr>heartbeat_timer := x\<rparr>)" if "on_timer uv_timer_stop (heartbeat_timer s) = Some x" for x
    using on_timer_handle [OF that] by (intro same_core_inv [OF _ assms]) (simp add: same_core_def)
  have tm: "client_inv (t\<lparr>timeout_timer := x\<rparr>)" if "on_timer f (timeout_timer t) = Some x" "client_inv t" "\<And>t. t_closing (f t) = t_closing t" for f x t
    using on_timer_handle [OF that(1,3)] by (intro same_core_inv [OF _ that(2)]) (simp add: same_core_def)
  have hs: "client_inv (s\<lparr>handshake_timer := x\<rparr>)" if "on_timer uv_timer_stop (handshake_timer s) = Some x" for x
    using on_timer_handle [OF that] by (intro same_core_inv [OF _ assms]) (simp add: same_core_def)
  show "client_inv s'" if cb: "pc__heartbeat_cb e status (s, p) = Some (s', p')"
  proof -
    obtain x where x: "on_timer uv_timer_stop (heartbeat_timer s) = Some x"
      using cb by (cases "on_timer uv_timer_stop (heartbeat_timer s)") (simp_all add: pc__heartbeat_cb_def)
    note inv = hb [OF x]
    let ?s = "s\<lparr>heartbeat_timer := x\<rparr>"
    show ?thesis
    proof (cases "status = -1")
      case True
      then show ?thesis using stop_inv [OF inv] cb x by (simp add: pc__heartbeat_cb_def)
    next
      case False
      obtain r s1 where req: "pc__heartbeat_req e ?s = Some (r, s1)"
        using cb x False by (cases "pc__heartbeat_req e ?s") (auto simp: pc__heartbeat_cb_def)
      note inv1 = heartbeat_req_inv [OF inv req]
      show ?thesis
      proof (cases "r = 0")
        case True
        then show ?thesis
          using cb x False req tm [OF _ inv1]
          by (cases "on_timer uv_timer_again (timeout_timer s1)") (auto simp: pc__heartbeat_cb_def)
      next
        case r: False
        then show ?thesis using stop_inv [OF inv1] cb x False req by (simp add: pc__heartbeat_cb_def)
      qed
    qed
  qed
  show "pc__timeout_cb e status (s, p) = Some (s', p') \<Longrightarrow> client_inv s'"
    using same_core_inv [OF logged_core(2)]
    by (auto simp: pc__timeout_cb_def bind_eq_Some_conv Let_def split: if_splits intro: tm [OF _ assms timer_closing(1)]
        elim!: stop_inv [rotated])
  show "pc__handshake_timeout_cb e (s, p) = Some (s', p') \<Longrightarrow> client_inv s'"
    using same_core_inv [OF logged_core(2)]
    by (auto simp: pc__handshake_timeout_cb_def bind_eq_Some_conv intro: hs elim!: stop_inv [rotated])
qed

lemma socket_closed_inv:
  assumes "client_inv s" "transports s t = Some PC_TP_ST_CLOSED" "t \<notin> fst ` set (uv_connects s)"
    "t \<notin> w_transport ` set (uv_writes s)" "pc__tcp_close_cb t s = Some s'"
  shows "client_inv s'"
proof -
  have s': "s' = s\<lparr>transports := (transports s)(t := None)\<rparr>" using assms(2,5) by (simp add: pc__tcp_close_cb_def)
  note D = transport_invD [OF assms(1)]
  have t: "transport s \<noteq> Some t" using D(1) [of t] assms(2) by auto
  have "transport_inv s'"
  proof (rule transport_invI)
    show "transports s' u = Some PC_TP_ST_CONNECTING" if "u \<in> fst ` set (uv_connects s')" for u
      using D(4) [of u] that assms(3) by (auto simp: s')
    show "transports s' (w_transport w) \<noteq> None" if "w \<in> set (uv_writes s')" for w
      using D(7) [of w] that assms(4) by (auto simp: s')
    show "write_on (w_cb w) (w_transport w)" if "w \<in> set (uv_writes s')" for w using D(8) [of w] that by (simp add: s')
    show "u < heap_next s'" if "transports s' u = Some z" for u z using D(6) [of u] that by (simp add: s' split: if_splits)
    show "transport s' = Some u" if "transports s' u = Some PC_TP_ST_WORKING" for u
      using D(3) [of u] that by (simp add: s' split: if_splits)
    show "transports s' u = Some PC_TP_ST_CONNECTING \<or> transports s' u = Some PC_TP_ST_WORKING"
      if "transport s' = Some u" for u using D(1) [of u] that t by (auto simp: s')
    show "u \<notin> fst ` set (uv_connects s')" if "transport s' = Some u" for u using D(2) [of u] that by (simp add: s')
    show "distinct (map fst (uv_connects s'))" using D(5) by (simp add: s')
  qed
  then show ?thesis
    using assms(1) t unfolding client_inv_def state_inv_def handle_inv_def by (auto simp: s')
qed

lemma disconnect_inv:
  assumes "client_inv s" "pc_client_disconnect s = Some s'"
  shows "client_inv s'"
proof -
  have c: "close_async s" and s': "s' = s\<lparr>state := PC_ST_DISCONNECTING, close_sent := True\<rparr>"
    using assms(2) by (simp_all add: pc_client_disconnect_def split: if_splits)
  have "transport_inv s'" using assms(1) transport_inv_cong [of s' s] by (simp add: client_inv_def s')
  then show ?thesis using assms(1) c unfolding client_inv_def state_inv_def handle_inv_def by (simp add: s')
qed

lemma worker_inv:
  assumes "client_inv s" "\<not> loop_alive s"
  shows "client_inv (pc__worker s)"
proof -
  let ?s = "s\<lparr>state := PC_ST_CLOSED\<rparr>"
  have "transport s = None"
    using transport_invD(1) [OF assms(1)] assms(2) by (cases "transport s") (auto simp: loop_alive_def)
  then have "client_inv ?s"
    using assms(1) transport_inv_cong [of ?s s] unfolding client_inv_def state_inv_def handle_inv_def by simp
  then show ?thesis
    using same_core_inv [OF logged_core(1)] same_core_inv [OF logged_core(2)] by (simp add: pc__worker_def)
qed

lemma step_inv:
  assumes "client_step st st'" "client_inv (fst st)"
  shows "client_inv (fst st')"
  using assms
proof (cases rule: client_step.cases)
  case (tcp_connect s xs t c ys e status p)
  then have "adopts (s\<lparr>uv_connects := xs @ ys\<rparr>) t" using connect_done_adopts assms(2) by simp
  then show ?thesis using on_tcp_connect_inv tcp_connect(3) by (metis prod.collapse)
next
  case (write_done s xs w ys e status p)
  then have "client_inv (s\<lparr>uv_writes := xs @ ys\<rparr>)" using write_done_inv assms(2) by simp
  then show ?thesis using write_cb_inv write_done(3) by (metis prod.collapse)
next
  case (async s xs r ys e s' p)
  then have "client_inv (s\<lparr>uv_asyncs := xs @ ys\<rparr>)"
    using same_core_inv [OF uv_asyncs_core [OF same_core_refl]] assms(2) by simp
  then show ?thesis using async_cb_inv async(2,4) by simp
next
  case (heartbeat_timer s t e p)
  have "client_inv (s\<lparr>heartbeat_timer := Some (uv_run_timer t)\<rparr>)"
    by (rule same_core_inv [of s]) (use heartbeat_timer assms(2) in \<open>simp_all add: same_core_def\<close>)
  then show ?thesis using timer_cb_inv(1) heartbeat_timer by (cases st') auto
next
  case (timeout_timer s t e p)
  have "client_inv (s\<lparr>timeout_timer := Some (uv_run_timer t)\<rparr>)"
    by (rule same_core_inv [of s]) (use timeout_timer assms(2) in \<open>simp_all add: same_core_def\<close>)
  then show ?thesis using timer_cb_inv(2) timeout_timer by (cases st') auto
next
  case (handshake_timer s t e p)
  have "client_inv (s\<lparr>handshake_timer := Some (uv_run_timer t)\<rparr>)"
    by (rule same_core_inv [of s]) (use handshake_timer assms(2) in \<open>simp_all add: same_core_def\<close>)
  then show ?thesis using timer_cb_inv(3) handshake_timer by (cases st') auto
next
  case (reconnect_timer s e p)
  have "client_inv (s\<lparr>reconnect_timer := uv_run_timer (reconnect_timer s)\<rparr>)"
    by (rule same_core_inv [of s]) (use reconnect_timer assms(2) in \<open>simp_all add: same_core_def\<close>)
  then show ?thesis using reconnect_timer_inv reconnect_timer by (cases st') auto
next
  case (close_async s e p)
  have "client_inv (s\<lparr>close_sent := False\<rparr>)"
    by (rule same_core_inv [of s]) (use close_async assms(2) in \<open>simp_all add: same_core_def\<close>)
  then show ?thesis using stop_inv close_async by (cases st') (auto simp: pc__close_async_cb_def)
next
  case (listen s p L)
  have "client_inv (s\<lparr>listeners := L\<rparr>)"
    by (rule same_core_inv [of s]) (use listen assms(2) in \<open>simp_all add: same_core_def\<close>)
  then show ?thesis using listen by simp
next
  case (tcp_read e t nread s p)
  then show ?thesis using tcp_read_inv [of s e t nread p] assms(2) by (cases st') auto
next
  case (socket_closed s t s' p)
  then show ?thesis using socket_closed_inv [of s t s'] assms(2) by auto
qed (auto simp: worker_inv intro: same_core_inv [OF proto_core(1)] same_core_inv [OF proto_core(2)] same_core_inv [OF proto_core(3)]
    dest: new_inv disconnect_inv client_connect2_inv client_connect4_inv client_connect_inv
    same_core_inv [OF destroy_core(1)] same_core_inv [OF destroy_core(2)] same_core_inv [OF destroy_core(3)]
    same_core_inv [OF request_core(1)] same_core_inv [OF request_core(2)])

section \<open>Reachable states\<close>

text \<open>A transition system: what every step keeps and every initial state has holds in every reachable
  state, and a reflexive and transitive relation that every step respects holds between the ends of a run.\<close>

locale machine =
  fixes step :: "'s \<Rightarrow> 's \<Rightarrow> bool" and initial :: "'s \<Rightarrow> bool" and inv :: "'s \<Rightarrow> bool"
  assumes init_inv: "initial s \<Longrightarrow> inv s"
    and step_keeps: "step s s' \<Longrightarrow> inv s \<Longrightarrow> inv s'"
begin

lemma steps_inv: "step\<^sup>*\<^sup>* s s' \<Longrightarrow> inv s \<Longrightarrow> inv s'"
  by (induction rule: rtranclp_induct) (auto intro: step_keeps)

lemma reachable_inv: "initial s \<Longrightarrow> step\<^sup>*\<^sup>* s s' \<Longrightarrow> inv s'"
  using steps_inv init_inv by blast

lemma steps_respect:
  assumes refl: "\<And>s. rel s s" and trans: "\<And>s t u. rel s t \<Longrightarrow> rel t u \<Longrightarrow> rel s u"
    and step: "\<And>s t. inv s \<Longrightarrow> step s t \<Longrightarrow> rel s t"
  shows "step\<^sup>*\<^sup>* s s' \<Longrightarrow> inv s \<Longrightarrow> rel s s'"
proof (induction rule: rtranclp_induct)
  case (step t u)
  then have "inv t" using steps_inv by blast
  then show ?case using step assms(3) trans by blast
qed (rule refl)

end

text \<open>The states that the constructors return.\<close>

inductive client_initial :: "pc_state \<Rightarrow> bool" where
  plain: "pc_client_new e = Some st \<Longrightarrow> client_initial st"
| reconnecting: "pc_client_new_with_reconnect e delay delay_max exp_backoff = Some (Ok st) \<Longrightarrow> client_initial st"

lemma client_init_inv:
  assumes "pc__client_init e zero_world = Some (s, p)"
  shows "client_inv s"
  using assms
  by (auto simp: pc__client_init_def zero_world_def inv_defs uv_timer_init_def split: cret.splits if_splits)

lemma client_new_inv: "pc_client_new e = Some (s, p) \<Longrightarrow> client_inv s"
  using client_init_inv by (auto simp: pc_client_new_def split: if_splits)

lemma initial_inv:
  assumes "client_initial st"
  shows "client_inv (fst st)"
  using assms
proof cases
  case (plain e)
  then show ?thesis using client_new_inv by (metis prod.collapse)
next
  case (reconnecting e delay delay_max backoff)
  let ?r = "\<lambda>s. s\<lparr>enable_reconnect := True,
      reconnect_delay := delay, reconnect_delay_max := delay_max, enable_exp_backoff := backoff,
      max_reconnects_incr := max_incr delay delay_max backoff, reconnect_timer := uv_timer_init\<rparr>"
  obtain s p where sp: "pc_client_new e = Some (s, p)" and st: "st = (?r s, p)" and d: "0 < delay" "0 < delay_max"
    using reconnecting by (auto simp: pc_client_new_with_reconnect_def bind_eq_Some_conv split: if_splits)
  have "client_inv (?r s)"
    using client_new_inv [OF sp] transport_inv_cong [of "?r s" s] d
    unfolding client_inv_def state_inv_def handle_inv_def by (simp add: reconnect_params_def)
  then show ?thesis by (simp add: st)
qed

interpretation client: machine client_step client_initial "\<lambda>st. client_inv (fst st)"
  by unfold_locales (auto intro: initial_inv step_inv)

end
