(* ===== verification/Client_Properties.thy ===== *)
theory Client_Properties
  imports Client_Machine "HOL-Library.Multiset"
begin

text \<open>
  What the client promises, over its reachable states: which transports exist in which state, that
  stopping always ends, how long a reconnect waits and what it releases, and that a closed client stays
  closed. A concrete run (\<open>demo_new\<close> and the states after it) shows that the hypotheses can be met.
\<close>

section \<open>The delay of a reconnect\<close>

lemma c_trunc_pos:
  assumes "1 \<le> c_trunc x"
  shows "real_of_int (c_trunc x) \<le> x"
proof (cases "0 \<le> x")
  case False
  then have "\<lceil>x\<rceil> \<le> 0" by simp
  then show ?thesis using assms False by (simp add: c_trunc_def)
qed (simp add: c_trunc_def)

lemma max_incr_exp:
  assumes "0 < d" "0 < m" "1 \<le> n" "n < max_incr d m True"
  shows "d * 2 ^ nat n \<le> m"
proof -
  let ?L = "ln (real_of_int m / real_of_int d)"
  let ?q = "real_of_int (c_trunc ?L) / ln 2 + 1"
  have "n + 1 \<le> c_trunc ?q" using assms(4) by (simp add: max_incr_def)
  then have "real_of_int (n + 1) \<le> ?q" using c_trunc_pos [of ?q] assms(3) by linarith
  then have n: "real_of_int n * ln 2 \<le> real_of_int (c_trunc ?L)" by (simp add: field_simps)
  moreover have "0 < real_of_int n * ln 2" using assms(3) by simp
  ultimately have "1 \<le> c_trunc ?L" by linarith
  then have "real_of_int n * ln 2 \<le> ?L" using n c_trunc_pos [of ?L] by linarith
  then have "exp (real (nat n) * ln 2) \<le> exp ?L" using assms(3) by simp
  also have "exp ?L = real_of_int m / real_of_int d" using assms(1,2) by (simp add: exp_ln)
  finally have "2 ^ nat n \<le> real_of_int m / real_of_int d"
    by (simp add: exp_of_nat_mult)
  then have "real_of_int d * 2 ^ nat n \<le> real_of_int m" using assms(1) by (simp add: field_simps)
  then have "real_of_int (d * 2 ^ nat n) \<le> real_of_int m" by simp
  then show ?thesis by linarith
qed

lemma max_incr_linear:
  assumes "0 < d" "1 \<le> n" "n < max_incr d m False"
  shows "d * n \<le> m"
proof -
  have "n \<le> m div d" using assms(3) by (simp add: max_incr_def)
  then have "d * n \<le> d * (m div d)" using assms(1) by simp
  also have "\<dots> \<le> m" using assms(1) by (simp add: minus_mod_eq_mult_div [symmetric])
  finally show ?thesis .
qed

text \<open>The delay before it is randomised: the shift and the product never overflow.\<close>

lemma reconnect_base_bounds:
  assumes "reconnect_config s" "1 \<le> reconnects s" "reconnect_delay_max s < 2 ^ 31"
  shows "\<exists>x. reconnect_base s = Some x \<and> 1 \<le> x \<and> x \<le> reconnect_delay_max s"
proof -
  let ?d = "reconnect_delay s" and ?m = "reconnect_delay_max s" and ?n = "reconnects s"
  have c: "0 < ?d" "0 < ?m" "max_reconnects_incr s = max_incr ?d ?m (enable_exp_backoff s)"
    using assms(1) by (simp_all add: reconnect_params_def)
  show ?thesis
  proof (cases "?n \<ge> max_reconnects_incr s")
    case True
    then show ?thesis using c by (simp add: reconnect_base_def)
  next
    case less: False
    show ?thesis
    proof (cases "enable_exp_backoff s")
      case True
      have le: "?d * 2 ^ nat ?n \<le> ?m" using max_incr_exp [OF c(1,2) assms(2)] less c(3) True by simp
      have pos: "1 \<le> ?d * 2 ^ nat ?n" using c(1) by (simp add: int_one_le_iff_zero_less)
      have "2 ^ nat ?n \<le> ?d * (2::int) ^ nat ?n" using c(1) by simp
      then have "(2::int) ^ nat ?n < 2 ^ 31" using le assms(3) by linarith
      then have "nat ?n < 31" using power_less_imp_less_exp [of "2::int" "nat ?n" 31] by simp
      then have "?n < 31" by linarith
      then show ?thesis
        using less True le pos assms c by (simp add: reconnect_base_def c_int_def)
    next
      case False
      then have "?d * ?n \<le> ?m" using max_incr_linear [OF c(1) assms(2)] less c(3) by simp
      moreover have "1 \<le> ?d * ?n" using c(1) assms(2) by (simp add: int_one_le_iff_zero_less)
      ultimately show ?thesis using less False assms by (simp add: reconnect_base_def c_int_def)
    qed
  qed
qed

section \<open>What stopping does\<close>

lemma mset_buckets:
  "mset (concat (map (\<lambda>i. filter (\<lambda>x. h x = i) xs) [0..<n])) = filter_mset (\<lambda>x. h x < n) (mset xs)"
proof (induction n)
  case (Suc n)
  have "filter_mset (\<lambda>x. h x < Suc n) M = filter_mset (\<lambda>x. h x < n) M + filter_mset (\<lambda>x. h x = n) M" for M :: "'a multiset"
    by (induction M) (auto simp: less_Suc_eq)
  then show ?case using Suc by simp
qed simp

lemma bucket_order_mset: "mset (bucket_order sc kvs) = mset kvs"
  by (simp add: bucket_order_def mset_buckets filter_mset_eq_conv del: upt_Suc)

lemma set_bucket_order: "set (bucket_order sc kvs) = set kvs"
  using bucket_order_mset [of sc kvs] by (metis set_mset_mset)

lemma release_requests_eq:
  "(\<forall>kv \<in> set kvs. tcp_reqs s (snd kv) \<noteq> None) \<Longrightarrow>
   pc__release_requests kvs s = Some (s\<lparr>trace := trace s @ map (\<lambda>kv. Request_cb (snd kv) (-1) None) kvs\<rparr>)"
  by (induction kvs s rule: pc__release_requests.induct)
    (auto simp: request_cb_def logged_def)

text \<open>Every pending request is still there: the user has not destroyed it.\<close>

definition pending_alive :: "pc_world \<Rightarrow> bool" where
  "pending_alive s \<longleftrightarrow> (\<forall>kv \<in> set (requests s). tcp_reqs s (snd kv) \<noteq> None)"

lemma requests_clear_eq:
  "pending_alive s \<Longrightarrow> requests_clear e s = Some (s\<lparr>requests := [],
     trace := trace s @ map (\<lambda>kv. Request_cb (snd kv) (-1) None) (bucket_order (signed_char e) (requests s))\<rparr>)"
  unfolding requests_clear_def
  by (subst release_requests_eq) (simp_all add: pending_alive_def set_bucket_order)

lemma drop_transport_ex:
  assumes "transport_inv s"
  obtains s' where "drop_transport s = Some s'"
  using assms
  by (cases "transport s") (auto simp: drop_transport_def pc_transport_destroy_def transport_inv_def)

lemma stop_timers_ex:
  assumes "handle_inv s"
  obtains s' where "stop_timers s = Some s'" "requests s' = requests s" "tcp_reqs s' = tcp_reqs s" "trace s' = trace s"
  using assms
  by (cases "close_async s") (auto simp: stop_timers_def handle_inv_def on_timer_def)

lemma parser_reset_ex:
  assumes "pkg_inv p"
  obtains p' where "pc_pkg_parser_reset p = Some p'" "pkg_inv p'" "pkg_alpha p' = AHead []"
  using assms
  by (cases "parser_state p") (auto simp: pkg_inv_def pc_pkg_parser_reset_def pkg_alpha_def)

lemma reconnect_reset_eq:
  assumes "client_inv s" "enable_reconnect s" "pending_alive s" "pkg_inv p"
  obtains s' p' where "pc__client_reconnect_reset e (s, p) = Some (s', p')" "pkg_inv p'" "pkg_alpha p' = AHead []"
    "client_inv s'" "state s' = PC_ST_INITED" "requests s' = []"
    "trace s' = trace s @ map (\<lambda>kv. Request_cb (snd kv) (-1) None) (bucket_order (signed_char e) (requests s))"
    "reconnecting s' = reconnecting s" "reconnects s' = reconnects s" "reconnect_delay_max s' = reconnect_delay_max s"
    "enable_reconnect s'" "tcp_reqs s' = tcp_reqs s" "\<And>t. transport s = Some t \<Longrightarrow> transports s' t = Some PC_TP_ST_CLOSED"
proof -
  have ti: "transport_inv s" using assms(1) by (simp add: client_inv_def)
  obtain s1 where s1: "drop_transport s = Some s1" using drop_transport_ex [OF ti] .
  note D = drop_transport_SomeD [OF s1 ti]
  have "handle_inv s1" using assms(1) unfolding client_inv_def handle_inv_def by (simp add: D)
  then obtain s2 where s2: "stop_timers s1 = Some s2" "requests s2 = requests s1" "tcp_reqs s2 = tcp_reqs s1" "trace s2 = trace s1"
    using stop_timers_ex by metis
  have alive: "pending_alive s2" using assms(3) s2 D by (simp add: pending_alive_def)
  obtain p' where p': "pc_pkg_parser_reset p = Some p'" "pkg_inv p'" "pkg_alpha p' = AHead []"
    using parser_reset_ex [OF assms(4)] .
  let ?s = "s2\<lparr>requests := [],
     trace := trace s2 @ map (\<lambda>kv. Request_cb (snd kv) (-1) None) (bucket_order (signed_char e) (requests s2)),
     handshake_opts := None, route_to_code := None, code_to_route := None,
     server_protos := None, client_protos := None, state := PC_ST_INITED\<rparr>"
  have r: "pc__client_reconnect_reset e (s, p) = Some (?s, p')"
    by (simp add: pc__client_reconnect_reset_def s1 s2(1) requests_clear_eq [OF alive] p'(1))
  have fr: "reconnecting s2 = reconnecting s1" "reconnects s2 = reconnects s1" "reconnect_delay_max s2 = reconnect_delay_max s1"
      "transports s2 = transports s1"
    using s2(1) by (auto simp: stop_timers_def on_timer_def bind_eq_Some_conv Let_def split: if_splits)
  show thesis
    using that [OF r p'(2,3) reconnect_reset_inv(1,2) [OF assms(1,2) r]] reconnect_reset_inv(3) [OF assms(1,2) r] s2 D fr
    by simp
qed

lemma client_stop_closes:
  assumes inv: "client_inv s" and plain: "\<not> enable_reconnect s"
  obtains s' where "pc_client_stop e (s, p) = Some (s', p)" "client_inv s'" "state s' = PC_ST_CLOSED"
    "state s \<notin> {PC_ST_INITED, PC_ST_CLOSED} \<longrightarrow> \<not> close_async s'" "requests s' = requests s" "trace s' = trace s"
    "tcp_reqs s' = tcp_reqs s" "\<And>t. transport s = Some t \<Longrightarrow> transports s' t = Some PC_TP_ST_CLOSED"
proof -
  have idle: "transport s = None" if "state s \<in> {PC_ST_INITED, PC_ST_CLOSED}"
    using inv that unfolding client_inv_def state_inv_def by blast
  consider "state s = PC_ST_CLOSED" | "state s = PC_ST_INITED" | "state s \<notin> {PC_ST_INITED, PC_ST_CLOSED}" by auto
  then show thesis
  proof cases
    case 1
    then show thesis using that [of s] inv plain idle by (simp add: pc_client_stop_def)
  next
    case 2
    then have "pc_client_stop e (s, p) = Some (s\<lparr>state := PC_ST_CLOSED\<rparr>, p)" using plain by (simp add: pc_client_stop_def)
    then show thesis using that [OF _ stop_inv [OF inv]] 2 idle by simp
  next
    case 3
    let ?s = "s\<lparr>state := PC_ST_CLOSED\<rparr>"
    have ti: "transport_inv ?s" using inv transport_inv_cong [of ?s s] by (simp add: client_inv_def)
    obtain s1 where s1: "drop_transport ?s = Some s1" using drop_transport_ex [OF ti] .
    note D = drop_transport_SomeD [OF s1 ti]
    have "timer_handle (heartbeat_timer s) \<noteq> Some True" "timer_handle (timeout_timer s) \<noteq> Some True"
        "timer_handle (handshake_timer s) \<noteq> Some True"
      using inv unfolding client_inv_def handle_inv_def by auto
    then have c: "close_timer (heartbeat_timer s1) = Some None" "close_timer (timeout_timer s1) = Some None"
        "close_timer (handshake_timer s1) = Some None"
      by (auto simp: D)
    have "\<not> enable_reconnect s1" using plain by (simp add: D)
    then obtain s' where s': "client_close s = Some s'" and fr: "requests s' = requests s1" "trace s' = trace s1" "\<not> close_async s'"
        "tcp_reqs s' = tcp_reqs s1" "transports s' = transports s1"
      by (simp add: client_close_def s1 c Let_def)
    have "pc_client_stop e (s, p) = Some (s', p)" using 3 plain s' by (simp add: pc_client_stop_def)
    then show thesis using that client_close_inv [OF inv s'] fr D by simp
  qed
qed

lemma c_int_same: "- (2 ^ 31) \<le> i \<Longrightarrow> i < 2 ^ 31 \<Longrightarrow> c_int i = Some i"
  by (simp add: c_int_def)

lemma client_stop_reconnects:
  assumes inv: "client_inv s" and re: "enable_reconnect s" "state s \<noteq> PC_ST_DISCONNECTING" "\<not> reconnecting s"
    and alive: "pending_alive s" and p: "pkg_inv p"
    and small: "reconnect_delay_max s \<le> 1073741" "reconnects s < 2 ^ 31 - 1"
  shows "\<exists>s' p' x. pc_client_stop e (s, p) = Some (s', p') \<and> pkg_inv p' \<and> pkg_alpha p' = AHead [] \<and>
    client_inv s' \<and> state s' = PC_ST_INITED \<and> requests s' = [] \<and> reconnecting s' \<and> tcp_reqs s' = tcp_reqs s \<and>
    (\<forall>t. transport s = Some t \<longrightarrow> transports s' t = Some PC_TP_ST_CLOSED) \<and>
    trace s' = trace s @ map (\<lambda>kv. Request_cb (snd kv) (-1) None) (bucket_order (signed_char e) (requests s)) \<and>
    t_active (reconnect_timer s') \<and> t_cb (reconnect_timer s') = Some Reconnect_timer_cb \<and>
    1 \<le> x \<and> x \<le> reconnect_delay_max s \<and>
    1000 * x \<le> int (t_timeout (reconnect_timer s')) \<and> int (t_timeout (reconnect_timer s')) < 2000 * x"
proof -
  have "client_inv (s\<lparr>reconnecting := True\<rparr>)" by (rule same_core_inv [OF _ inv]) (simp add: same_core_def)
  then obtain s1 p1 where s1: "pc__client_reconnect_reset e (s\<lparr>reconnecting := True\<rparr>, p) = Some (s1, p1)"
    "pkg_inv p1" "pkg_alpha p1 = AHead []" "client_inv s1" "state s1 = PC_ST_INITED" "requests s1 = []"
    and tr: "trace s1 = trace s @ map (\<lambda>kv. Request_cb (snd kv) (-1) None) (bucket_order (signed_char e) (requests s))"
    and fr: "reconnecting s1" "reconnects s1 = reconnects s" "reconnect_delay_max s1 = reconnect_delay_max s"
    and en: "enable_reconnect s1" "tcp_reqs s1 = tcp_reqs s" "\<forall>t. transport s = Some t \<longrightarrow> transports s1 t = Some PC_TP_ST_CLOSED"
    using reconnect_reset_eq [of "s\<lparr>reconnecting := True\<rparr>" p e] re(1) alive p by (auto simp: pending_alive_def)
  let ?s = "s1\<lparr>reconnects := reconnects s + 1\<rparr>"
  have cfg: "reconnect_config s1" "0 \<le> reconnects s1" using s1(4) en(1) unfolding client_inv_def handle_inv_def by simp_all
  then obtain x where x: "reconnect_base ?s = Some x" "1 \<le> x" "x \<le> reconnect_delay_max s"
    using reconnect_base_bounds [of ?s] small(1) fr by auto
  define r where "r = int (env_rand e) mod x"
  have r: "0 \<le> r" "r < x" using x(2) by (simp_all add: r_def)
  let ?t = "uv_timer_start Reconnect_timer_cb (size_of_int ((r + x) * 1000)) 0 (reconnect_timer s1)"
  have "size_of_int ((r + x) * 1000) = nat ((r + x) * 1000)"
    using r x small(1) by (simp add: size_of_int_def)
  then have t: "int (t_timeout ?t) = (r + x) * 1000" "t_active ?t" "t_cb ?t = Some Reconnect_timer_cb"
    using r by (simp_all add: uv_timer_start_def)
  have "pc_client_stop e (s, p) = Some (?s\<lparr>reconnect_timer := ?t\<rparr>, p1)"
    using re fr cfg(2) small x r
    by (simp add: pc_client_stop_def pc__client_reconnect_def s1(1) c_int_same r_def [symmetric])
  moreover have "client_inv (?s\<lparr>reconnect_timer := ?t\<rparr>)"
    by (rule same_core_inv [OF _ s1(4)]) (use fr in \<open>simp add: same_core_def\<close>)
  ultimately show ?thesis
    using s1 tr fr t x r en(2,3) by (intro exI [of _ "?s\<lparr>reconnect_timer := ?t\<rparr>"] exI [of _ p1] exI [of _ x]) simp
qed

section \<open>An example\<close>

text \<open>A concrete environment in which everything succeeds, and a client that has connected in it.\<close>

definition demo_env :: env where
  "demo_env = \<lparr>malloc_ok = (\<lambda>_. True), alloc_ok = (\<lambda>_. True), uv_ok = (\<lambda>_. True), env_junk = (\<lambda>_. 0),
     env_dumps = (\<lambda>_. Some ''{}''), env_loadb = (\<lambda>_. None), signed_char = True, env_rand = 4,
     env_handshake = (\<lambda>_. 0), env_load_file = (\<lambda>_. None), env_proto_read = (\<lambda>_. None), env_addrinfo = (\<lambda>_. None)\<rparr>"

lemma demo_env_sel [simp]:
  "malloc_ok demo_env n" "alloc_ok demo_env ob" "uv_ok demo_env call" "env_dumps demo_env j = Some ''{}''"
  "env_loadb demo_env bs = None" "env_rand demo_env = 4" "env_load_file demo_env n' = None"
  "signed_char demo_env"
  by (simp_all add: demo_env_def)

text \<open>The example with (\<open>True\<close>) and without reconnect.\<close>

definition demo_new :: "bool \<Rightarrow> pc_world" where
  "demo_new b = zero_world\<lparr>heartbeat_timer := Some (uv_timer_init\<lparr>t_cb := Some Heartbeat_timer_cb\<rparr>),
     timeout_timer := Some (uv_timer_init\<lparr>t_cb := Some Timeout_timer_cb\<rparr>),
     handshake_timer := Some uv_timer_init, close_async := True, port := -1, enable_reconnect := b,
     reconnect_delay := (if b then 5 else 0), reconnect_delay_max := (if b then 5 else 0),
     max_reconnects_incr := (if b then 2 else 0)\<rparr>"

lemma demo_initial: "pc_client_new demo_env = Some (demo_new False, fresh_parser)"
  by (simp add: pc_client_new_def pc__client_init_def demo_new_def zero_world_def pc_pkg_parser_new_def fresh_parser_def)

lemma demo_reconnect_new: "pc_client_new_with_reconnect demo_env 5 5 False = Some (Ok (demo_new True, fresh_parser))"
  by (simp add: pc_client_new_with_reconnect_def demo_initial max_incr_def demo_new_def zero_world_def)

definition demo_connecting :: "bool \<Rightarrow> pc_world" where
  "demo_connecting b = (demo_new b)\<lparr>state := PC_ST_CONNECTING, heap_next := 3, conn_req := Some 1,
     connects := [1 \<mapsto> \<lparr>c_address = Some (9, 80), c_cb = Some Client_connect3_cb, c_transport = Some 2\<rparr>],
     transports := [2 \<mapsto> PC_TP_ST_CONNECTING], uv_connects := [(2, 1)], client_addr := (if b then (9, 80) else (0, 0))\<rparr>"

lemma demo_connect: "pc_client_connect3 demo_env (9, 80) (demo_new b) = Some (0, (demo_connecting b))"
  by (simp add: pc_client_connect3_def pc_connect_req_new_def pc_connect_def pc_transport_new_def keep_addr_def
      demo_connecting_def demo_new_def zero_world_def numeral_2_eq_2 numeral_3_eq_3)

definition demo_connected :: "bool \<Rightarrow> pc_world" where
  "demo_connected b = (demo_connecting b)\<lparr>state := PC_ST_CONNECTED, transport := Some 2, uv_connects := [],
     transports := [2 \<mapsto> PC_TP_ST_WORKING],
     uv_writes := [\<lparr>w_transport = 2, w_bytes = [1, 0, 0, 2, 123, 125], w_cb = Handshake_req_cb 2\<rparr>],
     handshake_timer := Some (uv_timer_start Handshake_timer_cb 10000 0 uv_timer_init)\<rparr>"

lemma demo_tcp_connect:
  "pc__on_tcp_connect demo_env 2 1 0 ((demo_connecting b)\<lparr>uv_connects := []\<rparr>, p) = Some (demo_connected b, p)"
  by (simp add: pc__on_tcp_connect_def pc_transport_start_def pc__handshake_req_def handshake_sys_def
      pc__load_file_def pc__binary_write_def pkg_encode_eq pkg_bytes_def str_bytes_def on_timer_def HANDSHAKE_TIMEOUT_def PC_PKG_HANDSHAKE_def
      byte_of_char_def
      demo_connected_def demo_connecting_def demo_new_def zero_world_def)

lemma demo_connecting_reachable: "client_step\<^sup>*\<^sup>* (demo_new b, fresh_parser) (demo_connecting b, fresh_parser)"
  by (rule r_into_rtranclp, rule client_step.connect3 [OF demo_connect])

lemma demo_connected_reachable: "client_step\<^sup>*\<^sup>* (demo_new b, fresh_parser) (demo_connected b, fresh_parser)"
proof (rule rtranclp.rtrancl_into_rtrancl [OF demo_connecting_reachable])
  show "client_step (demo_connecting b, fresh_parser) (demo_connected b, fresh_parser)"
    using client_step.tcp_connect [of "demo_connecting b" "[]" 2 1 "[]" demo_env 0] demo_tcp_connect
    by (simp add: demo_connecting_def)
qed

lemma demo_client_initial: "client_initial (demo_new b, fresh_parser)"
  using client_initial.plain [OF demo_initial] client_initial.reconnecting [OF demo_reconnect_new] by (cases b) simp_all

section \<open>Reachable states\<close>









section \<open>Closed clients\<close>

text \<open>A closed client without reconnect whose handles have been released, and what is left of its
  activity afterwards.\<close>

definition dead :: "pc_world \<Rightarrow> bool" where
  "dead s \<longleftrightarrow> state s = PC_ST_CLOSED \<and> \<not> enable_reconnect s \<and> \<not> close_async s"

definition fades :: "pc_world \<Rightarrow> pc_world \<Rightarrow> bool" where
  "fades s s' \<longleftrightarrow> dead s' \<and> set (uv_writes s') \<subseteq> set (uv_writes s) \<and> set (uv_connects s') \<subseteq> set (uv_connects s)"

lemma fades_core: "dead s \<Longrightarrow> same_core s s' \<Longrightarrow> fades s s'"
  by (simp add: fades_def dead_def same_core_def)

lemma fades_refl: "dead s \<Longrightarrow> fades s s"
  by (simp add: fades_def)

lemma fades_trans: "fades s t \<Longrightarrow> fades t u \<Longrightarrow> fades s u"
  by (auto simp: fades_def)

lemma dead_not_working:
  assumes "client_inv s" "dead s"
  shows "tp_working t s \<noteq> Some True"
proof
  assume "tp_working t s = Some True"
  then have "transports s t = Some PC_TP_ST_WORKING" by (auto simp: tp_working_def)
  then have "transport s = Some t" by (rule transport_invD(3) [OF assms(1)])
  then show False using assms unfolding client_inv_def state_inv_def dead_def by simp
qed

lemma dead_stop: "dead s \<Longrightarrow> pc_client_stop e (s, p) = Some (s, p)"
  by (simp add: dead_def pc_client_stop_def)

lemma dead_connect: "dead s \<Longrightarrow> pc_connect e req opts cb s = Some (-1, s)"
  by (simp add: dead_def pc_connect_def)

lemma dead_connect_req_new: "dead s \<Longrightarrow> pc_connect_req_new e a s = Ok (c, s') \<Longrightarrow> fades s s'"
  by (auto simp: pc_connect_req_new_def dead_def fades_def split: option.splits if_splits)

lemma dead_connect_cb:
  assumes "dead s" "run_connect_cb e c status (s, p) = Some (s', p')"
  shows "fades s s'"
proof -
  have l: "dead (logged ev t)" "dead (client_emit name d t)" if "dead t" for ev t name d
    using that by (simp_all add: dead_def logged_def client_emit_def)
  let ?s = "logged (Connect_cb c status) s"
  let ?r = "?s\<lparr>reconnecting := False, reconnect_timer := uv_timer_stop (reconnect_timer ?s)\<rparr>"
  have ds: "dead ?s" "dead ?r" using l(1) [OF assms(1)] by (simp_all add: dead_def)
  have core: "same_core s ?s" "same_core s (logged Broadcast ?s)" "same_core s (client_emit PC_EVENT_RECONNECT None ?s)"
    "same_core s ?r" "same_core s (client_emit PC_EVENT_RECONNECT None (?r\<lparr>reconnects := 0\<rparr>))"
    by (simp_all add: same_core_def logged_def client_emit_def)
  obtain conn cb where c: "connects s c = Some conn" "c_cb conn = Some cb"
    using assms(2) by (auto simp: run_connect_cb_def bind_eq_Some_conv)
  have "same_core s s'"
  proof (cases cb)
    case Client_connected_cb
    then show ?thesis using assms(2) c core(1,2) dead_stop [OF ds(1)]
      by (auto simp: run_connect_cb_def pc__client_connected_cb_def Let_def split: if_splits)
  next
    case Client_reconnected_cb
    then show ?thesis using assms(2) c core(4,5) dead_stop [OF ds(2)]
      by (auto simp: run_connect_cb_def pc__client_reconnected_cb_def Let_def split: if_splits)
  next
    case Client_connect3_cb
    have "pc_connect_req_destroy c ?s = Some s' \<or> pc_connect_req_destroy c (client_emit PC_EVENT_RECONNECT None ?s) = Some s'"
      using assms(2) c Client_connect3_cb dead_stop [OF ds(1)]
      by (auto simp: run_connect_cb_def pc__client_connect3_cb_def Let_def bind_eq_Some_conv split: if_splits)
    then show ?thesis using core(1,3) destroy_core(1) same_core_trans by blast
  next
    case User_connect_cb
    then show ?thesis using assms(2) c core(1) by (simp add: run_connect_cb_def)
  qed
  then show ?thesis by (rule fades_core [OF assms(1)])
qed

lemma dead_frame: "dead s \<Longrightarrow> fades s (s\<lparr>reconnecting := x\<rparr>)" "dead s \<Longrightarrow> fades s (s\<lparr>client_addr := a\<rparr>)"
  "dead s \<Longrightarrow> fades s (keep_addr a s)"
  by (simp_all add: dead_def fades_def keep_addr_def)

lemma fades_dead: "fades s t \<Longrightarrow> dead t"
  by (simp add: fades_def)

lemma dead_connect_attempt:
  assumes "dead s" "pc_connect_req_new e a s = Ok (c, s1)" "pc_connect_req_destroy c (keep_addr a' s1) = Some s' \<or> pc_connect_req_destroy c s1 = Some s'"
  shows "fades s s'"
proof -
  have f: "fades s s1" by (rule dead_connect_req_new [OF assms(1,2)])
  note d = fades_dead [OF f]
  have "fades s1 s'"
    using assms(3) fades_core [OF d destroy_core(1)] dead_frame(3) [OF d]
      fades_core [OF fades_dead [OF dead_frame(3) [OF d]] destroy_core(1)] fades_trans by blast
  then show ?thesis by (rule fades_trans [OF f])
qed

lemma dead_reconnect:
  assumes "dead s" "reconnect_to_addr e (s, p) = Some (s', p')"
  shows "fades s s'"
proof (cases "pc_connect_req_new e (Some (client_addr s)) s")
  case Fail
  then show ?thesis
    using assms dead_stop [OF fades_dead [OF dead_frame(1) [OF assms(1)]]] dead_frame(1) [OF assms(1)]
    by (auto simp: reconnect_to_addr_def)
next
  case (Ok cs)
  obtain c s1 where cs: "cs = (c, s1)" by (cases cs)
  have d1: "dead s1" using dead_connect_req_new [OF assms(1)] Ok cs fades_dead by blast
  obtain s2 where s2: "pc_connect_req_destroy c s1 = Some s2" "pc_client_stop e (s2\<lparr>reconnecting := False\<rparr>, p) = Some (s', p')"
    using assms(2) Ok cs dead_connect [OF d1] by (auto simp: reconnect_to_addr_def bind_eq_Some_conv)
  have f: "fades s s2" using dead_connect_attempt [OF assms(1)] Ok cs s2(1) by blast
  note d2 = fades_dead [OF f]
  have "s' = s2\<lparr>reconnecting := False\<rparr>" using s2(2) dead_stop [OF fades_dead [OF dead_frame(1) [OF d2]]] by simp
  then show ?thesis using fades_trans [OF f dead_frame(1) [OF d2]] by simp
qed

lemma dead_new_connect:
  assumes "dead s"
  shows "pc_client_connect e a s = Some (r, s') \<Longrightarrow> fades s s'"
    and "pc_client_connect3 e a s = Some (r, s') \<Longrightarrow> fades s s'"
    and "pc__client_reconnect_timer_cb e (s, p) = Some (s', p') \<Longrightarrow> fades s s'"
proof -
  have k: "dead (keep_addr a s1)" if "pc_connect_req_new e (Some a) s = Ok (c, s1)" for c s1
    using dead_connect_req_new [OF assms that] dead_frame(3) fades_dead by blast
  show "fades s s'" if "pc_client_connect e a s = Some (r, s')"
    using that dead_connect [OF k] dead_connect_attempt [OF assms, where a' = a] dead_frame(3) [OF assms, of a]
    by (cases "pc_connect_req_new e (Some a) s") (auto simp: pc_client_connect_def bind_eq_Some_conv)
  show "fades s s'" if "pc_client_connect3 e a s = Some (r, s')"
    using that dead_connect [OF k] dead_connect_attempt [OF assms, where a' = a] dead_frame(3) [OF assms, of a]
    by (cases "pc_connect_req_new e (Some a) s") (auto simp: pc_client_connect3_def bind_eq_Some_conv)
  assume cb: "pc__client_reconnect_timer_cb e (s, p) = Some (s', p')"
  consider "reconnect_to_addr e (s, p) = Some (s', p')" | a where "reconnect_to_addr e (s\<lparr>client_addr := a\<rparr>, p) = Some (s', p')"
    | "pc_client_stop e (s\<lparr>reconnecting := False\<rparr>, p) = Some (s', p')"
    using cb by (auto simp: pc__client_reconnect_timer_cb_def split: option.splits)
  then show "fades s s'"
  proof cases
    case 1
    then show ?thesis by (rule dead_reconnect [OF assms])
  next
    case (2 a)
    then show ?thesis using dead_reconnect fades_trans dead_frame(2) [OF assms] fades_dead by blast
  next
    case 3
    then show ?thesis using dead_stop [OF fades_dead [OF dead_frame(1) [OF assms]]] dead_frame(1) [OF assms] by auto
  qed
qed

lemma dead_sends:
  assumes "client_inv s" "dead s"
  shows "pc__async_write_cb e r 0 s = Some s' \<Longrightarrow> fades s s'"
    and "run_write_cb e cb status (s, p) = Some (s', p') \<Longrightarrow> fades s s'"
    and "pc_tp_on_tcp_read e t nread (s, p) = Some (s', p') \<Longrightarrow> fades s s'"
proof -
  have nw: "x = False" if "tp_working t s = Some x" for t x using dead_not_working [OF assms, of t] that by auto
  note core = fades_core [OF assms(2)]
  show "fades s s'" if cb: "pc__async_write_cb e r 0 s = Some s'"
  proof -
    obtain q m where q: "tcp_reqs s r = Some q" "r_msg q = Some m"
      using cb by (auto simp: pc__async_write_cb_def bind_eq_Some_conv)
    show ?thesis
    proof (cases "r_type q")
      case PC_CONNECT
      then show ?thesis using cb q core by (auto simp: pc__async_write_cb_def same_core_def)
    qed (use cb q core request_cb_core in
        \<open>auto simp: pc__async_write_cb_def pc__request_def pc__notify_def bind_eq_Some_conv dest: nw split: if_splits\<close>)
  qed
  show "fades s s'" if "run_write_cb e cb status (s, p) = Some (s', p')"
    using that core fades_refl [OF assms(2)] on_request_core
    by (cases cb) (auto simp: pc__handshake_req_cb_def pc__handshake_ack_cb_def pc__heartbeat_req_cb_def bind_eq_Some_conv
        dest: nw split: if_splits)
  show "fades s s'" if "pc_tp_on_tcp_read e t nread (s, p) = Some (s', p')"
    using that fades_refl [OF assms(2)] by (auto simp: pc_tp_on_tcp_read_def bind_eq_Some_conv dest: nw)
qed

lemma fades_less:
  "dead s \<Longrightarrow> set ws \<subseteq> set (uv_writes s) \<Longrightarrow> fades s (s\<lparr>uv_writes := ws\<rparr>)"
  "dead s \<Longrightarrow> set cs \<subseteq> set (uv_connects s) \<Longrightarrow> fades s (s\<lparr>uv_connects := cs\<rparr>)"
  by (simp_all add: fades_def dead_def)

lemma dead_calls:
  assumes "dead s"
  shows "pc_request_new e s = Ok (r, s') \<Longrightarrow> fades s s'" "pc_notify_new e s = Ok (r, s') \<Longrightarrow> fades s s'"
    "pc_client_disconnect s = None" "\<not> close_async s" "fades s (s\<lparr>listeners := L\<rparr>)" "fades s (pc__worker s)"
    "pc__tcp_close_cb t s = Some s' \<Longrightarrow> fades s s'"
    "pc_client_connect2 e c s = Some (res, s') \<Longrightarrow> fades s s'"
    "pc_client_connect4 e h prt s = Some (res, s') \<Longrightarrow> fades s s'"
proof -
  have "\<not> enable_reconnect s" using assms by (simp add: dead_def)
  then show "pc_client_connect2 e c s = Some (res, s') \<Longrightarrow> fades s s'"
    using fades_refl [OF assms] by (auto simp: pc_client_connect2_def dead_connect [OF assms])
  show "fades s s'" if "pc_client_connect4 e h prt s = Some (res, s')"
  proof (cases "pc_client_dns_resolve e h prt")
    case None
    then show ?thesis using that fades_refl [OF assms] by (simp add: pc_client_connect4_def)
  next
    case (Some a)
    have "dead (s\<lparr>host := Some h, port := prt\<rparr>)" using assms by (simp add: dead_def)
    then have "fades (s\<lparr>host := Some h, port := prt\<rparr>) s'"
      using dead_new_connect(2) that Some by (simp add: pc_client_connect4_def)
    then show ?thesis by (simp add: fades_def)
  qed
qed (use assms in \<open>auto simp: pc_request_new_def pc_notify_new_def pc_client_disconnect_def pc__tcp_close_cb_def pc__worker_def
    logged_def client_emit_def dead_def fades_def split: if_splits option.splits\<close>)

lemma dead_step:
  assumes "client_step st st'" "client_inv (fst st)" "dead (fst st)"
  shows "fades (fst st) (fst st')"
proof -
  have hs: "heartbeat_timer (fst st) = None" "timeout_timer (fst st) = None" "handshake_timer (fst st) = None"
    using assms(2,3) unfolding client_inv_def handle_inv_def dead_def by simp_all
  show ?thesis
    using assms(1)
  proof (cases rule: client_step.cases)
    case (tcp_connect s xs t c ys e status p)
    let ?s = "s\<lparr>uv_connects := xs @ ys, conn_req := None\<rparr>"
    have "fades s (s\<lparr>uv_connects := xs @ ys\<rparr>)" using tcp_connect(1,2) assms(3) by (intro fades_less(2)) auto
    then have f: "fades s ?s" by (simp add: fades_def dead_def)
    obtain s' p' where st': "st' = (s', p')" by (cases st')
    have "run_connect_cb e c (-1) (?s, p) = Some (s', p')"
      using tcp_connect assms(3) st' by (auto simp: pc__on_tcp_connect_def dead_def split: if_splits)
    then have "fades ?s s'" using dead_connect_cb f unfolding fades_def by blast
    then show ?thesis using fades_trans [OF f] tcp_connect(1) st' by simp
  next
    case (write_done s xs w ys e status p)
    let ?s = "s\<lparr>uv_writes := xs @ ys\<rparr>"
    have f: "fades s ?s" using write_done(1,2) assms(3) by (intro fades_less(1)) auto
    obtain s' p' where st': "st' = (s', p')" by (cases st')
    have "client_inv ?s" using write_done_inv write_done(1,2) assms(2) by simp
    then have "fades ?s s'" using dead_sends(2) f write_done(3) st' unfolding fades_def by blast
    then show ?thesis using fades_trans [OF f] write_done(1) st' by simp
  next
    case (async s xs r ys e s' p)
    let ?s = "s\<lparr>uv_asyncs := xs @ ys\<rparr>"
    have core: "same_core s ?s" by (simp add: same_core_def)
    have f: "fades s ?s" using fades_core [OF _ core] async(1) assms(3) by simp
    have "client_inv ?s" using same_core_inv [OF core] async(1) assms(2) by simp
    then have "fades ?s s'" using dead_sends(1) f async(4) unfolding fades_def by blast
    then show ?thesis using fades_trans [OF f] async(1,2) by simp
  next
    case (reconnect_timer s e p)
    let ?s = "s\<lparr>reconnect_timer := uv_run_timer (reconnect_timer s)\<rparr>"
    have f: "fades s ?s" using fades_core [of s ?s] reconnect_timer(1) assms(3) by (simp add: same_core_def)
    obtain s' p' where st': "st' = (s', p')" by (cases st')
    have "fades ?s s'" using dead_new_connect(3) f reconnect_timer(3) st' unfolding fades_def by blast
    then show ?thesis using fades_trans [OF f] reconnect_timer(1) st' by simp
  next
    case (tcp_read e t nread s p)
    then show ?thesis using dead_sends(3) assms(2,3) by (cases st') auto
  qed (use assms(3) hs dead_calls fades_core [OF _ proto_core(1)] fades_core [OF _ proto_core(2)] fades_core [OF _ proto_core(3)] in
      \<open>auto dest: dead_connect_req_new dead_new_connect
      fades_core [OF _ destroy_core(1)] fades_core [OF _ destroy_core(2)] fades_core [OF _ destroy_core(3)]
      fades_core [OF _ request_core(1)] fades_core [OF _ request_core(2)]\<close>)
qed


definition demo_closed :: pc_world where
  "demo_closed = (demo_connected False)\<lparr>state := PC_ST_CLOSED, transport := None, transports := [2 \<mapsto> PC_TP_ST_CLOSED],
     heartbeat_timer := None, timeout_timer := None, handshake_timer := None, close_async := False\<rparr>"

lemmas demo_defs = demo_closed_def demo_connected_def demo_connecting_def demo_new_def zero_world_def

lemma demo_closed_reachable: "client_step\<^sup>*\<^sup>* (demo_new False, fresh_parser) (demo_closed, fresh_parser)"
proof -
  let ?d = "(demo_connected False)\<lparr>state := PC_ST_DISCONNECTING, close_sent := True\<rparr>"
  have "client_step (demo_connected False, fresh_parser) (?d, fresh_parser)"
    by (rule client_step.disconnect) (simp add: pc_client_disconnect_def demo_defs)
  moreover have "client_step (?d, fresh_parser) (demo_closed, fresh_parser)"
    by (rule client_step.close_async [where e = demo_env])
      (simp_all add: pc__close_async_cb_def pc_client_stop_def client_close_def drop_transport_def pc_transport_destroy_def
        close_timer_def uv_timer_close_def uv_timer_init_def uv_timer_start_def demo_defs)
  ultimately show ?thesis using demo_connected_reachable by (meson rtranclp.rtrancl_into_rtrancl)
qed


end
