(* ===== verification/Exchange.thy ===== *)
theory Exchange
  imports Client_Properties
begin

text \<open>
  How packages, requests and responses travel through the whole client: the bytes of a read go through
  the package parser (\<open>Package\<close>), its callback (\<open>Requests\<close>), the message decoder
  (\<open>Message\<close>) and the codec (\<open>Codec\<close>) to the callbacks of the user; a request goes through
  the codec and both encoders to \<open>uv_write\<close>.
\<close>

section \<open>Reads\<close>

text \<open>A read that holds whole packages delivers them one after the other.\<close>

lemma client_feed_packages:
  assumes p: "pkg_inv p" "pkg_alpha p = AHead []"
    and fits: "\<forall>x \<in> set pkgs. pkg_fits (malloc_ok e) x"
    and n: "length (concat (map (\<lambda>(t, body). pkg_bytes t body) pkgs)) < 2 ^ 64"
    and deliver: "deliver_all (pkg_world e) pkgs s = Some s'"
  obtains p' where "pc_pkg_parser_feed (malloc_ok e) (pc__pkg_cb e) (concat (map (\<lambda>(t, body). pkg_bytes t body) pkgs))
      (length (concat (map (\<lambda>(t, body). pkg_bytes t body) pkgs))) (s, p) = Some (0, s', p')"
    "pkg_inv p'" "pkg_alpha p' = AHead []"
proof -
  let ?bs = "concat (map (\<lambda>(t, body). pkg_bytes t body) pkgs)"
  have "spec_feed (malloc_ok e) (pkg_world e) ?bs s (AHead []) = Some (0, s', AHead [])"
    using spec_feed_stream [OF fits, of "pkg_world e" s] deliver by simp
  then obtain p' where p': "pc_pkg_parser_feed (malloc_ok e) (pc__pkg_cb e) ?bs (length ?bs) (s, p) = Some (0, s', p')"
      "pkg_alpha p' = AHead []"
    using client_pkg.feed_refines(1) [of p "length ?bs" ?bs "malloc_ok e" e s] p n by auto
  moreover have "pkg_inv p'" using client_pkg.feed_refines(2) [OF p(1) _ n p'(1)] by simp
  ultimately show thesis using that by blast
qed

lemma client_read_packages:
  assumes "tp_working t s = Some True" "pkgs \<noteq> []"
    and p: "pkg_inv p" "pkg_alpha p = AHead []"
    and fits: "\<forall>x \<in> set pkgs. pkg_fits (malloc_ok e) x"
    and n: "length (concat (map (\<lambda>(t, body). pkg_bytes t body) pkgs)) < 2 ^ 64"
    and deliver: "deliver_all (pkg_world e) pkgs s = Some s'"
  shows "\<exists>p'. pc_tp_on_tcp_read e t (Some (concat (map (\<lambda>(t, body). pkg_bytes t body) pkgs))) (s, p) = Some (s', p') \<and>
    pkg_inv p' \<and> pkg_alpha p' = AHead []"
proof -
  obtain p' where p': "pc_pkg_parser_feed (malloc_ok e) (pc__pkg_cb e) (concat (map (\<lambda>(t, body). pkg_bytes t body) pkgs))
      (length (concat (map (\<lambda>(t, body). pkg_bytes t body) pkgs))) (s, p) = Some (0, s', p')"
    "pkg_inv p'" "pkg_alpha p' = AHead []"
    using client_feed_packages [OF p fits n deliver] .
  define bs where "bs = concat (map (\<lambda>(t, body). pkg_bytes t body) pkgs)"
  have "bs \<noteq> []" using assms(2) by (cases pkgs) (auto simp: pkg_bytes_def bs_def)
  then show ?thesis
    using assms(1) p' unfolding bs_def [symmetric] by (simp add: pc_tp_on_tcp_read_def pc_client_on_tcp_read_def)
qed

text \<open>The stream in pieces, one read after the other.\<close>

fun read_chunks :: "env \<Rightarrow> byte list list \<Rightarrow> pc_state \<Rightarrow> pc_state option" where
  "read_chunks e [] st = Some st"
| "read_chunks e (c # cs) st = do { st \<leftarrow> pc_client_on_tcp_read e c (length c) st; read_chunks e cs st }"

lemma read_chunks_spec:
  assumes "spec_feed (malloc_ok e) (pkg_world e) (concat cs) s (pkg_alpha p) = Some (0, s', a)" "pkg_inv p" "length (concat cs) < 2 ^ 64"
  shows "\<exists>p'. read_chunks e cs (s, p) = Some (s', p') \<and> pkg_inv p' \<and> pkg_alpha p' = a"
  using assms
proof (induction cs arbitrary: s p)
  case (Cons c cs)
  obtain s1 a1 where s1: "spec_feed (malloc_ok e) (pkg_world e) c s (pkg_alpha p) = Some (0, s1, a1)"
    and r: "spec_feed (malloc_ok e) (pkg_world e) (concat cs) s1 a1 = Some (0, s', a)"
    using Cons.prems(1) by (auto simp: spec_feed_append split: option.splits if_splits)
  have n: "length c < 2 ^ 64" "length (concat cs) < 2 ^ 64" using Cons.prems(3) by simp_all
  obtain p1 where p1: "pc_pkg_parser_feed (malloc_ok e) (pc__pkg_cb e) c (length c) (s, p) = Some (0, s1, p1)" "pkg_alpha p1 = a1"
    using client_pkg.feed_refines(1) [OF Cons.prems(2), of "length c" c "malloc_ok e" e s] s1 n(1) by auto
  have "pkg_inv p1" using client_pkg.feed_refines(2) [OF Cons.prems(2) _ n(1) p1(1)] by simp
  then show ?case using Cons.IH [of s1 p1] r n(2) p1 by (simp add: pc_client_on_tcp_read_def)
qed simp


section \<open>Responses\<close>

definition response_bytes :: "nat \<Rightarrow> byte list \<Rightarrow> byte list" where
  "response_bytes n body = flag_byte PC_MSG_RESPONSE False # id_bytes n @ body"

lemma response_decode:
  assumes M: "\<And>k. M k" and n: "n < 2 ^ 31" and len: "length body < 2 ^ 32"
  shows "pc_msg_decode sc M (response_bytes n body) (length (response_bytes n body)) =
    Some (Ok \<lparr>raw_id = n, raw_type = PC_MSG_RESPONSE, raw_compressRoute = False, raw_route = Route_str None, raw_body = body\<rparr>)"
proof -
  let ?bs = "response_bytes n body" and ?f = "flag_byte PC_MSG_RESPONSE False"
  let ?o = "1 + length (id_bytes n)"
  have id: "decode_id_loop ?bs 1 0 0 = Some (n, ?o)"
    using decode_id_eq [of n 0 0 "[?f]" body] n by (simp add: response_bytes_def)
  have l: "length ?bs = ?o + length body" "length (id_bytes n) \<le> 5" "1 \<le> length (id_bytes n)"
    using id_bytes_length_le [of n 5] n by (simp_all add: response_bytes_def id_bytes.simps [of n])
  have sub: "size_sub (length ?bs) ?o = length body" "size_add 1 1 = 2" using l len by (simp_all add: size_simps)
  have rd: "mem_read ?bs ?o (length body) = Some body"
    using mem_read_at [of "?f # id_bytes n" body "[]"] by (simp add: response_bytes_def)
  have f: "unat ?f = 4" "mem_get ?bs 0 = Some ?f"
    by (simp_all add: unat_flag_byte response_bytes_def mem_get_def)
  have t: "PC_MSG_VALIDATE 2 = Some PC_MSG_RESPONSE" "PC_MSG_HAS_ID PC_MSG_RESPONSE" "\<not> PC_MSG_HAS_ROUTE PC_MSG_RESPONSE"
    by (simp_all add: PC_MSG_VALIDATE_def PC_MSG_HAS_ID_def PC_MSG_HAS_ROUTE_def)
  show ?thesis
    using l M rd sub by (cases "id_bytes n") (simp_all add: pc_msg_decode_def f t id [simplified] Let_def)
qed

lemma data_response:
  assumes M: "\<And>k. malloc_ok e k" and n: "0 < n" "n < 2 ^ 31" and len: "length body < 2 ^ 24" "body \<noteq> []"
    and reg: "requests_get (dec_string n) s = Some r" "tcp_reqs s r = Some q" "r_route q = Some route"
    and body: "decode_body (malloc_ok e) (env_loadb e) (server_protos s) route body = Some (Ok v)"
  shows "pc__data e (response_bytes n body) (length (response_bytes n body)) s =
    Some (0, logged (Request_cb r 0 (Some v)) (requests_del (dec_string n) s))"
proof -
  have "pc__default_msg_parse_cb (signed_char e) (malloc_ok e) (env_loadb e) s (pending_route s)
      (response_bytes n body) (length (response_bytes n body)) = Some (Ok \<lparr>msg_id = n, msg_route = None, msg_msg = Some v\<rparr>)"
    using response_decode [of "malloc_ok e" n body "signed_char e"] assms
    by (cases "json_object_get (server_protos s) route")
      (simp_all add: pc__default_msg_parse_cb_def PC_MSG_HAS_ROUTE_def pending_route_def decode_body_def Let_def)
  moreover have "tcp_reqs (requests_del (dec_string n) s) r = Some q" using reg(2) by (simp add: requests_del_def)
  ultimately show ?thesis
    using n reg(1) by (simp add: pc__data_def pc__process_response_def request_cb_def)
qed

lemma length_response_bytes: "n < 2 ^ 31 \<Longrightarrow> length (response_bytes n body) \<le> 6 + length body"
  using id_bytes_length_le [of n 5] by (simp add: response_bytes_def)

lemma response_world:
  assumes "\<And>k. malloc_ok e k" "0 < n" "n < 2 ^ 31" "length body < 2 ^ 24" "body \<noteq> []"
    and "requests_get (dec_string n) s = Some r" "tcp_reqs s r = Some q" "r_route q = Some route"
    and "decode_body (malloc_ok e) (env_loadb e) (server_protos s) route body = Some (Ok v)"
  shows "pkg_world e PC_PKG_DATA (response_bytes n body) s =
    Some (logged (Request_cb r 0 (Some v)) (requests_del (dec_string n) s))"
  using data_response [OF assms]
  by (simp add: pkg_world_def pkg_dispatch_def PC_PKG_DATA_def PC_PKG_HANDSHAKE_def PC_PKG_HEARBEAT_def)

lemma response_read:
  assumes M: "\<And>k. malloc_ok e k" and n: "0 < n" "n < 2 ^ 31" and len: "length body < 2 ^ 24 - 6" "body \<noteq> []"
    and reg: "requests_get (dec_string n) s = Some r" "tcp_reqs s r = Some q" "r_route q = Some route"
    and body: "decode_body (malloc_ok e) (env_loadb e) (server_protos s) route body = Some (Ok v)"
    and w: "tp_working t s = Some True" and p: "pkg_inv p" "pkg_alpha p = AHead []"
  shows "\<exists>p'. pc_tp_on_tcp_read e t (Some (pkg_bytes PC_PKG_DATA (response_bytes n body))) (s, p) =
      Some (logged (Request_cb r 0 (Some v)) (requests_del (dec_string n) s), p') \<and> pkg_inv p' \<and> pkg_alpha p' = AHead []"
proof -
  let ?b = "response_bytes n body"
  have "deliver_all (pkg_world e) [(PC_PKG_DATA, ?b)] s =
      Some (logged (Request_cb r 0 (Some v)) (requests_del (dec_string n) s))"
    using response_world [OF M n _ len(2) reg body] len(1) by simp
  moreover have "pkg_fits (malloc_ok e) (PC_PKG_DATA, ?b)"
    using M length_response_bytes [OF n(2), of body] len(1) by (simp add: pkg_fits_def PC_PKG_DATA_def)
  ultimately show ?thesis
    using client_read_packages [OF w _ p, of "[(PC_PKG_DATA, ?b)]" e] length_response_bytes [OF n(2), of body] len(1) by simp
qed

section \<open>Requests\<close>

text \<open>What \<open>pc_request\<close> hands to the loop.\<close>

lemma request_queued:
  assumes M: "\<And>k. malloc_ok e k" "alloc_ok e Obj_uv_async" "uv_ok e Uv_async_init" "uv_ok e Uv_async_send"
    and st: "state s = PC_ST_WORKING" "transport s = Some t" "transports s t = Some PC_TP_ST_WORKING"
    and r: "tcp_reqs s r = Some q" and n: "n = (pc__req_id s + 1) mod 2 ^ 32"
  shows "pc_request e r (Some route) (Some v) s = Some (0, s\<lparr>pc__req_id := n,
     tcp_reqs := (tcp_reqs s)(r \<mapsto> q\<lparr>r_id := n, r_transport := Some t, r_route := Some route, r_msg := Some v\<rparr>),
     uv_asyncs := uv_asyncs s @ [r]\<rparr>)"
  using assms by (simp add: pc_request_def set_req_def pc__async_write_def tp_working_def Let_def)

text \<open>What the async callback writes and registers.\<close>

lemma request_written:
  assumes M: "\<And>k. malloc_ok e k" "alloc_ok e Obj_uv_write" "alloc_ok e Obj_ptr_pair" "uv_ok e Uv_write"
    and st: "transport s = Some t" "transports s t = Some PC_TP_ST_WORKING"
    and q: "tcp_reqs s r = Some q" "r_type q = PC_REQUEST" "r_transport q = Some t" "r_route q = Some route" "r_msg q = Some v"
    and enc: "pc__default_msg_encode_cb (malloc_ok e) (env_junk e) (env_dumps e) s (r_id q) route (Some v) = Some (Ok bs)"
      "length bs < 2 ^ 24"
    and new: "requests_get (dec_string (r_id q)) s = None"
  shows "pc__async_write_cb e r 0 s = Some (s\<lparr>uv_writes := uv_writes s @
       [\<lparr>w_transport = t, w_bytes = pkg_bytes PC_PKG_DATA bs, w_cb = On_request r\<rparr>],
     requests := requests s @ [(dec_string (r_id q), r)]\<rparr>)"
  using assms
  by (simp add: pc__async_write_cb_def pc__request_def send_msg_def tp_working_def pkg_encode_eq requests_set_def requests_get_def)

lemma encode_cb_cong:
  "route_to_code c' = route_to_code c \<Longrightarrow> client_protos c' = client_protos c \<Longrightarrow>
   pc__default_msg_encode_cb M junk dumps c' n route v = pc__default_msg_encode_cb M junk dumps c n route v"
  by (simp only: pc__default_msg_encode_cb_def)

text \<open>The life of a request, from the call to its callback.\<close>

lemma request_life:
  assumes reach: "client_initial st" "client_step\<^sup>*\<^sup>* st (s, p0)" and st: "state s = PC_ST_WORKING"
    and e: "\<And>k. malloc_ok e k" "\<And>ob. alloc_ok e ob" "\<And>call. uv_ok e call"
    and r: "tcp_reqs s r = Some q" "r_type q = PC_REQUEST"
    and n: "n = pc__req_id s + 1" "n < 2 ^ 31" "requests_get (dec_string n) s = None"
    and enc: "pc__default_msg_encode_cb (malloc_ok e) (env_junk e) (env_dumps e) s n route (Some v) = Some (Ok bs)"
      "length bs < 2 ^ 24"
  shows "\<exists>t s1 s2. transport s = Some t \<and>
    pc_request e r (Some route) (Some v) s = Some (0, s1) \<and> uv_asyncs s1 = uv_asyncs s @ [r] \<and>
    pc__async_write_cb e r 0 (s1\<lparr>uv_asyncs := uv_asyncs s\<rparr>) = Some s2 \<and>
    uv_writes s2 = uv_writes s @ [\<lparr>w_transport = t, w_bytes = pkg_bytes PC_PKG_DATA bs, w_cb = On_request r\<rparr>] \<and>
    requests s2 = requests s @ [(dec_string n, r)] \<and> trace s2 = trace s \<and>
    (\<forall>body w p. decode_body (malloc_ok e) (env_loadb e) (server_protos s) route body = Some (Ok w) \<and> body \<noteq> [] \<and>
       length body < 2 ^ 24 - 6 \<and> pkg_inv p \<and> pkg_alpha p = AHead [] \<longrightarrow>
       (\<exists>s3 p'. pc_tp_on_tcp_read e t (Some (pkg_bytes PC_PKG_DATA (response_bytes n body))) (s2, p) = Some (s3, p') \<and>
          trace s3 = trace s @ [Request_cb r 0 (Some w)] \<and> requests s3 = requests s \<and>
          pkg_inv p' \<and> pkg_alpha p' = AHead []))"
proof -
  have inv: "client_inv s" using client.reachable_inv [OF reach] by simp
  obtain t where t: "transport s = Some t" "transports s t = Some PC_TP_ST_WORKING"
    using inv st unfolding client_inv_def state_inv_def by auto
  have n': "n = (pc__req_id s + 1) mod 2 ^ 32" using n(1,2) by simp
  let ?q = "q\<lparr>r_id := n, r_transport := Some t, r_route := Some route, r_msg := Some v\<rparr>"
  let ?s0 = "s\<lparr>pc__req_id := n, tcp_reqs := (tcp_reqs s)(r \<mapsto> ?q)\<rparr>"
  let ?s1 = "?s0\<lparr>uv_asyncs := uv_asyncs s @ [r]\<rparr>" and ?s1' = "?s0\<lparr>uv_asyncs := uv_asyncs s\<rparr>"
  let ?s2 = "?s1'\<lparr>uv_writes := uv_writes s @ [\<lparr>w_transport = t, w_bytes = pkg_bytes PC_PKG_DATA bs, w_cb = On_request r\<rparr>],
    requests := requests s @ [(dec_string n, r)]\<rparr>"
  have s1: "pc_request e r (Some route) (Some v) s = Some (0, ?s1)"
    using request_queued [OF e(1,2,3,3) st t r(1) n'] by simp
  have enc': "pc__default_msg_encode_cb (malloc_ok e) (env_junk e) (env_dumps e) ?s1' n route (Some v) = Some (Ok bs)"
    using enc(1) encode_cb_cong [of ?s1' s] by simp
  have s2: "pc__async_write_cb e r 0 ?s1' = Some ?s2"
    using request_written [of e ?s1' t r ?q route v bs] e t r(2) enc' enc(2) n(3) by (simp add: requests_get_def)
  have fresh: "dec_string n \<notin> fst ` set (requests s)" using n(3) by (simp add: requests_get_def map_of_eq_None_iff)
  have reg: "requests_get (dec_string n) ?s2 = Some r" using n(3) by (simp add: requests_get_def map_add_def)
  have "\<exists>s3 p'. pc_tp_on_tcp_read e t (Some (pkg_bytes PC_PKG_DATA (response_bytes n body))) (?s2, p) = Some (s3, p') \<and>
      trace s3 = trace s @ [Request_cb r 0 (Some w)] \<and> requests s3 = requests s \<and> pkg_inv p' \<and> pkg_alpha p' = AHead []"
    if *: "decode_body (malloc_ok e) (env_loadb e) (server_protos s) route body = Some (Ok w)" "body \<noteq> []"
      "length body < 2 ^ 24 - 6" "pkg_inv p" "pkg_alpha p = AHead []" for body w p
  proof -
    let ?s3 = "logged (Request_cb r 0 (Some w)) (requests_del (dec_string n) ?s2)"
    have "filter (\<lambda>kv. fst kv \<noteq> dec_string n) (requests s) = requests s" using fresh by (intro filter_True) force
    then have "trace ?s3 = trace s @ [Request_cb r 0 (Some w)]" "requests ?s3 = requests s"
      by (simp_all add: logged_def requests_del_def)
    moreover obtain p' where "pc_tp_on_tcp_read e t (Some (pkg_bytes PC_PKG_DATA (response_bytes n body))) (?s2, p) = Some (?s3, p')"
        "pkg_inv p'" "pkg_alpha p' = AHead []"
      using response_read [OF e(1) _ n(2) *(3,2) reg, of ?q route w t p] n(1) * t by (auto simp: tp_working_def)
    ultimately show ?thesis by blast
  qed
  then show ?thesis
    using t(1) s1 s2 by (intro exI [of _ t] exI [of _ ?s1] exI [of _ ?s2]) simp
qed

text \<open>(C3) The life of a request. In every reachable working state, if memory and libuv do not fail,
  \<open>pc_request\<close> gives the request the next id and queues it; the async callback writes one data package
  with the encoded message to the working transport and registers the request under its id; and when a
  package with the response to that id arrives, whatever its body decodes to is passed to the callback of
  that request with status 0, exactly once, no other callback is called, and the table of pending requests
  is what it was before.\<close>

theorem request_response:
  assumes reach: "client_initial st" "client_step\<^sup>*\<^sup>* st (s, p0)" and st: "state s = PC_ST_WORKING"
    and e: "\<And>k. malloc_ok e k" "\<And>ob. alloc_ok e ob" "\<And>call. uv_ok e call"
    and r: "tcp_reqs s r = Some q" "r_type q = PC_REQUEST"
    and n: "n = pc__req_id s + 1" "n < 2 ^ 31" "requests_get (dec_string n) s = None"
    and enc: "pc__default_msg_encode_cb (malloc_ok e) (env_junk e) (env_dumps e) s n route (Some v) = Some (Ok bs)"
      "length bs < 2 ^ 24"
  shows "\<exists>t s1 s2. transport s = Some t \<and>
    pc_request e r (Some route) (Some v) s = Some (0, s1) \<and> uv_asyncs s1 = uv_asyncs s @ [r] \<and>
    pc__async_write_cb e r 0 (s1\<lparr>uv_asyncs := uv_asyncs s\<rparr>) = Some s2 \<and>
    uv_writes s2 = uv_writes s @ [\<lparr>w_transport = t, w_bytes = pkg_bytes PC_PKG_DATA bs, w_cb = On_request r\<rparr>] \<and>
    requests s2 = requests s @ [(dec_string n, r)] \<and> trace s2 = trace s \<and>
    (\<forall>body w p. decode_body (malloc_ok e) (env_loadb e) (server_protos s) route body = Some (Ok w) \<and> body \<noteq> [] \<and>
       length body < 2 ^ 24 - 6 \<and> pkg_inv p \<and> pkg_alpha p = AHead [] \<longrightarrow>
       (\<exists>s3 p'. pc_tp_on_tcp_read e t (Some (pkg_bytes PC_PKG_DATA (response_bytes n body))) (s2, p) = Some (s3, p') \<and>
          trace s3 = trace s @ [Request_cb r 0 (Some w)] \<and> requests s3 = requests s \<and>
          pkg_inv p' \<and> pkg_alpha p' = AHead []))"
  by (rule request_life [OF assms])

text \<open>The example continues: the handshake succeeds and a request is created.\<close>

definition demo_shake :: env where
  "demo_shake = demo_env\<lparr>env_loadb := (\<lambda>_. Some (JObject [(''code'', JInteger 200)]))\<rparr>"

lemma demo_shake_sel [simp]:
  "malloc_ok demo_shake n" "alloc_ok demo_shake ob" "uv_ok demo_shake call" "env_dumps demo_shake j = Some ''{}''"
  "env_loadb demo_shake bs = Some (JObject [(''code'', JInteger 200)])" "env_junk demo_shake = (\<lambda>_. 0)"
  by (simp_all add: demo_shake_def demo_env_def)

definition demo_shaken :: "bool \<Rightarrow> pc_world" where
  "demo_shaken b = (demo_connected b)\<lparr>handshake_timer := Some (uv_timer_stop (uv_timer_start Handshake_timer_cb 10000 0 uv_timer_init)),
     uv_writes := uv_writes (demo_connected b) @ [\<lparr>w_transport = 2, w_bytes = [2, 0, 0, 0], w_cb = Handshake_ack_cb 2\<rparr>],
     timeout_timer := Some (uv_timer_stop (uv_timer_init\<lparr>t_cb := Some Timeout_timer_cb\<rparr>)),
     heartbeat_timer := Some (uv_timer_again (uv_timer_init\<lparr>t_cb := Some Heartbeat_timer_cb\<rparr>))\<rparr>"

lemma demo_handshake: "pkg_world demo_shake PC_PKG_HANDSHAKE [123, 125] (demo_connected b) = Some (demo_shaken b)"
  by (simp add: pkg_world_def pkg_dispatch_def pc__handshake_resp_def mem_read_def on_timer_def PC_HANDSHAKE_OK_def pc__handshake_ack_def pkg_encode_eq pkg_bytes_def PC_PKG_HANDSHAKE_ACK_def
      pc__binary_write_def pc__heartbeat_def Let_def demo_shaken_def demo_defs)

definition demo_working :: "bool \<Rightarrow> pc_world" where
  "demo_working b = (demo_shaken b)\<lparr>state := PC_ST_WORKING, conn_req := None, connects := Map.empty,
     uv_writes := uv_writes (demo_connected b), trace := [Connect_cb 1 0]\<rparr>"

definition demo_ready :: "bool \<Rightarrow> pc_world" where
  "demo_ready b = (demo_working b)\<lparr>heap_next := 4, tcp_reqs := [3 \<mapsto>
     \<lparr>r_type = PC_REQUEST, r_id = 0, r_route = None, r_msg = None, r_transport = None\<rparr>]\<rparr>"

lemma demo_shaken_step:
  obtains p where "client_step (demo_connected b, fresh_parser) (demo_shaken b, p)" "pkg_inv p" "pkg_alpha p = AHead []"
proof -
  have w: "tp_working 2 (demo_connected b) = Some True" by (simp add: tp_working_def demo_defs)
  have pf: "pkg_fits (malloc_ok demo_shake) (PC_PKG_HANDSHAKE, [123, 125])" by (simp add: pkg_fits_def PC_PKG_HANDSHAKE_def)
  have "\<exists>p'. pc_tp_on_tcp_read demo_shake 2 (Some (pkg_bytes PC_PKG_HANDSHAKE [123, 125])) (demo_connected b, fresh_parser) =
      Some (demo_shaken b, p') \<and> pkg_inv p' \<and> pkg_alpha p' = AHead []"
    using client_read_packages [OF w _ fresh_parser_inv, of "[(PC_PKG_HANDSHAKE, [123, 125])]" demo_shake "demo_shaken b"]
    using pf by (simp add: demo_handshake)
  then show thesis using that client_step.tcp_read by blast
qed

lemma demo_working_step: "client_step (demo_shaken b, p) (demo_working b, p)"
  by (rule client_step.write_done [where xs = "uv_writes (demo_connected b)" and ys = "[]" and e = demo_shake and status = 0
        and w = "\<lparr>w_transport = 2, w_bytes = [2, 0, 0, 0], w_cb = Handshake_ack_cb 2\<rparr>"])
    (simp_all add: pc__handshake_ack_cb_def tp_working_def finish_connect_def run_connect_cb_def pc__client_connect3_cb_def
      pc_connect_req_destroy_def client_emit_def logged_def demo_working_def demo_shaken_def demo_defs)

lemma demo_ready_reachable:
  obtains p where "client_step\<^sup>*\<^sup>* (demo_new b, fresh_parser) (demo_ready b, p)" "pkg_inv p" "pkg_alpha p = AHead []"
proof -
  obtain p where p: "client_step (demo_connected b, fresh_parser) (demo_shaken b, p)" "pkg_inv p" "pkg_alpha p = AHead []"
    using demo_shaken_step .
  have "client_step (demo_working b, p) (demo_ready b, p)"
    by (rule client_step.request_new [where e = demo_env and r = 3])
      (simp add: pc_request_new_def demo_ready_def demo_working_def demo_shaken_def demo_defs)
  then have "client_step\<^sup>*\<^sup>* (demo_new b, fresh_parser) (demo_ready b, p)"
    using demo_connected_reachable p(1) demo_working_step by (meson rtranclp.rtrancl_into_rtrancl)
  then show thesis using that p by blast
qed

lemmas demo_ready_defs = demo_ready_def demo_working_def demo_shaken_def demo_defs

theorem request_response_witness:
  "\<exists>s1 s2. pc_request demo_shake 3 (Some ''a'') (Some (JObject [])) (demo_ready False) = Some (0, s1) \<and>
     pc__async_write_cb demo_shake 3 0 (s1\<lparr>uv_asyncs := []\<rparr>) = Some s2 \<and>
     w_bytes (last (uv_writes s2)) = [4, 0, 0, 6, 0, 1, 1, 97, 123, 125] \<and>
     (\<exists>s3 p'. pc_tp_on_tcp_read demo_shake 2 (Some [4, 0, 0, 3, 4, 1, 9]) (s2, fresh_parser) = Some (s3, p') \<and>
        trace s3 = [Connect_cb 1 0, Request_cb 3 0 (Some (JObject [(''code'', JInteger 200)]))] \<and> requests s3 = [])"
proof -
  obtain p where p: "client_step\<^sup>*\<^sup>* (demo_new False, fresh_parser) (demo_ready False, p)" using demo_ready_reachable .
  let ?bs = "[0, 1, 1, 97, 123, 125] :: byte list"
  have enc: "pc__default_msg_encode_cb (malloc_ok demo_shake) (env_junk demo_shake) (env_dumps demo_shake) (demo_ready False) 1 ''a''
      (Some (JObject [])) = Some (Ok ?bs)"
    using msg_encode_route_bytes [of "malloc_ok demo_shake" PC_MSG_REQUEST 1 "''a''" "[123, 125]" "\<lambda>_. 0"]
    by (simp add: pc__default_msg_encode_cb_def pc__json_encode_def demo_ready_defs id_part_def id_bytes.simps flag_byte_def
        PC_MSG_HAS_ID_def PC_MSG_HAS_ROUTE_def str_bytes_def byte_of_char_def)
  have dec: "decode_body (malloc_ok demo_shake) (env_loadb demo_shake) (server_protos (demo_ready False)) ''a'' [9] =
      Some (Ok (JObject [(''code'', JInteger 200)]))"
    by (simp add: decode_body_def pc__json_decode_def demo_ready_defs size_sub_le mem_read_def)
  have b: "pkg_bytes PC_PKG_DATA (response_bytes 1 [9]) = [4, 0, 0, 3, 4, 1, 9]" "pkg_bytes PC_PKG_DATA ?bs = [4, 0, 0, 6] @ ?bs"
    by (simp_all add: pkg_bytes_def response_bytes_def PC_PKG_DATA_def id_bytes.simps flag_byte_def)
  let ?q = "\<lparr>r_type = PC_REQUEST, r_id = 0, r_route = None, r_msg = None, r_transport = None\<rparr>"
  have d: "state (demo_ready False) = PC_ST_WORKING" "tcp_reqs (demo_ready False) 3 = Some ?q" "1 = pc__req_id (demo_ready False) + 1"
      "requests_get (dec_string 1) (demo_ready False) = None"
      "transport (demo_ready False) = Some 2" "uv_asyncs (demo_ready False) = []" "trace (demo_ready False) = [Connect_cb 1 0]" "requests (demo_ready False) = []"
    by (simp_all add: demo_ready_defs requests_get_def)
  have x: "r_type ?q = PC_REQUEST" "(1 :: nat) < 2 ^ 31" "length ?bs < 2 ^ 24" by simp_all
  obtain t s1 s2 where t: "transport (demo_ready False) = Some t"
    and r: "pc_request demo_shake 3 (Some ''a'') (Some (JObject [])) (demo_ready False) = Some (0, s1)"
      "pc__async_write_cb demo_shake 3 0 (s1\<lparr>uv_asyncs := uv_asyncs (demo_ready False)\<rparr>) = Some s2"
      "uv_writes s2 = uv_writes (demo_ready False) @ [\<lparr>w_transport = t, w_bytes = pkg_bytes PC_PKG_DATA ?bs, w_cb = On_request 3\<rparr>]"
    and resp: "\<And>body w p. decode_body (malloc_ok demo_shake) (env_loadb demo_shake) (server_protos (demo_ready False)) ''a'' body = Some (Ok w) \<Longrightarrow>
      body \<noteq> [] \<Longrightarrow> length body < 2 ^ 24 - 6 \<Longrightarrow> pkg_inv p \<Longrightarrow> pkg_alpha p = AHead [] \<Longrightarrow>
      \<exists>s3 p'. pc_tp_on_tcp_read demo_shake t (Some (pkg_bytes PC_PKG_DATA (response_bytes 1 body))) (s2, p) = Some (s3, p') \<and>
        trace s3 = trace (demo_ready False) @ [Request_cb 3 0 (Some w)] \<and> requests s3 = requests (demo_ready False)"
    using request_response [OF demo_client_initial p d(1) demo_shake_sel(1-3) d(2) x(1) d(3) x(2) d(4) enc x(3)] by blast
  have "t = 2" using t d(5) by simp
  then show ?thesis using r resp [OF dec] b d(6-8) fresh_parser_inv by (intro exI [of _ s1] exI [of _ s2]) simp
qed


end
