(* ===== verification/Request_Table.thy ===== *)
theory Request_Table
  imports Client_Properties
begin

text \<open>
  The table of pending requests of the client model is a list of pairs; the code keeps a
  \<open>pc_map\<close> of 256 buckets. This theory shows that the operations on the list are what the map of
  \<open>Pc_Map\<close> does with its pointers, with \<open>pc__release_requests\<close> as the callback that releases
  values.
\<close>

definition release_event :: "string \<Rightarrow> nat \<Rightarrow> event list \<Rightarrow> event list" where
  "release_event key r tr = tr @ [Request_cb r (-1) None]"

text \<open>The list and the map hold the same pairs, and every request is alive.\<close>

definition table_rel :: "bool \<Rightarrow> pc_map \<Rightarrow> nat pc_mem \<Rightarrow> pc_world \<Rightarrow> bool" where
  "table_rel sc mp mem s \<longleftrightarrow> map_ok sc mp mem (map_of (requests s)) \<and> capacity mp = 256 \<and>
     distinct (map fst (requests s)) \<and> pending_alive s"

lemma shares_bucket_list:
  "capacity mp = 256 \<Longrightarrow> shares_bucket sc mp (map_of kvs) key \<longleftrightarrow>
     list_ex (\<lambda>kv. fst kv \<noteq> key \<and> same_bucket sc (fst kv) key) kvs"
proof -
  assume "capacity mp = 256"
  moreover have "map_of kvs k \<noteq> None \<longleftrightarrow> k \<in> fst ` set kvs" for k by (metis map_of_eq_None_iff)
  ultimately show ?thesis
    unfolding shares_bucket_def same_bucket_def list_ex_iff by auto
qed

lemma map_of_filter_key: "map_of (filter (\<lambda>kv. fst kv \<noteq> key) kvs) = (map_of kvs)(key := None)"
  by (induction kvs) auto

lemma map_of_snoc_new: "key \<notin> fst ` set kvs \<Longrightarrow> map_of (kvs @ [(key, r)]) = (map_of kvs)(key \<mapsto> r)"
  by (induction kvs) auto

lemma request_old_alive:
  assumes "pending_alive s" "map_of (requests s) key = Some old"
  shows "tcp_reqs s old \<noteq> None"
  using assms map_of_SomeD [OF assms(2)] by (auto simp: pending_alive_def)

lemma table_set_sim:
  assumes rel: "table_rel (signed_char e) mp mem s" and f: "fresh_pair mp mem a" and r: "tcp_reqs s r \<noteq> None"
  shows "case pc_map_set (malloc_ok e) (signed_char e) release_event a mp key r mem (trace s) of
      None \<Rightarrow> requests_set e key r s = None
    | Some Fail \<Rightarrow> requests_set e key r s = Some s
    | Some (Ok (mem', tr)) \<Rightarrow>
        \<exists>s'. requests_set e key r s = Some s' \<and> trace s' = tr \<and> table_rel (signed_char e) mp mem' s'"
proof -
  have ok: "map_ok (signed_char e) mp mem (map_of (requests s))" and cap: "capacity mp = 256"
    and d: "distinct (map fst (requests s))" and alive: "pending_alive s"
    using rel by (simp_all add: table_rel_def)
  consider (nomem) "\<not> malloc_ok e 32 \<or> \<not> malloc_ok e (length key + 1)"
    | (new) "malloc_ok e 32" "malloc_ok e (length key + 1)" "map_of (requests s) key = None"
    | (old) x where "malloc_ok e 32" "malloc_ok e (length key + 1)" "map_of (requests s) key = Some x"
    by (cases "map_of (requests s) key") auto
  then show ?thesis
  proof cases
    case nomem
    then show ?thesis by (auto simp: pc_map_set_def requests_set_def)
  next
    case new
    let ?s = "s\<lparr>requests := requests s @ [(key, r)]\<rparr>"
    have n: "key \<notin> fst ` set (requests s)" using new(3) by (simp add: map_of_eq_None_iff)
    obtain mem' where "pc_map_set (malloc_ok e) (signed_char e) release_event a mp key r mem (trace s) = Some (Ok (mem', trace s))"
      "map_ok (signed_char e) mp mem' ((map_of (requests s))(key \<mapsto> r))"
      using map_set_new [OF ok f new(3,1,2), of release_event r "trace s"] by auto
    moreover have "requests_set e key r s = Some ?s" using new by (simp add: requests_set_def requests_get_def)
    moreover have "pending_alive ?s" using alive r by (simp add: pending_alive_def)
    ultimately show ?thesis using n cap d map_of_snoc_new [OF n, of r] by (simp add: table_rel_def)
  next
    case (old x)
    let ?kvs = "filter (\<lambda>kv. fst kv \<noteq> key) (requests s) @ [(key, r)]"
    show ?thesis
    proof (cases "shares_bucket (signed_char e) mp (map_of (requests s)) key")
      case True
      have "requests_set e key r s = None"
        using old True shares_bucket_list [OF cap, of "signed_char e" "requests s" key]
        by (simp add: requests_set_def requests_get_def)
      then show ?thesis using map_set_shared [OF ok f old(3) True old(1,2), where rel = release_event and v = r and w = "trace s"] by simp
    next
      case False
      have n: "key \<notin> fst ` set (filter (\<lambda>kv. fst kv \<noteq> key) (requests s))" by auto
      have m: "map_of ?kvs = (map_of (requests s))(key \<mapsto> r)" by (simp only: map_of_snoc_new [OF n] map_of_filter_key fun_upd_upd)
      let ?s = "logged (Request_cb x (-1) None) (s\<lparr>requests := ?kvs\<rparr>)"
      have set: "requests_set e key r s = Some ?s"
        using old False shares_bucket_list [OF cap] request_old_alive [OF alive old(3)]
        by (auto simp: requests_set_def requests_get_def request_cb_def)
      obtain mem' where mem': "pc_map_set (malloc_ok e) (signed_char e) release_event a mp key r mem (trace s) =
          Some (Ok (mem', release_event key x (trace s)))" "map_ok (signed_char e) mp mem' ((map_of (requests s))(key \<mapsto> r))"
        using map_set_alone [OF ok f old(3) False old(1,2), of release_event r "trace s"] by auto
      have "distinct (map fst ?kvs)" using d n by (simp add: distinct_map_filter)
      moreover have "pending_alive ?s" using alive r by (simp add: pending_alive_def logged_def)
      ultimately have "table_rel (signed_char e) mp mem' ?s" using mem'(2) cap m by (simp add: table_rel_def logged_def)
      then show ?thesis using set mem'(1) by (simp add: release_event_def logged_def)
    qed
  qed
qed

lemma table_del_sim:
  assumes "table_rel sc mp mem s"
  shows "\<exists>mem'. pc_map_del sc mp key mem = Some (requests_get key s, mem') \<and> table_rel sc mp mem' (requests_del key s)"
proof -
  have ok: "map_ok sc mp mem (map_of (requests s))" using assms by (simp add: table_rel_def)
  obtain mem' where "pc_map_del sc mp key mem = Some (map_of (requests s) key, mem')"
    "map_ok sc mp mem' ((map_of (requests s))(key := None))"
    using map_del_ok [OF ok] by blast
  then show ?thesis
    using assms
    by (auto simp: table_rel_def requests_get_def requests_del_def map_of_filter_key distinct_map_filter pending_alive_def)
qed

lemma same_pairs_mset:
  assumes "distinct (map fst kvs)" "distinct (map fst kvs')" "map_of kvs = map_of kvs'"
  shows "mset kvs = mset kvs'"
proof -
  have "set kvs = set kvs'" using assms map_of_inject_set by blast
  then show ?thesis using assms(1,2) by (simp add: set_eq_iff_mset_eq_distinct [symmetric] distinct_map)
qed

lemma fold_release: "fold (\<lambda>(k, v). release_event k v) kvs tr = tr @ map (\<lambda>kv. Request_cb (snd kv) (-1) None) kvs"
  by (induction kvs arbitrary: tr) (auto simp: release_event_def)

lemma table_clear_sim:
  assumes rel: "table_rel (signed_char e) mp mem s"
  shows "\<exists>mem' evs s'. pc_map_clear release_event mp mem (trace s) = Some (mem', trace s @ evs) \<and>
    requests_clear e s = Some s' \<and> (\<exists>evs'. trace s' = trace s @ evs' \<and> mset evs' = mset evs) \<and>
    table_rel (signed_char e) mp mem' s'"
proof -
  have ok: "map_ok (signed_char e) mp mem (map_of (requests s))" and d: "distinct (map fst (requests s))"
    and alive: "pending_alive s" using rel by (simp_all add: table_rel_def)
  let ?f = "\<lambda>kv. Request_cb (snd kv) (-1) None"
  obtain mem' kvs where c: "pc_map_clear release_event mp mem (trace s) = Some (mem', trace s @ map ?f kvs)"
    "distinct (map fst kvs)" "map_of kvs = map_of (requests s)" "map_ok (signed_char e) mp mem' Map.empty"
    using map_clear_ok [OF ok, of release_event "trace s"] by (auto simp: fold_release)
  let ?s = "s\<lparr>requests := [], trace := trace s @ map ?f (bucket_order (signed_char e) (requests s))\<rparr>"
  have "mset (map ?f (bucket_order (signed_char e) (requests s))) = mset (map ?f kvs)"
    by (simp add: bucket_order_mset same_pairs_mset [OF c(2) d c(3)])
  moreover have "requests_clear e s = Some ?s" using requests_clear_eq [OF alive] by simp
  moreover have "table_rel (signed_char e) mp mem' ?s" using rel c(4) by (simp add: table_rel_def pending_alive_def)
  ultimately show ?thesis using c(1) by (intro exI [of _ mem'] exI [of _ "map ?f kvs"] exI [of _ ?s]) simp
qed

text \<open>(C15) The table of pending requests. Whenever a \<open>pc_map\<close> with 256 buckets holds the pairs of the
  table, a lookup gives the same result, and a deletion, an insertion (on every branch: no memory, a new
  key, a replaced value that is released, and the call that does not return) and the clearing do the same
  on both and call the same callbacks, the clearing up to their order; afterwards the map again holds the
  pairs of the table.\<close>

theorem requests_refine_map:
  assumes rel: "table_rel (signed_char e) mp mem s" and "fresh_pair mp mem a" "tcp_reqs s r \<noteq> None"
  shows "pc_map_get (signed_char e) mp key mem = Some (requests_get key s) \<and>
    (\<exists>mem'. pc_map_del (signed_char e) mp key mem = Some (requests_get key s, mem') \<and>
       table_rel (signed_char e) mp mem' (requests_del key s)) \<and>
    (case pc_map_set (malloc_ok e) (signed_char e) release_event a mp key r mem (trace s) of
      None \<Rightarrow> requests_set e key r s = None
    | Some Fail \<Rightarrow> requests_set e key r s = Some s
    | Some (Ok (mem', tr)) \<Rightarrow>
        \<exists>s'. requests_set e key r s = Some s' \<and> trace s' = tr \<and> table_rel (signed_char e) mp mem' s') \<and>
    (\<exists>mem' evs s'. pc_map_clear release_event mp mem (trace s) = Some (mem', trace s @ evs) \<and>
       requests_clear e s = Some s' \<and> (\<exists>evs'. trace s' = trace s @ evs' \<and> mset evs' = mset evs) \<and>
       table_rel (signed_char e) mp mem' s')"
proof (intro conjI)
  show "pc_map_get (signed_char e) mp key mem = Some (requests_get key s)"
    using map_get_ok [of "signed_char e" mp mem "map_of (requests s)" key] rel by (simp add: table_rel_def requests_get_def)
qed (rule table_del_sim [OF rel] table_set_sim [OF assms] table_clear_sim [OF rel])+

text \<open>An empty map of 256 buckets.\<close>

definition demo_mem :: "nat pc_mem" where
  "demo_mem = \<lparr>queues = init_buckets 1000 256 \<lparr>prev = (\<lambda>_. 0), next = (\<lambda>_. 0)\<rparr>, pairs = Map.empty\<rparr>"

definition demo_map :: pc_map where
  "demo_map = \<lparr>capacity = 256, buckets = Some 1000\<rparr>"

lemma demo_map_ok: "map_ok sc demo_map demo_mem Map.empty"
proof -
  have "layout sc demo_map demo_mem 1000 (\<lambda>_. [])"
    by (auto simp: layout_def demo_map_def demo_mem_def queue_init_buckets)
  then show ?thesis by (rule map_okI) (simp add: map_abs_def bucket_kvs_def fun_eq_iff)
qed

definition demo_table :: pc_world where
  "demo_table = zero_world\<lparr>tcp_reqs := [3 \<mapsto> \<lparr>r_type = PC_REQUEST, r_id = 1, r_route = None, r_msg = None, r_transport = None\<rparr>]\<rparr>"

theorem requests_refine_map_witness:
  "\<exists>mem' s'. pc_map_set (malloc_ok demo_env) True release_event 1 demo_map ''1'' 3 demo_mem [] = Some (Ok (mem', [])) \<and>
     requests_set demo_env ''1'' 3 demo_table = Some s' \<and> requests s' = [(''1'', 3)] \<and>
     pc_map_get True demo_map ''2'' demo_mem = Some None"
proof -
  have rel: "table_rel (signed_char demo_env) demo_map demo_mem demo_table"
    using demo_map_ok [of True] by (simp add: table_rel_def demo_table_def zero_world_def pending_alive_def demo_map_def)
  have f: "fresh_pair demo_map demo_mem 1"
    by (auto simp: fresh_pair_def demo_mem_def demo_map_def bucket_def)
  have r: "tcp_reqs demo_table 3 \<noteq> None" "trace demo_table = []" "requests demo_table = []"
    by (simp_all add: demo_table_def zero_world_def)
  note R = requests_refine_map [OF rel f r(1)]
  obtain s' where s': "requests_set demo_env ''1'' 3 demo_table = Some s'" "requests s' = [(''1'', 3)]" "s' \<noteq> demo_table" "trace s' = []"
    by (simp add: requests_set_def requests_get_def demo_table_def zero_world_def)
  have "\<exists>mem'. pc_map_set (malloc_ok demo_env) True release_event 1 demo_map ''1'' 3 demo_mem [] = Some (Ok (mem', []))"
    using R [of "''1''"] s' r(2) by (auto split: option.splits cret.splits)
  moreover have "pc_map_get True demo_map ''2'' demo_mem = Some None"
    using R [of "''2''"] r(3) by (simp add: requests_get_def)
  ultimately show ?thesis using s' by blast
qed

end
