(* ===== verification/Client_Runs.thy ===== *)
theory Client_Runs
  imports Exchange Request_Table
begin

text \<open>
  Runs through several callbacks. The handshake leads to the working state; the other runs end in what
  the code does not mean to do: a crash on a package behind a bad one, a request that is answered twice or
  reported successful without being sent, a disconnect that becomes a reconnect, and a failed connect after
  which the client can never connect.
\<close>

section \<open>Stopped in the middle of a read\<close>

lemma working_state:
  assumes "client_inv s" "tp_working t s = Some True"
  shows "transport s = Some t" "state s \<notin> {PC_ST_INITED, PC_ST_CLOSED}"
proof -
  have "transports s t = Some PC_TP_ST_WORKING" using assms(2) by (auto simp: tp_working_def)
  then show t: "transport s = Some t" by (rule transport_invD(3) [OF assms(1)])
  then show "state s \<notin> {PC_ST_INITED, PC_ST_CLOSED}" using assms(1) unfolding client_inv_def state_inv_def by auto
qed

lemma spec_feed_two:
  assumes "pkg_fits M x" "pkg_fits M y" "deliver_all acb [x, y] s = None"
  shows "spec_feed M acb (concat (map (\<lambda>(t, body). pkg_bytes t body) [x, y])) s (AHead []) = None"
  using spec_feed_stream [of "[x, y]" M acb s] assms by simp

text \<open>(C37) A package of unknown type makes the client stop, but the parser goes on with the rest of the
  read: if a heartbeat follows in the same read, a client without reconnect stops a timer through a null
  pointer. The same packages in two reads are harmless, since the second read is ignored.\<close>

theorem stale_package_crash:
  assumes inv: "client_initial st" "client_step\<^sup>*\<^sup>* st (s, p0)" and plain: "\<not> enable_reconnect s"
    and w: "tp_working t s = Some True" and p: "pkg_inv p" "pkg_alpha p = AHead []"
    and M: "\<And>k. malloc_ok e k" and ty: "5 < ty" "ty < 256"
  shows "pc_tp_on_tcp_read e t (Some (pkg_bytes ty [] @ pkg_bytes PC_PKG_HEARBEAT [])) (s, p) = None \<and>
    (\<exists>s1 p1. pc_tp_on_tcp_read e t (Some (pkg_bytes ty [])) (s, p) = Some (s1, p1) \<and> state s1 = PC_ST_CLOSED \<and>
       pc_tp_on_tcp_read e t (Some (pkg_bytes PC_PKG_HEARBEAT [])) (s1, p1) = Some (s1, p1))"
proof -
  have inv: "client_inv s" using client.reachable_inv [OF inv] by simp
  note ws = working_state [OF inv w]
  obtain s1 where s1: "pc_client_stop e (s, fresh_parser) = Some (s1, fresh_parser)" "client_inv s1" "state s1 = PC_ST_CLOSED"
    "\<not> close_async s1" "transports s1 t = Some PC_TP_ST_CLOSED"
    using client_stop_closes [OF inv plain, of e fresh_parser] ws by metis
  have "heartbeat_timer s1 = None" "timeout_timer s1 = None" using s1(2,4) unfolding client_inv_def handle_inv_def by simp_all
  moreover have bad: "pkg_world e ty [] s = Some s1"
    using ty s1(1) by (auto simp: pkg_world_def pkg_dispatch_def stop_world_def PC_PKG_HANDSHAKE_def PC_PKG_HEARBEAT_def
        PC_PKG_DATA_def PC_PKG_KICK_def)
  ultimately have "deliver_all (pkg_world e) [(ty, []), (PC_PKG_HEARBEAT, [])] s = None"
    by (simp add: pkg_world_def pkg_dispatch_def pc__heartbeat_def on_timer_def PC_PKG_HANDSHAKE_def PC_PKG_HEARBEAT_def)
  moreover have fits: "pkg_fits (malloc_ok e) (ty, [])" "pkg_fits (malloc_ok e) (PC_PKG_HEARBEAT, [])"
    using M ty by (simp_all add: pkg_fits_def PC_PKG_HEARBEAT_def)
  ultimately have none: "spec_feed (malloc_ok e) (pkg_world e) (pkg_bytes ty [] @ pkg_bytes PC_PKG_HEARBEAT []) s (AHead []) = None"
    using spec_feed_two [of "malloc_ok e" "(ty, [])" "(PC_PKG_HEARBEAT, [])" "pkg_world e" s] by simp
  let ?bs = "pkg_bytes ty [] @ pkg_bytes PC_PKG_HEARBEAT []"
  have "pc_pkg_parser_feed (malloc_ok e) (pc__pkg_cb e) ?bs (length ?bs) (s, p) = None"
    using client_pkg.feed_refines(1) [OF p(1), of "length ?bs" ?bs "malloc_ok e" e s] none p(2) by simp
  then have crash: "pc_tp_on_tcp_read e t (Some ?bs) (s, p) = None"
    using w by (simp add: pc_tp_on_tcp_read_def pc_client_on_tcp_read_def)
  obtain p1 where "pc_tp_on_tcp_read e t (Some (pkg_bytes ty [])) (s, p) = Some (s1, p1)"
    using client_read_packages [OF w _ p, of "[(ty, [])]" e s1] bad fits(1) by auto
  then show ?thesis using crash s1(3,5) by (auto simp: pc_tp_on_tcp_read_def tp_working_def)
qed

lemma demo_connected_tp: "tp_working 2 (demo_connected b) = Some True"
  by (simp add: tp_working_def demo_defs)

theorem stale_package_crash_witness:
  "pc_tp_on_tcp_read demo_env 2 (Some [9, 0, 0, 0, 3, 0, 0, 0]) (demo_connected False, fresh_parser) = None"
proof -
  have "\<not> enable_reconnect (demo_connected False)" by (simp add: demo_defs)
  then have "pc_tp_on_tcp_read demo_env 2 (Some (pkg_bytes 9 [] @ pkg_bytes PC_PKG_HEARBEAT [])) (demo_connected False, fresh_parser) = None"
    using stale_package_crash [OF demo_client_initial demo_connected_reachable _ demo_connected_tp fresh_parser_inv
        demo_env_sel(1), where ty = 9] by simp
  then show ?thesis by (simp add: pkg_bytes_def PC_PKG_HEARBEAT_def)
qed

section \<open>Requests across a stop\<close>

text \<open>A request that has been queued when the client is stopped is reported with status 0, as if
  it had succeeded, although nothing has been written and there is no response.\<close>

theorem queued_request_succeeds:
  assumes reach: "client_initial st" "client_step\<^sup>*\<^sup>* st (s, p)" and plain: "\<not> enable_reconnect s"
    and q: "tcp_reqs s r = Some q" "r_type q = PC_REQUEST" "r_transport q = transport s" "r_msg q \<noteq> None"
    and w: "tp_working t s = Some True"
  shows "\<exists>s1 s2. pc_client_stop e (s, p) = Some (s1, p) \<and> pc__async_write_cb e r 0 s1 = Some s2 \<and>
    trace s2 = trace s @ [Request_cb r 0 None] \<and> uv_writes s2 = uv_writes s1"
proof -
  have inv: "client_inv s" using client.reachable_inv [OF reach] by simp
  note ws = working_state [OF inv w]
  obtain s1 where s1: "pc_client_stop e (s, p) = Some (s1, p)" "trace s1 = trace s" "tcp_reqs s1 = tcp_reqs s"
    "transports s1 t = Some PC_TP_ST_CLOSED"
    using client_stop_closes [OF inv plain, of e p] ws by metis
  then have "pc__async_write_cb e r 0 s1 = Some (logged (Request_cb r 0 None) s1)"
    using q ws by (auto simp: pc__async_write_cb_def pc__request_def tp_working_def request_cb_def)
  then show ?thesis using s1 by (simp add: logged_def)
qed

definition demo_queued :: "bool \<Rightarrow> pc_world" where
  "demo_queued b = (demo_ready b)\<lparr>pc__req_id := 1, uv_asyncs := [3], tcp_reqs := [3 \<mapsto>
     \<lparr>r_type = PC_REQUEST, r_id = 1, r_route = Some ''a'', r_msg = Some (JObject []), r_transport = Some 2\<rparr>]\<rparr>"

lemma demo_request: "pc_request demo_shake 3 (Some ''a'') (Some (JObject [])) (demo_ready b) = Some (0, demo_queued b)"
  by (simp add: pc_request_def set_req_def pc__async_write_def tp_working_def Let_def demo_queued_def demo_ready_defs)

definition demo_sent :: "bool \<Rightarrow> pc_world" where
  "demo_sent b = (demo_queued b)\<lparr>uv_asyncs := [], requests := [(dec_string 1, 3)],
     uv_writes := uv_writes (demo_queued b) @
       [\<lparr>w_transport = 2, w_bytes = [4, 0, 0, 6, 0, 1, 1, 97, 123, 125], w_cb = On_request 3\<rparr>]\<rparr>"

lemma demo_encode:
  "pc__default_msg_encode_cb (malloc_ok demo_shake) (env_junk demo_shake) (env_dumps demo_shake)
     ((demo_queued b)\<lparr>uv_asyncs := []\<rparr>) 1 ''a'' (Some (JObject [])) = Some (Ok [0, 1, 1, 97, 123, 125])"
  using msg_encode_route_bytes [of "malloc_ok demo_shake" PC_MSG_REQUEST 1 "''a''" "[123, 125]" "\<lambda>_. 0"]
  by (simp add: pc__default_msg_encode_cb_def pc__json_encode_def demo_queued_def demo_ready_defs id_part_def id_bytes.simps
      flag_byte_def PC_MSG_HAS_ID_def PC_MSG_HAS_ROUTE_def str_bytes_def byte_of_char_def)

lemma demo_async: "pc__async_write_cb demo_shake 3 0 ((demo_queued b)\<lparr>uv_asyncs := []\<rparr>) = Some (demo_sent b)"
proof -
  show ?thesis
    using request_written [OF demo_shake_sel(1-2) demo_shake_sel(2,3), of "(demo_queued b)\<lparr>uv_asyncs := []\<rparr>" 2 3
        "\<lparr>r_type = PC_REQUEST, r_id = 1, r_route = Some ''a'', r_msg = Some (JObject []), r_transport = Some 2\<rparr>" "''a''"
        "JObject []" "[0, 1, 1, 97, 123, 125]"] demo_encode [of b]
    by (simp add: demo_sent_def demo_queued_def demo_ready_defs requests_get_def pkg_bytes_def PC_PKG_DATA_def)
qed

lemma demo_queued_reachable:
  obtains p where "client_step\<^sup>*\<^sup>* (demo_new b, fresh_parser) (demo_queued b, p)" "pkg_inv p" "pkg_alpha p = AHead []"
    "client_step\<^sup>*\<^sup>* (demo_new b, fresh_parser) (demo_sent b, p)"
proof -
  obtain p where p: "client_step\<^sup>*\<^sup>* (demo_new b, fresh_parser) (demo_ready b, p)" "pkg_inv p" "pkg_alpha p = AHead []"
    using demo_ready_reachable .
  have "client_step (demo_ready b, p) (demo_queued b, p)" by (rule client_step.request [OF demo_request])
  then have q: "client_step\<^sup>*\<^sup>* (demo_new b, fresh_parser) (demo_queued b, p)"
    by (rule rtranclp.rtrancl_into_rtrancl [OF p(1)])
  have "client_step (demo_queued b, p) (demo_sent b, p)"
    by (rule client_step.async [of _ "[]" 3 "[]" demo_shake]) (simp_all add: demo_async, simp add: demo_queued_def)
  then have "client_step\<^sup>*\<^sup>* (demo_new b, fresh_parser) (demo_sent b, p)"
    by (rule rtranclp.rtrancl_into_rtrancl [OF q])
  then show thesis using that q p(2,3) by blast
qed

lemma demo_queued_tp: "tp_working 2 (demo_queued b) = Some True"
  by (simp add: tp_working_def demo_queued_def demo_ready_defs)

theorem queued_request_succeeds_witness:
  "\<exists>p s1 s2. pc_client_stop demo_env (demo_queued False, p) = Some (s1, p) \<and> pc__async_write_cb demo_env 3 0 s1 = Some s2 \<and>
     trace s2 = [Connect_cb 1 0, Request_cb 3 0 None]"
proof -
  obtain p where p: "client_step\<^sup>*\<^sup>* (demo_new False, fresh_parser) (demo_queued False, p)" using demo_queued_reachable .
  let ?q = "\<lparr>r_type = PC_REQUEST, r_id = 1, r_route = Some ''a'', r_msg = Some (JObject []), r_transport = Some 2\<rparr>"
  have d: "\<not> enable_reconnect (demo_queued False)" "tcp_reqs (demo_queued False) 3 = Some ?q" "r_transport ?q = transport (demo_queued False)"
    "trace (demo_queued False) = [Connect_cb 1 0]"
    by (simp_all add: demo_queued_def demo_ready_defs)
  show ?thesis
    using queued_request_succeeds [OF demo_client_initial p d(1,2) _ d(3) _ demo_queued_tp, of demo_env] d(4) by auto
qed

text \<open>(C38) A request is answered twice when the connection is lost between its write and the callback of
  that write: the reconnect releases every pending request, and the callback of the write, finding the
  transport closed, calls it again.\<close>

theorem request_called_twice:
  assumes reach: "client_initial st" "client_step\<^sup>*\<^sup>* st (s, p)"
    and re: "enable_reconnect s" "state s \<noteq> PC_ST_DISCONNECTING" "\<not> reconnecting s"
      "reconnect_delay_max s \<le> 1073741" "reconnects s < 2 ^ 31 - 1"
    and alive: "pending_alive s" and p: "pkg_inv p"
    and r: "requests s = [(key, r)]" "tcp_reqs s r = Some q" "r_transport q = Some t" "transport s = Some t"
  shows "\<exists>s1 p1 s2. pc_client_stop e (s, p) = Some (s1, p1) \<and> pc__on_request r status s1 = Some s2 \<and>
    trace s2 = trace s @ [Request_cb r (-1) None, Request_cb r (-1) None]"
proof -
  have inv: "client_inv s" using client.reachable_inv [OF reach] by simp
  obtain s1 p1 where s1: "pc_client_stop e (s, p) = Some (s1, p1)" "tcp_reqs s1 = tcp_reqs s" "transports s1 t = Some PC_TP_ST_CLOSED"
    and tr: "trace s1 = trace s @ map (\<lambda>kv. Request_cb (snd kv) (-1) None) (bucket_order (signed_char e) (requests s))"
    using client_stop_reconnects [OF inv re(1-3) alive p re(4,5), of e] r(4) by auto
  have "mset (bucket_order (signed_char e) (requests s)) = {#(key, r)#}" by (simp add: bucket_order_mset r(1))
  then have "bucket_order (signed_char e) (requests s) = [(key, r)]" by simp
  moreover have "pc__on_request r status s1 = Some (logged (Request_cb r (-1) None) s1)"
    using r(2,3) s1 by (simp add: pc__on_request_def tp_working_def request_cb_def)
  ultimately show ?thesis using s1(1) tr by (simp add: logged_def)
qed

theorem request_called_twice_witness:
  "\<exists>p s1 p1 s2. pc_client_stop demo_env (demo_sent True, p) = Some (s1, p1) \<and> pc__on_request 3 0 s1 = Some s2 \<and>
     trace s2 = [Connect_cb 1 0, Request_cb 3 (-1) None, Request_cb 3 (-1) None]"
proof -
  obtain p where p: "client_step\<^sup>*\<^sup>* (demo_new True, fresh_parser) (demo_sent True, p)" "pkg_inv p"
    using demo_queued_reachable by blast
  let ?q = "\<lparr>r_type = PC_REQUEST, r_id = 1, r_route = Some ''a'', r_msg = Some (JObject []), r_transport = Some 2\<rparr>"
  have d: "enable_reconnect (demo_sent True)" "state (demo_sent True) \<noteq> PC_ST_DISCONNECTING" "\<not> reconnecting (demo_sent True)"
    "reconnect_delay_max (demo_sent True) \<le> 1073741" "reconnects (demo_sent True) < 2 ^ 31 - 1" "pending_alive (demo_sent True)"
    "requests (demo_sent True) = [(dec_string 1, 3)]" "tcp_reqs (demo_sent True) 3 = Some ?q" "r_transport ?q = Some 2"
    "transport (demo_sent True) = Some 2" "trace (demo_sent True) = [Connect_cb 1 0]"
    by (simp_all add: demo_sent_def demo_queued_def demo_ready_defs pending_alive_def)
  show ?thesis
    using request_called_twice [OF demo_client_initial p(1) d(1-6) p(2) d(7-10), of demo_env 0] d(11) by auto
qed

section \<open>Connecting and disconnecting\<close>


definition demo_beat :: env where
  "demo_beat = demo_env\<lparr>env_loadb := (\<lambda>_. Some (JObject [(''code'', JInteger 200), (''sys'', JObject [(''heartbeat'', JInteger 3)])]))\<rparr>"

lemma demo_beat_sel [simp]:
  "malloc_ok demo_beat n" "alloc_ok demo_beat ob" "uv_ok demo_beat call"
  "env_loadb demo_beat bs = Some (JObject [(''code'', JInteger 200), (''sys'', JObject [(''heartbeat'', JInteger 3)])])"
  by (simp_all add: demo_beat_def demo_env_def)


text \<open>(C39) A disconnect is lost when it comes during the handshake of a client with reconnect: the
  callback of the acknowledgement overwrites the disconnecting state, and the handle that the disconnect
  has signalled starts a reconnect instead of closing the client.\<close>

theorem disconnect_lost:
  assumes reach: "client_initial st" "client_step\<^sup>*\<^sup>* st (s, p)" and st: "enable_reconnect s" "close_async s" "tp_working t s = Some True"
      "\<not> reconnecting s" "reconnect_delay_max s \<le> 1073741" "reconnects s < 2 ^ 31 - 1" "pending_alive s" "pkg_inv p"
    and c: "conn_req s = Some c" "connects s c = Some conn" "c_cb conn = Some Client_connect3_cb"
  shows "\<exists>s1 s2 s3 p3. pc_client_disconnect s = Some s1 \<and> state s1 = PC_ST_DISCONNECTING \<and> close_sent s1 \<and>
    pc__handshake_ack_cb e t 0 (s1, p) = Some (s2, p) \<and> state s2 = PC_ST_WORKING \<and>
    pc__close_async_cb e (s2\<lparr>close_sent := False\<rparr>, p) = Some (s3, p3) \<and> state s3 = PC_ST_INITED \<and> t_active (reconnect_timer s3)"
proof -
  have inv: "client_inv s" using client.reachable_inv [OF reach] by simp
  have w: "transports s t = Some PC_TP_ST_WORKING" using st(3) by (auto simp: tp_working_def)
  let ?s1 = "s\<lparr>state := PC_ST_DISCONNECTING, close_sent := True\<rparr>"
  let ?s2 = "(client_emit PC_EVENT_RECONNECT None (logged (Connect_cb c 0) (s\<lparr>state := PC_ST_WORKING, close_sent := True, conn_req := None\<rparr>)))
    \<lparr>connects := (connects s)(c := None)\<rparr>"
  have s1: "pc_client_disconnect s = Some ?s1" using st(2) by (simp add: pc_client_disconnect_def)
  have s2: "pc__handshake_ack_cb e t 0 (?s1, p) = Some (?s2, p)"
    using w c by (simp add: pc__handshake_ack_cb_def tp_working_def finish_connect_def run_connect_cb_def
        pc__client_connect3_cb_def pc_connect_req_destroy_def client_emit_def logged_def)
  have i2: "client_inv ?s2"
    using write_cb_inv [OF disconnect_inv [OF inv s1], of e "Handshake_ack_cb t" 0 p ?s2 p] s2 by simp
  let ?s2' = "?s2\<lparr>close_sent := False\<rparr>"
  have "client_inv ?s2'" by (rule same_core_inv [OF _ i2]) (simp add: same_core_def)
  then have "\<exists>s3 p3. pc_client_stop e (?s2', p) = Some (s3, p3) \<and> state s3 = PC_ST_INITED \<and> t_active (reconnect_timer s3)"
    using client_stop_reconnects [of ?s2' p e] st by (auto simp: client_emit_def logged_def pending_alive_def)
  then obtain s3 p3 where "pc_client_stop e (?s2', p) = Some (s3, p3)" "state s3 = PC_ST_INITED" "t_active (reconnect_timer s3)"
    by blast
  then show ?thesis
    using s1 s2 by (intro exI [of _ ?s1] exI [of _ ?s2] exI [of _ s3] exI [of _ p3])
      (simp add: pc__close_async_cb_def client_emit_def logged_def)
qed

theorem disconnect_lost_witness:
  "\<exists>p s1 s2 s3 p3. pc_client_disconnect (demo_shaken True) = Some s1 \<and> pc__handshake_ack_cb demo_env 2 0 (s1, p) = Some (s2, p) \<and>
     pc__close_async_cb demo_env (s2\<lparr>close_sent := False\<rparr>, p) = Some (s3, p3) \<and> t_active (reconnect_timer s3)"
proof -
  obtain p where p: "client_step (demo_connected True, fresh_parser) (demo_shaken True, p)" "pkg_inv p" using demo_shaken_step .
  have r: "client_step\<^sup>*\<^sup>* (demo_new True, fresh_parser) (demo_shaken True, p)"
    by (rule rtranclp.rtrancl_into_rtrancl [OF demo_connected_reachable p(1)])
  let ?s = "demo_shaken True" and ?conn = "\<lparr>c_address = Some (9, 80), c_cb = Some Client_connect3_cb, c_transport = Some 2\<rparr>"
  have d: "enable_reconnect ?s" "close_async ?s" "tp_working 2 ?s = Some True" "\<not> reconnecting ?s" "reconnect_delay_max ?s \<le> 1073741"
    "reconnects ?s < 2 ^ 31 - 1" "pending_alive ?s" "conn_req ?s = Some 1" "connects ?s 1 = Some ?conn"
    "c_cb ?conn = Some Client_connect3_cb"
    by (simp_all add: demo_shaken_def demo_defs tp_working_def pending_alive_def)
  show ?thesis
    using disconnect_lost [OF demo_client_initial r d(1-7) p(2) d(8-10), of demo_env] by blast
qed

text \<open>When the memory for a connect runs out, or the socket cannot be created, the client stays in the
  connecting state without a connection: every later attempt to connect fails, whatever succeeds then.\<close>

theorem connect_failure_sticks:
  assumes "state s = PC_ST_INITED" "alloc_ok e Obj_connect" "alloc_ok e Obj_sockaddr"
    and "\<not> alloc_ok e Obj_uv_connect \<or> \<not> alloc_ok e Obj_ptr_pair \<or>
      alloc_ok e Obj_transport \<and> (\<not> alloc_ok e Obj_uv_tcp \<or> \<not> uv_ok e Uv_tcp_init)"
  shows "\<exists>s1. pc_client_connect3 e a s = Some (-1, s1) \<and> state s1 = PC_ST_CONNECTING \<and>
    uv_connects s1 = uv_connects s \<and> transport s1 = transport s \<and>
    (\<forall>e' a'. \<exists>s2. pc_client_connect3 e' a' s1 = Some (-1, s2) \<and> state s2 = PC_ST_CONNECTING)"
proof -
  let ?c = "heap_next s"
  let ?s = "s\<lparr>heap_next := ?c + 1, connects := (connects s)(?c \<mapsto> \<lparr>c_address = Some a, c_cb = None, c_transport = None\<rparr>)\<rparr>"
  let ?s1 = "(keep_addr a ?s)\<lparr>state := PC_ST_CONNECTING, connects := (connects ?s)(?c := None)\<rparr>"
  have "pc_client_connect3 e a s = Some (-1, ?s1)"
    using assms by (auto simp: pc_client_connect3_def pc_connect_req_new_def pc_connect_def pc_transport_new_def
        pc_connect_req_destroy_def keep_addr_def Let_def)
  moreover have "\<exists>s2. pc_client_connect3 e' a' ?s1 = Some (-1, s2) \<and> state s2 = PC_ST_CONNECTING" for e' a'
    by (simp add: pc_client_connect3_def pc_connect_req_new_def pc_connect_def pc_connect_req_destroy_def keep_addr_def)
  ultimately show ?thesis by (intro exI [of _ ?s1]) (simp add: keep_addr_def)
qed

theorem connect_failure_sticks_witness:
  "\<exists>s1. pc_client_connect3 (demo_env\<lparr>uv_ok := (\<lambda>call. call \<noteq> Uv_tcp_init)\<rparr>) (9, 80) (demo_new False) = Some (-1, s1) \<and>
     (\<forall>a'. \<exists>s2. pc_client_connect3 demo_env a' s1 = Some (-1, s2))"
proof -
  let ?e = "demo_env\<lparr>uv_ok := (\<lambda>call. call \<noteq> Uv_tcp_init)\<rparr>"
  have "state (demo_new False) = PC_ST_INITED" "alloc_ok ?e ob" "\<not> uv_ok ?e Uv_tcp_init" for ob
    by (simp_all add: demo_new_def zero_world_def)
  then show ?thesis using connect_failure_sticks [of "demo_new False" ?e "(9, 80)"] by blast
qed

end
