(* ===== verification/Json_Number.thy ===== *)
theory Json_Number
  imports C_Float
begin

text \<open>
  Numbers as text: what the bundled jansson uses of \<open>snprintf\<close>, \<open>strtoll\<close> and \<open>strtod\<close>,
  and \<open>strconv.c\<close> on top of them (built with \<open>JSON_HAVE_LOCALECONV 0\<close>). The conversions of
  doubles are the correctly rounded ones that Annex F of the C standard asks for; what the standard
  leaves to the implementation is the parameter \<open>uflow\<close> of \<open>strtod\<close>: for which decimal
  numbers \<open>m * 10 ^ e\<close> an underflow sets \<open>errno\<close>.
\<close>

section \<open>Formats\<close>

text \<open>\<open>%lld\<close>, and \<open>%x\<close> or \<open>%X\<close> with an optional width of zeros.\<close>

definition int_string :: "int \<Rightarrow> string" where
  "int_string i = (if i < 0 then CHR ''-'' # dec_string (nat (- i)) else dec_string (nat i))"

definition hex_digit :: "bool \<Rightarrow> nat \<Rightarrow> char" where
  "hex_digit upper d = char_of (if d < 10 then 48 + d else if upper then 55 + d else 87 + d)"

fun hex_string :: "bool \<Rightarrow> nat \<Rightarrow> string" where
  "hex_string upper n = (if n < 16 then [hex_digit upper n]
     else hex_string upper (n div 16) @ [hex_digit upper (n mod 16)])"

declare hex_string.simps [simp del]

definition hex4 :: "bool \<Rightarrow> nat \<Rightarrow> string" where
  "hex4 upper n = (let s = hex_string upper n in replicate (4 - length s) (CHR ''0'') @ s)"

text \<open>\<open>%.17g\<close>. For \<open>num / den > 0\<close> the decimal exponent of the first digit, and the
  significand of seventeen digits, rounded to nearest with ties to even, with the exponent of its first
  digit after the rounding.\<close>

definition dec_exp :: "nat \<Rightarrow> nat \<Rightarrow> int" where
  "dec_exp num den =
     (if den \<le> num then int (length (dec_string (num div den))) - 1
      else - int (length (dec_string ((den - 1) div num))))"

definition round_div :: "nat \<Rightarrow> nat \<Rightarrow> nat" where
  "round_div a b = (let q = a div b; r = a mod b
     in if 2 * r < b then q else if b < 2 * r then q + 1 else q + q mod 2)"

definition sig17 :: "nat \<Rightarrow> nat \<Rightarrow> nat \<times> int" where
  "sig17 num den =
     (let X = dec_exp num den;
          D = round_div (num * 10 ^ nat (16 - X)) (den * 10 ^ nat (X - 16))
      in if D = 10 ^ 17 then (10 ^ 16, X + 1) else (D, X))"

definition strip_zeros :: "string \<Rightarrow> string" where
  "strip_zeros s = rev (dropWhile (\<lambda>c. c = CHR ''0'') (rev s))"

definition frac_string :: "string \<Rightarrow> string" where
  "frac_string s = (let f = strip_zeros s in if f = [] then [] else CHR ''.'' # f)"

definition exp_string :: "int \<Rightarrow> string" where
  "exp_string X =
     (let s = dec_string (nat \<bar>X\<bar>)
      in (if X < 0 then ''e-'' else ''e+'') @ replicate (2 - length s) (CHR ''0'') @ s)"

definition g17_digits :: "nat \<Rightarrow> int \<Rightarrow> string" where
  "g17_digits D X =
     (let ds = dec_string D in
      if X < - 4 \<or> 17 \<le> X then take 1 ds @ frac_string (drop 1 ds) @ exp_string X
      else if 0 \<le> X then take (nat X + 1) ds @ frac_string (drop (nat X + 1) ds)
      else ''0'' @ frac_string (replicate (nat (- X) - 1) (CHR ''0'') @ ds))"

text \<open>The exact value of a finite double as a fraction.\<close>

definition dbl_frac :: "64 word \<Rightarrow> nat \<times> nat" where
  "dbl_frac d = (let (m, e) = unpack 53 (- 1074) (dbl_mag d) in (m * 2 ^ nat e, 2 ^ nat (- e)))"

definition fmt_g17 :: "64 word \<Rightarrow> string" where
  "fmt_g17 d =
     (if dbl_sign d then ''-'' else '''') @
     (if DBL_INF < dbl_mag d then ''nan'' else if dbl_mag d = DBL_INF then ''inf''
      else if dbl_mag d = 0 then ''0''
      else let (num, den) = dbl_frac d; (D, X) = sig17 num den in g17_digits D X)"

section \<open>Conversions\<close>

definition is_digit :: "char \<Rightarrow> bool" where
  "is_digit c \<longleftrightarrow> 48 \<le> (of_char c :: nat) \<and> (of_char c :: nat) \<le> 57"

definition is_space :: "char \<Rightarrow> bool" where
  "is_space c \<longleftrightarrow> (of_char c :: nat) = 32 \<or> 9 \<le> (of_char c :: nat) \<and> (of_char c :: nat) \<le> 13"

definition dec_value :: "string \<Rightarrow> nat" where
  "dec_value s = foldl (\<lambda>v c. v * 10 + (of_char c - 48)) 0 s"

text \<open>White space and a sign, the number of characters of both, and what follows.\<close>

definition scan_sign :: "string \<Rightarrow> bool \<times> nat \<times> string" where
  "scan_sign s =
     (let t = dropWhile is_space s; k = length s - length t in
      case t of [] \<Rightarrow> (False, k, [])
      | c # cs \<Rightarrow> if c = CHR ''-'' then (True, k + 1, cs) else if c = CHR ''+'' then (False, k + 1, cs)
                else (False, k, t))"

text \<open>\<open>strtoll\<close> with base 10: the value, the number of characters it has read (0 when there is no
  number) and whether it sets \<open>errno\<close> to \<open>ERANGE\<close>.\<close>

definition strtoll :: "string \<Rightarrow> int \<times> nat \<times> bool" where
  "strtoll s =
     (let (neg, k, t) = scan_sign s; ds = takeWhile is_digit t;
          v = (if neg then - int (dec_value ds) else int (dec_value ds)) in
      if ds = [] then (0, 0, False)
      else if v < - (2 ^ 63) then (- (2 ^ 63), k + length ds, True)
      else if v \<ge> 2 ^ 63 then (2 ^ 63 - 1, k + length ds, True)
      else (v, k + length ds, False))"

text \<open>The fraction \<open>p / q\<close> rounded to a double: a quotient of at least 55 bits, with a last bit
  that is set if there is a remainder, is rounded by \<open>pack\<close>.\<close>

definition dbl_of_ratio :: "nat \<Rightarrow> nat \<Rightarrow> nat" where
  "dbl_of_ratio p q =
     (let k = int (bitlen q) - int (bitlen p) + 60;
          num = p * 2 ^ nat k; den = q * 2 ^ nat (- k);
          m = 2 * (num div den) + (if num mod den = 0 then 0 else 1)
      in pack 53 (- 1074) DBL_INF m (- k - 1))"

definition dbl_of_dec :: "nat \<Rightarrow> int \<Rightarrow> nat" where
  "dbl_of_dec m e = dbl_of_ratio (m * 10 ^ nat e) (10 ^ nat (- e))"

text \<open>An exponent is read only if it has a digit.\<close>

definition scan_exp :: "string \<Rightarrow> int \<times> nat" where
  "scan_exp s =
     (case s of [] \<Rightarrow> (0, 0)
      | c # cs \<Rightarrow>
          if c = CHR ''e'' \<or> c = CHR ''E'' then
            (let (neg, k, t) = (case cs of [] \<Rightarrow> (False, 0, [])
                  | d # ds \<Rightarrow> if d = CHR ''-'' then (True, 1, ds) else if d = CHR ''+'' then (False, 1, ds)
                              else (False, 0, cs));
                 ds = takeWhile is_digit t in
             if ds = [] then (0, 0)
             else (if neg then - int (dec_value ds) else int (dec_value ds), 1 + k + length ds))
          else (0, 0))"

text \<open>\<open>strtod\<close> on decimal numbers (the lexer hands over nothing else): the value, the number of
  characters read and whether \<open>errno\<close> is set to \<open>ERANGE\<close>.\<close>

definition strtod :: "(nat \<Rightarrow> int \<Rightarrow> bool) \<Rightarrow> string \<Rightarrow> (64 word) \<times> nat \<times> bool" where
  "strtod uflow s =
     (let (neg, k, t) = scan_sign s; ip = takeWhile is_digit t; t1 = drop (length ip) t;
          dot = (case t1 of [] \<Rightarrow> False | c # cs \<Rightarrow> c = CHR ''.'');
          fp = (if dot then takeWhile is_digit (tl t1) else []);
          t2 = (if dot then drop (length fp + 1) t1 else t1);
          (e, j) = scan_exp t2;
          m = dec_value (ip @ fp); e10 = e - int (length fp); b = dbl_of_dec m e10 in
      if ip @ fp = [] then (0, 0, False)
      else (dbl_make neg b, k + length ip + (if dot then length fp + 1 else 0) + j,
            b = DBL_INF \<or> m \<noteq> 0 \<and> b < 2 ^ 52 \<and> uflow m e10))"

section \<open>strconv.c\<close>

text \<open>The comparison \<open>value != 0\<close> holds for neither zero. A failed assertion is \<open>None\<close>, an
  overflow \<open>Fail\<close>.\<close>

definition jsonp_strtod :: "(nat \<Rightarrow> int \<Rightarrow> bool) \<Rightarrow> string \<Rightarrow> (64 word) cret option" where
  "jsonp_strtod uflow text =
     (let (val, k, erange) = strtod uflow text in
      if k \<noteq> length text then None
      else if erange \<and> dbl_mag val \<noteq> 0 then Some Fail
      else Some (Ok val))"

text \<open>The clean-up of the exponent: a leading \<open>+\<close> goes, and so do leading zeros.\<close>

definition strip_exp :: "string \<Rightarrow> string" where
  "strip_exp s =
     (if CHR ''e'' \<notin> set s then s
      else let pre = takeWhile (\<lambda>c. c \<noteq> CHR ''e'') s; start = drop (length pre + 1) s;
               digits = dropWhile (\<lambda>c. c = CHR ''0'') (drop 1 start)
           in pre @ ''e'' @ (if take 1 start = ''-'' then ''-'' else []) @ digits)"

definition jsonp_dtostr :: "nat \<Rightarrow> 64 word \<Rightarrow> string option" where
  "jsonp_dtostr sz value =
     (let s = fmt_g17 value in
      if length s \<ge> sz then None
      else if CHR ''.'' \<notin> set s \<and> CHR ''e'' \<notin> set s
      then if length s + 3 \<ge> sz then None else Some (strip_exp (s @ ''.0''))
      else Some (strip_exp s))"

section \<open>Texts of numbers\<close>

definition digits :: "string \<Rightarrow> bool" where
  "digits s \<longleftrightarrow> s \<noteq> [] \<and> (\<forall>c \<in> set s. is_digit c)"

definition fraction_text :: "string \<Rightarrow> bool" where
  "fraction_text s \<longleftrightarrow> s = [] \<or> (\<exists>ds. digits ds \<and> s = CHR ''.'' # ds)"

definition exponent_text :: "string \<Rightarrow> bool" where
  "exponent_text s \<longleftrightarrow> s = [] \<or>
     (\<exists>c sg ds. digits ds \<and> (c = CHR ''e'' \<or> c = CHR ''E'') \<and> (sg = [] \<or> sg = ''-'' \<or> sg = ''+'') \<and> s = c # sg @ ds)"

definition sign_text :: "bool \<Rightarrow> string" where
  "sign_text neg = (if neg then ''-'' else [])"

lemma is_digit_other: "is_digit c \<Longrightarrow> \<not> is_space c \<and> c \<noteq> CHR ''-'' \<and> c \<noteq> CHR ''+'' \<and> c \<noteq> CHR ''.'' \<and>
    c \<noteq> CHR ''e'' \<and> c \<noteq> CHR ''E''"
  by (auto simp: is_digit_def is_space_def)

lemma not_digit [simp]: "\<not> is_digit (CHR ''.'')" "\<not> is_digit (CHR ''e'')" "\<not> is_digit (CHR ''E'')"
  "\<not> is_digit (CHR ''-'')" "\<not> is_digit (CHR ''+'')" "\<not> is_space (CHR ''-'')"
  by (simp_all add: is_digit_def is_space_def)

lemma scan_sign_text:
  assumes "digits ds"
  shows "scan_sign (sign_text neg @ ds @ s) = (neg, length (sign_text neg), ds @ s)"
proof -
  obtain d ds' where "ds = d # ds'" "is_digit d" using assms by (cases ds) (auto simp: digits_def)
  then show ?thesis using is_digit_other [of d] by (simp add: scan_sign_def sign_text_def)
qed

text \<open>A scan of digits stops at the first other character.\<close>

definition stops :: "string \<Rightarrow> bool" where
  "stops s \<longleftrightarrow> s = [] \<or> \<not> is_digit (hd s)"

lemma takeWhile_digits: "\<forall>c \<in> set ds. is_digit c \<Longrightarrow> stops s \<Longrightarrow> takeWhile is_digit (ds @ s) = ds"
  by (cases s) (auto simp: stops_def)

lemma stops_text: "exponent_text s \<Longrightarrow> stops s" "fraction_text s \<Longrightarrow> exponent_text t \<Longrightarrow> stops (s @ t)" "stops []"
  by (auto simp: stops_def exponent_text_def fraction_text_def)

lemma strtoll_text:
  assumes "digits ds"
  shows "strtoll (sign_text neg @ ds) =
    (let v = (if neg then - int (dec_value ds) else int (dec_value ds)); k = length (sign_text neg @ ds) in
     if v < - (2 ^ 63) then (- (2 ^ 63), k, True) else if v \<ge> 2 ^ 63 then (2 ^ 63 - 1, k, True) else (v, k, False))"
proof -
  have "\<forall>c \<in> set ds. is_digit c" "ds \<noteq> []" using assms by (simp_all add: digits_def)
  then show ?thesis
    using scan_sign_text [OF assms, of neg "[]"]
    by (simp add: strtoll_def Let_def takeWhile_eq_all_conv [THEN iffD2])
qed

text \<open>The exponent of a text, and what \<open>strtod\<close> makes of a number.\<close>

lemma scan_exp_text:
  assumes "exponent_text ex"
  shows "snd (scan_exp ex) = length ex"
  using assms
proof (cases "ex = []")
  case False
  then obtain c sg ds where ex: "digits ds" "c = CHR ''e'' \<or> c = CHR ''E''" "sg = [] \<or> sg = ''-'' \<or> sg = ''+''" "ex = c # sg @ ds"
    using assms unfolding exponent_text_def by blast
  obtain d ds' where d: "ds = d # ds'" "is_digit d" "\<forall>c \<in> set ds'. is_digit c" using ex(1) by (cases ds) (auto simp: digits_def)
  then show ?thesis using ex is_digit_other [of d]
    by (auto simp: scan_exp_def Let_def takeWhile_eq_all_conv [THEN iffD2])
qed (simp add: scan_exp_def)

lemma strtod_text:
  assumes "digits ip" "fraction_text fr" "exponent_text ex"
  shows "strtod uflow (sign_text neg @ ip @ fr @ ex) =
    (let m = dec_value (ip @ tl fr); e10 = fst (scan_exp ex) - int (length (tl fr)); b = dbl_of_dec m e10 in
     (dbl_make neg b, length (sign_text neg @ ip @ fr @ ex), b = DBL_INF \<or> m \<noteq> 0 \<and> b < 2 ^ 52 \<and> uflow m e10))"
proof -
  have ip: "takeWhile is_digit (ip @ fr @ ex) = ip" "ip \<noteq> []"
    using takeWhile_digits [of ip "fr @ ex"] stops_text(2) assms by (auto simp: digits_def)
  have sg: "scan_sign (sign_text neg @ ip @ fr @ ex) = (neg, length (sign_text neg), ip @ fr @ ex)"
    by (rule scan_sign_text [OF assms(1)])
  obtain e j where e: "scan_exp ex = (e, j)" by (cases "scan_exp ex")
  then have j: "j = length ex" using scan_exp_text [OF assms(3)] by simp
  show ?thesis
  proof (cases "fr = []")
    case True
    have nd: "(case ex of [] \<Rightarrow> False | c # cs \<Rightarrow> c = CHR ''.'') = False"
      using assms(3) by (auto simp: exponent_text_def)
    show ?thesis using True sg ip e j nd by (simp add: strtod_def Let_def)
  next
    case False
    then obtain ds where fr: "digits ds" "fr = CHR ''.'' # ds" using assms(2) by (auto simp: fraction_text_def)
    then have "takeWhile is_digit (ds @ ex) = ds"
      using takeWhile_digits [of ds ex] stops_text(1) assms(3) by (simp add: digits_def)
    then show ?thesis using fr sg ip e j by (simp add: strtod_def Let_def)
  qed
qed

lemma pack_le: "pack p emin ov m e \<le> ov"
  by (simp add: pack_def Let_def)

lemma dbl_of_dec_le: "dbl_of_dec m e \<le> DBL_INF"
  by (simp only: dbl_of_dec_def dbl_of_ratio_def Let_def pack_le)

lemma dbl_mag_make: "b \<le> DBL_INF \<Longrightarrow> dbl_mag (dbl_make neg b) = b"
proof -
  assume b: "b \<le> DBL_INF"
  have "unat (word_of_nat ((if neg then 2 ^ 63 else 0) + b) :: 64 word) = (if neg then 2 ^ 63 else 0) + b"
    using b by (simp add: unat_of_nat DBL_INF_def del: of_nat_add)
  then show ?thesis using b by (simp add: dbl_mag_def dbl_make_def DBL_INF_def)
qed

lemma jsonp_strtod_text:
  assumes "digits ip" "fraction_text fr" "exponent_text ex"
  shows "\<exists>r. jsonp_strtod uflow (sign_text neg @ ip @ fr @ ex) = Some r \<and> (\<forall>d. r = Ok d \<longrightarrow> dbl_finite d)"
proof -
  let ?b = "dbl_of_dec (dec_value (ip @ tl fr)) (fst (scan_exp ex) - int (length (tl fr)))"
  have "dbl_mag (dbl_make neg ?b) = ?b" by (rule dbl_mag_make [OF dbl_of_dec_le])
  moreover have "DBL_INF \<noteq> 0" by (simp add: DBL_INF_def)
  ultimately show ?thesis
    using strtod_text [OF assms, of uflow neg] dbl_of_dec_le [of "dec_value (ip @ tl fr)" "fst (scan_exp ex) - int (length (tl fr))"]
    by (auto simp: jsonp_strtod_def Let_def dbl_finite_def)
qed

end
