(* ===== verification/Strbuffer.thy ===== *)
theory Strbuffer
  imports C_Base
begin

text \<open>
  \<open>strbuffer.c\<close> of the bundled jansson, the growing byte buffer into which JSON text is printed and
  in which the lexer keeps the text of a token. Allocations succeed. The field \<open>sb_value\<close> holds the
  bytes of the allocation that have been written, \<open>sb_size\<close> the size of the allocation: writing
  outside the allocation and reading a byte that was never written are undefined (\<open>None\<close>).

  The locale \<open>text_buffer\<close> is the contract of such a buffer: under an invariant its operations are
  defined, and they act on the contents as the operations on lists do. \<open>strbuffer\<close> is an
  interpretation.
\<close>

section \<open>Definitions\<close>

record strbuffer =
  sb_value :: "byte list"
  sb_length :: nat
  sb_size :: nat

definition STRBUFFER_MIN_SIZE :: nat where "STRBUFFER_MIN_SIZE = 16"
definition STRBUFFER_FACTOR :: nat where "STRBUFFER_FACTOR = 2"
definition STRBUFFER_SIZE_MAX :: nat where "STRBUFFER_SIZE_MAX = 2 ^ 64 - 1"

text \<open>A store into the allocation, next to bytes that are there.\<close>

definition alloc_write :: "byte list \<Rightarrow> nat \<Rightarrow> nat \<Rightarrow> byte list \<Rightarrow> byte list option" where
  "alloc_write value sz off data =
     (if off + length data \<le> sz \<and> off \<le> length value
      then Some (take off value @ data @ drop (off + length data) value) else None)"

text \<open>The string that a pointer to the written bytes denotes: undefined without a terminator.\<close>

definition c_str :: "byte list \<Rightarrow> byte list option" where
  "c_str bs = (if 0 \<in> set bs then Some (takeWhile (\<lambda>b. b \<noteq> 0) bs) else None)"

definition strbuffer_init :: strbuffer where
  "strbuffer_init = \<lparr>sb_value = [0], sb_length = 0, sb_size = STRBUFFER_MIN_SIZE\<rparr>"

definition strbuffer_close :: "strbuffer \<Rightarrow> strbuffer" where
  "strbuffer_close s = s\<lparr>sb_value := [], sb_length := 0, sb_size := 0\<rparr>"

definition strbuffer_clear :: "strbuffer \<Rightarrow> strbuffer option" where
  "strbuffer_clear s = do {
     v \<leftarrow> alloc_write (sb_value s) (sb_size s) 0 [0];
     Some (s\<lparr>sb_value := v, sb_length := 0\<rparr>) }"

definition strbuffer_value :: "strbuffer \<Rightarrow> byte list" where
  "strbuffer_value s = sb_value s"

definition strbuffer_steal_value :: "strbuffer \<Rightarrow> byte list \<times> strbuffer" where
  "strbuffer_steal_value s = (sb_value s, strbuffer_init)"

text \<open>The copy and the terminator behind it.\<close>

definition strbuffer_store :: "strbuffer \<Rightarrow> byte list \<Rightarrow> strbuffer option" where
  "strbuffer_store s data = do {
     v \<leftarrow> alloc_write (sb_value s) (sb_size s) (sb_length s) data;
     v \<leftarrow> alloc_write v (sb_size s) (sb_length s + length data) [0];
     Some (s\<lparr>sb_value := v, sb_length := sb_length s + length data\<rparr>) }"

definition strbuffer_append_bytes :: "strbuffer \<Rightarrow> byte list \<Rightarrow> (int \<times> strbuffer) option" where
  "strbuffer_append_bytes s data =
     (let sz = length data in
      if sz \<ge> size_sub (sb_size s) (sb_length s) then
        if sb_size s > STRBUFFER_SIZE_MAX div STRBUFFER_FACTOR \<or> sz > STRBUFFER_SIZE_MAX - 1 \<or>
           sb_length s > STRBUFFER_SIZE_MAX - 1 - sz
        then Some (- 1, s)
        else
          let new_size = max (sb_size s * STRBUFFER_FACTOR) (sb_length s + sz + 1)
          in do {
            new_value \<leftarrow> mem_read (sb_value s) 0 (sb_length s);
            s \<leftarrow> strbuffer_store (s\<lparr>sb_value := new_value, sb_size := new_size\<rparr>) data;
            Some (0, s) }
      else do {
        s \<leftarrow> strbuffer_store s data;
        Some (0, s) })"

definition strbuffer_append_byte :: "strbuffer \<Rightarrow> byte \<Rightarrow> (int \<times> strbuffer) option" where
  "strbuffer_append_byte s b = strbuffer_append_bytes s [b]"

definition strbuffer_append :: "strbuffer \<Rightarrow> byte list \<Rightarrow> (int \<times> strbuffer) option" where
  "strbuffer_append s string = do { str \<leftarrow> c_str string; strbuffer_append_bytes s str }"

definition strbuffer_pop :: "strbuffer \<Rightarrow> (byte \<times> strbuffer) option" where
  "strbuffer_pop s =
     (if sb_length s > 0 then do {
        c \<leftarrow> mem_get (sb_value s) (sb_length s - 1);
        v \<leftarrow> alloc_write (sb_value s) (sb_size s) (sb_length s - 1) [0];
        Some (c, s\<lparr>sb_value := v, sb_length := sb_length s - 1\<rparr>) }
      else Some (0, s))"

section \<open>The contract\<close>

text \<open>A buffer with its contents. Appending works below the limit.\<close>

locale text_buffer =
  fixes buffer_ok :: "'s \<Rightarrow> bool" and contents :: "'s \<Rightarrow> byte list" and limit :: nat
    and init :: 's and clear :: "'s \<Rightarrow> 's option" and append :: "'s \<Rightarrow> byte list \<Rightarrow> (int \<times> 's) option"
    and pop :: "'s \<Rightarrow> (byte \<times> 's) option" and chars :: "'s \<Rightarrow> byte list"
  assumes init_ok: "buffer_ok init" "contents init = []"
    and clear_ok: "buffer_ok s \<Longrightarrow> \<exists>s'. clear s = Some s' \<and> buffer_ok s' \<and> contents s' = []"
    and append_ok: "buffer_ok s \<Longrightarrow> length (contents s) + length bs < limit \<Longrightarrow>
      \<exists>s'. append s bs = Some (0, s') \<and> buffer_ok s' \<and> contents s' = contents s @ bs"
    and pop_ok: "buffer_ok s \<Longrightarrow> contents s = bs @ [b] \<Longrightarrow>
      \<exists>s'. pop s = Some (b, s') \<and> buffer_ok s' \<and> contents s' = bs"
    and chars_ok: "buffer_ok s \<Longrightarrow> \<exists>junk. chars s = contents s @ 0 # junk"
begin

text \<open>Appending piece by piece.\<close>

fun append_all :: "'s \<Rightarrow> byte list list \<Rightarrow> (int \<times> 's) option" where
  "append_all s [] = Some (0, s)"
| "append_all s (bs # bss) = do { (r, s) \<leftarrow> append s bs; if r \<noteq> 0 then Some (r, s) else append_all s bss }"

lemma append_all_concat:
  "buffer_ok s \<Longrightarrow> length (contents s) + length (concat bss) < limit \<Longrightarrow>
   \<exists>s'. append_all s bss = Some (0, s') \<and> buffer_ok s' \<and> contents s' = contents s @ concat bss"
proof (induction bss arbitrary: s)
  case (Cons bs bss)
  then obtain s1 where "append s bs = Some (0, s1)" "buffer_ok s1" "contents s1 = contents s @ bs"
    using append_ok [of s bs] by auto
  then show ?case using Cons.IH [of s1] Cons.prems by auto
qed auto

text \<open>What the string of a buffer is when no byte of the contents is zero.\<close>

lemma chars_string:
  assumes "buffer_ok s" "0 \<notin> set (contents s)"
  shows "c_str (chars s) = Some (contents s)"
proof -
  obtain junk where "chars s = contents s @ 0 # junk" using chars_ok [OF assms(1)] by blast
  moreover have "takeWhile (\<lambda>b. b \<noteq> 0) (contents s @ 0 # junk) = contents s"
    using assms(2) by (subst takeWhile_append2) (auto intro: ccontr)
  ultimately show ?thesis by (simp add: c_str_def)
qed

end

section \<open>The implementation\<close>

definition strbuffer_ok :: "strbuffer \<Rightarrow> bool" where
  "strbuffer_ok s \<longleftrightarrow> sb_length s < length (sb_value s) \<and> length (sb_value s) \<le> sb_size s \<and>
     sb_size s < 2 ^ 64 \<and> sb_value s ! sb_length s = 0"

definition strbuffer_contents :: "strbuffer \<Rightarrow> byte list" where
  "strbuffer_contents s = take (sb_length s) (sb_value s)"

lemma length_contents: "strbuffer_ok s \<Longrightarrow> length (strbuffer_contents s) = sb_length s"
  by (simp add: strbuffer_ok_def strbuffer_contents_def)

lemma strbuffer_store_ok:
  assumes "sb_length s \<le> length (sb_value s)" "length (sb_value s) \<le> sb_size s" "sb_size s < 2 ^ 64"
    and "sb_length s + length data < sb_size s"
  shows "\<exists>s'. strbuffer_store s data = Some s' \<and> strbuffer_ok s' \<and>
    strbuffer_contents s' = strbuffer_contents s @ data"
  using assms
  by (auto simp: strbuffer_store_def alloc_write_def strbuffer_ok_def strbuffer_contents_def nth_append)

lemma strbuffer_append_bytes_ok:
  assumes ok: "strbuffer_ok s" and len: "length (strbuffer_contents s) + length data < 2 ^ 63"
  shows "\<exists>s'. strbuffer_append_bytes s data = Some (0, s') \<and> strbuffer_ok s' \<and>
    strbuffer_contents s' = strbuffer_contents s @ data"
proof (cases "length data \<ge> sb_size s - sb_length s")
  case True
  let ?n = "max (sb_size s * STRBUFFER_FACTOR) (sb_length s + length data + 1)"
  let ?s = "s\<lparr>sb_value := take (sb_length s) (sb_value s), sb_size := ?n\<rparr>"
  have l: "sb_length s + length data < 2 ^ 63" using len length_contents [OF ok] by simp
  then have sz: "sb_size s < 2 ^ 63" using True by simp
  have "\<exists>s'. strbuffer_store ?s data = Some s' \<and> strbuffer_ok s' \<and> strbuffer_contents s' = strbuffer_contents ?s @ data"
    by (rule strbuffer_store_ok) (use ok l sz in \<open>auto simp: strbuffer_ok_def STRBUFFER_FACTOR_def\<close>)
  moreover have "strbuffer_contents ?s = strbuffer_contents s" by (simp add: strbuffer_contents_def)
  moreover have "mem_read (sb_value s) 0 (sb_length s) = Some (take (sb_length s) (sb_value s))"
    using ok by (simp add: mem_read_def strbuffer_ok_def)
  moreover have "size_sub (sb_size s) (sb_length s) = sb_size s - sb_length s"
    using ok by (simp add: size_sub_le strbuffer_ok_def)
  ultimately show ?thesis
    using True l sz by (auto simp: strbuffer_append_bytes_def STRBUFFER_SIZE_MAX_def STRBUFFER_FACTOR_def Let_def)
next
  case False
  have "\<exists>s'. strbuffer_store s data = Some s' \<and> strbuffer_ok s' \<and> strbuffer_contents s' = strbuffer_contents s @ data"
    by (rule strbuffer_store_ok) (use ok False in \<open>auto simp: strbuffer_ok_def\<close>)
  moreover have "size_sub (sb_size s) (sb_length s) = sb_size s - sb_length s"
    using ok by (simp add: size_sub_le strbuffer_ok_def)
  ultimately show ?thesis using False by (auto simp: strbuffer_append_bytes_def Let_def)
qed

interpretation strbuffer: text_buffer strbuffer_ok strbuffer_contents "2 ^ 63" strbuffer_init
  strbuffer_clear strbuffer_append_bytes strbuffer_pop strbuffer_value
proof
  show "strbuffer_ok strbuffer_init" "strbuffer_contents strbuffer_init = []"
    by (simp_all add: strbuffer_init_def strbuffer_ok_def strbuffer_contents_def STRBUFFER_MIN_SIZE_def)
next
  fix s and bs :: "byte list" assume "strbuffer_ok s" "length (strbuffer_contents s) + length bs < 2 ^ 63"
  then show "\<exists>s'. strbuffer_append_bytes s bs = Some (0, s') \<and> strbuffer_ok s' \<and>
      strbuffer_contents s' = strbuffer_contents s @ bs" by (rule strbuffer_append_bytes_ok)
next
  fix s assume "strbuffer_ok s"
  then show "\<exists>s'. strbuffer_clear s = Some s' \<and> strbuffer_ok s' \<and> strbuffer_contents s' = []"
    by (auto simp: strbuffer_clear_def alloc_write_def strbuffer_ok_def strbuffer_contents_def)
next
  fix s bs b assume ok: "strbuffer_ok s" and c: "strbuffer_contents s = bs @ [b]"
  have l: "sb_length s = Suc (length bs)" using length_contents [OF ok] c by simp
  then have v: "take (length bs) (sb_value s) = bs" "sb_value s ! length bs = b"
    using c ok nth_take [of "length bs" "sb_length s" "sb_value s"]
    by (auto simp: strbuffer_contents_def take_Suc_conv_app_nth strbuffer_ok_def)
  then show "\<exists>s'. strbuffer_pop s = Some (b, s') \<and> strbuffer_ok s' \<and> strbuffer_contents s' = bs"
    using ok l by (auto simp: strbuffer_pop_def alloc_write_def mem_get_def strbuffer_ok_def
        strbuffer_contents_def nth_append)
next
  fix s assume "strbuffer_ok s"
  then have "sb_value s = strbuffer_contents s @ 0 # drop (Suc (sb_length s)) (sb_value s)"
    using id_take_nth_drop [of "sb_length s" "sb_value s"] by (simp add: strbuffer_ok_def strbuffer_contents_def)
  then show "\<exists>junk. strbuffer_value s = strbuffer_contents s @ 0 # junk"
    unfolding strbuffer_value_def by blast
qed

end
