(* ===== verification/Json_Dump.thy ===== *)
theory Json_Dump
  imports Json Json_Number Strbuffer "HOL-Library.List_Lexorder" "HOL-Library.Multiset"
begin

text \<open>
  \<open>dump.c\<close> of the bundled jansson: a value is printed by a sequence of calls of a callback that
  takes a piece of text, here \<open>dump_to_strbuffer\<close>. A callback acts on data of its own and returns 0
  or an error; \<open>None\<close> is undefined behaviour. Values are trees, so the marks against cycles
  (\<open>visited\<close>) are never found set and are left out. Objects keep their keys in the order of their
  serial numbers, so \<open>JSON_PRESERVE_ORDER\<close> changes nothing.

  The locale \<open>json_writer\<close> is the contract of the callback: it appends. For every callback that
  keeps it the printer writes the text \<open>json_print\<close>, defined by recursion over the value.
\<close>

section \<open>Definitions\<close>

definition JSON_INDENT :: "nat \<Rightarrow> nat" where "JSON_INDENT n = n AND 0x1F"
definition JSON_COMPACT :: nat where "JSON_COMPACT = 0x20"
definition JSON_ENSURE_ASCII :: nat where "JSON_ENSURE_ASCII = 0x40"
definition JSON_SORT_KEYS :: nat where "JSON_SORT_KEYS = 0x80"
definition JSON_PRESERVE_ORDER :: nat where "JSON_PRESERVE_ORDER = 0x100"
definition JSON_ENCODE_ANY :: nat where "JSON_ENCODE_ANY = 0x200"
definition JSON_ESCAPE_SLASH :: nat where "JSON_ESCAPE_SLASH = 0x400"

definition MAX_INTEGER_STR_LENGTH :: nat where "MAX_INTEGER_STR_LENGTH = 100"
definition MAX_REAL_STR_LENGTH :: nat where "MAX_REAL_STR_LENGTH = 100"

type_synonym 'd dump_callback = "byte list \<Rightarrow> 'd \<Rightarrow> (int \<times> 'd) option"

text \<open>\<open>if(f()) return -1; ...\<close>\<close>

definition dthen :: "(int \<times> 'd) option \<Rightarrow> ('d \<Rightarrow> (int \<times> 'd) option) \<Rightarrow> (int \<times> 'd) option" where
  "dthen m k = (case m of None \<Rightarrow> None | Some (r, d) \<Rightarrow> if r \<noteq> 0 then Some (- 1, d) else k d)"

lemma dthen_cong [fundef_cong]:
  "m = m' \<Longrightarrow> (\<And>d. m' = Some (0, d) \<Longrightarrow> k d = k' d) \<Longrightarrow> dthen m k = dthen m' k'"
  by (auto simp: dthen_def split: option.splits)

definition dump_to_strbuffer :: "strbuffer dump_callback" where
  "dump_to_strbuffer buffer data = strbuffer_append_bytes data buffer"

definition dump_str :: "'d dump_callback \<Rightarrow> string \<Rightarrow> 'd \<Rightarrow> (int \<times> 'd) option" where
  "dump_str dump s d = dump (str_bytes s) d"

fun dump_spaces :: "'d dump_callback \<Rightarrow> nat \<Rightarrow> nat \<Rightarrow> 'd \<Rightarrow> (int \<times> 'd) option" where
  "dump_spaces dump ws_count 0 d = Some (0, d)"
| "dump_spaces dump ws_count (Suc depth) d =
     dthen (dump_str dump (replicate ws_count (CHR '' '')) d) (dump_spaces dump ws_count depth)"

definition dump_indent :: "nat \<Rightarrow> nat \<Rightarrow> bool \<Rightarrow> 'd dump_callback \<Rightarrow> 'd \<Rightarrow> (int \<times> 'd) option" where
  "dump_indent flags depth space dump d =
     (if JSON_INDENT flags > 0 then
        dthen (dump_str dump ''\<newline>'' d) (dump_spaces dump (JSON_INDENT flags) depth)
      else if space \<and> flags AND JSON_COMPACT = 0 then dump_str dump '' '' d
      else Some (0, d))"

subsection \<open>Strings\<close>

definition must_escape :: "nat \<Rightarrow> nat \<Rightarrow> bool" where
  "must_escape flags codepoint \<longleftrightarrow>
     codepoint = 0x5C \<or> codepoint = 0x22 \<or> codepoint < 0x20 \<or>
     flags AND JSON_ESCAPE_SLASH \<noteq> 0 \<and> codepoint = 0x2F \<or>
     flags AND JSON_ENSURE_ASCII \<noteq> 0 \<and> codepoint > 0x7F"

text \<open>The inner loop, which starts with \<open>end = pos\<close>: the characters it has passed since
  \<open>str\<close>, \<open>pos\<close>, \<open>end\<close> and the code point that stopped it (at the end of the string
  \<open>end = pos\<close>, and the code point is not used). \<open>None\<close> if the string is not UTF-8.\<close>

function dump_scan :: "nat \<Rightarrow> byte list \<Rightarrow> byte list \<Rightarrow> (byte list \<times> byte list \<times> byte list \<times> nat) option" where
  "dump_scan flags pos passed =
     (if pos = [] then Some (passed, pos, pos, 0)
      else case utf8_iterate pos of
          Some (Some codepoint, end) \<Rightarrow>
            if must_escape flags codepoint then Some (passed, pos, end, codepoint)
            else dump_scan flags end (passed @ take (length pos - length end) pos)
        | _ \<Rightarrow> None)"
  by pat_completeness auto
termination
  by (relation "measure (\<lambda>(flags, pos, passed). length pos)")
    (auto simp: utf8_iterate_def Let_def neq_Nil_conv split: if_splits option.splits)

declare dump_scan.simps [simp del]

definition dump_escape :: "nat \<Rightarrow> string" where
  "dump_escape codepoint =
     (if codepoint = 0x5C then [CHR 0x5C, CHR 0x5C]
      else if codepoint = 0x22 then [CHR 0x5C, CHR 0x22]
      else if codepoint = 0x08 then CHR 0x5C # ''b''
      else if codepoint = 0x0C then CHR 0x5C # ''f''
      else if codepoint = 0x0A then CHR 0x5C # ''n''
      else if codepoint = 0x0D then CHR 0x5C # ''r''
      else if codepoint = 0x09 then CHR 0x5C # ''t''
      else if codepoint = 0x2F then CHR 0x5C # ''/''
      else if codepoint < 0x10000 then CHR 0x5C # CHR ''u'' # hex4 False codepoint
      else
        let c = codepoint - 0x10000;
            first = 0xD800 OR drop_bit 10 (c AND 0xffc00);
            last = 0xDC00 OR (c AND 0x003ff)
        in CHR 0x5C # CHR ''u'' # hex4 False first @ CHR 0x5C # CHR ''u'' # hex4 False last)"

lemma utf8_iterate_less: "utf8_iterate (b # bs) = Some (c, end) \<Longrightarrow> length end < length (b # bs)"
  by (auto simp: utf8_iterate_def Let_def split: if_splits option.splits)

lemma dump_scan_length:
  "dump_scan flags pos passed = Some (chunk, pos', end, cp) \<Longrightarrow>
   length end \<le> length pos' \<and> length pos' \<le> length pos"
proof (induction flags pos passed rule: dump_scan.induct)
  case (1 flags pos passed)
  show ?case
  proof (cases "pos = []")
    case True
    then show ?thesis using 1(2) by (simp add: dump_scan.simps)
  next
    case False
    then obtain n rest where it: "utf8_iterate pos = Some (Some n, rest)"
      using 1(2) by (auto simp: dump_scan.simps [of flags pos] split: option.splits)
    then have "length rest < length pos" using False by (cases pos) (auto dest: utf8_iterate_less)
    then show ?thesis
      using 1(2) False it 1(1) [OF False it] by (auto simp: dump_scan.simps [of flags pos] split: if_splits)
  qed
qed

function dump_chars :: "nat \<Rightarrow> 'd dump_callback \<Rightarrow> byte list \<Rightarrow> 'd \<Rightarrow> (int \<times> 'd) option" where
  "dump_chars flags dump str d =
     (case dump_scan flags str [] of None \<Rightarrow> Some (- 1, d)
      | Some (chunk, pos, end, codepoint) \<Rightarrow>
          dthen (if chunk \<noteq> [] then dump chunk d else Some (0, d)) (\<lambda>d.
            if length end = length pos then dump_str dump [CHR 0x22] d
            else dthen (dump_str dump (dump_escape codepoint) d) (\<lambda>d. dump_chars flags dump end d)))"
  by pat_completeness auto
termination
  by (relation "measure (\<lambda>(flags, dump, str, d). length str)") (fastforce dest: dump_scan_length)+

declare dump_chars.simps [simp del]

definition dump_string :: "nat \<Rightarrow> 'd dump_callback \<Rightarrow> byte list \<Rightarrow> 'd \<Rightarrow> (int \<times> 'd) option" where
  "dump_string flags dump str d = dthen (dump_str dump [CHR 0x22] d) (dump_chars flags dump str)"

subsection \<open>Values\<close>

text \<open>The order in which the members of an object are printed: \<open>qsort\<close> with \<open>strcmp\<close>, which
  compares bytes as unsigned numbers, \<open>qsort\<close> by serial number, or the order of iteration. The
  serial numbers that an object has given to its members are not part of the values; they are a
  parameter.\<close>

type_synonym serials = "(string \<times> json) list \<Rightarrow> string \<times> json \<Rightarrow> nat"

definition key_order :: "serials \<Rightarrow> nat \<Rightarrow> (string \<times> json) list \<Rightarrow> (string \<times> json) list" where
  "key_order serial flags kvs =
     (if flags AND JSON_SORT_KEYS \<noteq> 0 then sort_key (\<lambda>(k, v). map unat (str_bytes k)) kvs
      else if flags AND JSON_PRESERVE_ORDER \<noteq> 0 then sort_key (serial kvs) kvs
      else kvs)"

lemma pairs_weight_key_order [simp]: "pairs_weight (key_order serial flags kvs) = pairs_weight kvs"
proof -
  have "mset (map (weight \<circ> snd) (key_order serial flags kvs)) = mset (map (weight \<circ> snd) kvs)"
    by (simp add: key_order_def)
  then show ?thesis unfolding pairs_weight_def by (metis sum_mset_sum_list)
qed

lemma weight_items: "weight (JArray xs) = Suc (items_weight xs)"
  by (simp add: items_weight_def)

lemma weight_pairs: "weight (JObject kvs) = Suc (pairs_weight kvs)"
  by (simp add: pairs_weight_def comp_def map_prod_def case_prod_beta)

definition separator :: "nat \<Rightarrow> string" where
  "separator flags = (if flags AND JSON_COMPACT \<noteq> 0 then '':'' else '': '')"

text \<open>The result of \<open>dump_string\<close> for a key is not looked at.\<close>

definition dump_key :: "nat \<Rightarrow> 'd dump_callback \<Rightarrow> string \<Rightarrow> 'd \<Rightarrow> (int \<times> 'd) option" where
  "dump_key flags dump key d =
     (case dump_string flags dump (str_bytes key) d of None \<Rightarrow> None | Some (r, d) \<Rightarrow> Some (0, d))"

function do_dump :: "serials \<Rightarrow> nat \<Rightarrow> 'd dump_callback \<Rightarrow> nat \<Rightarrow> json \<Rightarrow> 'd \<Rightarrow> (int \<times> 'd) option"
  and do_dump_items :: "serials \<Rightarrow> nat \<Rightarrow> 'd dump_callback \<Rightarrow> nat \<Rightarrow> json list \<Rightarrow> 'd \<Rightarrow> (int \<times> 'd) option"
  and do_dump_pairs :: "serials \<Rightarrow> nat \<Rightarrow> 'd dump_callback \<Rightarrow> nat \<Rightarrow> (string \<times> json) list \<Rightarrow> 'd \<Rightarrow> (int \<times> 'd) option"
where
  "do_dump serial flags dump depth v d =
     (case v of
        JNull \<Rightarrow> dump_str dump ''null'' d
      | JTrue \<Rightarrow> dump_str dump ''true'' d
      | JFalse \<Rightarrow> dump_str dump ''false'' d
      | JInteger i \<Rightarrow>
          if length (int_string i) \<ge> MAX_INTEGER_STR_LENGTH then Some (- 1, d)
          else dump_str dump (int_string i) d
      | JReal r \<Rightarrow>
          (case jsonp_dtostr MAX_REAL_STR_LENGTH r of None \<Rightarrow> Some (- 1, d) | Some s \<Rightarrow> dump_str dump s d)
      | JString s \<Rightarrow> dump_string flags dump (str_bytes s) d
      | JArray xs \<Rightarrow>
          dthen (dump_str dump ''['' d) (\<lambda>d.
            if xs = [] then dump_str dump '']'' d
            else dthen (dump_indent flags (depth + 1) False dump d) (\<lambda>d.
              dthen (do_dump_items serial flags dump depth xs d) (\<lambda>d. dump_str dump '']'' d)))
      | JObject kvs \<Rightarrow>
          dthen (dump_str dump ''{'' d) (\<lambda>d.
            if kvs = [] then dump_str dump ''}'' d
            else dthen (dump_indent flags (depth + 1) False dump d) (\<lambda>d.
              dthen (do_dump_pairs serial flags dump depth (key_order serial flags kvs) d) (\<lambda>d. dump_str dump ''}'' d))))"
| "do_dump_items serial flags dump depth [] d = Some (0, d)"
| "do_dump_items serial flags dump depth (x # xs) d =
     dthen (do_dump serial flags dump (depth + 1) x d) (\<lambda>d.
       if xs \<noteq> [] then dthen (dump_str dump '','' d) (\<lambda>d.
         dthen (dump_indent flags (depth + 1) True dump d) (\<lambda>d. do_dump_items serial flags dump depth xs d))
       else dump_indent flags depth False dump d)"
| "do_dump_pairs serial flags dump depth [] d = Some (0, d)"
| "do_dump_pairs serial flags dump depth (kv # kvs) d =
     dthen (dump_key flags dump (fst kv) d) (\<lambda>d.
     dthen (dump_str dump (separator flags) d) (\<lambda>d.
     dthen (do_dump serial flags dump (depth + 1) (snd kv) d) (\<lambda>d.
       if kvs \<noteq> [] then dthen (dump_str dump '','' d) (\<lambda>d.
         dthen (dump_indent flags (depth + 1) True dump d) (\<lambda>d. do_dump_pairs serial flags dump depth kvs d))
       else dump_indent flags depth False dump d)))"
  by pat_completeness auto
termination
  by (relation "measure (\<lambda>x. case x of
        Inl (serial, flags, dump, depth, v, d) \<Rightarrow> 2 * weight v
      | Inr (Inl (serial, flags, dump, depth, xs, d)) \<Rightarrow> 2 * items_weight xs + 1
      | Inr (Inr (serial, flags, dump, depth, kvs, d)) \<Rightarrow> 2 * pairs_weight kvs + 1)")
    (auto simp: weight_items weight_pairs simp del: weight.simps(7,8))

declare do_dump.simps [simp del]

definition json_dump_callback :: "serials \<Rightarrow> nat \<Rightarrow> 'd dump_callback \<Rightarrow> json option \<Rightarrow> 'd \<Rightarrow> (int \<times> 'd) option" where
  "json_dump_callback serial flags dump json d =
     (if flags AND JSON_ENCODE_ANY = 0 \<and> \<not> json_is_array json \<and> \<not> json_is_object json
      then Some (- 1, d)
      else case json of None \<Rightarrow> None | Some v \<Rightarrow> do_dump serial flags dump 0 v d)"

text \<open>\<open>Some None\<close> is the result NULL.\<close>

definition json_dumps :: "serials \<Rightarrow> json option \<Rightarrow> nat \<Rightarrow> string option option" where
  "json_dumps serial json flags =
     (case json_dump_callback serial flags dump_to_strbuffer json strbuffer_init of
        None \<Rightarrow> None
      | Some (r, strbuff) \<Rightarrow>
          if r \<noteq> 0 then Some None
          else do { str \<leftarrow> c_str (strbuffer_value strbuff); Some (Some (map char_of_byte str)) })"

end
