(* ===== verification/Json_Real.thy ===== *)
theory Json_Real
  imports Complex_Main Json_Number
begin

text \<open>
  Reals survive printing and reading. \<open>%.17g\<close> gives a decimal number that differs from the double by
  less than half a unit of its last place, and the correctly rounding \<open>strtod\<close> returns the double
  that is nearest: seventeen digits are enough because \<open>2 ^ 53 < 10 ^ 16\<close>.
\<close>

section \<open>Rounding a fraction to a double\<close>

text \<open>The quotient with its sticky bit is compared with even numbers as the fraction itself is.\<close>

definition sticky :: "nat \<Rightarrow> nat \<Rightarrow> nat" where
  "sticky num den = 2 * (num div den) + (if num mod den = 0 then 0 else 1)"

lemma sticky_less: "0 < den \<Longrightarrow> sticky num den < 2 * h \<longleftrightarrow> real num / real den < real h"
proof -
  assume den: "0 < den"
  have "sticky num den < 2 * h \<longleftrightarrow> num div den < h" by (auto simp: sticky_def)
  also have "\<dots> \<longleftrightarrow> num < h * den" using den by (rule div_less_iff_less_mult)
  also have "\<dots> \<longleftrightarrow> real num < real h * real den" by (metis of_nat_less_iff of_nat_mult)
  finally show ?thesis using den by (simp add: field_simps)
qed

lemma less_sticky: "0 < den \<Longrightarrow> 2 * h < sticky num den \<longleftrightarrow> real h < real num / real den"
proof -
  assume den: "0 < den"
  have "2 * h < sticky num den \<longleftrightarrow> h * den < num"
  proof
    assume "2 * h < sticky num den"
    then have "h < num div den \<or> h = num div den \<and> num mod den \<noteq> 0" by (auto simp: sticky_def split: if_splits)
    then show "h * den < num"
    proof
      assume "h < num div den"
      then have "Suc h * den \<le> num" using den by (simp add: less_eq_div_iff_mult_less_eq Suc_le_eq [symmetric])
      then show ?thesis using den by simp
    next
      assume "h = num div den \<and> num mod den \<noteq> 0"
      then have "num = h * den + num mod den" "0 < num mod den" by simp_all
      then show ?thesis by linarith
    qed
  next
    assume *: "h * den < num"
    then have "h \<le> num div den" using den by (simp add: less_eq_div_iff_mult_less_eq)
    moreover have "num mod den \<noteq> 0" if "h = num div den"
      using that * div_mult_mod_eq [of num den] by (metis add.right_neutral less_irrefl)
    ultimately show "2 * h < sticky num den" by (cases "h < num div den") (auto simp: sticky_def)
  qed
  also have "\<dots> \<longleftrightarrow> real h * real den < real num" by (metis of_nat_less_iff of_nat_mult)
  finally show ?thesis using den by (simp add: field_simps)
qed

lemma round_shift_Suc:
  "round_shift M (int (Suc s)) = (let d = 2 ^ Suc s; q = M div d; r = M mod d
     in if 2 * r < d then q else if d < 2 * r then q + 1 else q + q mod 2)"
  unfolding round_shift_def nat_int by (rule if_not_P) simp

lemma round_shift_near:
  assumes "n * 2 ^ Suc s < M + 2 ^ s" "M < n * 2 ^ Suc s + 2 ^ s"
  shows "round_shift M (int (Suc s)) = n"
proof (cases "n * 2 ^ Suc s \<le> M")
  case True
  then have "M = (M - n * 2 ^ Suc s) + n * 2 ^ Suc s" "M - n * 2 ^ Suc s < 2 ^ s" using assms(2) by simp_all
  then have "M div 2 ^ Suc s = n" "M mod 2 ^ Suc s < 2 ^ s"
    using divmod_add [of "M - n * 2 ^ Suc s" "2 ^ Suc s" n] by simp_all
  then show ?thesis by (simp add: round_shift_Suc Let_def del: of_nat_Suc)
next
  case False
  then obtain n' where n: "n = Suc n'" by (cases n) auto
  define r where "r = M - n' * 2 ^ Suc s"
  have "n' * 2 ^ Suc s \<le> M" using assms(1) n by simp
  then have "M = r + n' * 2 ^ Suc s" "2 ^ s < r" "r < 2 ^ Suc s" using assms(1) n False by (simp_all add: r_def)
  then have "M div 2 ^ Suc s = n'" "M mod 2 ^ Suc s = r"
    using divmod_add [of r "2 ^ Suc s" n'] by simp_all
  then show ?thesis using \<open>2 ^ s < r\<close> n by (simp add: round_shift_Suc Let_def del: of_nat_Suc)
qed

text \<open>The rounding step for a fraction \<open>num / den\<close> that is near \<open>n * 2 ^ j\<close>.\<close>

lemma round_sticky:
  assumes "0 < den" "real n * 2 ^ j - 2 ^ j / 2 < real num / real den" "real num / real den < real n * 2 ^ j + 2 ^ j / 2" "0 < j"
  shows "round_shift (sticky num den) (int j + 1) = n"
proof -
  obtain s where j: "j = Suc s" using assms(4) by (cases j) auto
  have "real num / real den < real (n * 2 ^ j + 2 ^ s)" using assms(3) j by simp
  then have hi: "sticky num den < 2 * (n * 2 ^ j + 2 ^ s)" using sticky_less [OF assms(1)] by blast
  have lo: "n * 2 ^ Suc j < sticky num den + 2 ^ j"
  proof (cases n)
    case 0
    then show ?thesis by simp
  next
    case (Suc n')
    have "n' * 2 ^ j + 2 ^ s + 2 ^ s = n * 2 ^ j" using Suc j by simp
    then have "real (n' * 2 ^ j + 2 ^ s) = real n * 2 ^ j - 2 ^ j / 2" using j
      by (metis (no_types, lifting) add_diff_cancel_right' nonzero_mult_div_cancel_left of_nat_add of_nat_mult of_nat_numeral of_nat_power power_Suc zero_neq_numeral)
    then have "real (n' * 2 ^ j + 2 ^ s) < real num / real den" using assms(2) by linarith
    then have "2 * (n' * 2 ^ j + 2 ^ s) < sticky num den" using less_sticky [OF assms(1)] by blast
    then show ?thesis using Suc j by simp
  qed
  have "round_shift (sticky num den) (int (Suc j)) = n" by (rule round_shift_near) (use lo hi j in simp_all)
  then show ?thesis by (simp add: add.commute)
qed

text \<open>The number of bits of the quotient.\<close>

lemma bitlen_sticky: "0 < den \<Longrightarrow> bitlen (sticky num den) \<le> Suc n \<longleftrightarrow> real num / real den < 2 ^ n"
  using sticky_less [of den num "2 ^ n"] by (simp add: bitlen_le_iff)

lemma ratio_scale:
  "real (p * 2 ^ nat k) / real (q * 2 ^ nat (- k)) = real p / real q * 2 powi k"
  by (cases "0 \<le> k") (simp_all add: power_int_def field_simps)

lemma bitlen_bounds: "0 < n \<Longrightarrow> 2 ^ (bitlen n - 1) \<le> n \<and> n < 2 ^ bitlen n"
  using bitlen_le_iff [of n "bitlen n"] bitlen_le_iff [of n "bitlen n - 1"] bitlen_le_iff [of n 0]
  by (cases "bitlen n") auto

lemma ratio_bits:
  assumes "0 < p" "0 < q" "k = int (bitlen q) - int (bitlen p) + 60"
  shows "2 ^ 59 < real p / real q * 2 powi k"
proof -
  have p: "2 powi (int (bitlen p) - 1) \<le> real p"
  proof -
    have "bitlen p \<noteq> 0" using assms(1) bitlen_le_iff [of p 0] by auto
    then have "2 powi (int (bitlen p) - 1) = real (2 ^ (bitlen p - 1))" by (simp add: power_int_def nat_diff_distrib)
    then show ?thesis using bitlen_bounds [OF assms(1)] of_nat_le_iff [where 'a = real, of "2 ^ (bitlen p - 1)" p] by simp
  qed
  have "real q < 2 powi int (bitlen q)"
    using bitlen_bounds [OF assms(2)] of_nat_less_iff [where 'a = real, of q "2 ^ bitlen q"] by simp
  then have "2 ^ 59 * real q < 2 ^ 59 * 2 powi int (bitlen q)" by simp
  also have "\<dots> = 2 powi (59 + int (bitlen q))" by (simp add: power_int_add)
  also have "\<dots> = 2 powi (int (bitlen p) - 1 + k)" using assms(3) by (intro arg_cong [where f = "power_int 2"]) simp
  also have "\<dots> = 2 powi (int (bitlen p) - 1) * 2 powi k" by (simp add: power_int_add)
  also have "\<dots> \<le> real p * 2 powi k" using p by (intro mult_right_mono) simp_all
  finally have "2 ^ 59 * real q < real p * 2 powi k" .
  then show ?thesis using assms(2) by (simp add: field_simps)
qed

text \<open>A fraction that is near a finite magnitude is rounded to it. Below a power of two the spacing is
  half as wide.\<close>

lemma pack_near:
  assumes den: "0 < den" and x: "x = real num / real den" and j: "e + k = int j" "7 \<le> j"
    and b: "unpack 53 (- 1074) b = (m, e)" "b < DBL_INF"
    and hi: "x < real m * 2 ^ j + 2 ^ j / 2" and lo: "real m * 2 ^ j - 2 ^ j / 2 < x"
    and lo2: "m = 2 ^ 52 \<Longrightarrow> real m * 2 ^ j - 2 ^ j / 4 < x" and x0: "0 < x"
  shows "pack 53 (- 1074) DBL_INF (sticky num den) (- k - 1) = b"
proof -
  define M where "M = sticky num den"
  have mb: "bitlen m \<le> 53" "- 1074 \<le> e" "e = - 1074 \<or> bitlen m = 53" "m + nat (e + 1074) * 2 ^ 52 = b"
    using unpack_bounds [OF _ b(1)] by simp_all
  define t where "t = max (int (bitlen M) + (- k - 1) - int 53) (- 1074)"
  have "M \<noteq> 0" using less_sticky [OF den, of 0 num] x0 x by (auto simp: M_def)
  then have pk: "pack 53 (- 1074) DBL_INF M (- k - 1) = min DBL_INF (round_shift M (t + k + 1) + nat (t + 1074) * 2 ^ 52)"
    by (simp add: pack_def Let_def t_def algebra_simps)
  have bl: "bitlen M \<le> Suc n \<longleftrightarrow> x < 2 ^ n" for n unfolding M_def x by (rule bitlen_sticky [OF den])
  have same: ?thesis if t: "t = e"
  proof -
    have "round_shift M (int j + 1) = m" unfolding M_def
      by (rule round_sticky [OF den]) (use hi lo j(2) in \<open>simp_all add: x\<close>)
    then show ?thesis using pk t j(1) mb(4) b(2) by (simp add: algebra_simps M_def)
  qed
  have m53: "real m + 1 \<le> 2 ^ 53"
    using mb(1) of_nat_le_iff [where 'a = real, of "m + 1" "2 ^ 53"] by (simp add: bitlen_le_iff)
  show ?thesis
  proof (cases "x < 2 ^ (52 + j)")
    case False
    have "(real m + 1 / 2) * 2 ^ j \<le> 2 ^ 53 * 2 ^ j" using m53 by (intro mult_right_mono) simp_all
    then have "x < 2 ^ (53 + j)" using hi by (simp add: power_add algebra_simps)
    then have "bitlen M = 54 + j" using bl [of "52 + j"] bl [of "53 + j"] False by simp
    then show ?thesis using j(1) mb(2) by (intro same) (simp add: t_def)
  next
    case small: True
    then have le: "bitlen M \<le> 53 + j" using bl [of "52 + j"] by simp
    show ?thesis
    proof (cases "e = - 1074")
      case True
      then show ?thesis using j(1) le by (intro same) (simp add: t_def)
    next
      case False
      then have "bitlen m = 53" using mb(3) by simp
      then have "2 ^ 52 \<le> m" using bitlen_le_iff [of m 52] by simp
      moreover have "\<not> 2 ^ 52 + 1 \<le> m"
      proof
        assume "2 ^ 52 + 1 \<le> m"
        then have "2 ^ 52 + 1 \<le> real m" using of_nat_le_iff [where 'a = real, of "2 ^ 52 + 1" m] by simp
        then have "2 ^ 52 * 2 ^ j + 2 ^ j \<le> real m * 2 ^ j" using mult_right_mono [of "2 ^ 52 + 1" "real m" "2 ^ j"]
          by (simp only: distrib_right mult_1 zero_le_power zero_le_numeral)
        moreover have "0 < (2 :: real) ^ j" by simp
        ultimately show False using small lo unfolding power_add by linarith
      qed
      ultimately have m: "m = 2 ^ 52" by simp
      obtain i where i: "j = Suc i" "0 < i" using j(2) by (cases j) auto
      have xi: "2 ^ 53 * 2 ^ i - 2 ^ i / 2 < x" using lo2 m i by simp
      then have "(2 ^ 53 - 1 / 2) * 2 ^ i < x" by (simp only: left_diff_distrib)
      moreover have "2 ^ 52 * 2 ^ i \<le> (2 ^ 53 - 1 / 2) * (2 :: real) ^ i" by (intro mult_right_mono) simp_all
      ultimately have "\<not> x < 2 ^ 52 * 2 ^ i" by (meson le_less_trans less_asym)
      then have "\<not> x < 2 ^ (51 + j)" using i by (simp add: power_add)
      then have "bitlen M = 53 + j" using bl [of "51 + j"] le by simp
      then have t: "t = e - 1" using j(1) mb(2) False by (simp add: t_def)
      have "x < 2 ^ 53 * 2 ^ i" using small i by (simp add: power_add algebra_simps)
      then have "round_shift M (int i + 1) = 2 ^ 53" unfolding M_def
        by (intro round_sticky [OF den _ _ i(2)]) (use xi in \<open>simp_all add: x add_strict_increasing2\<close>)
      moreover have "t + k + 1 = int i + 1" using t j(1) i by simp
      moreover have "nat (e + 1074) = Suc (nat (t + 1074))" using t mb(2) False by simp
      ultimately show ?thesis using pk mb(4) m b(2) by (simp add: M_def)
    qed
  qed
qed

lemma dbl_of_ratio_near:
  assumes pq: "0 < p" "0 < q" and b: "unpack 53 (- 1074) b = (m, e)" "b < DBL_INF"
    and lo: "(real m - 1 / 2) * 2 powi e < real p / real q"
    and hi: "real p / real q < (real m + 1 / 2) * 2 powi e"
    and lo2: "m = 2 ^ 52 \<Longrightarrow> (real m - 1 / 4) * 2 powi e < real p / real q"
  shows "dbl_of_ratio p q = b"
proof -
  define k where "k = int (bitlen q) - int (bitlen p) + 60"
  define x where "x = real (p * 2 ^ nat k) / real (q * 2 ^ nat (- k))"
  have x: "x = real p / real q * 2 powi k" unfolding x_def by (rule ratio_scale)
  have ek: "2 powi e * 2 powi k = (2 :: real) powi (e + k)" by (simp add: power_int_add)
  have xb: "x < (real m + 1 / 2) * 2 powi (e + k)" "(real m - 1 / 2) * 2 powi (e + k) < x"
    "m = 2 ^ 52 \<Longrightarrow> (real m - 1 / 4) * 2 powi (e + k) < x"
    using mult_strict_right_mono [OF hi, of "2 powi k"] mult_strict_right_mono [OF lo, of "2 powi k"]
      mult_strict_right_mono [OF lo2, of "2 powi k"] unfolding x ek [symmetric] by (simp_all only: mult.assoc) simp_all
  have x59: "2 ^ 59 < x" unfolding x by (rule ratio_bits [OF pq k_def])
  have "real m + 1 \<le> 2 ^ 53"
    using unpack_bounds(1) [OF _ b(1)] of_nat_le_iff [where 'a = real, of "m + 1" "2 ^ 53"] by (simp add: bitlen_le_iff)
  then have m53: "real m + 1 / 2 \<le> 2 ^ 53" by simp
  have "7 \<le> e + k"
  proof (rule ccontr)
    assume "\<not> 7 \<le> e + k"
    then have "(2 :: real) powi (e + k) \<le> 2 powi 6" by (intro power_int_increasing) simp_all
    then have "(real m + 1 / 2) * 2 powi (e + k) \<le> 2 ^ 53 * 2 ^ 6" using m53 by (intro mult_mono) simp_all
    then show False using x59 xb(1) by simp
  qed
  then have j: "e + k = int (nat (e + k))" "7 \<le> nat (e + k)" by simp_all
  then have pw: "2 powi (e + k) = (2 :: real) ^ nat (e + k)" by (metis power_int_of_nat)
  have "pack 53 (- 1074) DBL_INF (sticky (p * 2 ^ nat k) (q * 2 ^ nat (- k))) (- k - 1) = b"
    using pq xb x59 by (intro pack_near [OF _ x_def j b]) (simp_all add: pw algebra_simps)
  then show ?thesis by (simp add: dbl_of_ratio_def Let_def k_def sticky_def)
qed

section \<open>Decimal texts\<close>

lemma dec_value_append: "dec_value (s @ t) = dec_value s * 10 ^ length t + dec_value t"
proof -
  let ?f = "\<lambda>v c. v * 10 + (of_char c - 48 :: nat)"
  have "foldl ?f a t = a * 10 ^ length t + foldl ?f 0 t" for a
  proof (induction t arbitrary: a)
    case (Cons c t)
    have 1: "foldl ?f a (c # t) = ?f a c * 10 ^ length t + foldl ?f 0 t" unfolding foldl_Cons by (rule Cons)
    have 2: "foldl ?f 0 (c # t) = ?f 0 c * 10 ^ length t + foldl ?f 0 t" unfolding foldl_Cons by (rule Cons)
    show ?case unfolding 1 2 by (simp add: algebra_simps)
  qed simp
  then show ?thesis unfolding dec_value_def foldl_append .
qed

lemma dec_value_single: "d < 10 \<Longrightarrow> dec_value [char_of (48 + d)] = d" "dec_value [] = 0" "dec_value ''0'' = 0"
  by (simp_all add: dec_value_def)

lemma dec_value_zeros: "dec_value (replicate k (CHR ''0'') @ s) = dec_value s" "dec_value (replicate k (CHR ''0'')) = 0"
proof -
  show z: "dec_value (replicate k (CHR ''0'')) = 0" by (induction k) (simp_all add: dec_value_def)
  show "dec_value (replicate k (CHR ''0'') @ s) = dec_value s" by (simp add: dec_value_append z)
qed

lemma digit_char_of: "d < (10 :: nat) \<Longrightarrow> is_digit (char_of (48 + d))"
  by (simp add: is_digit_def)

lemma dec_string_digits: "digits (dec_string n)"
proof (induction n rule: dec_string.induct)
  case (1 n)
  then show ?case using digit_char_of [of n] digit_char_of [of "n mod 10"]
    by (cases "n < 10") (auto simp: dec_string.simps [of n] digits_def)
qed

lemma dec_value_dec_string [simp]: "dec_value (dec_string n) = n"
proof (induction n rule: dec_string.induct)
  case (1 n)
  then show ?case
    by (cases "n < 10") (simp_all add: dec_string.simps [of n] dec_value_append dec_value_single)
qed

lemma dec_string_length: "0 < n \<Longrightarrow> 10 ^ (length (dec_string n) - 1) \<le> n \<and> n < 10 ^ length (dec_string n)"
proof (induction n rule: dec_string.induct)
  case (1 n)
  show ?case
  proof (cases "n < 10")
    case True
    then show ?thesis using 1(2) by (simp add: dec_string.simps [of n])
  next
    case False
    let ?l = "length (dec_string (n div 10))"
    have l: "length (dec_string n) = Suc ?l" "0 < ?l"
      using False dec_string_digits [of "n div 10"] by (simp_all add: dec_string.simps [of n] digits_def)
    have "10 ^ (?l - 1) \<le> n div 10 \<and> n div 10 < 10 ^ ?l" using 1(1) False by simp
    then have "10 ^ (?l - 1) * 10 \<le> n" "n < 10 ^ ?l * 10"
      by (simp_all add: less_eq_div_iff_mult_less_eq div_less_iff_less_mult)
    moreover have "10 ^ (?l - 1) * 10 = (10 :: nat) ^ ?l" using l(2) by (cases ?l) simp_all
    ultimately show ?thesis using l(1) by (simp add: mult.commute)
  qed
qed

lemma dec_string_length_le: "n < 10 ^ k \<Longrightarrow> 0 < k \<Longrightarrow> length (dec_string n) \<le> k"
proof (cases "n = 0")
  case False
  assume "n < 10 ^ k" "0 < k"
  then have "(10 :: nat) ^ (length (dec_string n) - 1) < 10 ^ k" using dec_string_length [of n] False le_less_trans by blast
  then show ?thesis using \<open>0 < k\<close> by simp
qed (simp add: dec_string.simps [of 0])

lemma dec_string_length_eq: "10 ^ k \<le> n \<Longrightarrow> n < 10 ^ Suc k \<Longrightarrow> length (dec_string n) = Suc k"
proof -
  assume *: "10 ^ k \<le> n" "n < 10 ^ Suc k"
  then have "0 < n" using less_le_trans [of 0 "10 ^ k" n] by simp
  then have "(10 :: nat) ^ k < 10 ^ length (dec_string n)" using * dec_string_length [of n] by linarith
  then have "Suc k \<le> length (dec_string n)" by simp
  moreover have "length (dec_string n) \<le> Suc k" using *(2) by (intro dec_string_length_le) simp_all
  ultimately show ?thesis by simp
qed

text \<open>No leading zeros.\<close>

lemma dec_string_head: "0 < n \<Longrightarrow> \<exists>c cs. dec_string n = c # cs \<and> c \<noteq> CHR ''0'' \<and> is_digit c"
proof (induction n rule: dec_string.induct)
  case (1 n)
  show ?case
  proof (cases "n < 10")
    case True
    then have "char_of (48 + n) \<noteq> CHR ''0''" using 1(2) by (simp add: char_of_eq_iff take_bit_eq_mod)
    then show ?thesis using True digit_char_of [of n] by (simp add: dec_string.simps [of n])
  next
    case False
    then obtain c cs where "dec_string (n div 10) = c # cs" "c \<noteq> CHR ''0''" "is_digit c"
      using 1(1) by (auto simp: div_greater_zero_iff)
    then show ?thesis using False by (simp add: dec_string.simps [of n])
  qed
qed

section \<open>Seventeen digits\<close>

lemma dec_exp_bounds:
  assumes "0 < num" "0 < den"
  shows "10 powi dec_exp num den \<le> real num / real den" "real num / real den < 10 powi (dec_exp num den + 1)"
proof -
  have "10 powi dec_exp num den \<le> real num / real den \<and> real num / real den < 10 powi (dec_exp num den + 1)"
  proof (cases "den \<le> num")
    case True
    let ?q = "num div den"
    let ?l = "length (dec_string ?q)"
    have "0 < ?q" using True assms(2) by (simp add: div_greater_zero_iff)
    then have q: "10 ^ (?l - 1) \<le> ?q" "?q < 10 ^ ?l" using dec_string_length by blast+
    have "0 < ?l" using dec_string_digits [of ?q] by (simp add: digits_def)
    then have X: "dec_exp num den = int (?l - 1)" "dec_exp num den + 1 = int ?l" using True by (cases ?l; simp add: dec_exp_def)+
    have "10 ^ (?l - 1) * den \<le> num" "num < 10 ^ ?l * den"
      using q assms(2) by (simp_all add: less_eq_div_iff_mult_less_eq div_less_iff_less_mult)
    then have "real (10 ^ (?l - 1) * den) \<le> real num" "real num < real (10 ^ ?l * den)" by (simp_all only: of_nat_le_iff of_nat_less_iff)
    then show ?thesis using assms(2) unfolding X(2) unfolding X(1) by (simp add: field_simps)
  next
    case False
    let ?q = "(den - 1) div num"
    let ?l = "length (dec_string ?q)"
    have "0 < ?q" using False assms by (simp add: div_greater_zero_iff)
    then have q: "10 ^ (?l - 1) \<le> ?q" "?q < 10 ^ ?l" using dec_string_length by blast+
    have "0 < ?l" using dec_string_digits [of ?q] by (simp add: digits_def)
    then have X: "dec_exp num den = - int ?l" "dec_exp num den + 1 = - int (?l - 1)" using False by (cases ?l; simp add: dec_exp_def)+
    have "10 ^ (?l - 1) * num \<le> den - 1" "den - 1 < 10 ^ ?l * num"
      using q assms(1) by (simp_all add: less_eq_div_iff_mult_less_eq div_less_iff_less_mult)
    then have "10 ^ (?l - 1) * num < den" "den \<le> 10 ^ ?l * num" using assms(2) by linarith+
    then have "real (10 ^ (?l - 1) * num) < real den" "real den \<le> real (10 ^ ?l * num)" by (simp_all only: of_nat_le_iff of_nat_less_iff)
    then show ?thesis using assms unfolding X(2) unfolding X(1) by (simp add: power_int_minus field_simps)
  qed
  then show "10 powi dec_exp num den \<le> real num / real den" "real num / real den < 10 powi (dec_exp num den + 1)" by blast+
qed

lemma round_div_near:
  assumes "0 < b"
  shows "\<bar>real (round_div a b) - real a / real b\<bar> \<le> 1 / 2"
proof -
  define q where "q = a div b"
  define r where "r = a mod b"
  have "a = q * b + r" unfolding q_def r_def by (rule div_mult_mod_eq [symmetric])
  then have a: "real a / real b = real q + real r / real b" using assms by (simp add: field_simps)
  have r: "0 \<le> real r / real b" "real r / real b < 1" using assms by (simp_all add: r_def)
  have "real r / real b < 1 / 2 \<longleftrightarrow> real (2 * r) < real b" "1 / 2 < real r / real b \<longleftrightarrow> real b < real (2 * r)"
    using assms by (simp_all add: field_simps)
  then have h: "real r / real b < 1 / 2 \<longleftrightarrow> 2 * r < b" "1 / 2 < real r / real b \<longleftrightarrow> b < 2 * r"
    by (simp_all only: of_nat_less_iff)
  have "round_div a b = (if 2 * r < b then q else if b < 2 * r then q + 1 else q + q mod 2)"
    by (simp add: round_div_def Let_def q_def r_def)
  moreover have "q mod 2 = 0 \<or> q mod 2 = 1" by presburger
  ultimately have "round_div a b = q \<and> \<not> b < 2 * r \<or> round_div a b = q + 1 \<and> \<not> 2 * r < b" by auto
  then show ?thesis unfolding h [symmetric] using a r by (elim disjE conjE) (simp_all add: abs_le_iff)
qed

lemma round_div_bounds:
  assumes "0 < b" "n * b \<le> a" "a < k * b"
  shows "n \<le> round_div a b" "round_div a b \<le> k"
proof -
  have "n \<le> a div b" "a div b < k" using assms by (simp_all add: less_eq_div_iff_mult_less_eq div_less_iff_less_mult)
  moreover have "a div b \<le> round_div a b" "round_div a b \<le> a div b + 1" by (auto simp: round_div_def Let_def)
  ultimately show "n \<le> round_div a b" "round_div a b \<le> k" by linarith+
qed

lemma sig17_near:
  assumes "0 < num" "0 < den" "sig17 num den = (D, X)"
  shows "10 ^ 16 \<le> D" "D < 10 ^ 17" "\<bar>real D * 10 powi (X - 16) - real num / real den\<bar> \<le> real num / real den / (2 * 10 ^ 16)"
proof -
  define Y where "Y = dec_exp num den"
  define a where "a = num * 10 ^ nat (16 - Y)"
  define b where "b = den * 10 ^ nat (Y - 16)"
  define v where "v = real num / real den"
  have b0: "0 < b" using assms(2) by (simp add: b_def)
  have ab: "real a / real b = v * 10 powi (16 - Y)"
    unfolding a_def b_def v_def by (cases "Y \<le> 16") (simp_all add: power_int_def field_simps)
  have v: "10 powi Y \<le> v" "v < 10 powi (Y + 1)" unfolding v_def Y_def by (rule dec_exp_bounds [OF assms(1,2)])+
  have p: "10 powi Y * 10 powi (16 - Y) = (10 :: real) ^ 16" "10 powi (Y + 1) * 10 powi (16 - Y) = (10 :: real) ^ 17"
    by (simp_all flip: power_int_add)
  have "(10 :: real) ^ 16 \<le> real a / real b" "real a / real b < 10 ^ 17"
    unfolding ab p [symmetric] using v by (simp_all add: mult_right_mono mult_strict_right_mono)
  then have "real (10 ^ 16 * b) \<le> real a" "real a < real (10 ^ 17 * b)" using b0 by (simp_all add: field_simps)
  then have D: "10 ^ 16 \<le> round_div a b" "round_div a b \<le> 10 ^ 17"
    using round_div_bounds [OF b0, of "10 ^ 16" a "10 ^ 17"] by (simp_all only: of_nat_le_iff of_nat_less_iff)
  have s: "(D, X) = (if round_div a b = 10 ^ 17 then (10 ^ 16, Y + 1) else (round_div a b, Y))"
    by (simp only: assms(3) [symmetric] sig17_def Let_def a_def b_def Y_def)
  then show "10 ^ 16 \<le> D" "D < 10 ^ 17" using D by (auto split: if_splits)
  have val: "real D * 10 powi (X - 16) = real (round_div a b) * 10 powi (Y - 16)"
  proof (cases "round_div a b = 10 ^ 17")
    case True
    have X: "X - 16 = 1 + (Y - 16)" using s True by simp
    have "(10 :: real) powi (X - 16) = 10 * 10 powi (Y - 16)" unfolding X by (subst power_int_add) simp_all
    then show ?thesis using True s by simp
  qed (use s in simp)
  have "\<bar>real (round_div a b) - v * 10 powi (16 - Y)\<bar> \<le> 1 / 2" using round_div_near [OF b0, of a] by (simp add: ab)
  then have "\<bar>real (round_div a b) - v * 10 powi (16 - Y)\<bar> * 10 powi (Y - 16) \<le> 1 / 2 * 10 powi (Y - 16)"
    by (intro mult_right_mono) simp_all
  moreover have "\<bar>real (round_div a b) - v * 10 powi (16 - Y)\<bar> * 10 powi (Y - 16) =
      \<bar>real (round_div a b) * 10 powi (Y - 16) - v\<bar>"
  proof -
    have "10 powi (16 - Y) * 10 powi (Y - 16) = (1 :: real)" by (simp flip: power_int_add)
    then have "(real (round_div a b) - v * 10 powi (16 - Y)) * 10 powi (Y - 16) = real (round_div a b) * 10 powi (Y - 16) - v"
      by (simp only: left_diff_distrib mult.assoc)
    moreover have "\<bar>y\<bar> * 10 powi (Y - 16) = \<bar>y * 10 powi (Y - 16)\<bar>" for y :: real by (simp add: abs_mult)
    ultimately show ?thesis by (simp only:)
  qed
  moreover have "1 / 2 * 10 powi (Y - 16) \<le> v / (2 * 10 ^ 16)" using v(1) by (simp add: power_int_diff)
  ultimately show "\<bar>real D * 10 powi (X - 16) - real num / real den\<bar> \<le> real num / real den / (2 * 10 ^ 16)"
    unfolding val v_def [symmetric] by linarith
qed

text \<open>A decimal number that equals the seventeen digits is read as the double.\<close>

lemma dbl_frac_value:
  assumes "unpack 53 (- 1074) (dbl_mag d) = (m, e)" "dbl_frac d = (num, den)"
  shows "real num / real den = real m * 2 powi e" "0 < den" "num = 0 \<longleftrightarrow> m = 0"
  using assms by (auto simp: dbl_frac_def Let_def power_int_def field_simps)

lemma dbl_of_dec_near:
  assumes fin: "dbl_finite d" "dbl_mag d \<noteq> 0" and D: "dbl_frac d = (num, den)" "sig17 num den = (D, X)"
    and eq: "real a * 10 powi i = real D * 10 powi (X - 16)"
  shows "dbl_of_dec a i = dbl_mag d"
proof -
  obtain m e where me: "unpack 53 (- 1074) (dbl_mag d) = (m, e)" by fastforce
  note f = dbl_frac_value [OF me D(1)]
  have m0: "m \<noteq> 0" using unpack_bounds(5) [OF _ me] fin(2) by auto
  have m53: "real m < 2 ^ 53"
    using unpack_bounds(1) [OF _ me] of_nat_less_iff [where 'a = real, of m "2 ^ 53"] by (simp add: bitlen_le_iff)
  define v where "v = real m * 2 powi e"
  define w where "w = real a * 10 powi i"
  have near: "\<bar>w - v\<bar> \<le> v / (2 * 10 ^ 16)" "10 ^ 16 \<le> D"
    using sig17_near [OF _ f(2) D(2)] f m0 by (simp_all add: w_def v_def eq)
  have "0 < w" unfolding w_def eq using near(2) by simp
  then have a: "0 < a" by (auto simp: w_def intro: ccontr)
  have err: "v / (2 * 10 ^ 16) < c * 2 powi e" if "real m < c * (2 * 10 ^ 16)" for c
  proof -
    have "real m * 2 powi e < c * (2 * 10 ^ 16) * 2 powi e" using that by (intro mult_strict_right_mono) simp_all
    then show ?thesis by (simp add: v_def field_simps)
  qed
  have half: "v / (2 * 10 ^ 16) < 1 / 2 * 2 powi e" using m53 by (intro err) simp
  have w: "real (a * 10 ^ nat i) / real (10 ^ nat (- i)) = w"
    by (cases "0 \<le> i") (simp_all add: w_def power_int_def field_simps)
  show ?thesis unfolding dbl_of_dec_def
  proof (rule dbl_of_ratio_near [OF _ _ me])
    show "0 < a * 10 ^ nat i" "0 < (10 :: nat) ^ nat (- i)" using a by simp_all
    show "dbl_mag d < DBL_INF" using fin by (simp add: dbl_finite_def)
    show "(real m - 1 / 2) * 2 powi e < real (a * 10 ^ nat i) / real (10 ^ nat (- i))"
      unfolding w left_diff_distrib using near(1) half unfolding v_def [symmetric] by linarith
    show "real (a * 10 ^ nat i) / real (10 ^ nat (- i)) < (real m + 1 / 2) * 2 powi e"
      unfolding w distrib_right using near(1) half unfolding v_def [symmetric] by linarith
    assume "m = 2 ^ 52"
    then have "v / (2 * 10 ^ 16) < 1 / 4 * 2 powi e" by (intro err) simp
    then show "(real m - 1 / 4) * 2 powi e < real (a * 10 ^ nat i) / real (10 ^ nat (- i))"
      unfolding w left_diff_distrib using near(1) unfolding v_def [symmetric] by linarith
  qed
qed

section \<open>The text of a real\<close>

text \<open>The parts of a real number as \<open>jsonp_dtostr\<close> prints it: no superfluous zero before the point, and a
  fraction or an exponent, so that it is not read as an integer.\<close>

definition real_parts :: "string \<Rightarrow> string \<Rightarrow> string \<Rightarrow> bool" where
  "real_parts ip fr ex \<longleftrightarrow> digits ip \<and> (ip = ''0'' \<or> hd ip \<noteq> CHR ''0'') \<and> fraction_text fr \<and> exponent_text ex \<and>
     (fr \<noteq> [] \<or> ex \<noteq> [])"

text \<open>The value of the parts.\<close>

definition parts_value :: "string \<Rightarrow> string \<Rightarrow> string \<Rightarrow> real" where
  "parts_value ip fr ex = real (dec_value (ip @ tl fr)) * 10 powi (fst (scan_exp ex) - int (length (tl fr)))"

lemma strip_zeros_replicate: "\<exists>k. s = strip_zeros s @ replicate k (CHR ''0'')"
proof -
  let ?z = "takeWhile (\<lambda>c. c = CHR ''0'') (rev s)"
  have "rev s = ?z @ dropWhile (\<lambda>c. c = CHR ''0'') (rev s)" by simp
  then have "s = strip_zeros s @ rev ?z" unfolding strip_zeros_def by (metis rev_append rev_rev_ident)
  moreover have "rev ?z = replicate (length ?z) (CHR ''0'')"
    by (intro replicate_eqI) (auto dest: set_takeWhileD)
  ultimately show ?thesis by metis
qed

lemma strip_zeros_set: "set (strip_zeros s) \<subseteq> set s"
  unfolding strip_zeros_def by (auto dest: set_dropWhileD)

lemma frac_string_text: "\<forall>c \<in> set s. is_digit c \<Longrightarrow> fraction_text (frac_string s)"
  using strip_zeros_set [of s] by (auto simp: frac_string_def fraction_text_def digits_def Let_def)

lemma frac_string_value: "parts_value ip (frac_string s) ex = real (dec_value (ip @ s)) * 10 powi (fst (scan_exp ex) - int (length s))"
proof -
  obtain k where k: "s = strip_zeros s @ replicate k (CHR ''0'')" using strip_zeros_replicate by blast
  have t: "tl (frac_string s) = strip_zeros s" by (simp add: frac_string_def Let_def)
  have l: "int (length s) = int (length (strip_zeros s)) + int k" by (subst k) simp
  have d: "dec_value (ip @ s) = dec_value (ip @ strip_zeros s) * 10 ^ k"
    by (subst k) (simp add: dec_value_append dec_value_zeros power_add algebra_simps)
  have "(10 :: real) powi (fst (scan_exp ex) - int (length (strip_zeros s))) =
      10 ^ k * 10 powi (fst (scan_exp ex) - int (length s))"
    unfolding l by (simp flip: power_int_of_nat power_int_add)
  then show ?thesis unfolding parts_value_def t d by simp
qed

lemma scan_exp_simps [simp]: "fst (scan_exp []) = 0"
  by (simp add: scan_exp_def)

lemma parts_value_zero: "parts_value ip ''.0'' ex = parts_value ip [] ex"
proof -
  have "(10 :: real) powi (fst (scan_exp ex) - 1) * 10 = 10 powi fst (scan_exp ex)"
    by (simp add: power_int_diff)
  then show ?thesis by (simp add: parts_value_def dec_value_append dec_value_single)
qed

lemma scan_exp_value:
  "fst (scan_exp (CHR ''e'' # (if X < 0 then ''-'' else []) @ dec_string (nat \<bar>X\<bar>))) = X"
proof -
  obtain c cs where c: "dec_string (nat \<bar>X\<bar>) = c # cs" "is_digit c" "\<forall>c \<in> set cs. is_digit c"
    using dec_string_digits [of "nat \<bar>X\<bar>"] by (cases "dec_string (nat \<bar>X\<bar>)") (auto simp: digits_def)
  have v: "dec_value (c # cs) = nat \<bar>X\<bar>" using dec_value_dec_string [of "nat \<bar>X\<bar>"] c(1) by simp
  show ?thesis using c is_digit_other [OF c(2)] v takeWhile_eq_all_conv [THEN iffD2, OF c(3)]
    by (simp add: scan_exp_def Let_def del: takeWhile_eq_all_conv)
qed

lemma exponent_text_value: "exponent_text (CHR ''e'' # (if X < 0 then ''-'' else []) @ dec_string (nat \<bar>X\<bar>))"
  unfolding exponent_text_def using dec_string_digits [of "nat \<bar>X\<bar>"]
  by (intro disjI2 exI [of _ "CHR ''e''"] exI [of _ "if X < 0 then ''-'' else []"] exI [of _ "dec_string (nat \<bar>X\<bar>)"]) simp

lemma strip_exp_text:
  assumes "CHR ''e'' \<notin> set pre" "X \<noteq> 0"
  shows "strip_exp (pre @ exp_string X) = pre @ CHR ''e'' # (if X < 0 then ''-'' else []) @ dec_string (nat \<bar>X\<bar>)"
proof -
  let ?s = "dec_string (nat \<bar>X\<bar>)"
  let ?z = "replicate (2 - length ?s) (CHR ''0'')"
  obtain c cs where c: "?s = c # cs" "c \<noteq> CHR ''0''" using dec_string_head [of "nat \<bar>X\<bar>"] assms(2) by auto
  have e: "exp_string X = CHR ''e'' # (if X < 0 then ''-'' else ''+'') @ ?z @ ?s" by (simp add: exp_string_def Let_def)
  have p: "takeWhile (\<lambda>c. c \<noteq> CHR ''e'') (pre @ exp_string X) = pre"
    unfolding e using assms(1) by (subst takeWhile_append2) auto
  have "dropWhile (\<lambda>c. c = CHR ''0'') (?z @ ?s) = ?s" using c by (subst dropWhile_append2) auto
  then show ?thesis unfolding strip_exp_def p Let_def unfolding e by simp
qed

lemma strip_exp_id: "CHR ''e'' \<notin> set s \<Longrightarrow> strip_exp s = s"
  by (simp add: strip_exp_def)

lemma digits_no_mark: "\<forall>c \<in> set s. is_digit c \<Longrightarrow> CHR ''.'' \<notin> set s \<and> CHR ''e'' \<notin> set s"
  by auto

lemma frac_string_marks:
  assumes "\<forall>c \<in> set s. is_digit c"
  shows "CHR ''e'' \<notin> set (frac_string s)" "CHR ''.'' \<in> set (frac_string s) \<longleftrightarrow> frac_string s \<noteq> []"
  using strip_zeros_set [of s] digits_no_mark [OF assms] by (auto simp: frac_string_def Let_def)

lemma frac_string_length: "length (frac_string s) \<le> Suc (length s)"
proof -
  obtain k where "s = strip_zeros s @ replicate k (CHR ''0'')" using strip_zeros_replicate by blast
  then have "length (strip_zeros s) \<le> length s" by (metis le_add1 length_append)
  then show ?thesis by (simp add: frac_string_def Let_def)
qed

text \<open>A text without exponent gets \<open>.0\<close> if it has no point.\<close>

lemma dtostr_plain:
  assumes d: "fmt_g17 d = sg @ ip @ frac_string s" and sg: "CHR ''.'' \<notin> set sg \<and> CHR ''e'' \<notin> set sg" "length sg \<le> 1"
    and ip: "digits ip" "ip = ''0'' \<or> hd ip \<noteq> CHR ''0''" "length ip + length s \<le> 40" and s: "\<forall>c \<in> set s. is_digit c" and sz: "64 \<le> sz"
  shows "\<exists>fr. jsonp_dtostr sz d = Some (sg @ ip @ fr) \<and> real_parts ip fr [] \<and> parts_value ip fr [] = parts_value ip (frac_string s) []"
proof -
  have m: "CHR ''.'' \<notin> set ip \<and> CHR ''e'' \<notin> set ip" using digits_no_mark ip(1) by (simp add: digits_def)
  have l: "length (fmt_g17 d) \<le> 42" using d sg(2) ip(3) frac_string_length [of s] by simp
  have e: "CHR ''e'' \<notin> set (fmt_g17 d)" using d sg(1) m frac_string_marks(1) [OF s] by simp
  have z: "fraction_text ''.0''" by (auto simp: fraction_text_def digits_def is_digit_def intro!: exI [of _ "''0''"])
  show ?thesis
  proof (cases "frac_string s = []")
    case True
    then have "jsonp_dtostr sz d = Some (sg @ ip @ ''.0'')"
      using d l e sz m sg(1) by (simp add: jsonp_dtostr_def Let_def strip_exp_id)
    moreover have "parts_value ip ''.0'' [] = parts_value ip (frac_string s) []" using True parts_value_zero by simp
    ultimately show ?thesis using ip(1,2) z by (auto simp: real_parts_def exponent_text_def)
  next
    case False
    then have "jsonp_dtostr sz d = Some (sg @ ip @ frac_string s)"
      using d l e sz frac_string_marks(2) [OF s] by (simp add: jsonp_dtostr_def Let_def strip_exp_id)
    then show ?thesis using False ip(1,2) frac_string_text [OF s] by (auto simp: real_parts_def exponent_text_def)
  qed
qed

lemma dtostr_exp:
  assumes d: "fmt_g17 d = sg @ ip @ frac_string s @ exp_string X" and sg: "CHR ''e'' \<notin> set sg" "length sg \<le> 1"
    and ip: "digits ip" "hd ip \<noteq> CHR ''0''" "length ip + length s \<le> 40" and s: "\<forall>c \<in> set s. is_digit c" and sz: "64 \<le> sz"
    and X: "X \<noteq> 0" "\<bar>X\<bar> < 10000"
  shows "\<exists>ex. jsonp_dtostr sz d = Some (sg @ ip @ frac_string s @ ex) \<and> real_parts ip (frac_string s) ex \<and> fst (scan_exp ex) = X"
proof -
  have "length (dec_string (nat \<bar>X\<bar>)) \<le> 4" using X(2) by (intro dec_string_length_le) simp_all
  then have "2 - length (dec_string (nat \<bar>X\<bar>)) + length (dec_string (nat \<bar>X\<bar>)) \<le> 4" by linarith
  then have "length (exp_string X) \<le> 6" by (cases "X < 0") (simp_all add: exp_string_def Let_def)
  then have l: "length (fmt_g17 d) \<le> 48" using d sg(2) ip(3) frac_string_length [of s] by simp
  have m: "CHR ''e'' \<notin> set (sg @ ip @ frac_string s)"
    using sg(1) digits_no_mark [of ip] ip(1) frac_string_marks(1) [OF s] by (simp add: digits_def)
  have "CHR ''e'' \<in> set (fmt_g17 d)" unfolding d by (simp add: exp_string_def Let_def)
  then have "jsonp_dtostr sz d = Some (strip_exp ((sg @ ip @ frac_string s) @ exp_string X))"
    using l sz d by (simp add: jsonp_dtostr_def Let_def)
  then have "jsonp_dtostr sz d = Some (sg @ ip @ frac_string s @ CHR ''e'' # (if X < 0 then ''-'' else []) @ dec_string (nat \<bar>X\<bar>))"
    unfolding strip_exp_text [OF m X(1)] by simp
  then show ?thesis
    using scan_exp_value [of X] exponent_text_value [of X] frac_string_text [OF s] ip(1,2)
    by (auto simp: real_parts_def simp del: scan_exp_simps)
qed

text \<open>The exponent of the seventeen digits of a finite double is moderate.\<close>

lemma dec_exp_small:
  assumes "10 powi Y \<le> v" "v < 10 powi (Y + 1)" "2 powi (- 1074) \<le> v" "v < (2 :: real) powi 1024"
  shows "\<bar>Y\<bar> < 1100"
proof -
  have ten: "i < j" if "(10 :: real) powi i < 10 powi j" for i j
    using that power_int_increasing [of j i "10 :: real"] by (cases "i < j") simp_all
  have "(2 :: real) powi int n \<le> 10 powi int n" "(10 :: real) powi (- int n) \<le> 2 powi (- int n)" for n
    by (simp_all add: power_int_minus le_imp_inverse_le power_mono)
  from this(1) [of 1024] this(2) [of 1074]
  have "(2 :: real) powi 1024 \<le> 10 powi 1024" "(10 :: real) powi (- 1074) \<le> 2 powi (- 1074)"
    unfolding of_nat_numeral .
  then have "Y < 1024" "- 1074 < Y + 1"
    using le_less_trans [OF assms(1) less_le_trans [OF assms(4)]] ten [of Y 1024]
      le_less_trans [OF order_trans [OF _ assms(3)] assms(2)] ten [of "- 1074" "Y + 1"] by blast+
  then show ?thesis by simp
qed

lemma dbl_value_bounds:
  assumes "dbl_finite d" "dbl_mag d \<noteq> 0" "unpack 53 (- 1074) (dbl_mag d) = (m, e)"
  shows "2 powi (- 1074) \<le> real m * 2 powi e" "real m * 2 powi e < 2 powi 1024"
proof -
  have mb: "bitlen m \<le> 53" "- 1074 \<le> e" "m \<noteq> 0" using unpack_bounds [OF _ assms(3)] assms(2) by auto
  have "dbl_mag d < 2047 * 2 ^ 52" using assms(1) by (simp add: dbl_finite_def DBL_INF_def)
  then have "dbl_mag d div 2 ^ 52 < 2047" by (simp add: div_less_iff_less_mult)
  then have e: "e \<le> 971" using assms(3) by (auto simp: unpack_def Let_def split: if_splits)
  have "1 * 2 powi (- 1074) \<le> real m * (2 :: real) powi e"
    using mb by (intro mult_mono power_int_increasing) simp_all
  then show "2 powi (- 1074) \<le> real m * 2 powi e" by simp
  have "real m < 2 ^ 53" using mb(1) of_nat_less_iff [where 'a = real, of m "2 ^ 53"] by (simp add: bitlen_le_iff)
  then have "real m * 2 powi e < 2 ^ 53 * (2 :: real) powi 971"
    using e by (intro mult_less_le_imp_less power_int_increasing) simp_all
  then show "real m * 2 powi e < 2 powi 1024" by (simp flip: power_add)
qed

lemma sig17_exp:
  assumes "dbl_finite d" "dbl_mag d \<noteq> 0" "dbl_frac d = (num, den)" "sig17 num den = (D, X)"
  shows "0 < num" "0 < den" "\<bar>X\<bar> < 10000"
proof -
  obtain m e where me: "unpack 53 (- 1074) (dbl_mag d) = (m, e)" by fastforce
  note f = dbl_frac_value [OF me assms(3)]
  show n: "0 < num" "0 < den" using f unpack_bounds(5) [OF _ me] assms(2) by auto
  have "\<bar>dec_exp num den\<bar> < 1100"
    by (rule dec_exp_small [OF dec_exp_bounds [OF n]]) (use dbl_value_bounds [OF assms(1,2) me] f(1) in simp_all)
  then show "\<bar>X\<bar> < 10000" using assms(4) by (auto simp: sig17_def Let_def split: if_splits)
qed

lemma dbl_of_dec_zero: "dbl_of_dec 0 i = 0"
  by (simp add: dbl_of_dec_def dbl_of_ratio_def pack_def Let_def)

text \<open>What \<open>jsonp_dtostr\<close> prints for a finite double.\<close>

lemma dtostr_zero:
  assumes "dbl_mag d = 0" "64 \<le> sz"
  shows "\<exists>fr. jsonp_dtostr sz d = Some (sign_text (dbl_sign d) @ ''0'' @ fr) \<and> real_parts ''0'' fr [] \<and> parts_value ''0'' fr [] = 0"
proof -
  have f: "fmt_g17 d = sign_text (dbl_sign d) @ ''0'' @ frac_string []"
    using assms(1) by (simp add: fmt_g17_def sign_text_def frac_string_def strip_zeros_def DBL_INF_def)
  have "parts_value ''0'' (frac_string []) [] = 0" by (simp add: frac_string_value dec_value_single)
  moreover have "digits ''0''" by (simp add: digits_def is_digit_def)
  ultimately show ?thesis using dtostr_plain [OF f _ _ _ _ _ _ assms(2)] by (simp add: sign_text_def)
qed

lemma g17_digits_exp:
  assumes "X < - 4 \<or> 17 \<le> X"
  shows "g17_digits D X = take 1 (dec_string D) @ frac_string (drop 1 (dec_string D)) @ exp_string X"
  using assms by (simp add: g17_digits_def Let_def)

lemma g17_digits_plain:
  assumes "\<not> (X < - 4 \<or> 17 \<le> X)"
  shows "g17_digits D X = (if 0 \<le> X then take (nat X + 1) (dec_string D) @ frac_string (drop (nat X + 1) (dec_string D))
     else ''0'' @ frac_string (replicate (nat (- X) - 1) (CHR ''0'') @ dec_string D))"
  using assms by (simp add: g17_digits_def Let_def)

lemma dtostr_nonzero:
  assumes d: "fmt_g17 d = sign_text neg @ g17_digits D X" and D: "10 ^ 16 \<le> D" "D < 10 ^ 17" and X: "\<bar>X\<bar> < 10000" and sz: "64 \<le> sz"
  shows "\<exists>ip fr ex. jsonp_dtostr sz d = Some (sign_text neg @ ip @ fr @ ex) \<and> real_parts ip fr ex \<and>
    parts_value ip fr ex = real D * 10 powi (X - 16)"
proof -
  let ?ds = "dec_string D"
  have l: "length ?ds = 17" using D dec_string_length_eq [of 16 D] by simp
  have dd: "\<forall>c \<in> set ?ds. is_digit c" "?ds \<noteq> []" using dec_string_digits [of D] by (simp_all add: digits_def)
  have D0: "0 < D" using D(1) by (simp add: less_le_trans [of 0 "10 ^ 16" D])
  have h: "hd ?ds \<noteq> CHR ''0''" using dec_string_head [OF D0] by auto
  have take: "digits (take n ?ds)" "hd (take n ?ds) \<noteq> CHR ''0''" if "0 < n" for n
    using that dd h by (auto simp: digits_def dest: in_set_takeD)
  have drop: "\<forall>c \<in> set (drop n ?ds). is_digit c" for n using dd(1) by (auto dest: in_set_dropD)
  have len: "length (take n ?ds) + length (drop n ?ds) \<le> 40" for n using l by (simp add: min_def)
  have sg: "CHR ''.'' \<notin> set (sign_text neg) \<and> CHR ''e'' \<notin> set (sign_text neg)" "length (sign_text neg) \<le> 1"
    by (simp_all add: sign_text_def)
  show ?thesis
  proof (cases "X < - 4 \<or> 17 \<le> X")
    case True
    then have "fmt_g17 d = sign_text neg @ take 1 ?ds @ frac_string (drop 1 ?ds) @ exp_string X" using d g17_digits_exp by simp
    then obtain ex where ex: "jsonp_dtostr sz d = Some (sign_text neg @ take 1 ?ds @ frac_string (drop 1 ?ds) @ ex)"
      "real_parts (take 1 ?ds) (frac_string (drop 1 ?ds)) ex" "fst (scan_exp ex) = X"
      using dtostr_exp [OF _ _ sg(2) take(1) take(2) len drop sz _ X, of d 1] sg(1) True by auto
    have "parts_value (take 1 ?ds) (frac_string (drop 1 ?ds)) ex = real D * 10 powi (X - 16)"
      using ex(3) l by (simp only: frac_string_value append_take_drop_id dec_value_dec_string) simp
    then show ?thesis using ex by blast
  next
    case plain: False
    show ?thesis
    proof (cases "0 \<le> X")
      case True
      let ?n = "nat X + 1"
      have "fmt_g17 d = sign_text neg @ take ?n ?ds @ frac_string (drop ?n ?ds)" using d g17_digits_plain [OF plain] True by simp
      then obtain fr where fr: "jsonp_dtostr sz d = Some (sign_text neg @ take ?n ?ds @ fr)" "real_parts (take ?n ?ds) fr []"
        "parts_value (take ?n ?ds) fr [] = parts_value (take ?n ?ds) (frac_string (drop ?n ?ds)) []"
        using dtostr_plain [OF _ sg take(1) disjI2 [OF take(2)] len drop sz, of d ?n] by auto
      have "- int (length (drop ?n ?ds)) = X - 16" using l True plain by simp
      then have "parts_value (take ?n ?ds) fr [] = real D * 10 powi (X - 16)"
        unfolding fr(3) by (simp only: frac_string_value append_take_drop_id dec_value_dec_string scan_exp_simps) simp
      then show ?thesis using fr by (metis append_Nil2)
    next
      case False
      let ?s = "replicate (nat (- X) - 1) (CHR ''0'') @ ?ds"
      have s: "\<forall>c \<in> set ?s. is_digit c" using dd(1) by (auto simp: is_digit_def)
      have ls: "length ''0'' + length ?s \<le> 40" using l plain False by simp
      have "fmt_g17 d = sign_text neg @ ''0'' @ frac_string ?s" using d g17_digits_plain [OF plain] False by simp
      then obtain fr where fr: "jsonp_dtostr sz d = Some (sign_text neg @ ''0'' @ fr)" "real_parts ''0'' fr []"
        "parts_value ''0'' fr [] = parts_value ''0'' (frac_string ?s) []"
        using dtostr_plain [OF _ sg _ disjI1 [OF refl] ls s sz] by (auto simp: digits_def is_digit_def)
      have "- int (length ?s) = X - 16" using l False plain by simp
      moreover have "dec_value (''0'' @ ?s) = D" using dec_value_zeros(1) [of 1 ?s] by (simp add: dec_value_zeros)
      ultimately have "parts_value ''0'' fr [] = real D * 10 powi (X - 16)"
        unfolding fr(3) by (simp only: frac_string_value scan_exp_simps) simp
      then show ?thesis using fr by (metis append_Nil2)
    qed
  qed
qed

lemma parts_value_eq_0: "parts_value ip fr ex = 0 \<longleftrightarrow> dec_value (ip @ tl fr) = 0"
  by (simp add: parts_value_def)

theorem dtostr_parts:
  assumes fin: "dbl_finite d" and sz: "64 \<le> sz"
  shows "\<exists>ip fr ex. jsonp_dtostr sz d = Some (sign_text (dbl_sign d) @ ip @ fr @ ex) \<and> real_parts ip fr ex \<and>
    dbl_of_dec (dec_value (ip @ tl fr)) (fst (scan_exp ex) - int (length (tl fr))) = dbl_mag d"
proof (cases "dbl_mag d = 0")
  case True
  then obtain fr where fr: "jsonp_dtostr sz d = Some (sign_text (dbl_sign d) @ ''0'' @ fr)" "real_parts ''0'' fr []"
    "parts_value ''0'' fr [] = 0" using dtostr_zero [OF _ sz] by blast
  then have "dec_value (''0'' @ tl fr) = 0" by (simp only: parts_value_eq_0)
  then show ?thesis using fr(1,2) True
    by (intro exI [of _ "''0''"] exI [of _ fr] exI [of _ "[]"]) (simp add: dbl_of_dec_zero)
next
  case False
  obtain num den where f: "dbl_frac d = (num, den)" by fastforce
  obtain D X where D: "sig17 num den = (D, X)" by fastforce
  note e = sig17_exp [OF fin False f D]
  note n = sig17_near [OF e(1,2) D]
  have "fmt_g17 d = sign_text (dbl_sign d) @ g17_digits D X"
    using fin False f D by (simp add: fmt_g17_def sign_text_def dbl_finite_def)
  then obtain ip fr ex where *: "jsonp_dtostr sz d = Some (sign_text (dbl_sign d) @ ip @ fr @ ex)" "real_parts ip fr ex"
    "parts_value ip fr ex = real D * 10 powi (X - 16)" using dtostr_nonzero [OF _ n(1,2) e(3) sz] by blast
  then show ?thesis using dbl_of_dec_near [OF fin False f D *(3) [unfolded parts_value_def]] by blast
qed

text \<open>A double that is read back: zero or normal, for every \<open>strtod\<close> of the C standard. A subnormal
  one is read back only where the library does not report an underflow.\<close>

definition dbl_normal :: "64 word \<Rightarrow> bool" where
  "dbl_normal d \<longleftrightarrow> dbl_finite d \<and> (dbl_mag d = 0 \<or> 2 ^ 52 \<le> dbl_mag d)"

lemma dbl_make_sel: "dbl_make (dbl_sign d) (dbl_mag d) = d"
proof -
  have "unat d < 2 ^ 64" using unsigned_less [of d, where 'a = nat] by simp
  then have "unat d mod 2 ^ 63 = (if 2 ^ 63 \<le> unat d then unat d - 2 ^ 63 else unat d)" by (auto simp: mod_if)
  then have "(if 2 ^ 63 \<le> unat d then 2 ^ 63 else 0) + unat d mod 2 ^ 63 = unat d" by auto
  then show ?thesis by (simp add: dbl_make_def dbl_sign_def dbl_mag_def)
qed

theorem real_text_roundtrip:
  assumes "dbl_normal d" "64 \<le> sz"
  shows "\<exists>ip fr ex. jsonp_dtostr sz d = Some (sign_text (dbl_sign d) @ ip @ fr @ ex) \<and> real_parts ip fr ex \<and>
    jsonp_strtod uflow (sign_text (dbl_sign d) @ ip @ fr @ ex) = Some (Ok d)"
proof -
  have fin: "dbl_finite d" using assms(1) by (simp add: dbl_normal_def)
  obtain ip fr ex where p: "jsonp_dtostr sz d = Some (sign_text (dbl_sign d) @ ip @ fr @ ex)" "real_parts ip fr ex"
    "dbl_of_dec (dec_value (ip @ tl fr)) (fst (scan_exp ex) - int (length (tl fr))) = dbl_mag d"
    using dtostr_parts [OF fin assms(2)] by blast
  have "strtod uflow (sign_text (dbl_sign d) @ ip @ fr @ ex) = (d, length (sign_text (dbl_sign d) @ ip @ fr @ ex),
      dbl_mag d = DBL_INF \<or> dec_value (ip @ tl fr) \<noteq> 0 \<and> dbl_mag d < 2 ^ 52 \<and>
      uflow (dec_value (ip @ tl fr)) (fst (scan_exp ex) - int (length (tl fr))))"
    using strtod_text [of ip fr ex uflow "dbl_sign d"] p(2,3) dbl_make_sel [of d] by (simp add: real_parts_def Let_def)
  moreover have "dbl_mag d \<noteq> DBL_INF" using fin by (simp add: dbl_finite_def)
  ultimately have "jsonp_strtod uflow (sign_text (dbl_sign d) @ ip @ fr @ ex) = Some (Ok d)"
    using assms(1) by (auto simp: jsonp_strtod_def Let_def dbl_normal_def)
  then show ?thesis using p by blast
qed

end
