(* ===== verification/Json_Lex.thy ===== *)
theory Json_Lex
  imports Json_Number Strbuffer Utf8
begin

text \<open>
  The lexical analyzer of \<open>load.c\<close> and the error structure of \<open>error.c\<close> (bundled jansson).

  A lexer is one record: the stream (\<open>stream_t\<close>) with its five-byte buffer for one UTF-8
  sequence, the text of the current token, the token and its value. The source of the bytes is a
  function (\<open>get_func\<close>) on what is left of the input. The error structure that all functions are
  handed is a field, \<open>None\<close> if the pointer is null. A read or write outside the buffer, a failed
  assertion, the read of a variable that was not set are undefined (\<open>None\<close>). Characters are
  \<open>int\<close>s, as in the code: a byte of the buffer is a signed \<open>char\<close>. Allocations succeed;
  lines and columns do not reach \<open>2 ^ 31\<close>. The loops are \<open>partial_function (option)\<close>.
\<close>

section \<open>Data\<close>

definition STREAM_STATE_OK :: int where "STREAM_STATE_OK = 0"
definition STREAM_STATE_EOF :: int where "STREAM_STATE_EOF = - 1"
definition STREAM_STATE_ERROR :: int where "STREAM_STATE_ERROR = - 2"

definition TOKEN_INVALID :: int where "TOKEN_INVALID = - 1"
definition TOKEN_EOF :: int where "TOKEN_EOF = 0"
definition TOKEN_STRING :: int where "TOKEN_STRING = 256"
definition TOKEN_INTEGER :: int where "TOKEN_INTEGER = 257"
definition TOKEN_REAL :: int where "TOKEN_REAL = 258"
definition TOKEN_TRUE :: int where "TOKEN_TRUE = 259"
definition TOKEN_FALSE :: int where "TOKEN_FALSE = 260"
definition TOKEN_NULL :: int where "TOKEN_NULL = 261"

lemmas stream_state_defs = STREAM_STATE_OK_def STREAM_STATE_EOF_def STREAM_STATE_ERROR_def
lemmas token_defs = TOKEN_INVALID_def TOKEN_EOF_def TOKEN_STRING_def TOKEN_INTEGER_def TOKEN_REAL_def
  TOKEN_TRUE_def TOKEN_FALSE_def TOKEN_NULL_def

definition l_isupper :: "int \<Rightarrow> bool" where "l_isupper c \<longleftrightarrow> 65 \<le> c \<and> c \<le> 90"
definition l_islower :: "int \<Rightarrow> bool" where "l_islower c \<longleftrightarrow> 97 \<le> c \<and> c \<le> 122"
definition l_isalpha :: "int \<Rightarrow> bool" where "l_isalpha c \<longleftrightarrow> l_isupper c \<or> l_islower c"
definition l_isdigit :: "int \<Rightarrow> bool" where "l_isdigit c \<longleftrightarrow> 48 \<le> c \<and> c \<le> 57"
definition l_isxdigit :: "int \<Rightarrow> bool" where
  "l_isxdigit c \<longleftrightarrow> l_isdigit c \<or> 65 \<le> c \<and> c \<le> 70 \<or> 97 \<le> c \<and> c \<le> 102"

lemmas l_is_defs = l_isupper_def l_islower_def l_isalpha_def l_isdigit_def l_isxdigit_def

type_synonym get_func = "byte list \<Rightarrow> int \<times> byte list"

record json_error =
  err_line :: int
  err_column :: int
  err_position :: int
  err_source :: string
  err_text :: string

datatype lex_value = Value_string "byte list option" | Value_integer int | Value_real "64 word" | Value_unset

record lex_t =
  st_get :: get_func
  st_data :: "byte list"
  st_buffer :: "byte list"
  buffer_pos :: nat
  st_state :: int
  st_line :: int
  st_column :: int
  last_column :: "int option"
  st_position :: nat
  saved_text :: strbuffer
  token :: int
  lex_val :: lex_value
  lex_error :: "json_error option"

section \<open>Errors\<close>

definition JSON_ERROR_TEXT_LENGTH :: nat where "JSON_ERROR_TEXT_LENGTH = 160"
definition JSON_ERROR_SOURCE_LENGTH :: nat where "JSON_ERROR_SOURCE_LENGTH = 80"

definition jsonp_error_set_source :: "json_error option \<Rightarrow> string \<Rightarrow> json_error option" where
  "jsonp_error_set_source error source =
     map_option (\<lambda>e. e\<lparr>err_source :=
       (if length source < JSON_ERROR_SOURCE_LENGTH then source
        else ''...'' @ drop (length source - JSON_ERROR_SOURCE_LENGTH + 4) source)\<rparr>) error"

definition jsonp_error_init :: "json_error option \<Rightarrow> string \<Rightarrow> json_error option" where
  "jsonp_error_init error source =
     jsonp_error_set_source
       (map_option (\<lambda>e. e\<lparr>err_text := [], err_line := - 1, err_column := - 1, err_position := 0\<rparr>) error) source"

text \<open>An error that is set already is kept.\<close>

definition jsonp_error_vset :: "json_error option \<Rightarrow> int \<Rightarrow> int \<Rightarrow> nat \<Rightarrow> string \<Rightarrow> json_error option" where
  "jsonp_error_vset error line column position msg =
     map_option (\<lambda>e. if err_text e \<noteq> [] then e
       else e\<lparr>err_line := line, err_column := column, err_position := int32_of_size position,
              err_text := take (JSON_ERROR_TEXT_LENGTH - 1) msg\<rparr>) error"

definition jsonp_error_set :: "json_error option \<Rightarrow> int \<Rightarrow> int \<Rightarrow> nat \<Rightarrow> string \<Rightarrow> json_error option" where
  "jsonp_error_set error line column position msg = jsonp_error_vset error line column position msg"

text \<open>The message with its context: the text of the token unless it is long, or the end of the file.\<close>

definition error_message :: "lex_t \<Rightarrow> string \<Rightarrow> string option" where
  "error_message lx msg =
     (let msg_text = take (JSON_ERROR_TEXT_LENGTH - 1) msg; text = strbuffer_value (saved_text lx) in
      if text \<noteq> [] \<and> text ! 0 \<noteq> 0 then
        if sb_length (saved_text lx) \<le> 20 then do {
          t \<leftarrow> c_str text;
          Some (take (JSON_ERROR_TEXT_LENGTH - 1) (msg_text @ '' near '' @ CHR 0x27 # map char_of_byte t @ [CHR 0x27])) }
        else Some msg_text
      else if st_state lx = STREAM_STATE_ERROR then Some msg_text
      else Some (take (JSON_ERROR_TEXT_LENGTH - 1) (msg_text @ '' near end of file'')))"

definition error_set :: "lex_t \<Rightarrow> string \<Rightarrow> lex_t option" where
  "error_set lx msg =
     (if lex_error lx = None then Some lx
      else do {
        result \<leftarrow> error_message lx msg;
        Some (lx\<lparr>lex_error :=
          jsonp_error_set (lex_error lx) (st_line lx) (st_column lx) (st_position lx) result\<rparr>) })"

section \<open>The stream\<close>

definition string_get :: get_func where
  "string_get data =
     (case data of [] \<Rightarrow> (- 1, []) | c # cs \<Rightarrow> if c = 0 then (- 1, data) else (uint c, cs))"

definition buffer_get :: get_func where
  "buffer_get data = (case data of [] \<Rightarrow> (- 1, []) | c # cs \<Rightarrow> (uint c, cs))"

definition stream_init :: "lex_t \<Rightarrow> get_func \<Rightarrow> byte list \<Rightarrow> lex_t option" where
  "stream_init lx get data = do {
     b \<leftarrow> mem_write (st_buffer lx) 0 [0];
     Some (lx\<lparr>st_get := get, st_data := data, st_buffer := b, buffer_pos := 0,
       st_state := STREAM_STATE_OK, st_line := 1, st_column := 0, st_position := 0\<rparr>) }"

definition buffer_set :: "lex_t \<Rightarrow> nat \<Rightarrow> byte \<Rightarrow> lex_t option" where
  "buffer_set lx i b = do { buf \<leftarrow> mem_write (st_buffer lx) i [b]; Some (lx\<lparr>st_buffer := buf\<rparr>) }"

text \<open>\<open>for(i = 1; i < count; i++) stream->buffer[i] = stream->get(stream->data)\<close>, from \<open>i\<close> on for
  \<open>n\<close> bytes.\<close>

fun stream_fill :: "lex_t \<Rightarrow> nat \<Rightarrow> nat \<Rightarrow> lex_t option" where
  "stream_fill lx i 0 = Some lx"
| "stream_fill lx i (Suc n) =
     (let (c, data) = st_get lx (st_data lx) in do {
        lx \<leftarrow> buffer_set (lx\<lparr>st_data := data\<rparr>) i (word_of_int c);
        stream_fill lx (i + 1) n })"

definition stream_out :: "lex_t \<Rightarrow> int \<Rightarrow> (int \<times> lex_t) option" where
  "stream_out lx c = do {
     lx \<leftarrow> error_set (lx\<lparr>st_state := STREAM_STATE_ERROR\<rparr>) (''unable to decode byte 0x'' @ hex_string False (nat c));
     Some (STREAM_STATE_ERROR, lx) }"

definition stream_next :: "lex_t \<Rightarrow> (int \<times> lex_t) option" where
  "stream_next lx = do {
     b \<leftarrow> mem_get (st_buffer lx) (buffer_pos lx);
     let lx = lx\<lparr>buffer_pos := buffer_pos lx + 1, st_position := st_position lx + 1\<rparr>;
     Some (sint b,
       if sint b = 10 then lx\<lparr>st_line := st_line lx + 1, last_column := Some (st_column lx), st_column := 0\<rparr>
       else if utf8_check_first b \<noteq> 0 then lx\<lparr>st_column := st_column lx + 1\<rparr>
       else lx) }"

definition stream_get :: "lex_t \<Rightarrow> (int \<times> lex_t) option" where
  "stream_get lx =
     (if st_state lx \<noteq> STREAM_STATE_OK then Some (st_state lx, lx)
      else do {
        b \<leftarrow> mem_get (st_buffer lx) (buffer_pos lx);
        if b \<noteq> 0 then stream_next lx
        else let (c, data) = st_get lx (st_data lx); lx = lx\<lparr>st_data := data\<rparr> in
          if c = - 1 then Some (STREAM_STATE_EOF, lx\<lparr>st_state := STREAM_STATE_EOF\<rparr>)
          else do {
            lx \<leftarrow> buffer_set (lx\<lparr>buffer_pos := 0\<rparr>) 0 (word_of_int c);
            if 0x80 \<le> c \<and> c \<le> 0xFF then
              let count = utf8_check_first (word_of_int c) in
              if count = 0 then stream_out lx c
              else if count < 2 then None
              else do {
                lx \<leftarrow> stream_fill lx 1 (count - 1);
                if utf8_check_full (st_buffer lx) count = None then stream_out lx c
                else do { lx \<leftarrow> buffer_set lx count 0; stream_next lx } }
            else do { lx \<leftarrow> buffer_set lx 1 0; stream_next lx } } })"

definition stream_unget :: "lex_t \<Rightarrow> int \<Rightarrow> lex_t option" where
  "stream_unget lx c =
     (if c = STREAM_STATE_EOF \<or> c = STREAM_STATE_ERROR then Some lx
      else do {
        let lx = lx\<lparr>st_position := st_position lx - 1\<rparr>;
        lx \<leftarrow> (if c = 10 then do {
                   col \<leftarrow> last_column lx;
                   Some (lx\<lparr>st_line := st_line lx - 1, st_column := col\<rparr>) }
                else if utf8_check_first (word_of_int c) \<noteq> 0 then Some (lx\<lparr>st_column := st_column lx - 1\<rparr>)
                else Some lx);
        if buffer_pos lx = 0 then None
        else do {
          b \<leftarrow> mem_get (st_buffer lx) (buffer_pos lx - 1);
          if sint b \<noteq> c then None else Some (lx\<lparr>buffer_pos := buffer_pos lx - 1\<rparr>) } })"

section \<open>Characters\<close>

definition lex_get :: "lex_t \<Rightarrow> (int \<times> lex_t) option" where "lex_get lx = stream_get lx"

text \<open>The result of the append is not looked at.\<close>

definition lex_save :: "lex_t \<Rightarrow> int \<Rightarrow> lex_t option" where
  "lex_save lx c = do {
     (r, text) \<leftarrow> strbuffer_append_byte (saved_text lx) (word_of_int c);
     Some (lx\<lparr>saved_text := text\<rparr>) }"

definition lex_get_save :: "lex_t \<Rightarrow> (int \<times> lex_t) option" where
  "lex_get_save lx = do {
     (c, lx) \<leftarrow> stream_get lx;
     if c \<noteq> STREAM_STATE_EOF \<and> c \<noteq> STREAM_STATE_ERROR
     then do { lx \<leftarrow> lex_save lx c; Some (c, lx) }
     else Some (c, lx) }"

definition lex_unget :: "lex_t \<Rightarrow> int \<Rightarrow> lex_t option" where "lex_unget lx c = stream_unget lx c"

definition lex_unget_unsave :: "lex_t \<Rightarrow> int \<Rightarrow> lex_t option" where
  "lex_unget_unsave lx c =
     (if c \<noteq> STREAM_STATE_EOF \<and> c \<noteq> STREAM_STATE_ERROR then do {
        lx \<leftarrow> stream_unget lx c;
        (d, text) \<leftarrow> strbuffer_pop (saved_text lx);
        if c \<noteq> sint d then None else Some (lx\<lparr>saved_text := text\<rparr>) }
      else Some lx)"

partial_function (option) lex_save_cached :: "lex_t \<Rightarrow> lex_t option" where
  "lex_save_cached lx =
     Option.bind (mem_get (st_buffer lx) (buffer_pos lx)) (\<lambda>b.
       if b \<noteq> 0 then
         Option.bind (lex_save lx (sint b)) (\<lambda>lx.
           lex_save_cached (lx\<lparr>buffer_pos := buffer_pos lx + 1, st_position := st_position lx + 1\<rparr>))
       else Some lx)"

section \<open>String tokens\<close>

text \<open>One of the four hexadecimal digits at \<open>p\<close>; anything else is a failed assertion.\<close>

definition hex_value :: "byte \<Rightarrow> nat option" where
  "hex_value b =
     (let c = sint b in
      if l_isdigit c then Some (nat (c - 48))
      else if l_islower c then Some (nat (c - 97 + 10))
      else if l_isupper c then Some (nat (c - 65 + 10))
      else None)"

definition decode_unicode_escape :: "byte list \<Rightarrow> nat option" where
  "decode_unicode_escape str = do {
     u \<leftarrow> mem_get str 0;
     if u \<noteq> 0x75 then None
     else do {
       a \<leftarrow> Option.bind (mem_get str 1) hex_value;
       b \<leftarrow> Option.bind (mem_get str 2) hex_value;
       c \<leftarrow> Option.bind (mem_get str 3) hex_value;
       d \<leftarrow> Option.bind (mem_get str 4) hex_value;
       Some (((a * 16 + b) * 16 + c) * 16 + d) } }"

text \<open>The four checks after \<open>\u\<close>: \<open>False\<close> for an invalid escape.\<close>

fun lex_xdigits :: "nat \<Rightarrow> int \<Rightarrow> lex_t \<Rightarrow> (bool \<times> int \<times> lex_t) option" where
  "lex_xdigits 0 c lx = Some (True, c, lx)"
| "lex_xdigits (Suc n) c lx =
     (if \<not> l_isxdigit c then do { lx \<leftarrow> error_set lx ''invalid escape''; Some (False, c, lx) }
      else Option.bind (lex_get_save lx) (\<lambda>(c, lx). lex_xdigits n c lx))"

text \<open>The loop over the source text of a string, from its first character \<open>c\<close> on: \<open>True\<close> at
  the closing quote, \<open>False\<close> for \<open>goto out\<close>.\<close>

partial_function (option) lex_string_loop :: "int \<Rightarrow> lex_t \<Rightarrow> (bool \<times> lex_t) option" where
  "lex_string_loop c lx =
     (if c = 0x22 then Some (True, lx)
      else if c = STREAM_STATE_ERROR then Some (False, lx)
      else if c = STREAM_STATE_EOF then
        Option.bind (error_set lx ''premature end of input'') (\<lambda>lx. Some (False, lx))
      else if 0 \<le> c \<and> c \<le> 0x1F then
        Option.bind (lex_unget_unsave lx c) (\<lambda>lx.
        Option.bind (error_set lx (if c = 10 then ''unexpected newline''
            else ''control character 0x'' @ hex_string False (nat c))) (\<lambda>lx. Some (False, lx)))
      else if c = 0x5C then
        Option.bind (lex_get_save lx) (\<lambda>r. let (c, lx) = r in
          if c = 0x75 then
            Option.bind (lex_get_save lx) (\<lambda>r. let (c, lx) = r in
            Option.bind (lex_xdigits 4 c lx) (\<lambda>r. let (ok, c, lx) = r in
              if ok then lex_string_loop c lx else Some (False, lx)))
          else if c = 0x22 \<or> c = 0x5C \<or> c = 0x2F \<or> c = 0x62 \<or> c = 0x66 \<or> c = 0x6E \<or> c = 0x72 \<or> c = 0x74 then
            Option.bind (lex_get_save lx) (\<lambda>r. let (c, lx) = r in lex_string_loop c lx)
          else
            Option.bind (error_set lx ''invalid escape'') (\<lambda>lx. Some (False, lx)))
      else Option.bind (lex_get_save lx) (\<lambda>r. let (c, lx) = r in lex_string_loop c lx))"

text \<open>A store of bytes at the end of the string that is built in \<open>cap\<close> bytes.\<close>

definition put_bytes :: "nat \<Rightarrow> byte list \<Rightarrow> byte list \<Rightarrow> byte list option" where
  "put_bytes cap t bs = (if length t + length bs \<le> cap then Some (t @ bs) else None)"

definition short_escape :: "byte \<Rightarrow> byte option" where
  "short_escape c =
     (if c = 0x22 \<or> c = 0x5C \<or> c = 0x2F then Some c
      else if c = 0x62 then Some 8 else if c = 0x66 then Some 12 else if c = 0x6E then Some 10
      else if c = 0x72 then Some 13 else if c = 0x74 then Some 9 else None)"

text \<open>The code point of a \<open>\u\<close> escape whose \<open>u\<close> is at \<open>p\<close>, possibly with a second
  one, and what follows; or the message of an error.\<close>

definition escape_codepoint :: "byte list \<Rightarrow> (string + nat \<times> byte list) option" where
  "escape_codepoint p = do {
     value \<leftarrow> decode_unicode_escape p;
     let p = drop 5 p;
     if 0xD800 \<le> value \<and> value \<le> 0xDBFF then do {
       c \<leftarrow> mem_get p 0;
       u \<leftarrow> (if c = 0x5C then mem_get p 1 else Some 0);
       if c = 0x5C \<and> u = 0x75 then do {
         value2 \<leftarrow> decode_unicode_escape (drop 1 p);
         if 0xDC00 \<le> value2 \<and> value2 \<le> 0xDFFF
         then Some (Inr ((value - 0xD800) * 1024 + (value2 - 0xDC00) + 0x10000, drop 6 p))
         else Some (Inl (''invalid Unicode '' @ [CHR 0x27, CHR 0x5C, CHR ''u''] @ hex4 True value @
           [CHR 0x5C, CHR ''u''] @ hex4 True value2 @ [CHR 0x27])) }
       else Some (Inl (''invalid Unicode '' @ [CHR 0x27, CHR 0x5C, CHR ''u''] @ hex4 True value @ [CHR 0x27])) }
     else if 0xDC00 \<le> value \<and> value \<le> 0xDFFF
     then Some (Inl (''invalid Unicode '' @ [CHR 0x27, CHR 0x5C, CHR ''u''] @ hex4 True value @ [CHR 0x27]))
     else if value = 0 then Some (Inl (CHR 0x5C # ''u0000 is not allowed''))
     else Some (Inr (value, p)) }"

lemma escape_codepoint_length: "escape_codepoint p = Some (Inr (n, p')) \<Longrightarrow> length p' \<le> length p"
  by (auto simp: escape_codepoint_def Let_def split: Option.bind_splits if_splits)

text \<open>The loop that copies the string and replaces its escapes.\<close>

function unescape :: "nat \<Rightarrow> byte list \<Rightarrow> byte list \<Rightarrow> (string + byte list) option" where
  "unescape cap p t =
     (case p of [] \<Rightarrow> None
      | c # p1 \<Rightarrow>
          if c = 0x22 then Option.bind (put_bytes cap t [0]) (\<lambda>_. Some (Inr t))
          else if c = 0x5C then
            (case p1 of [] \<Rightarrow> None
             | c1 # p2 \<Rightarrow>
                 if c1 = 0x75 then
                   (case escape_codepoint p1 of None \<Rightarrow> None | Some (Inl msg) \<Rightarrow> Some (Inl msg)
                    | Some (Inr (value, p')) \<Rightarrow>
                        Option.bind (utf8_encode (int value)) (\<lambda>bs.
                        Option.bind (put_bytes cap t bs) (\<lambda>t. unescape cap p' t)))
                 else Option.bind (short_escape c1) (\<lambda>b.
                   Option.bind (put_bytes cap t [b]) (\<lambda>t. unescape cap p2 t)))
          else Option.bind (put_bytes cap t [c]) (\<lambda>t. unescape cap p1 t))"
  by pat_completeness auto
termination
  by (relation "measure (\<lambda>(cap, p, t). length p)") (auto dest!: escape_codepoint_length)

declare unescape.simps [simp del]

definition lex_scan_string :: "lex_t \<Rightarrow> lex_t option" where
  "lex_scan_string lx = do {
     (c, lx) \<leftarrow> lex_get_save (lx\<lparr>lex_val := Value_string None, token := TOKEN_INVALID\<rparr>);
     (ok, lx) \<leftarrow> lex_string_loop c lx;
     if \<not> ok then Some lx
     else do {
       r \<leftarrow> unescape (sb_length (saved_text lx) + 1) (drop 1 (strbuffer_value (saved_text lx))) [];
       (case r of
          Inl msg \<Rightarrow> error_set lx msg
        | Inr str \<Rightarrow> Some (lx\<lparr>lex_val := Value_string (Some str), token := TOKEN_STRING\<rparr>)) } }"

section \<open>Number tokens\<close>

partial_function (option) lex_digits :: "int \<Rightarrow> lex_t \<Rightarrow> (int \<times> lex_t) option" where
  "lex_digits c lx =
     (if l_isdigit c then Option.bind (lex_get_save lx) (\<lambda>r. let (c, lx) = r in lex_digits c lx)
      else Some (c, lx))"

text \<open>The text of the token as the library functions see it.\<close>

definition saved_string :: "lex_t \<Rightarrow> string option" where
  "saved_string lx = map_option (map char_of_byte) (c_str (strbuffer_value (saved_text lx)))"

definition lex_integer :: "lex_t \<Rightarrow> int \<Rightarrow> (int \<times> lex_t) option" where
  "lex_integer lx c = do {
     lx \<leftarrow> lex_unget_unsave lx c;
     text \<leftarrow> saved_string lx;
     let (val, k, erange) = strtoll text;
     if erange then do {
       lx \<leftarrow> error_set lx (if val < 0 then ''too big negative integer'' else ''too big integer'');
       Some (- 1, lx) }
     else if k \<noteq> sb_length (saved_text lx) then None
     else Some (0, lx\<lparr>token := TOKEN_INTEGER, lex_val := Value_integer val\<rparr>) }"

definition lex_exponent :: "lex_t \<Rightarrow> int \<Rightarrow> (bool \<times> int \<times> lex_t) option" where
  "lex_exponent lx c =
     (if c = 0x45 \<or> c = 0x65 then do {
        (c, lx) \<leftarrow> lex_get_save lx;
        (c, lx) \<leftarrow> (if c = 0x2B \<or> c = 0x2D then lex_get_save lx else Some (c, lx));
        if \<not> l_isdigit c then do { lx \<leftarrow> lex_unget_unsave lx c; Some (False, c, lx) }
        else do {
          (c, lx) \<leftarrow> lex_get_save lx;
          (c, lx) \<leftarrow> lex_digits c lx;
          Some (True, c, lx) } }
      else Some (True, c, lx))"

definition lex_fraction :: "lex_t \<Rightarrow> int \<Rightarrow> (bool \<times> int \<times> lex_t) option" where
  "lex_fraction lx c =
     (if c = 0x2E then do {
        (c, lx) \<leftarrow> lex_get lx;
        if \<not> l_isdigit c then do { lx \<leftarrow> lex_unget lx c; Some (False, c, lx) }
        else do {
          lx \<leftarrow> lex_save lx c;
          (c, lx) \<leftarrow> lex_get_save lx;
          (c, lx) \<leftarrow> lex_digits c lx;
          Some (True, c, lx) } }
      else Some (True, c, lx))"

text \<open>The end of a real number, from the character after it on.\<close>

definition lex_real_end :: "(nat \<Rightarrow> int \<Rightarrow> bool) \<Rightarrow> lex_t \<Rightarrow> int \<Rightarrow> (int \<times> lex_t) option" where
  "lex_real_end uflow lx c = do {
     lx \<leftarrow> lex_unget_unsave lx c;
     text \<leftarrow> saved_string lx;
     r \<leftarrow> (if length text \<noteq> sb_length (saved_text lx) then None else jsonp_strtod uflow text);
     (case r of
        Fail \<Rightarrow> do { lx \<leftarrow> error_set lx ''real number overflow''; Some (- 1, lx) }
      | Ok val \<Rightarrow> Some (0, lx\<lparr>token := TOKEN_REAL, lex_val := Value_real val\<rparr>)) }"

definition lex_real :: "(nat \<Rightarrow> int \<Rightarrow> bool) \<Rightarrow> lex_t \<Rightarrow> int \<Rightarrow> (int \<times> lex_t) option" where
  "lex_real uflow lx c = do {
     (ok, c, lx) \<leftarrow> lex_fraction lx c;
     if \<not> ok then Some (- 1, lx)
     else do {
       (ok, c, lx) \<leftarrow> lex_exponent lx c;
       if \<not> ok then Some (- 1, lx) else lex_real_end uflow lx c } }"

text \<open>The integer part: \<open>False\<close> for \<open>goto out\<close>.\<close>

definition lex_int_part :: "lex_t \<Rightarrow> int \<Rightarrow> (bool \<times> int \<times> lex_t) option" where
  "lex_int_part lx c =
     (if c = 0x30 then do {
        (c, lx) \<leftarrow> lex_get_save lx;
        if l_isdigit c then do { lx \<leftarrow> lex_unget_unsave lx c; Some (False, c, lx) }
        else Some (True, c, lx) }
      else if l_isdigit c then do {
        (c, lx) \<leftarrow> lex_get_save lx;
        (c, lx) \<leftarrow> lex_digits c lx;
        Some (True, c, lx) }
      else do { lx \<leftarrow> lex_unget_unsave lx c; Some (False, c, lx) })"

definition lex_scan_number :: "(nat \<Rightarrow> int \<Rightarrow> bool) \<Rightarrow> lex_t \<Rightarrow> int \<Rightarrow> (int \<times> lex_t) option" where
  "lex_scan_number uflow lx c = do {
     let lx = lx\<lparr>token := TOKEN_INVALID\<rparr>;
     (c, lx) \<leftarrow> (if c = 0x2D then lex_get_save lx else Some (c, lx));
     (ok, c, lx) \<leftarrow> lex_int_part lx c;
     if \<not> ok then Some (- 1, lx)
     else if c \<noteq> 0x2E \<and> c \<noteq> 0x45 \<and> c \<noteq> 0x65 then lex_integer lx c
     else lex_real uflow lx c }"

section \<open>Tokens\<close>

partial_function (option) lex_spaces :: "int \<Rightarrow> lex_t \<Rightarrow> (int \<times> lex_t) option" where
  "lex_spaces c lx =
     (if c = 0x20 \<or> c = 0x09 \<or> c = 0x0A \<or> c = 0x0D
      then Option.bind (lex_get lx) (\<lambda>r. let (c, lx) = r in lex_spaces c lx)
      else Some (c, lx))"

partial_function (option) lex_letters :: "int \<Rightarrow> lex_t \<Rightarrow> (int \<times> lex_t) option" where
  "lex_letters c lx =
     (if l_isalpha c then Option.bind (lex_get_save lx) (\<lambda>r. let (c, lx) = r in lex_letters c lx)
      else Some (c, lx))"

definition lex_identifier :: "lex_t \<Rightarrow> lex_t option" where
  "lex_identifier lx = do {
     (c, lx) \<leftarrow> lex_get_save lx;
     (c, lx) \<leftarrow> lex_letters c lx;
     lx \<leftarrow> lex_unget_unsave lx c;
     text \<leftarrow> saved_string lx;
     Some (lx\<lparr>token :=
       (if text = ''true'' then TOKEN_TRUE else if text = ''false'' then TOKEN_FALSE
        else if text = ''null'' then TOKEN_NULL else TOKEN_INVALID)\<rparr>) }"

text \<open>A string token that was not taken is freed.\<close>

definition lex_free_value :: "lex_t \<Rightarrow> lex_t" where
  "lex_free_value lx =
     (if token lx = TOKEN_STRING then lx\<lparr>lex_val := Value_string None\<rparr> else lx)"

text \<open>The rest of \<open>lex_scan\<close>: the token that begins with the character \<open>c\<close>.\<close>

definition lex_token :: "(nat \<Rightarrow> int \<Rightarrow> bool) \<Rightarrow> lex_t \<Rightarrow> int \<Rightarrow> lex_t option" where
  "lex_token uflow lx c =
     (if c = 0x7B \<or> c = 0x7D \<or> c = 0x5B \<or> c = 0x5D \<or> c = 0x3A \<or> c = 0x2C then Some (lx\<lparr>token := c\<rparr>)
      else if c = 0x22 then lex_scan_string lx
      else if l_isdigit c \<or> c = 0x2D then do { (r, lx) \<leftarrow> lex_scan_number uflow lx c; Some lx }
      else if l_isalpha c then lex_identifier lx
      else do { lx \<leftarrow> lex_save_cached lx; Some (lx\<lparr>token := TOKEN_INVALID\<rparr>) })"

definition lex_scan :: "(nat \<Rightarrow> int \<Rightarrow> bool) \<Rightarrow> lex_t \<Rightarrow> lex_t option" where
  "lex_scan uflow lx = do {
     text \<leftarrow> strbuffer_clear (saved_text lx);
     (c, lx) \<leftarrow> lex_get (lex_free_value (lx\<lparr>saved_text := text\<rparr>));
     (c, lx) \<leftarrow> lex_spaces c lx;
     if c = STREAM_STATE_EOF then Some (lx\<lparr>token := TOKEN_EOF\<rparr>)
     else if c = STREAM_STATE_ERROR then Some (lx\<lparr>token := TOKEN_INVALID\<rparr>)
     else do {
       lx \<leftarrow> lex_save lx c;
       lex_token uflow lx c } }"

definition lex_steal_string :: "lex_t \<Rightarrow> (byte list option \<times> lex_t) option" where
  "lex_steal_string lx =
     (if token lx = TOKEN_STRING then
        (case lex_val lx of Value_string s \<Rightarrow> Some (s, lx\<lparr>lex_val := Value_string None\<rparr>) | _ \<Rightarrow> None)
      else Some (None, lx))"

text \<open>A lexer in memory that is not initialized: its buffer has five bytes.\<close>

definition lex_init :: "lex_t \<Rightarrow> get_func \<Rightarrow> byte list \<Rightarrow> lex_t option" where
  "lex_init lx get data = do {
     lx \<leftarrow> stream_init lx get data;
     Some (lx\<lparr>saved_text := strbuffer_init, token := TOKEN_INVALID\<rparr>) }"

declare lex_save_cached.simps [code] lex_string_loop.simps [code] lex_digits.simps [code]
  lex_spaces.simps [code] lex_letters.simps [code]

end
