(* ===== verification/Json_Load.thy ===== *)
theory Json_Load
  imports Json Json_Lex
begin

text \<open>
  The parser of \<open>load.c\<close> (bundled jansson) and its entry points for memory, \<open>json_loads\<close> and
  \<open>json_loadb\<close>. The parse functions (\<open>parse_members\<close> and \<open>parse_elements\<close> are the
  loops of \<open>parse_object\<close> and \<open>parse_array\<close>) call each other; they carry fuel, and the fuel that the
  entry points hand over is proved to be enough in \<open>Json_Safe\<close>.
\<close>

section \<open>Definitions\<close>

definition JSON_REJECT_DUPLICATES :: nat where "JSON_REJECT_DUPLICATES = 0x1"
definition JSON_DISABLE_EOF_CHECK :: nat where "JSON_DISABLE_EOF_CHECK = 0x2"
definition JSON_DECODE_ANY :: nat where "JSON_DECODE_ANY = 0x4"

type_synonym uflow = "nat \<Rightarrow> int \<Rightarrow> bool"

definition parse_fail :: "lex_t \<Rightarrow> string \<Rightarrow> (json option \<times> lex_t) option" where
  "parse_fail lx msg = do { lx \<leftarrow> error_set lx msg; Some (None, lx) }"

text \<open>A key, the colon and the first token of the value; no key for \<open>goto error\<close>.\<close>

definition parse_key :: "uflow \<Rightarrow> nat \<Rightarrow> json \<Rightarrow> lex_t \<Rightarrow> (string option \<times> lex_t) option" where
  "parse_key uflow flags obj lx =
     (if token lx \<noteq> TOKEN_STRING
      then do { lx \<leftarrow> error_set lx (''string or '' @ [CHR 0x27] @ ''}'' @ [CHR 0x27] @ '' expected''); Some (None, lx) }
      else do {
        (key, lx) \<leftarrow> lex_steal_string lx;
        (case key of None \<Rightarrow> Some (None, lx)
         | Some bytes \<Rightarrow>
             let key = map char_of_byte bytes in
             if flags AND JSON_REJECT_DUPLICATES \<noteq> 0 \<and> json_object_get (Some obj) key \<noteq> None
             then do { lx \<leftarrow> error_set lx ''duplicate object key''; Some (None, lx) }
             else do {
               lx \<leftarrow> lex_scan uflow lx;
               if token lx \<noteq> 0x3A
               then do { lx \<leftarrow> error_set lx ([CHR 0x27] @ '':'' @ [CHR 0x27] @ '' expected''); Some (None, lx) }
               else do { lx \<leftarrow> lex_scan uflow lx; Some (Some key, lx) } }) })"

function parse_value :: "nat \<Rightarrow> uflow \<Rightarrow> nat \<Rightarrow> lex_t \<Rightarrow> (json option \<times> lex_t) option"
  and parse_object :: "nat \<Rightarrow> uflow \<Rightarrow> nat \<Rightarrow> lex_t \<Rightarrow> (json option \<times> lex_t) option"
  and parse_members :: "nat \<Rightarrow> uflow \<Rightarrow> nat \<Rightarrow> json \<Rightarrow> lex_t \<Rightarrow> (json option \<times> lex_t) option"
  and parse_array :: "nat \<Rightarrow> uflow \<Rightarrow> nat \<Rightarrow> lex_t \<Rightarrow> (json option \<times> lex_t) option"
  and parse_elements :: "nat \<Rightarrow> uflow \<Rightarrow> nat \<Rightarrow> json \<Rightarrow> lex_t \<Rightarrow> (json option \<times> lex_t) option"
where
  "parse_value 0 uflow flags lx = None"
| "parse_value (Suc fuel) uflow flags lx =
     (if token lx = TOKEN_STRING then
        (case lex_val lx of
           Value_string (Some s) \<Rightarrow> Some (json_string_nocheck (map char_of_byte s), lx) | _ \<Rightarrow> None)
      else if token lx = TOKEN_INTEGER then
        (case lex_val lx of Value_integer i \<Rightarrow> Some (json_integer (word_of_int i), lx) | _ \<Rightarrow> None)
      else if token lx = TOKEN_REAL then
        (case lex_val lx of Value_real d \<Rightarrow> Some (json_real d, lx) | _ \<Rightarrow> None)
      else if token lx = TOKEN_TRUE then Some (Some JTrue, lx)
      else if token lx = TOKEN_FALSE then Some (Some JFalse, lx)
      else if token lx = TOKEN_NULL then Some (Some JNull, lx)
      else if token lx = 0x7B then parse_object fuel uflow flags lx
      else if token lx = 0x5B then parse_array fuel uflow flags lx
      else if token lx = TOKEN_INVALID then parse_fail lx ''invalid token''
      else parse_fail lx ''unexpected token'')"
| "parse_object 0 uflow flags lx = None"
| "parse_object (Suc fuel) uflow flags lx =
     Option.bind (lex_scan uflow lx) (\<lambda>lx.
       if token lx = 0x7D then Some (Some json_object, lx)
       else parse_members fuel uflow flags json_object lx)"
| "parse_members 0 uflow flags obj lx = None"
| "parse_members (Suc fuel) uflow flags obj lx =
     Option.bind (parse_key uflow flags obj lx) (\<lambda>(key, lx).
       case key of None \<Rightarrow> Some (None, lx)
       | Some key \<Rightarrow>
           Option.bind (parse_value fuel uflow flags lx) (\<lambda>(value, lx).
             case value of None \<Rightarrow> Some (None, lx)
             | Some v \<Rightarrow>
                 (case json_object_set_nocheck obj (Some key) (Some v) of None \<Rightarrow> Some (None, lx)
                  | Some obj \<Rightarrow>
                      Option.bind (lex_scan uflow lx) (\<lambda>lx.
                        if token lx = 0x2C then
                          Option.bind (lex_scan uflow lx) (\<lambda>lx. parse_members fuel uflow flags obj lx)
                        else if token lx \<noteq> 0x7D
                        then parse_fail lx ([CHR 0x27] @ ''}'' @ [CHR 0x27] @ '' expected'')
                        else Some (Some obj, lx)))))"
| "parse_array 0 uflow flags lx = None"
| "parse_array (Suc fuel) uflow flags lx =
     Option.bind (lex_scan uflow lx) (\<lambda>lx.
       if token lx = 0x5D then Some (Some json_array, lx)
       else parse_elements fuel uflow flags json_array lx)"
| "parse_elements 0 uflow flags arr lx = None"
| "parse_elements (Suc fuel) uflow flags arr lx =
     (if token lx = TOKEN_EOF then parse_fail lx ([CHR 0x27] @ '']'' @ [CHR 0x27] @ '' expected'')
      else Option.bind (parse_value fuel uflow flags lx) (\<lambda>(elem, lx).
        case elem of None \<Rightarrow> Some (None, lx)
        | Some v \<Rightarrow>
            Option.bind (lex_scan uflow lx) (\<lambda>lx.
              if token lx = 0x2C then
                Option.bind (lex_scan uflow lx) (\<lambda>lx.
                  parse_elements fuel uflow flags (json_array_append arr (Some v)) lx)
              else if token lx \<noteq> 0x5D
              then parse_fail lx ([CHR 0x27] @ '']'' @ [CHR 0x27] @ '' expected'')
              else Some (Some (json_array_append arr (Some v)), lx))))"
  by pat_completeness auto
termination
  by (relation "measure (\<lambda>x. case x of
        Inl (Inl (fuel, _)) \<Rightarrow> fuel | Inl (Inr (fuel, _)) \<Rightarrow> fuel
      | Inr (Inl (fuel, _)) \<Rightarrow> fuel | Inr (Inr (Inl (fuel, _))) \<Rightarrow> fuel | Inr (Inr (Inr (fuel, _))) \<Rightarrow> fuel)") simp_all

definition parse_json :: "nat \<Rightarrow> uflow \<Rightarrow> nat \<Rightarrow> lex_t \<Rightarrow> (json option \<times> lex_t) option" where
  "parse_json fuel uflow flags lx = do {
     lx \<leftarrow> lex_scan uflow lx;
     if flags AND JSON_DECODE_ANY = 0 \<and> token lx \<noteq> 0x5B \<and> token lx \<noteq> 0x7B
     then parse_fail lx ([CHR 0x27] @ ''['' @ [CHR 0x27] @ '' or '' @ [CHR 0x27] @ ''{'' @ [CHR 0x27] @ '' expected'')
     else do {
       (result, lx) \<leftarrow> parse_value fuel uflow flags lx;
       (case result of None \<Rightarrow> Some (None, lx)
        | Some v \<Rightarrow> do {
            (ok, lx) \<leftarrow> (if flags AND JSON_DISABLE_EOF_CHECK = 0 then do {
                lx \<leftarrow> lex_scan uflow lx;
                if token lx \<noteq> TOKEN_EOF
                then do { lx \<leftarrow> error_set lx ''end of file expected''; Some (False, lx) }
                else Some (True, lx) }
              else Some (True, lx));
            if \<not> ok then Some (None, lx)
            else Some (Some v, lx\<lparr>lex_error :=
              map_option (\<lambda>e. e\<lparr>err_position := int32_of_size (st_position lx)\<rparr>) (lex_error lx)\<rparr>) }) } }"

definition load_fuel :: "byte list \<Rightarrow> nat" where
  "load_fuel data = 3 * length data + 6"

text \<open>The result and the error structure; \<open>junk\<close> is the lexer before it is initialized.\<close>

definition json_load_with ::
  "get_func \<Rightarrow> string \<Rightarrow> lex_t \<Rightarrow> uflow \<Rightarrow> byte list option \<Rightarrow> nat \<Rightarrow> json_error option \<Rightarrow>
   (json option \<times> json_error option) option" where
  "json_load_with get source junk uflow data flags error =
     (let error = jsonp_error_init error source in
      case data of
        None \<Rightarrow> Some (None, jsonp_error_set error (- 1) (- 1) 0 ''wrong arguments'')
      | Some bytes \<Rightarrow> do {
          lx \<leftarrow> lex_init (junk\<lparr>lex_error := error\<rparr>) get bytes;
          (result, lx) \<leftarrow> parse_json (load_fuel bytes) uflow flags lx;
          Some (result, lex_error lx) })"

definition json_loads where
  "json_loads = json_load_with string_get ''<string>''"

definition json_loadb where
  "json_loadb = json_load_with buffer_get ''<buffer>''"

end
