(* ===== verification/Json_Stream.thy ===== *)
theory Json_Stream
  imports Json_Load
begin

text \<open>
  What the lexer of \<open>load.c\<close> sees of its input. The locale \<open>byte_source\<close> is the contract of a
  \<open>get_func\<close>: it hands out the bytes of a list one by one and then \<open>EOF\<close>; it is interpreted
  with \<open>buffer_get\<close> and \<open>string_get\<close>. In it the five-byte buffer disappears: what is ahead of a
  lexer is one list of bytes, \<open>stream_get\<close> takes the first one, or fails at a sequence that is not
  UTF-8, and \<open>stream_unget\<close> puts it back, unless it is zero.
\<close>

section \<open>The invariant of the stream\<close>

definition pending :: "lex_t \<Rightarrow> byte list" where
  "pending lx = takeWhile (\<lambda>b. b \<noteq> 0) (drop (buffer_pos lx) (st_buffer lx))"

definition stream_ok :: "lex_t \<Rightarrow> bool" where
  "stream_ok lx \<longleftrightarrow> length (st_buffer lx) = 5 \<and>
     (st_state lx = STREAM_STATE_OK \<longrightarrow> buffer_pos lx \<le> 4 \<and> 0 \<in> set (drop (buffer_pos lx) (st_buffer lx))) \<and>
     (st_state lx = STREAM_STATE_OK \<or> st_state lx = STREAM_STATE_EOF \<or> st_state lx = STREAM_STATE_ERROR)"

text \<open>The character \<open>c\<close> is the one that was read last, so that it can be put back.\<close>

definition last_got :: "int \<Rightarrow> lex_t \<Rightarrow> bool" where
  "last_got c lx \<longleftrightarrow> 0 < buffer_pos lx \<and> sint (st_buffer lx ! (buffer_pos lx - 1)) = c \<and>
     st_state lx = STREAM_STATE_OK \<and> (c = 10 \<longrightarrow> last_column lx \<noteq> None)"

text \<open>The fields that the stream does not touch.\<close>

definition frame :: "lex_t \<Rightarrow> lex_t \<Rightarrow> bool" where
  "frame lx lx' \<longleftrightarrow> saved_text lx' = saved_text lx \<and> token lx' = token lx \<and> lex_val lx' = lex_val lx \<and>
     st_get lx' = st_get lx"

lemma frame_trans: "frame lx lx1 \<Longrightarrow> frame lx1 lx2 \<Longrightarrow> frame lx lx2"
  by (simp add: frame_def)

subsection \<open>Bytes and characters\<close>

lemma utf8_rest_high: "utf8_rest val us \<noteq> None \<Longrightarrow> b \<in> set us \<Longrightarrow> unat b div 64 = 2"
  by (induction us arbitrary: val) (auto simp: utf8_rest_nat split: if_splits)

lemma utf8_check_full_high:
  assumes "utf8_check_full bs k \<noteq> None" "b \<in> set (take (k - 1) (tl bs))"
  shows "unat b div 64 = 2"
proof -
  obtain val where "utf8_rest val (take (k - 1) (tl bs)) \<noteq> None"
    using assms(1) by (auto simp: utf8_check_full_def Let_def split: option.splits if_splits)
  then show ?thesis using assms(2) by (rule utf8_rest_high)
qed

lemma uint_byte_less: "uint (b :: byte) < numeral k \<longleftrightarrow> unat b < numeral k"
proof -
  have "unat b < numeral k \<longleftrightarrow> int (unat b) < int (numeral k)" by (rule of_nat_less_iff [symmetric])
  moreover have "int (unat b) = uint b" by simp
  ultimately show ?thesis by (simp only: of_nat_numeral)
qed

lemma uint_byte_nonneg: "uint (b :: byte) \<noteq> - 1"
  using unsigned_greater_eq [where 'a = int, of b] by linarith

lemma frame_refl [simp]: "frame lx lx"
  by (simp add: frame_def)

lemma stream_next_eq:
  assumes "length (st_buffer lx) = 5" "buffer_pos lx \<le> 4" "st_state lx = STREAM_STATE_OK"
  shows "\<exists>lx'. stream_next lx = Some (sint (st_buffer lx ! buffer_pos lx), lx') \<and> frame lx lx' \<and>
    st_buffer lx' = st_buffer lx \<and> buffer_pos lx' = buffer_pos lx + 1 \<and> st_state lx' = STREAM_STATE_OK \<and>
    st_data lx' = st_data lx \<and> lex_error lx' = lex_error lx \<and> last_got (sint (st_buffer lx ! buffer_pos lx)) lx'"
  using assms by (simp add: stream_next_def mem_get_def frame_def last_got_def Let_def)

lemma error_set_frame:
  assumes "strbuffer_ok (saved_text lx)"
  shows "\<exists>lx'. error_set lx msg = Some lx' \<and> frame lx lx' \<and> st_buffer lx' = st_buffer lx \<and>
    buffer_pos lx' = buffer_pos lx \<and> st_state lx' = st_state lx \<and> st_data lx' = st_data lx \<and>
    st_position lx' = st_position lx \<and> last_column lx' = last_column lx"
proof -
  have "\<exists>r. error_message lx msg = Some r"
    using strbuffer.chars_ok [OF assms] by (auto simp: error_message_def Let_def c_str_def)
  then obtain r where "error_message lx msg = Some r" ..
  then show ?thesis by (auto simp: error_set_def frame_def)
qed

abbreviation saved :: "lex_t \<Rightarrow> byte list" where
  "saved lx \<equiv> strbuffer_contents (saved_text lx)"

text \<open>The fields that belong to the token.\<close>

definition same_token :: "lex_t \<Rightarrow> lex_t \<Rightarrow> bool" where
  "same_token lx lx' \<longleftrightarrow> token lx' = token lx \<and> lex_val lx' = lex_val lx \<and> st_get lx' = st_get lx"

lemma same_token_refl [simp]: "same_token lx lx"
  by (simp add: same_token_def)

lemma same_token_trans: "same_token lx lx1 \<Longrightarrow> same_token lx1 lx2 \<Longrightarrow> same_token lx lx2"
  by (simp add: same_token_def)

lemma frame_same: "frame lx lx' \<Longrightarrow> same_token lx lx' \<and> saved_text lx' = saved_text lx"
  by (simp add: frame_def same_token_def)

lemma sint_byte_states: "unat b < 245 \<Longrightarrow> sint (b :: byte) \<noteq> STREAM_STATE_EOF \<and> sint b \<noteq> STREAM_STATE_ERROR"
proof -
  assume b: "unat b < 245"
  define n where "n = unat b"
  have "sint b = (if n < 128 then int n else int n - 256)" unfolding n_def by (rule sint_byte)
  then show ?thesis using b by (auto simp: stream_state_defs simp flip: n_def split: if_splits)
qed

text \<open>Bytes read beyond the end of the input are \<open>(char) EOF\<close>.\<close>

definition fill_bytes :: "nat \<Rightarrow> byte list \<Rightarrow> byte list" where
  "fill_bytes n xs = take n (xs @ replicate n 0xFF)"

lemma fill_bytes_0 [simp]: "fill_bytes 0 xs = []"
  by (simp add: fill_bytes_def)

lemma fill_bytes_Suc: "fill_bytes (Suc n) xs = (case xs of [] \<Rightarrow> 0xFF | b # _ \<Rightarrow> b) # fill_bytes n (tl xs)"
  by (cases xs) (simp add: fill_bytes_def, simp add: fill_bytes_def del: replicate_Suc)

lemma length_fill_bytes [simp]: "length (fill_bytes n xs) = n"
  by (simp add: fill_bytes_def)

lemma fill_bytes_full:
  assumes "0xFF \<notin> set (fill_bytes n xs)"
  shows "n \<le> length xs" "fill_bytes n xs = take n xs"
proof -
  show "n \<le> length xs"
  proof (rule ccontr)
    assume "\<not> n \<le> length xs"
    then have "(0xFF :: byte) \<in> set (replicate (n - length xs) 0xFF)" by simp
    then show False using assms by (simp add: fill_bytes_def)
  qed
  then show "fill_bytes n xs = take n xs" by (simp add: fill_bytes_def)
qed

lemma stream_out_ok:
  assumes "strbuffer_ok (saved_text lx)" "length (st_buffer lx) = 5"
  shows "\<exists>lx'. stream_out lx c = Some (STREAM_STATE_ERROR, lx') \<and> frame lx lx' \<and> stream_ok lx' \<and>
    st_state lx' = STREAM_STATE_ERROR"
  using error_set_frame [of "lx\<lparr>st_state := STREAM_STATE_ERROR\<rparr>" "''unable to decode byte 0x'' @ hex_string False (nat c)"] assms
  by (auto simp: stream_out_def frame_def stream_ok_def stream_state_defs)

section \<open>The contract of a source of bytes\<close>

locale byte_source =
  fixes get :: get_func and view :: "byte list \<Rightarrow> byte list"
  assumes get_nil: "view d = [] \<Longrightarrow> \<exists>d'. get d = (- 1, d') \<and> view d' = []"
    and get_cons: "view d = b # bs \<Longrightarrow> \<exists>d'. get d = (uint b, d') \<and> view d' = bs"
begin

definition ahead :: "lex_t \<Rightarrow> byte list" where
  "ahead lx = pending lx @ view (st_data lx)"

lemma stream_fill_bytes:
  assumes "st_get lx = get" "length (st_buffer lx) = 5" "i + n \<le> 5"
  shows "\<exists>lx'. stream_fill lx i n = Some lx' \<and> frame lx lx' \<and>
    st_buffer lx' = take i (st_buffer lx) @ fill_bytes n (view (st_data lx)) @ drop (i + n) (st_buffer lx) \<and>
    view (st_data lx') = drop n (view (st_data lx)) \<and> buffer_pos lx' = buffer_pos lx \<and>
    st_state lx' = st_state lx \<and> lex_error lx' = lex_error lx"
  using assms
proof (induction n arbitrary: lx i)
  case (Suc n)
  let ?d = "st_data lx"
  define b where "b = (case view ?d of [] \<Rightarrow> 0xFF | b # _ \<Rightarrow> b)"
  obtain c d where cd: "get ?d = (c, d)" "word_of_int c = b" "view d = tl (view ?d)"
    using get_nil [of ?d] get_cons [of ?d] by (cases "view ?d") (auto simp: b_def)
  let ?b = "take i (st_buffer lx) @ b # drop (Suc i) (st_buffer lx)"
  let ?lx = "lx\<lparr>st_data := d, st_buffer := ?b\<rparr>"
  have "stream_fill lx i (Suc n) = stream_fill ?lx (i + 1) n"
    using Suc.prems cd by (simp add: buffer_set_def mem_write_def)
  moreover obtain lx' where "stream_fill ?lx (i + 1) n = Some lx'" "frame ?lx lx'"
    "st_buffer lx' = take (i + 1) ?b @ fill_bytes n (view d) @ drop (i + 1 + n) ?b"
    "view (st_data lx') = drop n (view d)" "buffer_pos lx' = buffer_pos lx" "st_state lx' = st_state lx"
    "lex_error lx' = lex_error lx"
    using Suc.IH [of ?lx "i + 1"] Suc.prems by auto
  moreover have "fill_bytes (Suc n) (view ?d) = b # fill_bytes n (view d)"
    using cd(3) by (simp add: fill_bytes_Suc b_def)
  ultimately show ?case
    using Suc.prems cd(3) by (auto simp: frame_def drop_Suc min_def drop_tl add.commute)
qed auto

text \<open>Reading a character.\<close>

lemma pending_pos:
  assumes "stream_ok lx" "st_state lx = STREAM_STATE_OK" "mem_get (st_buffer lx) (buffer_pos lx) = Some b"
  shows "pending lx = (if b = 0 then [] else b # takeWhile (\<lambda>b. b \<noteq> 0) (drop (Suc (buffer_pos lx)) (st_buffer lx)))"
proof -
  have "buffer_pos lx < length (st_buffer lx)" "st_buffer lx ! buffer_pos lx = b"
    using assms by (auto simp: mem_get_def split: if_splits)
  then have "drop (buffer_pos lx) (st_buffer lx) = b # drop (Suc (buffer_pos lx)) (st_buffer lx)"
    by (metis Cons_nth_drop_Suc)
  then show ?thesis by (simp add: pending_def)
qed

text \<open>The next byte is in the buffer.\<close>

lemma stream_next_pending:
  assumes "length (st_buffer lx) = 5" "st_state lx = STREAM_STATE_OK" "buffer_pos lx \<le> 4"
    and "drop (buffer_pos lx) (st_buffer lx) = b # bs" "0 \<in> set bs"
  shows "\<exists>lx'. stream_next lx = Some (sint b, lx') \<and> frame lx lx' \<and> stream_ok lx' \<and>
    pending lx' = takeWhile (\<lambda>b. b \<noteq> 0) bs \<and> st_state lx' = STREAM_STATE_OK \<and>
    st_data lx' = st_data lx \<and> lex_error lx' = lex_error lx \<and> last_got (sint b) lx'"
proof -
  have b: "st_buffer lx ! buffer_pos lx = b" "drop (Suc (buffer_pos lx)) (st_buffer lx) = bs"
    using assms(4) nth_via_drop [OF assms(4)] by (simp_all add: drop_Suc tl_drop [symmetric])
  then have "buffer_pos lx < 4" using assms(1,3,5) by (cases "buffer_pos lx = 4") auto
  then show ?thesis
    using stream_next_eq [OF assms(1,3,2)] b assms(1,5) by (auto simp: pending_def stream_ok_def)
qed

lemma get_buffered:
  assumes ok: "stream_ok lx" "st_state lx = STREAM_STATE_OK" and p: "pending lx = b # bs"
  shows "\<exists>lx'. stream_get lx = Some (sint b, lx') \<and> frame lx lx' \<and> stream_ok lx' \<and> pending lx' = bs \<and>
    st_state lx' = STREAM_STATE_OK \<and> st_data lx' = st_data lx \<and> lex_error lx' = lex_error lx \<and> last_got (sint b) lx'"
proof -
  let ?rest = "drop (buffer_pos lx) (st_buffer lx)"
  have l: "length (st_buffer lx) = 5" "buffer_pos lx \<le> 4" "0 \<in> set ?rest" using ok by (auto simp: stream_ok_def)
  obtain r where r: "?rest = b # r" "b \<noteq> 0" "bs = takeWhile (\<lambda>b. b \<noteq> 0) r"
    using p by (cases ?rest) (auto simp: pending_def split: if_splits)
  then have "mem_get (st_buffer lx) (buffer_pos lx) = Some b"
    using l nth_via_drop [OF r(1)] by (simp add: mem_get_def)
  then have "stream_get lx = stream_next lx" using ok(2) r(2) by (simp add: stream_get_def)
  moreover have "0 \<in> set r" using l(3) r by simp
  ultimately show ?thesis using stream_next_pending [OF l(1) ok(2) l(2) r(1)] r(3) by auto
qed

lemma get_empty:
  assumes ok: "stream_ok lx" "st_state lx = STREAM_STATE_OK" "st_get lx = get" and p: "pending lx = []"
  shows "mem_get (st_buffer lx) (buffer_pos lx) = Some 0"
proof -
  have l: "length (st_buffer lx) = 5" "buffer_pos lx \<le> 4" using ok by (auto simp: stream_ok_def)
  then have "drop (buffer_pos lx) (st_buffer lx) = st_buffer lx ! buffer_pos lx # drop (Suc (buffer_pos lx)) (st_buffer lx)"
    by (simp add: Cons_nth_drop_Suc)
  with p have "st_buffer lx ! buffer_pos lx = 0" by (auto simp: pending_def split: if_splits)
  then show ?thesis using l by (simp add: mem_get_def)
qed

lemma get_eof:
  assumes ok: "stream_ok lx" "st_state lx = STREAM_STATE_OK" "st_get lx = get"
    and p: "pending lx = []" "view (st_data lx) = []"
  shows "\<exists>lx'. stream_get lx = Some (STREAM_STATE_EOF, lx') \<and> frame lx lx' \<and> stream_ok lx' \<and> ahead lx' = [] \<and>
    pending lx' = [] \<and> st_state lx' = STREAM_STATE_EOF \<and> lex_error lx' = lex_error lx"
  using get_empty [OF ok p(1)] get_nil [OF p(2)] ok p
  by (auto simp: stream_get_def frame_def stream_ok_def ahead_def pending_def stream_state_defs)

lemma get_ascii:
  assumes ok: "stream_ok lx" "st_state lx = STREAM_STATE_OK" "st_get lx = get"
    and p: "pending lx = []" "view (st_data lx) = b # bs" "unat b < 128"
  shows "\<exists>lx'. stream_get lx = Some (sint b, lx') \<and> frame lx lx' \<and> stream_ok lx' \<and> pending lx' = [] \<and>
    view (st_data lx') = bs \<and> st_state lx' = STREAM_STATE_OK \<and> lex_error lx' = lex_error lx \<and> last_got (sint b) lx'"
proof -
  obtain d where d: "get (st_data lx) = (uint b, d)" "view d = bs" using get_cons [OF p(2)] by blast
  have l: "length (st_buffer lx) = 5" using ok by (simp add: stream_ok_def)
  let ?b = "b # 0 # drop 2 (st_buffer lx)"
  let ?lx = "lx\<lparr>st_data := d, buffer_pos := 0, st_buffer := ?b\<rparr>"
  have "uint b \<noteq> - 1" "\<not> 128 \<le> uint b" using p(3) by (simp_all add: uint_byte_nonneg uint_byte_less not_le)
  then have "stream_get lx = stream_next ?lx"
    using get_empty [OF ok p(1)] ok(2,3) d(1) l
    by (simp add: stream_get_def buffer_set_def mem_write_def drop_Suc numeral_2_eq_2)
  moreover have "\<exists>lx'. stream_next ?lx = Some (sint b, lx') \<and> frame ?lx lx' \<and> stream_ok lx' \<and>
      pending lx' = takeWhile (\<lambda>b. b \<noteq> 0) (0 # drop 2 (st_buffer lx)) \<and> st_state lx' = STREAM_STATE_OK \<and>
      st_data lx' = st_data ?lx \<and> lex_error lx' = lex_error ?lx \<and> last_got (sint b) lx'"
    by (rule stream_next_pending) (use l ok(2) in auto)
  ultimately show ?thesis using d(2) by (auto simp: frame_def)
qed

lemma get_multi:
  assumes ok: "stream_ok lx" "st_state lx = STREAM_STATE_OK" "st_get lx = get" "strbuffer_ok (saved_text lx)"
    and p: "pending lx = []" "view (st_data lx) = b # bs" "\<not> unat b < 128"
  shows "(\<exists>lx'. stream_get lx = Some (sint b, lx') \<and> frame lx lx' \<and> stream_ok lx' \<and>
      bs = pending lx' @ view (st_data lx') \<and> utf8_check_bytes (b # pending lx') \<and>
      st_state lx' = STREAM_STATE_OK \<and> lex_error lx' = lex_error lx \<and> last_got (sint b) lx') \<or>
    \<not> utf8_check_bytes (b # bs) \<and>
    (\<exists>lx'. stream_get lx = Some (STREAM_STATE_ERROR, lx') \<and> frame lx lx' \<and> stream_ok lx' \<and>
      st_state lx' = STREAM_STATE_ERROR)"
proof -
  obtain d where d: "get (st_data lx) = (uint b, d)" "view d = bs" using get_cons [OF p(2)] by blast
  have l: "length (st_buffer lx) = 5" using ok by (simp add: stream_ok_def)
  let ?k = "utf8_check_first b" and ?lx = "lx\<lparr>st_data := d, buffer_pos := 0, st_buffer := b # drop 1 (st_buffer lx)\<rparr>"
  have u: "uint b \<noteq> - 1" "128 \<le> uint b" "uint b \<le> 255"
    using p(3) unat_byte_less [of b] by (simp_all add: uint_byte_nonneg flip: uint_byte_less not_less)
  have k2: "?k < 2 \<longleftrightarrow> ?k = 0" using p(3) by (auto simp: utf8_check_first_nat)
  have get: "stream_get lx = (if ?k = 0 then stream_out ?lx (uint b) else do {
      lx \<leftarrow> stream_fill ?lx 1 (?k - 1);
      if utf8_check_full (st_buffer lx) ?k = None then stream_out lx (uint b)
      else do { lx \<leftarrow> buffer_set lx ?k 0; stream_next lx } })"
    using get_empty [OF ok(1-3) p(1)] ok(2,3) d(1) l u k2
    by (simp add: stream_get_def buffer_set_def [of _ 0] mem_write_def Let_def)
  show ?thesis
  proof (cases "?k = 0")
    case True
    then have "\<not> utf8_check_bytes (b # bs)" by (simp add: utf8_check_bytes.simps)
    then show ?thesis using True get stream_out_ok [of ?lx "uint b"] ok(4) l by (auto simp: frame_def)
  next
    case False
    then have k: "?k = 2 \<or> ?k = 3 \<or> ?k = 4" using p(3) by (auto simp: utf8_check_first_nat split: if_splits)
    let ?F = "fill_bytes (?k - 1) bs"
    obtain lx1 where fill: "stream_fill ?lx 1 (?k - 1) = Some lx1" "frame ?lx lx1"
      "st_buffer lx1 = b # ?F @ drop ?k (st_buffer lx)" "view (st_data lx1) = drop (?k - 1) bs"
      "buffer_pos lx1 = 0" "st_state lx1 = STREAM_STATE_OK" "lex_error lx1 = lex_error lx"
    proof -
      have "1 + (?k - 1) = ?k" "1 + (?k - 1) \<le> 5" using k by auto
      then show thesis
        using that stream_fill_bytes [of ?lx 1 "?k - 1"] l ok d(2) by (auto simp: drop_Cons')
    qed
    have l1: "length (st_buffer lx1) = 5" using fill(3) k l by auto
    show ?thesis
    proof (cases "utf8_check_full (st_buffer lx1) ?k")
      case None
      have "\<not> utf8_check_bytes (b # bs)"
      proof
        assume u: "utf8_check_bytes (b # bs)"
        then have "?k \<le> length (b # bs)" "utf8_check_full (b # bs) ?k \<noteq> None"
          using k by (auto simp: utf8_check_bytes.simps Let_def split: if_splits)
        then have "?F = take (?k - 1) bs" by (simp add: fill_bytes_def)
        then have "utf8_check_full (st_buffer lx1) ?k = utf8_check_full (b # bs) ?k"
          using fill(3) k \<open>?k \<le> length (b # bs)\<close> by (auto simp: utf8_check_full_def)
        with None \<open>utf8_check_full (b # bs) ?k \<noteq> None\<close> show False by simp
      qed
      moreover have "\<exists>lx'. stream_get lx = Some (STREAM_STATE_ERROR, lx') \<and> frame lx1 lx' \<and> stream_ok lx' \<and>
          st_state lx' = STREAM_STATE_ERROR"
        using get False fill(1,2) None stream_out_ok [of lx1 "uint b"] l1 ok(4) by (auto simp: frame_def)
      ultimately show ?thesis using fill(2) by (auto simp: frame_def)
    next
      case (Some n)
      have high: "unat c div 64 = 2" if "c \<in> set ?F" for c
        by (rule utf8_check_full_high [of "st_buffer lx1" ?k]) (use Some that fill(3) in auto)
      have nz: "c \<noteq> 0" "c \<noteq> 0xFF" if "c \<in> set ?F" for c using high [OF that] by auto
      then have F: "?k - 1 \<le> length bs" "?F = take (?k - 1) bs" using fill_bytes_full [of "?k - 1" bs] by blast+
      let ?r = "?F @ 0 # drop (Suc ?k) (st_buffer lx)"
      let ?lx2 = "lx1\<lparr>st_buffer := b # ?r\<rparr>"
      have "buffer_set lx1 ?k 0 = Some ?lx2"
        using fill(3) k l by (auto simp: buffer_set_def mem_write_def take_Cons' drop_Cons')
      then have g2: "stream_get lx = stream_next ?lx2" using get False fill(1) Some by simp
      have "takeWhile (\<lambda>b. b \<noteq> 0) ?r = ?F" using nz by (subst takeWhile_append2) auto
      moreover have "\<exists>lx'. stream_next ?lx2 = Some (sint b, lx') \<and> frame ?lx2 lx' \<and> stream_ok lx' \<and>
          pending lx' = takeWhile (\<lambda>b. b \<noteq> 0) ?r \<and> st_state lx' = STREAM_STATE_OK \<and>
          st_data lx' = st_data ?lx2 \<and> lex_error lx' = lex_error ?lx2 \<and> last_got (sint b) lx'"
        by (rule stream_next_pending) (use fill(5,6) k l in auto)
      moreover have "utf8_check_bytes (b # ?F)"
      proof -
        have "utf8_check_full (b # ?F) ?k = Some n" using Some fill(3) k by (auto simp: utf8_check_full_def)
        then show ?thesis using k by (auto simp: utf8_check_bytes.simps Let_def)
      qed
      ultimately show ?thesis using g2 fill(2,4,7) F by (auto simp: frame_def)
    qed
  qed
qed

section \<open>Reading and putting back\<close>

text \<open>The number of bytes a lexer can still read, and the invariant of a lexer: the text of the token
  and the rest of the input together stay below the limit of the text buffer.\<close>

definition left :: "lex_t \<Rightarrow> nat" where
  "left lx = (if st_state lx = STREAM_STATE_OK then length (ahead lx) else 0)"

definition lex_ok :: "lex_t \<Rightarrow> bool" where
  "lex_ok lx \<longleftrightarrow> stream_ok lx \<and> strbuffer_ok (saved_text lx) \<and> st_get lx = get \<and>
     (st_state lx = STREAM_STATE_OK \<longrightarrow> (\<forall>b \<in> set (pending lx). unat b < 245)) \<and>
     length (saved lx) + left lx < 2 ^ 63"

text \<open>A byte is read, from the buffer or with the UTF-8 sequence that it begins.\<close>

definition reads_byte :: "bool \<Rightarrow> lex_t \<Rightarrow> byte \<Rightarrow> lex_t \<Rightarrow> bool" where
  "reads_byte keep lx b lx' \<longleftrightarrow> lex_ok lx' \<and> same_token lx lx' \<and>
     unat b < 245 \<and> st_state lx = STREAM_STATE_OK \<and> st_state lx' = STREAM_STATE_OK \<and>
     ahead lx = b # ahead lx' \<and> last_got (sint b) lx' \<and> lex_error lx' = lex_error lx \<and>
     saved lx' = saved lx @ (if keep then [b] else []) \<and>
     (pending lx = b # pending lx' \<and> st_data lx' = st_data lx \<or>
      pending lx = [] \<and> utf8_check_bytes (b # pending lx'))"

text \<open>No byte is read: the input has ended or is not UTF-8.\<close>

definition reads_end :: "lex_t \<Rightarrow> int \<Rightarrow> lex_t \<Rightarrow> bool" where
  "reads_end lx c lx' \<longleftrightarrow> lex_ok lx' \<and> same_token lx lx' \<and> saved lx' = saved lx \<and>
     (c = STREAM_STATE_EOF \<and> st_state lx' = STREAM_STATE_EOF \<and> lex_error lx' = lex_error lx \<and>
       (st_state lx = STREAM_STATE_OK \<and> ahead lx = [] \<or> st_state lx = STREAM_STATE_EOF) \<or>
      c = STREAM_STATE_ERROR \<and> st_state lx' = STREAM_STATE_ERROR \<and>
       (st_state lx = STREAM_STATE_OK \<and> pending lx = [] \<and> \<not> utf8_check_bytes (view (st_data lx)) \<or>
        st_state lx = STREAM_STATE_ERROR))"

definition reads :: "bool \<Rightarrow> lex_t \<Rightarrow> int \<Rightarrow> lex_t \<Rightarrow> bool" where
  "reads keep lx c lx' \<longleftrightarrow> reads_end lx c lx' \<or> (\<exists>b. c = sint b \<and> reads_byte keep lx b lx')"

lemma lex_ok_frame:
  assumes "lex_ok lx" "frame lx lx'" "stream_ok lx'" "left lx' \<le> left lx"
    and "st_state lx' = STREAM_STATE_OK \<Longrightarrow> \<forall>b \<in> set (pending lx'). unat b < 245"
  shows "lex_ok lx'"
  using assms by (simp add: lex_ok_def frame_def)

lemma lex_ok_limit: "lex_ok lx \<Longrightarrow> length (saved lx) + left lx < 2 ^ 63"
  by (simp add: lex_ok_def)

lemma stream_get_reads:
  assumes ok: "lex_ok lx"
  shows "\<exists>c lx'. stream_get lx = Some (c, lx') \<and> reads False lx c lx'"
proof (cases "st_state lx = STREAM_STATE_OK")
  case False
  then have "stream_get lx = Some (st_state lx, lx)" by (simp add: stream_get_def)
  then show ?thesis using ok False by (auto simp: reads_def reads_end_def lex_ok_def stream_ok_def)
next
  case True
  have s: "stream_ok lx" "st_get lx = get" "strbuffer_ok (saved_text lx)" using ok by (simp_all add: lex_ok_def)
  have small: "\<forall>b \<in> set (pending lx). unat b < 245" using ok True by (simp add: lex_ok_def)
  show ?thesis
  proof (cases "pending lx")
    case (Cons b bs)
    then obtain lx' where "stream_get lx = Some (sint b, lx')" "frame lx lx'" "stream_ok lx'" "pending lx' = bs"
      "st_state lx' = STREAM_STATE_OK" "st_data lx' = st_data lx" "lex_error lx' = lex_error lx" "last_got (sint b) lx'"
      using get_buffered [OF s(1) True] by blast
    note * = this
    have a: "ahead lx = b # ahead lx'" using *(4,6) Cons by (simp add: ahead_def)
    then have "lex_ok lx'" using lex_ok_frame [OF ok *(2,3)] *(4,5) small Cons True by (simp add: left_def)
    then have "reads_byte False lx b lx'"
      using a * True small Cons frame_same [OF *(2)] by (simp add: reads_byte_def)
    then show ?thesis using *(1) by (auto simp: reads_def)
  next
    case Nil
    show ?thesis
    proof (cases "view (st_data lx)")
      case Nil
      then obtain lx' where *: "stream_get lx = Some (STREAM_STATE_EOF, lx')" "frame lx lx'" "stream_ok lx'"
        "st_state lx' = STREAM_STATE_EOF" "lex_error lx' = lex_error lx"
        using get_eof [OF s(1) True s(2) \<open>pending lx = []\<close> Nil] by blast
      then have "reads_end lx STREAM_STATE_EOF lx'"
        using lex_ok_frame [OF ok *(2,3)] frame_same [OF *(2)] Nil True \<open>pending lx = []\<close>
        by (simp add: reads_end_def left_def ahead_def stream_state_defs)
      then show ?thesis using *(1) by (auto simp: reads_def)
    next
      case (Cons b bs)
      have "(\<exists>lx'. stream_get lx = Some (sint b, lx') \<and> frame lx lx' \<and> stream_ok lx' \<and>
          bs = pending lx' @ view (st_data lx') \<and> utf8_check_bytes (b # pending lx') \<and>
          st_state lx' = STREAM_STATE_OK \<and> lex_error lx' = lex_error lx \<and> last_got (sint b) lx') \<or>
        \<not> utf8_check_bytes (b # bs) \<and> (\<exists>lx'. stream_get lx = Some (STREAM_STATE_ERROR, lx') \<and> frame lx lx' \<and>
          stream_ok lx' \<and> st_state lx' = STREAM_STATE_ERROR)"
      proof (cases "unat b < 128")
        case True
        then have "utf8_check_bytes [b]" by (simp add: utf8_ascii_bytes)
        then show ?thesis
          using get_ascii [OF s(1) \<open>st_state lx = STREAM_STATE_OK\<close> s(2) \<open>pending lx = []\<close> Cons True] by auto
      qed (rule get_multi [OF s(1) True s(2,3) \<open>pending lx = []\<close> Cons])
      then show ?thesis
      proof (elim disjE conjE exE)
        fix lx' assume *: "stream_get lx = Some (sint b, lx')" "frame lx lx'" "stream_ok lx'"
          "bs = pending lx' @ view (st_data lx')" "utf8_check_bytes (b # pending lx')"
          "st_state lx' = STREAM_STATE_OK" "lex_error lx' = lex_error lx" "last_got (sint b) lx'"
        have "\<forall>c \<in> set (b # pending lx'). unat c < 245" using utf8_check_bytes_less [OF *(5)] by blast
        moreover have "ahead lx = b # ahead lx'" using *(4) Cons \<open>pending lx = []\<close> by (simp add: ahead_def)
        ultimately have "reads_byte False lx b lx'"
          using * True lex_ok_frame [OF ok *(2,3)] frame_same [OF *(2)] \<open>pending lx = []\<close>
          by (simp add: reads_byte_def left_def)
        then show ?thesis using *(1) by (auto simp: reads_def)
      next
        fix lx' assume *: "\<not> utf8_check_bytes (b # bs)" "stream_get lx = Some (STREAM_STATE_ERROR, lx')" "frame lx lx'"
          "stream_ok lx'" "st_state lx' = STREAM_STATE_ERROR"
        then have "reads_end lx STREAM_STATE_ERROR lx'"
          using lex_ok_frame [OF ok *(3,4)] frame_same [OF *(3)] Cons True \<open>pending lx = []\<close>
          by (simp add: reads_end_def left_def stream_state_defs)
        then show ?thesis using *(2) by (auto simp: reads_def)
      qed
    qed
  qed
qed

lemma reads_endE:
  assumes "reads_end lx c lx'"
  shows "lex_ok lx'" "same_token lx lx'" "saved lx' = saved lx" "c = STREAM_STATE_EOF \<or> c = STREAM_STATE_ERROR"
    "left lx' = 0" "st_state lx' = c"
  using assms by (auto simp: reads_end_def left_def stream_state_defs)

lemma reads_byteE:
  assumes "reads_byte keep lx b lx'"
  shows "lex_ok lx'" "same_token lx lx'" "ahead lx = b # ahead lx'" "left lx = Suc (left lx')"
    "saved lx' = saved lx @ (if keep then [b] else [])" "unat b < 245" "st_state lx = STREAM_STATE_OK"
    "st_state lx' = STREAM_STATE_OK" "last_got (sint b) lx'" "lex_error lx' = lex_error lx"
    "sint b \<noteq> STREAM_STATE_EOF" "sint b \<noteq> STREAM_STATE_ERROR"
  using assms sint_byte_states [of b] by (auto simp: reads_byte_def left_def)

lemma lex_save_eq:
  assumes "strbuffer_ok (saved_text lx)" "Suc (length (saved lx)) < 2 ^ 63"
  obtains t where "lex_save lx c = Some (lx\<lparr>saved_text := t\<rparr>)" "strbuffer_ok t"
    "strbuffer_contents t = saved lx @ [word_of_int c]"
  using strbuffer.append_ok [OF assms(1), of "[word_of_int c]"] assms(2)
  by (auto simp: lex_save_def strbuffer_append_byte_def)

lemma pending_saved_text [simp]: "pending (lx\<lparr>saved_text := t\<rparr>) = pending lx" "left (lx\<lparr>saved_text := t\<rparr>) = left lx"
  "ahead (lx\<lparr>saved_text := t\<rparr>) = ahead lx" "stream_ok (lx\<lparr>saved_text := t\<rparr>) = stream_ok lx"
  "last_got c (lx\<lparr>saved_text := t\<rparr>) = last_got c lx" "same_token lx (lx'\<lparr>saved_text := t\<rparr>) = same_token lx lx'"
  by (simp_all add: pending_def left_def ahead_def stream_ok_def last_got_def same_token_def)

lemma lex_save_reads:
  assumes "lex_ok lx" "reads_byte False lx b lx'"
  shows "\<exists>lx''. lex_save lx' (sint b) = Some lx'' \<and> reads_byte True lx b lx''"
proof -
  note r = reads_byteE [OF assms(2)]
  have "length (saved lx') + Suc (left lx') < 2 ^ 63" using lex_ok_limit [OF assms(1)] r(4,5) by simp
  moreover have "strbuffer_ok (saved_text lx')" using r(1) by (simp add: lex_ok_def)
  ultimately obtain t where "lex_save lx' (sint b) = Some (lx'\<lparr>saved_text := t\<rparr>)" "strbuffer_ok t"
    "strbuffer_contents t = saved lx' @ [b]"
    using lex_save_eq [of lx' "sint b"] by auto
  moreover from this have "reads_byte True lx b (lx'\<lparr>saved_text := t\<rparr>)"
    using assms(2) \<open>length (saved lx') + Suc (left lx') < 2 ^ 63\<close> by (simp add: reads_byte_def lex_ok_def)
  ultimately show ?thesis by blast
qed

lemma lex_get_save_reads:
  assumes ok: "lex_ok lx"
  shows "\<exists>c lx'. lex_get_save lx = Some (c, lx') \<and> reads True lx c lx'"
proof -
  obtain c lx' where g: "stream_get lx = Some (c, lx')" "reads False lx c lx'" using stream_get_reads [OF ok] by blast
  then consider "reads_end lx c lx'" | b where "c = sint b" "reads_byte False lx b lx'" by (auto simp: reads_def)
  then show ?thesis
  proof cases
    case 1
    then show ?thesis using g(1) reads_endE(4) [OF 1] by (auto simp: lex_get_save_def reads_def)
  next
    case 2
    then show ?thesis
      using g(1) reads_byteE(11,12) [OF 2(2)] lex_save_reads [OF ok 2(2)] by (auto simp: lex_get_save_def reads_def)
  qed
qed

lemma stream_unget_byte:
  assumes r: "reads_byte keep lx b lx'"
  obtains lx'' where "stream_unget lx' (sint b) = Some lx''" "frame lx' lx''" "stream_ok lx''"
    "st_state lx'' = STREAM_STATE_OK" "pending lx'' = (if b = 0 then [] else b # pending lx')"
    "st_data lx'' = st_data lx'" "lex_error lx'' = lex_error lx'"
proof -
  let ?p = "buffer_pos lx' - 1"
  note r = reads_byteE [OF r]
  have s: "length (st_buffer lx') = 5" "buffer_pos lx' \<le> 4" "0 \<in> set (drop (buffer_pos lx') (st_buffer lx'))"
    using r(1,8) by (auto simp: lex_ok_def stream_ok_def)
  have p: "0 < buffer_pos lx'" "st_buffer lx' ! ?p = b" "sint b = 10 \<Longrightarrow> last_column lx' \<noteq> None"
    using r(9) by (auto simp: last_got_def sint_byte_eq)
  then have d: "drop ?p (st_buffer lx') = b # drop (buffer_pos lx') (st_buffer lx')"
    using Cons_nth_drop_Suc [of ?p "st_buffer lx'"] s by simp
  have "\<exists>lx''. stream_unget lx' (sint b) = Some lx'' \<and> frame lx' lx'' \<and> st_buffer lx'' = st_buffer lx' \<and>
      buffer_pos lx'' = ?p \<and> st_state lx'' = STREAM_STATE_OK \<and> st_data lx'' = st_data lx' \<and> lex_error lx'' = lex_error lx'"
    using p s(1,2) r(8,11,12) by (auto simp: stream_unget_def mem_get_def frame_def Let_def)
  then obtain lx'' where *: "stream_unget lx' (sint b) = Some lx''" "frame lx' lx''" "st_buffer lx'' = st_buffer lx'"
    "buffer_pos lx'' = ?p" "st_state lx'' = STREAM_STATE_OK" "st_data lx'' = st_data lx'" "lex_error lx'' = lex_error lx'"
    by blast
  moreover from this have "stream_ok lx''" using s d by (auto simp: stream_ok_def)
  moreover have "pending lx'' = (if b = 0 then [] else b # pending lx')" using *(3,4) d by (simp add: pending_def)
  ultimately show thesis using that by blast
qed

text \<open>After a character has been put back the lexer stands where it stood before; only a zero byte is
  lost.\<close>

definition put_back :: "lex_t \<Rightarrow> byte \<Rightarrow> lex_t \<Rightarrow> lex_t \<Rightarrow> bool" where
  "put_back lx b lx' lx'' \<longleftrightarrow> lex_ok lx'' \<and> same_token lx lx'' \<and> saved lx'' = saved lx \<and>
     st_state lx'' = STREAM_STATE_OK \<and> lex_error lx'' = lex_error lx \<and> left lx'' \<le> left lx \<and>
     st_data lx'' = st_data lx' \<and> pending lx'' = (if b = 0 then [] else b # pending lx') \<and>
     (b \<noteq> 0 \<longrightarrow> ahead lx'' = ahead lx)"

lemma put_backI:
  assumes ok: "lex_ok lx" and r: "reads_byte keep lx b lx'"
    and f: "stream_ok lx''" "strbuffer_ok (saved_text lx'')" "saved lx'' = saved lx" "same_token lx' lx''"
    "st_state lx'' = STREAM_STATE_OK" "pending lx'' = (if b = 0 then [] else b # pending lx')"
    "st_data lx'' = st_data lx'" "lex_error lx'' = lex_error lx'"
  shows "put_back lx b lx' lx''"
proof -
  note r' = reads_byteE [OF r]
  have a: "b \<noteq> 0 \<Longrightarrow> ahead lx'' = ahead lx" using f(6,7) r'(3) by (simp add: ahead_def)
  have l: "left lx'' \<le> left lx" using f(5,6,7) r'(3,7) by (simp add: left_def ahead_def)
  have "\<forall>c \<in> set (pending lx''). unat c < 245" using f(6) r'(1,6,8) by (auto simp: lex_ok_def)
  moreover have "st_get lx'' = get" using f(4) r'(1) by (simp add: lex_ok_def same_token_def)
  ultimately have "lex_ok lx''" using f l lex_ok_limit [OF ok] by (simp add: lex_ok_def)
  then show ?thesis
    using f a l r'(10) same_token_trans [OF r'(2) f(4)] by (simp add: put_back_def)
qed

lemma lex_unget_byte:
  assumes ok: "lex_ok lx" and r: "reads_byte False lx b lx'"
  shows "\<exists>lx''. lex_unget lx' (sint b) = Some lx'' \<and> put_back lx b lx' lx''"
proof -
  obtain lx'' where u: "stream_unget lx' (sint b) = Some lx''" "frame lx' lx''" "stream_ok lx''"
    "st_state lx'' = STREAM_STATE_OK" "pending lx'' = (if b = 0 then [] else b # pending lx')"
    "st_data lx'' = st_data lx'" "lex_error lx'' = lex_error lx'" using stream_unget_byte [OF r] .
  have "put_back lx b lx' lx''"
    by (rule put_backI [OF ok r u(3)]) (use u frame_same [OF u(2)] reads_byteE [OF r] in \<open>simp_all add: lex_ok_def\<close>)
  then show ?thesis using u(1) by (auto simp: lex_unget_def)
qed

lemma lex_unget_unsave_byte:
  assumes ok: "lex_ok lx" and r: "reads_byte True lx b lx'"
  shows "\<exists>lx''. lex_unget_unsave lx' (sint b) = Some lx'' \<and> put_back lx b lx' lx''"
proof -
  note r' = reads_byteE [OF r]
  obtain lx1 where u: "stream_unget lx' (sint b) = Some lx1" "frame lx' lx1" "stream_ok lx1"
    "st_state lx1 = STREAM_STATE_OK" "pending lx1 = (if b = 0 then [] else b # pending lx')"
    "st_data lx1 = st_data lx'" "lex_error lx1 = lex_error lx'" using stream_unget_byte [OF r] .
  have "strbuffer_ok (saved_text lx1)" "saved lx1 = saved lx @ [b]"
    using r'(1,5) frame_same [OF u(2)] by (simp_all add: lex_ok_def)
  then obtain t where t: "strbuffer_pop (saved_text lx1) = Some (b, t)" "strbuffer_ok t" "strbuffer_contents t = saved lx"
    using strbuffer.pop_ok by blast
  have "put_back lx b lx' (lx1\<lparr>saved_text := t\<rparr>)"
    by (rule put_backI [OF ok r]) (use u t frame_same [OF u(2)] in simp_all)
  moreover have "lex_unget_unsave lx' (sint b) = Some (lx1\<lparr>saved_text := t\<rparr>)"
    using u(1) t(1) r'(11,12) by (simp add: lex_unget_unsave_def)
  ultimately show ?thesis by blast
qed

lemma lex_unget_end: "reads_end lx c lx' \<Longrightarrow> lex_unget lx' c = Some lx' \<and> lex_unget_unsave lx' c = Some lx'"
  using reads_endE(4) by (auto simp: lex_unget_def lex_unget_unsave_def stream_unget_def)

text \<open>What all this means for a scanner: it moves forward.\<close>

definition moves :: "lex_t \<Rightarrow> lex_t \<Rightarrow> bool" where
  "moves lx lx' \<longleftrightarrow> lex_ok lx' \<and> st_get lx' = st_get lx \<and> left lx' \<le> left lx"

lemma moves_refl: "lex_ok lx \<Longrightarrow> moves lx lx"
  by (simp add: moves_def)

lemma moves_trans: "moves lx lx1 \<Longrightarrow> moves lx1 lx2 \<Longrightarrow> moves lx lx2"
  by (simp add: moves_def)

lemma moves_ok: "moves lx lx' \<Longrightarrow> lex_ok lx'"
  by (simp add: moves_def)

lemma reads_moves:
  assumes "reads keep lx c lx'"
  shows "moves lx lx'"
    and "c \<noteq> STREAM_STATE_EOF \<Longrightarrow> c \<noteq> STREAM_STATE_ERROR \<Longrightarrow> left lx = Suc (left lx')"
  using assms by (auto simp: reads_def moves_def same_token_def dest: reads_endE reads_byteE)

lemma put_back_moves: "put_back lx b lx' lx'' \<Longrightarrow> moves lx lx''"
  by (simp add: put_back_def moves_def same_token_def)

lemma lex_unget_moves:
  assumes ok: "lex_ok lx" and r: "reads False lx c lx'"
  shows "\<exists>lx''. lex_unget lx' c = Some lx'' \<and> moves lx lx'' \<and> saved lx'' = saved lx \<and> same_token lx lx''"
  using r unfolding reads_def
proof (elim disjE exE conjE)
  assume *: "reads_end lx c lx'"
  then show ?thesis using lex_unget_end [OF *] reads_moves(1) [OF r] reads_endE [OF *] by blast
next
  fix b assume *: "c = sint b" "reads_byte False lx b lx'"
  then obtain lx'' where "lex_unget lx' c = Some lx''" "put_back lx b lx' lx''"
    using lex_unget_byte [OF ok] by blast
  then show ?thesis using put_back_moves by (auto simp: put_back_def)
qed

lemma lex_unget_unsave_moves:
  assumes ok: "lex_ok lx" and r: "reads True lx c lx'"
  shows "\<exists>lx''. lex_unget_unsave lx' c = Some lx'' \<and> moves lx lx'' \<and> saved lx'' = saved lx \<and> same_token lx lx''"
  using r unfolding reads_def
proof (elim disjE exE conjE)
  assume *: "reads_end lx c lx'"
  then show ?thesis using lex_unget_end [OF *] reads_moves(1) [OF r] reads_endE [OF *] by blast
next
  fix b assume *: "c = sint b" "reads_byte True lx b lx'"
  then obtain lx'' where "lex_unget_unsave lx' c = Some lx''" "put_back lx b lx' lx''"
    using lex_unget_unsave_byte [OF ok] by blast
  then show ?thesis using put_back_moves by (auto simp: put_back_def)
qed

lemma error_set_moves:
  assumes ok: "lex_ok lx"
  shows "\<exists>lx'. error_set lx msg = Some lx' \<and> moves lx lx' \<and> same_token lx lx'"
proof -
  obtain lx' where *: "error_set lx msg = Some lx'" "frame lx lx'" "st_buffer lx' = st_buffer lx"
    "buffer_pos lx' = buffer_pos lx" "st_state lx' = st_state lx" "st_data lx' = st_data lx"
    using error_set_frame [of lx msg] ok by (auto simp: lex_ok_def)
  then have "stream_ok lx'" "left lx' = left lx" "pending lx' = pending lx"
    using ok by (simp_all add: lex_ok_def stream_ok_def left_def ahead_def pending_def)
  then have "moves lx lx'"
    using lex_ok_frame [OF ok *(2)] * ok frame_same [OF *(2)] by (simp add: moves_def same_token_def lex_ok_def)
  then show ?thesis using *(1) frame_same [OF *(2)] by blast
qed

end

section \<open>The sources of load.c\<close>

interpretation buffer: byte_source buffer_get "\<lambda>d. d"
  by unfold_locales (simp_all add: buffer_get_def)

interpretation string: byte_source string_get "takeWhile (\<lambda>b. b \<noteq> 0)"
proof
  fix d :: "byte list" assume "takeWhile (\<lambda>b. b \<noteq> 0) d = []"
  then show "\<exists>d'. string_get d = (- 1, d') \<and> takeWhile (\<lambda>b. b \<noteq> 0) d' = []"
    by (cases d) (auto simp: string_get_def split: if_splits)
next
  fix d bs :: "byte list" and b assume "takeWhile (\<lambda>b. b \<noteq> 0) d = b # bs"
  then show "\<exists>d'. string_get d = (uint b, d') \<and> takeWhile (\<lambda>b. b \<noteq> 0) d' = bs"
    by (cases d) (auto simp: string_get_def split: if_splits)
qed

end
