(* ===== verification/Json_Escape.thy ===== *)
theory Json_Escape
  imports Json_Lex
begin

text \<open>
  The source text of a string token between its quotes, as the first loop of \<open>lex_scan_string\<close>
  accepts it (\<open>escaped\<close>), and what the second loop makes of it: the copy stays inside the
  allocated string, no assertion fails, and the result is UTF-8 without zero bytes.
\<close>

section \<open>Escaped text\<close>

definition raw_byte :: "byte \<Rightarrow> bool" where
  "raw_byte b \<longleftrightarrow> b \<noteq> 0x22 \<and> b \<noteq> 0x5C \<and> 32 \<le> unat b"

definition hex_bytes :: "byte list \<Rightarrow> bool" where
  "hex_bytes hs \<longleftrightarrow> length hs = 4 \<and> (\<forall>h \<in> set hs. l_isxdigit (sint h))"

inductive escaped :: "byte list \<Rightarrow> bool" where
  escaped_nil: "escaped []"
| escaped_raw: "raw_byte b \<Longrightarrow> escaped bs \<Longrightarrow> escaped (b # bs)"
| escaped_short: "short_escape c \<noteq> None \<Longrightarrow> escaped bs \<Longrightarrow> escaped (0x5C # c # bs)"
| escaped_unicode: "hex_bytes hs \<Longrightarrow> escaped bs \<Longrightarrow> escaped (0x5C # 0x75 # hs @ bs)"

inductive_cases escapedE: "escaped (b # bs)"

lemma escaped_append: "escaped as \<Longrightarrow> escaped bs \<Longrightarrow> escaped (as @ bs)"
  by (induction rule: escaped.induct) (simp_all add: escaped.intros)

lemma escaped_high: "escaped (hs @ bs) \<Longrightarrow> \<forall>b \<in> set hs. 128 \<le> unat b \<Longrightarrow> escaped bs"
  by (induction hs) (auto elim: escapedE)

subsection \<open>Unicode escapes\<close>

lemma hex_value_Some: "l_isxdigit (sint b) \<Longrightarrow> \<exists>v < 16. hex_value b = Some v"
  by (auto simp: hex_value_def l_is_defs)

lemma hex_step: "a < k \<Longrightarrow> v < 16 \<Longrightarrow> a * 16 + v < k * (16 :: nat)"
  by linarith

lemma decode_hex_bytes:
  assumes "hex_bytes hs"
  shows "\<exists>v < 0x10000. decode_unicode_escape (0x75 # hs @ bs) = Some v"
proof -
  obtain a b c d where hs: "hs = [a, b, c, d]"
    using assms by (auto simp: hex_bytes_def numeral_eq_Suc length_Suc_conv)
  then obtain va vb vc vd where "hex_value a = Some va" "hex_value b = Some vb" "hex_value c = Some vc"
    "hex_value d = Some vd" and v: "va < 16" "vb < 16" "vc < 16" "vd < 16"
    using assms hex_value_Some by (auto simp: hex_bytes_def) metis
  then have "decode_unicode_escape (0x75 # hs @ bs) = Some (((va * 16 + vb) * 16 + vc) * 16 + vd)"
    by (simp add: hs decode_unicode_escape_def mem_get_def)
  moreover have "((va * 16 + vb) * 16 + vc) * 16 + vd < 16 * 16 * 16 * 16"
    using v by (intro hex_step)
  ultimately show ?thesis by auto
qed

lemma utf8_drop_ascii: "utf8_check_bytes (as @ bs) \<Longrightarrow> \<forall>b \<in> set as. unat b < 128 \<Longrightarrow> utf8_check_bytes bs"
  using utf8_check_bytes_prefix utf8_ascii_bytes by blast

lemma hex_bytes_ascii: "hex_bytes hs \<Longrightarrow> h \<in> set hs \<Longrightarrow> unat h < 128"
proof -
  assume "hex_bytes hs" "h \<in> set hs"
  then have "0 \<le> sint h" by (auto simp: hex_bytes_def l_is_defs)
  then show ?thesis by (simp only: sint_ascii)
qed

text \<open>The code point of a Unicode escape, possibly of a pair of them.\<close>

definition escape_result :: "byte list \<Rightarrow> byte list \<Rightarrow> string + nat \<times> byte list \<Rightarrow> bool" where
  "escape_result rest junk r \<longleftrightarrow> (case r of Inl msg \<Rightarrow> True
     | Inr (n, p) \<Rightarrow> scalar_value n \<and> n \<noteq> 0 \<and>
         (\<exists>rest'. p = rest' @ 0x22 # junk \<and> escaped rest' \<and> length (utf8_char n) + length rest' \<le> 4 + length rest \<and>
           (utf8_check_bytes rest \<longrightarrow> utf8_check_bytes rest')))"

lemma second_escape:
  assumes "escaped rest"
  shows "(\<exists>hs rest'. hex_bytes hs \<and> rest = 0x5C # 0x75 # hs @ rest' \<and> escaped rest') \<or>
    (\<exists>c. mem_get (rest @ 0x22 # junk) 0 = Some c \<and>
      (c \<noteq> 0x5C \<or> (\<exists>u. mem_get (rest @ 0x22 # junk) 1 = Some u \<and> u \<noteq> 0x75)))"
  using assms
proof cases
  case (escaped_short c bs)
  then show ?thesis by (auto simp: mem_get_def short_escape_def)
qed (auto simp: mem_get_def raw_byte_def)

lemma surrogate_value:
  assumes "0xD800 \<le> v" "v \<le> 0xDBFF" "0xDC00 \<le> w" "w \<le> (0xDFFF :: nat)"
  shows "scalar_value ((v - 0xD800) * 1024 + (w - 0xDC00) + 0x10000) \<and>
    0x10000 \<le> (v - 0xD800) * 1024 + (w - 0xDC00) + 0x10000"
proof -
  have "(v - 0xD800) * 1024 \<le> 0x3FF * 1024" using assms by (intro mult_le_mono1) simp
  then show ?thesis using assms by (simp add: scalar_value_def)
qed

lemma escape_codepoint_ok:
  assumes hs: "hex_bytes hs" and rest: "escaped rest"
  shows "\<exists>r. escape_codepoint (0x75 # hs @ rest @ 0x22 # junk) = Some r \<and> escape_result rest junk r"
proof -
  have l: "drop 4 (hs @ rest @ 0x22 # junk) = rest @ 0x22 # junk" using hs by (simp add: hex_bytes_def)
  obtain v where v: "decode_unicode_escape (0x75 # hs @ rest @ 0x22 # junk) = Some v" "v < 0x10000"
    using decode_hex_bytes [OF hs] by blast
  show ?thesis
  proof (cases "0xD800 \<le> v \<and> v \<le> 0xDBFF")
    case False
    have "escape_result rest junk (Inr (v, rest @ 0x22 # junk))" if "v \<noteq> 0" "\<not> (0xDC00 \<le> v \<and> v \<le> 0xDFFF)"
    proof -
      have "scalar_value v" using False v(2) that by (auto simp: scalar_value_def)
      then show ?thesis using that(1) v(2) rest by (auto simp: escape_result_def utf8_char_length)
    qed
    then show ?thesis using v(1) False l
      by (auto simp: escape_codepoint_def Let_def) (auto simp: escape_result_def)
  next
    case True
    from second_escape [OF rest, of junk] show ?thesis
    proof (elim disjE exE conjE)
      fix hs2 rest' assume 2: "hex_bytes hs2" "rest = 0x5C # 0x75 # hs2 @ rest'" "escaped rest'"
      obtain w where w: "decode_unicode_escape (0x75 # hs2 @ rest' @ 0x22 # junk) = Some w"
        using decode_hex_bytes [OF 2(1)] by blast
      let ?n = "(v - 0xD800) * 1024 + (w - 0xDC00) + 0x10000"
      have "escape_result rest junk (Inr (?n, rest' @ 0x22 # junk))" if "0xDC00 \<le> w" "w \<le> 0xDFFF"
      proof -
        have n: "scalar_value ?n" "0x10000 \<le> ?n" using surrogate_value [of v w] True that by simp_all
        have "utf8_check_bytes rest'" if "utf8_check_bytes rest"
          using utf8_drop_ascii [of "0x5C # 0x75 # hs2" rest'] that 2(2) hex_bytes_ascii [OF 2(1)] by auto
        then show ?thesis
          using n 2 by (auto simp: escape_result_def utf8_char_length hex_bytes_def)
      qed
      moreover have "drop 6 (rest @ 0x22 # junk) = rest' @ 0x22 # junk" using 2(1,2) by (simp add: hex_bytes_def)
      ultimately show ?thesis using v(1) True l w 2(2)
        by (auto simp: escape_codepoint_def Let_def mem_get_def) (auto simp: escape_result_def)
    next
      fix c assume "mem_get (rest @ 0x22 # junk) 0 = Some c" "c \<noteq> 0x5C"
      then show ?thesis using v(1) True l by (simp add: escape_codepoint_def Let_def escape_result_def)
    next
      fix c u assume "mem_get (rest @ 0x22 # junk) 0 = Some c" "mem_get (rest @ 0x22 # junk) 1 = Some u" "u \<noteq> 0x75"
      then show ?thesis using v(1) True l by (auto simp: escape_codepoint_def Let_def escape_result_def)
    qed
  qed
qed

section \<open>The copy\<close>

lemma unescape_quote: "length t < cap \<Longrightarrow> unescape cap (0x22 # p) t = Some (Inr t)"
  by (simp add: unescape.simps [of _ "0x22 # p"] put_bytes_def)

lemma unescape_raw:
  "raw_byte b \<Longrightarrow> length t < cap \<Longrightarrow> unescape cap (b # p) t = unescape cap p (t @ [b])"
  by (simp add: unescape.simps [of _ "b # p"] put_bytes_def raw_byte_def)

lemma unescape_high:
  "\<forall>b \<in> set hs. 128 \<le> unat b \<Longrightarrow> length t + length hs \<le> cap \<Longrightarrow>
   unescape cap (hs @ p) t = unescape cap p (t @ hs)"
proof (induction hs arbitrary: t)
  case (Cons b hs)
  have "raw_byte b" using Cons.prems(1) by (auto simp: raw_byte_def)
  then show ?case using Cons by (simp add: unescape_raw)
qed simp

lemma unescape_short:
  "short_escape c = Some b \<Longrightarrow> length t < cap \<Longrightarrow>
   unescape cap (0x5C # c # p) t = unescape cap p (t @ [b])"
  by (auto simp: unescape.simps [of _ "0x5C # c # p"] put_bytes_def short_escape_def split: if_splits)

lemma utf8_encode_char: "scalar_value n \<Longrightarrow> utf8_encode (int n) = Some (utf8_char n)"
  by (auto simp: utf8_char_def utf8_encode_def scalar_value_def)

lemma unescape_unicode:
  assumes "escape_codepoint (0x75 # p) = Some (Inr (n, p'))" "scalar_value n" "length t + length (utf8_char n) \<le> cap"
  shows "unescape cap (0x5C # 0x75 # p) t = unescape cap p' (t @ utf8_char n)"
  using assms by (simp add: unescape.simps [of _ "0x5C # 0x75 # p"] utf8_encode_char put_bytes_def)

definition unescaped :: "byte list \<Rightarrow> byte list \<Rightarrow> string + byte list \<Rightarrow> bool" where
  "unescaped body t r \<longleftrightarrow> (case r of Inl msg \<Rightarrow> True
     | Inr out \<Rightarrow> \<exists>str. out = t @ str \<and> 0 \<notin> set str \<and> (utf8_check_bytes body \<longrightarrow> utf8_check_bytes str))"

lemma utf8_char_nonzero: "scalar_value n \<Longrightarrow> n \<noteq> 0 \<Longrightarrow> 0 \<notin> set (utf8_char n)"
proof (cases "n < 0x80")
  case True
  assume "n \<noteq> 0"
  moreover have "unat (word_of_nat n :: byte) = n" using True by (simp add: unat_byte_of_nat)
  ultimately show ?thesis using True by (metis list.set_intros(1) list.simps(15) empty_iff insert_iff
      list.set(1) unat_0 utf8_char_ascii)
next
  case False
  assume "scalar_value n"
  then show ?thesis using utf8_char_high [OF _ False, of 0] by auto
qed

lemma unescaped_step:
  assumes "unescaped rest (t @ bs) r" "0 \<notin> set bs" "utf8_check_bytes body \<Longrightarrow> utf8_check_bytes bs \<and> utf8_check_bytes rest"
  shows "unescaped body t r"
  using assms utf8_check_bytes_append [of bs] by (fastforce simp: unescaped_def split: sum.splits)

lemma unescape_ok:
  assumes "escaped body" "length t + length body < cap"
  shows "\<exists>r. unescape cap (body @ 0x22 # junk) t = Some r \<and> unescaped body t r"
  using assms
proof (induction "length body" arbitrary: body t rule: less_induct)
  case less
  note IH = less.hyps
  from less.prems(1) show ?case
  proof cases
    case escaped_nil
    then show ?thesis using less.prems(2) by (auto simp: unescape_quote unescaped_def)
  next
    case (escaped_raw b bs)
    show ?thesis
    proof (cases "utf8_check_bytes body \<and> \<not> unat b < 128")
      case True
      then obtain n rest where n: "scalar_value n" "b # bs = utf8_char n @ rest" "utf8_check_bytes rest"
        using utf8_check_bytes_cases [of b bs] escaped_raw(1) by auto
      then have "\<not> n < 0x80" using True by (auto simp: utf8_char_ascii unat_byte_of_nat)
      then have high: "\<forall>b \<in> set (utf8_char n). 128 \<le> unat b" using utf8_char_high [OF n(1)] by blast
      have e: "escaped rest" using escaped_high [OF _ high] less.prems(1) escaped_raw(1) n(2) by simp
      have len: "length body = length (utf8_char n) + length rest" using escaped_raw(1) n(2) by simp
      then have "length rest < length body" using n(1) by simp
      then obtain r where "unescape cap (rest @ 0x22 # junk) (t @ utf8_char n) = Some r" "unescaped rest (t @ utf8_char n) r"
        using IH [OF _ e, of "t @ utf8_char n"] less.prems(2) len by auto
      moreover have "unescape cap (body @ 0x22 # junk) t = unescape cap (rest @ 0x22 # junk) (t @ utf8_char n)"
        using unescape_high [OF high, of t cap "rest @ 0x22 # junk"] less.prems(2) len escaped_raw(1) n(2) by simp
      moreover have "0 \<notin> set (utf8_char n)" using high by force
      moreover have "utf8_check_bytes (utf8_char n)" using utf8_check_bytes_char [OF n(1), of "[]"] by simp
      ultimately show ?thesis using unescaped_step n(3) by metis
    next
      case False
      obtain r where r: "unescape cap (bs @ 0x22 # junk) (t @ [b]) = Some r" "unescaped bs (t @ [b]) r"
        using IH [OF _ escaped_raw(3), of "t @ [b]"] less.prems(2) escaped_raw(1) by auto
      have "b \<noteq> 0" using escaped_raw(2) by (auto simp: raw_byte_def)
      moreover have "utf8_check_bytes [b] \<and> utf8_check_bytes bs" if "utf8_check_bytes body"
        using that False utf8_drop_ascii [of "[b]" bs] utf8_ascii_bytes [of "[b]"] escaped_raw(1) by auto
      ultimately have "unescaped body t r" using unescaped_step [OF r(2)] by simp
      then show ?thesis using r(1) unescape_raw [OF escaped_raw(2)] less.prems(2) escaped_raw(1) by auto
    qed
  next
    case (escaped_short c bs)
    then obtain b where b: "short_escape c = Some b" by blast
    then have small: "b \<noteq> 0" "unat b < 128" "unat c < 128" by (auto simp: short_escape_def split: if_splits)
    obtain r where r: "unescape cap (bs @ 0x22 # junk) (t @ [b]) = Some r" "unescaped bs (t @ [b]) r"
      using IH [OF _ escaped_short(3), of "t @ [b]"] less.prems(2) escaped_short(1) by auto
    have "utf8_check_bytes [b] \<and> utf8_check_bytes bs" if "utf8_check_bytes body"
      using that utf8_drop_ascii [of "[0x5C, c]" bs] utf8_ascii_bytes [of "[b]"] small escaped_short(1) by auto
    then have "unescaped body t r" using unescaped_step [OF r(2)] small by simp
    then show ?thesis using r(1) unescape_short [OF b] less.prems(2) escaped_short(1) by auto
  next
    case (escaped_unicode hs bs)
    have hex: "\<forall>b \<in> set (0x5C # 0x75 # hs). unat b < 128" using hex_bytes_ascii [OF escaped_unicode(2)] by auto
    obtain r where r: "escape_codepoint (0x75 # hs @ bs @ 0x22 # junk) = Some r" "escape_result bs junk r"
      using escape_codepoint_ok [OF escaped_unicode(2,3)] by blast
    show ?thesis
    proof (cases r)
      case (Inl msg)
      then show ?thesis using r(1) escaped_unicode(1)
        by (simp add: unescape.simps [of _ "0x5C # 0x75 # hs @ bs @ 0x22 # junk"] unescaped_def)
    next
      case (Inr np)
      then obtain n rest where n: "r = Inr (n, rest @ 0x22 # junk)" "scalar_value n" "n \<noteq> 0" "escaped rest"
        "length (utf8_char n) + length rest \<le> 4 + length bs" "utf8_check_bytes bs \<Longrightarrow> utf8_check_bytes rest"
        using r(2) by (cases np) (auto simp: escape_result_def)
      have len: "length body = 6 + length bs" using escaped_unicode(1,2) by (simp add: hex_bytes_def)
      have l2: "length rest < length body" "length (t @ utf8_char n) + length rest < cap"
        using n(5) len less.prems(2) by simp_all
      obtain r' where r': "unescape cap (rest @ 0x22 # junk) (t @ utf8_char n) = Some r'" "unescaped rest (t @ utf8_char n) r'"
        using IH [OF l2(1) n(4) l2(2)] by blast
      have "unescape cap (body @ 0x22 # junk) t = unescape cap (rest @ 0x22 # junk) (t @ utf8_char n)"
        using unescape_unicode [of "hs @ bs @ 0x22 # junk" n "rest @ 0x22 # junk" t cap] r(1) n(1,2) l2(2) escaped_unicode(1)
        by simp
      moreover have "utf8_check_bytes (utf8_char n) \<and> utf8_check_bytes rest" if "utf8_check_bytes body"
        using that utf8_drop_ascii [of "0x5C # 0x75 # hs" bs] hex n(6) utf8_check_bytes_char [OF n(2), of "[]"] escaped_unicode(1)
        by simp
      then have "unescaped body t r'" using unescaped_step [OF r'(2) utf8_char_nonzero [OF n(2,3)]] by blast
      ultimately show ?thesis using r'(1) by auto
    qed
  qed
qed

end
