(* ===== verification/Json_Tokens.thy ===== *)
theory Json_Tokens
  imports Json_Stream Json_Escape
begin

text \<open>
  The scanners of \<open>load.c\<close> on arbitrary input: the loops that collect characters, the string
  tokens and the pieces of number tokens. They end, stay inside their buffers, and the text that
  they accept has the form of a string or of a number.
\<close>

section \<open>Loops that collect characters\<close>

text \<open>At the beginning of a token the buffer holds whole characters.\<close>

definition aligned :: "lex_t \<Rightarrow> bool" where
  "aligned lx \<longleftrightarrow> (st_state lx = STREAM_STATE_OK \<longrightarrow> utf8_check_bytes (pending lx))"

text \<open>The text of a string token together with the rest of the current character is UTF-8.\<close>

definition whole :: "lex_t \<Rightarrow> bool" where
  "whole lx \<longleftrightarrow> utf8_check_bytes (saved lx @ pending lx)"

text \<open>The bytes of the pieces of a number.\<close>

definition digit_bytes :: "byte list \<Rightarrow> bool" where
  "digit_bytes ds \<longleftrightarrow> (\<forall>b \<in> set ds. l_isdigit (sint b))"

definition fraction_bytes :: "byte list \<Rightarrow> bool" where
  "fraction_bytes bs \<longleftrightarrow> bs = [] \<or> (\<exists>ds. digit_bytes ds \<and> ds \<noteq> [] \<and> bs = 0x2E # ds)"

definition exponent_bytes :: "byte list \<Rightarrow> bool" where
  "exponent_bytes bs \<longleftrightarrow> bs = [] \<or> (\<exists>e sg ds. digit_bytes ds \<and> ds \<noteq> [] \<and> (e = 0x45 \<or> e = 0x65) \<and>
     (sg = [] \<or> sg = [0x2B] \<or> sg = [0x2D]) \<and> bs = e # sg @ ds)"

text \<open>A token with its value.\<close>

definition token_ok :: "lex_t \<Rightarrow> bool" where
  "token_ok lx \<longleftrightarrow>
     (token lx = TOKEN_STRING \<longrightarrow> (\<exists>s. lex_val lx = Value_string (Some s) \<and> utf8_check_bytes s \<and> 0 \<notin> set s)) \<and>
     (token lx = TOKEN_INTEGER \<longrightarrow> (\<exists>i. lex_val lx = Value_integer i \<and> - (2 ^ 63) \<le> i \<and> i < 2 ^ 63)) \<and>
     (token lx = TOKEN_REAL \<longrightarrow> (\<exists>d. lex_val lx = Value_real d \<and> dbl_finite d))"

lemma sint_char: "sint (b :: byte) = numeral k \<Longrightarrow> sint (numeral k :: byte) = numeral k \<Longrightarrow> b = numeral k"
  by (metis sint_byte_eq)

lemma sint_lit: "sint (numeral k :: byte) = numeral k \<Longrightarrow> sint (b :: byte) = numeral k \<longleftrightarrow> b = numeral k"
  by (metis sint_byte_eq)

context byte_source
begin

lemma aligned_reads:
  assumes "aligned lx" "reads_byte keep lx b lx'" "unat b < 128"
  shows "aligned lx'"
proof -
  have "utf8_check_bytes (b # pending lx')"
    using assms(1,2) by (auto simp: aligned_def reads_byte_def)
  then show ?thesis using utf8_split_ascii [of "[]" b] assms(3) by (simp add: aligned_def)
qed

lemma aligned_put_back:
  assumes "aligned lx" "reads_byte keep lx b lx'" "put_back lx b lx' lx''"
  shows "aligned lx''"
  using assms by (auto simp: aligned_def reads_byte_def put_back_def)

lemma whole_reads:
  assumes "whole lx" "reads_byte True lx b lx'"
  shows "whole lx'"
proof -
  have s: "saved lx' = saved lx @ [b]" using reads_byteE(5) [OF assms(2)] by simp
  have "pending lx = b # pending lx' \<or> pending lx = [] \<and> utf8_check_bytes (b # pending lx')"
    using assms(2) by (auto simp: reads_byte_def)
  then show ?thesis using assms(1) utf8_check_bytes_append [of "saved lx" "b # pending lx'"] by (auto simp: whole_def s)
qed

text \<open>\<open>while(P(c)) c = g();\<close> for a function \<open>g\<close> that reads a character. The state before the last
  character is given, so that it can be put back.\<close>

lemma while_reads:
  assumes g: "\<And>lx. lex_ok lx \<Longrightarrow> \<exists>c lx'. g lx = Some (c, lx') \<and> reads keep lx c lx'"
    and f: "\<And>c lx. f c lx = (if P c then Option.bind (g lx) (\<lambda>r. let (c, lx) = r in f c lx) else Some (c, lx))"
    and P: "\<And>c. P c \<Longrightarrow> 0 \<le> c"
    and ok: "lex_ok lx0" "reads keep lx0 c lx"
  shows "\<exists>lx0' c' lx' bs. f c lx = Some (c', lx') \<and> reads keep lx0' c' lx' \<and> \<not> P c' \<and> lex_ok lx0' \<and>
    same_token lx0 lx0' \<and> saved lx0' = saved lx0 @ (if keep then bs else []) \<and> (\<forall>b \<in> set bs. P (sint b)) \<and>
    left lx0 = left lx0' + length bs \<and> (aligned lx0 \<longrightarrow> aligned lx0') \<and> lex_error lx0' = lex_error lx0 \<and>
    (st_state lx0 = STREAM_STATE_OK \<longrightarrow> st_state lx0' = STREAM_STATE_OK \<and> ahead lx0 = bs @ ahead lx0') \<and>
    (bs = [] \<longrightarrow> c' = c) \<and> (P c \<longrightarrow> bs \<noteq> [])"
  using ok
proof (induction "left lx" arbitrary: lx0 c lx rule: less_induct)
  case less
  show ?case
  proof (cases "P c")
    case False
    then have "f c lx = Some (c, lx)" by (simp add: f)
    then show ?thesis using less.prems False by (intro exI [of _ lx0] exI [of _ c] exI [of _ lx] exI [of _ "[]"]) auto
  next
    case True
    then have "c \<noteq> STREAM_STATE_EOF" "c \<noteq> STREAM_STATE_ERROR" using P [OF True] by (auto simp: stream_state_defs)
    then obtain b where b: "c = sint b" "reads_byte keep lx0 b lx"
      using less.prems(2) reads_endE(4) by (auto simp: reads_def)
    note r = reads_byteE [OF b(2)]
    have ascii: "unat b < 128" using P [OF True] b(1) by (simp add: sint_ascii)
    obtain c1 lx1 where g1: "g lx = Some (c1, lx1)" "reads keep lx c1 lx1" using g [OF r(1)] by blast
    have fc: "f c lx = f c1 lx1" using True g1(1) by (subst f) simp
    show ?thesis
    proof (cases "P c1")
      case False
      then have "f c1 lx1 = Some (c1, lx1)" by (simp add: f)
      then show ?thesis
        using fc g1 False r b True aligned_reads [OF _ b(2) ascii]
        by (intro exI [of _ lx] exI [of _ c1] exI [of _ lx1] exI [of _ "[b]"]) auto
    next
      case True
      then have "left lx = Suc (left lx1)"
        using reads_moves(2) [OF g1(2)] P [OF True] by (auto simp: stream_state_defs)
      then obtain lx0' c' lx' bs where *: "f c1 lx1 = Some (c', lx')" "reads keep lx0' c' lx'" "\<not> P c'" "lex_ok lx0'"
        "same_token lx lx0'" "saved lx0' = saved lx @ (if keep then bs else [])" "\<forall>b \<in> set bs. P (sint b)"
        "left lx = left lx0' + length bs" "aligned lx \<longrightarrow> aligned lx0'" "lex_error lx0' = lex_error lx"
        "st_state lx = STREAM_STATE_OK \<longrightarrow> st_state lx0' = STREAM_STATE_OK \<and> ahead lx = bs @ ahead lx0'"
        using less.hyps [of lx1 lx c1] r(1) g1(2) by auto
      show ?thesis
        using fc * r b \<open>P c\<close> same_token_trans [OF r(2) *(5)] aligned_reads [OF _ b(2) ascii]
        by (intro exI [of _ lx0'] exI [of _ c'] exI [of _ lx'] exI [of _ "b # bs"]) auto
    qed
  qed
qed

lemmas digits_reads = while_reads [where g = lex_get_save and keep = True and P = l_isdigit and f = lex_digits,
    OF lex_get_save_reads lex_digits.simps]

lemmas letters_reads = while_reads [where g = lex_get_save and keep = True and P = l_isalpha and f = lex_letters,
    OF lex_get_save_reads lex_letters.simps]

lemmas spaces_reads = while_reads [where g = lex_get and keep = False and f = lex_spaces and
    P = "\<lambda>c. c = 0x20 \<or> c = 0x09 \<or> c = 0x0A \<or> c = 0x0D", OF _ lex_spaces.simps]

section \<open>String tokens\<close>

text \<open>What is read with \<open>lex_get_save\<close> moves from the input to the text of the token.\<close>

definition saves :: "lex_t \<Rightarrow> byte list \<Rightarrow> lex_t \<Rightarrow> bool" where
  "saves lx bs lx' \<longleftrightarrow> lex_ok lx' \<and> same_token lx lx' \<and> saved lx' = saved lx @ bs \<and>
     left lx = left lx' + length bs \<and> (whole lx \<longrightarrow> whole lx')"

lemma saves_refl: "lex_ok lx \<Longrightarrow> saves lx [] lx"
  by (simp add: saves_def)

lemma saves_trans: "saves lx as lx1 \<Longrightarrow> saves lx1 bs lx2 \<Longrightarrow> saves lx (as @ bs) lx2"
  using same_token_trans by (auto simp: saves_def)

lemma saves_byte: "reads_byte True lx b lx' \<Longrightarrow> saves lx [b] lx'"
  using reads_byteE [of True lx b lx'] whole_reads [of lx b lx'] by (auto simp: saves_def)

lemma saves_moves: "saves lx bs lx' \<Longrightarrow> moves lx lx'"
  by (simp add: saves_def moves_def same_token_def)

text \<open>One character, as a byte or as the end.\<close>

lemma get_save_cases:
  assumes "lex_ok lx"
  obtains (eof) c lx' where "lex_get_save lx = Some (c, lx')" "reads_end lx c lx'"
  | (byte) b lx' where "lex_get_save lx = Some (sint b, lx')" "reads_byte True lx b lx'" "saves lx [b] lx'"
  using lex_get_save_reads [OF assms] saves_byte by (auto simp: reads_def)

lemma reads_char: "reads keep lx c lx' \<Longrightarrow> 0 \<le> c \<Longrightarrow> \<exists>b. c = sint b \<and> reads_byte keep lx b lx'"
  by (auto simp: reads_def stream_state_defs dest: reads_endE(4))

lemma reads_same_token: "reads keep lx c lx' \<Longrightarrow> same_token lx lx'"
  unfolding reads_def using reads_endE(2) reads_byteE(2) by blast

lemma lex_xdigits_ok:
  assumes "lex_ok lx0" "reads True lx0 c lx"
  shows "\<exists>good c' lx'. lex_xdigits n c lx = Some (good, c', lx') \<and>
    (if good then \<exists>lx1 hs. saves lx0 hs lx1 \<and> reads True lx1 c' lx' \<and> length hs = n \<and> (\<forall>h \<in> set hs. l_isxdigit (sint h))
     else moves lx0 lx' \<and> same_token lx0 lx')"
  using assms
proof (induction n arbitrary: lx0 c lx)
  case 0
  then show ?case using saves_refl by auto
next
  case (Suc n)
  show ?case
  proof (cases "l_isxdigit c")
    case False
    have m: "moves lx0 lx" "same_token lx0 lx"
      using reads_moves(1) [OF Suc.prems(2)] reads_same_token [OF Suc.prems(2)] by blast+
    obtain lx' where e: "error_set lx ''invalid escape'' = Some lx'" "moves lx lx'" "same_token lx lx'"
      using error_set_moves [OF moves_ok [OF m(1)], of "''invalid escape''"] by blast
    then show ?thesis using False moves_trans [OF m(1) e(2)] same_token_trans [OF m(2) e(3)]
      by (intro exI [of _ False] exI [of _ c] exI [of _ lx']) simp
  next
    case True
    then have "0 \<le> c" by (auto simp: l_is_defs)
    then obtain b where b: "c = sint b" "reads_byte True lx0 b lx" using reads_char [OF Suc.prems(2)] by blast
    obtain c1 lx1 where g: "lex_get_save lx = Some (c1, lx1)" "reads True lx c1 lx1"
      using lex_get_save_reads reads_byteE(1) [OF b(2)] by blast
    obtain good c' lx' where *: "lex_xdigits n c1 lx1 = Some (good, c', lx')"
      "if good then \<exists>lx1 hs. saves lx hs lx1 \<and> reads True lx1 c' lx' \<and> length hs = n \<and> (\<forall>h \<in> set hs. l_isxdigit (sint h))
       else moves lx lx' \<and> same_token lx lx'"
      using Suc.IH [OF _ g(2)] reads_byteE(1) [OF b(2)] by blast
    show ?thesis
    proof (cases good)
      case False
      then show ?thesis
        using * True g(1) moves_trans [OF reads_moves(1) [OF Suc.prems(2)], of lx']
          same_token_trans [OF reads_byteE(2) [OF b(2)], of lx']
        by (intro exI [of _ False] exI [of _ c'] exI [of _ lx']) simp
    next
      case good: True
      then obtain lx2 hs where "saves lx hs lx2" "reads True lx2 c' lx'" "length hs = n" "\<forall>h \<in> set hs. l_isxdigit (sint h)"
        using *(2) by auto
      moreover from this have "saves lx0 ([b] @ hs) lx2" using saves_trans [OF saves_byte [OF b(2)]] by blast
      ultimately show ?thesis
        using *(1) True g(1) good b(1)
        by (intro exI [of _ True] exI [of _ c'] exI [of _ lx']) (auto intro!: exI [of _ lx2] exI [of _ "b # hs"])
    qed
  qed
qed

text \<open>The result of the first loop: a failure, or the text of the token between quotes.\<close>

definition string_scanned :: "lex_t \<Rightarrow> bool \<Rightarrow> lex_t \<Rightarrow> bool" where
  "string_scanned lx0 good lx' \<longleftrightarrow> moves lx0 lx' \<and> same_token lx0 lx' \<and>
     (good \<longrightarrow> (\<exists>body. saved lx' = 0x22 # body @ [0x22] \<and> escaped body \<and> utf8_check_bytes body) \<and> aligned lx')"

lemma string_scanned_fail:
  assumes "moves lx0 lx" "same_token lx0 lx"
  shows "\<exists>lx'. error_set lx msg = Some lx' \<and> string_scanned lx0 False lx'"
proof -
  obtain lx' where "error_set lx msg = Some lx'" "moves lx lx'" "same_token lx lx'"
    using error_set_moves [OF moves_ok [OF assms(1)]] by blast
  then show ?thesis
    using moves_trans [OF assms(1)] same_token_trans [OF assms(2)] by (auto simp: string_scanned_def)
qed

lemma string_scanned_mono:
  "saves lx0 bs lx1 \<Longrightarrow> string_scanned lx1 good lx' \<Longrightarrow> string_scanned lx0 good lx'"
  using moves_trans [OF saves_moves] same_token_trans by (auto simp: string_scanned_def saves_def)

lemma string_scanned_quote:
  assumes "reads_byte True lx0 0x22 lx" "saved lx0 = 0x22 # body" "escaped body" "whole lx0"
  shows "string_scanned lx0 True lx"
proof -
  have s: "saves lx0 [0x22] lx" by (rule saves_byte [OF assms(1)])
  then have sv: "saved lx = 0x22 # body @ [0x22]" and "whole lx" using assms(2,4) by (auto simp: saves_def)
  then have "utf8_check_bytes ((0x22 # body) @ 0x22 # pending lx)" by (simp add: whole_def)
  then have "utf8_check_bytes (0x22 # body)" "utf8_check_bytes (pending lx)"
    using utf8_split_ascii [of "0x22 # body" "0x22" "pending lx"] by simp_all
  moreover from this(1) have "utf8_check_bytes body" using utf8_drop_ascii [of "[0x22]" body] by simp
  ultimately show ?thesis
    using sv assms(3) s saves_moves [OF s] by (auto simp: string_scanned_def saves_def aligned_def)
qed

lemma raw_char: "reads_byte keep lx b lx' \<Longrightarrow> sint b \<noteq> 0x22 \<Longrightarrow> sint b \<noteq> 0x5C \<Longrightarrow>
    \<not> (0 \<le> sint b \<and> sint b \<le> 0x1F) \<Longrightarrow> raw_byte b"
proof -
  assume *: "sint b \<noteq> 0x22" "sint b \<noteq> 0x5C" "\<not> (0 \<le> sint b \<and> sint b \<le> 0x1F)"
  have "32 \<le> unat b"
  proof (cases "unat b < 128")
    case True
    then show ?thesis using *(3) sint_byte_ascii [of b] sint_ascii [of b] by linarith
  qed simp
  then show ?thesis using * by (auto simp: raw_byte_def)
qed

lemma short_escape_char:
  assumes "sint b = 0x22 \<or> sint b = 0x5C \<or> sint b = 0x2F \<or> sint b = 0x62 \<or> sint b = 0x66 \<or> sint b = 0x6E \<or>
    sint b = 0x72 \<or> sint b = 0x74"
  shows "short_escape b \<noteq> None"
  using assms by (auto simp: sint_lit short_escape_def)

lemma string_scanned_ungot:
  assumes "lex_ok lx0" "reads True lx0 c lx"
  shows "\<exists>lx1 lx'. lex_unget_unsave lx c = Some lx1 \<and> error_set lx1 msg = Some lx' \<and> string_scanned lx0 False lx'"
proof -
  obtain lx1 where u: "lex_unget_unsave lx c = Some lx1" "moves lx0 lx1" "same_token lx0 lx1"
    using lex_unget_unsave_moves [OF assms] by blast
  then show ?thesis using string_scanned_fail [OF u(2,3)] by blast
qed

text \<open>An escape, from the character after the backslash on: it is refused, or the loop goes on behind
  it.\<close>

definition escape_step :: "lex_t \<Rightarrow> (bool \<times> lex_t) option \<Rightarrow> bool" where
  "escape_step lx0 res \<longleftrightarrow> (\<exists>lx'. res = Some (False, lx') \<and> string_scanned lx0 False lx') \<or>
     (\<exists>bs lx1 c lx'. res = lex_string_loop c lx' \<and> saves lx0 bs lx1 \<and> reads True lx1 c lx' \<and> bs \<noteq> [] \<and> escaped bs)"

lemma lex_string_escape:
  assumes ok: "lex_ok lx0" and b: "reads_byte True lx0 0x5C lx"
  shows "escape_step lx0 (lex_string_loop 0x5C lx)"
proof -
  have s0: "saves lx0 [0x5C] lx" by (rule saves_byte [OF b])
  obtain c1 lx1 where g1: "lex_get_save lx = Some (c1, lx1)" "reads True lx c1 lx1"
    using lex_get_save_reads [OF reads_byteE(1) [OF b]] by blast
  have m1: "moves lx0 lx1" "same_token lx0 lx1"
    using moves_trans [OF saves_moves [OF s0] reads_moves(1) [OF g1(2)]]
      same_token_trans [OF reads_byteE(2) [OF b] reads_same_token [OF g1(2)]] by blast+
  let ?short = "c1 = 0x22 \<or> c1 = 0x5C \<or> c1 = 0x2F \<or> c1 = 0x62 \<or> c1 = 0x66 \<or> c1 = 0x6E \<or> c1 = 0x72 \<or> c1 = 0x74"
  have loop: "lex_string_loop 0x5C lx =
      (if c1 = 0x75 then
         Option.bind (lex_get_save lx1) (\<lambda>r. let (c, lx) = r in
         Option.bind (lex_xdigits 4 c lx) (\<lambda>r. let (ok, c, lx) = r in
           if ok then lex_string_loop c lx else Some (False, lx)))
       else if ?short then Option.bind (lex_get_save lx1) (\<lambda>r. let (c, lx) = r in lex_string_loop c lx)
       else Option.bind (error_set lx1 ''invalid escape'') (\<lambda>lx. Some (False, lx)))"
    using g1(1) by (subst lex_string_loop.simps) (simp add: stream_state_defs)
  consider (unicode) "c1 = 0x75" | (short) "c1 \<noteq> 0x75" ?short | (bad) "c1 \<noteq> 0x75" "\<not> ?short" by blast
  then show ?thesis
  proof cases
    case unicode
    then obtain b1 where b1: "c1 = sint b1" "reads_byte True lx b1 lx1" using reads_char [OF g1(2)] by auto
    have "b1 = 0x75" by (rule sint_char) (use b1(1) unicode in simp_all)
    then have s1: "saves lx0 [0x5C, 0x75] lx1" using saves_trans [OF s0 saves_byte [OF b1(2)]] by simp
    obtain c2 lx2 where g2: "lex_get_save lx1 = Some (c2, lx2)" "reads True lx1 c2 lx2"
      using lex_get_save_reads [OF moves_ok [OF m1(1)]] by blast
    obtain good c' lx' where x: "lex_xdigits 4 c2 lx2 = Some (good, c', lx')"
      "if good then \<exists>lx3 hs. saves lx1 hs lx3 \<and> reads True lx3 c' lx' \<and> length hs = 4 \<and> (\<forall>h \<in> set hs. l_isxdigit (sint h))
       else moves lx1 lx' \<and> same_token lx1 lx'"
      using lex_xdigits_ok [OF moves_ok [OF m1(1)] g2(2)] by blast
    show ?thesis
    proof (cases good)
      case False
      then have "string_scanned lx0 False lx'"
        using x(2) moves_trans [OF m1(1)] same_token_trans [OF m1(2)] by (simp add: string_scanned_def)
      then show ?thesis using loop unicode g2(1) x(1) False by (simp add: escape_step_def)
    next
      case True
      then obtain lx3 hs where 3: "saves lx1 hs lx3" "reads True lx3 c' lx'" "hex_bytes hs"
        using x(2) by (auto simp: hex_bytes_def)
      then have "saves lx0 (0x5C # 0x75 # hs) lx3" "escaped (0x5C # 0x75 # hs)"
        using saves_trans [OF s1] escaped_unicode [of hs "[]"] escaped_nil by auto
      moreover have "lex_string_loop 0x5C lx = lex_string_loop c' lx'" using loop unicode g2(1) x(1) True by simp
      ultimately show ?thesis using 3(2) unfolding escape_step_def by blast
    qed
  next
    case short
    then obtain b1 where b1: "c1 = sint b1" "reads_byte True lx b1 lx1" using reads_char [OF g1(2)] by auto
    have "short_escape b1 \<noteq> None" using short_escape_char [of b1] short(2) b1(1) by simp
    then have "saves lx0 [0x5C, b1] lx1" "escaped [0x5C, b1]"
      using saves_trans [OF s0 saves_byte [OF b1(2)]] escaped_short [of b1 "[]"] escaped_nil by simp_all
    moreover obtain c2 lx2 where g2: "lex_get_save lx1 = Some (c2, lx2)" "reads True lx1 c2 lx2"
      using lex_get_save_reads [OF moves_ok [OF m1(1)]] by blast
    moreover have "lex_string_loop 0x5C lx = lex_string_loop c2 lx2" using loop short g2(1) by simp
    ultimately show ?thesis unfolding escape_step_def by blast
  next
    case bad
    then show ?thesis using loop string_scanned_fail [OF m1, of "''invalid escape''"] by (auto simp: escape_step_def)
  qed
qed

lemma lex_string_loop_ok:
  assumes "lex_ok lx0" "reads True lx0 c lx" "saved lx0 = 0x22 # body" "escaped body" "whole lx0"
  shows "\<exists>good lx'. lex_string_loop c lx = Some (good, lx') \<and> string_scanned lx0 good lx'"
  using assms
proof (induction "left lx0" arbitrary: lx0 c lx body rule: less_induct)
  case less
  note ok = less.prems(1) and r = less.prems(2)
  have m: "moves lx0 lx" "same_token lx0 lx" by (rule reads_moves(1) [OF r], rule reads_same_token [OF r])
  have step: "\<exists>good lx''. lex_string_loop c' lx' = Some (good, lx'') \<and> string_scanned lx0 good lx''"
    if s: "saves lx0 bs lx1" "reads True lx1 c' lx'" "bs \<noteq> []" "escaped bs" for bs lx1 c' lx'
  proof -
    have "left lx1 < left lx0" "lex_ok lx1" "saved lx1 = 0x22 # body @ bs" "whole lx1"
      using s less.prems(3,5) by (auto simp: saves_def)
    then have "\<exists>good lx''. lex_string_loop c' lx' = Some (good, lx'') \<and> string_scanned lx1 good lx''"
      by (rule less.hyps [OF _ _ s(2) _ escaped_append [OF less.prems(4) s(4)]])
    then show ?thesis using string_scanned_mono [OF s(1)] by blast
  qed
  consider (quote) "c = 0x22" | (err) "c = STREAM_STATE_ERROR" | (eof) "c = STREAM_STATE_EOF"
    | (control) "0 \<le> c" "c \<le> 0x1F" | (esc) "c = 0x5C"
    | (raw) "c \<noteq> 0x22" "c \<noteq> 0x5C" "c \<noteq> STREAM_STATE_ERROR" "c \<noteq> STREAM_STATE_EOF" "\<not> (0 \<le> c \<and> c \<le> 0x1F)" by blast
  then show ?case
  proof cases
    case quote
    then obtain b where b: "c = sint b" "reads_byte True lx0 b lx" using reads_char [OF r] by auto
    have "b = 0x22" by (rule sint_char) (use b(1) quote in simp_all)
    then have "string_scanned lx0 True lx" using string_scanned_quote b(2) less.prems(3-5) by blast
    then show ?thesis using quote by (subst lex_string_loop.simps) auto
  next
    case err
    then show ?thesis using m by (subst lex_string_loop.simps) (auto simp: string_scanned_def stream_state_defs)
  next
    case eof
    then show ?thesis using string_scanned_fail [OF m, of "''premature end of input''"]
      by (subst lex_string_loop.simps) (auto simp: stream_state_defs)
  next
    case control
    then show ?thesis
      using string_scanned_ungot [OF ok r, of "if c = 10 then ''unexpected newline''
            else ''control character 0x'' @ hex_string False (nat c)"]
      by (subst lex_string_loop.simps) (auto simp: stream_state_defs)
  next
    case esc
    then obtain b where b: "c = sint b" "reads_byte True lx0 b lx" using reads_char [OF r] by auto
    have "b = 0x5C" by (rule sint_char) (use b(1) esc in simp_all)
    then have "escape_step lx0 (lex_string_loop c lx)" using lex_string_escape [OF ok] b(2) esc by simp
    then show ?thesis unfolding escape_step_def using step by metis
  next
    case raw
    then obtain b where b: "c = sint b" "reads_byte True lx0 b lx" using r reads_endE(4) by (auto simp: reads_def)
    have "raw_byte b" using raw_char [OF b(2)] raw b(1) by simp
    then have e: "escaped [b]" using escaped_raw escaped_nil by blast
    obtain c1 lx1 where g: "lex_get_save lx = Some (c1, lx1)" "reads True lx c1 lx1"
      using lex_get_save_reads [OF moves_ok [OF m(1)]] by blast
    have "lex_string_loop c lx = lex_string_loop c1 lx1"
      using raw g(1) by (subst lex_string_loop.simps) auto
    then show ?thesis using step [OF saves_byte [OF b(2)] g(2) _ e] by simp
  qed
qed

definition scanned :: "lex_t \<Rightarrow> lex_t \<Rightarrow> bool" where
  "scanned lx lx' \<longleftrightarrow> moves lx lx' \<and> token_ok lx' \<and> (token lx' \<noteq> TOKEN_INVALID \<longrightarrow> aligned lx')"

lemma lex_fields [simp]:
  "pending (lx\<lparr>token := t\<rparr>) = pending lx" "left (lx\<lparr>token := t\<rparr>) = left lx" "lex_ok (lx\<lparr>token := t\<rparr>) = lex_ok lx"
  "pending (lx\<lparr>lex_val := v\<rparr>) = pending lx" "left (lx\<lparr>lex_val := v\<rparr>) = left lx" "lex_ok (lx\<lparr>lex_val := v\<rparr>) = lex_ok lx"
  "aligned (lx\<lparr>token := t\<rparr>) = aligned lx" "aligned (lx\<lparr>lex_val := v\<rparr>) = aligned lx"
  "whole (lx\<lparr>token := t\<rparr>) = whole lx" "whole (lx\<lparr>lex_val := v\<rparr>) = whole lx"
  "ahead (lx\<lparr>token := t\<rparr>) = ahead lx" "ahead (lx\<lparr>lex_val := v\<rparr>) = ahead lx"
  by (simp_all add: pending_def left_def ahead_def lex_ok_def stream_ok_def aligned_def whole_def)

lemma moves_fields [simp]:
  "moves lx (lx'\<lparr>token := t\<rparr>) = moves lx lx'" "moves lx (lx'\<lparr>lex_val := v\<rparr>) = moves lx lx'"
  "moves (lx\<lparr>token := t\<rparr>) lx' = moves lx lx'" "moves (lx\<lparr>lex_val := v\<rparr>) lx' = moves lx lx'"
  by (simp_all add: moves_def)

lemma scanned_invalid: "moves lx lx' \<Longrightarrow> token lx' = TOKEN_INVALID \<Longrightarrow> scanned lx lx'"
  by (simp add: scanned_def token_ok_def token_defs)

lemma lex_scan_string_ok:
  assumes ok: "lex_ok lx" and s: "saved lx = [0x22]" and w: "whole lx"
  shows "\<exists>lx'. lex_scan_string lx = Some lx' \<and> scanned lx lx'"
proof -
  let ?lx = "lx\<lparr>lex_val := Value_string None, token := TOKEN_INVALID\<rparr>"
  obtain c lx1 where g: "lex_get_save ?lx = Some (c, lx1)" "reads True ?lx c lx1"
    using lex_get_save_reads [of ?lx] ok by auto
  obtain good lx2 where l: "lex_string_loop c lx1 = Some (good, lx2)" "string_scanned ?lx good lx2"
    using lex_string_loop_ok [OF _ g(2), of "[]"] ok s w escaped_nil by auto
  have m: "moves lx lx2" "token lx2 = TOKEN_INVALID" using l(2) by (auto simp: string_scanned_def same_token_def)
  show ?thesis
  proof (cases good)
    case False
    then show ?thesis using g(1) l(1) scanned_invalid [OF m] by (simp add: lex_scan_string_def)
  next
    case True
    then obtain body where b: "saved lx2 = 0x22 # body @ [0x22]" "escaped body" "utf8_check_bytes body" "aligned lx2"
      using l(2) by (auto simp: string_scanned_def)
    have sb: "strbuffer_ok (saved_text lx2)" using moves_ok [OF m(1)] by (simp add: lex_ok_def)
    then obtain junk where j: "strbuffer_value (saved_text lx2) = saved lx2 @ 0 # junk" using strbuffer.chars_ok by blast
    have len: "sb_length (saved_text lx2) = length body + 2" using length_contents [OF sb] b(1) by simp
    have "\<exists>r. unescape (sb_length (saved_text lx2) + 1) (body @ 0x22 # 0 # junk) [] = Some r \<and> unescaped body [] r"
      by (rule unescape_ok [OF b(2)]) (simp add: len)
    then obtain r where r: "unescape (sb_length (saved_text lx2) + 1) (drop 1 (strbuffer_value (saved_text lx2))) [] = Some r"
      "unescaped body [] r" using j b(1) by auto
    show ?thesis
    proof (cases r)
      case (Inl msg)
      obtain lx3 where "error_set lx2 msg = Some lx3" "moves lx2 lx3" "same_token lx2 lx3"
        using error_set_moves [OF moves_ok [OF m(1)]] by blast
      then show ?thesis
        using g(1) l(1) r(1) Inl True moves_trans [OF m(1), of lx3] m(2)
        by (auto simp: lex_scan_string_def same_token_def intro: scanned_invalid)
    next
      case (Inr str)
      then have "utf8_check_bytes str" "0 \<notin> set str" using r(2) b(3) by (auto simp: unescaped_def)
      then have "scanned lx (lx2\<lparr>lex_val := Value_string (Some str), token := TOKEN_STRING\<rparr>)"
        using m(1) b(4) by (simp add: scanned_def token_ok_def token_defs)
      then show ?thesis using g(1) l(1) r(1) Inr True by (simp add: lex_scan_string_def)
    qed
  qed
qed

section \<open>Number tokens\<close>

text \<open>ASCII characters that are read with \<open>lex_get_save\<close>.\<close>

definition collects :: "lex_t \<Rightarrow> byte list \<Rightarrow> lex_t \<Rightarrow> bool" where
  "collects lx bs lx' \<longleftrightarrow> lex_ok lx' \<and> same_token lx lx' \<and> saved lx' = saved lx @ bs \<and>
     left lx = left lx' + length bs \<and> (aligned lx \<longrightarrow> aligned lx') \<and> lex_error lx' = lex_error lx \<and>
     (st_state lx = STREAM_STATE_OK \<longrightarrow> st_state lx' = STREAM_STATE_OK \<and> ahead lx = bs @ ahead lx')"

lemma collects_refl: "lex_ok lx \<Longrightarrow> collects lx [] lx"
  by (simp add: collects_def)

lemma collects_trans: "collects lx as lx1 \<Longrightarrow> collects lx1 bs lx2 \<Longrightarrow> collects lx (as @ bs) lx2"
  using same_token_trans by (auto simp: collects_def)

lemma collects_byte: "reads_byte True lx b lx' \<Longrightarrow> unat b < 128 \<Longrightarrow> collects lx [b] lx'"
  using reads_byteE [of True lx b lx'] aligned_reads [of lx True b lx'] by (auto simp: collects_def)

lemma collects_moves: "collects lx bs lx' \<Longrightarrow> moves lx lx'"
  by (simp add: collects_def moves_def same_token_def)

lemma reads_collects:
  assumes "reads True lx c lx'" "0 \<le> c"
  obtains b where "c = sint b" "reads_byte True lx b lx'" "collects lx [b] lx'"
  using reads_char [OF assms] collects_byte assms(2) sint_ascii by metis

lemma lex_digits_ok:
  assumes "lex_ok lx0" "reads True lx0 c lx"
  shows "\<exists>lx1 c' lx' ds. lex_digits c lx = Some (c', lx') \<and> collects lx0 ds lx1 \<and> reads True lx1 c' lx' \<and>
    digit_bytes ds \<and> \<not> l_isdigit c' \<and> (l_isdigit c \<longrightarrow> ds \<noteq> [])"
proof -
  have "\<exists>lx0' c' lx' bs. lex_digits c lx = Some (c', lx') \<and> reads True lx0' c' lx' \<and> \<not> l_isdigit c' \<and> lex_ok lx0' \<and>
    same_token lx0 lx0' \<and> saved lx0' = saved lx0 @ (if True then bs else []) \<and> (\<forall>b \<in> set bs. l_isdigit (sint b)) \<and>
    left lx0 = left lx0' + length bs \<and> (aligned lx0 \<longrightarrow> aligned lx0') \<and> lex_error lx0' = lex_error lx0 \<and>
    (st_state lx0 = STREAM_STATE_OK \<longrightarrow> st_state lx0' = STREAM_STATE_OK \<and> ahead lx0 = bs @ ahead lx0') \<and>
    (bs = [] \<longrightarrow> c' = c) \<and> (l_isdigit c \<longrightarrow> bs \<noteq> [])"
    by (rule digits_reads [OF _ _ assms]) (simp_all add: l_is_defs)
  then show ?thesis unfolding collects_def digit_bytes_def by (auto simp only: if_True)
qed

lemma get_digits:
  "l_isdigit c \<Longrightarrow> Option.bind (lex_get_save lx) (\<lambda>(c, lx). Option.bind (lex_digits c lx) k) = Option.bind (lex_digits c lx) k"
  by (subst (2) lex_digits.simps) (cases "lex_get_save lx", auto)

text \<open>A piece of a number: it is refused, or it was collected and the next character is \<open>c'\<close>.\<close>

definition piece :: "lex_t \<Rightarrow> (byte list \<Rightarrow> bool) \<Rightarrow> (bool \<times> int \<times> lex_t) option \<Rightarrow> bool" where
  "piece lx0 P res \<longleftrightarrow> (\<exists>good c' lx'. res = Some (good, c', lx') \<and>
     (if good then \<exists>lx1 bs. collects lx0 bs lx1 \<and> reads True lx1 c' lx' \<and> P bs
      else moves lx0 lx' \<and> same_token lx0 lx'))"

lemma piece_bad: "moves lx0 lx' \<Longrightarrow> same_token lx0 lx' \<Longrightarrow> piece lx0 P (Some (False, c, lx'))"
  by (auto simp: piece_def)

lemma piece_good: "collects lx0 bs lx1 \<Longrightarrow> reads True lx1 c lx' \<Longrightarrow> P bs \<Longrightarrow> piece lx0 P (Some (True, c, lx'))"
  by (auto simp: piece_def)

lemma piece_ungot:
  assumes "collects lx0 bs lx1" "reads True lx1 c lx"
  shows "piece lx0 P (do { lx \<leftarrow> lex_unget_unsave lx c; Some (False, c, lx) })"
proof -
  have "lex_ok lx1" "same_token lx0 lx1" using assms(1) by (simp_all add: collects_def)
  then obtain lx2 where u: "lex_unget_unsave lx c = Some lx2" "moves lx1 lx2" "same_token lx1 lx2"
    using lex_unget_unsave_moves [OF _ assms(2)] by blast
  then show ?thesis
    using piece_bad [OF moves_trans [OF collects_moves [OF assms(1)] u(2)] same_token_trans [OF \<open>same_token lx0 lx1\<close> u(3)]]
    by simp
qed

text \<open>All digits from the digit \<open>c\<close> on.\<close>

lemma piece_digits:
  assumes pre: "collects lx0 pre lx1" and r: "reads True lx1 c lx" "l_isdigit c"
    and P: "\<And>ds. digit_bytes ds \<Longrightarrow> ds \<noteq> [] \<Longrightarrow> P (pre @ ds)"
  shows "piece lx0 P (do { (c, lx) \<leftarrow> lex_get_save lx; (c, lx) \<leftarrow> lex_digits c lx; Some (True, c, lx) })"
proof -
  have ok: "lex_ok lx1" using pre by (simp add: collects_def)
  obtain lx2 c' lx' ds where d: "lex_digits c lx = Some (c', lx')" "collects lx1 ds lx2" "reads True lx2 c' lx'"
    "digit_bytes ds" "ds \<noteq> []"
    using lex_digits_ok [OF ok r(1)] r(2) by blast
  have "(do { (c, lx) \<leftarrow> lex_get_save lx; (c, lx) \<leftarrow> lex_digits c lx; Some (True, c, lx) }) = Some (True, c', lx')"
    using get_digits [OF r(2), of lx "\<lambda>(c, lx). Some (True, c, lx)"] d(1) by simp
  then show ?thesis using piece_good [OF collects_trans [OF pre d(2)] d(3)] P [OF d(4,5)] by simp
qed

lemma lex_int_part_ok:
  assumes ok: "lex_ok lx0" and r: "reads True lx0 c lx"
  shows "piece lx0 (\<lambda>ds. digit_bytes ds \<and> ds \<noteq> []) (lex_int_part lx c)"
proof -
  consider (zero) "c = 0x30" | (digit) "c \<noteq> 0x30" "l_isdigit c" | (other) "\<not> l_isdigit c" by blast
  then show ?thesis
  proof cases
    case zero
    then obtain b where b: "c = sint b" "collects lx0 [b] lx" using reads_collects [OF r] by auto
    obtain c1 lx1 where g: "lex_get_save lx = Some (c1, lx1)" "reads True lx c1 lx1"
      using lex_get_save_reads [OF moves_ok [OF collects_moves [OF b(2)]]] by blast
    have "digit_bytes [b]" using b(1) zero by (simp add: digit_bytes_def l_is_defs)
    then show ?thesis
      using zero g(1) piece_ungot [OF b(2) g(2)] piece_good [OF b(2) g(2)] by (auto simp: lex_int_part_def)
  next
    case digit
    then show ?thesis
      using piece_digits [OF collects_refl [OF ok] r digit(2), of "\<lambda>ds. digit_bytes ds \<and> ds \<noteq> []"]
      by (simp add: lex_int_part_def)
  next
    case other
    then have "c \<noteq> 0x30" by (auto simp: l_is_defs)
    then show ?thesis using other piece_ungot [OF collects_refl [OF ok] r] by (simp add: lex_int_part_def)
  qed
qed

lemma lex_fraction_ok:
  assumes ok: "lex_ok lx0" and r: "reads True lx0 c lx"
  shows "piece lx0 fraction_bytes (lex_fraction lx c)"
proof (cases "c = 0x2E")
  case False
  then show ?thesis using piece_good [OF collects_refl [OF ok] r] by (simp add: lex_fraction_def fraction_bytes_def)
next
  case True
  then obtain b where b: "c = sint b" "collects lx0 [b] lx" using reads_collects [OF r] by auto
  have bv: "b = 0x2E" by (rule sint_char) (use b(1) True in simp_all)
  have okx: "lex_ok lx" "moves lx0 lx" "same_token lx0 lx"
    using b(2) collects_moves [OF b(2)] by (simp_all add: collects_def)
  obtain c1 lx1 where g: "lex_get lx = Some (c1, lx1)" "reads False lx c1 lx1"
    using stream_get_reads [OF okx(1)] by (auto simp: lex_get_def)
  show ?thesis
  proof (cases "l_isdigit c1")
    case False
    obtain lx2 where u: "lex_unget lx1 c1 = Some lx2" "moves lx lx2" "same_token lx lx2"
      using lex_unget_moves [OF okx(1) g(2)] by blast
    then show ?thesis
      using piece_bad [OF moves_trans [OF okx(2) u(2)] same_token_trans [OF okx(3) u(3)]] True g(1) False
      by (simp add: lex_fraction_def)
  next
    case digit: True
    then have "0 \<le> c1" by (simp add: l_is_defs)
    then obtain b1 where b1: "c1 = sint b1" "reads_byte False lx b1 lx1" using reads_char [OF g(2)] by blast
    then obtain lx2 where s: "lex_save lx1 c1 = Some lx2" "reads_byte True lx b1 lx2"
      using lex_save_reads [OF okx(1)] by blast
    then have r2: "reads True lx c1 lx2" using b1(1) by (auto simp: reads_def)
    show ?thesis
      using piece_digits [OF b(2) r2 digit, of fraction_bytes] True g(1) digit s(1) bv
      by (simp add: lex_fraction_def fraction_bytes_def)
  qed
qed

lemma lex_exponent_ok:
  assumes ok: "lex_ok lx0" and r: "reads True lx0 c lx"
  shows "piece lx0 exponent_bytes (lex_exponent lx c)"
proof (cases "c = 0x45 \<or> c = 0x65")
  case False
  then show ?thesis using piece_good [OF collects_refl [OF ok] r] by (simp add: lex_exponent_def exponent_bytes_def)
next
  case True
  then have "0 \<le> c" by auto
  then obtain b where b: "c = sint b" "collects lx0 [b] lx" using reads_collects [OF r] by blast
  have bv: "b = 0x45 \<or> b = 0x65" using True b(1) sint_lit [of _ b] by auto
  obtain c1 lx1 where g: "lex_get_save lx = Some (c1, lx1)" "reads True lx c1 lx1"
    using lex_get_save_reads [OF moves_ok [OF collects_moves [OF b(2)]]] by blast
  obtain lx2 c2 lx3 sg where 2: "(if c1 = 0x2B \<or> c1 = 0x2D then lex_get_save lx1 else Some (c1, lx1)) = Some (c2, lx3)"
    "collects lx0 ([b] @ sg) lx2" "reads True lx2 c2 lx3" "sg = [] \<or> sg = [0x2B] \<or> sg = [0x2D]"
  proof (cases "c1 = 0x2B \<or> c1 = 0x2D")
    case False
    then show thesis using that [of c1 lx1 "[]" lx] b(2) g(2) by simp
  next
    case True
    then have "0 \<le> c1" by auto
    then obtain b1 where b1: "c1 = sint b1" "collects lx [b1] lx1" using reads_collects [OF g(2)] by blast
    have "b1 = 0x2B \<or> b1 = 0x2D" using True b1(1) sint_lit [of _ b1] by auto
    moreover obtain c2 lx3 where "lex_get_save lx1 = Some (c2, lx3)" "reads True lx1 c2 lx3"
      using lex_get_save_reads [OF moves_ok [OF collects_moves [OF b1(2)]]] by blast
    ultimately show thesis using that [of c2 lx3 "[b1]" lx1] collects_trans [OF b(2) b1(2)] True by auto
  qed
  have eq: "lex_exponent lx c =
      (if \<not> l_isdigit c2 then do { lx \<leftarrow> lex_unget_unsave lx3 c2; Some (False, c2, lx) }
       else do { (c, lx) \<leftarrow> lex_get_save lx3; (c, lx) \<leftarrow> lex_digits c lx; Some (True, c, lx) })"
    using True g(1) 2(1) by (simp add: lex_exponent_def)
  show ?thesis
  proof (cases "l_isdigit c2")
    case False
    then show ?thesis using piece_ungot [OF 2(2,3)] eq by simp
  next
    case digit: True
    have "exponent_bytes (([b] @ sg) @ ds)" if "digit_bytes ds" "ds \<noteq> []" for ds
      using that bv 2(4) by (auto simp: exponent_bytes_def)
    then show ?thesis using piece_digits [OF 2(2,3) digit, of exponent_bytes] eq digit by simp
  qed
qed

end

end
