(* ===== verification/Json_Scan.thy ===== *)
theory Json_Scan
  imports Json_Tokens
begin

text \<open>
  \<open>lex_scan\<close> on arbitrary input: it returns, and the token that it leaves has a value of its type. A
  token that is neither invalid nor the end of the input has consumed a byte. For an input of which
  the next bytes are known the token is known too: this is what the round trip of \<open>Json_Text\<close>
  uses.
\<close>

section \<open>Texts of numbers as bytes\<close>

lemma digit_char: "is_digit (char_of_byte b) \<longleftrightarrow> l_isdigit (sint b)"
proof -
  define n where "n = unat b"
  have "sint b = (if n < 128 then int n else int n - 256)" unfolding n_def by (rule sint_byte)
  then show ?thesis using unat_byte_less [of b]
    by (auto simp: is_digit_def char_of_byte_def l_isdigit_def simp flip: n_def)
qed

lemma digit_bytes_text: "digit_bytes ds \<Longrightarrow> ds \<noteq> [] \<Longrightarrow> digits (map char_of_byte ds)"
  by (auto simp: digit_bytes_def digits_def digit_char)

definition sign_bytes :: "bool \<Rightarrow> byte list" where
  "sign_bytes neg = (if neg then [0x2D] else [])"

lemma char_lits: "char_of_byte 0x2D = CHR ''-''" "char_of_byte 0x2B = CHR ''+''" "char_of_byte 0x2E = CHR ''.''"
  "char_of_byte 0x45 = CHR ''E''" "char_of_byte 0x65 = CHR ''e''"
  by (simp_all add: char_of_byte_def char_of_def bit_simps)

lemma sign_bytes_text: "map char_of_byte (sign_bytes neg) = sign_text neg"
  by (simp add: sign_bytes_def sign_text_def char_lits)

lemma fraction_bytes_text: "fraction_bytes fr \<Longrightarrow> fraction_text (map char_of_byte fr)"
  unfolding fraction_bytes_def fraction_text_def using digit_bytes_text by (auto simp: char_lits)

lemma exponent_bytes_text:
  assumes "exponent_bytes ex"
  shows "exponent_text (map char_of_byte ex)"
proof (cases "ex = []")
  case False
  then obtain e sg ds where *: "digit_bytes ds" "ds \<noteq> []" "e = 0x45 \<or> e = 0x65" "sg = [] \<or> sg = [0x2B] \<or> sg = [0x2D]"
    "ex = e # sg @ ds" using assms unfolding exponent_bytes_def by blast
  have "digits (map char_of_byte ds)" by (rule digit_bytes_text [OF *(1,2)])
  moreover have "char_of_byte e = CHR ''e'' \<or> char_of_byte e = CHR ''E''"
    "map char_of_byte sg = [] \<or> map char_of_byte sg = ''-'' \<or> map char_of_byte sg = ''+''"
    using *(3,4) by (auto simp: char_lits)
  ultimately have "exponent_text (char_of_byte e # map char_of_byte sg @ map char_of_byte ds)"
    unfolding exponent_text_def
    by (intro disjI2 exI [of _ "char_of_byte e"] exI [of _ "map char_of_byte sg"] exI [of _ "map char_of_byte ds"]) simp
  then show ?thesis using *(5) by simp
qed (simp add: exponent_text_def)

lemma digit_bytes_nonzero: "digit_bytes ds \<Longrightarrow> 0 \<notin> set ds"
  by (force simp: digit_bytes_def l_isdigit_def)

lemma number_bytes_nonzero:
  "0 \<notin> set (sign_bytes neg)" "fraction_bytes fr \<Longrightarrow> 0 \<notin> set fr" "exponent_bytes ex \<Longrightarrow> 0 \<notin> set ex"
  using digit_bytes_nonzero by (auto simp: sign_bytes_def fraction_bytes_def exponent_bytes_def)

definition signed_value :: "bool \<Rightarrow> nat \<Rightarrow> int" where
  "signed_value neg n = (if neg then - int n else int n)"

section \<open>Number tokens\<close>

context byte_source
begin

text \<open>What is ahead of a lexer, whether or not the end of the input was seen already: bytes of a text that
  is UTF-8, possibly from the middle of a character (\<open>fronts\<close>), or from its beginning
  (\<open>faces\<close>).\<close>

definition fronts :: "lex_t \<Rightarrow> byte list \<Rightarrow> bool" where
  "fronts lx bs \<longleftrightarrow> lex_ok lx \<and>
     (st_state lx = STREAM_STATE_OK \<and> ahead lx = bs \<and> utf8_check_bytes (view (st_data lx)) \<or>
      st_state lx = STREAM_STATE_EOF \<and> bs = [])"

definition faces :: "lex_t \<Rightarrow> byte list \<Rightarrow> bool" where
  "faces lx bs \<longleftrightarrow> fronts lx bs \<and> aligned lx"

lemma faces_fields [simp]: "faces (lx\<lparr>token := t\<rparr>) bs = faces lx bs" "faces (lx\<lparr>lex_val := v\<rparr>) bs = faces lx bs"
  by (simp_all add: faces_def fronts_def)

text \<open>A byte that is read keeps the rest of the input UTF-8.\<close>

lemma reads_byte_utf8:
  assumes "reads_byte keep lx b lx'" "utf8_check_bytes (view (st_data lx))"
  shows "utf8_check_bytes (view (st_data lx'))"
proof -
  from assms(1) consider "st_data lx' = st_data lx" | "pending lx = []" "utf8_check_bytes (b # pending lx')" "ahead lx = b # ahead lx'"
    by (auto simp: reads_byte_def)
  then show ?thesis
  proof cases
    case 2
    then have "view (st_data lx) = (b # pending lx') @ view (st_data lx')" by (simp add: ahead_def)
    then show ?thesis using assms(2) utf8_check_bytes_prefix [OF 2(2)] by simp
  qed (use assms(2) in simp)
qed

lemma fronts_byte:
  assumes "fronts lx (b # bs)" "reads_byte keep lx b' lx'"
  shows "b' = b" "fronts lx' bs"
proof -
  note r = reads_byteE [OF assms(2)]
  have f: "ahead lx = b # bs" "utf8_check_bytes (view (st_data lx))" using assms(1) by (auto simp: fronts_def)
  then show "b' = b" "fronts lx' bs" using r reads_byte_utf8 [OF assms(2) f(2)] by (simp_all add: fronts_def)
qed

lemma fronts_end:
  assumes "fronts lx bs" "reads_end lx c lx'"
  shows "bs = []" "c = STREAM_STATE_EOF" "fronts lx' []"
  using assms by (auto simp: fronts_def reads_end_def stream_state_defs ahead_def)

lemma unget_unsave_ok:
  assumes ok: "lex_ok lx" and r: "reads True lx c lx'"
  shows "\<exists>lx''. lex_unget_unsave lx' c = Some lx'' \<and> moves lx lx'' \<and> saved lx'' = saved lx \<and> same_token lx lx'' \<and>
    (aligned lx \<longrightarrow> aligned lx'') \<and> (\<forall>bs. faces lx bs \<and> 0 \<notin> set bs \<longrightarrow> faces lx'' bs)"
  using r unfolding reads_def
proof (elim disjE exE conjE)
  assume *: "reads_end lx c lx'"
  then have "aligned lx'" using reads_endE(4,6) [OF *] by (auto simp: aligned_def stream_state_defs)
  moreover have "faces lx' bs" if "faces lx bs" for bs
    using that fronts_end [OF _ *, of bs] \<open>aligned lx'\<close> by (auto simp: faces_def)
  ultimately show ?thesis using lex_unget_end [OF *] reads_moves(1) [OF r] reads_endE [OF *] by blast
next
  fix b assume *: "c = sint b" "reads_byte True lx b lx'"
  then obtain lx'' where u: "lex_unget_unsave lx' c = Some lx''" "put_back lx b lx' lx''"
    using lex_unget_unsave_byte [OF ok] by blast
  have al: "aligned lx \<Longrightarrow> aligned lx''" by (rule aligned_put_back [OF _ *(2) u(2)])
  moreover have "faces lx'' bs" if "faces lx bs" "0 \<notin> set bs" for bs
  proof -
    have "ahead lx = bs" "utf8_check_bytes (view (st_data lx))" "aligned lx" "st_state lx = STREAM_STATE_OK"
      using that(1) reads_byteE(3,7) [OF *(2)] by (auto simp: faces_def fronts_def stream_state_defs)
    then show ?thesis
      using that(2) u(2) reads_byteE(3) [OF *(2)] al reads_byte_utf8 [OF *(2)] by (auto simp: faces_def fronts_def put_back_def)
  qed
  ultimately show ?thesis using u(1) put_back_moves [OF u(2)] u(2) unfolding put_back_def by blast
qed

text \<open>The text of a token that has no zero byte.\<close>

lemma saved_string_ok:
  assumes "lex_ok lx" "saved lx = bs" "0 \<notin> set bs"
  shows "saved_string lx = Some (map char_of_byte bs)" "sb_length (saved_text lx) = length bs"
  using assms strbuffer.chars_string [of "saved_text lx"] length_contents [of "saved_text lx"]
  by (simp_all add: saved_string_def lex_ok_def)

text \<open>The end of a number token: what followed is put back.\<close>

lemma number_end:
  assumes "collects lx0 bs lx1" "reads True lx1 c lx" "saved lx0 = []" "aligned lx0" "0 \<notin> set bs" "bs \<noteq> []"
  obtains lx2 where "lex_unget_unsave lx c = Some lx2" "moves lx0 lx2" "same_token lx0 lx2"
    "saved_string lx2 = Some (map char_of_byte bs)" "sb_length (saved_text lx2) = length bs"
    "aligned lx2" "\<And>cs. faces lx1 cs \<Longrightarrow> 0 \<notin> set cs \<Longrightarrow> faces lx2 cs" "left lx2 < left lx0"
proof -
  have c: "lex_ok lx1" "same_token lx0 lx1" "saved lx1 = bs" "aligned lx0 \<longrightarrow> aligned lx1"
    using assms(1,3) by (auto simp: collects_def)
  obtain lx2 where u: "lex_unget_unsave lx c = Some lx2" "moves lx1 lx2" "saved lx2 = saved lx1" "same_token lx1 lx2"
    "aligned lx1 \<longrightarrow> aligned lx2" "\<forall>bs. faces lx1 bs \<and> 0 \<notin> set bs \<longrightarrow> faces lx2 bs"
    using unget_unsave_ok [OF c(1) assms(2)] by blast
  have "left lx2 < left lx0" using u(2) assms(1,6) by (cases bs) (simp_all add: moves_def collects_def)
  then show thesis
    using that [OF u(1) moves_trans [OF collects_moves [OF assms(1)] u(2)] same_token_trans [OF c(2) u(4)]
        saved_string_ok [OF moves_ok [OF u(2)] _ assms(5)]] u(3,5,6) c(3,4) assms(4) by auto
qed

text \<open>A token that was scanned has consumed a byte.\<close>

definition scans :: "lex_t \<Rightarrow> lex_t \<Rightarrow> bool" where
  "scans lx lx' \<longleftrightarrow> scanned lx lx' \<and> (token lx' \<noteq> TOKEN_INVALID \<longrightarrow> left lx' < left lx)"

lemma scans_invalid: "moves lx lx' \<Longrightarrow> token lx' = TOKEN_INVALID \<Longrightarrow> scans lx lx'"
  by (simp add: scans_def scanned_invalid)

lemma lex_integer_ok:
  assumes bs: "bs = sign_bytes neg @ ds" "digit_bytes ds" "ds \<noteq> []"
    and c: "collects lx0 bs lx1" "reads True lx1 c lx"
    and l: "saved lx0 = []" "token lx0 = TOKEN_INVALID" "aligned lx0"
  shows "\<exists>r lx'. lex_integer lx c = Some (r, lx') \<and> scans lx0 lx' \<and>
    (let v = signed_value neg (dec_value (map char_of_byte ds)) in - (2 ^ 63) \<le> v \<and> v < 2 ^ 63 \<longrightarrow>
      token lx' = TOKEN_INTEGER \<and> lex_val lx' = Value_integer v \<and> (\<forall>cs. faces lx1 cs \<and> 0 \<notin> set cs \<longrightarrow> faces lx' cs))"
proof -
  have "0 \<notin> set bs" "bs \<noteq> []" using bs digit_bytes_nonzero number_bytes_nonzero(1) by auto
  then obtain lx2 where u: "lex_unget_unsave lx c = Some lx2" "moves lx0 lx2" "same_token lx0 lx2"
    "saved_string lx2 = Some (map char_of_byte bs)" "sb_length (saved_text lx2) = length bs"
    "aligned lx2" "\<And>cs. faces lx1 cs \<Longrightarrow> 0 \<notin> set cs \<Longrightarrow> faces lx2 cs" "left lx2 < left lx0"
    using number_end [OF c l(1,3)] by blast
  define v where "v = signed_value neg (dec_value (map char_of_byte ds))"
  have len: "length bs = length (sign_text neg @ map char_of_byte ds)"
    using bs(1) sign_bytes_text [of neg, symmetric] by simp
  have st: "strtoll (map char_of_byte bs) = (if v < - (2 ^ 63) then (- (2 ^ 63), length bs, True)
      else if v \<ge> 2 ^ 63 then (2 ^ 63 - 1, length bs, True) else (v, length bs, False))"
    using strtoll_text [OF digit_bytes_text [OF bs(2,3)], of neg] bs(1)
    unfolding len by (simp only: Let_def v_def signed_value_def sign_bytes_text map_append)
  show ?thesis
  proof (cases "- (2 ^ 63) \<le> v \<and> v < 2 ^ 63")
    case True
    then have st: "strtoll (map char_of_byte bs) = (v, length bs, False)" using st by simp
    let ?lx = "lx2\<lparr>token := TOKEN_INTEGER, lex_val := Value_integer v\<rparr>"
    have "lex_integer lx c = Some (0, ?lx)" using u(1,4,5) st by (simp add: lex_integer_def)
    moreover have "scans lx0 ?lx" using u(2,6,8) bs(3) True by (simp add: scans_def scanned_def token_ok_def token_defs)
    ultimately show ?thesis using u(7) by (auto simp: v_def [symmetric])
  next
    case False
    then obtain w where st: "strtoll (map char_of_byte bs) = (w, length bs, True)" using st by (auto split: if_splits)
    let ?msg = "if w < 0 then ''too big negative integer'' else ''too big integer''"
    obtain lx3 where e: "error_set lx2 ?msg = Some lx3" "moves lx2 lx3" "same_token lx2 lx3"
      using error_set_moves [OF moves_ok [OF u(2)]] by blast
    have "lex_integer lx c = Some (- 1, lx3)" using u(1,4) st e(1) by (simp add: lex_integer_def)
    moreover have "scans lx0 lx3"
      using moves_trans [OF u(2) e(2)] u(3) e(3) l(2) by (simp add: scans_invalid same_token_def)
    ultimately show ?thesis using False by (auto simp: v_def [symmetric])
  qed
qed

lemma lex_real_end_ok:
  assumes bs: "bs = sign_bytes neg @ ip @ fr @ ex" "digit_bytes ip" "ip \<noteq> []" "fraction_bytes fr" "exponent_bytes ex"
    and c: "collects lx0 bs lx1" "reads True lx1 c lx"
    and l: "saved lx0 = []" "token lx0 = TOKEN_INVALID" "aligned lx0"
  shows "\<exists>r lx'. lex_real_end uflow lx c = Some (r, lx') \<and> scans lx0 lx' \<and>
    (\<forall>v. jsonp_strtod uflow (map char_of_byte bs) = Some (Ok v) \<longrightarrow>
      token lx' = TOKEN_REAL \<and> lex_val lx' = Value_real v \<and> (\<forall>cs. faces lx1 cs \<and> 0 \<notin> set cs \<longrightarrow> faces lx' cs))"
proof -
  have "0 \<notin> set bs" "bs \<noteq> []" using bs digit_bytes_nonzero number_bytes_nonzero by auto
  then obtain lx2 where u: "lex_unget_unsave lx c = Some lx2" "moves lx0 lx2" "same_token lx0 lx2"
    "saved_string lx2 = Some (map char_of_byte bs)" "sb_length (saved_text lx2) = length bs"
    "aligned lx2" "\<And>cs. faces lx1 cs \<Longrightarrow> 0 \<notin> set cs \<Longrightarrow> faces lx2 cs" "left lx2 < left lx0"
    using number_end [OF c l(1,3)] by blast
  obtain r where r: "jsonp_strtod uflow (map char_of_byte bs) = Some r" "\<forall>d. r = Ok d \<longrightarrow> dbl_finite d"
    using jsonp_strtod_text [OF digit_bytes_text [OF bs(2,3)] fraction_bytes_text [OF bs(4)] exponent_bytes_text [OF bs(5)],
        of uflow neg] bs(1) by (auto simp: sign_bytes_text)
  show ?thesis
  proof (cases r)
    case (Ok d)
    let ?lx = "lx2\<lparr>token := TOKEN_REAL, lex_val := Value_real d\<rparr>"
    have "lex_real_end uflow lx c = Some (0, ?lx)" using u(1,4,5) r(1) Ok by (simp add: lex_real_end_def)
    moreover have "scans lx0 ?lx" using u(2,6,8) bs(1,3) r(2) Ok by (simp add: scans_def scanned_def token_ok_def token_defs)
    ultimately show ?thesis using u(7) r(1) Ok by auto
  next
    case Fail
    obtain lx3 where e: "error_set lx2 ''real number overflow'' = Some lx3" "moves lx2 lx3" "same_token lx2 lx3"
      using error_set_moves [OF moves_ok [OF u(2)]] by blast
    have "lex_real_end uflow lx c = Some (- 1, lx3)" using u(1,4,5) r(1) Fail e(1) by (simp add: lex_real_end_def)
    moreover have "scans lx0 lx3"
      using moves_trans [OF u(2) e(2)] u(3) e(3) l(2) by (simp add: scans_invalid same_token_def)
    ultimately show ?thesis using r(1) Fail by auto
  qed
qed

text \<open>A piece of a number that is refused ends the token.\<close>

lemma piece_cases:
  assumes "piece lx1 P res" "collects lx0 bs lx1" "token lx0 = TOKEN_INVALID"
  obtains (good) cs lx2 c' lx' where "res = Some (True, c', lx')" "collects lx0 (bs @ cs) lx2" "collects lx1 cs lx2"
      "reads True lx2 c' lx'" "P cs"
  | (bad) c' lx' where "res = Some (False, c', lx')" "scans lx0 lx'"
proof -
  obtain ok c' lx' where *: "res = Some (ok, c', lx')" "if ok then \<exists>lx2 cs. collects lx1 cs lx2 \<and> reads True lx2 c' lx' \<and> P cs
      else moves lx1 lx' \<and> same_token lx1 lx'" using assms(1) by (auto simp: piece_def)
  show thesis
  proof (cases ok)
    case True
    then show thesis using * good collects_trans [OF assms(2)] by auto
  next
    case False
    then have "moves lx0 lx'" "same_token lx1 lx'" using * moves_trans [OF collects_moves [OF assms(2)]] by auto
    moreover have "same_token lx0 lx1" using assms(2) by (simp add: collects_def)
    ultimately have "scans lx0 lx'" using assms(3) scans_invalid by (simp add: same_token_def)
    then show thesis using * False bad by simp
  qed
qed

lemma lex_real_ok:
  assumes bs: "bs = sign_bytes neg @ ip" "digit_bytes ip" "ip \<noteq> []"
    and c: "collects lx0 bs lx1" "reads True lx1 c lx"
    and l: "saved lx0 = []" "token lx0 = TOKEN_INVALID" "aligned lx0"
  shows "\<exists>r lx'. lex_real uflow lx c = Some (r, lx') \<and> scans lx0 lx'"
proof -
  have ok: "lex_ok lx1" using c(1) by (simp add: collects_def)
  show ?thesis
  proof (rule piece_cases [OF lex_fraction_ok [OF ok c(2)] c(1) l(2)])
    fix c1 lx2 assume "lex_fraction lx c = Some (False, c1, lx2)" "scans lx0 lx2"
    then show ?thesis by (simp add: lex_real_def)
  next
    fix fr lx2 c1 lx3 assume f: "lex_fraction lx c = Some (True, c1, lx3)" "collects lx0 (bs @ fr) lx2"
      "reads True lx2 c1 lx3" "fraction_bytes fr"
    have ok2: "lex_ok lx2" using f(2) by (simp add: collects_def)
    show ?thesis
    proof (rule piece_cases [OF lex_exponent_ok [OF ok2 f(3)] f(2) l(2)])
      fix c2 lx4 assume "lex_exponent lx3 c1 = Some (False, c2, lx4)" "scans lx0 lx4"
      then show ?thesis using f(1) by (simp add: lex_real_def)
    next
      fix ex lx4 c2 lx5 assume e: "lex_exponent lx3 c1 = Some (True, c2, lx5)" "collects lx0 ((bs @ fr) @ ex) lx4"
        "reads True lx4 c2 lx5" "exponent_bytes ex"
      have "lex_real uflow lx c = lex_real_end uflow lx5 c2" using f(1) e(1) by (simp add: lex_real_def)
      then show ?thesis using lex_real_end_ok [OF _ bs(2,3) f(4) e(4,2,3) l, of neg uflow] bs(1) by auto
    qed
  qed
qed

lemma reads_token: "reads keep lx c lx' \<Longrightarrow> reads keep (lx\<lparr>token := t\<rparr>) c (lx'\<lparr>token := t\<rparr>)"
  by (auto simp: reads_def reads_byte_def reads_end_def same_token_def last_got_def)

lemma lex_scan_number_ok:
  assumes ok: "lex_ok lx0" "saved lx0 = []" "aligned lx0" and r: "reads True lx0 c lx"
  shows "\<exists>r lx'. lex_scan_number uflow lx c = Some (r, lx') \<and> scans lx0 lx'"
proof -
  let ?start = "lx0\<lparr>token := TOKEN_INVALID\<rparr>" and ?lx = "lx\<lparr>token := TOKEN_INVALID\<rparr>"
  have r0: "reads True ?start c ?lx" by (rule reads_token [OF r])
  have sc: "scans lx0 lx'" if "scans ?start lx'" for lx' using that by (simp add: scans_def scanned_def)
  have l: "saved ?start = []" "token ?start = TOKEN_INVALID" "aligned ?start" using ok by simp_all
  obtain neg lx1 c1 lx2 where s: "(if c = 0x2D then lex_get_save ?lx else Some (c, ?lx)) = Some (c1, lx2)"
    "collects ?start (sign_bytes neg) lx1" "reads True lx1 c1 lx2"
  proof (cases "c = 0x2D")
    case False
    then show thesis using that [of c ?lx False ?start] r0 collects_refl [of ?start] ok by (simp add: sign_bytes_def)
  next
    case True
    then obtain b where b: "c = sint b" "collects ?start [b] ?lx" using reads_collects [OF r0] by auto
    moreover have "b = 0x2D" by (rule sint_char) (use b(1) True in simp_all)
    moreover obtain c1 lx2 where "lex_get_save ?lx = Some (c1, lx2)" "reads True ?lx c1 lx2"
      using lex_get_save_reads [OF moves_ok [OF collects_moves [OF b(2)]]] by blast
    ultimately show thesis using that [of c1 lx2 True ?lx] True by (simp add: sign_bytes_def)
  qed
  have ok1: "lex_ok lx1" using s(2) by (simp add: collects_def)
  show ?thesis
  proof (rule piece_cases [OF lex_int_part_ok [OF ok1 s(3)] s(2) l(2)])
    fix c' lx' assume "lex_int_part lx2 c1 = Some (False, c', lx')" "scans ?start lx'"
    then show ?thesis using s(1) sc by (simp add: lex_scan_number_def)
  next
    fix ds lx3 c' lx' assume i: "lex_int_part lx2 c1 = Some (True, c', lx')" "collects ?start (sign_bytes neg @ ds) lx3"
      "reads True lx3 c' lx'" "digit_bytes ds \<and> ds \<noteq> []"
    have "lex_scan_number uflow lx c =
        (if c' \<noteq> 0x2E \<and> c' \<noteq> 0x45 \<and> c' \<noteq> 0x65 then lex_integer lx' c' else lex_real uflow lx' c')"
      using s(1) i(1) by (simp add: lex_scan_number_def)
    then show ?thesis
      using lex_integer_ok [OF refl _ _ i(2,3) l] lex_real_ok [OF refl _ _ i(2,3) l, of uflow] i(4) sc by auto
  qed
qed

section \<open>The other tokens\<close>

lemma lex_identifier_ok:
  assumes ok: "lex_ok lx" "aligned lx" "saved lx = [b]" "l_isalpha (sint b)"
  shows "\<exists>lx'. lex_identifier lx = Some lx' \<and> scanned lx lx' \<and> token lx' \<noteq> TOKEN_STRING"
proof -
  obtain c lx1 where g: "lex_get_save lx = Some (c, lx1)" "reads True lx c lx1" using lex_get_save_reads [OF ok(1)] by blast
  have "\<exists>lx0' c' lx' bs. lex_letters c lx1 = Some (c', lx') \<and> reads True lx0' c' lx' \<and> \<not> l_isalpha c' \<and> lex_ok lx0' \<and>
    same_token lx lx0' \<and> saved lx0' = saved lx @ (if True then bs else []) \<and> (\<forall>b \<in> set bs. l_isalpha (sint b)) \<and>
    left lx = left lx0' + length bs \<and> (aligned lx \<longrightarrow> aligned lx0') \<and> lex_error lx0' = lex_error lx \<and>
    (st_state lx = STREAM_STATE_OK \<longrightarrow> st_state lx0' = STREAM_STATE_OK \<and> ahead lx = bs @ ahead lx0') \<and>
    (bs = [] \<longrightarrow> c' = c) \<and> (l_isalpha c \<longrightarrow> bs \<noteq> [])"
    by (rule letters_reads [OF _ _ ok(1) g(2)]) (auto simp: l_is_defs)
  then obtain lx2 c' lx3 bs where w: "lex_letters c lx1 = Some (c', lx3)" "reads True lx2 c' lx3" "lex_ok lx2"
    "same_token lx lx2" "saved lx2 = b # bs" "\<forall>b \<in> set bs. l_isalpha (sint b)" "left lx2 \<le> left lx" "aligned lx2"
    using ok(2,3) by auto
  obtain lx4 where u: "lex_unget_unsave lx3 c' = Some lx4" "moves lx2 lx4" "saved lx4 = b # bs" "aligned lx4"
    using unget_unsave_ok [OF w(3,2)] w(5,8) by auto
  have "0 \<notin> set (b # bs)" using w(6) ok(4) by (auto simp: l_is_defs)
  then have t: "saved_string lx4 = Some (map char_of_byte (b # bs))"
    using saved_string_ok [OF moves_ok [OF u(2)] u(3)] by simp
  have "moves lx lx2" using w(3,4,7) by (simp add: moves_def same_token_def)
  then have "moves lx lx4" using u(2) by (rule moves_trans)
  then show ?thesis using g(1) w(1) u(1,4) t
    by (simp add: lex_identifier_def scanned_def token_ok_def token_defs)
qed

lemma lex_save_cached_ok:
  assumes "lex_ok lx" "st_state lx = STREAM_STATE_OK"
  shows "\<exists>lx'. lex_save_cached lx = Some lx' \<and> moves lx lx'"
  using assms
proof (induction "length (pending lx)" arbitrary: lx rule: less_induct)
  case less
  have s: "length (st_buffer lx) = 5" "buffer_pos lx \<le> 4" "0 \<in> set (drop (buffer_pos lx) (st_buffer lx))" "stream_ok lx"
    using less.prems by (auto simp: lex_ok_def stream_ok_def)
  define b where "b = st_buffer lx ! buffer_pos lx"
  have b: "mem_get (st_buffer lx) (buffer_pos lx) = Some b" using s by (simp add: mem_get_def b_def)
  show ?case
  proof (cases "b = 0")
    case True
    then show ?thesis using b less.prems moves_refl by (subst lex_save_cached.simps) simp
  next
    case False
    let ?rest = "drop (Suc (buffer_pos lx)) (st_buffer lx)"
    have d: "drop (buffer_pos lx) (st_buffer lx) = b # ?rest" using s by (simp add: b_def Cons_nth_drop_Suc)
    then have z: "0 \<in> set ?rest" and p: "pending lx = b # takeWhile (\<lambda>b. b \<noteq> 0) ?rest"
      using s(3) False by (auto simp: pending_def)
    then have "buffer_pos lx < 4" using s(1,2) by (cases "buffer_pos lx = 4") auto
    have lim: "length (saved lx) + left lx < 2 ^ 63" using less.prems by (simp add: lex_ok_def)
    have lf: "left lx = Suc (length (takeWhile (\<lambda>b. b \<noteq> 0) ?rest @ view (st_data lx)))"
      using p less.prems(2) by (simp add: left_def ahead_def)
    obtain t where t: "lex_save lx (sint b) = Some (lx\<lparr>saved_text := t\<rparr>)" "strbuffer_ok t"
      "strbuffer_contents t = saved lx @ [b]"
      using lex_save_eq [of lx "sint b"] less.prems lim lf by (auto simp: lex_ok_def)
    let ?lx = "lx\<lparr>saved_text := t, buffer_pos := buffer_pos lx + 1, st_position := st_position lx + 1\<rparr>"
    have p': "pending ?lx = takeWhile (\<lambda>b. b \<noteq> 0) ?rest" by (simp add: pending_def)
    then have l': "Suc (left ?lx) = left lx" using lf less.prems(2) by (simp add: left_def ahead_def)
    have ok': "lex_ok ?lx"
      using less.prems s(1) z \<open>buffer_pos lx < 4\<close> t lim l' p p'
      by (auto simp: lex_ok_def stream_ok_def)
    obtain lx' where "lex_save_cached ?lx = Some lx'" "moves ?lx lx'"
      using less.hyps [of ?lx] ok' p p' less.prems(2) by auto
    moreover have "moves lx ?lx" using ok' l' by (simp add: moves_def)
    ultimately show ?thesis using b False t(1) moves_trans [of lx ?lx lx'] by (subst lex_save_cached.simps) simp
  qed
qed

text \<open>The beginning of \<open>lex_scan\<close>: the text is cleared, the white space is skipped.\<close>

definition lex_fresh :: "lex_t \<Rightarrow> lex_t \<Rightarrow> bool" where
  "lex_fresh lx lx' \<longleftrightarrow> moves lx lx' \<and> saved lx' = [] \<and> (aligned lx \<longrightarrow> aligned lx')"

lemma lex_clear_ok:
  assumes "lex_ok lx"
  obtains t where "strbuffer_clear (saved_text lx) = Some t"
    "lex_fresh lx (lex_free_value (lx\<lparr>saved_text := t\<rparr>))"
    "\<And>bs. faces lx bs \<Longrightarrow> faces (lex_free_value (lx\<lparr>saved_text := t\<rparr>)) bs"
proof -
  obtain t where t: "strbuffer_clear (saved_text lx) = Some t" "strbuffer_ok t" "strbuffer_contents t = []"
    using assms strbuffer.clear_ok by (auto simp: lex_ok_def)
  have "lex_fresh lx (lex_free_value (lx\<lparr>saved_text := t\<rparr>))" "\<And>bs. faces lx bs \<Longrightarrow> faces (lex_free_value (lx\<lparr>saved_text := t\<rparr>)) bs"
    using assms t(2,3) by (auto simp: lex_fresh_def moves_def lex_free_value_def lex_ok_def aligned_def faces_def fronts_def stream_ok_def)
  then show thesis using that t(1) by blast
qed

lemma lex_skip_ok:
  assumes ok: "lex_ok lx"
  shows "\<exists>lx0 c lx' ws. Option.bind (lex_get lx) (\<lambda>(c, lx). lex_spaces c lx) = Some (c, lx') \<and> reads False lx0 c lx' \<and> lex_ok lx0 \<and>
    same_token lx lx0 \<and> saved lx0 = saved lx \<and> left lx = left lx0 + length ws \<and> (aligned lx \<longrightarrow> aligned lx0) \<and>
    \<not> (c = 0x20 \<or> c = 0x09 \<or> c = 0x0A \<or> c = 0x0D) \<and>
    (st_state lx = STREAM_STATE_OK \<longrightarrow> st_state lx0 = STREAM_STATE_OK \<and> ahead lx = ws @ ahead lx0) \<and>
    (\<forall>b \<in> set ws. sint b = 0x20 \<or> sint b = 0x09 \<or> sint b = 0x0A \<or> sint b = 0x0D)"
proof -
  obtain c lx1 where g: "lex_get lx = Some (c, lx1)" "reads False lx c lx1"
    using stream_get_reads [OF ok] by (auto simp: lex_get_def)
  let ?P = "\<lambda>c. c = 0x20 \<or> c = 0x09 \<or> c = 0x0A \<or> c = 0x0D"
  have "\<exists>lx0' c' lx' bs. lex_spaces c lx1 = Some (c', lx') \<and> reads False lx0' c' lx' \<and> \<not> ?P c' \<and> lex_ok lx0' \<and>
    same_token lx lx0' \<and> saved lx0' = saved lx @ (if False then bs else []) \<and> (\<forall>b \<in> set bs. ?P (sint b)) \<and>
    left lx = left lx0' + length bs \<and> (aligned lx \<longrightarrow> aligned lx0') \<and> lex_error lx0' = lex_error lx \<and>
    (st_state lx = STREAM_STATE_OK \<longrightarrow> st_state lx0' = STREAM_STATE_OK \<and> ahead lx = bs @ ahead lx0') \<and>
    (bs = [] \<longrightarrow> c' = c) \<and> (?P c \<longrightarrow> bs \<noteq> [])"
    by (rule spaces_reads [OF _ _ ok g(2)]) (use stream_get_reads in \<open>auto simp: lex_get_def\<close>)
  then obtain lx0 c' lx' ws where "lex_spaces c lx1 = Some (c', lx')" "reads False lx0 c' lx'" "\<not> ?P c'" "lex_ok lx0"
    "same_token lx lx0" "saved lx0 = saved lx" "\<forall>b \<in> set ws. ?P (sint b)" "left lx = left lx0 + length ws"
    "aligned lx \<longrightarrow> aligned lx0" "st_state lx = STREAM_STATE_OK \<longrightarrow> st_state lx0 = STREAM_STATE_OK \<and> ahead lx = ws @ ahead lx0"
    by auto
  then show ?thesis using g(1) by (intro exI [of _ lx0] exI [of _ c'] exI [of _ lx'] exI [of _ ws]) simp
qed

lemma scans_after:
  assumes "reads_byte keep lx0 b lx" "scanned lx lx'"
  shows "scans lx0 lx'"
proof -
  have "left lx0 = Suc (left lx)" "st_get lx = st_get lx0" using reads_byteE(2,4) [OF assms(1)] by (simp_all add: same_token_def)
  then show ?thesis using assms(2) by (auto simp: scans_def scanned_def moves_def)
qed

lemma lex_token_ok:
  assumes ok: "lex_ok lx0" "saved lx0 = []" "aligned lx0" and r: "reads_byte True lx0 b lx"
  shows "\<exists>lx'. lex_token uflow lx (sint b) = Some lx' \<and> scans lx0 lx'"
proof -
  note b = reads_byteE [OF r]
  have al: "unat b < 128 \<Longrightarrow> aligned lx" by (rule aligned_reads [OF ok(3) r])
  have sv: "saved lx = [b]" using b(5) ok(2) by simp
  have rd: "reads True lx0 (sint b) lx" using r by (auto simp: reads_def)
  consider (punct) "sint b = 0x7B \<or> sint b = 0x7D \<or> sint b = 0x5B \<or> sint b = 0x5D \<or> sint b = 0x3A \<or> sint b = 0x2C"
    | (quote) "sint b = 0x22" | (number) "l_isdigit (sint b) \<or> sint b = 0x2D" | (ident) "l_isalpha (sint b)"
    | (other) "lex_token uflow lx (sint b) = do { lx \<leftarrow> lex_save_cached lx; Some (lx\<lparr>token := TOKEN_INVALID\<rparr>) }"
    unfolding lex_token_def by argo
  then show ?thesis
  proof cases
    case punct
    then have "unat b < 128" using sint_ascii [of b] by auto
    then have "scanned lx (lx\<lparr>token := sint b\<rparr>)"
      using punct b(1) al moves_refl [of lx] by (auto simp: scanned_def token_ok_def token_defs)
    then show ?thesis using punct scans_after [OF r] by (auto simp: lex_token_def)
  next
    case quote
    then have "b = 0x22" by (simp add: sint_lit)
    then have "aligned lx" using al by simp
    then have "whole lx" using sv \<open>b = 0x22\<close> b(8) utf8_check_bytes_append [of "[0x22]" "pending lx"] utf8_ascii_bytes [of "[0x22]"]
      by (simp add: whole_def aligned_def)
    then show ?thesis
      using lex_scan_string_ok [OF b(1)] sv \<open>b = 0x22\<close> scans_after [OF r] by (auto simp: lex_token_def)
  next
    case number
    then show ?thesis using lex_scan_number_ok [OF ok rd, of uflow] by (auto simp: lex_token_def l_is_defs)
  next
    case ident
    then have "unat b < 128" using sint_ascii [of b] by (auto simp: l_is_defs)
    then show ?thesis
      using lex_identifier_ok [OF b(1) al sv ident] ident scans_after [OF r] by (auto simp: lex_token_def l_is_defs)
  next
    case other
    obtain lx' where "lex_save_cached lx = Some lx'" "moves lx lx'" using lex_save_cached_ok [OF b(1,8)] by blast
    then show ?thesis using other scans_after [OF r] by (auto simp: scanned_invalid)
  qed
qed

lemma lex_scan_ok:
  assumes ok: "lex_ok lx" "aligned lx"
  shows "\<exists>lx'. lex_scan uflow lx = Some lx' \<and> scanned lx lx' \<and>
    (token lx' \<noteq> TOKEN_INVALID \<and> token lx' \<noteq> TOKEN_EOF \<longrightarrow> left lx' < left lx)"
proof -
  obtain t where t: "strbuffer_clear (saved_text lx) = Some t" "lex_fresh lx (lex_free_value (lx\<lparr>saved_text := t\<rparr>))"
    using lex_clear_ok [OF ok(1)] by blast
  define lx1 where "lx1 = lex_free_value (lx\<lparr>saved_text := t\<rparr>)"
  have f: "lex_ok lx1" "moves lx lx1" "saved lx1 = []" "aligned lx1"
    using t(2) ok(2) moves_ok by (auto simp: lx1_def lex_fresh_def)
  obtain c lx2 lx0 where s: "Option.bind (lex_get lx1) (\<lambda>(c, lx). lex_spaces c lx) = Some (c, lx2)" "reads False lx0 c lx2" "lex_ok lx0"
    "same_token lx1 lx0" "saved lx0 = []" "left lx0 \<le> left lx1" "aligned lx0"
    using lex_skip_ok [OF f(1)] f(4) unfolding f(3) by auto
  have m0: "moves lx lx0" using f(2) s(3,4,6) by (simp add: moves_def same_token_def)
  have eq: "lex_scan uflow lx =
      (if c = STREAM_STATE_EOF then Some (lx2\<lparr>token := TOKEN_EOF\<rparr>)
       else if c = STREAM_STATE_ERROR then Some (lx2\<lparr>token := TOKEN_INVALID\<rparr>)
       else Option.bind (lex_save lx2 c) (\<lambda>lx. lex_token uflow lx c))"
    using t(1) s(1) unfolding lex_scan_def lx1_def
    by (cases "lex_get (lex_free_value (lx\<lparr>saved_text := t\<rparr>))") auto
  from s(2) consider (eof) "reads_end lx0 c lx2" | (byte) b where "c = sint b" "reads_byte False lx0 b lx2"
    by (auto simp: reads_def)
  then show ?thesis
  proof cases
    case eof
    have "moves lx lx2" using moves_trans [OF m0 reads_moves(1) [OF s(2)]] .
    moreover have "aligned lx2" using reads_endE(4,6) [OF eof] by (auto simp: aligned_def stream_state_defs)
    ultimately show ?thesis
      using eq reads_endE(4) [OF eof] by (auto simp: scanned_def token_ok_def token_defs stream_state_defs)
  next
    case byte
    obtain lx3 where r: "lex_save lx2 c = Some lx3" "reads_byte True lx0 b lx3" using lex_save_reads [OF s(3) byte(2)] byte(1) by blast
    obtain lx' where "lex_token uflow lx3 c = Some lx'" "scans lx0 lx'"
      using lex_token_ok [OF s(3,5,7) r(2)] byte(1) by blast
    moreover from this have "scanned lx lx'" "token lx' \<noteq> TOKEN_INVALID \<longrightarrow> left lx' < left lx"
      using m0 moves_trans [OF m0] by (auto simp: scans_def scanned_def moves_def)
    ultimately show ?thesis using eq r(1) byte(1) reads_byteE(11,12) [OF r(2)] by simp
  qed
qed

end

end
