(* ===== verification/Json_Safe.thy ===== *)
theory Json_Safe
  imports Json_Scan
begin

text \<open>
  The loader of \<open>load.c\<close> on arbitrary input. No function of the lexer or the parser has undefined
  behaviour: no access outside a buffer, no failed assertion; the loops end, the fuel of the parser is
  enough, and what is loaded is a well-formed value: its strings are UTF-8 without zero bytes, its
  integers have 64 bits, its reals are finite, and no object has a key twice.
\<close>

section \<open>Well-formed values\<close>

definition text_ok :: "string \<Rightarrow> bool" where
  "text_ok s \<longleftrightarrow> c_string s \<and> utf8_check_string s"

fun json_wf :: "json \<Rightarrow> bool" where
  "json_wf (JInteger i) \<longleftrightarrow> - (2 ^ 63) \<le> i \<and> i < 2 ^ 63"
| "json_wf (JReal d) \<longleftrightarrow> dbl_finite d"
| "json_wf (JString s) \<longleftrightarrow> text_ok s"
| "json_wf (JArray xs) \<longleftrightarrow> (\<forall>x \<in> set xs. json_wf x)"
| "json_wf (JObject kvs) \<longleftrightarrow> distinct (map fst kvs) \<and> (\<forall>kv \<in> set kvs. text_ok (fst kv) \<and> json_wf (snd kv))"
| "json_wf _ \<longleftrightarrow> True"

lemma text_ok_bytes: "utf8_check_bytes bs \<Longrightarrow> 0 \<notin> set bs \<Longrightarrow> text_ok (map char_of_byte bs)"
proof -
  assume bs: "utf8_check_bytes bs" "0 \<notin> set bs"
  have "c \<noteq> CHR 0x00" if "c \<in> set (map char_of_byte bs)" for c
    using that bs(2) by (auto simp flip: byte_of_char_eq_0)
  then show ?thesis
    using bs(1) by (auto simp: text_ok_def c_string_def utf8_check_string_def str_bytes_def comp_def)
qed

lemma json_wf_update:
  assumes "json_wf (JObject kvs)" "text_ok k" "json_wf v"
  shows "json_wf (JObject (AList.update k v kvs))"
proof -
  have "set (AList.update k v kvs) \<subseteq> insert (k, v) (set kvs)"
    by (induction kvs) auto
  then show ?thesis using assms distinct_update [of kvs k v] by fastforce
qed

section \<open>The parser\<close>

context byte_source
begin

definition ready :: "lex_t \<Rightarrow> bool" where
  "ready lx \<longleftrightarrow> lex_ok lx \<and> token_ok lx \<and> (token lx \<noteq> TOKEN_INVALID \<longrightarrow> aligned lx)"

lemma lex_scan_ready:
  assumes "ready lx" "token lx \<noteq> TOKEN_INVALID"
  obtains lx' where "lex_scan uflow lx = Some lx'" "moves lx lx'" "ready lx'"
    "token lx' \<noteq> TOKEN_INVALID \<Longrightarrow> token lx' \<noteq> TOKEN_EOF \<Longrightarrow> left lx' < left lx"
  using lex_scan_ok [of lx uflow] assms by (auto simp: ready_def scanned_def moves_def)

definition parsed :: "lex_t \<Rightarrow> (json option \<times> lex_t) option \<Rightarrow> bool" where
  "parsed lx res \<longleftrightarrow> (\<exists>r lx'. res = Some (r, lx') \<and> moves lx lx' \<and>
     (\<forall>v. r = Some v \<longrightarrow> json_wf v \<and> ready lx' \<and> token lx' \<noteq> TOKEN_INVALID))"

lemma parsed_mono: "moves lx lx1 \<Longrightarrow> parsed lx1 res \<Longrightarrow> parsed lx res"
  using moves_trans by (auto simp: parsed_def)

lemma parsed_none: "moves lx lx' \<Longrightarrow> parsed lx (Some (None, lx'))"
  by (simp add: parsed_def)

lemma parsed_some:
  "moves lx lx' \<Longrightarrow> ready lx' \<Longrightarrow> token lx' \<noteq> TOKEN_INVALID \<Longrightarrow> json_wf v \<Longrightarrow> parsed lx (Some (Some v, lx'))"
  by (simp add: parsed_def)

lemma parse_fail_parsed:
  assumes "moves lx lx1"
  shows "parsed lx (parse_fail lx1 msg)"
proof -
  obtain lx' where "error_set lx1 msg = Some lx'" "moves lx1 lx'" using error_set_moves [OF moves_ok [OF assms]] by blast
  then show ?thesis using moves_trans [OF assms] by (simp add: parse_fail_def parsed_none)
qed

definition key_parsed :: "lex_t \<Rightarrow> (string option \<times> lex_t) option \<Rightarrow> bool" where
  "key_parsed lx res \<longleftrightarrow> (\<exists>r lx'. res = Some (r, lx') \<and> moves lx lx' \<and>
     (\<forall>k. r = Some k \<longrightarrow> text_ok k \<and> ready lx' \<and> left lx' < left lx))"

lemma key_fail_parsed:
  assumes "moves lx lx1"
  shows "key_parsed lx (do { lx \<leftarrow> error_set lx1 msg; Some (None, lx) })"
proof -
  obtain lx' where "error_set lx1 msg = Some lx'" "moves lx1 lx'" using error_set_moves [OF moves_ok [OF assms]] by blast
  then show ?thesis using moves_trans [OF assms] by (simp add: key_parsed_def)
qed

lemma parse_key_parsed:
  assumes r: "ready lx"
  shows "key_parsed lx (parse_key uflow flags obj lx)"
proof (cases "token lx = TOKEN_STRING")
  case False
  then show ?thesis using key_fail_parsed [OF moves_refl] r by (simp add: parse_key_def ready_def)
next
  case True
  then obtain s where s: "lex_val lx = Value_string (Some s)" "utf8_check_bytes s" "0 \<notin> set s"
    using r by (auto simp: ready_def token_ok_def)
  let ?k = "map char_of_byte s" and ?lx = "lx\<lparr>lex_val := Value_string None\<rparr>"
  have ok: "lex_ok ?lx" "aligned ?lx" "moves lx ?lx" using r True moves_refl by (simp_all add: ready_def token_defs)
  have eq: "parse_key uflow flags obj lx =
      (if flags AND JSON_REJECT_DUPLICATES \<noteq> 0 \<and> json_object_get (Some obj) ?k \<noteq> None
       then do { lx \<leftarrow> error_set ?lx ''duplicate object key''; Some (None, lx) }
       else do {
         lx \<leftarrow> lex_scan uflow ?lx;
         if token lx \<noteq> 0x3A
         then do { lx \<leftarrow> error_set lx ([CHR 0x27] @ '':'' @ [CHR 0x27] @ '' expected''); Some (None, lx) }
         else do { lx \<leftarrow> lex_scan uflow lx; Some (Some ?k, lx) } })"
    using True s(1) by (simp add: parse_key_def lex_steal_string_def Let_def)
  obtain lx1 where 1: "lex_scan uflow ?lx = Some lx1" "scanned ?lx lx1"
    "token lx1 \<noteq> TOKEN_INVALID \<and> token lx1 \<noteq> TOKEN_EOF \<longrightarrow> left lx1 < left ?lx"
    using lex_scan_ok [OF ok(1,2)] by blast
  then have m1: "moves lx lx1" "ready lx1" using moves_ok by (auto simp: scanned_def ready_def)
  show ?thesis
  proof (cases "token lx1 = 0x3A")
    case False
    then show ?thesis using eq 1(1) key_fail_parsed [OF ok(3)] key_fail_parsed [OF m1(1)] by simp
  next
    case True
    then have "token lx1 \<noteq> TOKEN_INVALID" "left lx1 < left lx" using 1(3) by (simp_all add: token_defs)
    obtain lx2 where 2: "lex_scan uflow lx1 = Some lx2" "moves lx1 lx2" "ready lx2"
      using lex_scan_ready [OF m1(2) \<open>token lx1 \<noteq> TOKEN_INVALID\<close>] by blast
    have "left lx2 < left lx" using 2(2) \<open>left lx1 < left lx\<close> by (simp add: moves_def)
    then have "key_parsed lx (Some (Some ?k, lx2))"
      using moves_trans [OF m1(1) 2(2)] 2(3) text_ok_bytes [OF s(2,3)] by (simp add: key_parsed_def)
    then show ?thesis using eq 1(1) True 2(1) key_fail_parsed [OF ok(3)] by simp
  qed
qed

text \<open>How much fuel each function needs for the input that is left.\<close>

definition value_ok :: "uflow \<Rightarrow> nat \<Rightarrow> nat \<Rightarrow> bool" where
  "value_ok uflow flags n \<longleftrightarrow> (\<forall>lx. ready lx \<and> 1 \<le> n \<and> (token lx \<noteq> TOKEN_INVALID \<longrightarrow> 3 * left lx + 5 \<le> n) \<longrightarrow>
     parsed lx (parse_value n uflow flags lx))"

definition object_ok :: "uflow \<Rightarrow> nat \<Rightarrow> nat \<Rightarrow> bool" where
  "object_ok uflow flags n \<longleftrightarrow> (\<forall>lx. ready lx \<and> token lx \<noteq> TOKEN_INVALID \<and> 3 * left lx + 4 \<le> n \<longrightarrow>
     parsed lx (parse_object n uflow flags lx))"

definition members_ok :: "uflow \<Rightarrow> nat \<Rightarrow> nat \<Rightarrow> bool" where
  "members_ok uflow flags n \<longleftrightarrow> (\<forall>lx kvs. ready lx \<and> json_wf (JObject kvs) \<and> 3 * left lx + 3 \<le> n \<longrightarrow>
     parsed lx (parse_members n uflow flags (JObject kvs) lx))"

definition array_ok :: "uflow \<Rightarrow> nat \<Rightarrow> nat \<Rightarrow> bool" where
  "array_ok uflow flags n \<longleftrightarrow> (\<forall>lx. ready lx \<and> token lx \<noteq> TOKEN_INVALID \<and> 3 * left lx + 4 \<le> n \<longrightarrow>
     parsed lx (parse_array n uflow flags lx))"

definition elements_ok :: "uflow \<Rightarrow> nat \<Rightarrow> nat \<Rightarrow> bool" where
  "elements_ok uflow flags n \<longleftrightarrow> (\<forall>lx xs. ready lx \<and> json_wf (JArray xs) \<and> 2 \<le> n \<and>
     (token lx \<noteq> TOKEN_INVALID \<and> token lx \<noteq> TOKEN_EOF \<longrightarrow> 3 * left lx + 6 \<le> n) \<longrightarrow>
     parsed lx (parse_elements n uflow flags (JArray xs) lx))"

lemmas parser_ok_defs = value_ok_def object_ok_def members_ok_def array_ok_def elements_ok_def

lemma value_step:
  assumes "object_ok uflow flags n" "array_ok uflow flags n"
  shows "value_ok uflow flags (Suc n)"
  unfolding value_ok_def
proof (intro allI impI, elim conjE)
  fix lx assume r: "ready lx" and f: "token lx \<noteq> TOKEN_INVALID \<longrightarrow> 3 * left lx + 5 \<le> Suc n"
  have m: "moves lx lx" and t: "token_ok lx" using r moves_refl by (simp_all add: ready_def)
  show "parsed lx (parse_value (Suc n) uflow flags lx)"
  proof (cases "token lx = 0x7B \<or> token lx = 0x5B")
    case True
    then show ?thesis using assms r f by (auto simp: object_ok_def array_ok_def token_defs)
  next
    case False
    consider "token lx = TOKEN_INVALID" | "token lx = TOKEN_STRING" | "token lx = TOKEN_INTEGER" | "token lx = TOKEN_REAL"
      | "token lx = TOKEN_TRUE \<or> token lx = TOKEN_FALSE \<or> token lx = TOKEN_NULL"
      | "token lx \<notin> {TOKEN_INVALID, TOKEN_STRING, TOKEN_INTEGER, TOKEN_REAL, TOKEN_TRUE, TOKEN_FALSE, TOKEN_NULL}"
      by blast
    then show ?thesis
    proof cases
      case 1
      then show ?thesis using parse_fail_parsed [OF m] by (simp add: token_defs)
    next
      case 2
      then obtain s where "lex_val lx = Value_string (Some s)" "utf8_check_bytes s" "0 \<notin> set s"
        using t by (auto simp: token_ok_def)
      then show ?thesis
        using 2 parsed_some [OF m r] text_ok_bytes [of s] by (simp add: token_defs json_string_nocheck_def)
    next
      case 3
      then obtain i where "lex_val lx = Value_integer i" "- (2 ^ 63) \<le> i" "i < 2 ^ 63"
        using t by (auto simp: token_ok_def)
      moreover from this have "sint (word_of_int i :: 64 word) = i"
        by (simp add: sint_sbintrunc' signed_take_bit_int_eq_self)
      ultimately show ?thesis using 3 parsed_some [OF m r] by (simp add: token_defs json_integer_def)
    next
      case 4
      then obtain d where "lex_val lx = Value_real d" "dbl_finite d" using t by (auto simp: token_ok_def)
      then show ?thesis using 4 parsed_some [OF m r] by (simp add: token_defs json_real_def)
    next
      case 5
      then show ?thesis using parsed_some [OF m r] by (auto simp: token_defs)
    next
      case 6
      then show ?thesis using False parse_fail_parsed [OF m] by simp
    qed
  qed
qed

lemma object_step:
  assumes "members_ok uflow flags n"
  shows "object_ok uflow flags (Suc n)"
  unfolding object_ok_def
proof (intro allI impI, elim conjE)
  fix lx assume r: "ready lx" "token lx \<noteq> TOKEN_INVALID" and f: "3 * left lx + 4 \<le> Suc n"
  obtain lx' where s: "lex_scan uflow lx = Some lx'" "moves lx lx'" "ready lx'" using lex_scan_ready [OF r] by blast
  have "3 * left lx' + 3 \<le> n" using s(2) f by (simp add: moves_def)
  then have "parsed lx (parse_members n uflow flags json_object lx')"
    using assms s(3) parsed_mono [OF s(2)] by (simp add: members_ok_def json_object_def)
  then show "parsed lx (parse_object (Suc n) uflow flags lx)"
    using s parsed_some [OF s(2,3)] by (auto simp: json_object_def token_defs)
qed

lemma array_step:
  assumes "elements_ok uflow flags n"
  shows "array_ok uflow flags (Suc n)"
  unfolding array_ok_def
proof (intro allI impI, elim conjE)
  fix lx assume r: "ready lx" "token lx \<noteq> TOKEN_INVALID" and f: "3 * left lx + 4 \<le> Suc n"
  obtain lx' where s: "lex_scan uflow lx = Some lx'" "moves lx lx'" "ready lx'"
    "token lx' \<noteq> TOKEN_INVALID \<Longrightarrow> token lx' \<noteq> TOKEN_EOF \<Longrightarrow> left lx' < left lx"
    using lex_scan_ready [OF r] by blast
  have "token lx' \<noteq> TOKEN_INVALID \<and> token lx' \<noteq> TOKEN_EOF \<longrightarrow> 3 * left lx' + 6 \<le> n" using s(4) f by auto
  then have "parsed lx (parse_elements n uflow flags json_array lx')"
    using assms s(3) f parsed_mono [OF s(2)] by (simp add: elements_ok_def json_array_def)
  then show "parsed lx (parse_array (Suc n) uflow flags lx)"
    using s parsed_some [OF s(2,3)] by (auto simp: json_array_def token_defs)
qed

text \<open>After a value: a comma and the next token, the closing bracket \<open>close\<close>, or an error.\<close>

lemma parsed_next:
  assumes v: "ready lx" "token lx \<noteq> TOKEN_INVALID" and e: "close \<noteq> TOKEN_INVALID" "json_wf w"
    and loop: "\<And>lx'. moves lx lx' \<Longrightarrow> ready lx' \<Longrightarrow> left lx' < left lx \<Longrightarrow> parsed lx' (loop lx')"
  shows "parsed lx (Option.bind (lex_scan uflow lx) (\<lambda>lx.
      if token lx = 0x2C then Option.bind (lex_scan uflow lx) loop
      else if token lx \<noteq> close then parse_fail lx msg else Some (Some w, lx)))"
proof -
  obtain lx1 where s: "lex_scan uflow lx = Some lx1" "moves lx lx1" "ready lx1"
    "token lx1 \<noteq> TOKEN_INVALID \<Longrightarrow> token lx1 \<noteq> TOKEN_EOF \<Longrightarrow> left lx1 < left lx"
    using lex_scan_ready [OF v] by blast
  show ?thesis
  proof (cases "token lx1 = 0x2C")
    case True
    then have 1: "token lx1 \<noteq> TOKEN_INVALID" "left lx1 < left lx" using s(4) by (simp_all add: token_defs)
    obtain lx2 where t: "lex_scan uflow lx1 = Some lx2" "moves lx1 lx2" "ready lx2" using lex_scan_ready [OF s(3) 1(1)] by blast
    have m: "moves lx lx2" by (rule moves_trans [OF s(2) t(2)])
    have "left lx2 < left lx" using 1(2) t(2) by (simp add: moves_def)
    then have "parsed lx (loop lx2)" using parsed_mono [OF m] loop [OF m t(3)] by blast
    then show ?thesis using s(1) True t(1) by simp
  next
    case False
    then show ?thesis using s(1) parse_fail_parsed [OF s(2)] parsed_some [OF s(2,3)] e by auto
  qed
qed

lemma members_step:
  assumes val: "value_ok uflow flags n" and members: "members_ok uflow flags n"
  shows "members_ok uflow flags (Suc n)"
  unfolding members_ok_def
proof (intro allI impI, elim conjE)
  fix lx kvs assume r: "ready lx" and wf: "json_wf (JObject kvs)" and f: "3 * left lx + 3 \<le> Suc n"
  obtain key lx1 where k: "parse_key uflow flags (JObject kvs) lx = Some (key, lx1)" "moves lx lx1"
    "\<forall>k. key = Some k \<longrightarrow> text_ok k \<and> ready lx1 \<and> left lx1 < left lx"
    using parse_key_parsed [OF r] unfolding key_parsed_def by blast
  show "parsed lx (parse_members (Suc n) uflow flags (JObject kvs) lx)"
  proof (cases key)
    case None
    then show ?thesis using k parsed_none by simp
  next
    case (Some k')
    then have k': "text_ok k'" "ready lx1" "left lx1 < left lx" using k(3) by auto
    then have "parsed lx1 (parse_value n uflow flags lx1)" using val f by (simp add: value_ok_def)
    then obtain v lx2 where v: "parse_value n uflow flags lx1 = Some (v, lx2)" "moves lx1 lx2"
      "\<forall>w. v = Some w \<longrightarrow> json_wf w \<and> ready lx2 \<and> token lx2 \<noteq> TOKEN_INVALID" by (auto simp: parsed_def)
    have m2: "moves lx lx2" by (rule moves_trans [OF k(2) v(2)])
    show ?thesis
    proof (cases v)
      case None
      then show ?thesis using k(1) Some v(1) parsed_none [OF m2] by simp
    next
      case (Some w)
      then have w: "json_wf w" "ready lx2" "token lx2 \<noteq> TOKEN_INVALID" using v(3) by auto
      let ?obj = "JObject (AList.update k' w kvs)"
      have wf': "json_wf ?obj" by (rule json_wf_update [OF wf k'(1) w(1)])
      have "parsed lx' (parse_members n uflow flags ?obj lx')" if "ready lx'" "left lx' < left lx2" for lx'
        using that members wf' f m2 by (simp add: members_ok_def moves_def del: json_wf.simps)
      then show ?thesis
        using k(1) \<open>key = Some k'\<close> v(1) Some
          parsed_mono [OF m2 parsed_next [OF w(2,3) _ wf', where close = "0x7D" and
            loop = "\<lambda>lx. parse_members n uflow flags ?obj lx"]]
        by (simp add: json_object_set_nocheck_def json_object_set_new_nocheck_def token_defs)
    qed
  qed
qed

lemma elements_step:
  assumes val: "value_ok uflow flags n" and elements: "elements_ok uflow flags n"
  shows "elements_ok uflow flags (Suc n)"
  unfolding elements_ok_def
proof (intro allI impI, elim conjE)
  fix lx xs assume r: "ready lx" and wf: "json_wf (JArray xs)" and n: "2 \<le> Suc n"
    and f: "token lx \<noteq> TOKEN_INVALID \<and> token lx \<noteq> TOKEN_EOF \<longrightarrow> 3 * left lx + 6 \<le> Suc n"
  have m: "moves lx lx" using r moves_refl by (simp add: ready_def)
  show "parsed lx (parse_elements (Suc n) uflow flags (JArray xs) lx)"
  proof (cases "token lx = TOKEN_EOF")
    case True
    then show ?thesis using parse_fail_parsed [OF m] by simp
  next
    case False
    then have "token lx \<noteq> TOKEN_INVALID \<longrightarrow> 3 * left lx + 5 \<le> n" using f by auto
    then have "parsed lx (parse_value n uflow flags lx)" using val r n by (simp add: value_ok_def)
    then obtain v lx2 where v: "parse_value n uflow flags lx = Some (v, lx2)" "moves lx lx2"
      "\<forall>w. v = Some w \<longrightarrow> json_wf w \<and> ready lx2 \<and> token lx2 \<noteq> TOKEN_INVALID" by (auto simp: parsed_def)
    show ?thesis
    proof (cases v)
      case None
      then show ?thesis using False v(1) parsed_none [OF v(2)] by simp
    next
      case (Some w)
      then have w: "json_wf w" "ready lx2" "token lx2 \<noteq> TOKEN_INVALID" using v(3) by auto
      have wf': "json_wf (JArray (xs @ [w]))" using wf w(1) by auto
      show ?thesis
      proof (cases "token lx = TOKEN_INVALID")
        case True
        then obtain n' where "n = Suc n'" using n by (cases n) auto
        then show ?thesis using True v(1) Some by (auto simp: token_defs parse_fail_def bind_eq_Some_conv)
      next
        case valid: False
        have "parsed lx' (parse_elements n uflow flags (JArray (xs @ [w])) lx')" if "ready lx'" "left lx' < left lx2" for lx'
          using that elements wf' f valid False v(2) by (simp add: elements_ok_def moves_def del: json_wf.simps)
        then show ?thesis
          using v(1) Some False
            parsed_mono [OF v(2) parsed_next [OF w(2,3) _ wf', where close = "0x5D" and
              loop = "\<lambda>lx. parse_elements n uflow flags (JArray (xs @ [w])) lx"]]
          by (simp add: json_array_append_def token_defs cong: if_cong)
      qed
    qed
  qed
qed

lemma parser_ok:
  "value_ok uflow flags n \<and> object_ok uflow flags n \<and> members_ok uflow flags n \<and> array_ok uflow flags n \<and>
   elements_ok uflow flags n"
proof (induction n)
  case 0
  show ?case by (simp add: parser_ok_defs)
next
  case (Suc n)
  then show ?case using value_step object_step members_step array_step elements_step by blast
qed

section \<open>The entry points\<close>

lemma lex_init_ready:
  assumes "length (st_buffer junk) = 5" "length (view data) < 2 ^ 63"
  obtains lx where "lex_init junk get data = Some lx" "lex_ok lx" "aligned lx" "utf8_check_bytes (view data) \<Longrightarrow> faces lx (view data)"
    "left lx = length (view data)"
proof -
  obtain a bs where a: "st_buffer junk = a # bs" "length bs = 4" using assms(1) by (cases "st_buffer junk") auto
  define lx where "lx = junk\<lparr>st_get := get, st_data := data, st_buffer := 0 # bs, buffer_pos := 0, st_state := STREAM_STATE_OK,
    st_line := 1, st_column := 0, st_position := 0, saved_text := strbuffer_init, token := TOKEN_INVALID\<rparr>"
  have i: "lex_init junk get data = Some lx"
    using a by (simp add: lex_init_def stream_init_def mem_write_def lx_def)
  have p: "pending lx = []" "stream_ok lx" "st_state lx = STREAM_STATE_OK"
    using a by (simp_all add: lx_def pending_def stream_ok_def)
  then have l: "ahead lx = view data" "left lx = length (view data)" by (simp_all add: ahead_def left_def lx_def)
  have "strbuffer_ok (saved_text lx)" "saved lx = []" "st_get lx = get" using strbuffer.init_ok by (simp_all add: lx_def)
  then have ok: "lex_ok lx" using p l assms(2) by (simp add: lex_ok_def)
  moreover have "aligned lx" using p utf8_ascii_bytes [of "[]"] by (simp add: aligned_def)
  moreover have "st_data lx = data" by (simp add: lx_def)
  ultimately show thesis using that i l p by (simp add: faces_def fronts_def)
qed

lemma parse_json_parsed:
  assumes ok: "lex_ok lx" "aligned lx" and fuel: "3 * left lx + 5 \<le> fuel"
  shows "\<exists>r lx'. parse_json fuel uflow flags lx = Some (r, lx') \<and> (\<forall>v. r = Some v \<longrightarrow> json_wf v)"
proof -
  obtain lx1 where s: "lex_scan uflow lx = Some lx1" "scanned lx lx1" using lex_scan_ok [OF ok] by blast
  then have m: "moves lx lx1" "ready lx1" using moves_ok by (auto simp: scanned_def ready_def)
  then have "3 * left lx1 + 5 \<le> fuel" using fuel by (simp add: moves_def)
  then have "parsed lx1 (parse_value fuel uflow flags lx1)" using parser_ok m(2) by (simp add: value_ok_def)
  then obtain r lx2 where v: "parse_value fuel uflow flags lx1 = Some (r, lx2)"
    "\<forall>v. r = Some v \<longrightarrow> json_wf v \<and> ready lx2 \<and> token lx2 \<noteq> TOKEN_INVALID" by (auto simp: parsed_def)
  have fail: "\<exists>lx'. error_set lx msg = Some lx'" if "lex_ok lx" for lx msg using error_set_moves [OF that] by blast
  show ?thesis
  proof (cases "flags AND JSON_DECODE_ANY = 0 \<and> token lx1 \<noteq> 0x5B \<and> token lx1 \<noteq> 0x7B")
    case True
    let ?msg = "[CHR 0x27] @ ''['' @ [CHR 0x27] @ '' or '' @ [CHR 0x27] @ ''{'' @ [CHR 0x27] @ '' expected''"
    obtain lx' where "error_set lx1 ?msg = Some lx'" using fail [OF moves_ok [OF m(1)]] by blast
    then show ?thesis using s(1) True by (simp add: parse_json_def parse_fail_def)
  next
    case False
    then have eq: "parse_json fuel uflow flags lx =
        (case r of None \<Rightarrow> Some (None, lx2)
         | Some v \<Rightarrow> do {
            (ok, lx) \<leftarrow> (if flags AND JSON_DISABLE_EOF_CHECK = 0 then do {
                lx \<leftarrow> lex_scan uflow lx2;
                if token lx \<noteq> TOKEN_EOF
                then do { lx \<leftarrow> error_set lx ''end of file expected''; Some (False, lx) }
                else Some (True, lx) }
              else Some (True, lx2));
            if \<not> ok then Some (None, lx)
            else Some (Some v, lx\<lparr>lex_error := map_option (\<lambda>e. e\<lparr>err_position := int32_of_size (st_position lx)\<rparr>) (lex_error lx)\<rparr>) })"
      using s(1) v(1) by (auto simp: parse_json_def)
    show ?thesis
    proof (cases r)
      case None
      then show ?thesis using eq by simp
    next
      case (Some w)
      then have w: "json_wf w" "ready lx2" "token lx2 \<noteq> TOKEN_INVALID" using v(2) by auto
      obtain lx3 where "lex_scan uflow lx2 = Some lx3" "lex_ok lx3" using lex_scan_ready [OF w(2,3)] moves_ok by blast
      moreover obtain lx4 where "error_set lx3 ''end of file expected'' = Some lx4" using fail [OF \<open>lex_ok lx3\<close>] by blast
      ultimately show ?thesis using eq Some w(1) by simp
    qed
  qed
qed

lemma json_load_with_ok:
  assumes "length (st_buffer junk) = 5" "\<And>data. length (view data) \<le> length data" "\<And>d. data = Some d \<Longrightarrow> length d < 2 ^ 63"
  shows "\<exists>r error'. json_load_with get source junk uflow data flags error = Some (r, error') \<and> (\<forall>v. r = Some v \<longrightarrow> json_wf v)"
proof (cases data)
  case None
  then show ?thesis by (simp add: json_load_with_def)
next
  case (Some d)
  let ?junk = "junk\<lparr>lex_error := jsonp_error_init error source\<rparr>"
  have l: "length (view d) \<le> length d" "length (view d) < 2 ^ 63" using assms(2) [of d] assms(3) [OF Some] by simp_all
  obtain lx where i: "lex_init ?junk get d = Some lx" "lex_ok lx" "aligned lx" "left lx = length (view d)"
    using lex_init_ready [of ?junk d] assms(1) l(2) by auto
  have "3 * left lx + 5 \<le> load_fuel d" using i(4) l(1) by (simp add: load_fuel_def)
  then obtain r lx' where "parse_json (load_fuel d) uflow flags lx = Some (r, lx')" "\<forall>v. r = Some v \<longrightarrow> json_wf v"
    using parse_json_parsed [OF i(2,3)] by blast
  then show ?thesis using Some i(1) by (simp add: json_load_with_def)
qed

end

section \<open>Properties\<close>

text \<open>(C11) Whatever the input, so short that the \<open>int\<close> counters of lines and columns do not overflow, and
  whatever the flags, \<open>json_loadb\<close> returns and has no undefined behaviour: every read and write stays
  inside the buffers, no assertion fails, the recursion and the loops end. The value it returns, if any, is well formed: integers have 64 bits, reals are
  finite, strings and keys are UTF-8 without zero bytes, no object has a key twice. The lexer is
  uninitialized memory of the right size.\<close>

theorem json_loadb_safe:
  assumes "length (st_buffer junk) = 5" "pred_option (\<lambda>bytes. length bytes < 2 ^ 31 - 1) data"
  shows "\<exists>r error'. json_loadb junk uflow data flags error = Some (r, error') \<and> pred_option json_wf r"
proof -
  have "length bytes < 2 ^ 63" if "data = Some bytes" for bytes using assms(2) that by simp
  then obtain r error' where "json_loadb junk uflow data flags error = Some (r, error')" "\<forall>v. r = Some v \<longrightarrow> json_wf v"
    using buffer.json_load_with_ok [of junk data "''<buffer>''" uflow flags error] assms(1) unfolding json_loadb_def by blast
  then show ?thesis by (cases r) auto
qed

text \<open>(C26) The same for \<open>json_loads\<close>, which reads a string up to its zero byte and counts its position in an \<open>int\<close>: what it returns has the type
  of JSON values, in particular every string in it is again a C string in UTF-8.\<close>

theorem json_loads_safe:
  assumes "length (st_buffer junk) = 5" "pred_option (\<lambda>bytes. length bytes < 2 ^ 31 - 1) data"
  shows "\<exists>r error'. json_loads junk uflow data flags error = Some (r, error') \<and> pred_option json_wf r"
proof -
  have "length bytes < 2 ^ 63" if "data = Some bytes" for bytes using assms(2) that by simp
  then obtain r error' where "json_loads junk uflow data flags error = Some (r, error')" "\<forall>v. r = Some v \<longrightarrow> json_wf v"
    using string.json_load_with_ok [of junk data "''<string>''" uflow flags error] assms(1) length_takeWhile_le unfolding json_loads_def by blast
  then show ?thesis by (cases r) auto
qed

text \<open>A lexer in memory, for examples.\<close>

definition demo_lex :: lex_t where
  "demo_lex = \<lparr>st_get = buffer_get, st_data = [], st_buffer = [7, 7, 7, 7, 7], buffer_pos = 0, st_state = 0, st_line = 0, st_column = 0,
     last_column = None, st_position = 0, saved_text = strbuffer_init, token = 0, lex_val = Value_unset, lex_error = None\<rparr>"

lemma demo_lex_buffer [simp]: "length (st_buffer demo_lex) = 5"
  by (simp add: demo_lex_def)

theorem json_loadb_safe_witness:
  "\<exists>r error'. json_loadb demo_lex (\<lambda>_ _. True) (Some [0x5B, 0x22, 0xC3, 0x5D]) 0 None = Some (r, error') \<and> pred_option json_wf r"
  by (rule json_loadb_safe) simp_all

theorem json_loads_safe_witness:
  "\<exists>r error'. json_loads demo_lex (\<lambda>_ _. True) (Some [0x5B, 0x31, 0x5D, 0]) 0 None = Some (r, error') \<and> pred_option json_wf r"
  by (rule json_loads_safe) simp_all

end
