(* ===== verification/Json_Print.thy ===== *)
theory Json_Print
  imports Json_Dump Json_Real Json_Safe
begin

text \<open>
  What the printer of \<open>dump.c\<close> writes. The reference \<open>json_print\<close> gives the text of a value by
  recursion over it, without a callback. The locale \<open>json_writer\<close> is the contract of the callback:
  it appends. For every callback that keeps it the printer writes the reference text of a well-formed
  value; it is interpreted with \<open>dump_to_strbuffer\<close>.
\<close>

section \<open>The reference\<close>

text \<open>The code points of a string.\<close>

function utf8_points :: "byte list \<Rightarrow> nat list" where
  "utf8_points bs =
     (if bs = [] then []
      else case utf8_iterate bs of Some (Some n, rest) \<Rightarrow> n # utf8_points rest | _ \<Rightarrow> [])"
  by pat_completeness auto
termination
  by (relation "measure length") (auto simp: utf8_iterate_def Let_def neq_Nil_conv split: if_splits option.splits)

declare utf8_points.simps [simp del]

lemma utf8_points_text: "\<forall>n \<in> set ns. scalar_value n \<Longrightarrow> utf8_points (utf8_text ns) = ns"
  by (induction ns) (simp_all add: utf8_points.simps [of "[]"] utf8_points.simps [of "utf8_char _ @ _"] utf8_iterate_char)

definition print_point :: "nat \<Rightarrow> nat \<Rightarrow> byte list" where
  "print_point flags n = (if must_escape flags n then str_bytes (dump_escape n) else utf8_char n)"

definition print_string :: "nat \<Rightarrow> byte list \<Rightarrow> byte list" where
  "print_string flags bs = 0x22 # concat (map (print_point flags) (utf8_points bs)) @ [0x22]"

definition print_indent :: "nat \<Rightarrow> nat \<Rightarrow> bool \<Rightarrow> byte list" where
  "print_indent flags depth space =
     (if JSON_INDENT flags > 0 then 0x0A # replicate (depth * JSON_INDENT flags) 0x20
      else if space \<and> flags AND JSON_COMPACT = 0 then [0x20] else [])"

fun print_items :: "nat \<Rightarrow> nat \<Rightarrow> byte list list \<Rightarrow> byte list" where
  "print_items flags depth [] = []"
| "print_items flags depth (t # ts) =
     t @ (if ts = [] then print_indent flags depth False
          else 0x2C # print_indent flags (depth + 1) True @ print_items flags depth ts)"

definition print_group :: "nat \<Rightarrow> nat \<Rightarrow> byte \<Rightarrow> byte \<Rightarrow> byte list list \<Rightarrow> byte list" where
  "print_group flags depth lb rb ts =
     lb # (if ts = [] then [] else print_indent flags (depth + 1) False @ print_items flags depth ts) @ [rb]"

definition print_real :: "64 word \<Rightarrow> byte list" where
  "print_real d = (case jsonp_dtostr MAX_REAL_STR_LENGTH d of None \<Rightarrow> [] | Some s \<Rightarrow> str_bytes s)"

function json_print :: "serials \<Rightarrow> nat \<Rightarrow> nat \<Rightarrow> json \<Rightarrow> byte list" where
  "json_print serial flags depth JNull = str_bytes ''null''"
| "json_print serial flags depth JTrue = str_bytes ''true''"
| "json_print serial flags depth JFalse = str_bytes ''false''"
| "json_print serial flags depth (JInteger i) = str_bytes (int_string i)"
| "json_print serial flags depth (JReal d) = print_real d"
| "json_print serial flags depth (JString s) = print_string flags (str_bytes s)"
| "json_print serial flags depth (JArray xs) =
     print_group flags depth 0x5B 0x5D (map (json_print serial flags (depth + 1)) xs)"
| "json_print serial flags depth (JObject kvs) =
     print_group flags depth 0x7B 0x7D
       (map (\<lambda>kv. print_string flags (str_bytes (fst kv)) @ str_bytes (separator flags) @ json_print serial flags (depth + 1) (snd kv))
         (key_order serial flags kvs))"
  by pat_completeness auto
termination
proof (relation "measure (\<lambda>(serial, flags, depth, v). weight v)")
  fix serial :: serials and depth flags :: nat and xs :: "json list" and x assume "x \<in> set xs"
  then have "weight x \<le> items_weight xs" by (induction xs) auto
  then show "((serial, flags, depth + 1, x), serial, flags, depth, JArray xs) \<in> measure (\<lambda>(serial, flags, depth, v). weight v)"
    by (simp add: weight_items del: weight.simps)
next
  fix serial :: serials and depth flags :: nat and kvs and kv assume "kv \<in> set (key_order serial flags kvs)"
  moreover have "weight (snd kv) \<le> pairs_weight ps" if "kv \<in> set ps" for ps using that by (induction ps) auto
  ultimately have "weight (snd kv) \<le> pairs_weight (key_order serial flags kvs)" by blast
  then show "((serial, flags, depth + 1, snd kv), serial, flags, depth, JObject kvs) \<in> measure (\<lambda>(serial, flags, depth, v). weight v)"
    by (simp add: weight_pairs del: weight.simps)
qed simp

lemma str_bytes_append [simp]: "str_bytes (s @ t) = str_bytes s @ str_bytes t"
  by (simp add: str_bytes_def)

text \<open>What the inner loop of \<open>dump_string\<close> finds in a string of code points.\<close>

lemma dump_scan_text:
  assumes "\<forall>n \<in> set ns. scalar_value n"
  shows "dump_scan flags (utf8_text ns) passed =
    (case dropWhile (\<lambda>n. \<not> must_escape flags n) ns of
       [] \<Rightarrow> Some (passed @ utf8_text ns, [], [], 0)
     | n # ms \<Rightarrow> Some (passed @ utf8_text (takeWhile (\<lambda>n. \<not> must_escape flags n) ns), utf8_text (n # ms), utf8_text ms, n))"
  using assms
proof (induction ns arbitrary: passed)
  case Nil
  then show ?case by (simp add: dump_scan.simps [of _ "[]"])
next
  case (Cons n ns)
  then have "dump_scan flags (utf8_text (n # ns)) passed =
      (if must_escape flags n then Some (passed, utf8_text (n # ns), utf8_text ns, n)
       else dump_scan flags (utf8_text ns) (passed @ utf8_char n))"
    by (simp add: dump_scan.simps [of _ "utf8_char n @ _"] utf8_iterate_char)
  then show ?case
    using Cons by (cases "must_escape flags n"; cases "dropWhile (\<lambda>n. \<not> must_escape flags n) ns")
      (simp_all del: dropWhile_eq_Nil_conv)
qed

lemma do_dump_eqs:
  "do_dump serial flags dump depth JNull = dump_str dump ''null''"
  "do_dump serial flags dump depth JTrue = dump_str dump ''true''"
  "do_dump serial flags dump depth JFalse = dump_str dump ''false''"
  "do_dump serial flags dump depth (JInteger i) = (\<lambda>d. if length (int_string i) \<ge> MAX_INTEGER_STR_LENGTH then Some (- 1, d)
     else dump_str dump (int_string i) d)"
  "do_dump serial flags dump depth (JReal r) =
     (\<lambda>d. case jsonp_dtostr MAX_REAL_STR_LENGTH r of None \<Rightarrow> Some (- 1, d) | Some s \<Rightarrow> dump_str dump s d)"
  "do_dump serial flags dump depth (JString s) = dump_string flags dump (str_bytes s)"
  "do_dump serial flags dump depth (JArray xs) = (\<lambda>d. dthen (dump_str dump ''['' d) (\<lambda>d.
     if xs = [] then dump_str dump '']'' d
     else dthen (dump_indent flags (depth + 1) False dump d) (\<lambda>d.
       dthen (do_dump_items serial flags dump depth xs d) (\<lambda>d. dump_str dump '']'' d))))"
  "do_dump serial flags dump depth (JObject kvs) = (\<lambda>d. dthen (dump_str dump ''{'' d) (\<lambda>d.
     if kvs = [] then dump_str dump ''}'' d
     else dthen (dump_indent flags (depth + 1) False dump d) (\<lambda>d.
       dthen (do_dump_pairs serial flags dump depth (key_order serial flags kvs) d) (\<lambda>d. dump_str dump ''}'' d))))"
  by (intro ext; subst do_dump.simps; simp)+

section \<open>The contract of the callback\<close>

locale json_writer =
  fixes dump :: "'d dump_callback" and writer_ok :: "'d \<Rightarrow> bool" and written :: "'d \<Rightarrow> byte list" and limit :: nat
  assumes dump_ok: "writer_ok d \<Longrightarrow> length (written d) + length bs < limit \<Longrightarrow>
    \<exists>d'. dump bs d = Some (0, d') \<and> writer_ok d' \<and> written d' = written d @ bs"
begin

definition writes :: "('d \<Rightarrow> (int \<times> 'd) option) \<Rightarrow> byte list \<Rightarrow> bool" where
  "writes f bs \<longleftrightarrow> (\<forall>d. writer_ok d \<and> length (written d) + length bs < limit \<longrightarrow>
     (\<exists>d'. f d = Some (0, d') \<and> writer_ok d' \<and> written d' = written d @ bs))"

lemma writes_nothing: "writes (\<lambda>d. Some (0, d)) []"
  by (simp add: writes_def)

lemma writes_dump: "writes (dump bs) bs"
  using dump_ok by (simp add: writes_def)

lemma writes_str: "writes (dump_str dump s) (str_bytes s)"
  using writes_dump by (simp add: dump_str_def [abs_def])

lemma writes_then:
  assumes "writes f as" "writes g bs"
  shows "writes (\<lambda>d. dthen (f d) g) (as @ bs)"
  unfolding writes_def
proof (intro allI impI, elim conjE)
  fix d assume d: "writer_ok d" "length (written d) + length (as @ bs) < limit"
  then obtain d1 where 1: "f d = Some (0, d1)" "writer_ok d1" "written d1 = written d @ as"
    using assms(1) by (force simp: writes_def)
  then obtain d2 where "g d1 = Some (0, d2)" "writer_ok d2" "written d2 = written d1 @ bs"
    using assms(2) d(2) by (force simp: writes_def)
  then show "\<exists>d'. dthen (f d) g = Some (0, d') \<and> writer_ok d' \<and> written d' = written d @ as @ bs"
    using 1 by (simp add: dthen_def)
qed

lemma writes_spaces: "writes (dump_spaces dump n depth) (replicate (depth * n) 0x20)"
proof (induction depth)
  case 0
  show ?case by (simp add: writes_def)
next
  case (Suc depth)
  have "str_bytes (replicate n (CHR '' '')) = replicate n 0x20" by (simp add: str_bytes_def byte_of_char_def)
  then show ?case
    using writes_then [OF writes_str [of "replicate n (CHR '' '')"] Suc] by (simp add: replicate_add)
qed

lemma writes_indent: "writes (dump_indent flags depth space dump) (print_indent flags depth space)"
proof -
  have "str_bytes ''\<newline>'' = [0x0A]" "str_bytes '' '' = [0x20]" by (simp_all add: str_bytes_def byte_of_char_def)
  then show ?thesis
    using writes_then [OF writes_str [of "''\<newline>''"] writes_spaces] writes_str [of "'' ''"] writes_nothing
    by (cases "JSON_INDENT flags > 0"; cases "space \<and> flags AND JSON_COMPACT = 0")
      (auto simp add: dump_indent_def [abs_def] print_indent_def)
qed

lemma writes_chars:
  assumes "\<forall>n \<in> set ns. scalar_value n"
  shows "writes (dump_chars flags dump (utf8_text ns)) (concat (map (print_point flags) ns) @ [0x22])"
  using assms
proof (induction "length ns" arbitrary: ns rule: less_induct)
  case less
  let ?pre = "takeWhile (\<lambda>n. \<not> must_escape flags n) ns"
  have q: "str_bytes [CHR 0x22] = [0x22]" by (simp add: str_bytes_def byte_of_char_def)
  have chunk: "writes (\<lambda>d. if bs \<noteq> [] then dump bs d else Some (0, d)) bs" for bs
    using writes_dump [of bs] writes_nothing by (cases "bs = []") simp_all
  have pre: "concat (map (print_point flags) ?pre) = utf8_text ?pre"
    unfolding utf8_text_def by (intro arg_cong [where f = concat] map_cong refl) (auto simp: print_point_def dest: set_takeWhileD)
  show ?case
  proof (cases "dropWhile (\<lambda>n. \<not> must_escape flags n) ns")
    case Nil
    then have "?pre = ns" by (metis append_Nil2 takeWhile_dropWhile_id)
    then have "concat (map (print_point flags) ns) = utf8_text ns" using pre by (simp only:)
    moreover have "dump_chars flags dump (utf8_text ns) =
        (\<lambda>d. dthen (if utf8_text ns \<noteq> [] then dump (utf8_text ns) d else Some (0, d)) (dump_str dump [CHR 0x22]))"
      using dump_scan_text [OF less.prems, of flags "[]"] Nil by (intro ext) (simp add: dump_chars.simps)
    ultimately show ?thesis
      using writes_then [OF chunk writes_str [of "[CHR 0x22]"]] q by simp
  next
    case (Cons n ms)
    then have ns: "ns = ?pre @ n # ms" by (metis takeWhile_dropWhile_id)
    have n: "must_escape flags n" using Cons dropWhile_eq_Cons_conv by metis
    have sv: "\<forall>n \<in> set (n # ms). scalar_value n" using less.prems ns by (metis Un_iff set_append)
    have l: "length ms < length ns" using ns by (metis length_append less_add_same_cancel2 impossible_Cons leI le_add2 le_trans)
    have "dump_chars flags dump (utf8_text ns) =
        (\<lambda>d. dthen (if utf8_text ?pre \<noteq> [] then dump (utf8_text ?pre) d else Some (0, d))
          (\<lambda>d. dthen (dump_str dump (dump_escape n) d) (dump_chars flags dump (utf8_text ms))))"
      using dump_scan_text [OF less.prems, of flags "[]"] Cons sv by (intro ext) (simp add: dump_chars.simps [of _ _ "utf8_text ns"])
    moreover have "writes \<dots> (utf8_text ?pre @ str_bytes (dump_escape n) @ concat (map (print_point flags) ms) @ [0x22])"
      using sv by (intro writes_then chunk writes_str less.hyps [OF l]) simp
    moreover have "concat (map (print_point flags) ns) = utf8_text ?pre @ str_bytes (dump_escape n) @ concat (map (print_point flags) ms)"
      using n by (subst ns) (simp add: pre print_point_def)
    ultimately show ?thesis by simp
  qed
qed

lemma writes_string:
  assumes "utf8_check_bytes bs"
  shows "writes (dump_string flags dump bs) (print_string flags bs)"
proof -
  obtain ns where ns: "\<forall>n \<in> set ns. scalar_value n" "bs = utf8_text ns" using assms utf8_check_bytes_iff by blast
  have q: "str_bytes [CHR 0x22] = [0x22]" by (simp add: str_bytes_def byte_of_char_def)
  show ?thesis
    using writes_then [OF writes_str [of "[CHR 0x22]"] writes_chars [OF ns(1)]] q ns
    by (simp add: dump_string_def [abs_def] print_string_def utf8_points_text)
qed

text \<open>The printer itself.\<close>

lemma writes_key:
  assumes "utf8_check_bytes (str_bytes k)"
  shows "writes (dump_key flags dump k) (print_string flags (str_bytes k))"
  using writes_string [OF assms, of flags] by (fastforce simp: writes_def dump_key_def)

lemma writes_int:
  assumes "- (2 ^ 63) \<le> i" "i < 2 ^ 63"
  shows "length (int_string i) < MAX_INTEGER_STR_LENGTH"
proof -
  have "nat \<bar>i\<bar> < 10 ^ 20" using assms by simp
  then have "length (dec_string (nat \<bar>i\<bar>)) \<le> 20" by (rule dec_string_length_le) simp
  then show ?thesis by (cases "i < 0") (simp_all add: int_string_def MAX_INTEGER_STR_LENGTH_def)
qed

lemma writes_items:
  assumes "xs \<noteq> []" "\<And>x. x \<in> set xs \<Longrightarrow> writes (do_dump serial flags dump (depth + 1) x) (json_print serial flags (depth + 1) x)"
  shows "writes (do_dump_items serial flags dump depth xs) (print_items flags depth (map (json_print serial flags (depth + 1)) xs))"
  using assms
proof (induction xs)
  case (Cons x xs)
  have c: "str_bytes '','' = [0x2C]" by (simp add: str_bytes_def byte_of_char_def)
  have x: "writes (do_dump serial flags dump (depth + 1) x) (json_print serial flags (depth + 1) x)" using Cons.prems(2) by simp
  show ?case
  proof (cases "xs = []")
    case True
    then show ?thesis using writes_then [OF x writes_indent] by simp
  next
    case False
    then have "writes (do_dump_items serial flags dump depth xs) (print_items flags depth (map (json_print serial flags (depth + 1)) xs))"
      using Cons by simp
    note writes_then [OF x writes_then [OF writes_str [of "'',''"] writes_then [OF writes_indent this]]]
    then show ?thesis using False c by simp
  qed
qed simp

abbreviation pair_text :: "serials \<Rightarrow> nat \<Rightarrow> nat \<Rightarrow> string \<times> json \<Rightarrow> byte list" where
  "pair_text serial flags depth kv \<equiv>
     print_string flags (str_bytes (fst kv)) @ str_bytes (separator flags) @ json_print serial flags (depth + 1) (snd kv)"

lemma writes_pairs:
  assumes "kvs \<noteq> []" "\<And>kv. kv \<in> set kvs \<Longrightarrow> utf8_check_bytes (str_bytes (fst kv)) \<and>
    writes (do_dump serial flags dump (depth + 1) (snd kv)) (json_print serial flags (depth + 1) (snd kv))"
  shows "writes (do_dump_pairs serial flags dump depth kvs) (print_items flags depth (map (pair_text serial flags depth) kvs))"
  using assms
proof (induction kvs)
  case (Cons kv kvs)
  have c: "str_bytes '','' = [0x2C]" by (simp add: str_bytes_def byte_of_char_def)
  have k: "writes (dump_key flags dump (fst kv)) (print_string flags (str_bytes (fst kv)))" using Cons.prems(2) writes_key by simp
  have v: "writes (do_dump serial flags dump (depth + 1) (snd kv)) (json_print serial flags (depth + 1) (snd kv))" using Cons.prems(2) by simp
  note pair = writes_then [OF k writes_then [OF writes_str [of "separator flags"] writes_then [OF v]]]
  show ?case
  proof (cases "kvs = []")
    case True
    then show ?thesis using pair [OF writes_indent] by simp
  next
    case False
    then have "writes (do_dump_pairs serial flags dump depth kvs) (print_items flags depth (map (pair_text serial flags depth) kvs))"
      using Cons by simp
    note pair [OF writes_then [OF writes_str [of "'',''"] writes_then [OF writes_indent this]]]
    then show ?thesis using False c by simp
  qed
qed simp

text \<open>Brackets around a list that may be empty.\<close>

lemma writes_group:
  assumes "str_bytes lb = [l]" "str_bytes rb = [r]" "\<not> none \<Longrightarrow> writes items (print_items flags depth ts)" "none \<longleftrightarrow> ts = []"
  shows "writes (\<lambda>d. dthen (dump_str dump lb d) (\<lambda>d.
      if none then dump_str dump rb d
      else dthen (dump_indent flags (depth + 1) False dump d) (\<lambda>d. dthen (items d) (\<lambda>d. dump_str dump rb d))))
    (print_group flags depth l r ts)"
proof (cases none)
  case True
  then show ?thesis
    using writes_then [OF writes_str [of lb] writes_str [of rb]] assms by (simp add: print_group_def)
next
  case False
  note writes_then [OF writes_str [of lb] writes_then [OF writes_indent writes_then [OF assms(3) [OF False] writes_str [of rb]]]]
  then show ?thesis using False assms by (simp add: print_group_def)
qed

lemma key_order_set [simp]: "set (key_order serial flags kvs) = set kvs" "key_order serial flags kvs = [] \<longleftrightarrow> kvs = []"
  by (simp_all add: key_order_def flip: length_0_conv)

lemma do_dump_writes: "json_wf v \<Longrightarrow> writes (do_dump serial flags dump depth v) (json_print serial flags depth v)"
proof (induction "weight v" arbitrary: v depth rule: less_induct)
  case less
  have brackets: "str_bytes ''['' = [0x5B]" "str_bytes '']'' = [0x5D]" "str_bytes ''{'' = [0x7B]" "str_bytes ''}'' = [0x7D]"
    by (simp_all add: str_bytes_def byte_of_char_def)
  show ?case
  proof (cases v)
    case (JInteger i)
    then show ?thesis using less.prems writes_str writes_int [of i] by (simp add: do_dump_eqs)
  next
    case (JReal d)
    then obtain s where "jsonp_dtostr MAX_REAL_STR_LENGTH d = Some s"
      using less.prems dtostr_parts [of d MAX_REAL_STR_LENGTH] by (auto simp: MAX_REAL_STR_LENGTH_def)
    then show ?thesis using JReal writes_str by (simp add: do_dump_eqs print_real_def)
  next
    case (JString s)
    then show ?thesis using less.prems writes_string by (simp add: do_dump_eqs text_ok_def utf8_check_string_def)
  next
    case (JArray xs)
    have "writes (do_dump_items serial flags dump depth xs) (print_items flags depth (map (json_print serial flags (depth + 1)) xs))" if "xs \<noteq> []"
    proof (rule writes_items [OF that])
      fix x assume x: "x \<in> set xs"
      then have "weight x \<le> items_weight xs" by (induction xs) auto
      then show "writes (do_dump serial flags dump (depth + 1) x) (json_print serial flags (depth + 1) x)"
        using less.hyps [of x "depth + 1"] less.prems x JArray by (simp add: weight_items del: weight.simps)
    qed
    then show ?thesis unfolding JArray do_dump_eqs json_print.simps by (rule writes_group [OF brackets(1,2)]) simp_all
  next
    case (JObject kvs)
    let ?kvs = "key_order serial flags kvs"
    have "writes (do_dump_pairs serial flags dump depth ?kvs) (print_items flags depth (map (pair_text serial flags depth) ?kvs))" if "kvs \<noteq> []"
    proof (rule writes_pairs)
      fix kv assume kv: "kv \<in> set ?kvs"
      moreover have "weight (snd kv) \<le> pairs_weight ps" if "kv \<in> set ps" for ps using that by (induction ps) auto
      ultimately have "weight (snd kv) \<le> pairs_weight kvs" by simp
      then show "utf8_check_bytes (str_bytes (fst kv)) \<and> writes (do_dump serial flags dump (depth + 1) (snd kv)) (json_print serial flags (depth + 1) (snd kv))"
        using less.hyps [of "snd kv" "depth + 1"] less.prems kv JObject
        by (auto simp: weight_pairs text_ok_def utf8_check_string_def simp del: weight.simps)
    qed (use that in simp)
    then show ?thesis unfolding JObject do_dump_eqs json_print.simps by (rule writes_group [OF brackets(3,4)]) simp_all
  qed (use writes_str in \<open>simp_all add: do_dump_eqs\<close>)
qed

end

section \<open>The string buffer\<close>

interpretation strbuffer: json_writer dump_to_strbuffer strbuffer_ok strbuffer_contents "2 ^ 63"
proof
  fix d and bs :: "byte list" assume "strbuffer_ok d" "length (strbuffer_contents d) + length bs < 2 ^ 63"
  then show "\<exists>d'. dump_to_strbuffer bs d = Some (0, d') \<and> strbuffer_ok d' \<and> strbuffer_contents d' = strbuffer_contents d @ bs"
    using strbuffer.append_ok unfolding dump_to_strbuffer_def by blast
qed

section \<open>Properties of the text\<close>

text \<open>The text is UTF-8 without zero bytes.\<close>

definition printable :: "byte list \<Rightarrow> bool" where
  "printable bs \<longleftrightarrow> utf8_check_bytes bs \<and> 0 \<notin> set bs"

lemma printable_append: "printable as \<Longrightarrow> printable bs \<Longrightarrow> printable (as @ bs)"
  by (simp add: printable_def utf8_check_bytes_append)

lemma printable_ascii: "\<forall>b \<in> set bs. 0 < unat b \<and> unat b < 128 \<Longrightarrow> printable bs"
  using utf8_ascii_bytes [of bs] by (auto simp: printable_def)

lemma printable_chars: "\<forall>c \<in> set s. 0 < (of_char c :: nat) \<and> (of_char c :: nat) < 128 \<Longrightarrow> printable (str_bytes s)"
  by (intro printable_ascii) (auto simp: str_bytes_def byte_of_char_def unat_of_nat)

lemma printable_cons: "0 < unat b \<Longrightarrow> unat b < 128 \<Longrightarrow> printable bs \<Longrightarrow> printable (b # bs)"
  using printable_append [of "[b]" bs] printable_ascii [of "[b]"] by simp

lemma printable_nil [simp]: "printable []"
  by (simp add: printable_ascii)

lemma printable_concat: "\<forall>bs \<in> set bss. printable bs \<Longrightarrow> printable (concat bss)"
  by (induction bss) (simp_all add: printable_append)

lemma hex_digit_ascii: "d < 16 \<Longrightarrow> 0 < (of_char (hex_digit upper d) :: nat) \<and> (of_char (hex_digit upper d) :: nat) < 128"
  by (simp add: hex_digit_def)

lemma hex_string_ascii: "c \<in> set (hex_string upper n) \<Longrightarrow> 0 < (of_char c :: nat) \<and> (of_char c :: nat) < 128"
proof (induction upper n rule: hex_string.induct)
  case (1 upper n)
  then show ?case using hex_digit_ascii [of n upper] hex_digit_ascii [of "n mod 16" upper]
    by (cases "n < 16") (auto simp: hex_string.simps [of upper n])
qed

lemma hex4_ascii: "c \<in> set (hex4 upper n) \<Longrightarrow> 0 < (of_char c :: nat) \<and> (of_char c :: nat) < 128"
  using hex_string_ascii by (auto simp: hex4_def Let_def)

lemma dump_escape_ascii: "\<forall>c \<in> set (dump_escape n). 0 < (of_char c :: nat) \<and> (of_char c :: nat) < 128"
  using hex4_ascii by (auto simp: dump_escape_def Let_def)

lemma printable_point: "scalar_value n \<Longrightarrow> n \<noteq> 0 \<Longrightarrow> printable (print_point flags n)"
  using printable_chars [OF dump_escape_ascii] utf8_check_bytes_char [of n "[]"] utf8_char_nonzero [of n]
    utf8_ascii_bytes [of "[]"] by (auto simp: print_point_def printable_def)

lemma text_points:
  assumes "text_ok s"
  obtains ns where "str_bytes s = utf8_text ns" "\<forall>n \<in> set ns. scalar_value n \<and> n \<noteq> 0" "utf8_points (str_bytes s) = ns"
proof -
  obtain ns where ns: "\<forall>n \<in> set ns. scalar_value n" "str_bytes s = utf8_text ns"
    using assms utf8_check_bytes_iff by (auto simp: text_ok_def utf8_check_string_def)
  have "0 \<notin> set (str_bytes s)" using assms by (auto simp: text_ok_def c_string_def str_bytes_def)
  moreover have "utf8_char 0 = [0]" by (simp add: utf8_char_ascii)
  ultimately have "0 \<notin> set ns" using ns(2) by (auto simp: utf8_text_def)
  then have "\<forall>n \<in> set ns. scalar_value n \<and> n \<noteq> 0" using ns(1) by metis
  then show thesis using that [OF ns(2)] utf8_points_text [OF ns(1)] ns(2) by simp
qed

lemma printable_string: "text_ok s \<Longrightarrow> printable (print_string flags (str_bytes s))"
proof -
  assume "text_ok s"
  then obtain ns where ns: "\<forall>n \<in> set ns. scalar_value n \<and> n \<noteq> 0" "utf8_points (str_bytes s) = ns" using text_points by blast
  then have "printable (concat (map (print_point flags) ns))" by (intro printable_concat) (auto simp: printable_point)
  then show ?thesis unfolding print_string_def ns(2)
    by (intro printable_cons printable_append) (simp_all add: printable_ascii)
qed

lemma printable_indent: "printable (print_indent flags depth space)"
  by (rule printable_ascii) (auto simp: print_indent_def)

lemma printable_items: "\<forall>t \<in> set ts. printable t \<Longrightarrow> printable (print_items flags depth ts)"
  by (induction ts) (auto simp: printable_indent intro!: printable_append printable_cons)

lemma printable_group: "\<forall>t \<in> set ts. printable t \<Longrightarrow> 0 < unat l \<and> unat l < 128 \<Longrightarrow> 0 < unat r \<and> unat r < 128 \<Longrightarrow>
    printable (print_group flags depth l r ts)"
  unfolding print_group_def
  by (intro printable_cons printable_append) (auto simp: printable_indent printable_items printable_ascii intro: printable_append)

lemma number_char_ascii: "is_digit c \<Longrightarrow> 0 < (of_char c :: nat) \<and> (of_char c :: nat) < 128"
  by (simp add: is_digit_def)

lemma printable_int: "printable (str_bytes (int_string i))"
proof (rule printable_chars)
  have "\<forall>c \<in> set (dec_string n). 0 < (of_char c :: nat) \<and> (of_char c :: nat) < 128" for n
    using dec_string_digits [of n] number_char_ascii by (simp add: digits_def)
  then show "\<forall>c \<in> set (int_string i). 0 < (of_char c :: nat) \<and> (of_char c :: nat) < 128" by (simp add: int_string_def)
qed

lemma real_parts_ascii:
  assumes "real_parts ip fr ex"
  shows "\<forall>c \<in> set (sign_text neg @ ip @ fr @ ex). 0 < (of_char c :: nat) \<and> (of_char c :: nat) < 128"
  using assms number_char_ascii
  by (auto simp: real_parts_def digits_def fraction_text_def exponent_text_def sign_text_def)

lemma printable_real: "dbl_finite d \<Longrightarrow> printable (print_real d)"
proof -
  assume "dbl_finite d"
  then obtain ip fr ex where *: "jsonp_dtostr MAX_REAL_STR_LENGTH d = Some (sign_text (dbl_sign d) @ ip @ fr @ ex)" "real_parts ip fr ex"
    using dtostr_parts [of d MAX_REAL_STR_LENGTH] by (auto simp: MAX_REAL_STR_LENGTH_def)
  then show ?thesis using printable_chars [OF real_parts_ascii [OF *(2)]] by (simp add: print_real_def del: set_append)
qed

lemma printable_json: "json_wf v \<Longrightarrow> printable (json_print serial flags depth v)"
proof (induction serial flags depth v rule: json_print.induct)
  case (7 serial flags depth xs)
  then show ?case unfolding json_print.simps by (intro printable_group) auto
next
  case (8 serial flags depth kvs)
  then show ?case unfolding json_print.simps
    by (intro printable_group) (auto simp: printable_string separator_def intro!: printable_append printable_chars)
qed (auto simp: printable_int printable_real printable_string intro!: printable_chars)

section \<open>The text of json_dumps\<close>

lemma json_dumps_print:
  assumes "json_wf v" "length (json_print serial flags 0 v) < 2 ^ 63"
    and "flags AND JSON_ENCODE_ANY \<noteq> 0 \<or> json_is_array (Some v) \<or> json_is_object (Some v)"
  shows "json_dumps serial (Some v) flags = Some (Some (map char_of_byte (json_print serial flags 0 v)))"
proof -
  let ?t = "json_print serial flags 0 v"
  obtain s where s: "do_dump serial flags dump_to_strbuffer 0 v strbuffer_init = Some (0, s)" "strbuffer_ok s" "strbuffer_contents s = ?t"
    using strbuffer.do_dump_writes [OF assms(1), of serial flags 0] assms(2) strbuffer.init_ok unfolding strbuffer.writes_def
    by (elim allE [of _ strbuffer_init]) auto
  have "0 \<notin> set ?t" using printable_json [OF assms(1)] by (simp add: printable_def)
  then have "c_str (strbuffer_value s) = Some ?t" using strbuffer.chars_string [OF s(2)] s(3) by simp
  then show ?thesis using s(1) assms(3) by (auto simp: json_dumps_def json_dump_callback_def)
qed

end
