(* ===== verification/Json_Unescape.thy ===== *)
theory Json_Unescape
  imports Json_Print
begin

text \<open>
  The strings that \<open>dump_string\<close> prints are escaped text in the sense of the lexer, and the second
  loop of \<open>lex_scan_string\<close> turns them back into the string: the escapes of \<open>dump.c\<close> and \<open>load.c\<close>
  are inverse to each other, surrogate pairs included.
\<close>

section \<open>Hexadecimal digits\<close>

lemma sint_char_of: "k < 128 \<Longrightarrow> sint (byte_of_char (char_of k)) = int k"
proof -
  assume k: "k < 128"
  then have "unat (byte_of_char (char_of k)) = k" by (simp add: byte_of_char_def unat_of_nat)
  then show ?thesis using k sint_byte [of "byte_of_char (char_of k)"] by simp
qed

lemma hex_digit_byte: "d < 16 \<Longrightarrow>
    sint (byte_of_char (hex_digit upper d)) = int (if d < 10 then 48 + d else if upper then 55 + d else 87 + d)"
  unfolding hex_digit_def by (rule sint_char_of) simp

lemma hex_value_digit: "d < 16 \<Longrightarrow> hex_value (byte_of_char (hex_digit upper d)) = Some d"
  by (simp add: hex_value_def Let_def hex_digit_byte l_is_defs)

lemma hex_digit_xdigit: "d < 16 \<Longrightarrow> l_isxdigit (sint (byte_of_char (hex_digit upper d)))"
  by (simp add: hex_digit_byte l_is_defs)

lemma hex4_digits:
  assumes "n < 0x10000"
  shows "hex4 upper n = [hex_digit upper (n div 4096), hex_digit upper (n div 256 mod 16), hex_digit upper (n div 16 mod 16),
    hex_digit upper (n mod 16)]"
proof -
  have z: "hex_digit upper 0 = CHR ''0''" by (simp add: hex_digit_def char_of_def bit_simps)
  have r: "replicate 3 c = [c, c, c]" "replicate 2 c = [c, c]" for c :: char by (simp_all add: numeral_eq_Suc)
  have d: "n div 16 div 16 = n div 256" "n div 256 div 16 = n div 4096" by (simp_all add: div_mult2_eq [symmetric])
  have one: "hex_string upper k = [hex_digit upper k]" if "k < 16" for k using that by (simp add: hex_string.simps [of upper k])
  have more: "hex_string upper k = hex_string upper (k div 16) @ [hex_digit upper (k mod 16)]" if "16 \<le> k" for k
    using that by (simp add: hex_string.simps [of upper k])
  consider "n < 16" | "16 \<le> n" "n < 256" | "256 \<le> n" "n < 4096" | "4096 \<le> n" using assms by linarith
  then show ?thesis
  proof cases
    case 1
    then show ?thesis by (simp add: hex4_def one Let_def z r)
  next
    case 2
    moreover have "n div 16 < 16" using 2 by (simp add: div_less_iff_less_mult)
    ultimately show ?thesis by (simp add: hex4_def one more [of n] Let_def z r)
  next
    case 3
    moreover have "16 \<le> n div 16" "n div 256 < 16" using 3 by (simp_all add: div_less_iff_less_mult less_eq_div_iff_mult_less_eq)
    ultimately show ?thesis by (simp add: hex4_def one more [of n] more [of "n div 16"] d Let_def z r)
  next
    case 4
    moreover have "16 \<le> n div 16" "16 \<le> n div 256" "n div 4096 < 16"
      using 4 assms by (simp_all add: div_less_iff_less_mult less_eq_div_iff_mult_less_eq)
    ultimately show ?thesis by (simp add: hex4_def one more [of n] more [of "n div 16"] more [of "n div 256"] d Let_def z r)
  qed
qed

lemma hex4_bytes:
  assumes "n < 0x10000"
  shows "hex_bytes (str_bytes (hex4 upper n))" "decode_unicode_escape (0x75 # str_bytes (hex4 upper n) @ p) = Some n"
proof -
  have d: "n div 4096 < 16" "n div 256 mod 16 < 16" "n div 16 mod 16 < 16" "n mod 16 < 16" using assms by (simp_all add: div_less_iff_less_mult)
  then show "hex_bytes (str_bytes (hex4 upper n))"
    using assms by (simp add: hex4_digits hex_bytes_def str_bytes_def hex_digit_xdigit)
  have "((n div 4096 * 16 + n div 256 mod 16) * 16 + n div 16 mod 16) * 16 + n mod 16 = n"
  proof -
    have "n div 4096 = n div 256 div 16" "n div 256 = n div 16 div 16" by (simp_all add: div_mult2_eq [symmetric])
    then show ?thesis by (metis div_mult_mod_eq)
  qed
  then show "decode_unicode_escape (0x75 # str_bytes (hex4 upper n) @ p) = Some n"
    using assms d by (simp add: hex4_digits decode_unicode_escape_def str_bytes_def mem_get_def hex_value_digit)
qed

section \<open>Surrogate pairs\<close>

lemma or_add: "m < 2 ^ k \<Longrightarrow> (a * 2 ^ k) OR m = a * 2 ^ k + (m :: nat)"
proof -
  assume m: "m < 2 ^ k"
  then have "take_bit k m = m" by (simp add: take_bit_nat_eq_self)
  moreover have "push_bit k a AND take_bit k m = 0" by (rule bit_eqI) (auto simp: bit_simps)
  moreover have "a * 2 ^ k = push_bit k a" by (simp add: push_bit_eq_mult)
  ultimately show ?thesis using disjunctive_add_eq_or [of "push_bit k a" m] by simp
qed

lemma and_3ff: "(n :: nat) AND 0x3FF = n mod 1024"
  using take_bit_eq_mask [of 10 n] by (simp add: mask_eq_exp_minus_1 take_bit_eq_mod)

lemma surrogates:
  assumes "c < 0x100000"
  shows "0xD800 OR drop_bit 10 (c AND 0xFFC00) = 0xD800 + c div (1024 :: nat)" "0xDC00 OR (c AND 0x3FF) = 0xDC00 + c mod (1024 :: nat)"
proof -
  have "drop_bit 10 (c AND 0xFFC00) = (c div 1024) mod 1024"
    by (simp only: drop_bit_and) (simp add: drop_bit_eq_div and_3ff)
  then have "drop_bit 10 (c AND 0xFFC00) = c div 1024" using assms by (simp add: div_less_iff_less_mult)
  moreover have "c div 1024 < 2 ^ 10" using assms by (simp add: div_less_iff_less_mult)
  ultimately show "0xD800 OR drop_bit 10 (c AND 0xFFC00) = 0xD800 + c div 1024" using or_add [of "c div 1024" 10 54] by simp
  show "0xDC00 OR (c AND 0x3FF) = 0xDC00 + c mod 1024" using or_add [of "c mod 1024" 10 55] by (simp add: and_3ff)
qed

lemma dump_escape_pair:
  assumes "0x10000 \<le> n" "n \<le> 0x10FFFF"
  shows "dump_escape n = CHR 0x5C # CHR ''u'' # hex4 False (0xD800 + (n - 0x10000) div 1024) @
    CHR 0x5C # CHR ''u'' # hex4 False (0xDC00 + (n - 0x10000) mod 1024)"
  using assms surrogates [of "n - 0x10000"] by (simp add: dump_escape_def Let_def)

lemma escape_bytes: "str_bytes (CHR 0x5C # s) = 0x5C # str_bytes s" "str_bytes (CHR ''u'' # s) = 0x75 # str_bytes s"
  by (simp_all add: str_bytes_def byte_of_char_def)

text \<open>The code point that is read from a printed escape.\<close>

lemma escape_codepoint_basic:
  assumes "n < 0x10000" "scalar_value n" "n \<noteq> 0"
  shows "escape_codepoint (0x75 # str_bytes (hex4 False n) @ p) = Some (Inr (n, p))"
proof -
  have "drop 4 (str_bytes (hex4 False n) @ p) = p" using hex4_bytes(1) [OF assms(1)] by (simp add: hex_bytes_def)
  then show ?thesis using hex4_bytes(2) [OF assms(1)] assms(2,3) by (auto simp: escape_codepoint_def Let_def scalar_value_def)
qed

lemma escape_codepoint_pair:
  assumes "0x10000 \<le> n" "n \<le> 0x10FFFF"
  shows "escape_codepoint (0x75 # str_bytes (hex4 False (0xD800 + (n - 0x10000) div 1024)) @
    0x5C # 0x75 # str_bytes (hex4 False (0xDC00 + (n - 0x10000) mod 1024)) @ p) = Some (Inr (n, p))"
proof -
  define c where "c = n - 0x10000"
  have c: "c div 1024 < 1024" "c mod 1024 < 1024" "n = c div 1024 * 1024 + c mod 1024 + 0x10000"
    using assms by (simp_all add: c_def div_less_iff_less_mult)
  let ?a = "str_bytes (hex4 False (0xD800 + c div 1024))" and ?b = "str_bytes (hex4 False (0xDC00 + c mod 1024))"
  have l: "length ?a = 4" "length ?b = 4" using c hex4_bytes(1) by (simp_all add: hex_bytes_def)
  have "decode_unicode_escape (0x75 # ?a @ q) = Some (0xD800 + c div 1024)" "decode_unicode_escape (0x75 # ?b @ q) = Some (0xDC00 + c mod 1024)" for q
    using c hex4_bytes(2) by simp_all
  moreover have "drop 4 (?a @ q) = q" "drop 4 (?b @ q) = q" for q using l by simp_all
  ultimately show ?thesis using c unfolding c_def [symmetric]
    by (simp add: escape_codepoint_def Let_def mem_get_def)
qed

section \<open>Strings\<close>

text \<open>The three forms in which a code point is printed.\<close>

lemma print_point_cases:
  assumes n: "scalar_value n" "n \<noteq> 0"
  obtains (raw) "\<not> must_escape flags n" "print_point flags n = utf8_char n" "\<forall>b \<in> set (utf8_char n). raw_byte b"
  | (short) c where "print_point flags n = [0x5C, c]" "short_escape c = Some (word_of_nat n)" "n < 0x80"
  | (basic) "print_point flags n = 0x5C # 0x75 # str_bytes (hex4 False n)" "n < 0x10000"
  | (pair) "print_point flags n = 0x5C # 0x75 # str_bytes (hex4 False (0xD800 + (n - 0x10000) div 1024)) @
      0x5C # 0x75 # str_bytes (hex4 False (0xDC00 + (n - 0x10000) mod 1024))" "0x10000 \<le> n" "n \<le> 0x10FFFF"
proof (cases "must_escape flags n")
  case False
  have "raw_byte b" if "b \<in> set (utf8_char n)" for b
  proof (cases "n < 0x80")
    case True
    then have b: "b = word_of_nat n" using that by (simp add: utf8_char_ascii)
    then have "unat b = n" using True by (simp add: unat_byte_of_nat)
    then show ?thesis using False by (auto simp: raw_byte_def must_escape_def)
  next
    case False
    then show ?thesis using utf8_char_high [OF n(1) False that] by (auto simp: raw_byte_def)
  qed
  then show thesis using False raw by (simp add: print_point_def)
next
  case True
  let ?shorts = "{0x5C, 0x22, 0x08, 0x0C, 0x0A, 0x0D, 0x09, 0x2F}"
  consider "n \<in> ?shorts" | "n \<notin> ?shorts" "n < 0x10000" | "0x10000 \<le> n" "n \<le> 0x10FFFF"
    using n(1) unfolding scalar_value_def by (meson not_le)
  then show thesis
  proof cases
    case 1
    then show thesis using True short
      by (auto simp: print_point_def dump_escape_def str_bytes_def byte_of_char_def short_escape_def)
  next
    case 2
    then have "dump_escape n = CHR 0x5C # CHR ''u'' # hex4 False n" by (simp add: dump_escape_def)
    then show thesis using True 2 basic by (simp add: print_point_def escape_bytes)
  next
    case 3
    then show thesis using True pair by (simp add: print_point_def dump_escape_pair escape_bytes)
  qed
qed

lemma print_point_length:
  assumes "scalar_value n" "n \<noteq> 0"
  shows "length (utf8_char n) \<le> length (print_point flags n)"
  using assms
proof (cases rule: print_point_cases [where flags = flags])
  case (short c)
  then show ?thesis by (simp add: utf8_char_ascii)
next
  case basic
  then show ?thesis using hex4_bytes(1) [OF basic(2)] utf8_char_length [OF assms(1)] by (simp add: hex_bytes_def)
qed (use utf8_char_length [OF assms(1)] in simp_all)

lemma print_point_unescape:
  assumes n: "scalar_value n" "n \<noteq> 0" and cap: "length t + length (utf8_char n) \<le> cap"
  shows "unescape cap (print_point flags n @ p) t = unescape cap p (t @ utf8_char n)"
  using n
proof (cases rule: print_point_cases [where flags = flags])
  case raw
  have "unescape cap (bs @ p) t = unescape cap p (t @ bs)" if "\<forall>b \<in> set bs. raw_byte b" "length t + length bs \<le> cap" for bs
    using that by (induction bs arbitrary: t) (simp_all add: unescape_raw)
  then show ?thesis using raw cap by simp
next
  case (short c)
  then show ?thesis using unescape_short [of c "word_of_nat n" t cap p] cap by (simp add: utf8_char_ascii)
next
  case basic
  then show ?thesis using unescape_unicode [OF escape_codepoint_basic [OF basic(2) n] n(1) cap] by simp
next
  case pair
  then show ?thesis using unescape_unicode [OF escape_codepoint_pair [OF pair(2,3)] n(1) cap] by simp
qed

lemma print_point_escaped:
  assumes "scalar_value n" "n \<noteq> 0" "escaped bs"
  shows "escaped (print_point flags n @ bs)"
  using assms(1,2)
proof (cases rule: print_point_cases [where flags = flags])
  case raw
  have "escaped (as @ bs)" if "\<forall>b \<in> set as. raw_byte b" for as using that assms(3) by (induction as) (simp_all add: escaped_raw)
  then show ?thesis using raw by simp
next
  case (short c)
  then show ?thesis using assms(3) by (simp add: escaped_short)
next
  case basic
  then show ?thesis using escaped_unicode [OF hex4_bytes(1) [OF basic(2)] assms(3)] by simp
next
  case pair
  define c where "c = n - 0x10000"
  have "c div 1024 < 1024" "c mod 1024 < 1024" using pair by (simp_all add: c_def div_less_iff_less_mult)
  then have "hex_bytes (str_bytes (hex4 False (0xD800 + c div 1024)))" "hex_bytes (str_bytes (hex4 False (0xDC00 + c mod 1024)))"
    by (simp_all add: hex4_bytes(1))
  then show ?thesis using pair(1) escaped_unicode [OF _ escaped_unicode [OF _ assms(3)]] by (simp add: c_def)
qed

text \<open>The text between the quotes of a printed string: it is escaped text, and it is read as the string.\<close>

definition print_body :: "nat \<Rightarrow> byte list \<Rightarrow> byte list" where
  "print_body flags bs = concat (map (print_point flags) (utf8_points bs))"

lemma print_string_body: "print_string flags bs = 0x22 # print_body flags bs @ [0x22]"
  by (simp add: print_string_def print_body_def)

lemma print_body_ok:
  assumes "text_ok s"
  shows "escaped (print_body flags (str_bytes s))" "printable (print_body flags (str_bytes s))"
    "length (print_body flags (str_bytes s)) < cap \<Longrightarrow>
       unescape cap (print_body flags (str_bytes s) @ 0x22 # junk) [] = Some (Inr (str_bytes s))"
proof -
  obtain ns where ns: "str_bytes s = utf8_text ns" "\<forall>n \<in> set ns. scalar_value n \<and> n \<noteq> 0" "utf8_points (str_bytes s) = ns"
    using text_points [OF assms] by blast
  let ?body = "concat (map (print_point flags) ns)"
  have b: "print_body flags (str_bytes s) = ?body" by (simp add: print_body_def ns(3))
  have "escaped ?body" using ns(2) by (induction ns) (simp_all add: escaped_nil print_point_escaped)
  then show "escaped (print_body flags (str_bytes s))" using b by simp
  show "printable (print_body flags (str_bytes s))" unfolding b using ns(2) by (intro printable_concat) (auto simp: printable_point)
  have "unescape cap (concat (map (print_point flags) ms) @ 0x22 # junk) t = Some (Inr (t @ utf8_text ms))"
    if "\<forall>n \<in> set ms. scalar_value n \<and> n \<noteq> 0" "length t + length (concat (map (print_point flags) ms)) < cap" for ms t
    using that
  proof (induction ms arbitrary: t)
    case (Cons n ms)
    have "length (utf8_char n) \<le> length (print_point flags n)" using Cons.prems(1) print_point_length by simp
    then show ?case using Cons by (simp add: print_point_unescape)
  qed (simp add: unescape_quote)
  from this [OF ns(2), of "[]"]
  show "length (print_body flags (str_bytes s)) < cap \<Longrightarrow>
      unescape cap (print_body flags (str_bytes s) @ 0x22 # junk) [] = Some (Inr (str_bytes s))" unfolding b unfolding ns(1) by simp
qed

end
