(* ===== verification/Json_Exact.thy ===== *)
theory Json_Exact
  imports Json_Unescape
begin

text \<open>
  \<open>lex_scan\<close> on an input of which the next bytes are known: white space and a token. It returns that
  token with its value and stands behind it. This is the other direction of \<open>Json_Scan\<close>, which is
  about arbitrary input.
\<close>

section \<open>Reading known bytes\<close>

text \<open>The first character of a text does not belong to the class \<open>P\<close>.\<close>

definition stops_at :: "(int \<Rightarrow> bool) \<Rightarrow> byte list \<Rightarrow> bool" where
  "stops_at P bs \<longleftrightarrow> (case bs of [] \<Rightarrow> True | b # _ \<Rightarrow> \<not> P (sint b))"

definition number_end_char :: "int \<Rightarrow> bool" where
  "number_end_char c \<longleftrightarrow> l_isdigit c \<or> c = 0x2E \<or> c = 0x45 \<or> c = 0x65"

lemma stops_at_mono: "stops_at P bs \<Longrightarrow> (\<And>c. Q c \<Longrightarrow> P c) \<Longrightarrow> stops_at Q bs"
  by (auto simp: stops_at_def split: list.splits)

lemma stops_at_fraction: "fraction_bytes fr \<Longrightarrow> stops_at l_isdigit rest \<Longrightarrow> stops_at l_isdigit (fr @ rest)"
  by (auto simp: fraction_bytes_def stops_at_def l_isdigit_def)

lemma stops_at_exponent: "exponent_bytes ex \<Longrightarrow> stops_at number_end_char rest \<Longrightarrow> stops_at (\<lambda>c. l_isdigit c \<or> c = 0x2E) (ex @ rest)"
  by (auto simp: exponent_bytes_def stops_at_def l_isdigit_def number_end_char_def split: list.splits)

definition blank :: "byte \<Rightarrow> bool" where
  "blank b \<longleftrightarrow> b = 0x20 \<or> b = 0x09 \<or> b = 0x0A \<or> b = 0x0D"

lemma blank_sint: "blank b \<longleftrightarrow> sint b = 0x20 \<or> sint b = 0x09 \<or> sint b = 0x0A \<or> sint b = 0x0D"
  by (auto simp: blank_def sint_lit)

lemma digit_ascii: "l_isdigit (sint (b :: byte)) \<Longrightarrow> unat b < 128"
  using sint_ascii [of b] by (simp add: l_isdigit_def)

lemma eof_class: "\<not> l_isdigit STREAM_STATE_EOF" "\<not> l_isalpha STREAM_STATE_EOF"
  by (simp_all add: stream_state_defs l_is_defs)

context byte_source
begin

text \<open>The character \<open>c\<close> was read at \<open>lx0\<close>, where the bytes \<open>bs\<close> were ahead.\<close>

definition reading :: "lex_t \<Rightarrow> int \<Rightarrow> lex_t \<Rightarrow> byte list \<Rightarrow> bool" where
  "reading lx0 c lx bs \<longleftrightarrow> fronts lx0 bs \<and> reads True lx0 c lx"

lemma fronts_ok: "fronts lx bs \<Longrightarrow> lex_ok lx"
  by (simp add: fronts_def)

lemma faces_ok: "faces lx bs \<Longrightarrow> lex_ok lx" "faces lx bs \<Longrightarrow> aligned lx"
  by (simp_all add: faces_def fronts_def)

lemma fronts_fields [simp]: "fronts (lx\<lparr>token := t\<rparr>) bs = fronts lx bs" "fronts (lx\<lparr>lex_val := v\<rparr>) bs = fronts lx bs"
  by (simp_all add: fronts_def)

lemma get_save_reading: "fronts lx bs \<Longrightarrow> \<exists>c lx'. lex_get_save lx = Some (c, lx') \<and> reading lx c lx' bs"
  using lex_get_save_reads fronts_ok by (auto simp: reading_def)

lemma reading_byte:
  assumes "reading lx0 c lx (b # bs)"
  shows "c = sint b" "reads_byte True lx0 b lx" "fronts lx bs" "saved lx = saved lx0 @ [b]" "same_token lx0 lx"
proof -
  have f: "fronts lx0 (b # bs)" "reads True lx0 c lx" using assms by (simp_all add: reading_def)
  then obtain b' where b': "c = sint b'" "reads_byte True lx0 b' lx" using fronts_end(1) [OF f(1)] by (auto simp: reads_def)
  then have "b' = b" using fronts_byte(1) [OF f(1)] by blast
  then show "c = sint b" "reads_byte True lx0 b lx" using b' by simp_all
  then show "fronts lx bs" "saved lx = saved lx0 @ [b]" "same_token lx0 lx"
    using fronts_byte(2) [OF f(1)] reads_byteE(2,5) by auto
qed

lemma reading_nil:
  assumes "reading lx0 c lx []"
  shows "c = STREAM_STATE_EOF" "fronts lx []"
proof -
  have f: "fronts lx0 []" "reads True lx0 c lx" using assms by (simp_all add: reading_def)
  then have "reads_end lx0 c lx" using reads_byteE(3,7) by (fastforce simp: reads_def fronts_def stream_state_defs)
  then show "c = STREAM_STATE_EOF" "fronts lx []" using fronts_end [OF f(1)] by blast+
qed

lemma reading_next:
  assumes "reading lx0 c lx (b # bs)"
  obtains c1 lx1 where "lex_get_save lx = Some (c1, lx1)" "reading lx c1 lx1 bs"
  using get_save_reading [OF reading_byte(3) [OF assms]] by blast

section \<open>Strings\<close>

lemma xdigits_exact:
  assumes "reading lx0 c lx (hs @ bs)" "\<forall>h \<in> set hs. l_isxdigit (sint h)"
  shows "\<exists>lx1 c' lx'. lex_xdigits (length hs) c lx = Some (True, c', lx') \<and> reading lx1 c' lx' bs \<and>
    saved lx1 = saved lx0 @ hs \<and> same_token lx0 lx1"
  using assms
proof (induction hs arbitrary: lx0 c lx)
  case (Cons h hs)
  have r: "reading lx0 c lx (h # hs @ bs)" using Cons.prems(1) by simp
  obtain c1 lx1 where g: "lex_get_save lx = Some (c1, lx1)" "reading lx c1 lx1 (hs @ bs)" using reading_next [OF r] .
  obtain lx2 c' lx' where "lex_xdigits (length hs) c1 lx1 = Some (True, c', lx')" "reading lx2 c' lx' bs"
    "saved lx2 = saved lx @ hs" "same_token lx lx2" using Cons.IH [OF g(2)] Cons.prems(2) by auto
  moreover have "l_isxdigit c" using reading_byte(1) [OF r] Cons.prems(2) by simp
  ultimately show ?case
    using g(1) reading_byte(4) [OF r] same_token_trans [OF reading_byte(5) [OF r], of lx2]
    by (intro exI [of _ lx2] exI [of _ c'] exI [of _ lx']) simp
qed auto

lemma raw_sint: "raw_byte b \<Longrightarrow> unat b < 245 \<Longrightarrow> sint b \<noteq> 0x22 \<and> sint b \<noteq> 0x5C \<and> \<not> (0 \<le> sint b \<and> sint b \<le> 0x1F) \<and>
    sint b \<noteq> STREAM_STATE_ERROR \<and> sint b \<noteq> STREAM_STATE_EOF"
proof -
  assume *: "raw_byte b" "unat b < 245"
  have "\<not> (0 \<le> sint b \<and> sint b \<le> 0x1F)"
  proof
    assume s: "0 \<le> sint b \<and> sint b \<le> 0x1F"
    then have "unat b < 128" using sint_ascii by blast
    then have "sint b = int (unat b)" by (rule sint_byte_ascii)
    then have "unat b \<le> 31" using s by linarith
    then show False using *(1) by (simp add: raw_byte_def)
  qed
  then show ?thesis using * sint_byte_states [of b] by (auto simp: raw_byte_def sint_lit)
qed

lemma string_loop_exact:
  assumes "escaped body" "reading lx0 c lx (body @ 0x22 # rest)"
  shows "\<exists>lx'. lex_string_loop c lx = Some (True, lx') \<and> saved lx' = saved lx0 @ body @ [0x22] \<and> fronts lx' rest \<and> same_token lx0 lx'"
  using assms
proof (induction body arbitrary: lx0 c lx rule: escaped.induct)
  case escaped_nil
  then have r: "reading lx0 c lx (0x22 # rest)" by simp
  then show ?case using reading_byte [OF r] by (subst lex_string_loop.simps) simp
next
  case (escaped_raw b bs)
  have r: "reading lx0 c lx (b # bs @ 0x22 # rest)" using escaped_raw.prems by simp
  note b = reading_byte [OF r]
  obtain c1 lx1 where g: "lex_get_save lx = Some (c1, lx1)" "reading lx c1 lx1 (bs @ 0x22 # rest)" using reading_next [OF r] .
  have "lex_string_loop c lx = lex_string_loop c1 lx1"
    using raw_sint [OF escaped_raw(1) reads_byteE(6) [OF b(2)]] b(1) g(1) by (subst lex_string_loop.simps) auto
  then show ?case using escaped_raw.IH [OF g(2)] b(4) same_token_trans [OF b(5)] by auto
next
  case (escaped_short e bs)
  have r: "reading lx0 c lx (0x5C # e # bs @ 0x22 # rest)" using escaped_short.prems by simp
  note b = reading_byte [OF r]
  obtain c1 lx1 where g: "lex_get_save lx = Some (c1, lx1)" "reading lx c1 lx1 (e # bs @ 0x22 # rest)" using reading_next [OF r] .
  note b1 = reading_byte [OF g(2)]
  obtain c2 lx2 where g2: "lex_get_save lx1 = Some (c2, lx2)" "reading lx1 c2 lx2 (bs @ 0x22 # rest)" using reading_next [OF g(2)] .
  have "lex_string_loop c lx = lex_string_loop c2 lx2"
    using b(1) g(1) b1(1) g2(1) escaped_short(1)
    by (subst lex_string_loop.simps) (auto simp: stream_state_defs short_escape_def split: if_splits)
  then show ?case
    using escaped_short.IH [OF g2(2)] b(4) b1(4) same_token_trans [OF same_token_trans [OF b(5) b1(5)]] by auto
next
  case (escaped_unicode hs bs)
  have r: "reading lx0 c lx (0x5C # 0x75 # hs @ bs @ 0x22 # rest)" using escaped_unicode.prems by simp
  note b = reading_byte [OF r]
  obtain c1 lx1 where g: "lex_get_save lx = Some (c1, lx1)" "reading lx c1 lx1 (0x75 # hs @ bs @ 0x22 # rest)" using reading_next [OF r] .
  note b1 = reading_byte [OF g(2)]
  obtain c2 lx2 where g2: "lex_get_save lx1 = Some (c2, lx2)" "reading lx1 c2 lx2 (hs @ bs @ 0x22 # rest)" using reading_next [OF g(2)] .
  have hs: "length hs = 4" "\<forall>h \<in> set hs. l_isxdigit (sint h)" using escaped_unicode(1) by (simp_all add: hex_bytes_def)
  obtain lx3 c' lx' where x: "lex_xdigits 4 c2 lx2 = Some (True, c', lx')" "reading lx3 c' lx' (bs @ 0x22 # rest)"
    "saved lx3 = saved lx1 @ hs" "same_token lx1 lx3" using xdigits_exact [OF g2(2) hs(2)] hs(1) by auto
  have "lex_string_loop c lx = lex_string_loop c' lx'"
    using b(1) g(1) b1(1) g2(1) x(1) by (subst lex_string_loop.simps) (simp add: stream_state_defs)
  then show ?case
    using escaped_unicode.IH [OF x(2)] b(4) b1(4) x(3) same_token_trans [OF same_token_trans [OF same_token_trans [OF b(5) b1(5)] x(4)]]
    by auto
qed

lemma scan_string_exact:
  assumes ok: "fronts lx (body @ 0x22 # rest)" "saved lx = [0x22]" "whole lx" and body: "escaped body"
    and str: "\<And>cap junk. length body < cap \<Longrightarrow> unescape cap (body @ 0x22 # junk) [] = Some (Inr str)"
  shows "\<exists>lx'. lex_scan_string lx = Some lx' \<and> token lx' = TOKEN_STRING \<and> lex_val lx' = Value_string (Some str) \<and> faces lx' rest"
proof -
  let ?lx = "lx\<lparr>lex_val := Value_string None, token := TOKEN_INVALID\<rparr>"
  obtain c lx1 where g: "lex_get_save ?lx = Some (c, lx1)" "reading ?lx c lx1 (body @ 0x22 # rest)"
    using get_save_reading [of ?lx "body @ 0x22 # rest"] ok(1) by auto
  obtain lx2 where l: "lex_string_loop c lx1 = Some (True, lx2)" "saved lx2 = 0x22 # body @ [0x22]" "fronts lx2 rest"
    using string_loop_exact [OF body g(2)] ok(2) by auto
  have sb: "strbuffer_ok (saved_text lx2)" using fronts_ok [OF l(3)] by (simp add: lex_ok_def)
  then obtain junk where j: "strbuffer_value (saved_text lx2) = saved lx2 @ 0 # junk" using strbuffer.chars_ok by blast
  have "sb_length (saved_text lx2) = length body + 2" using length_contents [OF sb] l(2) by simp
  then have "unescape (sb_length (saved_text lx2) + 1) (drop 1 (strbuffer_value (saved_text lx2))) [] = Some (Inr str)"
    using str [of "Suc (Suc (Suc (length body)))" "0 # junk"] j l(2) by simp
  then have eq: "lex_scan_string lx = Some (lx2\<lparr>lex_val := Value_string (Some str), token := TOKEN_STRING\<rparr>)"
    using g(1) l(1) by (simp add: lex_scan_string_def)
  then have "aligned lx2" using lex_scan_string_ok [OF fronts_ok [OF ok(1)] ok(2,3)] by (simp add: scanned_def token_defs)
  then show ?thesis using eq l(3) by (simp add: faces_def)
qed

section \<open>Numbers\<close>

lemma reading_collects:
  assumes "reading lx0 c lx (b # bs)" "unat b < 128"
  shows "collects lx0 [b] lx"
  by (rule collects_byte [OF reading_byte(2) [OF assms(1)] assms(2)])

lemma reading_stops: "reading lx0 c lx bs \<Longrightarrow> stops_at P bs \<Longrightarrow> \<not> P STREAM_STATE_EOF \<Longrightarrow> \<not> P c"
  by (cases bs) (auto simp: stops_at_def dest: reading_nil(1) reading_byte(1))

text \<open>A piece of a number that is read.\<close>

definition reads_piece :: "lex_t \<Rightarrow> byte list \<Rightarrow> byte list \<Rightarrow> (bool \<times> int \<times> lex_t) option \<Rightarrow> bool" where
  "reads_piece lx0 ds rest res \<longleftrightarrow> (\<exists>lx1 c' lx'. res = Some (True, c', lx') \<and> collects lx0 ds lx1 \<and> reading lx1 c' lx' rest)"

lemma while_exact:
  assumes f: "\<And>c lx. f c lx = (if P c then Option.bind (lex_get_save lx) (\<lambda>r. let (c, lx) = r in f c lx) else Some (c, lx))"
    and P: "\<And>c. P c \<Longrightarrow> 0 \<le> c" "\<not> P STREAM_STATE_EOF"
    and r: "reading lx0 c lx (ds @ rest)" "\<forall>b \<in> set ds. P (sint b)" "stops_at P rest"
  shows "\<exists>lx1 c' lx'. f c lx = Some (c', lx') \<and> collects lx0 ds lx1 \<and> reading lx1 c' lx' rest"
  using r
proof (induction ds arbitrary: lx0 c lx)
  case Nil
  then have "\<not> P c" using reading_stops [of lx0 c lx rest P] P(2) by simp
  then have "f c lx = Some (c, lx)" by (subst f) simp
  moreover have "lex_ok lx0" using Nil.prems(1) fronts_ok by (auto simp: reading_def)
  ultimately show ?case using Nil.prems(1) collects_refl by auto
next
  case (Cons d ds)
  have r: "reading lx0 c lx (d # ds @ rest)" using Cons.prems(1) by simp
  have d: "P (sint d)" "\<forall>b \<in> set ds. P (sint b)" using Cons.prems(2) by simp_all
  have a: "unat d < 128" using P(1) [OF d(1)] by (simp only: sint_ascii)
  obtain c1 lx1 where g: "lex_get_save lx = Some (c1, lx1)" "reading lx c1 lx1 (ds @ rest)" using reading_next [OF r] .
  have "f c lx = f c1 lx1" using reading_byte(1) [OF r] d(1) g(1) by (subst f) simp
  then show ?case using Cons.IH [OF g(2) d(2) Cons.prems(3)] collects_trans [OF reading_collects [OF r a]] by force
qed

lemma digits_exact:
  assumes "reading lx0 c lx (ds @ rest)" "digit_bytes ds" "stops_at l_isdigit rest"
  shows "\<exists>lx1 c' lx'. lex_digits c lx = Some (c', lx') \<and> collects lx0 ds lx1 \<and> reading lx1 c' lx' rest"
  by (rule while_exact [where f = lex_digits, OF lex_digits.simps _ eof_class(1) assms(1) _ assms(3)])
    (use assms(2) in \<open>simp_all add: digit_bytes_def l_isdigit_def\<close>)

text \<open>All digits from the digit that was read last on.\<close>

lemma piece_digits_exact:
  assumes pre: "collects lx0 pre lx1" and r: "reading lx1 c lx (ds @ rest)" "digit_bytes ds" "ds \<noteq> []" "stops_at l_isdigit rest"
  shows "reads_piece lx0 (pre @ ds) rest (do { (c, lx) \<leftarrow> lex_get_save lx; (c, lx) \<leftarrow> lex_digits c lx; Some (True, c, lx) })"
proof -
  obtain d ds' where ds: "ds = d # ds'" using r(3) by (cases ds) auto
  have c: "l_isdigit c" using reading_byte(1) [of lx1 c lx d] r(1,2) ds by (simp add: digit_bytes_def)
  obtain lx2 c' lx' where d: "lex_digits c lx = Some (c', lx')" "collects lx1 ds lx2" "reading lx2 c' lx' rest"
    using digits_exact [OF r(1,2,4)] by blast
  have "(do { (c, lx) \<leftarrow> lex_get_save lx; (c, lx) \<leftarrow> lex_digits c lx; Some (True, c, lx) }) = Some (True, c', lx')"
    using get_digits [OF c, of lx "\<lambda>(c, lx). Some (True, c, lx)"] d(1) by simp
  then show ?thesis using collects_trans [OF pre d(2)] d(3) unfolding reads_piece_def by blast
qed

lemma int_part_exact:
  assumes r: "reading lx0 c lx (ds @ rest)" and ds: "digit_bytes ds" "ds \<noteq> []" "ds = [0x30] \<or> hd ds \<noteq> 0x30" and st: "stops_at l_isdigit rest"
  shows "reads_piece lx0 ds rest (lex_int_part lx c)"
proof -
  obtain d ds' where d: "ds = d # ds'" using ds(2) by (cases ds) auto
  have r': "reading lx0 c lx (d # ds' @ rest)" using r d by simp
  have c: "c = sint d" "l_isdigit c" using reading_byte(1) [OF r'] ds(1) d by (simp_all add: digit_bytes_def)
  have ok: "lex_ok lx0" using r fronts_ok by (auto simp: reading_def)
  show ?thesis
  proof (cases "c = 0x30")
    case True
    then have "ds = [0x30]" using ds(3) d c(1) by (auto simp: sint_lit)
    then have one: "d = 0x30" "ds' = []" using d by simp_all
    obtain c1 lx1 where g: "lex_get_save lx = Some (c1, lx1)" "reading lx c1 lx1 rest" using reading_next [OF r'] one by auto
    have "\<not> l_isdigit c1" using reading_stops [OF g(2) st eof_class(1)] .
    moreover have "collects lx0 ds lx" using reading_collects [OF r'] one d by simp
    ultimately show ?thesis using True g by (auto simp: lex_int_part_def reads_piece_def)
  next
    case False
    then show ?thesis using c(2) piece_digits_exact [OF collects_refl [OF ok] r ds(1,2) st] by (simp add: lex_int_part_def)
  qed
qed

lemma fraction_exact:
  assumes r: "reading lx0 c lx (fr @ rest)" and fr: "fraction_bytes fr" and st: "stops_at (\<lambda>c. l_isdigit c \<or> c = 0x2E) rest"
  shows "reads_piece lx0 fr rest (lex_fraction lx c)"
proof (cases "fr = []")
  case True
  then have "c \<noteq> 0x2E" using r reading_stops [OF _ st] eof_class by (auto simp: stream_state_defs)
  moreover have "lex_ok lx0" using r fronts_ok by (auto simp: reading_def)
  ultimately show ?thesis using r True collects_refl by (auto simp: lex_fraction_def reads_piece_def)
next
  case False
  then obtain d ds where ds: "digit_bytes (d # ds)" "fr = 0x2E # d # ds"
    using fr by (auto simp: fraction_bytes_def neq_Nil_conv)
  have st': "stops_at l_isdigit rest" using st by (auto simp: stops_at_def split: list.splits)
  have r': "reading lx0 c lx (0x2E # d # ds @ rest)" using r ds(2) by simp
  note b = reading_byte [OF r']
  obtain c1 lx1 where g: "lex_get lx = Some (c1, lx1)" "reads False lx c1 lx1"
    using stream_get_reads [OF fronts_ok [OF b(3)]] by (auto simp: lex_get_def)
  obtain b1 where b1: "c1 = sint b1" "reads_byte False lx b1 lx1"
    using g(2) fronts_end(1) [OF b(3)] by (auto simp: reads_def)
  have "b1 = d" using fronts_byte(1) [OF b(3) b1(2)] .
  then have c1: "l_isdigit c1" using b1(1) ds(1) by (simp add: digit_bytes_def)
  obtain lx2 where s: "lex_save lx1 c1 = Some lx2" "reads_byte True lx b1 lx2"
    using lex_save_reads [OF fronts_ok [OF b(3)] b1(2)] b1(1) by blast
  have r2: "reading lx c1 lx2 ((d # ds) @ rest)" using b(3) s(2) b1(1) by (auto simp: reading_def reads_def)
  have "reads_piece lx0 ([0x2E] @ d # ds) rest (do { (c, lx) \<leftarrow> lex_get_save lx2; (c, lx) \<leftarrow> lex_digits c lx; Some (True, c, lx) })"
    using piece_digits_exact [OF reading_collects [OF r'] r2 ds(1) _ st'] by simp
  then show ?thesis using b(1) g(1) c1 s(1) ds(2) by (simp add: lex_fraction_def)
qed

lemma exponent_exact:
  assumes r: "reading lx0 c lx (ex @ rest)" and ex: "exponent_bytes ex" and st: "stops_at (\<lambda>c. l_isdigit c \<or> c = 0x45 \<or> c = 0x65) rest"
  shows "reads_piece lx0 ex rest (lex_exponent lx c)"
proof (cases "ex = []")
  case True
  then have "\<not> (c = 0x45 \<or> c = 0x65)" using r reading_stops [OF _ st] eof_class by (auto simp: stream_state_defs)
  moreover have "lex_ok lx0" using r fronts_ok by (auto simp: reading_def)
  ultimately show ?thesis using r True collects_refl by (auto simp: lex_exponent_def reads_piece_def)
next
  case False
  then obtain e sg ds where ds: "digit_bytes ds" "ds \<noteq> []" "e = 0x45 \<or> e = 0x65" "sg = [] \<or> sg = [0x2B] \<or> sg = [0x2D]" "ex = e # sg @ ds"
    using ex unfolding exponent_bytes_def by blast
  have st': "stops_at l_isdigit rest" using st by (auto simp: stops_at_def split: list.splits)
  have r': "reading lx0 c lx (e # sg @ ds @ rest)" using r ds(5) by simp
  have e: "collects lx0 [e] lx" using reading_collects [OF r'] ds(3) by auto
  have c: "c = 0x45 \<or> c = 0x65" using reading_byte(1) [OF r'] ds(3) by auto
  obtain c1 lx1 where g: "lex_get_save lx = Some (c1, lx1)" "reading lx c1 lx1 (sg @ ds @ rest)" using reading_next [OF r'] .
  obtain lx2 c2 lx3 where 2: "(if c1 = 0x2B \<or> c1 = 0x2D then lex_get_save lx1 else Some (c1, lx1)) = Some (c2, lx3)"
    "collects lx0 ([e] @ sg) lx2" "reading lx2 c2 lx3 (ds @ rest)"
  proof (cases "sg = []")
    case True
    obtain d ds' where d: "ds = d # ds'" using ds(2) by (cases ds) auto
    then have "l_isdigit c1" using g(2) True reading_byte(1) [of lx c1 lx1 d] ds(1) by (simp add: digit_bytes_def)
    then have "\<not> (c1 = 0x2B \<or> c1 = 0x2D)" by (auto simp: l_isdigit_def)
    then show thesis using that [of c1 lx1 lx] g(2) True e by simp
  next
    case False
    then obtain b where b: "sg = [b]" "b = 0x2B \<or> b = 0x2D" using ds(4) by auto
    have r1: "reading lx c1 lx1 (b # ds @ rest)" using g(2) b(1) by simp
    obtain c2 lx3 where "lex_get_save lx1 = Some (c2, lx3)" "reading lx1 c2 lx3 (ds @ rest)" using reading_next [OF r1] .
    moreover have "c1 = 0x2B \<or> c1 = 0x2D" using reading_byte(1) [OF r1] b(2) by auto
    moreover have "collects lx [b] lx1" using reading_collects [OF r1] b(2) by auto
    ultimately show thesis using that [of c2 lx3 lx1] collects_trans [OF e, of "[b]" lx1] b(1) by auto
  qed
  obtain d ds' where d: "ds = d # ds'" using ds(2) by (cases ds) auto
  then have "l_isdigit c2" using 2(3) reading_byte(1) [of lx2 c2 lx3 d] ds(1) by (simp add: digit_bytes_def)
  then have "lex_exponent lx c = do { (c, lx) \<leftarrow> lex_get_save lx3; (c, lx) \<leftarrow> lex_digits c lx; Some (True, c, lx) }"
    using c g(1) 2(1) by (auto simp: lex_exponent_def)
  then show ?thesis using piece_digits_exact [OF 2(2,3) ds(1,2) st'] ds(5) by simp
qed

lemma number_start:
  assumes f: "fronts lx0 (sign_bytes neg @ ds @ rest)" "reads True lx0 c lx"
    and ds: "digit_bytes ds" "ds \<noteq> []" "ds = [0x30] \<or> hd ds \<noteq> 0x30" and st: "stops_at l_isdigit rest"
  shows "\<exists>lx1 c' lx'. collects (lx0\<lparr>token := TOKEN_INVALID\<rparr>) (sign_bytes neg @ ds) lx1 \<and> reading lx1 c' lx' rest \<and>
    lex_scan_number uflow lx c =
      (if c' \<noteq> 0x2E \<and> c' \<noteq> 0x45 \<and> c' \<noteq> 0x65 then lex_integer lx' c' else lex_real uflow lx' c')"
proof -
  let ?start = "lx0\<lparr>token := TOKEN_INVALID\<rparr>" and ?lx = "lx\<lparr>token := TOKEN_INVALID\<rparr>"
  have r0: "reading ?start c ?lx (sign_bytes neg @ ds @ rest)" using f reads_token by (simp add: reading_def)
  obtain lx1 c1 lx2 where s: "(if c = 0x2D then lex_get_save ?lx else Some (c, ?lx)) = Some (c1, lx2)"
    "collects ?start (sign_bytes neg) lx1" "reading lx1 c1 lx2 (ds @ rest)"
  proof (cases neg)
    case False
    obtain d ds' where "ds = d # ds'" using ds(2) by (cases ds) auto
    then have "l_isdigit c" using r0 False reading_byte(1) [of ?start c ?lx d] ds(1) by (simp add: digit_bytes_def sign_bytes_def)
    then have "c \<noteq> 0x2D" by (auto simp: l_isdigit_def)
    then show thesis using that [of c ?lx ?start] r0 False collects_refl [of ?start] fronts_ok [OF f(1)] by (simp add: sign_bytes_def)
  next
    case True
    then have r: "reading ?start c ?lx (0x2D # ds @ rest)" using r0 by (simp add: sign_bytes_def)
    obtain c1 lx2 where "lex_get_save ?lx = Some (c1, lx2)" "reading ?lx c1 lx2 (ds @ rest)" using reading_next [OF r] .
    moreover have "c = 0x2D" using reading_byte(1) [OF r] by simp
    moreover have "collects ?start [0x2D] ?lx" using reading_collects [OF r] by simp
    ultimately show thesis using that [of c1 lx2 ?lx] True by (simp add: sign_bytes_def)
  qed
  obtain lx3 c' lx' where i: "lex_int_part lx2 c1 = Some (True, c', lx')" "collects lx1 ds lx3" "reading lx3 c' lx' rest"
    using int_part_exact [OF s(3) ds st] by (auto simp: reads_piece_def)
  then show ?thesis
    using s(1) collects_trans [OF s(2) i(2)]
    by (intro exI [of _ lx3] exI [of _ c'] exI [of _ lx']) (simp add: lex_scan_number_def)
qed

text \<open>The result of a number token.\<close>

definition number_read :: "(int \<times> lex_t) option \<Rightarrow> int \<Rightarrow> lex_value \<Rightarrow> byte list \<Rightarrow> bool" where
  "number_read res t v rest \<longleftrightarrow> (\<exists>r lx'. res = Some (r, lx') \<and> token lx' = t \<and> lex_val lx' = v \<and> faces lx' rest)"

lemma scan_integer_exact:
  assumes f: "faces lx0 (sign_bytes neg @ ds @ rest)" "reads True lx0 c lx" "saved lx0 = []"
    and ds: "digit_bytes ds" "ds \<noteq> []" "ds = [0x30] \<or> hd ds \<noteq> 0x30" and st: "stops_at number_end_char rest" "0 \<notin> set rest"
    and v: "v = signed_value neg (dec_value (map char_of_byte ds))" "- (2 ^ 63) \<le> v" "v < 2 ^ 63"
  shows "number_read (lex_scan_number uflow lx c) TOKEN_INTEGER (Value_integer v) rest"
proof -
  let ?start = "lx0\<lparr>token := TOKEN_INVALID\<rparr>"
  have fr: "fronts lx0 (sign_bytes neg @ ds @ rest)" "aligned lx0" using f(1) by (simp_all add: faces_def)
  have st': "stops_at l_isdigit rest" by (rule stops_at_mono [OF st(1)]) (simp add: number_end_char_def)
  obtain lx1 c' lx' where n: "collects ?start (sign_bytes neg @ ds) lx1" "reading lx1 c' lx' rest"
    "lex_scan_number uflow lx c = (if c' \<noteq> 0x2E \<and> c' \<noteq> 0x45 \<and> c' \<noteq> 0x65 then lex_integer lx' c' else lex_real uflow lx' c')"
    using number_start [OF fr(1) f(2) ds st'] by blast
  have "\<not> number_end_char c'"
    using reading_stops [OF n(2) st(1)] by (simp add: number_end_char_def stream_state_defs l_isdigit_def)
  then have eq: "lex_scan_number uflow lx c = lex_integer lx' c'" using n(3) by (simp add: number_end_char_def)
  have "faces lx1 rest" using n(1,2) fr(2) by (simp add: faces_def reading_def collects_def)
  moreover have "reads True lx1 c' lx'" using n(2) by (simp add: reading_def)
  ultimately show ?thesis
    using lex_integer_ok [OF refl ds(1,2) n(1)] f(3) fr(2) v st(2) unfolding number_read_def eq by fastforce
qed

lemma scan_real_exact:
  assumes f: "faces lx0 (sign_bytes neg @ ds @ fr @ ex @ rest)" "reads True lx0 c lx" "saved lx0 = []"
    and ds: "digit_bytes ds" "ds \<noteq> []" "ds = [0x30] \<or> hd ds \<noteq> 0x30" and st: "stops_at number_end_char rest" "0 \<notin> set rest"
    and p: "fraction_bytes fr" "exponent_bytes ex" "fr \<noteq> [] \<or> ex \<noteq> []"
    and v: "jsonp_strtod uflow (map char_of_byte (sign_bytes neg @ ds @ fr @ ex)) = Some (Ok d)"
  shows "number_read (lex_scan_number uflow lx c) TOKEN_REAL (Value_real d) rest"
proof -
  let ?start = "lx0\<lparr>token := TOKEN_INVALID\<rparr>"
  have fr: "fronts lx0 (sign_bytes neg @ ds @ fr @ ex @ rest)" "aligned lx0" using f(1) by (simp_all add: faces_def)
  have se: "stops_at (\<lambda>c. l_isdigit c \<or> c = 0x2E) (ex @ rest)" by (rule stops_at_exponent [OF p(2) st(1)])
  have "stops_at l_isdigit (ex @ rest)" by (rule stops_at_mono [OF se]) simp
  then have sf: "stops_at l_isdigit (fr @ ex @ rest)" by (rule stops_at_fraction [OF p(1)])
  have sr: "stops_at (\<lambda>c. l_isdigit c \<or> c = 0x45 \<or> c = 0x65) rest"
    by (rule stops_at_mono [OF st(1)]) (auto simp: number_end_char_def)
  obtain lx1 c1 lx2 where n: "collects ?start (sign_bytes neg @ ds) lx1" "reading lx1 c1 lx2 (fr @ ex @ rest)"
    "lex_scan_number uflow lx c = (if c1 \<noteq> 0x2E \<and> c1 \<noteq> 0x45 \<and> c1 \<noteq> 0x65 then lex_integer lx2 c1 else lex_real uflow lx2 c1)"
    using number_start [OF fr(1) f(2) ds sf] by blast
  obtain b bs where b: "fr @ ex @ rest = b # bs" "b = 0x2E \<or> b = 0x45 \<or> b = 0x65"
    using p by (auto simp: fraction_bytes_def exponent_bytes_def)
  have "c1 = 0x2E \<or> c1 = 0x45 \<or> c1 = 0x65" using n(2) reading_byte(1) [of lx1 c1 lx2 b bs] b by auto
  then have eq: "lex_scan_number uflow lx c = lex_real uflow lx2 c1" using n(3) by auto
  obtain lx3 c2 lx4 where 3: "lex_fraction lx2 c1 = Some (True, c2, lx4)" "collects lx1 fr lx3" "reading lx3 c2 lx4 (ex @ rest)"
    using fraction_exact [OF n(2) p(1) se] by (auto simp: reads_piece_def)
  obtain lx5 c3 lx6 where 5: "lex_exponent lx4 c2 = Some (True, c3, lx6)" "collects lx3 ex lx5" "reading lx5 c3 lx6 rest"
    using exponent_exact [OF 3(3) p(2) sr] by (auto simp: reads_piece_def)
  have all: "collects ?start (sign_bytes neg @ ds @ fr @ ex) lx5"
    using collects_trans [OF n(1) collects_trans [OF 3(2) 5(2)]] by simp
  have eq2: "lex_scan_number uflow lx c = lex_real_end uflow lx6 c3" using eq 3(1) 5(1) by (simp add: lex_real_def)
  have "faces lx5 rest" using all 5(3) fr(2) by (simp add: faces_def reading_def collects_def)
  moreover have "reads True lx5 c3 lx6" using 5(3) by (simp add: reading_def)
  ultimately show ?thesis
    using lex_real_end_ok [OF refl ds(1,2) p(1,2) all, of c3 lx6 uflow] f(3) fr(2) v st(2) unfolding number_read_def eq2 by fastforce
qed

section \<open>Tokens\<close>

lemma identifier_exact:
  assumes f: "fronts lx (bs @ rest)" "aligned lx" "saved lx = [b]" and l: "\<forall>b \<in> set (b # bs). l_isalpha (sint b)"
    and st: "stops_at l_isalpha rest" "0 \<notin> set rest"
  shows "\<exists>lx'. lex_identifier lx = Some lx' \<and> faces lx' rest \<and> token lx' =
    (let text = map char_of_byte (b # bs) in if text = ''true'' then TOKEN_TRUE else if text = ''false'' then TOKEN_FALSE
     else if text = ''null'' then TOKEN_NULL else TOKEN_INVALID)"
proof -
  obtain c lx1 where g: "lex_get_save lx = Some (c, lx1)" "reading lx c lx1 (bs @ rest)" using get_save_reading [OF f(1)] by blast
  have "\<exists>lx2 c' lx'. lex_letters c lx1 = Some (c', lx') \<and> collects lx bs lx2 \<and> reading lx2 c' lx' rest"
    by (rule while_exact [where f = lex_letters, OF lex_letters.simps _ eof_class(2) g(2) _ st(1)])
      (use l in \<open>auto simp: l_is_defs\<close>)
  then obtain lx2 c' lx3 where w: "lex_letters c lx1 = Some (c', lx3)" "collects lx bs lx2" "reading lx2 c' lx3 rest" by blast
  have 2: "lex_ok lx2" "saved lx2 = b # bs" "faces lx2 rest" "reads True lx2 c' lx3"
    using w(2,3) f(2,3) by (simp_all add: collects_def faces_def reading_def)
  obtain lx4 where u: "lex_unget_unsave lx3 c' = Some lx4" "moves lx2 lx4" "saved lx4 = b # bs" "faces lx4 rest"
    using unget_unsave_ok [OF 2(1,4)] 2(2,3) st(2) by auto
  have "0 \<notin> set (b # bs)" using l by (auto simp: l_is_defs)
  then have "saved_string lx4 = Some (map char_of_byte (b # bs))" using saved_string_ok [OF moves_ok [OF u(2)] u(3)] by simp
  then show ?thesis using g(1) w(1) u(1,4) by (simp add: lex_identifier_def Let_def)
qed

lemma spaces_exact:
  assumes "fronts lx0 (ws @ b # bs)" "reads False lx0 c lx" "\<forall>w \<in> set ws. blank w" "\<not> blank b"
  shows "\<exists>lx1 lx'. lex_spaces c lx = Some (sint b, lx') \<and> reads_byte False lx1 b lx' \<and> fronts lx1 (b # bs) \<and>
    saved lx1 = saved lx0 \<and> (aligned lx0 \<longrightarrow> aligned lx1)"
  using assms
proof (induction ws arbitrary: lx0 c lx)
  case Nil
  then obtain b' where b': "c = sint b'" "reads_byte False lx0 b' lx" using fronts_end(1) [of lx0 "b # bs"] by (auto simp: reads_def)
  then have "b' = b" using fronts_byte(1) Nil.prems(1) by simp
  moreover have "lex_spaces (sint b) lx = Some (sint b, lx)" using Nil.prems(4) by (subst lex_spaces.simps) (simp add: blank_sint)
  ultimately show ?case using b' Nil.prems(1) by auto
next
  case (Cons w ws)
  have f: "fronts lx0 (w # ws @ b # bs)" using Cons.prems(1) by simp
  then obtain w' where w': "c = sint w'" "reads_byte False lx0 w' lx"
    using fronts_end(1) [OF f] Cons.prems(2) by (auto simp: reads_def)
  have w: "w' = w" "fronts lx (ws @ b # bs)" using fronts_byte [OF f w'(2)] by simp_all
  have sp: "sint w = 0x20 \<or> sint w = 0x09 \<or> sint w = 0x0A \<or> sint w = 0x0D" using Cons.prems(3) by (simp add: blank_sint)
  have "unat w < 128" using Cons.prems(3) by (auto simp: blank_def)
  then have al: "aligned lx0 \<longrightarrow> aligned lx" using aligned_reads [OF _ w'(2)] w(1) by simp
  obtain c1 lx1 where g: "lex_get lx = Some (c1, lx1)" "reads False lx c1 lx1"
    using stream_get_reads [OF fronts_ok [OF w(2)]] by (auto simp: lex_get_def)
  have "lex_spaces c lx = lex_spaces c1 lx1" using w'(1) w(1) sp g(1) by (subst lex_spaces.simps) auto
  moreover have "saved lx = saved lx0" using reads_byteE(5) [OF w'(2)] by simp
  ultimately show ?case using Cons.IH [OF w(2) g(2) _ Cons.prems(4)] Cons.prems(3) al by auto
qed

text \<open>\<open>lex_scan\<close> up to the first character of the token.\<close>

lemma lex_scan_start:
  assumes f: "faces lx (ws @ b # bs)" "\<forall>w \<in> set ws. blank w" "\<not> blank b" "unat b < 128"
  obtains lx0 lx3 where "lex_scan uflow lx = lex_token uflow lx3 (sint b)" "faces lx0 (b # bs)" "saved lx0 = []"
    "reads_byte True lx0 b lx3" "fronts lx3 bs" "saved lx3 = [b]" "aligned lx3"
proof -
  obtain t where t: "strbuffer_clear (saved_text lx) = Some t" "lex_fresh lx (lex_free_value (lx\<lparr>saved_text := t\<rparr>))"
    "\<And>bs. faces lx bs \<Longrightarrow> faces (lex_free_value (lx\<lparr>saved_text := t\<rparr>)) bs"
    using lex_clear_ok [OF faces_ok(1) [OF f(1)]] by blast
  define lx1 where "lx1 = lex_free_value (lx\<lparr>saved_text := t\<rparr>)"
  have f1: "faces lx1 (ws @ b # bs)" "saved lx1 = []" using t(2,3) f(1) by (simp_all add: lx1_def lex_fresh_def)
  obtain c lx2 where g: "lex_get lx1 = Some (c, lx2)" "reads False lx1 c lx2"
    using stream_get_reads [OF faces_ok(1) [OF f1(1)]] by (auto simp: lex_get_def)
  obtain lx0 lx' where s: "lex_spaces c lx2 = Some (sint b, lx')" "reads_byte False lx0 b lx'" "fronts lx0 (b # bs)"
    "saved lx0 = []" "aligned lx0"
    using spaces_exact [OF _ g(2) f(2,3), of bs] f1 by (auto simp: faces_def)
  obtain lx3 where r: "lex_save lx' (sint b) = Some lx3" "reads_byte True lx0 b lx3"
    using lex_save_reads [OF fronts_ok [OF s(3)] s(2)] by blast
  have "lex_scan uflow lx = lex_token uflow lx3 (sint b)"
    using t(1) g(1) s(1) r(1) reads_byteE(11,12) [OF r(2)] by (simp add: lex_scan_def lx1_def)
  moreover have "faces lx0 (b # bs)" using s(3,5) by (simp add: faces_def)
  ultimately show thesis
    using that r(2) s(4) fronts_byte(2) [OF s(3) r(2)] reads_byteE(5) [OF r(2)] aligned_reads [OF s(5) r(2) f(4)] by simp
qed

text \<open>The token that \<open>lex_scan\<close> returns, with its value if it has one, and what follows it.\<close>

definition scans_to :: "uflow \<Rightarrow> lex_t \<Rightarrow> int \<Rightarrow> lex_value \<Rightarrow> byte list \<Rightarrow> bool" where
  "scans_to uflow lx t v rest \<longleftrightarrow> (\<exists>lx'. lex_scan uflow lx = Some lx' \<and> token lx' = t \<and> (v \<noteq> Value_unset \<longrightarrow> lex_val lx' = v) \<and>
     faces lx' rest)"

lemma scan_punct:
  assumes "faces lx (ws @ b # rest)" "\<forall>w \<in> set ws. blank w" "b \<in> {0x7B, 0x7D, 0x5B, 0x5D, 0x3A, 0x2C}"
  shows "scans_to uflow lx (sint b) Value_unset rest"
proof -
  have b: "\<not> blank b" "unat b < 128" "sint b \<in> {0x7B, 0x7D, 0x5B, 0x5D, 0x3A, 0x2C}" using assms(3) by (auto simp: blank_def)
  obtain lx0 lx3 where s: "lex_scan uflow lx = lex_token uflow lx3 (sint b)" "fronts lx3 rest" "aligned lx3"
    using lex_scan_start [OF assms(1,2) b(1,2)] by blast
  then have "lex_scan uflow lx = Some (lx3\<lparr>token := sint b\<rparr>)" using b(3) by (auto simp: lex_token_def)
  then show ?thesis using s(2,3) by (simp add: scans_to_def faces_def)
qed

lemma scan_string:
  assumes f: "faces lx (ws @ print_string flags (str_bytes s) @ rest)" "\<forall>w \<in> set ws. blank w" and s: "text_ok s"
  shows "scans_to uflow lx TOKEN_STRING (Value_string (Some (str_bytes s))) rest"
proof -
  let ?body = "print_body flags (str_bytes s)"
  have f': "faces lx (ws @ 0x22 # ?body @ 0x22 # rest)" using f(1) by (simp add: print_string_body)
  have nb: "\<not> blank 0x22" "unat (0x22 :: byte) < 128" by (simp_all add: blank_def)
  obtain lx0 lx3 where l: "lex_scan uflow lx = lex_token uflow lx3 (sint (0x22 :: byte))" "fronts lx3 (?body @ 0x22 # rest)"
    "saved lx3 = [0x22]" "aligned lx3" "reads_byte True lx0 0x22 lx3"
    using lex_scan_start [OF f' f(2) nb] by blast
  have "whole lx3" using l(3,4) reads_byteE(8) [OF l(5)] utf8_check_bytes_append [of "[0x22]" "pending lx3"] utf8_ascii_bytes [of "[0x22]"]
    by (simp add: whole_def aligned_def)
  then obtain lx' where "lex_scan_string lx3 = Some lx'" "token lx' = TOKEN_STRING" "lex_val lx' = Value_string (Some (str_bytes s))"
    "faces lx' rest"
    using scan_string_exact [OF l(2,3) _ print_body_ok(1) [OF s] print_body_ok(3) [OF s]] by blast
  then show ?thesis using l(1) by (simp add: scans_to_def lex_token_def)
qed

lemma scan_number:
  assumes f: "faces lx (ws @ b # bs)" "\<forall>w \<in> set ws. blank w" and b: "l_isdigit (sint b) \<or> b = 0x2D" and v: "v \<noteq> Value_unset"
    and n: "\<And>lx0 lx1. faces lx0 (b # bs) \<Longrightarrow> reads True lx0 (sint b) lx1 \<Longrightarrow> saved lx0 = [] \<Longrightarrow>
      number_read (lex_scan_number uflow lx1 (sint b)) t v rest"
  shows "scans_to uflow lx t v rest"
proof -
  have nb: "\<not> blank b" "unat b < 128" using b digit_ascii by (auto simp: blank_def l_isdigit_def)
  obtain lx0 lx3 where s: "lex_scan uflow lx = lex_token uflow lx3 (sint b)" "faces lx0 (b # bs)" "saved lx0 = []" "reads_byte True lx0 b lx3"
    using lex_scan_start [OF f nb] by blast
  have "reads True lx0 (sint b) lx3" using s(4) by (auto simp: reads_def)
  then obtain r lx' where "lex_scan_number uflow lx3 (sint b) = Some (r, lx')" "token lx' = t" "lex_val lx' = v" "faces lx' rest"
    using n [OF s(2) _ s(3)] unfolding number_read_def by blast
  moreover have "lex_token uflow lx3 (sint b) = do { (r, lx) \<leftarrow> lex_scan_number uflow lx3 (sint b); Some lx }"
    using b by (auto simp: lex_token_def l_isdigit_def)
  ultimately show ?thesis using s(1) v by (simp add: scans_to_def)
qed

lemma scan_word:
  assumes f: "faces lx (ws @ str_bytes s @ rest)" "\<forall>w \<in> set ws. blank w" and s: "s \<in> {''true'', ''false'', ''null''}"
    and st: "stops_at l_isalpha rest" "0 \<notin> set rest"
  shows "scans_to uflow lx (if s = ''true'' then TOKEN_TRUE else if s = ''false'' then TOKEN_FALSE else TOKEN_NULL) Value_unset rest"
proof -
  obtain b bs where b: "str_bytes s = b # bs" "\<forall>b \<in> set (b # bs). l_isalpha (sint b)" "\<not> blank b" "unat b < 128"
    using s by (auto simp: str_bytes_def byte_of_char_def l_is_defs blank_def)
  have f': "faces lx (ws @ b # bs @ rest)" using f(1) b(1) by simp
  obtain lx3 where l: "lex_scan uflow lx = lex_token uflow lx3 (sint b)" "fronts lx3 (bs @ rest)" "saved lx3 = [b]" "aligned lx3"
    using lex_scan_start [OF f' f(2) b(3,4)] by blast
  have t: "map char_of_byte (b # bs) = s" using b(1) by (simp add: str_bytes_def comp_def flip: b(1))
  have "lex_token uflow lx3 (sint b) = lex_identifier lx3" using b(2) by (auto simp: lex_token_def l_is_defs)
  moreover obtain lx' where "lex_identifier lx3 = Some lx'" "faces lx' rest" "token lx' =
      (let text = map char_of_byte (b # bs) in if text = ''true'' then TOKEN_TRUE else if text = ''false'' then TOKEN_FALSE
       else if text = ''null'' then TOKEN_NULL else TOKEN_INVALID)"
    using identifier_exact [OF l(2,4,3) b(2) st] by blast
  ultimately show ?thesis using l(1) s unfolding t scans_to_def by auto
qed

lemma scan_eof:
  assumes "faces lx []"
  shows "scans_to uflow lx TOKEN_EOF Value_unset []"
proof -
  obtain t where t: "strbuffer_clear (saved_text lx) = Some t" "lex_fresh lx (lex_free_value (lx\<lparr>saved_text := t\<rparr>))"
    "\<And>bs. faces lx bs \<Longrightarrow> faces (lex_free_value (lx\<lparr>saved_text := t\<rparr>)) bs"
    using lex_clear_ok [OF faces_ok(1) [OF assms]] by blast
  define lx1 where "lx1 = lex_free_value (lx\<lparr>saved_text := t\<rparr>)"
  have f1: "faces lx1 []" using t(3) assms by (simp add: lx1_def)
  obtain c lx2 where g: "lex_get lx1 = Some (c, lx2)" "reads False lx1 c lx2"
    using stream_get_reads [OF faces_ok(1) [OF f1]] by (auto simp: lex_get_def)
  have re: "reads_end lx1 c lx2" using g(2) f1 reads_byteE(3,7) by (fastforce simp: reads_def faces_def fronts_def stream_state_defs)
  have fr: "fronts lx1 []" using f1 by (simp add: faces_def)
  have e: "c = STREAM_STATE_EOF" "fronts lx2 []" "aligned lx2"
    using fronts_end [OF fr re] reads_endE(6) [OF re] by (simp_all add: aligned_def stream_state_defs)
  have "lex_spaces c lx2 = Some (c, lx2)" using e(1) by (subst lex_spaces.simps) (simp add: stream_state_defs)
  then have "lex_scan uflow lx = Some (lx2\<lparr>token := TOKEN_EOF\<rparr>)" using t(1) g(1) e(1) by (simp add: lex_scan_def lx1_def)
  then show ?thesis using e(2,3) by (simp add: scans_to_def faces_def)
qed

end

end
