(* ===== verification/Json_Roundtrip.thy ===== *)
theory Json_Roundtrip
  imports Json_Exact
begin

text \<open>
  Printing and loading again. For every well-formed value whose reals are zero or normal, and for every
  combination of flags, what \<open>json_loadb\<close> makes of the text of \<open>json_dumps\<close> is the value, with the members of
  its objects in the order in which they were printed.
\<close>

section \<open>What is loaded\<close>

function json_sorted :: "serials \<Rightarrow> nat \<Rightarrow> json \<Rightarrow> json" where
  "json_sorted serial flags (JArray xs) = JArray (map (json_sorted serial flags) xs)"
| "json_sorted serial flags (JObject kvs) = JObject (map (\<lambda>kv. (fst kv, json_sorted serial flags (snd kv))) (key_order serial flags kvs))"
| "json_sorted serial flags JNull = JNull"
| "json_sorted serial flags JTrue = JTrue"
| "json_sorted serial flags JFalse = JFalse"
| "json_sorted serial flags (JInteger i) = JInteger i"
| "json_sorted serial flags (JReal d) = JReal d"
| "json_sorted serial flags (JString s) = JString s"
  by pat_completeness auto
termination
proof (relation "measure (\<lambda>(serial, flags, v). weight v)")
  fix serial :: serials and flags :: nat and xs :: "json list" and x assume "x \<in> set xs"
  then have "weight x \<le> items_weight xs" by (induction xs) auto
  then show "((serial, flags, x), serial, flags, JArray xs) \<in> measure (\<lambda>(serial, flags, v). weight v)" by (simp add: weight_items del: weight.simps)
next
  fix serial :: serials and flags :: nat and kvs and kv assume "kv \<in> set (key_order serial flags kvs)"
  moreover have "weight (snd kv) \<le> pairs_weight ps" if "kv \<in> set ps" for ps using that by (induction ps) auto
  ultimately have "weight (snd kv) \<le> pairs_weight (key_order serial flags kvs)" by blast
  then show "((serial, flags, snd kv), serial, flags, JObject kvs) \<in> measure (\<lambda>(serial, flags, v). weight v)" by (simp add: weight_pairs del: weight.simps)
qed simp

text \<open>Without a flag that asks for an order the order of iteration is kept.\<close>

lemma json_sorted_id: "flags AND JSON_SORT_KEYS = 0 \<Longrightarrow> flags AND JSON_PRESERVE_ORDER = 0 \<Longrightarrow> json_sorted serial flags v = v"
proof (induction serial flags v rule: json_sorted.induct)
  case (1 serial flags xs)
  then show ?case by (simp add: map_idI)
next
  case (2 serial flags kvs)
  then have "key_order serial flags kvs = kvs" by (simp add: key_order_def)
  then show ?case using 2 by (simp add: map_idI)
qed simp_all

text \<open>The reals that survive: zero and the normal ones.\<close>

fun json_normal :: "json \<Rightarrow> bool" where
  "json_normal (JReal d) \<longleftrightarrow> dbl_normal d"
| "json_normal (JArray xs) \<longleftrightarrow> (\<forall>x \<in> set xs. json_normal x)"
| "json_normal (JObject kvs) \<longleftrightarrow> (\<forall>kv \<in> set kvs. json_normal (snd kv))"
| "json_normal _ \<longleftrightarrow> True"

section \<open>The texts of numbers as bytes\<close>

lemma byte_char_digit: "is_digit c \<Longrightarrow> l_isdigit (sint (byte_of_char c))"
  using digit_char [of "byte_of_char c"] by simp

lemma str_bytes_chars [simp]: "map char_of_byte (str_bytes s) = s"
  by (simp add: str_bytes_def comp_def)

lemma digits_bytes: "digits s \<Longrightarrow> digit_bytes (str_bytes s) \<and> str_bytes s \<noteq> []"
  by (auto simp: digits_def digit_bytes_def str_bytes_def byte_char_digit)

lemma byte_lits: "byte_of_char (CHR ''-'') = 0x2D" "byte_of_char (CHR ''+'') = 0x2B" "byte_of_char (CHR ''.'') = 0x2E"
  "byte_of_char (CHR ''E'') = 0x45" "byte_of_char (CHR ''e'') = 0x65" "byte_of_char (CHR ''0'') = 0x30"
  by (simp_all add: byte_of_char_def)

lemma byte_of_char_inject: "byte_of_char c = byte_of_char d \<longleftrightarrow> c = d"
  by (metis char_of_byte_of_char)

lemma sign_text_bytes: "str_bytes (sign_text neg) = sign_bytes neg"
  by (simp add: sign_text_def sign_bytes_def str_bytes_def byte_lits)

lemma fraction_text_bytes: "fraction_text s \<Longrightarrow> fraction_bytes (str_bytes s)"
  using digits_bytes by (auto simp: fraction_text_def fraction_bytes_def str_bytes_def byte_lits)

lemma exponent_text_bytes:
  assumes "exponent_text s"
  shows "exponent_bytes (str_bytes s)"
proof (cases "s = []")
  case False
  then obtain c sg ds where *: "digits ds" "c = CHR ''e'' \<or> c = CHR ''E''" "sg = [] \<or> sg = ''-'' \<or> sg = ''+''" "s = c # sg @ ds"
    using assms unfolding exponent_text_def by blast
  then show ?thesis unfolding exponent_bytes_def using digits_bytes [OF *(1)]
    by (intro disjI2 exI [of _ "byte_of_char c"] exI [of _ "str_bytes sg"] exI [of _ "str_bytes ds"])
      (auto simp: str_bytes_def byte_lits)
qed (simp add: exponent_bytes_def str_bytes_def)

lemma head_bytes: "s \<noteq> [] \<Longrightarrow> s = ''0'' \<or> hd s \<noteq> CHR ''0'' \<Longrightarrow> str_bytes s = [0x30] \<or> hd (str_bytes s) \<noteq> 0x30"
  using byte_of_char_inject [of _ "CHR ''0''"] by (cases s) (auto simp: str_bytes_def byte_lits)

lemma int_string_parts:
  "\<exists>ds. int_string i = sign_text (i < 0) @ ds \<and> digits ds \<and> (ds = ''0'' \<or> hd ds \<noteq> CHR ''0'') \<and>
    signed_value (i < 0) (dec_value ds) = i"
proof -
  let ?ds = "dec_string (nat \<bar>i\<bar>)"
  have z: "dec_string 0 = ''0''" by (simp add: dec_string.simps [of 0] char_of_def bit_simps)
  have "?ds = ''0'' \<or> hd ?ds \<noteq> CHR ''0''" using dec_string_head [of "nat \<bar>i\<bar>"] z by (cases "i = 0") auto
  moreover have "int_string i = sign_text (i < 0) @ ?ds" by (simp add: int_string_def sign_text_def)
  moreover have "signed_value (i < 0) (dec_value ?ds) = i" by (simp add: signed_value_def)
  ultimately show ?thesis using dec_string_digits by blast
qed

section \<open>Values\<close>

text \<open>A text that can follow a value.\<close>

definition follows :: "byte list \<Rightarrow> bool" where
  "follows rest \<longleftrightarrow> stops_at (\<lambda>c. number_end_char c \<or> l_isalpha c) rest \<and> 0 \<notin> set rest"

lemma follows_stops: "follows rest \<Longrightarrow> stops_at number_end_char rest" "follows rest \<Longrightarrow> stops_at l_isalpha rest"
  using stops_at_mono unfolding follows_def by (metis (mono_tags, lifting))+

abbreviation blanks :: "byte list \<Rightarrow> bool" where
  "blanks ws \<equiv> \<forall>w \<in> set ws. blank w"

lemma blanks_indent: "blanks (print_indent flags depth space)"
  by (auto simp: print_indent_def blank_def)

lemma follows_cons: "b \<in> {0x2C, 0x5D, 0x7D, 0x0A, 0x20} \<Longrightarrow> 0 \<notin> set bs \<Longrightarrow> follows (b # bs)"
  by (auto simp: follows_def stops_at_def number_end_char_def l_is_defs)

lemma indent_nonzero: "0 \<notin> set (print_indent flags depth space)"
  by (auto simp: print_indent_def)

lemma items_nonzero: "\<forall>t \<in> set ts. 0 \<notin> set t \<Longrightarrow> 0 \<notin> set (print_items flags depth ts)"
  by (induction ts) (simp_all add: indent_nonzero)

text \<open>A member of an object: the key, the separator and the text of the value.\<close>

definition member_text :: "nat \<Rightarrow> ('a \<Rightarrow> string) \<Rightarrow> ('a \<Rightarrow> byte list) \<Rightarrow> 'a \<Rightarrow> byte list" where
  "member_text flags key txt x = print_string flags (str_bytes (key x)) @ str_bytes (separator flags) @ txt x"

lemma printable_nonzero: "printable bs \<Longrightarrow> 0 \<notin> set bs"
  by (simp add: printable_def)

lemma distinct_key_order: "distinct (map fst (key_order serial flags kvs)) \<longleftrightarrow> distinct (map fst kvs)"
proof -
  have "mset (map fst (key_order serial flags kvs)) = mset (map fst kvs)" by (simp add: key_order_def)
  then show ?thesis by (metis mset_eq_imp_distinct_iff)
qed

lemma member_nonzero: "text_ok (key x) \<Longrightarrow> 0 \<notin> set (txt x) \<Longrightarrow> 0 \<notin> set (member_text flags key txt x)"
  using printable_string [of "key x" flags]
  by (auto simp: member_text_def printable_def separator_def str_bytes_def byte_of_char_def)

lemma follows_close:
  assumes "0 \<notin> set rest" "b \<in> {0x5D, 0x7D}"
  shows "follows (print_indent flags depth False @ b # rest)"
proof (cases "print_indent flags depth False")
  case Nil
  then show ?thesis using assms follows_cons by auto
next
  case (Cons c cs)
  then have "c = 0x0A" "0 \<notin> set cs" using indent_nonzero [of flags depth False] by (auto simp: print_indent_def split: if_splits)
  then show ?thesis using assms Cons follows_cons [of c "cs @ b # rest"] by auto
qed

context byte_source
begin

lemma faces_left: "faces lx bs \<Longrightarrow> left lx = length bs"
  by (auto simp: faces_def fronts_def left_def stream_state_defs)

text \<open>The printed value is scanned and parsed; the fuel is the one of \<open>Json_Safe\<close>.\<close>

definition first_token :: "int \<Rightarrow> bool" where
  "first_token t \<longleftrightarrow> t \<noteq> TOKEN_INVALID \<and> t \<noteq> TOKEN_EOF \<and> t \<noteq> 0x5D \<and> t \<noteq> 0x7D"

definition parses :: "uflow \<Rightarrow> nat \<Rightarrow> lex_t \<Rightarrow> json \<Rightarrow> byte list \<Rightarrow> bool" where
  "parses uflow lflags lx v rest \<longleftrightarrow> (\<exists>lx1. lex_scan uflow lx = Some lx1 \<and> first_token (token lx1) \<and> length rest \<le> left lx1 \<and>
     (token lx1 = 0x5B \<longleftrightarrow> json_is_array (Some v)) \<and> (token lx1 = 0x7B \<longleftrightarrow> json_is_object (Some v)) \<and>
     (\<forall>fuel. 3 * left lx1 + 5 \<le> fuel \<longrightarrow> (\<exists>lx2. parse_value fuel uflow lflags lx1 = Some (Some v, lx2) \<and> faces lx2 rest)))"

lemma parses_scalar:
  assumes "scans_to uflow lx t v rest" "first_token t" "t \<noteq> 0x5B" "t \<noteq> 0x7B"
    and "\<And>lx1 fuel. token lx1 = t \<Longrightarrow> (v \<noteq> Value_unset \<longrightarrow> lex_val lx1 = v) \<Longrightarrow> parse_value (Suc fuel) uflow lflags lx1 = Some (Some w, lx1)"
    and "\<not> json_is_array (Some w)" "\<not> json_is_object (Some w)"
  shows "parses uflow lflags lx w rest"
proof -
  obtain lx1 where s: "lex_scan uflow lx = Some lx1" "token lx1 = t" "v \<noteq> Value_unset \<longrightarrow> lex_val lx1 = v" "faces lx1 rest"
    using assms(1) unfolding scans_to_def by blast
  have "parse_value fuel uflow lflags lx1 = Some (Some w, lx1)" if "3 * left lx1 + 5 \<le> fuel" for fuel
    using that assms(5) [OF s(2,3), of "fuel - 1"] by (cases fuel) simp_all
  then show ?thesis using s assms(2-4,6,7) faces_left [OF s(4)] unfolding parses_def by auto
qed

lemma parses_word:
  assumes "faces lx (ws @ str_bytes s @ rest)" "blanks ws" "follows rest" "(s, v) \<in> {(''null'', JNull), (''true'', JTrue), (''false'', JFalse)}"
  shows "parses uflow lflags lx v rest"
proof -
  have "scans_to uflow lx (if s = ''true'' then TOKEN_TRUE else if s = ''false'' then TOKEN_FALSE else TOKEN_NULL) Value_unset rest"
    by (rule scan_word [OF assms(1,2)]) (use assms(3,4) follows_stops in \<open>auto simp: follows_def\<close>)
  then show ?thesis by (rule parses_scalar) (use assms(4) in \<open>auto simp: first_token_def token_defs\<close>)
qed

lemma parses_string:
  assumes "faces lx (ws @ print_string flags (str_bytes s) @ rest)" "blanks ws" "text_ok s"
  shows "parses uflow lflags lx (JString s) rest"
  using scan_string [OF assms]
  by (rule parses_scalar) (auto simp: first_token_def token_defs json_string_nocheck_def)

lemma parses_integer:
  assumes f: "faces lx (ws @ str_bytes (int_string i) @ rest)" "blanks ws" "follows rest" and i: "- (2 ^ 63) \<le> i" "i < 2 ^ 63"
  shows "parses uflow lflags lx (JInteger i) rest"
proof -
  obtain ds where ds: "int_string i = sign_text (i < 0) @ ds" "digits ds" "ds = ''0'' \<or> hd ds \<noteq> CHR ''0''"
    "signed_value (i < 0) (dec_value ds) = i" using int_string_parts by blast
  let ?ds = "str_bytes ds"
  have b: "digit_bytes ?ds" "?ds \<noteq> []" "?ds = [0x30] \<or> hd ?ds \<noteq> 0x30"
    using digits_bytes [OF ds(2)] head_bytes [OF _ ds(3)] ds(2) by (auto simp: digits_def)
  have t: "str_bytes (int_string i) = sign_bytes (i < 0) @ ?ds" by (simp add: ds(1) sign_text_bytes)
  obtain b bs where bb: "sign_bytes (i < 0) @ ?ds @ rest = b # bs" "l_isdigit (sint b) \<or> b = 0x2D"
    using b(1,2) by (cases ?ds; cases "i < 0") (auto simp: sign_bytes_def digit_bytes_def)
  have "scans_to uflow lx TOKEN_INTEGER (Value_integer i) rest"
  proof (rule scan_number [OF _ f(2) bb(2)])
    show "faces lx (ws @ b # bs)" using f(1) bb(1) by (simp add: t)
    fix lx0 lx1 assume "faces lx0 (b # bs)" "reads True lx0 (sint b) lx1" "saved lx0 = []"
    then show "number_read (lex_scan_number uflow lx1 (sint b)) TOKEN_INTEGER (Value_integer i) rest"
      using scan_integer_exact [of lx0 "i < 0" ?ds rest "sint b" lx1 i uflow] b follows_stops(1) [OF f(3)] f(3) bb(1) ds(4) i
      by (simp add: follows_def)
  qed simp
  moreover have "sint (word_of_int i :: 64 word) = i" using i by (simp add: sint_sbintrunc' signed_take_bit_int_eq_self)
  ultimately show ?thesis by (rule_tac parses_scalar) (auto simp: first_token_def token_defs json_integer_def)
qed

lemma parses_real:
  assumes f: "faces lx (ws @ print_real d @ rest)" "blanks ws" "follows rest" and d: "dbl_normal d"
  shows "parses uflow lflags lx (JReal d) rest"
proof -
  obtain ip fr ex where p: "jsonp_dtostr MAX_REAL_STR_LENGTH d = Some (sign_text (dbl_sign d) @ ip @ fr @ ex)" "real_parts ip fr ex"
    "jsonp_strtod uflow (sign_text (dbl_sign d) @ ip @ fr @ ex) = Some (Ok d)"
    using real_text_roundtrip [OF d, of MAX_REAL_STR_LENGTH uflow] by (auto simp: MAX_REAL_STR_LENGTH_def)
  have rp: "digits ip" "ip = ''0'' \<or> hd ip \<noteq> CHR ''0''" "fraction_text fr" "exponent_text ex" "fr \<noteq> [] \<or> ex \<noteq> []"
    using p(2) by (simp_all add: real_parts_def)
  let ?ip = "str_bytes ip" and ?fr = "str_bytes fr" and ?ex = "str_bytes ex" and ?sg = "sign_bytes (dbl_sign d)"
  have b: "digit_bytes ?ip" "?ip \<noteq> []" "?ip = [0x30] \<or> hd ?ip \<noteq> 0x30"
    using digits_bytes [OF rp(1)] head_bytes [OF _ rp(2)] rp(1) by (auto simp: digits_def)
  have e: "?fr \<noteq> [] \<or> ?ex \<noteq> []" using rp(5) by (simp add: str_bytes_def)
  have t: "print_real d = ?sg @ ?ip @ ?fr @ ?ex" using p(1) by (simp add: print_real_def sign_text_bytes)
  obtain b bs where bb: "?sg @ ?ip @ ?fr @ ?ex @ rest = b # bs" "l_isdigit (sint b) \<or> b = 0x2D"
    using b(1,2) by (cases ?ip; cases "dbl_sign d") (auto simp: sign_bytes_def digit_bytes_def)
  have st: "jsonp_strtod uflow (map char_of_byte (?sg @ ?ip @ ?fr @ ?ex)) = Some (Ok d)" using p(3) by (simp flip: sign_text_bytes)
  have "scans_to uflow lx TOKEN_REAL (Value_real d) rest"
  proof (rule scan_number [OF _ f(2) bb(2)])
    show "faces lx (ws @ b # bs)" using f(1) bb(1) by (simp add: t)
    fix lx0 lx1 assume "faces lx0 (b # bs)" "reads True lx0 (sint b) lx1" "saved lx0 = []"
    then show "number_read (lex_scan_number uflow lx1 (sint b)) TOKEN_REAL (Value_real d) rest"
      using scan_real_exact [OF _ _ _ b follows_stops(1) [OF f(3)] _ fraction_text_bytes [OF rp(3)] exponent_text_bytes [OF rp(4)] e st]
        f(3) bb(1) by (simp add: follows_def)
  qed simp
  moreover have "dbl_finite d" using d by (simp add: dbl_normal_def)
  ultimately show ?thesis by (rule_tac parses_scalar) (auto simp: first_token_def token_defs json_real_def)
qed

section \<open>Arrays and objects\<close>

lemma lex_scan_left:
  assumes "faces lx bs" "lex_scan uflow lx = Some lx1"
  shows "left lx1 \<le> length bs" "token lx1 \<noteq> TOKEN_INVALID \<Longrightarrow> token lx1 \<noteq> TOKEN_EOF \<Longrightarrow> left lx1 < length bs"
proof -
  obtain lx' where "lex_scan uflow lx = Some lx'" "scanned lx lx'"
    "token lx' \<noteq> TOKEN_INVALID \<and> token lx' \<noteq> TOKEN_EOF \<longrightarrow> left lx' < left lx"
    using lex_scan_ok [OF faces_ok(1) [OF assms(1)] faces_ok(2) [OF assms(1)]] by blast
  then show "left lx1 \<le> length bs" "token lx1 \<noteq> TOKEN_INVALID \<Longrightarrow> token lx1 \<noteq> TOKEN_EOF \<Longrightarrow> left lx1 < length bs"
    using assms(2) faces_left [OF assms(1)] by (auto simp: scanned_def moves_def)
qed

definition prints :: "uflow \<Rightarrow> nat \<Rightarrow> byte list \<Rightarrow> json \<Rightarrow> bool" where
  "prints uflow lflags t v \<longleftrightarrow> 0 \<notin> set t \<and> (\<forall>lx ws rest. faces lx (ws @ t @ rest) \<and> blanks ws \<and> follows rest \<longrightarrow>
     parses uflow lflags lx v rest)"

lemma prints_items_nonzero:
  assumes "\<forall>x \<in> set xs. prints uflow lflags (txt x) (val x)"
  shows "0 \<notin> set (print_items flags depth (map txt xs))"
  by (rule items_nonzero) (use assms in \<open>auto simp: prints_def\<close>)

definition parses_elements :: "uflow \<Rightarrow> nat \<Rightarrow> lex_t \<Rightarrow> json list \<Rightarrow> byte list \<Rightarrow> bool" where
  "parses_elements uflow lflags lx vs rest \<longleftrightarrow> (\<exists>lx1. lex_scan uflow lx = Some lx1 \<and> first_token (token lx1) \<and>
     (\<forall>fuel acc. 3 * left lx1 + 6 \<le> fuel \<longrightarrow>
       (\<exists>lx2. parse_elements fuel uflow lflags (JArray acc) lx1 = Some (Some (JArray (acc @ vs)), lx2) \<and> faces lx2 rest)))"

lemma elements_exact:
  assumes "xs \<noteq> []" "\<forall>x \<in> set xs. prints uflow lflags (txt x) (val x)" "0 \<notin> set rest"
    and "faces lx (ws @ print_items flags depth (map txt xs) @ 0x5D # rest)" "blanks ws"
  shows "parses_elements uflow lflags lx (map val xs) rest"
  using assms
proof (induction xs arbitrary: lx ws)
  case (Cons x xs)
  define rest' where "rest' = (if xs = [] then print_indent flags depth False
      else 0x2C # print_indent flags (depth + 1) True @ print_items flags depth (map txt xs)) @ 0x5D # rest"
  have z: "0 \<notin> set (print_items flags depth (map txt xs))" using Cons.prems(2) prints_items_nonzero [of xs uflow lflags "txt" val] by simp
  have fo: "follows rest'"
    using follows_close [OF Cons.prems(3), of "0x5D" flags depth] Cons.prems(3) z indent_nonzero
    by (auto simp: rest'_def intro!: follows_cons)
  have "faces lx (ws @ txt x @ rest')" using Cons.prems(4) by (simp add: rest'_def split: if_splits)
  then have "parses uflow lflags lx (val x) rest'" using Cons.prems(2,5) fo by (simp add: prints_def)
  then obtain lx1 where p: "lex_scan uflow lx = Some lx1" "first_token (token lx1)" "length rest' \<le> left lx1"
    "\<And>fuel. 3 * left lx1 + 5 \<le> fuel \<Longrightarrow> \<exists>lx2. parse_value fuel uflow lflags lx1 = Some (Some (val x), lx2) \<and> faces lx2 rest'"
    unfolding parses_def by blast
  have "\<exists>lx2. parse_elements fuel uflow lflags (JArray acc) lx1 = Some (Some (JArray (acc @ map val (x # xs))), lx2) \<and> faces lx2 rest"
    if fuel: "3 * left lx1 + 6 \<le> fuel" for fuel acc
  proof -
    obtain n where n: "fuel = Suc n" "3 * left lx1 + 5 \<le> n" using fuel by (cases fuel) auto
    obtain lx2 where v: "parse_value n uflow lflags lx1 = Some (Some (val x), lx2)" "faces lx2 rest'" using p(4) [OF n(2)] by blast
    have app: "json_array_append (JArray acc) (Some (val x)) = JArray (acc @ [val x])" by (simp add: json_array_append_def)
    have eof: "token lx1 \<noteq> TOKEN_EOF" using p(2) by (simp add: first_token_def)
    show ?thesis
    proof (cases "xs = []")
      case True
      then have "faces lx2 (print_indent flags depth False @ 0x5D # rest)" using v(2) by (simp add: rest'_def)
      then obtain lx3 where "lex_scan uflow lx2 = Some lx3" "token lx3 = 0x5D" "faces lx3 rest"
        using scan_punct [OF _ blanks_indent, of lx2 flags depth False "0x5D" rest uflow] by (auto simp: scans_to_def)
      then show ?thesis using n(1) eof v(1) True app by simp
    next
      case False
      let ?ws = "print_indent flags (depth + 1) True" and ?items = "print_items flags depth (map txt xs) @ 0x5D # rest"
      have "faces lx2 ([] @ 0x2C # ?ws @ ?items)" using v(2) False by (simp add: rest'_def)
      then obtain lx3 where c: "lex_scan uflow lx2 = Some lx3" "token lx3 = 0x2C" "faces lx3 (?ws @ ?items)"
        using scan_punct [of lx2 "[]" "0x2C" "?ws @ ?items" uflow] by (auto simp: scans_to_def)
      have "parses_elements uflow lflags lx3 (map val xs) rest"
        using Cons.IH [OF False _ Cons.prems(3) c(3) blanks_indent] Cons.prems(2) by simp
      then obtain lx4 where i: "lex_scan uflow lx3 = Some lx4"
        "\<And>fuel acc. 3 * left lx4 + 6 \<le> fuel \<Longrightarrow>
          \<exists>lx2. parse_elements fuel uflow lflags (JArray acc) lx4 = Some (Some (JArray (acc @ map val xs)), lx2) \<and> faces lx2 rest"
        unfolding parses_elements_def by blast
      have "left lx4 < left lx1" using lex_scan_left(1) [OF c(3) i(1)] p(3) False by (simp add: rest'_def)
      then have "3 * left lx4 + 6 \<le> n" using n(2) by simp
      then obtain lx5 where "parse_elements n uflow lflags (JArray (acc @ [val x])) lx4 = Some (Some (JArray ((acc @ [val x]) @ map val xs)), lx5)"
        "faces lx5 rest" using i(2) by blast
      then show ?thesis using n(1) eof v(1) c(1,2) i(1) app by simp
    qed
  qed
  then show ?case using p(1,2) unfolding parses_elements_def by blast
qed simp

lemma faces_val [simp]: "faces (lx\<lparr>lex_val := v\<rparr>) bs = faces lx bs"
  by (simp add: faces_def)

text \<open>A key up to the first token of its value.\<close>

lemma parse_key_exact:
  assumes f: "faces lx (ws @ print_string flags (str_bytes k) @ str_bytes (separator flags) @ t @ rest)" "blanks ws" "text_ok k"
    and v: "prints uflow lflags t v" "follows rest" 
  obtains lx1 lx2 where "lex_scan uflow lx = Some lx1" "token lx1 = TOKEN_STRING" "length rest \<le> left lx2" "left lx2 < left lx1"
    "\<And>acc. map_of acc k = None \<Longrightarrow> parse_key uflow lflags (JObject acc) lx1 = Some (Some k, lx2)"
    "\<And>fuel. 3 * left lx2 + 5 \<le> fuel \<Longrightarrow> \<exists>lx3. parse_value fuel uflow lflags lx2 = Some (Some v, lx3) \<and> faces lx3 rest"
proof -
  define sp :: "byte list" where "sp = (if flags AND JSON_COMPACT = 0 then [0x20] else [])"
  have sep: "str_bytes (separator flags) = 0x3A # sp" "blanks sp"
    by (simp_all add: separator_def sp_def str_bytes_def byte_of_char_def blank_def)
  obtain lx1 where k: "lex_scan uflow lx = Some lx1" "token lx1 = TOKEN_STRING" "lex_val lx1 = Value_string (Some (str_bytes k))"
    "faces lx1 (0x3A # sp @ t @ rest)"
    using scan_string [OF f, of uflow] sep(1) by (auto simp: scans_to_def)
  let ?lx = "lx1\<lparr>lex_val := Value_string None\<rparr>"
  have "faces ?lx ([] @ 0x3A # sp @ t @ rest)" using k(4) by simp
  then obtain lx2 where c: "lex_scan uflow ?lx = Some lx2" "token lx2 = 0x3A" "faces lx2 (sp @ t @ rest)"
    using scan_punct [of ?lx "[]" "0x3A" "sp @ t @ rest" uflow] by (auto simp: scans_to_def)
  have "parses uflow lflags lx2 v rest" using v c(3) sep(2) unfolding prints_def by blast
  then obtain lx3 where p: "lex_scan uflow lx2 = Some lx3" "length rest \<le> left lx3"
    "\<And>fuel. 3 * left lx3 + 5 \<le> fuel \<Longrightarrow> \<exists>lx4. parse_value fuel uflow lflags lx3 = Some (Some v, lx4) \<and> faces lx4 rest"
    unfolding parses_def by blast
  have "left lx3 < left lx1" using lex_scan_left(1) [OF c(3) p(1)] faces_left [OF k(4)] by simp
  moreover have "parse_key uflow lflags (JObject acc) lx1 = Some (Some k, lx3)" if "map_of acc k = None" for acc
    using k(2,3) c(1,2) p(1) that by (simp add: parse_key_def lex_steal_string_def Let_def)
  ultimately show thesis using that k(1,2) p(2,3) by blast
qed

definition parses_members :: "uflow \<Rightarrow> nat \<Rightarrow> lex_t \<Rightarrow> (string \<times> json) list \<Rightarrow> byte list \<Rightarrow> bool" where
  "parses_members uflow lflags lx kvs rest \<longleftrightarrow> (\<exists>lx1. lex_scan uflow lx = Some lx1 \<and> token lx1 = TOKEN_STRING \<and>
     (\<forall>fuel acc. 3 * left lx1 + 6 \<le> fuel \<and> distinct (map fst (acc @ kvs)) \<longrightarrow>
       (\<exists>lx2. parse_members fuel uflow lflags (JObject acc) lx1 = Some (Some (JObject (acc @ kvs)), lx2) \<and> faces lx2 rest)))"

lemma members_exact:
  assumes "xs \<noteq> []" "\<forall>x \<in> set xs. text_ok (key x) \<and> prints uflow lflags (txt x) (val x)" "0 \<notin> set rest"
    and "faces lx (ws @ print_items flags depth (map (member_text flags key txt) xs) @ 0x7D # rest)" "blanks ws"
  shows "parses_members uflow lflags lx (map (\<lambda>x. (key x, val x)) xs) rest"
  using assms
proof (induction xs arbitrary: lx ws)
  case (Cons x xs)
  define rest' where "rest' = (if xs = [] then print_indent flags depth False
      else 0x2C # print_indent flags (depth + 1) True @ print_items flags depth (map (member_text flags key txt) xs)) @ 0x7D # rest"
  have z: "0 \<notin> set (print_items flags depth (map (member_text flags key txt) xs))"
    by (rule items_nonzero) (use Cons.prems(2) in \<open>auto simp: prints_def member_nonzero\<close>)
  have fo: "follows rest'"
    using follows_close [OF Cons.prems(3), of "0x7D" flags depth] Cons.prems(3) z indent_nonzero
    by (auto simp: rest'_def intro!: follows_cons)
  have x: "text_ok (key x)" "prints uflow lflags (txt x) (val x)" using Cons.prems(2) by simp_all
  have "faces lx (ws @ print_string flags (str_bytes (key x)) @ str_bytes (separator flags) @ txt x @ rest')"
    using Cons.prems(4) by (simp add: rest'_def member_text_def [of flags key "txt" x] split: if_splits)
  then obtain lx1 lx2 where p: "lex_scan uflow lx = Some lx1" "token lx1 = TOKEN_STRING" "length rest' \<le> left lx2" "left lx2 < left lx1"
    "\<And>acc. map_of acc (key x) = None \<Longrightarrow> parse_key uflow lflags (JObject acc) lx1 = Some (Some (key x), lx2)"
    "\<And>fuel. 3 * left lx2 + 5 \<le> fuel \<Longrightarrow> \<exists>lx3. parse_value fuel uflow lflags lx2 = Some (Some (val x), lx3) \<and> faces lx3 rest'"
    using parse_key_exact [OF _ Cons.prems(5) x(1) x(2) fo] by blast
  let ?kvs = "map (\<lambda>x. (key x, val x))"
  have "\<exists>lx2. parse_members fuel uflow lflags (JObject acc) lx1 = Some (Some (JObject (acc @ ?kvs (x # xs))), lx2) \<and> faces lx2 rest"
    if fuel: "3 * left lx1 + 6 \<le> fuel" and d: "distinct (map fst (acc @ ?kvs (x # xs)))" for fuel acc
  proof -
    obtain n where n: "fuel = Suc n" "3 * left lx2 + 5 \<le> n" "3 * left lx1 + 5 \<le> n" using fuel p(4) by (cases fuel) auto
    obtain lx3 where v: "parse_value n uflow lflags lx2 = Some (Some (val x), lx3)" "faces lx3 rest'" using p(6) [OF n(2)] by blast
    have new: "key x \<notin> fst ` set acc" using d by auto
    then have k: "parse_key uflow lflags (JObject acc) lx1 = Some (Some (key x), lx2)" using p(5) by (simp add: map_of_eq_None_iff)
    have app: "json_object_set_nocheck (JObject acc) (Some (key x)) (Some (val x)) = Some (JObject (acc @ [(key x, val x)]))"
      using update_new [OF new] by (simp add: json_object_set_nocheck_def json_object_set_new_nocheck_def)
    show ?thesis
    proof (cases "xs = []")
      case True
      then have "faces lx3 (print_indent flags depth False @ 0x7D # rest)" using v(2) by (simp add: rest'_def)
      then obtain lx4 where "lex_scan uflow lx3 = Some lx4" "token lx4 = 0x7D" "faces lx4 rest"
        using scan_punct [OF _ blanks_indent, of lx3 flags depth False "0x7D" rest uflow] by (auto simp: scans_to_def)
      then show ?thesis using n(1) k v(1) True app by simp
    next
      case False
      let ?ws = "print_indent flags (depth + 1) True"
      let ?items = "print_items flags depth (map (member_text flags key txt) xs) @ 0x7D # rest"
      have "faces lx3 ([] @ 0x2C # ?ws @ ?items)" using v(2) False by (simp add: rest'_def)
      then obtain lx4 where c: "lex_scan uflow lx3 = Some lx4" "token lx4 = 0x2C" "faces lx4 (?ws @ ?items)"
        using scan_punct [of lx3 "[]" "0x2C" "?ws @ ?items" uflow] by (auto simp: scans_to_def)
      have "parses_members uflow lflags lx4 (?kvs xs) rest"
        using Cons.IH [OF False _ Cons.prems(3) c(3) blanks_indent] Cons.prems(2) by simp
      then obtain lx5 where i: "lex_scan uflow lx4 = Some lx5"
        "\<And>fuel acc. 3 * left lx5 + 6 \<le> fuel \<and> distinct (map fst (acc @ ?kvs xs)) \<Longrightarrow>
          \<exists>lx2. parse_members fuel uflow lflags (JObject acc) lx5 = Some (Some (JObject (acc @ ?kvs xs)), lx2) \<and> faces lx2 rest"
        unfolding parses_members_def by blast
      have "left lx5 < left lx2" using lex_scan_left(1) [OF c(3) i(1)] p(3) False by (simp add: rest'_def)
      then have "3 * left lx5 + 6 \<le> n \<and> distinct (map fst ((acc @ [(key x, val x)]) @ ?kvs xs))" using n(2) d by simp
      from i(2) [OF this] obtain lx6 where
        "parse_members n uflow lflags (JObject (acc @ [(key x, val x)])) lx5 = Some (Some (JObject ((acc @ [(key x, val x)]) @ ?kvs xs)), lx6)"
        "faces lx6 rest" by blast
      then show ?thesis using n(1) k v(1) c(1,2) i(1) app by simp
    qed
  qed
  then show ?case using p(1,2) unfolding parses_members_def by blast
qed simp

section \<open>The printed value\<close>

text \<open>Brackets: empty, or around items that are parsed.\<close>

definition group_rest :: "nat \<Rightarrow> nat \<Rightarrow> byte \<Rightarrow> byte list list \<Rightarrow> byte list \<Rightarrow> byte list" where
  "group_rest flags depth rb ts rest =
     (if ts = [] then [] else print_indent flags (depth + 1) False @ print_items flags depth ts) @ rb # rest"

lemma group_opens:
  assumes "faces lx (ws @ print_group flags depth lb rb ts @ rest)" "blanks ws" "lb \<in> {0x5B, 0x7B}"
  obtains lx1 where "lex_scan uflow lx = Some lx1" "token lx1 = sint lb" "faces lx1 (group_rest flags depth rb ts rest)"
    "length rest \<le> left lx1"
proof -
  have "faces lx (ws @ lb # group_rest flags depth rb ts rest)"
    using assms(1) by (simp add: print_group_def group_rest_def split: if_splits)
  then obtain lx1 where *: "lex_scan uflow lx = Some lx1" "token lx1 = sint lb" "faces lx1 (group_rest flags depth rb ts rest)"
    using scan_punct [OF _ assms(2), of lx lb "group_rest flags depth rb ts rest" uflow] assms(3) by (auto simp: scans_to_def)
  then show thesis using that [OF *] faces_left [OF *(3)] by (simp add: group_rest_def)
qed

lemma group_closes:
  assumes "faces lx (group_rest flags depth rb [] rest)" "rb \<in> {0x5D, 0x7D}"
  shows "\<exists>lx1. lex_scan uflow lx = Some lx1 \<and> token lx1 = sint rb \<and> faces lx1 rest"
  using scan_punct [of lx "[]" rb rest uflow] assms by (auto simp: scans_to_def group_rest_def)

lemma array_exact:
  assumes xs: "\<forall>x \<in> set xs. prints uflow lflags (txt x) (val x)"
    and f: "faces lx1 (group_rest flags depth 0x5D (map txt xs) rest)" "0 \<notin> set rest" and fuel: "3 * left lx1 + 4 \<le> fuel"
  shows "\<exists>lx2. parse_array fuel uflow lflags lx1 = Some (Some (JArray (map val xs)), lx2) \<and> faces lx2 rest"
proof (cases "xs = []")
  case True
  then have "\<exists>lx2. lex_scan uflow lx1 = Some lx2 \<and> token lx2 = sint (0x5D :: byte) \<and> faces lx2 rest"
    using group_closes [of lx1 flags depth "0x5D" rest uflow] f(1) by simp
  then show ?thesis using fuel True by (cases fuel) (auto simp: json_array_def)
next
  case False
  have "parses_elements uflow lflags lx1 (map val xs) rest"
    using elements_exact [OF False xs f(2) _ blanks_indent] f(1) False by (simp add: group_rest_def)
  then obtain lx2 where e: "lex_scan uflow lx1 = Some lx2" "first_token (token lx2)"
    "\<And>fuel acc. 3 * left lx2 + 6 \<le> fuel \<Longrightarrow>
      \<exists>lx3. parse_elements fuel uflow lflags (JArray acc) lx2 = Some (Some (JArray (acc @ map val xs)), lx3) \<and> faces lx3 rest"
    unfolding parses_elements_def by blast
  have "left lx2 < left lx1" "token lx2 \<noteq> 0x5D"
    using lex_scan_left(2) [OF f(1) e(1)] e(2) faces_left [OF f(1)] by (simp_all add: first_token_def)
  moreover obtain n where "fuel = Suc n" "3 * left lx1 + 3 \<le> n" using fuel by (cases fuel) auto
  ultimately show ?thesis using e(1) e(3) [of n "[]"] by (simp add: json_array_def)
qed

lemma object_exact:
  assumes xs: "\<forall>x \<in> set xs. text_ok (key x) \<and> prints uflow lflags (txt x) (val x)" "distinct (map key xs)"
    and f: "faces lx1 (group_rest flags depth 0x7D (map (member_text flags key txt) xs) rest)" "0 \<notin> set rest"
    and fuel: "3 * left lx1 + 4 \<le> fuel"
  shows "\<exists>lx2. parse_object fuel uflow lflags lx1 = Some (Some (JObject (map (\<lambda>x. (key x, val x)) xs)), lx2) \<and> faces lx2 rest"
proof (cases "xs = []")
  case True
  then have "\<exists>lx2. lex_scan uflow lx1 = Some lx2 \<and> token lx2 = sint (0x7D :: byte) \<and> faces lx2 rest"
    using group_closes [of lx1 flags depth "0x7D" rest uflow] f(1) by simp
  then show ?thesis using fuel True by (cases fuel) (auto simp: json_object_def)
next
  case False
  let ?kvs = "map (\<lambda>x. (key x, val x)) xs"
  have "parses_members uflow lflags lx1 ?kvs rest"
    using members_exact [OF False xs(1) f(2) _ blanks_indent] f(1) False by (simp add: group_rest_def)
  then obtain lx2 where e: "lex_scan uflow lx1 = Some lx2" "token lx2 = TOKEN_STRING"
    "\<And>fuel acc. 3 * left lx2 + 6 \<le> fuel \<and> distinct (map fst (acc @ ?kvs)) \<Longrightarrow>
      \<exists>lx3. parse_members fuel uflow lflags (JObject acc) lx2 = Some (Some (JObject (acc @ ?kvs)), lx3) \<and> faces lx3 rest"
    unfolding parses_members_def by blast
  have "left lx2 < left lx1" "token lx2 \<noteq> 0x7D"
    using lex_scan_left(2) [OF f(1) e(1)] e(2) faces_left [OF f(1)] by (simp_all add: token_defs)
  moreover have "distinct (map fst ?kvs)" using xs(2) by (simp add: comp_def)
  moreover obtain n where "fuel = Suc n" "3 * left lx1 + 3 \<le> n" using fuel by (cases fuel) auto
  ultimately show ?thesis using e(1) e(3) [of n "[]"] by (simp add: json_object_def)
qed

lemma prints_group:
  assumes b: "(lb, rb) \<in> {(0x5B, 0x5D), (0x7B, 0x7D)}" and z: "\<forall>t \<in> set ts. 0 \<notin> set t"
    and v: "json_is_array (Some v) \<longleftrightarrow> lb = 0x5B" "json_is_object (Some v) \<longleftrightarrow> lb = 0x7B"
    and p: "\<And>lx1 rest fuel. faces lx1 (group_rest flags depth rb ts rest) \<Longrightarrow> 0 \<notin> set rest \<Longrightarrow> 3 * left lx1 + 4 \<le> fuel \<Longrightarrow>
      \<exists>lx2. (if lb = 0x5B then parse_array else parse_object) fuel uflow lflags lx1 = Some (Some v, lx2) \<and> faces lx2 rest"
  shows "prints uflow lflags (print_group flags depth lb rb ts) v"
proof -
  have "parses uflow lflags lx v rest"
    if f: "faces lx (ws @ print_group flags depth lb rb ts @ rest)" "blanks ws" "follows rest" for lx ws rest
  proof -
    obtain lx1 where o: "lex_scan uflow lx = Some lx1" "token lx1 = sint lb" "faces lx1 (group_rest flags depth rb ts rest)"
      "length rest \<le> left lx1" using group_opens [OF f(1,2)] b by blast
    have "\<exists>lx2. parse_value fuel uflow lflags lx1 = Some (Some v, lx2) \<and> faces lx2 rest" if "3 * left lx1 + 5 \<le> fuel" for fuel
      using p [OF o(3), of "fuel - 1"] f(3) that b o(2) by (cases fuel) (auto simp: follows_def token_defs)
    then show ?thesis using o(1,2,4) b v unfolding parses_def by (auto simp: first_token_def token_defs)
  qed
  moreover have "0 \<notin> set (print_group flags depth lb rb ts)"
    using b items_nonzero [OF z, of flags depth] indent_nonzero by (auto simp: print_group_def)
  ultimately show ?thesis unfolding prints_def by blast
qed

lemma prints_text:
  assumes "json_wf v" "\<And>lx ws rest. faces lx (ws @ json_print serial flags depth v @ rest) \<Longrightarrow> blanks ws \<Longrightarrow> follows rest \<Longrightarrow>
    parses uflow lflags lx w rest"
  shows "prints uflow lflags (json_print serial flags depth v) w"
  using assms printable_json [OF assms(1)] unfolding prints_def printable_def by blast

lemma json_print_prints: "json_wf v \<Longrightarrow> json_normal v \<Longrightarrow> prints uflow lflags (json_print serial flags depth v) (json_sorted serial flags v)"
proof (induction serial flags depth v rule: json_print.induct)
  case (7 serial flags depth xs)
  have xs: "\<forall>x \<in> set xs. prints uflow lflags (json_print serial flags (depth + 1) x) (json_sorted serial flags x)" using 7 by simp
  show ?case unfolding json_print.simps json_sorted.simps
    by (rule prints_group) (use xs array_exact [OF xs, of _ flags depth] in \<open>auto simp: prints_def\<close>)
next
  case (8 serial flags depth kvs)
  let ?kvs = "key_order serial flags kvs" and ?txt = "\<lambda>kv. json_print serial flags (depth + 1) (snd kv)"
  have kvs: "\<forall>kv \<in> set ?kvs. text_ok (fst kv) \<and> prints uflow lflags (?txt kv) (json_sorted serial flags (snd kv))" using 8 by simp
  have d: "distinct (map fst ?kvs)" using 8 by (simp add: distinct_key_order)
  have t: "map (\<lambda>kv. print_string flags (str_bytes (fst kv)) @ str_bytes (separator flags) @ ?txt kv) ?kvs =
      map (member_text flags fst ?txt) ?kvs" by (simp add: member_text_def)
  have z: "\<forall>t \<in> set (map (member_text flags fst ?txt) ?kvs). 0 \<notin> set t" using kvs by (simp add: prints_def member_nonzero)
  show ?case unfolding json_print.simps json_sorted.simps t
    by (rule prints_group [OF _ z]) (use object_exact [OF kvs d, of _ flags depth] in auto)
qed (rule prints_text, simp, use parses_word parses_string parses_integer parses_real in fastforce)+

lemma json_load_text:
  assumes v: "json_wf v" "json_normal v" "json_is_array (Some v) \<or> json_is_object (Some v) \<or> lflags AND JSON_DECODE_ANY \<noteq> 0"
    and junk: "length (st_buffer junk) = 5" and d: "view data = json_print serial flags 0 v" "length (view data) \<le> length data" "length (view data) < 2 ^ 63"
  shows "\<exists>error'. json_load_with get source junk uflow (Some data) lflags error = Some (Some (json_sorted serial flags v), error')"
proof -
  let ?junk = "junk\<lparr>lex_error := jsonp_error_init error source\<rparr>" and ?w = "json_sorted serial flags v"
  have u: "utf8_check_bytes (view data)" using printable_json [OF v(1), of serial flags 0] d(1) by (simp add: printable_def)
  obtain lx where i: "lex_init ?junk get data = Some lx" "faces lx (view data)" "left lx = length (view data)"
    using lex_init_ready [of ?junk data] junk d(3) u by auto
  have "prints uflow lflags (view data) ?w" using json_print_prints [OF v(1,2), of uflow lflags serial flags 0] d(1) by simp
  then have "parses uflow lflags lx ?w []" using i(2) unfolding prints_def
    by (elim conjE allE [of _ lx] allE [of _ "[]"]) (simp add: follows_def stops_at_def)
  then obtain lx1 where p: "lex_scan uflow lx = Some lx1" "token lx1 = 0x5B \<longleftrightarrow> json_is_array (Some ?w)"
    "token lx1 = 0x7B \<longleftrightarrow> json_is_object (Some ?w)"
    "\<And>fuel. 3 * left lx1 + 5 \<le> fuel \<Longrightarrow> \<exists>lx2. parse_value fuel uflow lflags lx1 = Some (Some ?w, lx2) \<and> faces lx2 []"
    unfolding parses_def by blast
  have "3 * left lx1 + 5 \<le> load_fuel data" using lex_scan_left(1) [OF i(2) p(1)] d(2) by (simp add: load_fuel_def)
  then obtain lx2 where q: "parse_value (load_fuel data) uflow lflags lx1 = Some (Some ?w, lx2)" "faces lx2 []" using p(4) by blast
  obtain lx3 where e: "lex_scan uflow lx2 = Some lx3" "token lx3 = TOKEN_EOF" using scan_eof [OF q(2), of uflow] by (auto simp: scans_to_def)
  have k: "json_is_array (Some ?w) = json_is_array (Some v)" "json_is_object (Some ?w) = json_is_object (Some v)" by (cases v; simp)+
  have "\<not> (lflags AND JSON_DECODE_ANY = 0 \<and> token lx1 \<noteq> 0x5B \<and> token lx1 \<noteq> 0x7B)" using v(3) p(2,3) k by auto
  then have "\<exists>lx4. parse_json (load_fuel data) uflow lflags lx = Some (Some ?w, lx4)"
    using p(1) q(1) e by (auto simp: parse_json_def)
  then show ?thesis using i(1) by (auto simp: json_load_with_def Let_def)
qed

end

section \<open>Properties\<close>

text \<open>The text of \<open>json_dumps\<close> as a C string and as bytes.\<close>

lemma dumps_loadb:
  assumes v: "json_wf v" "json_normal v" "length (json_print serial flags 0 v) < 2 ^ 63"
    and any: "json_is_array (Some v) \<or> json_is_object (Some v) \<or> flags AND JSON_ENCODE_ANY \<noteq> 0 \<and> lflags AND JSON_DECODE_ANY \<noteq> 0"
    and junk: "length (st_buffer junk) = 5"
  shows "\<exists>s error'. json_dumps serial (Some v) flags = Some (Some s) \<and> str_bytes s = json_print serial flags 0 v \<and>
    json_loadb junk uflow (Some (str_bytes s)) lflags error = Some (Some (json_sorted serial flags v), error')"
proof -
  let ?t = "json_print serial flags 0 v"
  have "json_dumps serial (Some v) flags = Some (Some (map char_of_byte ?t))" using json_dumps_print [OF v(1,3)] any by blast
  moreover have b: "str_bytes (map char_of_byte ?t) = ?t" by (simp add: str_bytes_def comp_def)
  moreover have "\<exists>error'. json_loadb junk uflow (Some ?t) lflags error = Some (Some (json_sorted serial flags v), error')"
    unfolding json_loadb_def by (rule buffer.json_load_text [OF v(1,2) _ junk]) (use any v(3) in auto)
  ultimately show ?thesis by auto
qed

end
