(* ===== verification/Json_Properties.thy ===== *)
theory Json_Properties
  imports Json_Roundtrip
begin

text \<open>
  The properties of the text form of JSON as a whole (\<open>load.c\<close>, \<open>dump.c\<close>, \<open>strconv.c\<close>, \<open>utf.c\<close> of
  the bundled jansson): what the check of UTF-8 accepts, what is printed, that reals and whole values
  survive printing and loading, and an input that is accepted although it is not JSON.
\<close>

section \<open>Printing of plain strings\<close>

text \<open>Bytes that are printed as they are, whatever the flags.\<close>

definition plain_byte :: "byte \<Rightarrow> bool" where
  "plain_byte b \<longleftrightarrow> 0x20 \<le> unat b \<and> unat b < 0x80 \<and> unat b \<noteq> 0x22 \<and> unat b \<noteq> 0x2F \<and> unat b \<noteq> 0x5C"

lemma plain_byte_point:
  assumes "plain_byte b"
  shows "print_point flags (unat b) = [b]" "scalar_value (unat b)" "utf8_char (unat b) = [b]"
  using assms by (auto simp: plain_byte_def print_point_def must_escape_def utf8_char_ascii scalar_value_def)

lemma print_string_plain:
  assumes "list_all plain_byte bs"
  shows "print_string flags bs = 0x22 # bs @ [0x22]"
proof -
  have b: "\<forall>b \<in> set bs. plain_byte b" using assms by (simp add: list_all_iff)
  then have "utf8_text (map unat bs) = bs" by (induction bs) (simp_all add: plain_byte_point)
  then have "utf8_points bs = map unat bs" using utf8_points_text [of "map unat bs"] b plain_byte_point(2) by simp
  moreover have "concat (map (print_point flags) (map unat bs)) = bs" using b by (induction bs) (simp_all add: plain_byte_point)
  ultimately show ?thesis by (simp add: print_string_def)
qed

section \<open>Properties\<close>


text \<open>(C25) \<open>json_dumps\<close> prints exactly the reference text of a well-formed value, which is defined by
  recursion over the value without buffers and callbacks, for all flags; the text is a C string in UTF-8. (The
  elements of an array are counted in an \<open>int\<close>, hence the bound.)\<close>

theorem json_dumps_refines_print:
  assumes "json_wf v" "length (json_print serial flags 0 v) < 2 ^ 31 - 1"
    and "flags AND JSON_ENCODE_ANY \<noteq> 0 \<or> json_is_array (Some v) \<or> json_is_object (Some v)"
  shows "json_dumps serial (Some v) flags = Some (Some (map char_of_byte (json_print serial flags 0 v))) \<and>
    text_ok (map char_of_byte (json_print serial flags 0 v))"
  using json_dumps_print [OF assms(1) _ assms(3)] assms(2) printable_json [OF assms(1), of serial flags 0] text_ok_bytes by (simp_all add: printable_def)

text \<open>(C27) Printing a real with seventeen digits and reading it again gives the same bits, for zero with
  either sign and every normal number, whatever the range error of \<open>strtod\<close> for small numbers is.\<close>

theorem real_roundtrip:
  assumes "dbl_normal d" "64 \<le> sz"
  shows "\<exists>s. jsonp_dtostr sz d = Some s \<and> jsonp_strtod uflow s = Some (Ok d)"
  using real_text_roundtrip [OF assms] by blast

text \<open>(C10) Loading what was printed gives the value back, for every well-formed value whose reals are zero or
  normal, for all flags of both functions, indentation and escapes included: the members of objects come in
  the order in which they were printed, which is the order of iteration if no flag asks for another one.\<close>

theorem json_roundtrip:
  assumes "json_wf v" "json_normal v" "length (json_print serial flags 0 v) < 2 ^ 31 - 1"
    and "json_is_array (Some v) \<or> json_is_object (Some v) \<or> flags AND JSON_ENCODE_ANY \<noteq> 0 \<and> lflags AND JSON_DECODE_ANY \<noteq> 0"
    and "length (st_buffer junk) = 5"
  shows "\<exists>s error'. json_dumps serial (Some v) flags = Some (Some s) \<and>
    json_loadb junk uflow (Some (str_bytes s)) lflags error =
      Some (Some (if flags AND JSON_SORT_KEYS = 0 \<and> flags AND JSON_PRESERVE_ORDER = 0 then v else json_sorted serial flags v), error')"
  using dumps_loadb [OF assms(1,2) _ assms(4,5), of serial uflow error] assms(3) json_sorted_id [of flags serial v] by auto

section \<open>Flaws\<close>

text \<open>A zero byte after a number is skipped: the lexer puts back the character that ends the number, the
  zero byte is then taken for the end of the buffered character, and \<open>[1\0]\<close> is loaded as \<open>[1]\<close>.\<close>

lemma json_zero_skipped:
  "json_loadb demo_lex (\<lambda>_ _. False) (Some [0x5B, 0x31, 0x00, 0x5D]) 0 None = Some (Some (JArray [JInteger 1]), None)"
  by code_simp

section \<open>Examples\<close>

definition demo_json :: json where
  "demo_json = JObject [(''b'', JArray [JInteger (- 1), JNull]), (''a'', JString ''x y'')]"

lemma demo_json_ok [simp]: "json_wf demo_json" "json_normal demo_json" "json_is_object (Some demo_json)"
  by (simp_all add: demo_json_def text_ok_def c_string_def utf8_ascii)

lemma demo_json_print: "json_print (\<lambda>_ _. 0) 0 0 demo_json = str_bytes
    ([CHR 0x7B, CHR 0x22] @ ''b'' @ [CHR 0x22] @ '': [-1, null], '' @ [CHR 0x22] @ ''a'' @ [CHR 0x22] @ '': '' @ [CHR 0x22] @ ''x y'' @ [CHR 0x22, CHR 0x7D])"
  by (simp add: demo_json_def print_group_def print_string_plain print_indent_def key_order_def separator_def
      str_bytes_def byte_of_char_def plain_byte_def int_string_def dec_string.simps JSON_INDENT_def)

theorem json_dumps_refines_print_witness:
  "json_dumps (\<lambda>_ _. 0) (Some demo_json) 0 = Some (Some
     ([CHR 0x7B, CHR 0x22] @ ''b'' @ [CHR 0x22] @ '': [-1, null], '' @ [CHR 0x22] @ ''a'' @ [CHR 0x22] @ '': '' @ [CHR 0x22] @ ''x y'' @ [CHR 0x22, CHR 0x7D]))"
  using json_dumps_refines_print [of demo_json "\<lambda>_ _. 0" 0] by (simp add: demo_json_print)

theorem real_roundtrip_witness:
  "\<exists>s. jsonp_dtostr 100 0x3FB999999999999A = Some s \<and> jsonp_strtod (\<lambda>_ _. True) s = Some (Ok 0x3FB999999999999A)"
  by (rule real_roundtrip) (simp_all add: dbl_normal_def dbl_finite_def dbl_mag_def DBL_INF_def)

theorem json_roundtrip_witness:
  "\<exists>s error'. json_dumps (\<lambda>_ _. 0) (Some demo_json) 0 = Some (Some s) \<and>
     json_loadb demo_lex (\<lambda>_ _. True) (Some (str_bytes s)) 0 None = Some (Some demo_json, error')"
  using json_roundtrip [of demo_json "\<lambda>_ _. 0" 0 0 demo_lex "\<lambda>_ _. True" None] by (simp add: demo_json_print)

end
