(* ===== verification/Codec_Json.thy ===== *)
theory Codec_Json
  imports Codec Json_Properties
begin

text \<open>
  The message codec with the JSON functions of the bundled jansson in place of its parameters: the text form
  that \<open>Codec\<close> relies on is the one of \<open>json_dumps\<close> and \<open>json_loadb\<close>, with the flags that
  \<open>pc__json_encode\<close> and \<open>pc__json_decode\<close> pass.
\<close>

section \<open>The printer and the parser of the codec\<close>

text \<open>The codec does not ask for an order, so that the serial numbers do not matter.\<close>

abbreviation no_serials :: serials where
  "no_serials \<equiv> \<lambda>_ _. 0"

lemma json_print_serials: "flags AND JSON_PRESERVE_ORDER = 0 \<Longrightarrow> json_print serial flags depth v = json_print serial' flags depth v"
proof (induction serial flags depth v rule: json_print.induct)
  case (8 serial flags depth kvs)
  have "key_order serial flags kvs = key_order serial' flags kvs" using 8(2) by (simp add: key_order_def)
  moreover have "json_print serial flags (depth + 1) (snd kv) = json_print serial' flags (depth + 1) (snd kv)"
    if "kv \<in> set (key_order serial' flags kvs)" for kv using 8(1) [of kv] 8(2) that by simp
  ultimately show ?case unfolding json_print.simps by (intro arg_cong [where f = "print_group flags depth 0x7B 0x7D"] map_cong) auto
qed (auto cong: map_cong)

text \<open>Undefined behaviour of \<open>json_dumps\<close>, which no well-formed value leads to, is no text here.\<close>

definition jansson_dumps :: dumps where
  "jansson_dumps v = (case json_dumps no_serials (Some v) JSON_COMPACT of Some (Some s) \<Rightarrow> Some s | _ \<Rightarrow> None)"

definition jansson_loadb :: "lex_t \<Rightarrow> uflow \<Rightarrow> loadb" where
  "jansson_loadb junk uflow bytes =
     (case json_loadb junk uflow (Some bytes) 0 None of Some (r, error) \<Rightarrow> r | None \<Rightarrow> None)"

text \<open>The values that a client can send and get back as they are.\<close>

definition message_value :: "json \<Rightarrow> bool" where
  "message_value v \<longleftrightarrow> json_wf v \<and> json_normal v \<and> (json_is_array (Some v) \<or> json_is_object (Some v))"

abbreviation message_text :: "json \<Rightarrow> string" where
  "message_text v \<equiv> map char_of_byte (json_print no_serials JSON_COMPACT 0 v)"

lemma jansson_text:
  assumes "message_value v" "length (message_text v) < 2 ^ 63" "length (st_buffer junk) = 5"
  shows "jansson_dumps v = Some (message_text v)" "jansson_loadb junk uflow (str_bytes (message_text v)) = Some v"
    "json_text jansson_dumps (jansson_loadb junk uflow) v"
proof -
  have v: "json_wf v" "json_normal v" "json_is_array (Some v) \<or> json_is_object (Some v)" using assms(1) by (simp_all add: message_value_def)
  obtain s error' where s: "json_dumps no_serials (Some v) JSON_COMPACT = Some (Some s)" "str_bytes s = json_print no_serials JSON_COMPACT 0 v"
    "json_loadb junk uflow (Some (str_bytes s)) 0 None = Some (Some (json_sorted no_serials JSON_COMPACT v), error')"
    using dumps_loadb [OF v(1,2) _ _ assms(3), of no_serials JSON_COMPACT 0 uflow None] v(3) assms(2) by auto
  have t: "s = message_text v" by (simp flip: s(2))
  have "json_sorted no_serials JSON_COMPACT v = v" by (simp add: json_sorted_id JSON_COMPACT_def JSON_SORT_KEYS_def JSON_PRESERVE_ORDER_def)
  then show 1: "jansson_dumps v = Some (message_text v)" "jansson_loadb junk uflow (str_bytes (message_text v)) = Some v"
    using s(1,3) unfolding t by (simp_all add: jansson_dumps_def jansson_loadb_def)
  have "message_text v \<noteq> []" using v(3) by (cases v) (simp_all add: print_group_def)
  then show "json_text jansson_dumps (jansson_loadb junk uflow) v" using 1 by (simp add: json_text_def)
qed

section \<open>Properties\<close>

text \<open>(C6) End-to-end round trip of the message codec: what \<open>pc__default_msg_encode_cb\<close> makes of a
  request or a notification, the parse callback of a peer that holds the same tables turns back into the
  same id, route and message. The route travels as a code if the dictionary has it and as a string
  otherwise; the body travels in protobuf if the route has a definition and otherwise as the JSON text
  that \<open>json_dumps\<close> prints and \<open>json_loadb\<close> reads.\<close>

theorem codec_roundtrip:
  assumes "\<forall>k. malloc k" "n < 2 ^ 31" "length (st_buffer lx) = 5"
    and "route \<noteq> []" "c_string route" "length route < route_limit sc"
    and "same_dictionary client peer" "server_protos peer = client_protos client"
    and "message_value v" "sendable malloc (client_protos client) route v (message_text v)"
  shows "\<exists>bs. pc__default_msg_encode_cb malloc junk jansson_dumps client n route (Some v) = Some (Ok bs) \<and>
    pc__default_msg_parse_cb sc malloc (jansson_loadb lx uflow) peer waiting bs (length bs) =
      Some (Ok \<lparr>msg_id = n, msg_route = Some route, msg_msg = Some v\<rparr>)"
proof -
  have "length (message_text v) < 2 ^ 63" using assms(10) by (simp add: sendable_def)
  note sent = jansson_text [OF assms(9) this assms(3)]
  show ?thesis by (rule codec_roundtrip_text [OF assms(1) sent(3) assms(2,4-8) sent(1) assms(10)])
qed

lemma demo_msg_print: "json_print no_serials JSON_COMPACT 0 demo_msg = str_bytes ''{\"id\":300,\"name\":\"ab\",\"pos\":[{\"x\":-3}]}''"
  by (simp add: demo_msg_def print_group_def print_string_plain print_indent_def key_order_def separator_def
      str_bytes_def byte_of_char_def plain_byte_def int_string_def dec_string.simps JSON_INDENT_def JSON_COMPACT_def JSON_SORT_KEYS_def JSON_PRESERVE_ORDER_def)

lemma demo_msg_value: "message_value demo_msg"
  by (simp add: message_value_def demo_msg_def text_ok_def c_string_def utf8_ascii)

theorem codec_roundtrip_witness:
  "\<exists>bs. pc__default_msg_encode_cb (\<lambda>_. True) (\<lambda>_. 0) jansson_dumps sample_codec 7 ''chat.send'' (Some demo_msg) = Some (Ok bs) \<and>
    pc__default_msg_parse_cb True (\<lambda>_. True) (jansson_loadb demo_lex (\<lambda>_ _. True)) sample_codec (\<lambda>_. None) bs (length bs) =
      Some (Ok \<lparr>msg_id = 7, msg_route = Some ''chat.send'', msg_msg = Some demo_msg\<rparr>)"
proof (rule codec_roundtrip)
  show "sendable (\<lambda>_. True) (client_protos sample_codec) ''chat.send'' demo_msg (message_text demo_msg)"
    unfolding demo_msg_print str_bytes_chars using demo_wt demo_ref length_demo_bytes
    by (auto simp: sendable_def sample_codec_def demo_msg_def demo_bytes_def)
  show "same_dictionary sample_codec sample_codec"
    using sample_dict by (simp add: same_dictionary_def sample_codec_def)
qed (simp_all add: sample_codec_def c_string_def route_limit_def demo_msg_value)

end
