(* ===== verification/Exchange_Json.thy ===== *)
theory Exchange_Json
  imports Exchange Codec_Json
begin

text \<open>
  The client with the JSON functions of the bundled jansson: a request through all layers, from
  \<open>pc_request\<close> to the message that the server finds in the package and back from the text of its
  answer to the callback of the request.
\<close>

section \<open>Environments with jansson\<close>

definition jansson_env :: "lex_t \<Rightarrow> uflow \<Rightarrow> env \<Rightarrow> bool" where
  "jansson_env lx uflow e \<longleftrightarrow> length (st_buffer lx) = 5 \<and> env_dumps e = jansson_dumps \<and> env_loadb e = jansson_loadb lx uflow"

text \<open>The body of an answer in JSON is decoded.\<close>

lemma jansson_body:
  assumes "length (st_buffer lx) = 5" "message_value w" "length (message_text w) < 2 ^ 24" "json_object_get protos route = None"
  shows "decode_body malloc (jansson_loadb lx uflow) protos route (str_bytes (message_text w)) = Some (Ok w)"
    "str_bytes (message_text w) \<noteq> []"
proof -
  let ?b = "str_bytes (message_text w)"
  have "jansson_loadb lx uflow ?b = Some w" "jansson_dumps w = Some (message_text w)" "json_text jansson_dumps (jansson_loadb lx uflow) w"
    using jansson_text [OF assms(2) _ assms(1)] assms(3) by simp_all
  then show "decode_body malloc (jansson_loadb lx uflow) protos route ?b = Some (Ok w)" "?b \<noteq> []"
    using assms(3,4) by (auto simp: decode_body_def pc__json_decode_def size_sub_le mem_read_def json_text_def str_bytes_def)
qed

section \<open>Properties\<close>

text \<open>(C9) A request and its answer. In every reachable working state, if memory and libuv do not fail,
  sending a message under a route leads to one data package on the working transport, from which a server with
  the tables of the client parses the same id, route and message; and when the package arrives in which the
  server answers that id with a value in JSON text, the callback of the request is called once with
  status 0 and that value, and the table of pending requests is what it was.\<close>

theorem request_answered:
  assumes "client_initial st" "client_step\<^sup>*\<^sup>* st (s, p0)" "state s = PC_ST_WORKING"
    and "\<And>k. malloc_ok e k" "\<And>ob. alloc_ok e ob" "\<And>call. uv_ok e call" "jansson_env lx uflow e"
    and "tcp_reqs s r = Some q" "r_type q = PC_REQUEST"
    and "n = pc__req_id s + 1" "n < 2 ^ 31" "requests_get (dec_string n) s = None"
    and "route \<noteq> []" "c_string route" "length route < route_limit sc"
    and "same_dictionary s server" "server_protos server = client_protos s"
    and "message_value v" "sendable (malloc_ok e) (client_protos s) route v (message_text v)"
    and "pc__default_msg_encode_cb (malloc_ok e) (env_junk e) jansson_dumps s n route (Some v) = Some (Ok bs)" "length bs < 2 ^ 24"
    and "message_value w" "length (message_text w) < 2 ^ 24 - 6" "json_object_get (server_protos s) route = None"
    and "pkg_inv p" "pkg_alpha p = AHead []"
  shows "\<exists>t s1 s2 s3 p'. transport s = Some t \<and>
    pc_request e r (Some route) (Some v) s = Some (0, s1) \<and>
    pc__async_write_cb e r 0 (s1\<lparr>uv_asyncs := uv_asyncs s\<rparr>) = Some s2 \<and>
    uv_writes s2 = uv_writes s @ [\<lparr>w_transport = t, w_bytes = pkg_bytes PC_PKG_DATA bs, w_cb = On_request r\<rparr>] \<and>
    pc__default_msg_parse_cb sc (malloc_ok e) (jansson_loadb lx uflow) server waiting bs (length bs) =
      Some (Ok \<lparr>msg_id = n, msg_route = Some route, msg_msg = Some v\<rparr>) \<and>
    pc_tp_on_tcp_read e t (Some (pkg_bytes PC_PKG_DATA (response_bytes n (str_bytes (message_text w))))) (s2, p) = Some (s3, p') \<and>
    trace s3 = trace s @ [Request_cb r 0 (Some w)] \<and> requests s3 = requests s"
proof -
  have e: "length (st_buffer lx) = 5" "env_dumps e = jansson_dumps" "env_loadb e = jansson_loadb lx uflow"
    using assms(7) by (simp_all add: jansson_env_def)
  have M: "\<forall>k. malloc_ok e k" using assms(4) by blast
  have len: "length (message_text v) < 2 ^ 63" using assms(19) by (simp add: sendable_def)
  note sent = jansson_text(1,3) [OF assms(18) len e(1)]
  obtain bs' where "pc__default_msg_encode_cb (malloc_ok e) (env_junk e) jansson_dumps s n route (Some v) = Some (Ok bs')"
    "pc__default_msg_parse_cb sc (malloc_ok e) (jansson_loadb lx uflow) server waiting bs' (length bs') =
      Some (Ok \<lparr>msg_id = n, msg_route = Some route, msg_msg = Some v\<rparr>)"
    using codec_roundtrip_text [OF M sent(2) assms(11,13-17) sent(1) assms(19)] by blast
  then have parse: "pc__default_msg_parse_cb sc (malloc_ok e) (jansson_loadb lx uflow) server waiting bs (length bs) =
      Some (Ok \<lparr>msg_id = n, msg_route = Some route, msg_msg = Some v\<rparr>)" using assms(20) by simp
  have body: "decode_body (malloc_ok e) (env_loadb e) (server_protos s) route (str_bytes (message_text w)) = Some (Ok w)"
    "str_bytes (message_text w) \<noteq> []" unfolding e(3) using jansson_body [OF e(1) assms(22) _ assms(24)] assms(23) by simp_all
  have enc: "pc__default_msg_encode_cb (malloc_ok e) (env_junk e) (env_dumps e) s n route (Some v) = Some (Ok bs)"
    using assms(20) e(2) by simp
  obtain t s1 s2 where 1: "transport s = Some t" "pc_request e r (Some route) (Some v) s = Some (0, s1)"
    "pc__async_write_cb e r 0 (s1\<lparr>uv_asyncs := uv_asyncs s\<rparr>) = Some s2"
    "uv_writes s2 = uv_writes s @ [\<lparr>w_transport = t, w_bytes = pkg_bytes PC_PKG_DATA bs, w_cb = On_request r\<rparr>]"
    and answer: "\<forall>body w p. decode_body (malloc_ok e) (env_loadb e) (server_protos s) route body = Some (Ok w) \<and> body \<noteq> [] \<and>
       length body < 2 ^ 24 - 6 \<and> pkg_inv p \<and> pkg_alpha p = AHead [] \<longrightarrow>
       (\<exists>s3 p'. pc_tp_on_tcp_read e t (Some (pkg_bytes PC_PKG_DATA (response_bytes n body))) (s2, p) = Some (s3, p') \<and>
          trace s3 = trace s @ [Request_cb r 0 (Some w)] \<and> requests s3 = requests s \<and> pkg_inv p' \<and> pkg_alpha p' = AHead [])"
    using request_life [OF assms(1-6,8-12) enc assms(21)] by blast
  have "length (str_bytes (message_text w)) < 2 ^ 24 - 6" using assms(23) by simp
  then obtain s3 p' where "pc_tp_on_tcp_read e t (Some (pkg_bytes PC_PKG_DATA (response_bytes n (str_bytes (message_text w))))) (s2, p) = Some (s3, p')"
    "trace s3 = trace s @ [Request_cb r 0 (Some w)]" "requests s3 = requests s"
    using answer body assms(25,26) by blast
  then show ?thesis using 1 parse by blast
qed


text \<open>The example of \<open>Exchange\<close> with jansson: an empty object is sent, and the answer is an array.\<close>

definition demo_jansson :: env where
  "demo_jansson = demo_env\<lparr>env_dumps := jansson_dumps, env_loadb := jansson_loadb demo_lex (\<lambda>_ _. True)\<rparr>"

lemma demo_jansson_sel [simp]:
  "malloc_ok demo_jansson n" "alloc_ok demo_jansson ob" "uv_ok demo_jansson call" "jansson_env demo_lex (\<lambda>_ _. True) demo_jansson"
  "env_junk demo_jansson = (\<lambda>_. 0)"
  by (simp_all add: demo_jansson_def demo_env_def jansson_env_def)

lemma demo_texts: "json_print no_serials JSON_COMPACT 0 (JObject []) = str_bytes ''{}''" "json_print no_serials JSON_COMPACT 0 (JArray [JTrue]) = str_bytes ''[true]''"
  by (simp_all add: print_group_def print_indent_def key_order_def str_bytes_def byte_of_char_def JSON_INDENT_def JSON_COMPACT_def)

theorem request_answered_witness:
  "\<exists>s1 s2 s3 p'. pc_request demo_jansson 3 (Some ''a'') (Some (JObject [])) (demo_ready False) = Some (0, s1) \<and>
     pc__async_write_cb demo_jansson 3 0 (s1\<lparr>uv_asyncs := []\<rparr>) = Some s2 \<and>
     w_bytes (last (uv_writes s2)) = [4, 0, 0, 6, 0, 1, 1, 97, 123, 125] \<and>
     pc_tp_on_tcp_read demo_jansson 2 (Some [4, 0, 0, 8, 4, 1, 91, 116, 114, 117, 101, 93]) (s2, fresh_parser) = Some (s3, p') \<and>
     trace s3 = [Connect_cb 1 0, Request_cb 3 0 (Some (JArray [JTrue]))] \<and> requests s3 = []"
proof -
  obtain p where p: "client_step\<^sup>*\<^sup>* (demo_new False, fresh_parser) (demo_ready False, p)" using demo_ready_reachable .
  let ?bs = "[0, 1, 1, 97, 123, 125] :: byte list"
  have t: "message_text (JObject []) = ''{}''" "message_text (JArray [JTrue]) = ''[true]''" by (simp_all only: demo_texts str_bytes_chars)
  have mv: "message_value (JObject [])" "message_value (JArray [JTrue])" by (simp_all add: message_value_def)
  have d: "jansson_dumps (JObject []) = Some ''{}''" using jansson_text(1) [OF mv(1), of demo_lex] unfolding t by simp
  have enc: "pc__default_msg_encode_cb (malloc_ok demo_jansson) (env_junk demo_jansson) jansson_dumps (demo_ready False) 1 ''a''
      (Some (JObject [])) = Some (Ok ?bs)"
    using msg_encode_route_bytes [of "malloc_ok demo_jansson" PC_MSG_REQUEST 1 "''a''" "[123, 125]" "\<lambda>_. 0"] d
    by (simp add: pc__default_msg_encode_cb_def pc__json_encode_def demo_ready_defs id_part_def id_bytes.simps flag_byte_def
        PC_MSG_HAS_ID_def PC_MSG_HAS_ROUTE_def str_bytes_def byte_of_char_def)
  have b: "pkg_bytes PC_PKG_DATA (response_bytes 1 (str_bytes ''[true]'')) = [4, 0, 0, 8, 4, 1, 91, 116, 114, 117, 101, 93]"
    "pkg_bytes PC_PKG_DATA ?bs = [4, 0, 0, 6] @ ?bs"
    by (simp_all add: pkg_bytes_def response_bytes_def PC_PKG_DATA_def id_bytes.simps flag_byte_def str_bytes_def byte_of_char_def)
  let ?q = "\<lparr>r_type = PC_REQUEST, r_id = 0, r_route = None, r_msg = None, r_transport = None\<rparr>"
  have s: "state (demo_ready False) = PC_ST_WORKING" "tcp_reqs (demo_ready False) 3 = Some ?q" "1 = pc__req_id (demo_ready False) + 1"
      "requests_get (dec_string 1) (demo_ready False) = None" "route_to_code (demo_ready False) = None"
      "client_protos (demo_ready False) = None" "server_protos (demo_ready False) = None"
      "transport (demo_ready False) = Some 2" "uv_asyncs (demo_ready False) = []" "trace (demo_ready False) = [Connect_cb 1 0]" "requests (demo_ready False) = []"
    by (simp_all add: demo_ready_defs requests_get_def)
  have x: "same_dictionary (demo_ready False) (demo_ready False)" "server_protos (demo_ready False) = client_protos (demo_ready False)"
    "sendable (malloc_ok demo_jansson) (client_protos (demo_ready False)) ''a'' (JObject []) (message_text (JObject []))"
    using s unfolding t by (simp_all add: same_dictionary_def sendable_def)
  have y: "r_type ?q = PC_REQUEST" "(1 :: nat) < 2 ^ 31" "''a'' \<noteq> []" "c_string ''a''" "length ''a'' < route_limit True" "length ?bs < 2 ^ 24"
    "length (message_text (JArray [JTrue])) < 2 ^ 24 - 6" "json_object_get (server_protos (demo_ready False)) ''a'' = None"
    using s unfolding t by (simp_all add: c_string_def route_limit_def)
  note request_answered [OF demo_client_initial p s(1) demo_jansson_sel(1-4) s(2) y(1) s(3) y(2) s(4) y(3-5) x(1,2) mv(1) x(3) enc y(6) mv(2) y(7,8) fresh_parser_inv]
  then obtain t s1 s2 s3 p' where r: "transport (demo_ready False) = Some t"
      "pc_request demo_jansson 3 (Some ''a'') (Some (JObject [])) (demo_ready False) = Some (0, s1)"
      "pc__async_write_cb demo_jansson 3 0 (s1\<lparr>uv_asyncs := uv_asyncs (demo_ready False)\<rparr>) = Some s2"
      "uv_writes s2 = uv_writes (demo_ready False) @ [\<lparr>w_transport = t, w_bytes = pkg_bytes PC_PKG_DATA ?bs, w_cb = On_request 3\<rparr>]"
      "pc_tp_on_tcp_read demo_jansson t (Some (pkg_bytes PC_PKG_DATA (response_bytes 1 (str_bytes (message_text (JArray [JTrue])))))) (s2, fresh_parser) = Some (s3, p')"
      "trace s3 = trace (demo_ready False) @ [Request_cb 3 0 (Some (JArray [JTrue]))]" "requests s3 = requests (demo_ready False)" by blast
  have "t = 2" using r(1) s(8) by simp
  then show ?thesis using r(2-7) b s(9-11) unfolding t(2) by (intro exI [of _ s1] exI [of _ s2] exI [of _ s3] exI [of _ p']) simp
qed

end
