(* ===== verification/Hashtable.thy ===== *)
theory Hashtable
  imports Pc_Map
begin

text \<open>
  The hash table of the bundled jansson (\<open>hashtable.c\<close>), in which the objects of \<open>value.c\<close> keep their
  members, at the level of its pointers. All pairs hang on one circular list; a bucket is the stretch of
  that list between its \<open>first\<close> and its \<open>last\<close> pointer. The list nodes are those of
  \<open>Ngx_Queue\<close>: a heap of \<open>prev\<close> and \<open>next\<close> fields, in which a node is the address of its pair.

  Reads through a null or dangling pointer and outside the arrays are undefined (\<open>None\<close>). The results of the
  allocator are arguments: whether there is memory for the buckets, and the address of a new pair.
  \<open>ht_released\<close> records the values that \<open>json_decref\<close> is called for.

  The table implements finite maps, for every hash function of the keys: it is a second interpretation of
  the locale \<open>table_contract\<close>, next to the map of libpomelo.
\<close>

section \<open>Definitions\<close>

record 'v hashtable_pair =
  pr_hash :: nat
  pr_value :: 'v
  pr_serial :: nat
  pr_key :: string

record 'v hashtable_t =
  ht_size :: nat
  ht_buckets :: "(addr \<times> addr) list option"
  ht_num_buckets :: nat
  ht_heap :: ngx_heap
  ht_pairs :: "addr \<rightharpoonup> 'v hashtable_pair"
  ht_released :: "'v list"

text \<open>The address of the list head inside the structure.\<close>

definition ht_list :: addr where "ht_list = 0"

definition hash_str :: "bool \<Rightarrow> string \<Rightarrow> nat" where
  "hash_str sc str = foldl (\<lambda>hash c. size_add (size_add (hash * 2 ^ 5 mod 2 ^ 64) hash) (char_to_size sc (byte_of_char c))) 5381 str"

definition list_init :: "addr \<Rightarrow> ngx_heap \<Rightarrow> ngx_heap" where
  "list_init list h = set_prev list list (set_next list list h)"

definition list_insert :: "addr \<Rightarrow> addr \<Rightarrow> ngx_heap \<Rightarrow> ngx_heap" where
  "list_insert list node h =
     (let h = set_next node list h;
          h = set_prev node (prev h list) h;
          h = set_next (prev h list) node h
      in set_prev list node h)"

definition list_remove :: "addr \<Rightarrow> ngx_heap \<Rightarrow> ngx_heap" where
  "list_remove list h =
     (let h = set_next (prev h list) (next h list) h
      in set_prev (next h list) (prev h list) h)"

definition bucket_is_empty :: "addr \<times> addr \<Rightarrow> bool" where
  "bucket_is_empty b \<longleftrightarrow> fst b = ht_list \<and> fst b = snd b"

definition insert_to_bucket :: "nat \<Rightarrow> addr \<Rightarrow> 'v hashtable_t \<Rightarrow> 'v hashtable_t option" where
  "insert_to_bucket index list t = do {
     bs \<leftarrow> ht_buckets t;
     bucket \<leftarrow> mem_get bs index;
     if bucket_is_empty bucket
     then Some (t\<lparr>ht_heap := list_insert ht_list list (ht_heap t), ht_buckets := Some (bs[index := (list, list)])\<rparr>)
     else Some (t\<lparr>ht_heap := list_insert (fst bucket) list (ht_heap t), ht_buckets := Some (bs[index := (list, snd bucket)])\<rparr>) }"

definition primes :: "nat list" where
  "primes = [5, 13, 23, 53, 97, 193, 389, 769, 1543, 3079, 6151, 12289, 24593,
     49157, 98317, 196613, 393241, 786433, 1572869, 3145739, 6291469,
     12582917, 25165843, 50331653, 100663319, 201326611, 402653189,
     805306457, 1610612741]"

definition num_buckets :: "'v hashtable_t \<Rightarrow> nat option" where
  "num_buckets t = mem_get primes (ht_num_buckets t)"

partial_function (option) find_loop ::
  "'v hashtable_t \<Rightarrow> string \<Rightarrow> nat \<Rightarrow> addr \<Rightarrow> addr \<Rightarrow> addr option option" where
  "find_loop t key hash stop list =
     Option.bind (ht_pairs t list) (\<lambda>pair.
       if pr_hash pair = hash \<and> pr_key pair = key then Some (Some list)
       else if list = stop then Some None
       else find_loop t key hash stop (next (ht_heap t) list))"

definition hashtable_find_pair :: "'v hashtable_t \<Rightarrow> addr \<times> addr \<Rightarrow> string \<Rightarrow> nat \<Rightarrow> addr option option" where
  "hashtable_find_pair t b key hash =
     (if bucket_is_empty b then Some None else find_loop t key hash (snd b) (fst b))"

definition hashtable_do_del :: "string \<Rightarrow> nat \<Rightarrow> 'v hashtable_t \<Rightarrow> (int \<times> 'v hashtable_t) option" where
  "hashtable_do_del key hash t = do {
     n \<leftarrow> num_buckets t;
     let index = hash mod n;
     bs \<leftarrow> ht_buckets t;
     bucket \<leftarrow> mem_get bs index;
     r \<leftarrow> hashtable_find_pair t bucket key hash;
     case r of None \<Rightarrow> Some (- 1, t)
     | Some a \<Rightarrow> do {
         pair \<leftarrow> ht_pairs t a;
         let bucket = (if a = fst bucket \<and> a = snd bucket then (ht_list, ht_list)
           else if a = fst bucket then (next (ht_heap t) a, snd bucket)
           else if a = snd bucket then (fst bucket, prev (ht_heap t) a)
           else bucket);
         Some (0, t\<lparr>ht_buckets := Some (bs[index := bucket]), ht_heap := list_remove a (ht_heap t),
           ht_released := ht_released t @ [pr_value pair], ht_pairs := (ht_pairs t)(a := None),
           ht_size := size_sub (ht_size t) 1\<rparr>) } }"

text \<open>The loop of \<open>hashtable_do_clear\<close>.\<close>

partial_function (option) clear_loop :: "addr \<Rightarrow> 'v hashtable_t \<Rightarrow> 'v hashtable_t option" where
  "clear_loop list t =
     (if list = ht_list then Some t
      else Option.bind (ht_pairs t list) (\<lambda>pair.
        clear_loop (next (ht_heap t) list)
          (t\<lparr>ht_released := ht_released t @ [pr_value pair], ht_pairs := (ht_pairs t)(list := None)\<rparr>)))"

definition hashtable_do_clear :: "'v hashtable_t \<Rightarrow> 'v hashtable_t option" where
  "hashtable_do_clear t = clear_loop (next (ht_heap t) ht_list) t"

text \<open>The loop of \<open>hashtable_do_rehash\<close> that puts every pair into its new bucket.\<close>

partial_function (option) rehash_loop :: "nat \<Rightarrow> addr \<Rightarrow> 'v hashtable_t \<Rightarrow> 'v hashtable_t option" where
  "rehash_loop new_size list t =
     (if list = ht_list then Some t
      else let nxt = next (ht_heap t) list in
        Option.bind (ht_pairs t list) (\<lambda>pair.
        Option.bind (insert_to_bucket (pr_hash pair mod new_size) list t) (\<lambda>t. rehash_loop new_size nxt t)))"

text \<open>When there is no memory for the new buckets the old ones are gone.\<close>

definition hashtable_do_rehash :: "bool \<Rightarrow> 'v hashtable_t \<Rightarrow> (int \<times> 'v hashtable_t) option" where
  "hashtable_do_rehash mem t = do {
     let t = t\<lparr>ht_buckets := None, ht_num_buckets := ht_num_buckets t + 1\<rparr>;
     new_size \<leftarrow> num_buckets t;
     if \<not> mem then Some (- 1, t)
     else do {
       let t = t\<lparr>ht_buckets := Some (replicate new_size (ht_list, ht_list))\<rparr>;
       let list = next (ht_heap t) ht_list;
       let t = t\<lparr>ht_heap := list_init ht_list (ht_heap t)\<rparr>;
       t \<leftarrow> rehash_loop new_size list t;
       Some (0, t) } }"

definition hashtable_init :: "bool \<Rightarrow> 'v hashtable_t \<Rightarrow> (int \<times> 'v hashtable_t) option" where
  "hashtable_init mem t = do {
     let t = t\<lparr>ht_size := 0, ht_num_buckets := 0\<rparr>;
     n \<leftarrow> num_buckets t;
     if \<not> mem then Some (- 1, t\<lparr>ht_buckets := None\<rparr>)
     else Some (0, t\<lparr>ht_heap := list_init ht_list (ht_heap t), ht_buckets := Some (replicate n (ht_list, ht_list))\<rparr>) }"

definition hashtable_close :: "'v hashtable_t \<Rightarrow> 'v hashtable_t option" where
  "hashtable_close t = do { t \<leftarrow> hashtable_do_clear t; Some (t\<lparr>ht_buckets := None\<rparr>) }"

text \<open>The part of \<open>hashtable_set\<close> after growing.\<close>

definition set_pair :: "bool \<Rightarrow> addr option \<Rightarrow> string \<Rightarrow> nat \<Rightarrow> 'v \<Rightarrow> 'v hashtable_t \<Rightarrow> (int \<times> 'v hashtable_t) option" where
  "set_pair sc new key serial val t = do {
     let hash = hash_str sc key;
     n \<leftarrow> num_buckets t;
     let index = hash mod n;
     bs \<leftarrow> ht_buckets t;
     bucket \<leftarrow> mem_get bs index;
     found \<leftarrow> hashtable_find_pair t bucket key hash;
     case found of
       Some a \<Rightarrow> do {
         pair \<leftarrow> ht_pairs t a;
         Some (0, t\<lparr>ht_released := ht_released t @ [pr_value pair], ht_pairs := (ht_pairs t)(a \<mapsto> pair\<lparr>pr_value := val\<rparr>)\<rparr>) }
     | None \<Rightarrow>
         (case new of None \<Rightarrow> Some (- 1, t)
          | Some a \<Rightarrow> do {
              let pair = \<lparr>pr_hash = hash, pr_value = val, pr_serial = serial, pr_key = key\<rparr>;
              let t = t\<lparr>ht_pairs := (ht_pairs t)(a \<mapsto> pair), ht_heap := list_init a (ht_heap t)\<rparr>;
              t \<leftarrow> insert_to_bucket index a t;
              Some (0, t\<lparr>ht_size := size_add (ht_size t) 1\<rparr>) }) }"

definition hashtable_set ::
  "bool \<Rightarrow> bool \<Rightarrow> addr option \<Rightarrow> string \<Rightarrow> nat \<Rightarrow> 'v \<Rightarrow> 'v hashtable_t \<Rightarrow> (int \<times> 'v hashtable_t) option" where
  "hashtable_set sc mem new key serial val t = do {
     n \<leftarrow> num_buckets t;
     (r, t) \<leftarrow> (if ht_size t \<ge> n then hashtable_do_rehash mem t else Some (0, t));
     if r \<noteq> 0 then Some (- 1, t) else set_pair sc new key serial val t }"

text \<open>The pair of a key, as \<open>hashtable_get\<close> and \<open>hashtable_iter_at\<close> look for it.\<close>

definition hashtable_iter_at :: "bool \<Rightarrow> string \<Rightarrow> 'v hashtable_t \<Rightarrow> addr option option" where
  "hashtable_iter_at sc key t = do {
     let hash = hash_str sc key;
     n \<leftarrow> num_buckets t;
     bs \<leftarrow> ht_buckets t;
     bucket \<leftarrow> mem_get bs (hash mod n);
     hashtable_find_pair t bucket key hash }"

definition hashtable_get :: "bool \<Rightarrow> string \<Rightarrow> 'v hashtable_t \<Rightarrow> 'v option option" where
  "hashtable_get sc key t = do {
     let hash = hash_str sc key;
     n \<leftarrow> num_buckets t;
     bs \<leftarrow> ht_buckets t;
     bucket \<leftarrow> mem_get bs (hash mod n);
     r \<leftarrow> hashtable_find_pair t bucket key hash;
     case r of None \<Rightarrow> Some None | Some a \<Rightarrow> map_option (\<lambda>pair. Some (pr_value pair)) (ht_pairs t a) }"

definition hashtable_del :: "bool \<Rightarrow> string \<Rightarrow> 'v hashtable_t \<Rightarrow> (int \<times> 'v hashtable_t) option" where
  "hashtable_del sc key t = hashtable_do_del key (hash_str sc key) t"

definition hashtable_clear :: "'v hashtable_t \<Rightarrow> 'v hashtable_t option" where
  "hashtable_clear t = do {
     t \<leftarrow> hashtable_do_clear t;
     n \<leftarrow> num_buckets t;
     bs \<leftarrow> ht_buckets t;
     if length bs < n then None
     else Some (t\<lparr>ht_buckets := Some (replicate n (ht_list, ht_list) @ drop n bs),
       ht_heap := list_init ht_list (ht_heap t), ht_size := 0\<rparr>) }"

definition hashtable_iter_next :: "addr \<Rightarrow> 'v hashtable_t \<Rightarrow> addr option" where
  "hashtable_iter_next iter t =
     (if next (ht_heap t) iter = ht_list then None else Some (next (ht_heap t) iter))"

definition hashtable_iter :: "'v hashtable_t \<Rightarrow> addr option" where
  "hashtable_iter t = hashtable_iter_next ht_list t"

definition hashtable_iter_key :: "addr \<Rightarrow> 'v hashtable_t \<Rightarrow> string option" where
  "hashtable_iter_key iter t = map_option pr_key (ht_pairs t iter)"

definition hashtable_iter_serial :: "addr \<Rightarrow> 'v hashtable_t \<Rightarrow> nat option" where
  "hashtable_iter_serial iter t = map_option pr_serial (ht_pairs t iter)"

definition hashtable_iter_value :: "addr \<Rightarrow> 'v hashtable_t \<Rightarrow> 'v option" where
  "hashtable_iter_value iter t = map_option pr_value (ht_pairs t iter)"

definition hashtable_iter_set :: "addr \<Rightarrow> 'v \<Rightarrow> 'v hashtable_t \<Rightarrow> 'v hashtable_t option" where
  "hashtable_iter_set iter val t = do {
     pair \<leftarrow> ht_pairs t iter;
     Some (t\<lparr>ht_released := ht_released t @ [pr_value pair], ht_pairs := (ht_pairs t)(iter \<mapsto> pair\<lparr>pr_value := val\<rparr>)\<rparr>) }"

text \<open>What \<open>json_object_foreach\<close> runs through, from an iterator on.\<close>

partial_function (option) foreach_loop :: "addr option \<Rightarrow> 'v hashtable_t \<Rightarrow> (string \<times> 'v) list option" where
  "foreach_loop iter t =
     (case iter of None \<Rightarrow> Some []
      | Some a \<Rightarrow> Option.bind (hashtable_iter_key a t) (\<lambda>key. Option.bind (hashtable_iter_value a t) (\<lambda>val.
          Option.bind (foreach_loop (hashtable_iter_next a t) t) (\<lambda>rest. Some ((key, val) # rest)))))"

definition json_object_foreach :: "'v hashtable_t \<Rightarrow> (string \<times> 'v) list option" where
  "json_object_foreach t = foreach_loop (hashtable_iter t) t"

declare find_loop.simps [code] clear_loop.simps [code] rehash_loop.simps [code] foreach_loop.simps [code]

section \<open>The list\<close>

lemmas list_defs = list_init_def list_insert_def list_remove_def set_prev_def set_next_def Let_def

text \<open>Insertion before any node of a queue, or at its end.\<close>

lemma queue_list_insert:
  assumes "queue h hq (xs @ ys)" "x \<notin> set (hq # xs @ ys)"
  shows "queue (list_insert (hd (ys @ [hq])) x h) hq (xs @ x # ys)"
    and "z \<notin> set (x # hq # xs @ ys) \<Longrightarrow> next (list_insert (hd (ys @ [hq])) x h) z = next h z"
proof -
  let ?y = "hd (ys @ [hq])" and ?h = "list_insert (hd (ys @ [hq])) x h"
  have y: "?y \<in> set (hq # ys)" by (cases ys) auto
  have l: "last (hq # xs) \<in> set (hq # xs)" by simp
  have p: "prev h ?y = last (hq # xs)"
    using assms(1) queue_prev_hd [of h hq xs] queue_neighbours(1) [of h hq xs] by (cases ys) auto
  have ly: "last (hq # rev ys) = ?y" by (cases ys) auto
  have lx: "hd (rev xs @ [hq]) = last (hq # xs)" by (cases xs rule: rev_cases) auto
  have x: "x \<noteq> ?y" "x \<noteq> last (hq # xs)" using assms(2) y l by auto
  have n: "next ?h = (next h)(last (hq # xs) := x, x := ?y)" using p x by (auto simp: list_defs fun_eq_iff)
  have q: "prev ?h = (prev h)(last (hq # rev ys) := x, x := hd (rev xs @ [hq]))"
    unfolding ly lx using p x by (auto simp: list_defs fun_eq_iff)
  have "path (next ?h) hq (xs @ x # ys) hq" unfolding n using assms by (intro path_insert) (auto simp: queue_def)
  moreover have "path (prev ?h) hq (rev ys @ x # rev xs) hq"
    unfolding q using assms by (intro path_insert) (auto simp: queue_def)
  ultimately show "queue ?h hq (xs @ x # ys)" using assms by (auto simp: queue_def)
  show "next ?h z = next h z" if "z \<notin> set (x # hq # xs @ ys)" using that l unfolding n by auto
qed

lemma queue_list_remove:
  assumes "queue h hq (xs @ x # ys)"
  shows "queue (list_remove x h) hq (xs @ ys)"
proof -
  have "prev h x \<noteq> x" using queue_neighbours(1) [OF assms] assms last_in_set [of xs] by (auto simp: queue_def split: if_splits)
  then have "list_remove x h = ngx_queue_remove x h" by (auto simp: list_defs ngx_defs fun_eq_iff)
  then show ?thesis using queue_remove [OF assms] by simp
qed

lemma list_init_eq: "list_init q h = ngx_queue_init q h"
  by (simp add: list_defs ngx_defs)

lemma list_init_next: "next (list_init q h) x = (if x = q then q else next h x)"
  by (simp add: list_defs)

text \<open>Consecutive nodes.\<close>

fun chain :: "(addr \<Rightarrow> addr) \<Rightarrow> addr list \<Rightarrow> bool" where
  "chain f (x # y # zs) \<longleftrightarrow> f x = y \<and> chain f (y # zs)"
| "chain f _ \<longleftrightarrow> True"

lemma path_chain: "path f a xs b \<Longrightarrow> chain f xs"
  by (induction f xs arbitrary: a rule: chain.induct) auto

lemma chain_append: "chain f (xs @ ys @ zs) \<Longrightarrow> chain f ys"
proof (induction xs)
  case Nil
  then show ?case by (induction f ys rule: chain.induct) auto
next
  case (Cons x xs)
  then show ?case by (cases "xs @ ys @ zs") auto
qed

lemma queue_chain: "queue h hq (xs @ ys @ zs) \<Longrightarrow> chain (next h) ys"
  unfolding queue_def by (blast intro: path_chain chain_append)

section \<open>The layout of the buckets\<close>

text \<open>The stretches of the list in their order, each with the index of its bucket.\<close>

type_synonym segments = "(nat \<times> addr list) list"

abbreviation nodes :: "segments \<Rightarrow> addr list" where
  "nodes segs \<equiv> concat (map snd segs)"

definition seg_bucket :: "segments \<Rightarrow> nat \<Rightarrow> addr \<times> addr" where
  "seg_bucket segs i = (case map_of segs i of None \<Rightarrow> (ht_list, ht_list) | Some as \<Rightarrow> (hd as, last as))"

definition bucket_layout :: "nat \<Rightarrow> ngx_heap \<Rightarrow> (addr \<times> addr) list \<Rightarrow> segments \<Rightarrow> bool" where
  "bucket_layout n h bs segs \<longleftrightarrow> queue h ht_list (nodes segs) \<and> length bs = n \<and> distinct (map fst segs) \<and>
     (\<forall>seg \<in> set segs. snd seg \<noteq> [] \<and> fst seg < n) \<and> (\<forall>i < n. bs ! i = seg_bucket segs i)"

definition seg_insert :: "nat \<Rightarrow> addr \<Rightarrow> segments \<Rightarrow> segments" where
  "seg_insert i a segs =
     (if map_of segs i = None then segs @ [(i, [a])]
      else map (\<lambda>seg. if fst seg = i then (i, a # snd seg) else seg) segs)"

lemma seg_split:
  assumes "map_of segs i = Some as" "distinct (map fst segs)"
  obtains s1 s2 where "segs = s1 @ (i, as) # s2" "i \<notin> fst ` set s1" "i \<notin> fst ` set s2"
proof -
  obtain s1 s2 where "segs = s1 @ (i, as) # s2" using map_of_SomeD [OF assms(1)] by (meson split_list)
  then show thesis using that assms(2) by auto
qed

lemma seg_bucket_mid:
  assumes "i \<notin> fst ` set s1" "i \<notin> fst ` set s2"
  shows "seg_bucket (s1 @ (i, as) # s2) j = (if j = i then (hd as, last as) else seg_bucket (s1 @ s2) j)"
    "seg_bucket (s1 @ s2) i = (ht_list, ht_list)"
proof -
  have "map_of s1 i = None" "map_of s2 i = None" using assms by (simp_all add: map_of_eq_None_iff)
  then show "seg_bucket (s1 @ (i, as) # s2) j = (if j = i then (hd as, last as) else seg_bucket (s1 @ s2) j)"
    "seg_bucket (s1 @ s2) i = (ht_list, ht_list)" by (auto simp: seg_bucket_def map_add_def split: option.splits)
qed

lemma seg_insert_split:
  "i \<notin> fst ` set s1 \<Longrightarrow> i \<notin> fst ` set s2 \<Longrightarrow> seg_insert i a (s1 @ (i, as) # s2) = s1 @ (i, a # as) # s2"
  by (force simp: seg_insert_def map_of_eq_None_iff intro!: map_idI)

lemma nodes_seg_insert:
  assumes "distinct (map fst segs)"
  shows "set (nodes (seg_insert i a segs)) = insert a (set (nodes segs))" "length (nodes (seg_insert i a segs)) = Suc (length (nodes segs))"
proof -
  have "set (nodes (seg_insert i a segs)) = insert a (set (nodes segs)) \<and> length (nodes (seg_insert i a segs)) = Suc (length (nodes segs))"
  proof (cases "map_of segs i")
    case None
    then show ?thesis by (simp add: seg_insert_def)
  next
    case (Some as)
    obtain s1 s2 where "segs = s1 @ (i, as) # s2" "i \<notin> fst ` set s1" "i \<notin> fst ` set s2" by (rule seg_split [OF Some assms])
    then show ?thesis using seg_insert_split [of i s1 s2 a as] by auto
  qed
  then show "set (nodes (seg_insert i a segs)) = insert a (set (nodes segs))" "length (nodes (seg_insert i a segs)) = Suc (length (nodes segs))"
    by simp_all
qed

text \<open>A node is put into a bucket.\<close>

lemma layout_insert:
  assumes l: "bucket_layout n h bs segs" and i: "i < n" and a: "a \<notin> set (ht_list # nodes segs)" and t: "ht_heap t = h" "ht_buckets t = Some bs"
  obtains h' bs' where "insert_to_bucket i a t = Some (t\<lparr>ht_heap := h', ht_buckets := Some bs'\<rparr>)" "bucket_layout n h' bs' (seg_insert i a segs)"
    "\<And>z. z \<notin> set (a # ht_list # nodes segs) \<Longrightarrow> next h' z = next h z"
proof -
  have q: "queue h ht_list (nodes segs)" "length bs = n" "distinct (map fst segs)" "\<forall>seg \<in> set segs. snd seg \<noteq> [] \<and> fst seg < n"
    "\<forall>j < n. bs ! j = seg_bucket segs j" using l by (simp_all add: bucket_layout_def)
  have b: "mem_get bs i = Some (seg_bucket segs i)" using q(2,5) i by (simp add: mem_get_def)
  show thesis
  proof (cases "map_of segs i")
    case None
    let ?h = "list_insert ht_list a h" and ?segs = "segs @ [(i, [a])]"
    have "queue ?h ht_list (nodes ?segs)" "z \<notin> set (a # ht_list # nodes segs) \<Longrightarrow> next ?h z = next h z" for z
      using queue_list_insert [of h ht_list "nodes segs" "[]" a] q(1) a by simp_all
    moreover have "seg_bucket ?segs j = (if j = i then (a, a) else seg_bucket segs j)" for j
      using None by (auto simp: seg_bucket_def map_add_def split: option.splits)
    moreover have "i \<notin> fst ` set segs" using None by (simp add: map_of_eq_None_iff)
    ultimately have "bucket_layout n ?h (bs[i := (a, a)]) (seg_insert i a segs)"
      using q(2-5) i None by (auto simp: bucket_layout_def seg_insert_def nth_list_update)
    moreover have "insert_to_bucket i a t = Some (t\<lparr>ht_heap := ?h, ht_buckets := Some (bs[i := (a, a)])\<rparr>)"
      using b t None by (simp add: insert_to_bucket_def seg_bucket_def bucket_is_empty_def)
    ultimately show thesis
      using that queue_list_insert(2) [of h ht_list "nodes segs" "[]" a] q(1) a by simp
  next
    case (Some as)
    obtain s1 s2 where s: "segs = s1 @ (i, as) # s2" "i \<notin> fst ` set s1" "i \<notin> fst ` set s2" by (rule seg_split [OF Some q(3)])
    have as: "as \<noteq> []" "hd as \<noteq> ht_list" using q(1,4) s(1) by (cases as; auto simp: queue_def)+
    let ?h = "list_insert (hd as) a h" and ?segs = "s1 @ (i, a # as) # s2"
    have n: "nodes segs = nodes s1 @ (as @ nodes s2)" "hd ((as @ nodes s2) @ [ht_list]) = hd as" using s(1) as(1) by simp_all
    have ins: "queue ?h ht_list (nodes s1 @ a # (as @ nodes s2))" "z \<notin> set (a # ht_list # nodes segs) \<Longrightarrow> next ?h z = next h z" for z
      using queue_list_insert [of h ht_list "nodes s1" "as @ nodes s2" a] q(1) a n by simp_all
    have "seg_bucket ?segs j = (if j = i then (a, last as) else seg_bucket segs j)" for j
      using s as(1) seg_bucket_mid(1) [OF s(2,3)] by simp
    then have "bucket_layout n ?h (bs[i := (a, last as)]) (seg_insert i a segs)"
      using q(2-5) i s ins(1) seg_insert_split [OF s(2,3), of a as] by (auto simp: bucket_layout_def nth_list_update)
    moreover have "insert_to_bucket i a t = Some (t\<lparr>ht_heap := ?h, ht_buckets := Some (bs[i := (a, last as)])\<rparr>)"
      using b t Some as(2) by (simp add: insert_to_bucket_def seg_bucket_def bucket_is_empty_def)
    ultimately show thesis using that ins(2) by blast
  qed
qed

text \<open>A node is taken out of its bucket.\<close>

definition unlink_bucket :: "ngx_heap \<Rightarrow> addr \<Rightarrow> addr \<times> addr \<Rightarrow> addr \<times> addr" where
  "unlink_bucket h a b = (if a = fst b \<and> a = snd b then (ht_list, ht_list)
     else if a = fst b then (next h a, snd b)
     else if a = snd b then (fst b, prev h a)
     else b)"

lemma layout_remove:
  assumes l: "bucket_layout n h bs segs" and s: "map_of segs i = Some as" "a \<in> set as"
  obtains segs' where "bucket_layout n (list_remove a h) (bs[i := unlink_bucket h a (hd as, last as)]) segs'"
    "set segs' \<subseteq> insert (i, remove1 a as) (set segs)" "set (nodes segs') = set (nodes segs) - {a}" "Suc (length (nodes segs')) = length (nodes segs)"
proof -
  have q: "queue h ht_list (nodes segs)" "length bs = n" "distinct (map fst segs)" "\<forall>seg \<in> set segs. snd seg \<noteq> [] \<and> fst seg < n"
    "\<forall>j < n. bs ! j = seg_bucket segs j" using l by (simp_all add: bucket_layout_def)
  obtain s1 s2 where s': "segs = s1 @ (i, as) # s2" "i \<notin> fst ` set s1" "i \<notin> fst ` set s2" by (rule seg_split [OF s(1) q(3)])
  obtain xs ys where as: "as = xs @ a # ys" using s(2) by (meson split_list)
  have n: "nodes segs = (nodes s1 @ xs) @ a # (ys @ nodes s2)" using s'(1) as by simp
  have d: "distinct (nodes segs)" using q(1) by (simp add: queue_def)
  have rm: "queue (list_remove a h) ht_list ((nodes s1 @ xs) @ (ys @ nodes s2))" using queue_list_remove q(1) unfolding n by blast
  have nb: "xs \<noteq> [] \<Longrightarrow> prev h a = last xs" "ys \<noteq> [] \<Longrightarrow> next h a = hd ys"
    using queue_neighbours [of h ht_list "nodes s1 @ xs" a "ys @ nodes s2"] q(1) unfolding n by auto
  have i: "i < n" using q(4) s'(1) by auto
  have r: "remove1 a as = xs @ ys" using d s'(1) as by (simp add: remove1_append)
  define segs' where "segs' = (if xs @ ys = [] then s1 @ s2 else s1 @ (i, xs @ ys) # s2)"
  have na: "a \<notin> set xs" "a \<notin> set ys" using d s'(1) as by auto
  have b: "seg_bucket segs' j = (if j = i then unlink_bucket h a (hd as, last as) else seg_bucket segs j)" for j
  proof (cases "j = i")
    case False
    then show ?thesis using s' seg_bucket_mid(1) [OF s'(2,3)] by (simp add: segs'_def)
  next
    case True
    have "last xs \<in> set xs" if "xs \<noteq> []" using that by simp
    moreover have "hd ys \<in> set ys" "last ys \<in> set ys" if "ys \<noteq> []" using that by simp_all
    ultimately show ?thesis
      using True na nb seg_bucket_mid [OF s'(2,3)] as
      by (cases xs; cases ys) (auto simp: segs'_def unlink_bucket_def)
  qed
  have "bucket_layout n (list_remove a h) (bs[i := unlink_bucket h a (hd as, last as)]) segs'"
    using rm q(2-5) s' b i by (auto simp: bucket_layout_def segs'_def nth_list_update)
  moreover have "set segs' \<subseteq> insert (i, remove1 a as) (set segs)" using s'(1) r by (auto simp: segs'_def)
  moreover have "set (nodes segs') = set (nodes segs) - {a}" using d n s'(1) by (auto simp: segs'_def)
  moreover have "Suc (length (nodes segs')) = length (nodes segs)" using n s'(1) by (auto simp: segs'_def)
  ultimately show thesis using that by blast
qed

section \<open>Looking for a key\<close>

lemma find_loop_chain:
  assumes "chain (next (ht_heap t)) as" "as \<noteq> []" "distinct as" "set as \<subseteq> dom (ht_pairs t)"
  shows "find_loop t key hash (last as) (hd as) =
    Some (find (\<lambda>a. \<exists>p. ht_pairs t a = Some p \<and> pr_hash p = hash \<and> pr_key p = key) as)"
  using assms
proof (induction as rule: chain.induct [of "\<lambda>_ as. P as" for P, case_names two nil one])
  case (two f x y zs)
  then obtain p where "ht_pairs t x = Some p" by auto
  moreover have "last (y # zs) \<in> set (y # zs)" by simp
  then have "x \<noteq> last (x # y # zs)" using two.prems(3) by auto
  ultimately show ?case using two by (subst find_loop.simps) auto
next
  case (one f x)
  then obtain p where "ht_pairs t x = Some p" by auto
  then show ?case by (subst find_loop.simps) simp
qed simp

section \<open>The representation\<close>

text \<open>Hash values are those of the keys, and no two pairs have the same key.\<close>

definition keys_ok :: "bool \<Rightarrow> (addr \<rightharpoonup> 'v hashtable_pair) \<Rightarrow> bool" where
  "keys_ok sc ps \<longleftrightarrow> (\<forall>a p. ps a = Some p \<longrightarrow> pr_hash p = hash_str sc (pr_key p)) \<and>
     (\<forall>a b p q. ps a = Some p \<longrightarrow> ps b = Some q \<longrightarrow> pr_key p = pr_key q \<longrightarrow> a = b)"

definition homes :: "nat \<Rightarrow> (addr \<rightharpoonup> 'v hashtable_pair) \<Rightarrow> segments \<Rightarrow> bool" where
  "homes n ps segs \<longleftrightarrow> (\<forall>seg \<in> set segs. \<forall>a \<in> set (snd seg). \<forall>p. ps a = Some p \<longrightarrow> pr_hash p mod n = fst seg)"

definition ht_rep :: "bool \<Rightarrow> 'v hashtable_t \<Rightarrow> nat \<Rightarrow> (addr \<times> addr) list \<Rightarrow> segments \<Rightarrow> bool" where
  "ht_rep sc t n bs segs \<longleftrightarrow> num_buckets t = Some n \<and> ht_buckets t = Some bs \<and> bucket_layout n (ht_heap t) bs segs \<and>
     homes n (ht_pairs t) segs \<and> keys_ok sc (ht_pairs t) \<and>
     dom (ht_pairs t) = set (nodes segs) \<and> ht_size t = length (nodes segs)"

text \<open>The map from keys to values that the pairs hold.\<close>

definition holds :: "(addr \<rightharpoonup> 'v hashtable_pair) \<Rightarrow> (string \<rightharpoonup> 'v) \<Rightarrow> bool" where
  "holds ps m \<longleftrightarrow> (\<forall>k v. m k = Some v \<longleftrightarrow> (\<exists>a p. ps a = Some p \<and> pr_key p = k \<and> pr_value p = v))"

definition ht_ok :: "bool \<Rightarrow> 'v hashtable_t \<Rightarrow> (string \<rightharpoonup> 'v) \<Rightarrow> bool" where
  "ht_ok sc t m \<longleftrightarrow> (\<exists>n bs segs. ht_rep sc t n bs segs) \<and> holds (ht_pairs t) m"

lemma num_buckets_pos: "num_buckets t = Some n \<Longrightarrow> 0 < n"
proof -
  assume "num_buckets t = Some n"
  then have "n \<in> set primes" by (auto simp: num_buckets_def mem_get_def split: if_splits)
  then show ?thesis by (auto simp: primes_def)
qed

lemma ht_repE:
  assumes "ht_rep sc t n bs segs"
  shows "num_buckets t = Some n" "ht_buckets t = Some bs" "bucket_layout n (ht_heap t) bs segs" "homes n (ht_pairs t) segs"
    "keys_ok sc (ht_pairs t)" "dom (ht_pairs t) = set (nodes segs)" "ht_size t = length (nodes segs)" "0 < n"
    "queue (ht_heap t) ht_list (nodes segs)" "distinct (nodes segs)" "ht_list \<notin> set (nodes segs)"
  using assms num_buckets_pos [of t n] by (simp_all add: ht_rep_def bucket_layout_def queue_def)

lemma holdsD: "holds ps m \<Longrightarrow> ps a = Some p \<Longrightarrow> m (pr_key p) = Some (pr_value p)"
  by (auto simp: holds_def)

lemma keys_okD: "keys_ok sc ps \<Longrightarrow> ps a = Some p \<Longrightarrow> ps b = Some q \<Longrightarrow> pr_key p = pr_key q \<Longrightarrow> a = b"
  by (simp add: keys_ok_def)

lemma holds_remove:
  assumes "holds ps m" "keys_ok sc ps" "ps a = Some p"
  shows "holds (ps(a := None)) (m(pr_key p := None))"
  unfolding holds_def
proof (intro allI)
  fix k v
  show "(m(pr_key p := None)) k = Some v \<longleftrightarrow> (\<exists>b q. (ps(a := None)) b = Some q \<and> pr_key q = k \<and> pr_value q = v)"
  proof (cases "k = pr_key p")
    case True
    then show ?thesis using keys_okD [OF assms(2,3)] by auto
  next
    case False
    then have "(\<exists>b q. ps b = Some q \<and> pr_key q = k \<and> pr_value q = v) \<longleftrightarrow> (\<exists>b q. (ps(a := None)) b = Some q \<and> pr_key q = k \<and> pr_value q = v)"
      using assms(3) by (metis fun_upd_other fun_upd_same option.distinct(1) option.inject)
    then show ?thesis using assms(1) False by (simp add: holds_def)
  qed
qed

lemma holds_add:
  assumes "holds ps m" "ps a = None" "m (pr_key p) = None"
  shows "holds (ps(a \<mapsto> p)) (m(pr_key p \<mapsto> pr_value p))"
  unfolding holds_def
proof (intro allI)
  fix k v
  show "(m(pr_key p \<mapsto> pr_value p)) k = Some v \<longleftrightarrow> (\<exists>b q. (ps(a \<mapsto> p)) b = Some q \<and> pr_key q = k \<and> pr_value q = v)"
  proof (cases "k = pr_key p")
    case True
    have "pr_key q \<noteq> pr_key p" if "ps b = Some q" for b q using holdsD [OF assms(1) that] assms(3) by auto
    then show ?thesis using True by auto
  next
    case False
    then have "(\<exists>b q. ps b = Some q \<and> pr_key q = k \<and> pr_value q = v) \<longleftrightarrow> (\<exists>b q. (ps(a \<mapsto> p)) b = Some q \<and> pr_key q = k \<and> pr_value q = v)"
      using assms(2) by (metis fun_upd_other fun_upd_same option.distinct(1) option.inject)
    then show ?thesis using assms(1) False by (simp add: holds_def)
  qed
qed

lemma holds_replace:
  assumes "holds ps m" "keys_ok sc ps" "ps a = Some p"
  shows "holds (ps(a \<mapsto> p\<lparr>pr_value := v\<rparr>)) (m(pr_key p \<mapsto> v))"
proof -
  have "holds ((ps(a := None))(a \<mapsto> p\<lparr>pr_value := v\<rparr>)) ((m(pr_key p := None))(pr_key p \<mapsto> v))"
    using holds_add [OF holds_remove [OF assms], of a "p\<lparr>pr_value := v\<rparr>"] by simp
  then show ?thesis by simp
qed

text \<open>What is found is the pair of the key.\<close>

definition finds :: "'v hashtable_t \<Rightarrow> segments \<Rightarrow> nat \<Rightarrow> string \<Rightarrow> addr option \<Rightarrow> bool" where
  "finds t segs i k r \<longleftrightarrow> (case r of
     Some a \<Rightarrow> (\<exists>p as. ht_pairs t a = Some p \<and> pr_key p = k \<and> map_of segs i = Some as \<and> a \<in> set as)
   | None \<Rightarrow> (\<forall>a p. ht_pairs t a = Some p \<longrightarrow> pr_key p \<noteq> k))"

lemma find_pair_ok:
  assumes rep: "ht_rep sc t n bs segs"
  obtains r where "mem_get bs (hash_str sc k mod n) = Some (seg_bucket segs (hash_str sc k mod n))"
    "hashtable_find_pair t (seg_bucket segs (hash_str sc k mod n)) k (hash_str sc k) = Some r"
    "finds t segs (hash_str sc k mod n) k r"
proof -
  note r = ht_repE [OF rep]
  let ?hash = "hash_str sc k" and ?i = "hash_str sc k mod n"
  have i: "?i < n" using r(8) by simp
  have l: "length bs = n" "distinct (map fst segs)" "\<forall>seg \<in> set segs. snd seg \<noteq> []" "bs ! ?i = seg_bucket segs ?i"
    using r(3) i by (simp_all add: bucket_layout_def)
  have home: "a \<in> set as \<longleftrightarrow> map_of segs ?i = Some as \<and> a \<in> set as" if "ht_pairs t a = Some p" "pr_key p = k" "(j, as) \<in> set segs" for a p j as
  proof -
    have "a \<in> set as \<Longrightarrow> j = ?i" using that r(4,5) by (force simp: homes_def keys_ok_def)
    then show ?thesis using that(3) l(2) by auto
  qed
  have m: "mem_get bs ?i = Some (seg_bucket segs ?i)" using l i by (simp add: mem_get_def)
  show thesis
  proof (cases "map_of segs ?i")
    case None
    have "pr_key p \<noteq> k" if "ht_pairs t a = Some p" for a p
    proof
      assume k: "pr_key p = k"
      have "a \<in> set (nodes segs)" using that r(6) by auto
      then obtain j as where "(j, as) \<in> set segs" "a \<in> set as" by auto
      then show False using home [OF that k] None by auto
    qed
    moreover have "hashtable_find_pair t (seg_bucket segs ?i) k ?hash = Some None"
      using None by (simp add: hashtable_find_pair_def seg_bucket_def bucket_is_empty_def)
    ultimately show thesis using that [OF m, of None] by (simp add: finds_def)
  next
    case (Some as)
    obtain s1 s2 where s: "segs = s1 @ (?i, as) # s2" by (rule seg_split [OF Some l(2)])
    have as: "as \<noteq> []" "distinct as" "set as \<subseteq> dom (ht_pairs t)" "hd as \<noteq> ht_list"
      using s l(3) r(6,10,11) by (cases as; auto)+
    have ch: "chain (next (ht_heap t)) as" using queue_chain [of "ht_heap t" ht_list "nodes s1" as "nodes s2"] r(9) s by simp
    let ?P = "\<lambda>a. \<exists>p. ht_pairs t a = Some p \<and> pr_hash p = ?hash \<and> pr_key p = k"
    have f: "hashtable_find_pair t (seg_bucket segs ?i) k ?hash = Some (find ?P as)"
      using find_loop_chain [OF ch as(1-3)] Some as(4) by (simp add: hashtable_find_pair_def seg_bucket_def bucket_is_empty_def)
    have "finds t segs ?i k (find ?P as)"
    proof (cases "find ?P as")
      case None
      have "pr_key p \<noteq> k" if p: "ht_pairs t a = Some p" for a p
      proof
        assume k: "pr_key p = k"
        have "a \<in> set (nodes segs)" using p r(6) by auto
        then obtain j bs' where "(j, bs') \<in> set segs" "a \<in> set bs'" by auto
        then have "a \<in> set as" using home [OF p k] Some by auto
        moreover have "pr_hash p = ?hash" using r(5) p k by (auto simp: keys_ok_def)
        ultimately show False using None p k by (auto simp: find_None_iff)
      qed
      then show ?thesis using None by (simp add: finds_def)
    next
      case (Some a)
      then have "?P a" "a \<in> set as" by (auto simp: find_Some_iff)
      then show ?thesis using Some \<open>map_of segs ?i = Some as\<close> by (auto simp: finds_def)
    qed
    then show thesis using that [OF m f] by blast
  qed
qed

section \<open>The operations\<close>

lemma finds_holds:
  assumes "finds t segs i k r" "keys_ok sc (ht_pairs t)" "holds (ht_pairs t) m"
  shows "m k = (case r of None \<Rightarrow> None | Some a \<Rightarrow> map_option pr_value (ht_pairs t a))"
proof (cases r)
  case None
  then have "m k \<noteq> Some v" for v using assms(1,3) by (auto simp: finds_def holds_def)
  then show ?thesis using None by (cases "m k") auto
next
  case (Some a)
  then obtain p where "ht_pairs t a = Some p" "pr_key p = k" using assms(1) by (auto simp: finds_def)
  then show ?thesis using holdsD [OF assms(3)] Some by auto
qed

lemma hashtable_get_ok:
  assumes "ht_ok sc t m"
  shows "hashtable_get sc k t = Some (m k)"
proof -
  obtain n bs segs where rep: "ht_rep sc t n bs segs" and h: "holds (ht_pairs t) m" using assms by (auto simp: ht_ok_def)
  note r = ht_repE [OF rep]
  obtain x where x: "mem_get bs (hash_str sc k mod n) = Some (seg_bucket segs (hash_str sc k mod n))"
    "hashtable_find_pair t (seg_bucket segs (hash_str sc k mod n)) k (hash_str sc k) = Some x"
    "finds t segs (hash_str sc k mod n) k x" by (rule find_pair_ok [OF rep])
  show ?thesis using r(1,2) x finds_holds [OF x(3) r(5) h]
    by (cases x) (auto simp: hashtable_get_def finds_def)
qed

lemma homes_remove:
  assumes "homes n ps segs" "(i, as) \<in> set segs" "set segs' \<subseteq> insert (i, remove1 a as) (set segs)"
  shows "homes n (ps(a := None)) segs'"
  unfolding homes_def
proof (intro ballI allI impI)
  fix seg b p assume *: "seg \<in> set segs'" "b \<in> set (snd seg)" "(ps(a := None)) b = Some p"
  then have b: "ps b = Some p" by (simp split: if_splits)
  show "pr_hash p mod n = fst seg"
  proof (cases "seg \<in> set segs")
    case True
    then show ?thesis using assms(1) *(2) b by (auto simp: homes_def)
  next
    case False
    then have "seg = (i, remove1 a as)" using assms(3) *(1) by auto
    then have "b \<in> set as" "fst seg = i" using *(2) set_remove1_subset [of a as] by auto
    then show ?thesis using assms(1,2) b by (force simp: homes_def)
  qed
qed

text \<open>Deletion gives back the reference to the value and takes the key out of the map.\<close>

lemma hashtable_del_ok:
  assumes ok: "ht_ok sc t m" and sz: "ht_size t < 2 ^ 64"
  shows "case m k of None \<Rightarrow> hashtable_del sc k t = Some (- 1, t)
    | Some v \<Rightarrow> \<exists>t'. hashtable_del sc k t = Some (0, t') \<and> ht_ok sc t' (m(k := None)) \<and> ht_released t' = ht_released t @ [v] \<and>
        Suc (ht_size t') = ht_size t"
proof -
  obtain n bs segs where rep: "ht_rep sc t n bs segs" and h: "holds (ht_pairs t) m" using ok by (auto simp: ht_ok_def)
  note r = ht_repE [OF rep]
  let ?i = "hash_str sc k mod n"
  obtain x where x: "mem_get bs ?i = Some (seg_bucket segs ?i)"
    "hashtable_find_pair t (seg_bucket segs ?i) k (hash_str sc k) = Some x"
    "finds t segs ?i k x" by (rule find_pair_ok [OF rep])
  note mk = finds_holds [OF x(3) r(5) h]
  show ?thesis
  proof (cases x)
    case None
    then show ?thesis using mk r(1,2) x by (simp add: hashtable_del_def hashtable_do_del_def Let_def)
  next
    case (Some a)
    then obtain p as where p: "ht_pairs t a = Some p" "pr_key p = k" "map_of segs ?i = Some as" "a \<in> set as"
      using x(3) by (auto simp: finds_def)
    obtain segs' where s: "bucket_layout n (list_remove a (ht_heap t)) (bs[?i := unlink_bucket (ht_heap t) a (hd as, last as)]) segs'"
      "set segs' \<subseteq> insert (?i, remove1 a as) (set segs)" "set (nodes segs') = set (nodes segs) - {a}" "Suc (length (nodes segs')) = length (nodes segs)"
      by (rule layout_remove [OF r(3) p(3,4)])
    define t' where "t' = t\<lparr>ht_buckets := Some (bs[?i := unlink_bucket (ht_heap t) a (hd as, last as)]), ht_heap := list_remove a (ht_heap t),
      ht_released := ht_released t @ [pr_value p], ht_pairs := (ht_pairs t)(a := None), ht_size := size_sub (ht_size t) 1\<rparr>"
    have sb: "seg_bucket segs ?i = (hd as, last as)" using p(3) by (simp add: seg_bucket_def)
    have eq: "hashtable_del sc k t = Some (0, t')"
      using r(1,2) x(1,2) Some p(1) unfolding sb
      by (simp add: hashtable_del_def hashtable_do_del_def t'_def unlink_bucket_def Let_def)
    have sz': "size_sub (ht_size t) 1 = length (nodes segs')" using s(4) r(7) sz by (simp add: size_sub_le)
    have "homes n ((ht_pairs t)(a := None)) segs'"
      using homes_remove [OF r(4) map_of_SomeD [OF p(3)] s(2)] .
    moreover have "keys_ok sc ((ht_pairs t)(a := None))" using r(5) unfolding keys_ok_def by (auto split: if_splits)
    moreover have "num_buckets t' = Some n" using r(1) by (simp add: t'_def num_buckets_def)
    ultimately have "ht_rep sc t' n (bs[?i := unlink_bucket (ht_heap t) a (hd as, last as)]) segs'"
      using s(1,3) r(6) sz' by (auto simp: ht_rep_def t'_def)
    moreover have "holds (ht_pairs t') (m(k := None))"
      using holds_remove [OF h r(5) p(1)] p(2) by (simp add: t'_def)
    moreover have "ht_released t' = ht_released t @ [pr_value p]" "Suc (ht_size t') = ht_size t" using sz' s(4) r(7) by (simp_all add: t'_def)
    moreover have "m k = Some (pr_value p)" using mk Some p(1) by simp
    ultimately show ?thesis using eq unfolding ht_ok_def by auto
  qed
qed

section \<open>Growing\<close>

lemma homes_insert:
  assumes "homes n ps segs" "\<And>p. ps a = Some p \<Longrightarrow> pr_hash p mod n = i"
  shows "homes n ps (seg_insert i a segs)"
  using assms by (auto simp: homes_def seg_insert_def split: if_splits)

lemma path_first: "path f a xs b \<Longrightarrow> f a = hd (xs @ [b])"
  by (cases xs) simp_all

lemma rehash_loop_ok:
  assumes "bucket_layout n (ht_heap t) bs segs" "ht_buckets t = Some bs" "homes n (ht_pairs t) segs" "0 < n"
    and "rs \<noteq> [] \<Longrightarrow> path (next (ht_heap t)) (hd rs) (tl rs) ht_list" "distinct rs"
    and "set rs \<inter> set (ht_list # nodes segs) = {}" "set rs \<subseteq> dom (ht_pairs t)"
  shows "\<exists>h bs' segs'. rehash_loop n (hd (rs @ [ht_list])) t = Some (t\<lparr>ht_heap := h, ht_buckets := Some bs'\<rparr>) \<and> bucket_layout n h bs' segs' \<and>
    homes n (ht_pairs t) segs' \<and> set (nodes segs') = set rs \<union> set (nodes segs) \<and> length (nodes segs') = length rs + length (nodes segs)"
  using assms
proof (induction rs arbitrary: t bs segs)
  case Nil
  then have "rehash_loop n (hd ([] @ [ht_list])) t = Some (t\<lparr>ht_heap := ht_heap t, ht_buckets := Some bs\<rparr>)"
    by (subst rehash_loop.simps) simp
  then show ?case using Nil by (intro exI [of _ "ht_heap t"] exI [of _ bs] exI [of _ segs]) simp
next
  case (Cons x xs)
  obtain p where p: "ht_pairs t x = Some p" using Cons.prems(8) by auto
  let ?i = "pr_hash p mod n"
  have x: "?i < n" "x \<notin> set (ht_list # nodes segs)" using Cons.prems(4,7) by auto
  obtain h' bs' where ins: "insert_to_bucket ?i x t = Some (t\<lparr>ht_heap := h', ht_buckets := Some bs'\<rparr>)" "bucket_layout n h' bs' (seg_insert ?i x segs)"
    "\<And>z. z \<notin> set (x # ht_list # nodes segs) \<Longrightarrow> next h' z = next (ht_heap t) z"
    using layout_insert [OF Cons.prems(1) x refl Cons.prems(2)] by blast
  have d: "distinct (map fst segs)" using Cons.prems(1) by (simp add: bucket_layout_def)
  have path: "path (next (ht_heap t)) x xs ht_list" using Cons.prems(5) by simp
  have nx: "next (ht_heap t) x = hd (xs @ [ht_list])" using path_first [OF path] .
  let ?t = "t\<lparr>ht_heap := h', ht_buckets := Some bs'\<rparr>" and ?segs = "seg_insert ?i x segs"
  have "path (next h') (hd xs) (tl xs) ht_list" if "xs \<noteq> []"
  proof -
    have "path (next (ht_heap t)) (hd xs) (tl xs) ht_list" using path that by (cases xs) simp_all
    moreover have "path (next h') (hd xs) (tl xs) ht_list = path (next (ht_heap t)) (hd xs) (tl xs) ht_list"
      using that Cons.prems(6,7) by (intro path_cong ins(3)) (cases xs; auto)
    ultimately show ?thesis by simp
  qed
  moreover have "set xs \<inter> set (ht_list # nodes ?segs) = {}"
    using Cons.prems(6,7) nodes_seg_insert(1) [OF d, of ?i x] by auto
  moreover have "homes n (ht_pairs t) ?segs" by (rule homes_insert [OF Cons.prems(3)]) (use p in simp)
  ultimately obtain h bs'' segs' where r: "rehash_loop n (hd (xs @ [ht_list])) ?t = Some (?t\<lparr>ht_heap := h, ht_buckets := Some bs''\<rparr>)"
    "bucket_layout n h bs'' segs'" "homes n (ht_pairs t) segs'" "set (nodes segs') = set xs \<union> set (nodes ?segs)"
    "length (nodes segs') = length xs + length (nodes ?segs)"
    using Cons.IH [of ?t bs' ?segs] ins(2) Cons.prems(4,6,8) by auto
  have "x \<noteq> ht_list" using x(2) by simp
  then have "rehash_loop n (hd ((x # xs) @ [ht_list])) t = Some (t\<lparr>ht_heap := h, ht_buckets := Some bs''\<rparr>)"
    using r(1) p ins(1) nx by (subst rehash_loop.simps) simp
  then show ?case using r(2-5) nodes_seg_insert [OF d, of ?i x]
    by (intro exI [of _ h] exI [of _ bs''] exI [of _ segs']) simp
qed

text \<open>The number of pairs for which there is a larger table.\<close>

definition ht_max :: nat where "ht_max = 1610612741"

lemma primes_next: "num_buckets t = Some n \<Longrightarrow> n \<le> sz \<Longrightarrow> sz < ht_max \<Longrightarrow> ht_num_buckets t + 1 < length primes"
proof (rule ccontr)
  assume *: "num_buckets t = Some n" "n \<le> sz" "sz < ht_max" "\<not> ht_num_buckets t + 1 < length primes"
  then have "ht_num_buckets t < length primes" "n = primes ! ht_num_buckets t" by (auto simp: num_buckets_def mem_get_def split: if_splits)
  moreover from this *(4) have "ht_num_buckets t = 28" by (simp add: primes_def)
  ultimately show False using *(2,3) by (simp add: primes_def ht_max_def)
qed

lemma rehash_ok:
  assumes rep: "ht_rep sc t n bs segs" and sz: "n \<le> ht_size t" "ht_size t < ht_max"
  shows "\<exists>t' n' bs' segs'. hashtable_do_rehash True t = Some (0, t') \<and> ht_rep sc t' n' bs' segs' \<and> ht_pairs t' = ht_pairs t \<and>
    ht_size t' = ht_size t \<and> ht_released t' = ht_released t"
proof -
  note r = ht_repE [OF rep]
  obtain n' where n': "mem_get primes (ht_num_buckets t + 1) = Some n'" using primes_next [OF r(1) sz] by (auto simp: mem_get_def)
  then have pos: "0 < n'" using num_buckets_pos [of "t\<lparr>ht_num_buckets := ht_num_buckets t + 1\<rparr>" n'] by (simp add: num_buckets_def)
  define t1 where "t1 = t\<lparr>ht_num_buckets := ht_num_buckets t + 1, ht_buckets := Some (replicate n' (ht_list, ht_list)),
    ht_heap := list_init ht_list (ht_heap t)\<rparr>"
  let ?rs = "nodes segs"
  have q: "path (next (ht_heap t)) ht_list ?rs ht_list" using r(9) by (simp add: queue_def)
  have l: "bucket_layout n' (ht_heap t1) (replicate n' (ht_list, ht_list)) []"
    using queue_init [of ht_list] by (simp add: bucket_layout_def t1_def list_init_eq seg_bucket_def)
  have p: "path (next (ht_heap t1)) (hd ?rs) (tl ?rs) ht_list" if "?rs \<noteq> []"
  proof -
    have "path (next (ht_heap t)) (hd ?rs) (tl ?rs) ht_list" using q that by (cases ?rs) simp_all
    moreover have "path (next (ht_heap t1)) (hd ?rs) (tl ?rs) ht_list = path (next (ht_heap t)) (hd ?rs) (tl ?rs) ht_list"
    proof (rule path_cong)
      fix z assume "z \<in> set (hd ?rs # tl ?rs)"
      then have "z \<noteq> ht_list" using r(11) that by (metis list.collapse)
      then show "next (ht_heap t1) z = next (ht_heap t) z" by (simp add: t1_def list_init_next)
    qed
    ultimately show ?thesis by simp
  qed
  have first: "next (ht_heap t) ht_list = hd (?rs @ [ht_list])" using path_first [OF q] .
  obtain h bs' segs' where lp: "rehash_loop n' (hd (?rs @ [ht_list])) t1 = Some (t1\<lparr>ht_heap := h, ht_buckets := Some bs'\<rparr>)" "bucket_layout n' h bs' segs'"
    "homes n' (ht_pairs t) segs'" "set (nodes segs') = set ?rs" "length (nodes segs') = length ?rs"
    using rehash_loop_ok [OF l _ _ pos p r(10)] r(6,11) by (auto simp: t1_def homes_def)
  let ?t = "t1\<lparr>ht_heap := h, ht_buckets := Some bs'\<rparr>"
  have "hashtable_do_rehash True t = Some (0, ?t)"
    using n' lp(1) first by (simp add: hashtable_do_rehash_def num_buckets_def t1_def Let_def)
  moreover have "ht_rep sc ?t n' bs' segs'"
    using lp(2-5) r(5-7) n' by (simp add: ht_rep_def t1_def num_buckets_def)
  ultimately show ?thesis by (intro exI [of _ ?t] exI [of _ n'] exI [of _ bs'] exI [of _ segs']) (simp add: t1_def)
qed

section \<open>Setting a key\<close>

text \<open>What \<open>hashtable_set\<close> has done: replaced a value, added a pair, or found no memory for one.\<close>

definition set_result ::
  "bool \<Rightarrow> 'v hashtable_t \<Rightarrow> (string \<rightharpoonup> 'v) \<Rightarrow> addr option \<Rightarrow> string \<Rightarrow> 'v \<Rightarrow> (int \<times> 'v hashtable_t) option \<Rightarrow> bool" where
  "set_result sc t m new k v res \<longleftrightarrow> (case (m k, new) of
     (Some old, _) \<Rightarrow> \<exists>t'. res = Some (0, t') \<and> ht_ok sc t' (m(k \<mapsto> v)) \<and> ht_size t' = ht_size t \<and> ht_released t' = ht_released t @ [old]
   | (None, Some a) \<Rightarrow> \<exists>t'. res = Some (0, t') \<and> ht_ok sc t' (m(k \<mapsto> v)) \<and> ht_size t' = ht_size t + 1 \<and> ht_released t' = ht_released t
   | (None, None) \<Rightarrow> \<exists>t'. res = Some (- 1, t') \<and> ht_ok sc t' m \<and> ht_size t' = ht_size t \<and> ht_released t' = ht_released t)"

lemma keys_ok_replace: "keys_ok sc ps \<Longrightarrow> ps a = Some p \<Longrightarrow> keys_ok sc (ps(a \<mapsto> p\<lparr>pr_value := v\<rparr>))"
  unfolding keys_ok_def by (simp split: if_splits) (metis)

lemma set_pair_ok:
  assumes rep: "ht_rep sc t n bs segs" and h: "holds (ht_pairs t) m" and sz: "ht_size t < ht_max"
    and new: "pred_option (\<lambda>a. a \<noteq> ht_list \<and> ht_pairs t a = None) new"
  shows "set_result sc t m new k v (set_pair sc new k serial v t)"
proof -
  note r = ht_repE [OF rep]
  let ?i = "hash_str sc k mod n"
  obtain x where x: "mem_get bs ?i = Some (seg_bucket segs ?i)"
    "hashtable_find_pair t (seg_bucket segs ?i) k (hash_str sc k) = Some x"
    "finds t segs ?i k x" by (rule find_pair_ok [OF rep])
  note mk = finds_holds [OF x(3) r(5) h]
  show ?thesis
  proof (cases x)
    case (Some a)
    then obtain p where p: "ht_pairs t a = Some p" "pr_key p = k" using x(3) by (auto simp: finds_def)
    let ?t = "t\<lparr>ht_released := ht_released t @ [pr_value p], ht_pairs := (ht_pairs t)(a \<mapsto> p\<lparr>pr_value := v\<rparr>)\<rparr>"
    have "set_pair sc new k serial v t = Some (0, ?t)" using r(1,2) x(1,2) Some p by (simp add: set_pair_def Let_def)
    moreover have "holds (ht_pairs ?t) (m(k \<mapsto> v))" using holds_replace [OF h r(5) p(1), of v] p(2) by simp
    moreover have "homes n (ht_pairs ?t) segs" using r(4) p(1) by (auto simp: homes_def split: if_splits)
    then have "ht_rep sc ?t n bs segs"
      using rep keys_ok_replace [OF r(5) p(1), of v] p(1) by (auto simp: ht_rep_def num_buckets_def)
    moreover have "m k = Some (pr_value p)" using mk Some p(1) by simp
    ultimately show ?thesis unfolding set_result_def ht_ok_def by auto
  next
    case None
    then have mk': "m k = None" using mk by simp
    show ?thesis
    proof (cases new)
      case None
      then have "set_pair sc new k serial v t = Some (- 1, t)" using r(1,2) x(1,2) \<open>x = None\<close> by (simp add: set_pair_def Let_def)
      then show ?thesis using mk' None rep h unfolding set_result_def ht_ok_def by auto
    next
      case (Some a)
      let ?p = "\<lparr>pr_hash = hash_str sc k, pr_value = v, pr_serial = serial, pr_key = k\<rparr>"
      let ?t = "t\<lparr>ht_pairs := (ht_pairs t)(a \<mapsto> ?p), ht_heap := list_init a (ht_heap t)\<rparr>"
      have a: "a \<noteq> ht_list" "ht_pairs t a = None" using new Some by simp_all
      then have an: "a \<notin> set (ht_list # nodes segs)" using r(6) by auto
      have i: "?i < n" using r(8) by simp
      have "bucket_layout n (ht_heap ?t) bs segs" using r(3) an init_frame [of "ht_heap t" ht_list "nodes segs" a] by (simp add: bucket_layout_def list_init_eq)
      moreover have "ht_buckets ?t = Some bs" using r(2) by simp
      ultimately obtain h' bs' where
        ins: "insert_to_bucket ?i a ?t = Some (?t\<lparr>ht_heap := h', ht_buckets := Some bs'\<rparr>)" "bucket_layout n h' bs' (seg_insert ?i a segs)"
        using layout_insert [OF _ i an refl, of ?t bs] by blast
      let ?t' = "t\<lparr>ht_pairs := (ht_pairs t)(a \<mapsto> ?p), ht_heap := h', ht_buckets := Some bs', ht_size := ht_size t + 1\<rparr>"
      have "size_add (ht_size t) 1 = ht_size t + 1" using sz by (simp add: size_add_small ht_max_def)
      then have eq: "set_pair sc new k serial v t = Some (0, ?t')"
        using r(1,2) x(1,2) \<open>x = None\<close> Some ins(1) by (simp add: set_pair_def Let_def)
      have d: "distinct (map fst segs)" using r(3) by (simp add: bucket_layout_def)
      have nk: "pr_key q \<noteq> k" if "ht_pairs t b = Some q" for b q using x(3) \<open>x = None\<close> that by (auto simp: finds_def)
      have "homes n ((ht_pairs t)(a \<mapsto> ?p)) segs" using r(4) an by (auto simp: homes_def)
      then have "homes n (ht_pairs ?t') (seg_insert ?i a segs)" using homes_insert [of n "(ht_pairs t)(a \<mapsto> ?p)" segs a ?i] by simp
      moreover have "keys_ok sc (ht_pairs ?t')" using r(5) nk unfolding keys_ok_def by (auto split: if_splits)
      ultimately have "ht_rep sc ?t' n bs' (seg_insert ?i a segs)"
        using ins(2) r(1,6,7) nodes_seg_insert [OF d, of ?i a] by (simp add: ht_rep_def num_buckets_def)
      moreover have "holds (ht_pairs ?t') (m(k \<mapsto> v))" using holds_add [OF h a(2), of ?p] mk' by simp
      ultimately show ?thesis using eq mk' Some unfolding set_result_def ht_ok_def by auto
    qed
  qed
qed

lemma hashtable_set_ok:
  assumes ok: "ht_ok sc t m" and sz: "ht_size t < ht_max" and new: "pred_option (\<lambda>a. a \<noteq> ht_list \<and> ht_pairs t a = None) new"
  shows "set_result sc t m new k v (hashtable_set sc True new k serial v t)"
proof -
  obtain n bs segs where rep: "ht_rep sc t n bs segs" and h: "holds (ht_pairs t) m" using ok by (auto simp: ht_ok_def)
  note n = ht_repE(1) [OF rep]
  show ?thesis
  proof (cases "ht_size t \<ge> n")
    case False
    then have "hashtable_set sc True new k serial v t = set_pair sc new k serial v t" using n by (simp add: hashtable_set_def)
    then show ?thesis using set_pair_ok [OF rep h sz new] by simp
  next
    case True
    then obtain t' n' bs' segs' where t': "hashtable_do_rehash True t = Some (0, t')" "ht_rep sc t' n' bs' segs'" "ht_pairs t' = ht_pairs t"
      "ht_size t' = ht_size t" "ht_released t' = ht_released t" using rehash_ok [OF rep True sz] by blast
    then have "hashtable_set sc True new k serial v t = set_pair sc new k serial v t'" using n True by (simp add: hashtable_set_def)
    moreover have "set_result sc t' m new k v (set_pair sc new k serial v t')"
      using set_pair_ok [OF t'(2)] h sz new t'(3,4) by simp
    moreover have "set_result sc t m new k v res = set_result sc t' m new k v res" for res by (simp only: set_result_def t'(4,5))
    ultimately show ?thesis by simp
  qed
qed

section \<open>All pairs\<close>

definition items :: "(addr \<rightharpoonup> 'v hashtable_pair) \<Rightarrow> addr list \<Rightarrow> (string \<times> 'v) list" where
  "items ps as = map (\<lambda>a. (pr_key (the (ps a)), pr_value (the (ps a)))) as"

text \<open>The iteration reaches every pair once.\<close>

lemma foreach_loop_ok:
  assumes "path (next (ht_heap t)) a as ht_list" "ht_list \<notin> set as" "set as \<subseteq> dom (ht_pairs t)"
  shows "foreach_loop (hashtable_iter_next a t) t = Some (items (ht_pairs t) as)"
  using assms
proof (induction as arbitrary: a)
  case Nil
  then show ?case by (subst foreach_loop.simps) (simp add: hashtable_iter_next_def items_def)
next
  case (Cons b as)
  obtain p where p: "ht_pairs t b = Some p" using Cons.prems(3) by auto
  have "foreach_loop (hashtable_iter_next b t) t = Some (items (ht_pairs t) as)" using Cons by simp
  moreover have "hashtable_iter_next a t = Some b" using Cons.prems(1,2) by (simp add: hashtable_iter_next_def)
  ultimately show ?case using p
    by (subst foreach_loop.simps) (simp add: hashtable_iter_key_def hashtable_iter_value_def items_def)
qed

lemma foreach_rep: "ht_rep sc t n bs segs \<Longrightarrow> json_object_foreach t = Some (items (ht_pairs t) (nodes segs))"
  using foreach_loop_ok [of t ht_list "nodes segs"] ht_repE(6,9,11) [of sc t n bs segs]
  by (simp add: json_object_foreach_def hashtable_iter_def queue_def)

lemma items_map:
  assumes "keys_ok sc ps" "dom ps = set as" "distinct as" "holds ps m"
  shows "distinct (map fst (items ps as))" "map_of (items ps as) = m"
proof -
  have k: "ps a = Some (the (ps a))" if "a \<in> set as" for a using assms(2) that by (metis domD option.sel)
  have "inj_on (\<lambda>a. pr_key (the (ps a))) (set as)" using keys_okD [OF assms(1) k k] by (auto simp: inj_on_def)
  then show d: "distinct (map fst (items ps as))" using assms(3) by (simp add: items_def comp_def distinct_map)
  have "m x = Some v \<longleftrightarrow> (x, v) \<in> set (items ps as)" for x v
  proof -
    have "(\<exists>a p. ps a = Some p \<and> pr_key p = x \<and> pr_value p = v) \<longleftrightarrow> (\<exists>a \<in> set as. pr_key (the (ps a)) = x \<and> pr_value (the (ps a)) = v)"
      using k assms(2) by (metis domI option.sel)
    then show ?thesis using assms(4) by (auto simp: holds_def items_def)
  qed
  then have "map_of (items ps as) x = Some v \<longleftrightarrow> m x = Some v" for x v using map_of_eq_Some_iff [OF d] by simp
  then have "map_of (items ps as) x = m x" for x by (metis option.exhaust)
  then show "map_of (items ps as) = m" by blast
qed

lemma foreach_ok:
  assumes "ht_ok sc t m"
  shows "\<exists>kvs. json_object_foreach t = Some kvs \<and> distinct (map fst kvs) \<and> map_of kvs = m \<and> length kvs = ht_size t"
proof -
  obtain n bs segs where rep: "ht_rep sc t n bs segs" and h: "holds (ht_pairs t) m" using assms by (auto simp: ht_ok_def)
  note r = ht_repE [OF rep]
  show ?thesis using foreach_rep [OF rep] items_map [OF r(5,6,10) h] r(7) by (simp add: items_def)
qed

text \<open>Clearing releases every value once.\<close>

lemma clear_loop_ok:
  assumes "path (next (ht_heap t)) a as ht_list" "ht_list \<notin> set as" "set as \<subseteq> dom (ht_pairs t)" "distinct as"
  shows "clear_loop (next (ht_heap t) a) t =
    Some (t\<lparr>ht_released := ht_released t @ map snd (items (ht_pairs t) as), ht_pairs := (ht_pairs t) |` (- set as)\<rparr>)"
  using assms
proof (induction as arbitrary: a t)
  case Nil
  then show ?case by (subst clear_loop.simps) (simp add: items_def restrict_map_def)
next
  case (Cons b as)
  obtain p where p: "ht_pairs t b = Some p" using Cons.prems(3) by auto
  let ?t = "t\<lparr>ht_released := ht_released t @ [pr_value p], ht_pairs := (ht_pairs t)(b := None)\<rparr>"
  have "clear_loop (next (ht_heap ?t) b) ?t =
      Some (?t\<lparr>ht_released := ht_released ?t @ map snd (items (ht_pairs ?t) as), ht_pairs := (ht_pairs ?t) |` (- set as)\<rparr>)"
    by (rule Cons.IH) (use Cons.prems in auto)
  moreover have "items (ht_pairs ?t) as = items (ht_pairs t) as" using Cons.prems(4) by (auto simp: items_def)
  moreover have "(ht_pairs ?t) |` (- set as) = (ht_pairs t) |` (- set (b # as))" by (auto simp: restrict_map_def fun_eq_iff)
  moreover have "next (ht_heap t) a = b" "b \<noteq> ht_list" using Cons.prems(1,2) by auto
  ultimately show ?case using p by (subst clear_loop.simps) (simp add: items_def)
qed

lemma do_clear_ok:
  assumes rep: "ht_rep sc t n bs segs"
  shows "hashtable_do_clear t = Some (t\<lparr>ht_released := ht_released t @ map snd (items (ht_pairs t) (nodes segs)), ht_pairs := Map.empty\<rparr>)"
proof -
  note r = ht_repE [OF rep]
  have "(ht_pairs t) |` (- set (nodes segs)) = Map.empty" using r(6) by (auto simp: restrict_map_def fun_eq_iff)
  then show ?thesis using clear_loop_ok [of t ht_list "nodes segs"] r(6,9-11) by (simp add: hashtable_do_clear_def queue_def)
qed

lemma hashtable_clear_ok:
  assumes "ht_ok sc t m"
  shows "\<exists>t' kvs. json_object_foreach t = Some kvs \<and> hashtable_clear t = Some t' \<and> ht_ok sc t' Map.empty \<and> ht_size t' = 0 \<and>
    ht_released t' = ht_released t @ map snd kvs"
proof -
  obtain n bs segs where rep: "ht_rep sc t n bs segs" using assms by (auto simp: ht_ok_def)
  note r = ht_repE [OF rep]
  define t' where "t' = t\<lparr>ht_released := ht_released t @ map snd (items (ht_pairs t) (nodes segs)), ht_pairs := Map.empty,
    ht_buckets := Some (replicate n (ht_list, ht_list)), ht_heap := list_init ht_list (ht_heap t), ht_size := 0\<rparr>"
  have "length bs = n" using r(3) by (simp add: bucket_layout_def)
  then have "hashtable_clear t = Some t'"
    using do_clear_ok [OF rep] r(1,2) by (simp add: hashtable_clear_def num_buckets_def t'_def)
  moreover have "ht_rep sc t' n (replicate n (ht_list, ht_list)) []"
    using r(1) queue_init [of ht_list] by (simp add: ht_rep_def t'_def num_buckets_def bucket_layout_def homes_def keys_ok_def list_init_eq seg_bucket_def)
  moreover have "holds (ht_pairs t') Map.empty" by (simp add: holds_def t'_def)
  moreover have "ht_size t' = 0" "ht_released t' = ht_released t @ map snd (items (ht_pairs t) (nodes segs))" by (simp_all add: t'_def)
  ultimately show ?thesis using foreach_rep [OF rep] unfolding ht_ok_def by blast
qed

lemma hashtable_init_ok:
  assumes "ht_pairs t = Map.empty"
  shows "\<exists>t'. hashtable_init True t = Some (0, t') \<and> ht_ok sc t' Map.empty \<and> ht_size t' = 0 \<and> ht_released t' = ht_released t"
proof -
  define t' where "t' = t\<lparr>ht_size := 0, ht_num_buckets := 0, ht_heap := list_init ht_list (ht_heap t),
    ht_buckets := Some (replicate 5 (ht_list, ht_list))\<rparr>"
  have "hashtable_init True t = Some (0, t')"
    by (simp add: hashtable_init_def num_buckets_def primes_def mem_get_def t'_def Let_def)
  moreover have "ht_rep sc t' 5 (replicate 5 (ht_list, ht_list)) []"
    using assms queue_init [of ht_list]
    by (simp add: ht_rep_def t'_def num_buckets_def primes_def mem_get_def bucket_layout_def homes_def keys_ok_def list_init_eq seg_bucket_def)
  moreover have "holds (ht_pairs t') Map.empty" using assms by (simp add: holds_def t'_def)
  moreover have "ht_size t' = 0" "ht_released t' = ht_released t" by (simp_all add: t'_def)
  ultimately show ?thesis unfolding ht_ok_def by blast
qed

lemma clear_loop_buckets: "clear_loop a t = Some u \<Longrightarrow> ht_buckets u = ht_buckets t"
proof (induction rule: clear_loop.raw_induct [rotated, consumes 1])
  case (1 loop a t u)
  show ?case
  proof (cases "a = ht_list")
    case True
    then show ?thesis using 1(2) by simp
  next
    case False
    then obtain p where "ht_pairs t a = Some p" using 1(2) by (auto split: Option.bind_splits)
    then show ?thesis using 1(2) 1(1) False by fastforce
  qed
qed

section \<open>The contract\<close>

text \<open>The table as a table of the kind that \<open>table_contract\<close> describes: putting a new key at a fresh
  address, and taking a key out with its value.\<close>

definition ht_put :: "bool \<Rightarrow> nat \<Rightarrow> addr \<Rightarrow> string \<Rightarrow> 'v \<Rightarrow> 'v hashtable_t \<Rightarrow> 'v hashtable_t cret option" where
  "ht_put sc serial a k v t =
     (case hashtable_set sc True (Some a) k serial v t of None \<Rightarrow> None | Some (r, t) \<Rightarrow> Some (if r = 0 then Ok t else Fail))"

definition ht_take :: "bool \<Rightarrow> string \<Rightarrow> 'v hashtable_t \<Rightarrow> ('v option \<times> 'v hashtable_t) option" where
  "ht_take sc k t = do { v \<leftarrow> hashtable_get sc k t; (r, t) \<leftarrow> hashtable_del sc k t; Some (v, t) }"

definition ht_fresh :: "addr \<Rightarrow> 'v hashtable_t \<Rightarrow> bool" where
  "ht_fresh a t \<longleftrightarrow> a \<noteq> ht_list \<and> ht_pairs t a = None \<and> ht_size t < ht_max"

interpretation ht: table_contract "\<lambda>t m. ht_ok sc t m \<and> ht_size t \<le> ht_max" ht_fresh "hashtable_get sc" "ht_put sc serial" "ht_take sc"
  for sc serial
proof
  fix t :: "'v hashtable_t" and m k assume "ht_ok sc t m \<and> ht_size t \<le> ht_max"
  then show "hashtable_get sc k t = Some (m k)" using hashtable_get_ok by blast
next
  fix t :: "'v hashtable_t" and m a k v assume t: "ht_ok sc t m \<and> ht_size t \<le> ht_max" "ht_fresh a t" "m k = None"
  have "set_result sc t m (Some a) k v (hashtable_set sc True (Some a) k serial v t)"
    using hashtable_set_ok [of sc t m "Some a" k v serial] t by (simp add: ht_fresh_def)
  then show "ht_put sc serial a k v t = Some Fail \<or> (\<exists>t'. ht_put sc serial a k v t = Some (Ok t') \<and> ht_ok sc t' (m(k \<mapsto> v)) \<and> ht_size t' \<le> ht_max)"
    using t by (auto simp: set_result_def ht_put_def ht_fresh_def)
next
  fix t :: "'v hashtable_t" and m k assume t: "ht_ok sc t m \<and> ht_size t \<le> ht_max"
  then have "hashtable_get sc k t = Some (m k)" "ht_size t < 2 ^ 64" using hashtable_get_ok by (auto simp: ht_max_def)
  then show "\<exists>t'. ht_take sc k t = Some (m k, t') \<and> ht_ok sc t' (m(k := None)) \<and> ht_size t' \<le> ht_max"
    using t hashtable_del_ok [of sc t m k] by (cases "m k") (auto simp: ht_take_def fun_upd_idem)
qed

section \<open>Properties\<close>


text \<open>Growing frees the buckets before it asks for new ones: when there is no memory for them,
  \<open>hashtable_set\<close> reports failure, but the table has lost its buckets, and every later lookup, insertion or
  deletion dereferences a null pointer, although all pairs are still there.\<close>

theorem hashtable_grow_fails:
  assumes "num_buckets t = Some n" "n \<le> ht_size t" "ht_size t < ht_max"
  shows "\<exists>t'. hashtable_set sc False new k serial v t = Some (- 1, t') \<and> ht_pairs t' = ht_pairs t \<and>
    hashtable_get sc k' t' = None \<and> hashtable_del sc k' t' = None \<and> hashtable_clear t' = None"
proof -
  obtain n' where n': "mem_get primes (ht_num_buckets t + 1) = Some n'" using primes_next [OF assms] by (auto simp: mem_get_def)
  let ?t = "t\<lparr>ht_buckets := None, ht_num_buckets := ht_num_buckets t + 1\<rparr>"
  have "hashtable_set sc False new k serial v t = Some (- 1, ?t)"
    using assms n' by (simp add: hashtable_set_def hashtable_do_rehash_def num_buckets_def Let_def)
  moreover have "hashtable_clear ?t = None"
    using clear_loop_buckets [of _ ?t] by (auto simp: hashtable_clear_def hashtable_do_clear_def split: Option.bind_splits)
  ultimately show ?thesis
    by (intro exI [of _ ?t]) (simp add: hashtable_get_def hashtable_del_def hashtable_do_del_def num_buckets_def Let_def split: Option.bind_splits)
qed

text \<open>A table to start with.\<close>

definition demo_table :: "'v hashtable_t" where
  "demo_table = \<lparr>ht_size = 0, ht_buckets = Some (replicate 5 (0, 0)), ht_num_buckets = 0, ht_heap = \<lparr>prev = (\<lambda>_. 0), next = (\<lambda>_. 0)\<rparr>,
     ht_pairs = Map.empty, ht_released = []\<rparr>"

lemma demo_table_ok: "ht_ok True demo_table Map.empty"
proof -
  have "queue (ht_heap demo_table) ht_list []" by (simp add: demo_table_def queue_def ht_list_def)
  then have "ht_rep True demo_table 5 (replicate 5 (ht_list, ht_list)) []"
    by (simp add: ht_rep_def demo_table_def num_buckets_def primes_def mem_get_def bucket_layout_def homes_def keys_ok_def seg_bucket_def ht_list_def)
  moreover have "holds (ht_pairs demo_table) Map.empty" by (simp add: holds_def demo_table_def)
  ultimately show ?thesis unfolding ht_ok_def by blast
qed


lemma hashtable_grow_fails_witness:
  "\<exists>t'. hashtable_set True False (Some 6) ''g'' 5 (60 :: nat) (demo_table\<lparr>ht_size := 5\<rparr>) = Some (- 1, t') \<and> hashtable_get True ''a'' t' = None"
proof -
  have "num_buckets (demo_table\<lparr>ht_size := 5\<rparr> :: nat hashtable_t) = Some 5" by (simp add: demo_table_def num_buckets_def primes_def mem_get_def)
  then show ?thesis
    using hashtable_grow_fails [of "demo_table\<lparr>ht_size := 5\<rparr>" 5 True "Some 6" "''g''" 5 "60 :: nat" "''a''"]
    by (auto simp: demo_table_def ht_max_def)
qed

end
