(* ===== verification/Json_Object.thy ===== *)
theory Json_Object
  imports Hashtable Json "HOL-Library.Multiset"
begin

text \<open>
  The objects of jansson (\<open>json_object_t\<close> of \<open>value.c\<close>): a hash table of members and the number of the
  next serial. The values of \<open>Json\<close> have association lists for objects; here these lists are justified: an
  object implements the association list of its members in the order of their serials, which is the order in
  which the keys were added, and each operation on the hash table does to that list what \<open>Json\<close> says.
\<close>

section \<open>Operations\<close>

record 'v json_object_t =
  ob_table :: "'v hashtable_t"
  ob_serial :: nat

text \<open>The structure that \<open>json_object\<close> gets from the allocator is an argument.\<close>

definition object_new :: "bool \<Rightarrow> 'v json_object_t \<Rightarrow> 'v json_object_t option option" where
  "object_new mem ob = do {
     (r, t) \<leftarrow> hashtable_init mem (ob_table ob);
     if r \<noteq> 0 then Some None else Some (Some (ob\<lparr>ob_table := t, ob_serial := 0\<rparr>)) }"

definition object_size :: "'v json_object_t \<Rightarrow> nat" where
  "object_size ob = ht_size (ob_table ob)"

definition object_get :: "bool \<Rightarrow> string \<Rightarrow> 'v json_object_t \<Rightarrow> 'v option option" where
  "object_get sc key ob = hashtable_get sc key (ob_table ob)"

text \<open>\<open>json_object_set_new_nocheck\<close> for a target that is an object; \<open>self\<close> says that the value is that object.
  A value that is not stored is released.\<close>

definition object_release :: "'v \<Rightarrow> 'v json_object_t \<Rightarrow> 'v json_object_t" where
  "object_release val ob = ob\<lparr>ob_table := (ob_table ob)\<lparr>ht_released := ht_released (ob_table ob) @ [val]\<rparr>\<rparr>"

definition object_set ::
  "bool \<Rightarrow> bool \<Rightarrow> addr option \<Rightarrow> bool \<Rightarrow> string option \<Rightarrow> 'v option \<Rightarrow> 'v json_object_t \<Rightarrow> (int \<times> 'v json_object_t) option" where
  "object_set sc mem new self key val ob =
     (case val of None \<Rightarrow> Some (- 1, ob)
      | Some v \<Rightarrow>
          (case key of None \<Rightarrow> Some (- 1, object_release v ob)
           | Some k \<Rightarrow>
               if self then Some (- 1, object_release v ob)
               else do {
                 (r, t) \<leftarrow> hashtable_set sc mem new k (ob_serial ob) v (ob_table ob);
                 let ob = ob\<lparr>ob_table := t, ob_serial := size_add (ob_serial ob) 1\<rparr>;
                 if r \<noteq> 0 then Some (- 1, object_release v ob) else Some (0, ob) }))"

definition object_del :: "bool \<Rightarrow> string \<Rightarrow> 'v json_object_t \<Rightarrow> (int \<times> 'v json_object_t) option" where
  "object_del sc key ob = do {
     (r, t) \<leftarrow> hashtable_del sc key (ob_table ob);
     Some (r, ob\<lparr>ob_table := t\<rparr>) }"

definition object_clear :: "'v json_object_t \<Rightarrow> (int \<times> 'v json_object_t) option" where
  "object_clear ob = do {
     t \<leftarrow> hashtable_clear (ob_table ob);
     Some (0, ob\<lparr>ob_table := t, ob_serial := 0\<rparr>) }"

definition object_iter_at :: "bool \<Rightarrow> string option \<Rightarrow> 'v json_object_t \<Rightarrow> addr option option" where
  "object_iter_at sc key ob = (case key of None \<Rightarrow> Some None | Some k \<Rightarrow> hashtable_iter_at sc k (ob_table ob))"

definition object_iter_set :: "addr option \<Rightarrow> 'v option \<Rightarrow> 'v json_object_t \<Rightarrow> (int \<times> 'v json_object_t) option" where
  "object_iter_set iter val ob =
     (case (iter, val) of
        (Some a, Some v) \<Rightarrow> do { t \<leftarrow> hashtable_iter_set a v (ob_table ob); Some (0, ob\<lparr>ob_table := t\<rparr>) }
      | _ \<Rightarrow> Some (- 1, ob))"

definition json_delete_object :: "'v json_object_t \<Rightarrow> 'v hashtable_t option" where
  "json_delete_object ob = hashtable_close (ob_table ob)"

section \<open>Serials\<close>

text \<open>What setting a key does to the pairs.\<close>

inductive set_pairs for k serial v ps new where
  keep: "set_pairs k serial v ps new ps"
| replace: "ps a = Some p \<Longrightarrow> pr_key p = k \<Longrightarrow> set_pairs k serial v ps new (ps(a \<mapsto> p\<lparr>pr_value := v\<rparr>))"
| add: "new = Some a \<Longrightarrow> pr_key p = k \<Longrightarrow> pr_serial p = serial \<Longrightarrow> (\<And>b q. ps b = Some q \<Longrightarrow> pr_key q \<noteq> k) \<Longrightarrow>
    set_pairs k serial v ps new (ps(a \<mapsto> p))"

lemma insert_to_bucket_pairs: "insert_to_bucket i a t = Some t' \<Longrightarrow> ht_pairs t' = ht_pairs t"
  by (auto simp: insert_to_bucket_def split: Option.bind_splits if_splits)

lemma set_pair_pairs:
  assumes rep: "ht_rep sc t n bs segs" and eq: "set_pair sc new k serial v t = Some (r, t')"
  shows "set_pairs k serial v (ht_pairs t) new (ht_pairs t')"
proof -
  note r = ht_repE [OF rep]
  let ?i = "hash_str sc k mod n"
  obtain x where x: "mem_get bs ?i = Some (seg_bucket segs ?i)"
    "hashtable_find_pair t (seg_bucket segs ?i) k (hash_str sc k) = Some x"
    "finds t segs ?i k x" by (rule find_pair_ok [OF rep])
  show ?thesis
  proof (cases x)
    case None
    then have "pr_key q \<noteq> k" if "ht_pairs t b = Some q" for b q using x(3) that by (auto simp: finds_def)
    then have "set_pairs k serial v (ht_pairs t) (Some b)
        ((ht_pairs t)(b \<mapsto> \<lparr>pr_hash = hash_str sc k, pr_value = v, pr_serial = serial, pr_key = k\<rparr>))" for b
      by (intro set_pairs.add) auto
    then show ?thesis using eq r(1,2) x(1,2) None
      by (auto simp: set_pair_def Let_def dest!: insert_to_bucket_pairs split: option.splits Option.bind_splits intro: set_pairs.keep)
  next
    case (Some a)
    then obtain p where "ht_pairs t a = Some p" "pr_key p = k" using x(3) by (auto simp: finds_def)
    then show ?thesis using eq r(1,2) x(1,2) Some by (auto simp: set_pair_def Let_def intro: set_pairs.replace)
  qed
qed

lemma hashtable_set_pairs:
  assumes ok: "ht_ok sc t m" and sz: "ht_size t < ht_max" and eq: "hashtable_set sc True new k serial v t = Some (r, t')"
  shows "set_pairs k serial v (ht_pairs t) new (ht_pairs t')"
proof -
  obtain n bs segs where rep: "ht_rep sc t n bs segs" using ok by (auto simp: ht_ok_def)
  note n = ht_repE(1) [OF rep]
  show ?thesis
  proof (cases "ht_size t \<ge> n")
    case False
    then show ?thesis using set_pair_pairs [OF rep] eq n by (simp add: hashtable_set_def)
  next
    case True
    obtain u n' bs' segs' where u: "hashtable_do_rehash True t = Some (0, u)" "ht_rep sc u n' bs' segs'" "ht_pairs u = ht_pairs t"
      using rehash_ok [OF rep True sz] by blast
    then show ?thesis using set_pair_pairs [OF u(2)] eq n True by (simp add: hashtable_set_def)
  qed
qed

text \<open>The serials of the pairs increase along the members, and the next one is larger.\<close>

definition serials_up :: "(addr \<rightharpoonup> 'v hashtable_pair) \<Rightarrow> nat \<Rightarrow> (string \<times> 'v) list \<Rightarrow> bool" where
  "serials_up ps n kvs \<longleftrightarrow> (\<exists>ser. sorted_wrt (\<lambda>x y. ser x < ser y) (map fst kvs) \<and>
     (\<forall>a p. ps a = Some p \<longrightarrow> ser (pr_key p) = pr_serial p \<and> pr_serial p < n))"

definition obj_ok :: "bool \<Rightarrow> 'v json_object_t \<Rightarrow> (string \<times> 'v) list \<Rightarrow> bool" where
  "obj_ok sc ob kvs \<longleftrightarrow> ht_ok sc (ob_table ob) (map_of kvs) \<and> ht_size (ob_table ob) = length kvs \<and>
     distinct (map fst kvs) \<and> serials_up (ht_pairs (ob_table ob)) (ob_serial ob) kvs"

lemma serials_up_mono: "serials_up ps n kvs \<Longrightarrow> n \<le> n' \<Longrightarrow> serials_up ps n' kvs"
  unfolding serials_up_def by (meson order_less_le_trans)

lemma serials_up_set:
  assumes "set_pairs k n v ps new ps'" "serials_up ps n kvs" "holds ps (map_of kvs)" "k \<in> fst ` set kvs \<or> ps' \<noteq> ps"
  shows "serials_up ps' (n + 1) (AList.update k v kvs)"
  using assms(1)
proof cases
  case keep
  then have "map fst (AList.update k v kvs) = map fst kvs" using assms(4) by (simp add: update_keys)
  then show ?thesis using serials_up_mono [OF assms(2), of "n + 1"] keep by (simp add: serials_up_def)
next
  case (replace a p)
  have "k \<in> fst ` set kvs" using holdsD [OF assms(3) replace(2)] replace(3) map_of_SomeD by force
  then have "map fst (AList.update k v kvs) = map fst kvs" by (simp add: update_keys)
  moreover obtain ser where s: "sorted_wrt (\<lambda>x y. ser x < ser y) (map fst kvs)"
    "\<And>a p. ps a = Some p \<Longrightarrow> ser (pr_key p) = pr_serial p \<and> pr_serial p < n" using assms(2) by (auto simp: serials_up_def)
  ultimately show ?thesis unfolding serials_up_def replace(1)
    by (intro exI [of _ ser]) (use s(2) replace(2) in \<open>auto simp: less_Suc_eq\<close>)
next
  case (add a p)
  have k: "k \<notin> fst ` set kvs"
  proof
    assume "k \<in> fst ` set kvs"
    then obtain w where "map_of kvs k = Some w" by (metis domD dom_map_of_conv_image_fst)
    then show False using assms(3) add(5) unfolding holds_def by blast
  qed
  obtain ser where s: "sorted_wrt (\<lambda>x y. ser x < ser y) (map fst kvs)"
    "\<And>a p. ps a = Some p \<Longrightarrow> ser (pr_key p) = pr_serial p \<and> pr_serial p < n" using assms(2) by (auto simp: serials_up_def)
  have lt: "ser x < n" if x: "x \<in> fst ` set kvs" for x
  proof -
    obtain w where "map_of kvs x = Some w" using x by (metis domD dom_map_of_conv_image_fst)
    then obtain b q where "ps b = Some q" "pr_key q = x" using assms(3) unfolding holds_def by blast
    then show ?thesis using s(2) by force
  qed
  have "sorted_wrt (\<lambda>x y. (ser(k := n)) x < (ser(k := n)) y) (map fst kvs)"
    by (rule sorted_wrt_mono_rel [OF _ s(1)]) (use k in auto)
  then have "sorted_wrt (\<lambda>x y. (ser(k := n)) x < (ser(k := n)) y) (map fst (AList.update k v kvs))"
    using lt k by (auto simp: update_new sorted_wrt_append)
  then show ?thesis unfolding serials_up_def add(1)
    by (intro exI [of _ "ser(k := n)"]) (use s(2) add(3-5) in \<open>auto simp: less_Suc_eq\<close>)
qed

lemma serials_up_sub:
  assumes "serials_up ps n kvs" "\<And>a p. ps' a = Some p \<Longrightarrow> ps a = Some p"
  shows "serials_up ps' n (AList.delete k kvs)"
proof -
  have "map fst (AList.delete k kvs) = filter (\<lambda>x. k \<noteq> x) (map fst kvs)" by (simp add: delete_keys removeAll_filter_not_eq)
  moreover obtain ser where "sorted_wrt (\<lambda>x y. ser x < ser y) (map fst kvs)"
    "\<And>a p. ps a = Some p \<Longrightarrow> ser (pr_key p) = pr_serial p \<and> pr_serial p < n" using assms(1) by (auto simp: serials_up_def)
  ultimately show ?thesis unfolding serials_up_def
    by (intro exI [of _ ser]) (auto simp: sorted_wrt_filter dest: assms(2))
qed

section \<open>The operations on the members\<close>

lemma length_update: "length (AList.update k v kvs) = (if map_of kvs k = None then length kvs + 1 else length kvs)"
  by (induction kvs) auto


lemma object_get_ok: "obj_ok sc ob kvs \<Longrightarrow> object_get sc k ob = Some (map_of kvs k)"
  by (simp add: obj_ok_def object_get_def hashtable_get_ok)

lemma object_release_ok:
  "obj_ok sc (object_release v ob) kvs = obj_ok sc ob kvs"
  "ht_released (ob_table (object_release v ob)) = ht_released (ob_table ob) @ [v]"
  by (simp_all add: obj_ok_def object_release_def ht_ok_def ht_rep_def num_buckets_def)

lemma object_set_ok:
  assumes ok: "obj_ok sc ob kvs" and sz: "length kvs < ht_max" "ob_serial ob < 2 ^ 64 - 1"
    and new: "pred_option (\<lambda>a. a \<noteq> ht_list \<and> ht_pairs (ob_table ob) a = None) new"
  shows "\<exists>r ob'. object_set sc True new False (Some k) (Some v) ob = Some (r, ob') \<and>
    (if map_of kvs k = None \<and> new = None
     then r = - 1 \<and> obj_ok sc ob' kvs \<and> ht_released (ob_table ob') = ht_released (ob_table ob) @ [v]
     else r = 0 \<and> obj_ok sc ob' (AList.update k v kvs) \<and>
       ht_released (ob_table ob') = ht_released (ob_table ob) @ (case map_of kvs k of None \<Rightarrow> [] | Some old \<Rightarrow> [old]))"
proof -
  let ?t = "ob_table ob" and ?n = "ob_serial ob"
  have o: "ht_ok sc ?t (map_of kvs)" "ht_size ?t = length kvs" "distinct (map fst kvs)" "serials_up (ht_pairs ?t) ?n kvs"
    using ok by (simp_all add: obj_ok_def)
  have h: "holds (ht_pairs ?t) (map_of kvs)" using o(1) by (simp add: ht_ok_def)
  have st: "set_result sc ?t (map_of kvs) new k v (hashtable_set sc True new k ?n v ?t)"
    using hashtable_set_ok [OF o(1) _ new] o(2) sz(1) by simp
  then obtain r t where t: "hashtable_set sc True new k ?n v ?t = Some (r, t)" by (auto simp: set_result_def split: option.splits)
  have ps: "set_pairs k ?n v (ht_pairs ?t) new (ht_pairs t)" using hashtable_set_pairs [OF o(1) _ t] o(2) sz(1) by simp
  let ?ob = "ob\<lparr>ob_table := t, ob_serial := ?n + 1\<rparr>"
  have n: "size_add ?n 1 = ?n + 1" using sz(2) by (simp add: size_add_small)
  have eq: "object_set sc True new False (Some k) (Some v) ob = Some (if r \<noteq> 0 then (- 1, object_release v ?ob) else (0, ?ob))"
    using t n by (simp add: object_set_def Let_def)
  show ?thesis
  proof (cases "map_of kvs k = None \<and> new = None")
    case True
    then have t': "r = - 1" "ht_ok sc t (map_of kvs)" "ht_size t = length kvs" "ht_released t = ht_released ?t"
      using st t o(2) by (auto simp: set_result_def)
    have "ht_pairs t = ht_pairs ?t" using ps holdsD [OF h] True by (cases; force)
    then have "obj_ok sc ?ob kvs" using o t' serials_up_mono [OF o(4), of "?n + 1"] by (simp add: obj_ok_def)
    then show ?thesis using eq t'(1,4) True by (simp add: object_release_ok)
  next
    case False
    then have t': "r = 0" "ht_ok sc t ((map_of kvs)(k \<mapsto> v))" "ht_size t = length (AList.update k v kvs)"
      "ht_released t = ht_released ?t @ (case map_of kvs k of None \<Rightarrow> [] | Some old \<Rightarrow> [old])"
      using st t o(2) by (auto simp: set_result_def length_update split: option.splits)
    have "k \<in> fst ` set kvs \<or> ht_pairs t \<noteq> ht_pairs ?t"
    proof (cases "map_of kvs k")
      case None
      have "holds (ht_pairs t) ((map_of kvs)(k \<mapsto> v))" using t'(2) by (simp add: ht_ok_def)
      then obtain a p where "ht_pairs t a = Some p" "pr_key p = k" unfolding holds_def by (metis fun_upd_same)
      then show ?thesis using holdsD [OF h] None by force
    qed (metis domI dom_map_of_conv_image_fst)
    then have "obj_ok sc ?ob (AList.update k v kvs)"
      using serials_up_set [OF ps o(4) h] t' o(3) by (simp add: obj_ok_def update_conv' distinct_update)
    then show ?thesis using eq t'(1,4) False by simp
  qed
qed

lemma hashtable_del_pairs:
  "hashtable_del sc k t = Some (r, t') \<Longrightarrow> ht_pairs t' a = Some p \<Longrightarrow> ht_pairs t a = Some p"
  by (auto simp: hashtable_del_def hashtable_do_del_def Let_def split: Option.bind_splits option.splits if_splits)

lemma length_delete: "distinct (map fst kvs) \<Longrightarrow> map_of kvs k = Some v \<Longrightarrow> Suc (length (AList.delete k kvs)) = length kvs"
proof (induction kvs)
  case (Cons kv kvs)
  show ?case
  proof (cases "fst kv = k")
    case True
    then have "k \<notin> fst ` set kvs" using Cons.prems(1) by auto
    then show ?thesis using True by (cases kv) simp
  next
    case False
    then show ?thesis using Cons by (cases kv) simp
  qed
qed simp

lemma object_del_ok:
  assumes ok: "obj_ok sc ob kvs" and sz: "length kvs < ht_max"
  shows "case map_of kvs k of None \<Rightarrow> object_del sc k ob = Some (- 1, ob)
    | Some v \<Rightarrow> \<exists>ob'. object_del sc k ob = Some (0, ob') \<and> obj_ok sc ob' (AList.delete k kvs) \<and>
        ht_released (ob_table ob') = ht_released (ob_table ob) @ [v]"
proof -
  let ?t = "ob_table ob"
  have o: "ht_ok sc ?t (map_of kvs)" "ht_size ?t = length kvs" "distinct (map fst kvs)" "serials_up (ht_pairs ?t) (ob_serial ob) kvs"
    using ok by (simp_all add: obj_ok_def)
  have del: "case map_of kvs k of None \<Rightarrow> hashtable_del sc k ?t = Some (- 1, ?t)
    | Some v \<Rightarrow> \<exists>t'. hashtable_del sc k ?t = Some (0, t') \<and> ht_ok sc t' ((map_of kvs)(k := None)) \<and>
        ht_released t' = ht_released ?t @ [v] \<and> Suc (ht_size t') = ht_size ?t"
    by (rule hashtable_del_ok [OF o(1)]) (use o(2) sz in \<open>simp add: ht_max_def\<close>)
  show ?thesis
  proof (cases "map_of kvs k")
    case None
    then show ?thesis using del by (simp add: object_del_def)
  next
    case (Some v)
    then obtain t' where t': "hashtable_del sc k ?t = Some (0, t')" "ht_ok sc t' ((map_of kvs)(k := None))"
      "ht_released t' = ht_released ?t @ [v]" "Suc (ht_size t') = ht_size ?t" using del by auto
    have "serials_up (ht_pairs t') (ob_serial ob) (AList.delete k kvs)"
      by (rule serials_up_sub [OF o(4)]) (rule hashtable_del_pairs [OF t'(1)])
    then have "obj_ok sc (ob\<lparr>ob_table := t'\<rparr>) (AList.delete k kvs)"
      using t'(2,4) o(2,3) length_delete [OF o(3) Some] by (simp add: obj_ok_def delete_conv' distinct_delete)
    then show ?thesis using t'(1,3) Some by (simp add: object_del_def)
  qed
qed

lemma object_empty_ok: "ht_ok sc t Map.empty \<Longrightarrow> ht_size t = 0 \<Longrightarrow> obj_ok sc (ob\<lparr>ob_table := t, ob_serial := 0\<rparr>) []"
  using holdsD [of "ht_pairs t" Map.empty] by (fastforce simp: obj_ok_def ht_ok_def serials_up_def)

lemma object_foreach_ok:
  assumes "obj_ok sc ob kvs"
  shows "\<exists>its. json_object_foreach (ob_table ob) = Some its \<and> mset its = mset kvs"
proof -
  obtain its where its: "json_object_foreach (ob_table ob) = Some its" "distinct (map fst its)" "map_of its = map_of kvs"
    using foreach_ok [of sc "ob_table ob" "map_of kvs"] assms by (auto simp: obj_ok_def)
  have "distinct (map fst kvs)" using assms by (simp add: obj_ok_def)
  then have "set its = set kvs" "distinct its" "distinct kvs"
    using its map_of_inject_set [of its kvs] by (auto simp: distinct_map)
  then show ?thesis using its(1) set_eq_iff_mset_eq_distinct by blast
qed

lemma object_clear_ok:
  assumes "obj_ok sc ob kvs"
  shows "\<exists>ob'. object_clear ob = Some (0, ob') \<and> obj_ok sc ob' [] \<and>
    (\<exists>vs. ht_released (ob_table ob') = ht_released (ob_table ob) @ vs \<and> mset vs = mset (map snd kvs))"
proof -
  obtain t its where t: "json_object_foreach (ob_table ob) = Some its" "hashtable_clear (ob_table ob) = Some t" "ht_ok sc t Map.empty" "ht_size t = 0"
    "ht_released t = ht_released (ob_table ob) @ map snd its"
    using hashtable_clear_ok [of sc "ob_table ob" "map_of kvs"] assms by (auto simp: obj_ok_def)
  moreover have "mset its = mset kvs" using object_foreach_ok [OF assms] t(1) by auto
  then have "mset (map snd its) = mset (map snd kvs)" by simp
  ultimately show ?thesis using object_empty_ok [OF t(3,4), of ob] by (auto simp: object_clear_def)
qed

lemma object_new_ok:
  assumes "ht_pairs (ob_table ob) = Map.empty"
  shows "\<exists>ob'. object_new True ob = Some (Some ob') \<and> obj_ok sc ob' []"
proof -
  obtain t where "hashtable_init True (ob_table ob) = Some (0, t)" "ht_ok sc t Map.empty" "ht_size t = 0"
    using hashtable_init_ok [OF assms, of sc] by blast
  then show ?thesis using object_empty_ok [of sc t ob] by (auto simp: object_new_def)
qed

text \<open>The serial of a key, as \<open>JSON_PRESERVE_ORDER\<close> reads it.\<close>

definition key_serial :: "bool \<Rightarrow> string \<Rightarrow> 'v json_object_t \<Rightarrow> nat option" where
  "key_serial sc k ob = do { iter \<leftarrow> object_iter_at sc (Some k) ob; a \<leftarrow> iter; hashtable_iter_serial a (ob_table ob) }"

lemma key_serial_ok:
  assumes "obj_ok sc ob kvs"
  shows "\<exists>ser. (\<forall>k \<in> fst ` set kvs. key_serial sc k ob = Some (ser k)) \<and> sorted_wrt (\<lambda>x y. ser (fst x) < ser (fst y)) kvs"
proof -
  let ?t = "ob_table ob"
  obtain ser where ser: "sorted_wrt (\<lambda>x y. ser x < ser y) (map fst kvs)" "\<And>a p. ht_pairs ?t a = Some p \<Longrightarrow> ser (pr_key p) = pr_serial p"
    using assms by (auto simp: obj_ok_def serials_up_def)
  have "key_serial sc k ob = Some (ser k)" if "k \<in> fst ` set kvs" for k
  proof -
    obtain n bs segs where rep: "ht_rep sc ?t n bs segs" and h: "holds (ht_pairs ?t) (map_of kvs)" using assms by (auto simp: obj_ok_def ht_ok_def)
    note r = ht_repE [OF rep]
    obtain x where x: "mem_get bs (hash_str sc k mod n) = Some (seg_bucket segs (hash_str sc k mod n))"
      "hashtable_find_pair ?t (seg_bucket segs (hash_str sc k mod n)) k (hash_str sc k) = Some x"
      "finds ?t segs (hash_str sc k mod n) k x" by (rule find_pair_ok [OF rep])
    have "map_of kvs k \<noteq> None" using that by (simp add: map_of_eq_None_iff)
    then obtain a where a: "x = Some a" using finds_holds [OF x(3) r(5) h] by (cases x) auto
    then obtain p where p: "ht_pairs ?t a = Some p" "pr_key p = k" using x(3) by (auto simp: finds_def)
    then show ?thesis using a x(1,2) r(1,2) ser(2) [OF p(1)]
      by (simp add: key_serial_def object_iter_at_def hashtable_iter_at_def hashtable_iter_serial_def Let_def)
  qed
  then show ?thesis using ser(1) by (auto simp: sorted_wrt_map)
qed

section \<open>Properties\<close>

text \<open>(C21) An object of jansson, a hash table with serials, implements the association list that stands for
  it in the values of the development: reading a key gives what the list holds; setting a key replaces the
  member where it stands or puts it at the end, exactly as \<open>json_object_set_new_nocheck\<close> does to the list;
  deleting a key takes it out; the iteration reaches the members of the list, each once; and the serials, by
  which \<open>JSON_PRESERVE_ORDER\<close> prints, put the keys in the order of the list. Every operation returns, and the
  representation is kept.\<close>

theorem json_object_refines:
  fixes ob :: "json json_object_t"
  assumes "obj_ok sc ob kvs" "length kvs < ht_max" "ob_serial ob < 2 ^ 64 - 1" "a \<noteq> ht_list" "ht_pairs (ob_table ob) a = None"
  shows "object_size ob = length kvs \<and> object_get sc k ob = Some (json_object_get (Some (JObject kvs)) k) \<and>
    (\<exists>ob' kvs'. object_set sc True (Some a) False (Some k) (Some v) ob = Some (0, ob') \<and>
       json_object_set_new_nocheck (JObject kvs) (Some k) (Some v) = Some (JObject kvs') \<and> obj_ok sc ob' kvs') \<and>
    (\<exists>r ob'. object_del sc k ob = Some (r, ob') \<and> (r = 0 \<longleftrightarrow> map_of kvs k \<noteq> None) \<and> obj_ok sc ob' (AList.delete k kvs)) \<and>
    (\<exists>its. json_object_foreach (ob_table ob) = Some its \<and> mset its = mset kvs) \<and>
    (\<exists>ser. (\<forall>k \<in> fst ` set kvs. key_serial sc k ob = Some (ser k)) \<and> sorted_wrt (\<lambda>x y. ser (fst x) < ser (fst y)) kvs)"
proof -
  have size: "object_size ob = length kvs" using assms(1) by (simp add: object_size_def obj_ok_def)
  have st: "\<exists>ob'. object_set sc True (Some a) False (Some k) (Some v) ob = Some (0, ob') \<and> obj_ok sc ob' (AList.update k v kvs)"
    using object_set_ok [OF assms(1-3), of "Some a" k v] assms(4,5) by auto
  have del: "\<exists>r ob'. object_del sc k ob = Some (r, ob') \<and> (r = 0 \<longleftrightarrow> map_of kvs k \<noteq> None) \<and> obj_ok sc ob' (AList.delete k kvs)"
  proof (cases "map_of kvs k")
    case None
    then have "AList.delete k kvs = kvs" by (simp add: map_of_eq_None_iff)
    then show ?thesis using object_del_ok [OF assms(1,2), of k] None assms(1) by simp
  next
    case (Some w)
    then show ?thesis using object_del_ok [OF assms(1,2), of k] by auto
  qed
  show ?thesis
    using size object_get_ok [OF assms(1)] st del object_foreach_ok [OF assms(1)] key_serial_ok [OF assms(1)]
    by (simp add: json_object_set_new_nocheck_def)
qed

lemma json_object_refines_witness:
  "\<exists>ob'. object_set True True (Some 1) False (Some ''a'') (Some JTrue) \<lparr>ob_table = demo_table, ob_serial = 0\<rparr> = Some (0, ob') \<and>
     obj_ok True ob' [(''a'', JTrue)]"
proof -
  have "obj_ok True \<lparr>ob_table = demo_table :: json hashtable_t, ob_serial = 0\<rparr> []"
    using object_empty_ok [OF demo_table_ok, of "\<lparr>ob_table = demo_table, ob_serial = 0\<rparr>"] by (simp add: demo_table_def)
  then show ?thesis
    using json_object_refines [of True "\<lparr>ob_table = demo_table, ob_serial = 0\<rparr>" "[]" 1 "''a''" JTrue]
    by (auto simp: demo_table_def ht_max_def ht_list_def json_object_set_new_nocheck_def)
qed

end
