(* ===== verification/Json_Array.thy ===== *)
theory Json_Array
  imports Json
begin

text \<open>
  The arrays of jansson (\<open>json_array_t\<close> of \<open>value.c\<close>): a table with room for \<open>ar_size\<close> pointers, of which
  the first \<open>ar_entries\<close> are used. A slot that has not been written is \<open>None\<close>. Reading such a slot,
  and copying outside a table, is undefined (\<open>None\<close>). Whether there is memory is an argument.
  \<open>ar_released\<close> and \<open>ar_retained\<close> record the calls of \<open>json_decref\<close> and \<open>json_incref\<close>.

  The values of \<open>Json\<close> have lists for arrays; the operations on the table do to the list what it says there.
\<close>

section \<open>Operations\<close>

record 'v json_array_t =
  ar_size :: nat
  ar_entries :: nat
  ar_table :: "'v option list"
  ar_released :: "'v list"
  ar_retained :: "'v list"

text \<open>The number of pointers in a block of \<open>n * sizeof(json_t *)\<close> bytes.\<close>

definition slots :: "nat \<Rightarrow> nat" where
  "slots n = n * 8 mod 2 ^ 64 div 8"

definition array_new :: "bool \<Rightarrow> 'v json_array_t option" where
  "array_new mem =
     (if \<not> mem then None
      else Some \<lparr>ar_size = 8, ar_entries = 0, ar_table = replicate (slots 8) None, ar_released = [], ar_retained = []\<rparr>)"

text \<open>A used slot.\<close>

definition slot :: "'v option list \<Rightarrow> nat \<Rightarrow> 'v option" where
  "slot tab i = Option.bind (mem_get tab i) (\<lambda>x. x)"

text \<open>The values in the first \<open>n\<close> slots, one after the other.\<close>

primrec slot_values :: "'v option list \<Rightarrow> nat \<Rightarrow> 'v list option" where
  "slot_values tab 0 = Some []"
| "slot_values tab (Suc n) = do { vs \<leftarrow> slot_values tab n; v \<leftarrow> slot tab n; Some (vs @ [v]) }"

definition json_delete_array :: "'v json_array_t \<Rightarrow> 'v list option" where
  "json_delete_array a = do { vs \<leftarrow> slot_values (ar_table a) (ar_entries a); Some (ar_released a @ vs) }"

definition array_get :: "nat \<Rightarrow> 'v json_array_t \<Rightarrow> 'v option option" where
  "array_get index a = (if index \<ge> ar_entries a then Some None else map_option Some (slot (ar_table a) index))"

definition array_release :: "'v \<Rightarrow> 'v json_array_t \<Rightarrow> 'v json_array_t" where
  "array_release v a = a\<lparr>ar_released := ar_released a @ [v]\<rparr>"

text \<open>\<open>json_array_set_new\<close> for a target that is an array; \<open>self\<close> says that the value is that array.\<close>

definition array_set_new :: "bool \<Rightarrow> nat \<Rightarrow> 'v option \<Rightarrow> 'v json_array_t \<Rightarrow> (int \<times> 'v json_array_t) option" where
  "array_set_new self index val a =
     (case val of None \<Rightarrow> Some (- 1, a)
      | Some v \<Rightarrow>
          if self then Some (- 1, array_release v a)
          else if index \<ge> ar_entries a then Some (- 1, array_release v a)
          else do {
            old \<leftarrow> slot (ar_table a) index;
            Some (0, (array_release old a)\<lparr>ar_table := (ar_table a)[index := Some v]\<rparr>) })"

definition array_copy :: "'a list \<Rightarrow> nat \<Rightarrow> 'a list \<Rightarrow> nat \<Rightarrow> nat \<Rightarrow> 'a list option" where
  "array_copy dest dpos src spos count =
     (let n = slots count in
      if dpos + n \<le> length dest \<and> spos + n \<le> length src
      then Some (take dpos dest @ take n (drop spos src) @ drop (dpos + n) dest) else None)"

definition array_move :: "nat \<Rightarrow> nat \<Rightarrow> nat \<Rightarrow> 'v json_array_t \<Rightarrow> 'v json_array_t option" where
  "array_move dest src count a = do {
     tab \<leftarrow> array_copy (ar_table a) dest (ar_table a) src count;
     Some (a\<lparr>ar_table := tab\<rparr>) }"

text \<open>The result of \<open>json_array_grow\<close> is a null pointer, or the table that holds the values, with whether it is
  another one than that of the array.\<close>

definition json_array_grow :: "bool \<Rightarrow> nat \<Rightarrow> bool \<Rightarrow> 'v json_array_t \<Rightarrow> ('v option list \<times> bool \<times> 'v json_array_t) cret option" where
  "json_array_grow mem amount cp a =
     (if size_add (ar_entries a) amount \<le> ar_size a then Some (Ok (ar_table a, False, a))
      else
        let old_table = ar_table a;
            new_size = max (size_add (ar_size a) amount) (ar_size a * 2 mod 2 ^ 64)
        in if \<not> mem then Some Fail
           else do {
             let a = a\<lparr>ar_size := new_size, ar_table := replicate (slots new_size) None\<rparr>;
             if cp then do {
               tab \<leftarrow> array_copy (ar_table a) 0 old_table 0 (ar_entries a);
               Some (Ok (tab, False, a\<lparr>ar_table := tab\<rparr>)) }
             else Some (Ok (old_table, True, a)) })"

definition table_write :: "nat \<Rightarrow> 'v \<Rightarrow> 'v json_array_t \<Rightarrow> 'v json_array_t option" where
  "table_write i v a = (if i < length (ar_table a) then Some (a\<lparr>ar_table := (ar_table a)[i := Some v]\<rparr>) else None)"

definition array_append_new :: "bool \<Rightarrow> bool \<Rightarrow> 'v option \<Rightarrow> 'v json_array_t \<Rightarrow> (int \<times> 'v json_array_t) option" where
  "array_append_new mem self val a =
     (case val of None \<Rightarrow> Some (- 1, a)
      | Some v \<Rightarrow>
          if self then Some (- 1, array_release v a)
          else do {
            g \<leftarrow> json_array_grow mem 1 True a;
            case g of Fail \<Rightarrow> Some (- 1, array_release v a)
            | Ok (_, _, a) \<Rightarrow> do {
                a \<leftarrow> table_write (ar_entries a) v a;
                Some (0, a\<lparr>ar_entries := size_add (ar_entries a) 1\<rparr>) } })"

definition array_insert_new :: "bool \<Rightarrow> bool \<Rightarrow> nat \<Rightarrow> 'v option \<Rightarrow> 'v json_array_t \<Rightarrow> (int \<times> 'v json_array_t) option" where
  "array_insert_new mem self index val a =
     (case val of None \<Rightarrow> Some (- 1, a)
      | Some v \<Rightarrow>
          if self then Some (- 1, array_release v a)
          else if index > ar_entries a then Some (- 1, array_release v a)
          else do {
            g \<leftarrow> json_array_grow mem 1 False a;
            case g of Fail \<Rightarrow> Some (- 1, array_release v a)
            | Ok (old_table, moved, a) \<Rightarrow> do {
                a \<leftarrow> (if moved then do {
                       tab \<leftarrow> array_copy (ar_table a) 0 old_table 0 index;
                       tab \<leftarrow> array_copy tab (index + 1) old_table index (ar_entries a - index);
                       Some (a\<lparr>ar_table := tab\<rparr>) }
                     else array_move (index + 1) index (ar_entries a - index) a);
                a \<leftarrow> table_write index v a;
                Some (0, a\<lparr>ar_entries := size_add (ar_entries a) 1\<rparr>) } })"

definition array_remove :: "nat \<Rightarrow> 'v json_array_t \<Rightarrow> (int \<times> 'v json_array_t) option" where
  "array_remove index a =
     (if index \<ge> ar_entries a then Some (- 1, a)
      else do {
        old \<leftarrow> slot (ar_table a) index;
        let a = array_release old a;
        a \<leftarrow> (if index < ar_entries a - 1 then array_move index (index + 1) (ar_entries a - index - 1) a else Some a);
        Some (0, a\<lparr>ar_entries := ar_entries a - 1\<rparr>) })"

definition array_clear :: "'v json_array_t \<Rightarrow> (int \<times> 'v json_array_t) option" where
  "array_clear a = do {
     vs \<leftarrow> slot_values (ar_table a) (ar_entries a);
     Some (0, a\<lparr>ar_released := ar_released a @ vs, ar_entries := 0\<rparr>) }"

text \<open>\<open>json_array_extend\<close>; without another array an array is extended by itself.\<close>

definition array_extend :: "bool \<Rightarrow> 'v json_array_t option \<Rightarrow> 'v json_array_t \<Rightarrow> (int \<times> 'v json_array_t) option" where
  "array_extend mem oth a = do {
     g \<leftarrow> json_array_grow mem (ar_entries (case oth of None \<Rightarrow> a | Some b \<Rightarrow> b)) True a;
     case g of Fail \<Rightarrow> Some (- 1, a)
     | Ok (_, _, a) \<Rightarrow> do {
         let b = (case oth of None \<Rightarrow> a | Some b \<Rightarrow> b);
         vs \<leftarrow> slot_values (ar_table b) (ar_entries b);
         tab \<leftarrow> array_copy (ar_table a) (ar_entries a) (ar_table b) 0 (ar_entries b);
         Some (0, a\<lparr>ar_retained := ar_retained a @ vs, ar_table := tab, ar_entries := size_add (ar_entries a) (ar_entries b)\<rparr>) } }"

section \<open>The representation\<close>

text \<open>The table, used up to its entries.\<close>

definition arr_ok :: "'v json_array_t \<Rightarrow> 'v list \<Rightarrow> bool" where
  "arr_ok a xs \<longleftrightarrow> length (ar_table a) = ar_size a \<and> ar_entries a = length xs \<and> ar_size a < 2 ^ 60 \<and>
     (\<exists>rest. ar_table a = map Some xs @ rest)"

lemma slots_small: "n < 2 ^ 61 \<Longrightarrow> slots n = n"
  by (simp add: slots_def)

lemma arr_okE:
  assumes "arr_ok a xs"
  obtains rest where "ar_table a = map Some xs @ rest" "ar_size a = length xs + length rest" "ar_entries a = length xs"
    "length xs + length rest < 2 ^ 60"
  using assms by (auto simp: arr_ok_def)

lemma slot_used: "i < length xs \<Longrightarrow> slot (map Some xs @ rest) i = Some (xs ! i)"
  by (simp add: slot_def mem_get_def nth_append)

lemma slot_values_used: "n \<le> length xs \<Longrightarrow> slot_values (map Some xs @ rest) n = Some (take n xs)"
  by (induction n) (simp_all add: slot_used take_Suc_conv_app_nth)

lemma array_copy_ok:
  "count < 2 ^ 61 \<Longrightarrow> dpos + count \<le> length dest \<Longrightarrow> spos + count \<le> length src \<Longrightarrow>
   array_copy dest dpos src spos count = Some (take dpos dest @ take count (drop spos src) @ drop (dpos + count) dest)"
  by (simp add: array_copy_def slots_small)

lemma array_release_ok [simp]:
  "arr_ok (array_release v a) xs = arr_ok a xs" "ar_released (array_release v a) = ar_released a @ [v]"
  "ar_entries (array_release v a) = ar_entries a" "ar_table (array_release v a) = ar_table a"
  by (simp_all add: arr_ok_def array_release_def)

text \<open>Growing makes room for \<open>amount\<close> more values.\<close>

lemma grow_copy_ok:
  assumes "arr_ok a xs" "amount < 2 ^ 59" "ar_size a < 2 ^ 59"
  shows "json_array_grow mem amount True a = Some Fail \<and> \<not> mem \<or>
    (\<exists>tab b a'. json_array_grow mem amount True a = Some (Ok (tab, b, a')) \<and> arr_ok a' xs \<and>
       length xs + amount \<le> ar_size a' \<and> ar_released a' = ar_released a \<and> ar_retained a' = ar_retained a)"
proof -
  obtain rest where r: "ar_table a = map Some xs @ rest" "ar_size a = length xs + length rest" "ar_entries a = length xs"
    "length xs + length rest < 2 ^ 60" using arr_okE [OF assms(1)] .
  have s: "size_add (length xs) amount = length xs + amount" "size_add (ar_size a) amount = ar_size a + amount"
    using assms(2,3) r(2) by (simp_all add: size_add_small)
  show ?thesis
  proof (cases "length xs + amount \<le> ar_size a")
    case True
    then show ?thesis using assms(1) s r(3) by (auto simp: json_array_grow_def)
  next
    case False
    let ?n = "max (ar_size a + amount) (ar_size a * 2)"
    have n: "?n < 2 ^ 60" "ar_size a * 2 mod 2 ^ 64 = ar_size a * 2" using assms(2,3) by simp_all
    have cp: "array_copy (replicate ?n None) 0 (map Some xs @ rest) 0 (length xs) =
        Some (map Some xs @ replicate (?n - length xs) None)"
      using r(2,4) by (subst array_copy_ok) auto
    let ?a = "a\<lparr>ar_size := ?n, ar_table := map Some xs @ replicate (?n - length xs) None\<rparr>"
    have "arr_ok ?a xs" using n(1) r(2,3) by (simp add: arr_ok_def)
    moreover have "length xs + amount \<le> ?n" using r(2) by (simp add: le_max_iff_disj)
    moreover have "mem \<Longrightarrow> json_array_grow mem amount True a = Some (Ok (ar_table ?a, False, ?a))"
      using False s r(1,3) n cp by (simp add: json_array_grow_def slots_small Let_def)
    moreover have "\<not> mem \<Longrightarrow> json_array_grow mem amount True a = Some Fail"
      using False s r(3) by (simp add: json_array_grow_def Let_def)
    ultimately show ?thesis by (cases mem) auto
  qed
qed

lemma array_get_ok: "arr_ok a xs \<Longrightarrow> array_get i a = Some (if i < length xs then Some (xs ! i) else None)"
  by (auto simp: array_get_def slot_used elim!: arr_okE)

lemma table_write_end:
  assumes "arr_ok a xs" "length xs < ar_size a"
  shows "\<exists>a'. table_write (length xs) v a = Some a' \<and> arr_ok (a'\<lparr>ar_entries := Suc (length xs)\<rparr>) (xs @ [v]) \<and>
    ar_entries a' = ar_entries a \<and> ar_released a' = ar_released a \<and> ar_retained a' = ar_retained a"
proof -
  obtain rest where r: "ar_table a = map Some xs @ rest" "ar_size a = length xs + length rest" using arr_okE [OF assms(1)] .
  then obtain x rest' where "rest = x # rest'" using assms(2) by (cases rest) auto
  then show ?thesis using assms(1) r by (simp add: table_write_def arr_ok_def list_update_append)
qed

text \<open>What an operation that takes over a value has done: nothing for lack of memory, or what it should do.\<close>

definition stored :: "bool \<Rightarrow> 'v json_array_t \<Rightarrow> 'v list \<Rightarrow> 'v list \<Rightarrow> 'v \<Rightarrow> (int \<times> 'v json_array_t) option \<Rightarrow> bool" where
  "stored mem a xs ys v res \<longleftrightarrow>
     \<not> mem \<and> res = Some (- 1, array_release v a) \<or>
     (\<exists>a'. res = Some (0, a') \<and> arr_ok a' ys \<and> ar_released a' = ar_released a \<and> ar_retained a' = ar_retained a)"

lemma array_append_ok:
  assumes "arr_ok a xs" "ar_size a < 2 ^ 59"
  shows "stored mem a xs (xs @ [v]) v (array_append_new mem False (Some v) a)"
proof -
  consider (no_memory) "json_array_grow mem 1 True a = Some Fail" "\<not> mem"
    | (grown) tab b a' where "json_array_grow mem 1 True a = Some (Ok (tab, b, a'))" "arr_ok a' xs" "length xs < ar_size a'"
        "ar_released a' = ar_released a" "ar_retained a' = ar_retained a"
    using grow_copy_ok [OF assms(1) _ assms(2), of 1 mem] by auto
  then show ?thesis
  proof cases
    case no_memory
    then show ?thesis by (simp add: stored_def array_append_new_def)
  next
    case g: grown
    obtain a'' where w: "table_write (length xs) v a' = Some a''" "arr_ok (a''\<lparr>ar_entries := Suc (length xs)\<rparr>) (xs @ [v])"
      "ar_entries a'' = ar_entries a'" "ar_released a'' = ar_released a'" "ar_retained a'' = ar_retained a'"
      using table_write_end [OF g(2,3), of v] by blast
    have "ar_entries a' = length xs" "length xs < 2 ^ 60" using g(2,3) by (auto simp: arr_ok_def)
    then show ?thesis using g(1,4,5) w by (simp add: stored_def array_append_new_def size_add_small)
  qed
qed

text \<open>Inserting, into the table with room for the value or into a larger one.\<close>

lemma array_insert_ok:
  assumes ok: "arr_ok a xs" and sz: "ar_size a < 2 ^ 59" and i: "i \<le> length xs"
  shows "stored mem a xs (take i xs @ v # drop i xs) v (array_insert_new mem False i (Some v) a)"
proof -
  obtain rest where r: "ar_table a = map Some xs @ rest" "ar_size a = length xs + length rest" "ar_entries a = length xs"
    "length xs + length rest < 2 ^ 60" using arr_okE [OF ok] .
  have s: "size_add (length xs) 1 = length xs + 1" "size_add (ar_size a) 1 = ar_size a + 1" "ar_size a * 2 mod 2 ^ 64 = ar_size a * 2"
    using sz r(2) by (simp_all add: size_add_small)
  have c: "i < 2 ^ 61" "length xs - i < 2 ^ 61" using i r(4) by simp_all
  show ?thesis
  proof (cases rest)
    case (Cons x rest')
    have "array_copy (map Some xs @ rest) (i + 1) (map Some xs @ rest) i (length xs - i) =
        Some (take (Suc i) (map Some xs @ rest) @ map Some (drop i xs) @ rest')"
      using i Cons by (subst array_copy_ok [OF c(2)]) (simp_all add: drop_map)
    moreover have "(take (Suc i) (map Some xs @ rest) @ map Some (drop i xs) @ rest')[i := Some v] =
        map Some (take i xs @ v # drop i xs) @ rest'"
      using i Cons by (auto simp: list_update_append take_map intro!: nth_equalityI simp: nth_list_update nth_append nth_Cons split: nat.splits)
    ultimately show ?thesis using r s i Cons
      by (auto simp: stored_def array_insert_new_def json_array_grow_def array_move_def table_write_def arr_ok_def)
  next
    case Nil
    define n where "n = max (ar_size a + 1) (ar_size a * 2)"
    have nb: "n < 2 ^ 60" "i \<le> n" "Suc (length xs) \<le> n" using sz i r(2) Nil by (simp_all add: n_def)
    have c1: "array_copy (replicate n None) 0 (map Some xs) 0 i = Some (map Some (take i xs) @ replicate (n - i) None)"
      using i nb(2) by (subst array_copy_ok [OF c(1)]) (simp_all add: take_map)
    have c2: "array_copy (map Some (take i xs) @ replicate (n - i) None) (i + 1) (map Some xs) i (length xs - i) =
        Some (map Some (take i xs) @ None # map Some (drop i xs) @ replicate (n - Suc (length xs)) None)"
      using i nb(3) by (subst array_copy_ok [OF c(2)]) (simp_all add: drop_map Suc_diff_le min_def split: if_splits)
    have u: "(map Some (take i xs) @ None # map Some (drop i xs) @ replicate (n - Suc (length xs)) None)[i := Some v] =
        map Some (take i xs @ v # drop i xs) @ replicate (n - Suc (length xs)) None"
      using i by (simp add: list_update_append)
    show ?thesis using r s i Nil nb c1 c2 u n_def
      by (auto simp: stored_def array_insert_new_def json_array_grow_def table_write_def arr_ok_def slots_small Let_def)
  qed
qed

lemma array_remove_ok:
  assumes ok: "arr_ok a xs" and i: "i < length xs"
  shows "\<exists>a'. array_remove i a = Some (0, a') \<and> arr_ok a' (take i xs @ drop (Suc i) xs) \<and> ar_released a' = ar_released a @ [xs ! i]"
proof -
  obtain rest where r: "ar_table a = map Some xs @ rest" "ar_size a = length xs + length rest" "ar_entries a = length xs"
    "length xs + length rest < 2 ^ 60" using arr_okE [OF ok] .
  let ?n = "length xs - i - 1"
  have c: "array_copy (map Some xs @ rest) i (map Some xs @ rest) (i + 1) ?n =
      Some (map Some (take i xs @ drop (Suc i) xs) @ drop (length xs - 1) (map Some xs @ rest))"
    using i r(4) by (subst array_copy_ok) (simp_all add: take_map drop_map)
  show ?thesis
  proof (cases "Suc i = length xs")
    case True
    then obtain ys x where ys: "xs = ys @ [x]" "i = length ys" by (cases xs rule: rev_cases) auto
    then have "slot (map Some ys @ Some x # rest) (length ys) = Some x" by (simp add: slot_def mem_get_def nth_append)
    then show ?thesis using r ys by (auto simp: array_remove_def arr_ok_def array_release_def Let_def)
  next
    case False
    then have "i < length xs - 1" using i by simp
    then show ?thesis using r i c
      by (auto simp: array_remove_def slot_used array_move_def arr_ok_def array_release_def Let_def)
  qed
qed

lemma array_set_ok:
  assumes "arr_ok a xs" "i < length xs"
  shows "\<exists>a'. array_set_new False i (Some v) a = Some (0, a') \<and> arr_ok a' (xs[i := v]) \<and> ar_released a' = ar_released a @ [xs ! i]"
proof -
  obtain rest where r: "ar_table a = map Some xs @ rest" "ar_size a = length xs + length rest" "ar_entries a = length xs"
    using arr_okE [OF assms(1)] .
  then show ?thesis using assms
    by (auto simp: array_set_new_def slot_used arr_ok_def array_release_def list_update_append map_update)
qed

lemma array_clear_ok:
  assumes "arr_ok a xs"
  shows "\<exists>a'. array_clear a = Some (0, a') \<and> arr_ok a' [] \<and> ar_released a' = ar_released a @ xs"
proof -
  obtain rest where r: "ar_table a = map Some xs @ rest" "ar_size a = length xs + length rest" "ar_entries a = length xs"
    using arr_okE [OF assms] .
  then show ?thesis using assms by (simp add: array_clear_def slot_values_used arr_ok_def)
qed

text \<open>The array by which another one is extended, or the array itself.\<close>

lemma array_extend_ok:
  assumes ok: "arr_ok a xs" and sz: "ar_size a < 2 ^ 59"
    and oth: "case oth of None \<Rightarrow> ys = xs | Some b \<Rightarrow> arr_ok b ys \<and> ar_size b < 2 ^ 59"
  shows "\<not> mem \<and> array_extend mem oth a = Some (- 1, a) \<or>
    (\<exists>a'. array_extend mem oth a = Some (0, a') \<and> arr_ok a' (xs @ ys) \<and> ar_released a' = ar_released a \<and>
      ar_retained a' = ar_retained a @ ys)"
proof -
  let ?n = "ar_entries (case oth of None \<Rightarrow> a | Some b \<Rightarrow> b)"
  have n: "?n = length ys" "length ys < 2 ^ 59" using ok sz oth by (auto simp: arr_ok_def split: option.splits)
  consider (no_memory) "json_array_grow mem ?n True a = Some Fail" "\<not> mem"
    | (grown) tab b a' where "json_array_grow mem ?n True a = Some (Ok (tab, b, a'))" "arr_ok a' xs" "length xs + length ys \<le> ar_size a'"
        "ar_released a' = ar_released a" "ar_retained a' = ar_retained a"
    using grow_copy_ok [OF ok _ sz, of ?n mem] n by auto
  then show ?thesis
  proof cases
    case no_memory
    then show ?thesis by (simp add: array_extend_def)
  next
    case g: grown
    obtain rest where r: "ar_table a' = map Some xs @ rest" "ar_size a' = length xs + length rest" "ar_entries a' = length xs"
      "length xs + length rest < 2 ^ 60" using arr_okE [OF g(2)] .
    let ?b = "case oth of None \<Rightarrow> a' | Some b \<Rightarrow> b"
    have "arr_ok ?b ys" using g(2) oth by (auto split: option.splits)
    then obtain rest' where b: "ar_table ?b = map Some ys @ rest'" "ar_entries ?b = length ys" using arr_okE by metis
    have "array_copy (map Some xs @ rest) (length xs) (map Some ys @ rest') 0 (length ys) =
        Some (map Some (xs @ ys) @ drop (length ys) rest)"
      using n(2) g(3) r(2) by (subst array_copy_ok) simp_all
    moreover have "size_add (length xs) (length ys) = length xs + length ys" using n(2) r(4) by (simp add: size_add_small)
    ultimately show ?thesis using g r b n(1) by (simp add: array_extend_def slot_values_used Let_def arr_ok_def)
  qed
qed

section \<open>Properties\<close>

text \<open>(C22) An array of jansson, a table that is made larger when it is full, implements the list that stands
  for it in the values of the development. Appending and inserting put the value at the end or before the
  given position, or report that there is no memory, release the value and change nothing; appending agrees
  with \<open>json_array_append_new\<close> on values. Replacing, removing and clearing release exactly the values that leave
  the array. Extending, also by itself, retains the values it adds. No operation reads a slot that has not
  been written or copies outside a table.\<close>

theorem json_array_refines:
  fixes a :: "json json_array_t"
  assumes "arr_ok a xs" "ar_size a < 2 ^ 59" "case oth of None \<Rightarrow> ys = xs | Some b \<Rightarrow> arr_ok b ys \<and> ar_size b < 2 ^ 59"
  shows "array_get i a = Some (if i < length xs then Some (xs ! i) else None) \<and>
    stored mem a xs (json_array_items (json_array_append_new (JArray xs) (Some v))) v (array_append_new mem False (Some v) a) \<and>
    (if i \<le> length xs then stored mem a xs (take i xs @ v # drop i xs) v (array_insert_new mem False i (Some v) a)
     else array_insert_new mem False i (Some v) a = Some (- 1, array_release v a)) \<and>
    (if i < length xs
     then (\<exists>a'. array_set_new False i (Some v) a = Some (0, a') \<and> arr_ok a' (xs[i := v]) \<and> ar_released a' = ar_released a @ [xs ! i]) \<and>
       (\<exists>a'. array_remove i a = Some (0, a') \<and> arr_ok a' (take i xs @ drop (Suc i) xs) \<and> ar_released a' = ar_released a @ [xs ! i])
     else array_set_new False i (Some v) a = Some (- 1, array_release v a) \<and> array_remove i a = Some (- 1, a)) \<and>
    (\<exists>a'. array_clear a = Some (0, a') \<and> arr_ok a' [] \<and> ar_released a' = ar_released a @ xs) \<and>
    (\<not> mem \<and> array_extend mem oth a = Some (- 1, a) \<or>
     (\<exists>a'. array_extend mem oth a = Some (0, a') \<and> arr_ok a' (xs @ ys) \<and> ar_released a' = ar_released a \<and>
       ar_retained a' = ar_retained a @ ys))"
proof -
  have n: "ar_entries a = length xs" using assms(1) by (simp add: arr_ok_def)
  have "array_insert_new mem False i (Some v) a = Some (- 1, array_release v a)" if "length xs < i"
    using n that by (simp add: array_insert_new_def)
  moreover have "array_set_new False i (Some v) a = Some (- 1, array_release v a)" "array_remove i a = Some (- 1, a)" if "length xs \<le> i"
    using n that by (simp_all add: array_set_new_def array_remove_def)
  ultimately show ?thesis
    using array_get_ok [OF assms(1), of i] array_append_ok [OF assms(1,2), of mem v] array_insert_ok [OF assms(1,2), of i mem v]
      array_set_ok [OF assms(1), of i v] array_remove_ok [OF assms(1), of i] array_clear_ok [OF assms(1)] array_extend_ok [OF assms, of mem]
    by (cases "i = length xs") auto
qed

definition demo_array :: "json json_array_t" where
  "demo_array = \<lparr>ar_size = 2, ar_entries = 2, ar_table = [Some JTrue, Some JNull], ar_released = [], ar_retained = []\<rparr>"

lemma json_array_refines_witness:
  "array_get 1 demo_array = Some (Some JNull) \<and>
   stored True demo_array [JTrue, JNull] [JTrue, JFalse, JNull] JFalse (array_insert_new True False 1 (Some JFalse) demo_array) \<and>
   (\<exists>a'. array_remove 1 demo_array = Some (0, a') \<and> arr_ok a' [JTrue] \<and> ar_released a' = [JNull]) \<and>
   (\<exists>a'. array_extend True None demo_array = Some (0, a') \<and> arr_ok a' [JTrue, JNull, JTrue, JNull])"
proof -
  have "arr_ok demo_array [JTrue, JNull]" by (simp add: arr_ok_def demo_array_def)
  moreover have "ar_size demo_array < 2 ^ 59" "ar_released demo_array = []" by (simp_all add: demo_array_def)
  ultimately show ?thesis
    using json_array_refines [of demo_array "[JTrue, JNull]" "[JTrue, JNull]" None 1 True JFalse] by simp blast
qed

end
