(* ===== verification/Json_Value.thy ===== *)
theory Json_Value
  imports Json_Safe
begin

text \<open>
  The operations of \<open>value.c\<close> on whole values: comparing, copying, and merging objects. Objects are
  association lists in the order of iteration and arrays are lists, as in \<open>Json\<close>; \<open>Json_Object\<close> and
  \<open>Json_Array\<close> relate these to the tables of the code. Allocations inside jansson succeed.

  \<open>json_equal\<close> first compares pointers, which values do not have: the comparison is an argument. All that
  is known of it is that a pointer has one value and that true, false and null exist once
  (\<open>pointers_ok\<close>). The first argument is not null.
\<close>

section \<open>Accessors and setters\<close>

fun json_typeof :: "json \<Rightarrow> nat" where
  "json_typeof (JObject _) = 0"
| "json_typeof (JArray _) = 1"
| "json_typeof (JString _) = 2"
| "json_typeof (JInteger _) = 3"
| "json_typeof (JReal _) = 4"
| "json_typeof JTrue = 5"
| "json_typeof JFalse = 6"
| "json_typeof JNull = 7"

definition json_object_size :: "json \<Rightarrow> nat" where
  "json_object_size obj = length (json_object_pairs obj)"

definition json_array_get :: "json \<Rightarrow> nat \<Rightarrow> json option" where
  "json_array_get a index = (if index \<ge> json_array_size a then None else Some (json_array_items a ! index))"

fun json_real_value :: "json option \<Rightarrow> 64 word" where
  "json_real_value (Some (JReal d)) = d"
| "json_real_value _ = 0"

fun json_string_set_nocheck :: "json \<Rightarrow> string option \<Rightarrow> json option" where
  "json_string_set_nocheck (JString _) (Some s) = Some (JString s)"
| "json_string_set_nocheck _ _ = None"

definition json_string_set :: "json \<Rightarrow> string option \<Rightarrow> json option" where
  "json_string_set v s =
     (case s of None \<Rightarrow> None | Some t \<Rightarrow> if utf8_check_string t then json_string_set_nocheck v s else None)"

fun json_integer_set :: "json \<Rightarrow> 64 word \<Rightarrow> json option" where
  "json_integer_set (JInteger _) w = Some (JInteger (sint w))"
| "json_integer_set _ _ = None"

fun json_real_set :: "json \<Rightarrow> 64 word \<Rightarrow> json option" where
  "json_real_set (JReal _) d = (if dbl_finite d then Some (JReal d) else None)"
| "json_real_set _ _ = None"

section \<open>Equality\<close>

text \<open>Comparison of doubles: a NaN is not equal to anything, the two zeros are equal.\<close>

definition dbl_eq :: "64 word \<Rightarrow> 64 word \<Rightarrow> bool" where
  "dbl_eq d e \<longleftrightarrow> dbl_mag d \<le> DBL_INF \<and> dbl_mag e \<le> DBL_INF \<and> (d = e \<or> dbl_mag d = 0 \<and> dbl_mag e = 0)"

text \<open>Comparison of two string, integer or real values.\<close>

definition json_string_equal :: "json \<Rightarrow> json \<Rightarrow> bool" where
  "json_string_equal v w \<longleftrightarrow> json_string_value (Some v) = json_string_value (Some w)"

definition json_integer_equal :: "json \<Rightarrow> json \<Rightarrow> bool" where
  "json_integer_equal v w \<longleftrightarrow> json_integer_value (Some v) = json_integer_value (Some w)"

definition json_real_equal :: "json \<Rightarrow> json \<Rightarrow> bool" where
  "json_real_equal v w \<longleftrightarrow> dbl_eq (json_real_value (Some v)) (json_real_value (Some w))"

function json_equal :: "(json \<Rightarrow> json \<Rightarrow> bool) \<Rightarrow> json \<Rightarrow> json option \<Rightarrow> bool"
  and equal_members :: "(json \<Rightarrow> json \<Rightarrow> bool) \<Rightarrow> (string \<times> json) list \<Rightarrow> json \<Rightarrow> bool"
  and equal_items :: "(json \<Rightarrow> json \<Rightarrow> bool) \<Rightarrow> nat \<Rightarrow> json list \<Rightarrow> json \<Rightarrow> bool"
where
  "json_equal same v ow =
     (case ow of None \<Rightarrow> False
      | Some w \<Rightarrow>
          if json_typeof v \<noteq> json_typeof w then False
          else if same v w then True
          else
            (case v of
               JObject kvs \<Rightarrow> json_object_size v = json_object_size w \<and> equal_members same kvs w
             | JArray xs \<Rightarrow> json_array_size v = json_array_size w \<and> equal_items same 0 xs w
             | JString _ \<Rightarrow> json_string_equal v w
             | JInteger _ \<Rightarrow> json_integer_equal v w
             | JReal _ \<Rightarrow> json_real_equal v w
             | _ \<Rightarrow> False))"
| "equal_members same [] w \<longleftrightarrow> True"
| "equal_members same (kv # kvs) w \<longleftrightarrow>
     json_equal same (snd kv) (json_object_get (Some w) (fst kv)) \<and> equal_members same kvs w"
| "equal_items same i [] w \<longleftrightarrow> True"
| "equal_items same i (x # xs) w \<longleftrightarrow> json_equal same x (json_array_get w i) \<and> equal_items same (i + 1) xs w"
  by pat_completeness auto
termination
  by (relation "measure (\<lambda>x. case x of
        Inl (same, v, ow) \<Rightarrow> 2 * weight v
      | Inr (Inl (same, kvs, w)) \<Rightarrow> 2 * pairs_weight kvs + 1
      | Inr (Inr (same, i, xs, w)) \<Rightarrow> 2 * items_weight xs + 1)")
    (auto simp: items_weight_def pairs_weight_def comp_def map_prod_def case_prod_beta)

declare json_equal.simps [simp del]

definition pointers_ok :: "(json \<Rightarrow> json \<Rightarrow> bool) \<Rightarrow> bool" where
  "pointers_ok same \<longleftrightarrow> (\<forall>v w. same v w \<longrightarrow> v = w) \<and> same JTrue JTrue \<and> same JFalse JFalse \<and> same JNull JNull"

section \<open>Copying\<close>

text \<open>The results of the setters are ignored.\<close>

definition copy_member :: "json \<Rightarrow> string \<Rightarrow> json option \<Rightarrow> json" where
  "copy_member result key val = (case json_object_set_new_nocheck result (Some key) val of None \<Rightarrow> result | Some r \<Rightarrow> r)"

definition json_object_copy :: "json \<Rightarrow> json" where
  "json_object_copy obj = foldl (\<lambda>result kv. copy_member result (fst kv) (Some (snd kv))) json_object (json_object_pairs obj)"

definition json_array_copy :: "json \<Rightarrow> json" where
  "json_array_copy a = foldl (\<lambda>result x. json_array_append result (Some x)) json_array (json_array_items a)"

definition json_string_copy :: "json \<Rightarrow> json option" where
  "json_string_copy v = Option.bind (json_string_value (Some v)) json_string_nocheck"

definition json_integer_copy :: "json \<Rightarrow> json option" where
  "json_integer_copy v = json_integer (word_of_int (json_integer_value (Some v)))"

definition json_real_copy :: "json \<Rightarrow> json option" where
  "json_real_copy v = json_real (json_real_value (Some v))"

definition json_copy :: "json \<Rightarrow> json option" where
  "json_copy v =
     (case v of
        JObject _ \<Rightarrow> Some (json_object_copy v)
      | JArray _ \<Rightarrow> Some (json_array_copy v)
      | JString _ \<Rightarrow> json_string_copy v
      | JInteger _ \<Rightarrow> json_integer_copy v
      | JReal _ \<Rightarrow> json_real_copy v
      | _ \<Rightarrow> Some v)"

function json_deep_copy :: "json \<Rightarrow> json option"
  and json_object_deep_copy :: "(string \<times> json) list \<Rightarrow> json \<Rightarrow> json"
  and json_array_deep_copy :: "json list \<Rightarrow> json \<Rightarrow> json"
where
  "json_deep_copy v =
     (case v of
        JObject kvs \<Rightarrow> Some (json_object_deep_copy kvs json_object)
      | JArray xs \<Rightarrow> Some (json_array_deep_copy xs json_array)
      | JString _ \<Rightarrow> json_string_copy v
      | JInteger _ \<Rightarrow> json_integer_copy v
      | JReal _ \<Rightarrow> json_real_copy v
      | _ \<Rightarrow> Some v)"
| "json_object_deep_copy [] result = result"
| "json_object_deep_copy (kv # kvs) result =
     json_object_deep_copy kvs (copy_member result (fst kv) (json_deep_copy (snd kv)))"
| "json_array_deep_copy [] result = result"
| "json_array_deep_copy (x # xs) result = json_array_deep_copy xs (json_array_append_new result (json_deep_copy x))"
  by pat_completeness auto
termination
  by (relation "measure (\<lambda>x. case x of
        Inl v \<Rightarrow> 2 * weight v
      | Inr (Inl (kvs, r)) \<Rightarrow> 2 * pairs_weight kvs + 1
      | Inr (Inr (xs, r)) \<Rightarrow> 2 * items_weight xs + 1)")
    (auto simp: items_weight_def pairs_weight_def comp_def map_prod_def case_prod_beta)

declare json_deep_copy.simps [simp del]

section \<open>Merging objects\<close>

text \<open>The loops over the members of the other object, with the result of the call.\<close>

fun update_loop :: "(string \<times> json) list \<Rightarrow> json \<Rightarrow> int \<times> json" where
  "update_loop [] obj = (0, obj)"
| "update_loop (kv # kvs) obj =
     (case json_object_set_nocheck obj (Some (fst kv)) (Some (snd kv)) of
        None \<Rightarrow> (- 1, obj)
      | Some obj \<Rightarrow> update_loop kvs obj)"

definition json_object_update :: "json \<Rightarrow> json \<Rightarrow> int \<times> json" where
  "json_object_update obj oth =
     (if \<not> json_is_object (Some obj) \<or> \<not> json_is_object (Some oth) then (- 1, obj)
      else update_loop (json_object_pairs oth) obj)"

definition json_object_update_existing :: "json \<Rightarrow> json \<Rightarrow> int \<times> json" where
  "json_object_update_existing obj oth =
     (if \<not> json_is_object (Some obj) \<or> \<not> json_is_object (Some oth) then (- 1, obj)
      else (0, foldl (\<lambda>obj kv. if json_object_get (Some obj) (fst kv) \<noteq> None then copy_member obj (fst kv) (Some (snd kv)) else obj)
        obj (json_object_pairs oth)))"

definition json_object_update_missing :: "json \<Rightarrow> json \<Rightarrow> int \<times> json" where
  "json_object_update_missing obj oth =
     (if \<not> json_is_object (Some obj) \<or> \<not> json_is_object (Some oth) then (- 1, obj)
      else (0, foldl (\<lambda>obj kv. if json_object_get (Some obj) (fst kv) = None then copy_member obj (fst kv) (Some (snd kv)) else obj)
        obj (json_object_pairs oth)))"

section \<open>Equality as a relation\<close>

text \<open>Values that differ at most in the order of the members of objects and in the signs of zeros.\<close>

inductive json_same :: "json \<Rightarrow> json \<Rightarrow> bool" where
  same_null: "json_same JNull JNull"
| same_true: "json_same JTrue JTrue"
| same_false: "json_same JFalse JFalse"
| same_integer: "json_same (JInteger i) (JInteger i)"
| same_real: "dbl_eq d e \<Longrightarrow> json_same (JReal d) (JReal e)"
| same_string: "json_same (JString s) (JString s)"
| same_array: "list_all2 json_same xs ys \<Longrightarrow> json_same (JArray xs) (JArray ys)"
| same_object: "(\<And>k. rel_option json_same (map_of kvs k) (map_of kvs' k)) \<Longrightarrow> json_same (JObject kvs) (JObject kvs')"
monos option.rel_mono_strong

inductive_simps json_same_simps:
  "json_same JNull w" "json_same JTrue w" "json_same JFalse w" "json_same (JInteger i) w" "json_same (JReal d) w"
  "json_same (JString s) w" "json_same (JArray xs) w" "json_same (JObject kvs) w"

lemma dbl_eq_equiv:
  "dbl_finite d \<Longrightarrow> dbl_eq d d" "dbl_eq d e \<Longrightarrow> dbl_eq e d" "dbl_eq d e \<Longrightarrow> dbl_eq e f \<Longrightarrow> dbl_eq d f"
  by (auto simp: dbl_eq_def dbl_finite_def)

lemma json_same_refl: "json_wf v \<Longrightarrow> json_same v v"
proof (induction v)
  case (JArray xs)
  then show ?case by (auto simp: list_all2_conv_all_nth intro!: same_array)
next
  case (JObject kvs)
  have "rel_option json_same (map_of kvs k) (map_of kvs k)" for k
  proof (cases "map_of kvs k")
    case (Some w)
    then have "(k, w) \<in> set kvs" by (rule map_of_SomeD)
    then show ?thesis using JObject Some by fastforce
  qed simp
  then show ?case by (rule same_object)
qed (auto intro: json_same.intros dbl_eq_equiv)

lemma json_same_sym: "json_same v w \<Longrightarrow> json_same w v"
proof (induction rule: json_same.induct)
  case (same_array xs ys)
  then show ?case by (auto simp: list_all2_conv_all_nth intro!: json_same.same_array)
next
  case (same_object kvs kvs')
  have "rel_option json_same (map_of kvs' k) (map_of kvs k)" for k
    using same_object [of k] by (cases "map_of kvs k"; cases "map_of kvs' k") auto
  then show ?case by (rule json_same.same_object)
qed (auto intro: json_same.intros dbl_eq_equiv)

lemma json_same_trans: "json_same u v \<Longrightarrow> json_same v w \<Longrightarrow> json_same u w"
proof (induction arbitrary: w rule: json_same.induct)
  case (same_array xs ys)
  then show ?case by (auto simp: json_same_simps list_all2_conv_all_nth)
next
  case (same_object kvs kvs')
  then obtain kvs'' where w: "w = JObject kvs''" "\<And>k. rel_option json_same (map_of kvs' k) (map_of kvs'' k)" by (auto simp: json_same_simps)
  have "rel_option json_same (map_of kvs k) (map_of kvs'' k)" for k
    using same_object(1) [of k] w(2) [of k] by (cases "map_of kvs k"; cases "map_of kvs' k"; cases "map_of kvs'' k") auto
  then show ?case using w(1) by (simp add: json_same.same_object)
qed (auto simp: json_same_simps intro: dbl_eq_equiv)

text \<open>With as many members, it is enough to look up the keys of one object in the other.\<close>

lemma members_rel:
  assumes "distinct (map fst kvs)" "distinct (map fst kvs')"
  shows "length kvs = length kvs' \<and> (\<forall>kv \<in> set kvs. \<exists>x. map_of kvs' (fst kv) = Some x \<and> R (snd kv) x) \<longleftrightarrow>
    (\<forall>k. rel_option R (map_of kvs k) (map_of kvs' k))" (is "?l \<longleftrightarrow> ?r")
proof
  assume l: ?l
  have "fst ` set kvs \<subseteq> fst ` set kvs'" using l by (force dest: map_of_SomeD)
  then have keys: "fst ` set kvs = fst ` set kvs'"
    using l distinct_card [OF assms(1)] distinct_card [OF assms(2)] by (intro card_subset_eq) auto
  show ?r
  proof
    fix k
    show "rel_option R (map_of kvs k) (map_of kvs' k)"
    proof (cases "map_of kvs k")
      case None
      then have "map_of kvs' k = None" using keys by (simp add: map_of_eq_None_iff)
      then show ?thesis using None by simp
    next
      case (Some v)
      then show ?thesis using l by (force dest: map_of_SomeD)
    qed
  qed
next
  assume r: ?r
  have "(map_of kvs k = None) = (map_of kvs' k = None)" for k using r [rule_format, of k] by (auto simp: rel_option_iff split: option.splits)
  then have "fst ` set kvs = fst ` set kvs'" unfolding map_of_eq_None_iff by blast
  then have "length kvs = length kvs'" using distinct_card [OF assms(1)] distinct_card [OF assms(2)] by simp
  moreover have "\<exists>x. map_of kvs' (fst kv) = Some x \<and> R (snd kv) x" if "kv \<in> set kvs" for kv
    using r [rule_format, of "fst kv"] map_of_is_SomeI [OF assms(1), of "fst kv" "snd kv"] that by (auto simp: option_rel_Some1)
  ultimately show ?l by blast
qed

lemma json_equal_same:
  assumes "pointers_ok same"
  shows "json_wf v \<Longrightarrow> pred_option json_wf ow \<Longrightarrow> json_equal same v ow \<longleftrightarrow> (\<exists>w. ow = Some w \<and> json_same v w)"
    and "\<forall>kv \<in> set kvs. json_wf (snd kv) \<Longrightarrow> json_wf w \<Longrightarrow>
      equal_members same kvs w \<longleftrightarrow> (\<forall>kv \<in> set kvs. \<exists>x. json_object_get (Some w) (fst kv) = Some x \<and> json_same (snd kv) x)"
    and "\<forall>x \<in> set xs. json_wf x \<Longrightarrow> json_wf w \<Longrightarrow>
      equal_items same i xs w \<longleftrightarrow> (\<forall>j < length xs. \<exists>y. json_array_get w (i + j) = Some y \<and> json_same (xs ! j) y)"
  using assms
proof (induction same v ow and same kvs w and same i xs w rule: json_equal_equal_members_equal_items.induct)
  case (1 same v ow)
  show ?case
  proof (cases ow)
    case None
    then show ?thesis by (simp add: json_equal.simps)
  next
    case (Some w)
    have wf: "json_wf v" "json_wf w" and ptr: "pointers_ok same" using 1 Some by simp_all
    show ?thesis
    proof (cases "same v w \<or> json_typeof v \<noteq> json_typeof w")
      case True
      then have "json_equal same v ow \<longleftrightarrow> json_typeof v = json_typeof w" using Some by (auto simp: json_equal.simps)
      moreover have "json_same v w \<Longrightarrow> json_typeof v = json_typeof w" by (induction rule: json_same.cases) simp_all
      moreover have "same v w \<Longrightarrow> v = w" using ptr by (simp add: pointers_ok_def)
      ultimately show ?thesis using True Some json_same_refl [OF wf(1)] by auto
    next
      case False
      note eq = json_equal.simps [of same v ow] Some False
      show ?thesis
      proof (cases v)
        case (JObject kvs)
        then obtain kvs' where w: "w = JObject kvs'" using False by (cases w) auto
        show ?thesis using 1(2) [of w kvs] eq w JObject wf ptr members_rel [of kvs kvs' json_same]
          by (auto simp: json_object_size_def json_same_simps)
      next
        case (JArray xs)
        then obtain ys where w: "w = JArray ys" using False by (cases w) auto
        show ?thesis using 1(1) [of w xs] eq w JArray wf ptr
          by (auto simp: json_array_size_def json_array_get_def json_same_simps list_all2_conv_all_nth)
      qed (use eq ptr in \<open>cases w; simp add: json_same_simps pointers_ok_def json_string_equal_def json_integer_equal_def json_real_equal_def; auto\<close>)+
    qed
  qed
next
  case (3 same kv kvs w)
  have "pred_option json_wf (json_object_get (Some w) (fst kv))"
    using 3(4) by (cases w) (auto simp: option.pred_set dest!: map_of_SomeD)
  then show ?case using 3 by auto
next
  case (5 same i x xs w)
  have "pred_option json_wf (json_array_get w i)"
    using 5(4) by (cases w) (auto simp: json_array_get_def json_array_size_def)
  then show ?case using 5 by (simp add: All_less_Suc2)
qed auto

section \<open>Copies\<close>

lemma copy_member_simps [simp]:
  "copy_member (JObject acc) k (Some v) = JObject (AList.update k v acc)" "copy_member obj k None = obj"
  by (simp_all add: copy_member_def json_object_set_new_nocheck_def)

lemma copy_object: "distinct (map fst (acc @ kvs)) \<Longrightarrow>
  foldl (\<lambda>r kv. copy_member r (fst kv) (Some (snd kv))) (JObject acc) kvs = JObject (acc @ kvs)"
  by (induction kvs arbitrary: acc) (simp_all add: update_new)

lemma copy_array: "foldl (\<lambda>r x. json_array_append r (Some x)) (JArray acc) xs = JArray (acc @ xs)"
  by (induction xs arbitrary: acc) (simp_all add: json_array_append_def)

lemma copy_scalars:
  "json_wf (JInteger i) \<Longrightarrow> json_integer_copy (JInteger i) = Some (JInteger i)"
  "json_wf (JReal d) \<Longrightarrow> json_real_copy (JReal d) = Some (JReal d)" "json_string_copy (JString s) = Some (JString s)"
  by (simp_all add: json_integer_copy_def json_integer_def sint_sbintrunc' signed_take_bit_int_eq_self json_real_copy_def json_real_def json_string_copy_def
      json_string_nocheck_def)

lemma json_copy_eq: "json_wf v \<Longrightarrow> json_copy v = Some v"
  by (cases v) (simp_all add: json_copy_def copy_scalars json_object_copy_def json_object_def copy_object [of "[]", simplified]
      json_array_copy_def json_array_def copy_array [of "[]", simplified])

lemma json_deep_copy_eq:
  "json_wf v \<Longrightarrow> json_deep_copy v = Some v"
  "\<forall>kv \<in> set kvs. json_wf (snd kv) \<Longrightarrow> r = JObject acc \<Longrightarrow> distinct (map fst (acc @ kvs)) \<Longrightarrow> json_object_deep_copy kvs r = JObject (acc @ kvs)"
  "\<forall>x \<in> set xs. json_wf x \<Longrightarrow> s = JArray bcc \<Longrightarrow> json_array_deep_copy xs s = JArray (bcc @ xs)"
proof (induction v and kvs r and xs s arbitrary: and acc and bcc rule: json_deep_copy_json_object_deep_copy_json_array_deep_copy.induct)
  case (1 v)
  show ?case
  proof (cases v)
    case (JArray xs)
    then show ?thesis using 1(1,3) by (simp add: json_deep_copy.simps json_array_def)
  next
    case (JObject kvs)
    then show ?thesis using 1(2,3) by (simp add: json_deep_copy.simps json_object_def)
  qed (use 1(3) in \<open>simp_all add: json_deep_copy.simps copy_scalars\<close>)
next
  case (3 kv kvs r)
  then show ?case by (simp add: update_new)
qed simp_all

section \<open>Merged objects\<close>

lemma update_loop_ok:
  "distinct (map fst kvs) \<Longrightarrow> \<exists>r. update_loop kvs (JObject acc) = (0, JObject r) \<and> map_of r = map_of acc ++ map_of kvs"
proof (induction kvs arbitrary: acc)
  case (Cons kv kvs)
  then obtain r where r: "update_loop kvs (JObject (AList.update (fst kv) (snd kv) acc)) = (0, JObject r)"
    "map_of r = (map_of acc)(fst kv \<mapsto> snd kv) ++ map_of kvs" by (fastforce simp: update_conv')
  have "map_of kvs (fst kv) = None" using Cons.prems by (simp add: map_of_eq_None_iff)
  then have "map_of r = map_of acc ++ map_of (kv # kvs)" using r(2) by (auto simp: map_add_def fun_eq_iff split: option.splits)
  then show ?case using r(1) by (simp add: json_object_set_nocheck_def json_object_set_new_nocheck_def del: map_of.simps)
qed simp

lemma update_existing_ok:
  "distinct (map fst kvs) \<Longrightarrow> \<exists>r. foldl (\<lambda>obj kv. if json_object_get (Some obj) (fst kv) \<noteq> None then copy_member obj (fst kv) (Some (snd kv)) else obj)
     (JObject acc) kvs = JObject r \<and> map_of r = map_of acc ++ (map_of kvs |` dom (map_of acc))"
proof (induction kvs arbitrary: acc)
  case (Cons kv kvs)
  let ?acc = "if map_of acc (fst kv) \<noteq> None then AList.update (fst kv) (snd kv) acc else acc"
  let ?f = "\<lambda>obj kv. if json_object_get (Some obj) (fst kv) \<noteq> None then copy_member obj (fst kv) (Some (snd kv)) else obj"
  obtain r where r: "foldl ?f (JObject ?acc) kvs = JObject r" "map_of r = map_of ?acc ++ (map_of kvs |` dom (map_of ?acc))"
    using Cons.IH [of ?acc] Cons.prems by auto
  have n: "map_of kvs (fst kv) = None" using Cons.prems by (simp add: map_of_eq_None_iff)
  have "map_of r = map_of acc ++ (map_of (kv # kvs) |` dom (map_of acc))"
    using n unfolding r(2) by (auto simp: map_add_def restrict_map_def fun_eq_iff update_conv' split: option.splits)
  moreover have "foldl ?f (JObject acc) (kv # kvs) = JObject r" using r(1) by (cases "map_of acc (fst kv)") simp_all
  ultimately show ?case by blast
qed simp

lemma update_missing_ok:
  "distinct (map fst kvs) \<Longrightarrow> \<exists>r. foldl (\<lambda>obj kv. if json_object_get (Some obj) (fst kv) = None then copy_member obj (fst kv) (Some (snd kv)) else obj)
     (JObject acc) kvs = JObject r \<and> map_of r = map_of kvs ++ map_of acc"
proof (induction kvs arbitrary: acc)
  case (Cons kv kvs)
  let ?acc = "if map_of acc (fst kv) = None then AList.update (fst kv) (snd kv) acc else acc"
  let ?f = "\<lambda>obj kv. if json_object_get (Some obj) (fst kv) = None then copy_member obj (fst kv) (Some (snd kv)) else obj"
  obtain r where r: "foldl ?f (JObject ?acc) kvs = JObject r" "map_of r = map_of kvs ++ map_of ?acc"
    using Cons.IH [of ?acc] Cons.prems by auto
  have "map_of r = map_of (kv # kvs) ++ map_of acc"
    unfolding r(2) by (auto simp: map_add_def fun_eq_iff update_conv' split: option.splits)
  moreover have "foldl ?f (JObject acc) (kv # kvs) = JObject r" using r(1) by (cases "map_of acc (fst kv)") simp_all
  ultimately show ?case by blast
qed simp

text \<open>Merging objects: \<open>json_object_update\<close> gives precedence to the members of the other object,
  \<open>json_object_update_missing\<close> to those that are there, and \<open>json_object_update_existing\<close> replaces values
  without adding keys.\<close>

lemma json_object_updates:
  assumes "distinct (map fst kvs')"
  shows "(\<exists>r. json_object_update (JObject kvs) (JObject kvs') = (0, JObject r) \<and> map_of r = map_of kvs ++ map_of kvs') \<and>
    (\<exists>r. json_object_update_missing (JObject kvs) (JObject kvs') = (0, JObject r) \<and> map_of r = map_of kvs' ++ map_of kvs) \<and>
    (\<exists>r. json_object_update_existing (JObject kvs) (JObject kvs') = (0, JObject r) \<and>
      map_of r = map_of kvs ++ (map_of kvs' |` dom (map_of kvs)))"
  using update_loop_ok [OF assms, of kvs] update_missing_ok [OF assms, of kvs] update_existing_ok [OF assms, of kvs]
  by (simp add: json_object_update_def json_object_update_missing_def json_object_update_existing_def)

section \<open>Properties\<close>

text \<open>(C24) \<open>json_equal\<close> decides when two well-formed values are the same: as many members under the same keys
  in any order, the same elements in order, and the same scalars, where the two zeros count as one. The
  comparison of pointers, with which it begins, does not change the result. This makes it an equivalence
  relation, and a value and its copies, shallow and deep, are equal.\<close>

theorem json_equal_decides:
  assumes "pointers_ok same" "json_wf u" "json_wf v" "json_wf w"
  shows "(json_equal same v (Some w) \<longleftrightarrow> json_same v w) \<and> json_equal same v (Some v) \<and>
    (json_equal same v (Some w) \<longleftrightarrow> json_equal same w (Some v)) \<and>
    (json_equal same u (Some v) \<and> json_equal same v (Some w) \<longrightarrow> json_equal same u (Some w)) \<and>
    json_copy v = Some v \<and> json_deep_copy v = Some v \<and> json_equal same v (json_deep_copy v)"
proof -
  have eq: "json_equal same x (Some y) \<longleftrightarrow> json_same x y" if "json_wf x" "json_wf y" for x y
    using json_equal_same(1) [OF assms(1) that(1), of "Some y"] that(2) by simp
  show ?thesis
    using eq assms(2-4) json_same_refl [OF assms(3)] json_same_sym json_same_trans [of u v w] json_copy_eq [OF assms(3)]
      json_deep_copy_eq(1) [OF assms(3)] by auto
qed

lemma json_equal_decides_witness:
  "json_equal (=) (JObject [(''a'', JInteger 1), (''b'', JTrue)]) (Some (JObject [(''b'', JTrue), (''a'', JInteger 1)])) \<and>
   \<not> json_equal (=) (JObject [(''a'', JInteger 1), (''b'', JTrue)]) (Some (JObject [(''a'', JInteger 2), (''b'', JTrue)]))"
proof -
  let ?v = "JObject [(''a'', JInteger 1), (''b'', JTrue)]" and ?w = "JObject [(''b'', JTrue), (''a'', JInteger 1)]"
    and ?u = "JObject [(''a'', JInteger 2), (''b'', JTrue)]"
  have "pointers_ok (=)" by (simp add: pointers_ok_def)
  moreover have "json_wf ?v" "json_wf ?w" "json_wf ?u" by code_simp+
  moreover have "json_same ?v ?w" by (simp add: json_same_simps)
  moreover have "\<not> json_same ?v ?u"
  proof
    assume "json_same ?v ?u"
    then have "\<forall>k. rel_option json_same (map_of [(''a'', JInteger 1), (''b'', JTrue)] k) (map_of [(''a'', JInteger 2), (''b'', JTrue)] k)"
      by (simp only: json_same_simps) blast
    from this [THEN spec, of "''a''"] show False by (simp add: json_same_simps)
  qed
  ultimately show ?thesis
    using json_equal_decides [of "(=)" ?u ?v ?w] json_equal_decides [of "(=)" ?u ?v ?u] by blast
qed

end
