(* ===== verification/Json_Refcount.thy ===== *)
theory Json_Refcount
  imports Ngx_Queue "HOL-Library.Multiset"
begin

text \<open>
  Reference counts of jansson: \<open>json_incref\<close>, \<open>json_decref\<close> (\<open>jansson.h\<close>) and \<open>json_delete\<close> (\<open>value.c\<close>), on a
  store of nodes that point to each other. A node has its count and its content, of which only the references
  matter here: the values of an object in the order of its list, the elements of an array. The use of a node
  that has been freed is undefined (\<open>None\<close>).

  \<open>json_decref\<close> and \<open>json_delete\<close> call each other to the depth of the value; the depth is bounded by fuel. More
  fuel than there are nodes is enough, since every call of \<open>json_delete\<close> is for another node.
\<close>

section \<open>Definitions\<close>

datatype json_body =
    BObject "addr list" | BArray "addr list" | BString string | BInteger int | BReal "64 word"
  | BSimple

record json_node =
  nd_refcount :: nat
  nd_body :: json_body

type_synonym json_store = "addr \<rightharpoonup> json_node"

text \<open>\<open>(size_t)-1\<close>, the count of true, false and null.\<close>

definition no_count :: nat where "no_count = 2 ^ 64 - 1"

definition json_init :: "addr \<Rightarrow> json_body \<Rightarrow> json_store \<Rightarrow> json_store" where
  "json_init a b s = s(a \<mapsto> \<lparr>nd_refcount = 1, nd_body = b\<rparr>)"

definition json_incref :: "addr option \<Rightarrow> json_store \<Rightarrow> json_store option" where
  "json_incref json s =
     (case json of None \<Rightarrow> Some s
      | Some a \<Rightarrow> do {
          n \<leftarrow> s a;
          if nd_refcount n \<noteq> no_count
          then Some (s(a \<mapsto> n\<lparr>nd_refcount := size_add (nd_refcount n) 1\<rparr>))
          else Some s })"

definition jsonp_free :: "addr \<Rightarrow> json_store \<Rightarrow> json_store option" where
  "jsonp_free a s = do { n \<leftarrow> s a; Some (s(a := None)) }"

fun decref_all :: "(addr \<Rightarrow> json_store \<Rightarrow> json_store option) \<Rightarrow> addr list \<Rightarrow> json_store \<Rightarrow> json_store option" where
  "decref_all decref [] s = Some s"
| "decref_all decref (a # as) s = do { s \<leftarrow> decref a s; decref_all decref as s }"

text \<open>\<open>json_delete\<close>, with the function that releases a reference.\<close>

definition json_delete :: "(addr \<Rightarrow> json_store \<Rightarrow> json_store option) \<Rightarrow> addr \<Rightarrow> json_body \<Rightarrow> json_store \<Rightarrow> json_store option" where
  "json_delete decref a b s =
     (case b of
        BObject vs \<Rightarrow> do { s \<leftarrow> decref_all decref vs s; jsonp_free a s }
      | BArray vs \<Rightarrow> do { s \<leftarrow> decref_all decref vs s; jsonp_free a s }
      | BString _ \<Rightarrow> jsonp_free a s
      | BInteger _ \<Rightarrow> jsonp_free a s
      | BReal _ \<Rightarrow> jsonp_free a s
      | BSimple \<Rightarrow> Some s)"

primrec decref :: "nat \<Rightarrow> addr \<Rightarrow> json_store \<Rightarrow> json_store option" where
  "decref 0 a s = None"
| "decref (Suc fuel) a s = do {
     n \<leftarrow> s a;
     if nd_refcount n \<noteq> no_count
     then do {
       let n = n\<lparr>nd_refcount := size_sub (nd_refcount n) 1\<rparr>;
       let s = s(a \<mapsto> n);
       if nd_refcount n = 0 then json_delete (decref fuel) a (nd_body n) s else Some s }
     else Some s }"

definition json_decref :: "nat \<Rightarrow> addr option \<Rightarrow> json_store \<Rightarrow> json_store option" where
  "json_decref fuel json s = (case json of None \<Rightarrow> Some s | Some a \<Rightarrow> decref fuel a s)"

section \<open>Counting references\<close>

fun children :: "json_body \<Rightarrow> addr list" where
  "children (BObject vs) = vs"
| "children (BArray vs) = vs"
| "children _ = []"

text \<open>The references that a node holds. A node that is being deleted, whose count is zero, does not hold any:
  they are passed on to \<open>json_decref\<close>.\<close>

definition held :: "json_store \<Rightarrow> addr \<Rightarrow> addr list" where
  "held s b = (case s b of None \<Rightarrow> [] | Some n \<Rightarrow> if nd_refcount n = 0 then [] else children (nd_body n))"

definition indegree :: "addr set \<Rightarrow> json_store \<Rightarrow> addr \<Rightarrow> nat" where
  "indegree D s a = (\<Sum>b \<in> D. count_list (held s b) a)"

text \<open>The counts are right: every count is the number of references from outside, \<open>R\<close>, and from other nodes,
  and these point to nodes that exist. \<open>D\<close> is a finite set of addresses in which all nodes are.\<close>

definition refs_ok :: "addr set \<Rightarrow> addr multiset \<Rightarrow> json_store \<Rightarrow> bool" where
  "refs_ok D R s \<longleftrightarrow> finite D \<and> dom s \<subseteq> D \<and> set_mset R \<subseteq> dom s \<and> (\<forall>b. set (held s b) \<subseteq> dom s) \<and>
     (\<forall>a n. s a = Some n \<longrightarrow>
        (if nd_body n = BSimple then nd_refcount n = no_count
         else nd_refcount n < no_count \<and> nd_refcount n = count R a + indegree D s a))"

definition live :: "json_store \<Rightarrow> addr set" where
  "live s = {b. \<exists>n. s b = Some n \<and> nd_refcount n \<noteq> 0}"

text \<open>What the release of references leaves alone: nodes that are being deleted, and all contents.\<close>

definition keeps :: "json_store \<Rightarrow> json_store \<Rightarrow> bool" where
  "keeps s s' \<longleftrightarrow> (\<forall>b n. s b = Some n \<longrightarrow> nd_refcount n = 0 \<or> nd_body n = BSimple \<longrightarrow> s' b = Some n) \<and>
     (\<forall>b n'. s' b = Some n' \<longrightarrow> (\<exists>n. s b = Some n \<and> nd_body n' = nd_body n \<and> (nd_refcount n' = 0 \<longleftrightarrow> nd_refcount n = 0)))"

lemma keeps_refl: "keeps s s"
  by (simp add: keeps_def)

lemma keepsD:
  "keeps s s' \<Longrightarrow> s b = Some n \<Longrightarrow> nd_refcount n = 0 \<or> nd_body n = BSimple \<Longrightarrow> s' b = Some n"
  "keeps s s' \<Longrightarrow> s' b = Some n' \<Longrightarrow> \<exists>n. s b = Some n \<and> nd_body n' = nd_body n \<and> (nd_refcount n' = 0 \<longleftrightarrow> nd_refcount n = 0)"
  unfolding keeps_def by blast+

lemma keeps_trans:
  assumes "keeps s s'" "keeps s' s''"
  shows "keeps s s''"
  unfolding keeps_def
proof (intro conjI allI impI)
  fix b n assume "s b = Some n" "nd_refcount n = 0 \<or> nd_body n = BSimple"
  then show "s'' b = Some n" using keepsD(1) [OF assms(1)] keepsD(1) [OF assms(2)] by blast
next
  fix b n'' assume "s'' b = Some n''"
  then obtain n' where n': "s' b = Some n'" "nd_body n'' = nd_body n'" "nd_refcount n'' = 0 \<longleftrightarrow> nd_refcount n' = 0"
    using keepsD(2) [OF assms(2)] by metis
  then show "\<exists>n. s b = Some n \<and> nd_body n'' = nd_body n \<and> (nd_refcount n'' = 0 \<longleftrightarrow> nd_refcount n = 0)"
    using keepsD(2) [OF assms(1) n'(1)] by auto
qed

lemma keeps_live: "keeps s s' \<Longrightarrow> live s' \<subseteq> live s"
  by (auto simp: live_def dest: keepsD(2))

lemma indegree_update:
  assumes "finite D" "x \<in> D"
  shows "indegree D (s(x := y)) a + count_list (held s x) a = indegree D s a + count_list (held (s(x := y)) x) a"
proof -
  have "(\<Sum>b \<in> D - {x}. count_list (held (s(x := y)) b) a) = (\<Sum>b \<in> D - {x}. count_list (held s b) a)"
    by (rule sum.cong) (auto simp: held_def)
  then show ?thesis
    using sum.remove [OF assms, of "\<lambda>b. count_list (held s b) a"] sum.remove [OF assms, of "\<lambda>b. count_list (held (s(x := y)) b) a"]
    by (simp add: indegree_def)
qed

lemma held_indegree: "finite D \<Longrightarrow> b \<in> D \<Longrightarrow> a \<in> set (held s b) \<Longrightarrow> 0 < indegree D s a"
  unfolding indegree_def by (rule sum_pos2 [of _ b]) (auto simp: count_list_0_iff intro: ccontr)

text \<open>Changing one node.\<close>

lemma refs_okD:
  assumes "refs_ok D R s"
  shows "finite D" "dom s \<subseteq> D" "set_mset R \<subseteq> dom s" "set (held s b) \<subseteq> dom s"
    "s a = Some n \<Longrightarrow> nd_body n \<noteq> BSimple \<Longrightarrow> nd_refcount n < no_count \<and> nd_refcount n = count R a + indegree D s a"
    "s a = Some n \<Longrightarrow> nd_body n = BSimple \<Longrightarrow> nd_refcount n = no_count"
  using assms unfolding refs_ok_def by (blast, blast, blast, blast, metis, metis)

lemma refs_okI:
  assumes "finite D" "dom s \<subseteq> D" "set_mset R \<subseteq> dom s" "\<And>b. set (held s b) \<subseteq> dom s"
    "\<And>a n. s a = Some n \<Longrightarrow> nd_body n \<noteq> BSimple \<Longrightarrow> nd_refcount n < no_count \<and> nd_refcount n = count R a + indegree D s a"
    "\<And>a n. s a = Some n \<Longrightarrow> nd_body n = BSimple \<Longrightarrow> nd_refcount n = no_count"
  shows "refs_ok D R s"
proof -
  have "if nd_body n = BSimple then nd_refcount n = no_count else nd_refcount n < no_count \<and> nd_refcount n = count R a + indegree D s a"
    if "s a = Some n" for a n using assms(5,6) [OF that] by metis
  then show ?thesis unfolding refs_ok_def using assms(1-4) by blast
qed

text \<open>A count that stays positive changes with the references from outside.\<close>

lemma refs_ok_recount:
  assumes ok: "refs_ok D R s" and n: "s a = Some n" "nd_body n \<noteq> BSimple" "nd_refcount n \<noteq> 0"
    and c: "c \<noteq> 0" "c < no_count" "c = count R' a + indegree D s a" and R': "\<And>b. b \<noteq> a \<Longrightarrow> count R' b = count R b"
  shows "refs_ok D R' (s(a \<mapsto> n\<lparr>nd_refcount := c\<rparr>))"
proof -
  let ?s = "s(a \<mapsto> n\<lparr>nd_refcount := c\<rparr>)"
  have h: "held ?s b = held s b" for b using n c(1) by (auto simp: held_def)
  then have i: "indegree D ?s b = indegree D s b" for b by (simp add: indegree_def)
  show ?thesis
  proof (rule refs_okI)
    show "set_mset R' \<subseteq> dom ?s"
    proof
      fix b assume "b \<in> set_mset R'"
      then have "b = a \<or> b \<in> set_mset R" using R' [of b] by (metis count_eq_zero_iff)
      then show "b \<in> dom ?s" using refs_okD(3) [OF ok] by auto
    qed
    show "set (held ?s b) \<subseteq> dom ?s" for b using refs_okD(4) [OF ok, of b] h [of b] by auto
    show "nd_refcount m < no_count \<and> nd_refcount m = count R' b + indegree D ?s b" if "?s b = Some m" "nd_body m \<noteq> BSimple" for b m
      using refs_okD(5) [OF ok, of b m] that c(2,3) R' i by (cases "b = a") auto
  qed (use refs_okD(1,2,6) [OF ok] n in \<open>auto split: if_splits\<close>)
qed

text \<open>A node whose last reference is gone passes its references on.\<close>

lemma refs_ok_dying:
  assumes ok: "refs_ok D (add_mset a R) s" and n: "s a = Some n" "nd_body n \<noteq> BSimple" "nd_refcount n = 1"
  shows "refs_ok D (mset (children (nd_body n)) + R) (s(a \<mapsto> n\<lparr>nd_refcount := 0\<rparr>))"
proof -
  let ?s = "s(a \<mapsto> n\<lparr>nd_refcount := 0\<rparr>)" and ?cs = "children (nd_body n)"
  have aD: "finite D" "a \<in> D" using refs_okD(1,2) [OF ok] n(1) by auto
  have h: "held ?s b = (if b = a then [] else held s b)" "held s a = ?cs" for b using n by (auto simp: held_def)
  have i: "indegree D ?s b + count_list ?cs b = indegree D s b" for b
    using indegree_update [OF aD, of s "Some (n\<lparr>nd_refcount := 0\<rparr>)" b] h by simp
  show ?thesis
  proof (rule refs_okI)
    show "nd_refcount m < no_count \<and> nd_refcount m = count (mset ?cs + R) b + indegree D ?s b"
      if "?s b = Some m" "nd_body m \<noteq> BSimple" for b m
    proof (cases "b = a")
      case True
      then show ?thesis using that refs_okD(5) [OF ok n(1,2)] n(3) i [of a] by (auto simp: no_count_def count_mset)
    next
      case False
      then show ?thesis using that refs_okD(5) [OF ok, of b m] i [of b] by (simp add: count_mset)
    qed
    show "set_mset (mset ?cs + R) \<subseteq> dom ?s" using refs_okD(3) [OF ok] refs_okD(4) [OF ok, of a] h(2) by auto
    show "set (held ?s b) \<subseteq> dom ?s" for b using refs_okD(4) [OF ok, of b] h(1) by auto
  qed (use refs_okD(1,2,6) [OF ok] n in \<open>auto split: if_splits\<close>)
qed

text \<open>A node without references can be freed.\<close>

lemma refs_ok_free:
  assumes ok: "refs_ok D R s" and n: "s a = Some n" "nd_body n \<noteq> BSimple" "nd_refcount n = 0"
  shows "refs_ok D R (s(a := None))"
proof -
  let ?s = "s(a := None)"
  have z: "count R a = 0" "indegree D s a = 0" using refs_okD(5) [OF ok n(1,2)] n(3) by auto
  have h: "held ?s b = held s b" for b using n by (simp add: held_def)
  then have i: "indegree D ?s b = indegree D s b" for b by (simp add: indegree_def)
  have "a \<notin> set (held s b)" for b
  proof
    assume a: "a \<in> set (held s b)"
    then have "b \<in> D" using refs_okD(2) [OF ok] by (cases "s b") (auto simp: held_def)
    then show False using held_indegree [OF refs_okD(1) [OF ok] _ a] z(2) by simp
  qed
  then have hs: "set (held ?s b) \<subseteq> dom ?s" for b using refs_okD(4) [OF ok, of b] h by auto
  show ?thesis
  proof (rule refs_okI [OF refs_okD(1) [OF ok] _ _ hs])
    show "dom ?s \<subseteq> D" "set_mset R \<subseteq> dom ?s" using refs_okD(2,3) [OF ok] z(1) by (auto simp: count_eq_zero_iff)
    show "nd_refcount m < no_count \<and> nd_refcount m = count R b + indegree D ?s b" if "?s b = Some m" "nd_body m \<noteq> BSimple" for b m
      using refs_okD(5) [OF ok, of b m] that i [of b] by (auto split: if_splits)
    show "nd_refcount m = no_count" if "?s b = Some m" "nd_body m = BSimple" for b m
      using refs_okD(6) [OF ok, of b m] that by (auto split: if_splits)
  qed
qed

section \<open>Releasing references\<close>

lemma refs_ok_live: "refs_ok D R s \<Longrightarrow> a \<in># R \<Longrightarrow> s a = Some n \<Longrightarrow> nd_refcount n \<noteq> 0"
  using refs_okD(5,6) [of D R s a n] by (cases "nd_body n = BSimple") (auto simp: no_count_def)

lemma finite_live: "refs_ok D R s \<Longrightarrow> finite (live s)"
  by (rule finite_subset [of _ D]) (auto simp: live_def refs_ok_def)

lemma keeps_freed:
  assumes "keeps (s(a \<mapsto> m)) s'" "s a = Some n" "nd_refcount n \<noteq> 0" "nd_body n \<noteq> BSimple"
  shows "keeps s (s'(a := None))"
  unfolding keeps_def
proof (intro conjI allI impI)
  fix b k assume b: "s b = Some k" "nd_refcount k = 0 \<or> nd_body k = BSimple"
  then have "b \<noteq> a" using assms(2-4) by auto
  then show "(s'(a := None)) b = Some k" using keepsD(1) [OF assms(1), of b k] b by simp
next
  fix b k' assume "(s'(a := None)) b = Some k'"
  then have "b \<noteq> a" "s' b = Some k'" by (auto split: if_splits)
  then show "\<exists>k. s b = Some k \<and> nd_body k' = nd_body k \<and> (nd_refcount k' = 0 \<longleftrightarrow> nd_refcount k = 0)"
    using keepsD(2) [OF assms(1), of b k'] by auto
qed

lemma refs_ok_simple:
  assumes ok: "refs_ok D (add_mset a R) s" and n: "s a = Some n" "nd_body n = BSimple"
  shows "refs_ok D R s"
proof (rule refs_okI)
  show "nd_refcount m < no_count \<and> nd_refcount m = count R b + indegree D s b" if "s b = Some m" "nd_body m \<noteq> BSimple" for b m
    using refs_okD(5) [OF ok that] that n by auto
qed (use refs_okD(1-4,6) [OF ok] in auto)

lemma decref_all_ok:
  assumes dec: "\<And>a R s. refs_ok D (add_mset a R) s \<Longrightarrow> card (live s) < fuel \<Longrightarrow>
      \<exists>s'. dec a s = Some s' \<and> refs_ok D R s' \<and> keeps s s'"
  shows "refs_ok D (mset as + R) s \<Longrightarrow> card (live s) < fuel \<Longrightarrow>
    \<exists>s'. decref_all dec as s = Some s' \<and> refs_ok D R s' \<and> keeps s s'"
proof (induction as arbitrary: s)
  case Nil
  then show ?case by (simp add: keeps_refl)
next
  case (Cons a as)
  obtain s1 where s1: "dec a s = Some s1" "refs_ok D (mset as + R) s1" "keeps s s1"
    using dec [of a "mset as + R" s] Cons.prems by auto
  have "card (live s1) \<le> card (live s)" by (rule card_mono [OF finite_live [OF Cons.prems(1)] keeps_live [OF s1(3)]])
  then obtain s2 where "decref_all dec as s1 = Some s2" "refs_ok D R s2" "keeps s1 s2"
    using Cons.IH [OF s1(2)] Cons.prems(2) by auto
  then show ?case using s1(1,3) keeps_trans by auto
qed

lemma json_delete_eq: "b \<noteq> BSimple \<Longrightarrow> json_delete dec a b s = do { s \<leftarrow> decref_all dec (children b) s; jsonp_free a s }"
  by (cases b) (simp_all add: json_delete_def)

lemma decref_ok:
  "refs_ok D (add_mset a R) s \<Longrightarrow> card (live s) < fuel \<Longrightarrow> \<exists>s'. decref fuel a s = Some s' \<and> refs_ok D R s' \<and> keeps s s'"
proof (induction fuel arbitrary: a R s)
  case (Suc fuel)
  note ok = Suc.prems(1)
  obtain n where n: "s a = Some n" using refs_okD(3) [OF ok] by auto
  have nz: "nd_refcount n \<noteq> 0" using refs_ok_live [OF ok _ n] by simp
  show ?case
  proof (cases "nd_body n = BSimple")
    case True
    have "refs_ok D R s" by (rule refs_ok_simple [OF ok n True])
    then show ?thesis using n refs_okD(6) [OF ok n True] by (simp add: keeps_refl)
  next
    case simple: False
    note c = refs_okD(5) [OF ok n simple]
    let ?n = "n\<lparr>nd_refcount := nd_refcount n - 1\<rparr>"
    have sub: "size_sub (nd_refcount n) 1 = nd_refcount n - 1" using c nz by (intro size_sub_le) (auto simp: no_count_def)
    show ?thesis
    proof (cases "nd_refcount n = 1")
      case False
      have "refs_ok D R (s(a \<mapsto> ?n))"
        by (rule refs_ok_recount [OF ok n simple nz]) (use False nz c in auto)
      moreover have "keeps s (s(a \<mapsto> ?n))" using n simple nz False by (auto simp: keeps_def)
      moreover have "decref (Suc fuel) a s = Some (s(a \<mapsto> ?n))" using n conjunct1 [OF c] sub False nz by (simp add: Let_def)
      ultimately show ?thesis by blast
    next
      case True
      let ?s = "s(a \<mapsto> n\<lparr>nd_refcount := 0\<rparr>)"
      have "live ?s = live s - {a}" by (auto simp: live_def)
      moreover have "a \<in> live s" using n nz by (simp add: live_def)
      ultimately have "card (live ?s) < card (live s)" using card_Diff1_less [OF finite_live [OF ok]] by simp
      then have "card (live ?s) < fuel" using Suc.prems(2) by simp
      then obtain s2 where s2: "decref_all (decref fuel) (children (nd_body n)) ?s = Some s2" "refs_ok D R s2" "keeps ?s s2"
        using decref_all_ok [of D fuel "decref fuel" "children (nd_body n)" R ?s] Suc.IH refs_ok_dying [OF ok n simple True] by blast
      have a2: "s2 a = Some (n\<lparr>nd_refcount := 0\<rparr>)" using keepsD(1) [OF s2(3), of a] by simp
      have "refs_ok D R (s2(a := None))" by (rule refs_ok_free [OF s2(2) a2]) (use simple in simp_all)
      moreover have "keeps s (s2(a := None))"
        by (rule keeps_freed [OF s2(3) n nz simple])
      moreover have "decref (Suc fuel) a s = Some (s2(a := None))"
        using n conjunct1 [OF c] sub True s2(1) a2 simple by (simp add: Let_def json_delete_eq jsonp_free_def)
      ultimately show ?thesis by blast
    qed
  qed
qed simp

text \<open>Taking a reference.\<close>

lemma json_incref_ok:
  assumes ok: "refs_ok D R s" and n: "s a = Some n" "nd_refcount n \<noteq> 0" "nd_refcount n \<noteq> no_count - 1"
  shows "\<exists>s'. json_incref (Some a) s = Some s' \<and> refs_ok D (add_mset a R) s' \<and> keeps s s'"
proof (cases "nd_body n = BSimple")
  case True
  have "refs_ok D (add_mset a R) s"
  proof (rule refs_okI)
    show "nd_refcount m < no_count \<and> nd_refcount m = count (add_mset a R) b + indegree D s b" if "s b = Some m" "nd_body m \<noteq> BSimple" for b m
      using refs_okD(5) [OF ok that] that n True by auto
  qed (use refs_okD(1-4,6) [OF ok] n in auto)
  then show ?thesis using n refs_okD(6) [OF ok n(1) True] by (simp add: json_incref_def keeps_refl)
next
  case False
  note c = refs_okD(5) [OF ok n(1) False]
  let ?s = "s(a \<mapsto> n\<lparr>nd_refcount := nd_refcount n + 1\<rparr>)"
  have "refs_ok D (add_mset a R) ?s"
    by (rule refs_ok_recount [OF ok n(1) False n(2)]) (use c n(3) in auto)
  moreover have "keeps s ?s" using n False by (auto simp: keeps_def)
  moreover have "size_add (nd_refcount n) 1 = nd_refcount n + 1" using c by (simp add: size_add_small no_count_def)
  then have "json_incref (Some a) s = Some ?s" using n conjunct1 [OF c] by (simp add: json_incref_def)
  ultimately show ?thesis by blast
qed

section \<open>What is left\<close>

definition edges :: "json_store \<Rightarrow> (addr \<times> addr) set" where
  "edges s = {(b, a). a \<in> set (held s b)}"

lemma finite_edges: "refs_ok D R s \<Longrightarrow> finite (edges s)"
proof (rule finite_subset [of _ "D \<times> D"])
  assume ok: "refs_ok D R s"
  have "b \<in> dom s" if "a \<in> set (held s b)" for a b using that by (cases "s b") (auto simp: held_def)
  then show "edges s \<subseteq> D \<times> D" using refs_okD(2) [OF ok] refs_okD(4) [OF ok] by (force simp: edges_def)
  show "finite (D \<times> D)" using refs_okD(1) [OF ok] by simp
qed

text \<open>Without cycles, every node is reachable from the references outside.\<close>

lemma all_reachable:
  assumes ok: "refs_ok D R s" and ac: "acyclic (edges s)" and all: "live s = dom s"
    and a: "s a = Some n" "nd_body n \<noteq> BSimple"
  shows "a \<in> (edges s)\<^sup>* `` set_mset R"
proof -
  have "wf (edges s)" using finite_acyclic_wf [OF finite_edges [OF ok] ac] .
  then show ?thesis using a
  proof (induction a arbitrary: n)
    case (less a)
    have "a \<in> live s" using less.prems(1) all by auto
    then have "nd_refcount n \<noteq> 0" using less.prems(1) by (simp add: live_def)
    then consider "a \<in># R" | "indegree D s a \<noteq> 0" using refs_okD(5) [OF ok less.prems] by (auto simp: count_greater_zero_iff)
    then show ?case
    proof cases
      case 2
      then obtain b where b: "a \<in> set (held s b)" unfolding indegree_def by (metis count_notin sum.neutral)
      then obtain m where m: "s b = Some m" "a \<in> set (children (nd_body m))"
        by (cases "s b") (auto simp: held_def split: if_splits)
      then have simple: "nd_body m \<noteq> BSimple" by auto
      have "(b, a) \<in> edges s" using b by (simp add: edges_def)
      then show ?thesis using less.IH [OF _ m(1) simple] by (meson Image_iff rtrancl.rtrancl_into_rtrancl)
    qed auto
  qed
qed

lemma keeps_edges:
  assumes "keeps s s'" "live s = dom s" "b \<in> dom s'"
  shows "held s' b = held s b"
proof -
  obtain n' where n': "s' b = Some n'" using assms(3) by auto
  then obtain n where "s b = Some n" "nd_body n' = nd_body n" "nd_refcount n' = 0 \<longleftrightarrow> nd_refcount n = 0"
    using keepsD(2) [OF assms(1)] by metis
  then show ?thesis using n' by (simp add: held_def)
qed

lemma reachable_exist:
  assumes "refs_ok D R s'" "keeps s s'" "live s = dom s" "b \<in> (edges s)\<^sup>* `` set_mset R"
  shows "b \<in> dom s'"
proof -
  obtain r where "(r, b) \<in> (edges s)\<^sup>*" "r \<in># R" using assms(4) by auto
  then show ?thesis
  proof (induction rule: rtrancl_induct)
    case base
    then show ?case using refs_okD(3) [OF assms(1)] by auto
  next
    case (step x y)
    then have "y \<in> set (held s' x)" using keeps_edges [OF assms(2,3), of x] by (simp add: edges_def)
    then show ?case using refs_okD(4) [OF assms(1)] by blast
  qed
qed

section \<open>Properties\<close>

text \<open>(C23) Reference counting is safe and complete. In a store in which every count is the number of
  references to its node, releasing a reference ends and uses no node that has been freed; the counts are
  right again afterwards, for one reference less; and when the values have no cycles, the nodes that are left
  are exactly those that can still be reached from the other references, and true, false and null.\<close>

theorem json_decref_frees:
  assumes "refs_ok D (add_mset a R) s" "live s = dom s" "acyclic (edges s)" "card (dom s) < fuel"
  shows "\<exists>s'. json_decref fuel (Some a) s = Some s' \<and> refs_ok D R s' \<and> live s' = dom s' \<and>
    dom s' = {b \<in> dom s. nd_body (the (s b)) = BSimple} \<union> (edges s)\<^sup>* `` set_mset R"
proof -
  obtain s' where s': "decref fuel a s = Some s'" "refs_ok D R s'" "keeps s s'"
    using decref_ok [OF assms(1)] assms(2,4) by fastforce
  have orig: "\<exists>n. s b = Some n \<and> nd_body n' = nd_body n \<and> nd_refcount n' \<noteq> 0" if b: "s' b = Some n'" for b n'
  proof -
    obtain n where n: "s b = Some n" "nd_body n' = nd_body n" "nd_refcount n' = 0 \<longleftrightarrow> nd_refcount n = 0"
      using keepsD(2) [OF s'(3) b] by metis
    then have "b \<in> live s" using assms(2) by auto
    then show ?thesis using n by (simp add: live_def)
  qed
  have live: "live s' = dom s'" using orig by (auto simp: live_def)
  have sub: "edges s' \<subseteq> edges s"
  proof clarify
    fix b c assume e: "(b, c) \<in> edges s'"
    then have "b \<in> dom s'" by (cases "s' b") (auto simp: edges_def held_def)
    then show "(b, c) \<in> edges s" using e keeps_edges [OF s'(3) assms(2)] by (simp add: edges_def)
  qed
  have "dom s' = {b \<in> dom s. nd_body (the (s b)) = BSimple} \<union> (edges s)\<^sup>* `` set_mset R" (is "_ = ?rhs")
  proof
    show "dom s' \<subseteq> ?rhs"
    proof
      fix b assume "b \<in> dom s'"
      then obtain n' where n': "s' b = Some n'" by auto
      then obtain n where n: "s b = Some n" "nd_body n' = nd_body n" using orig by blast
      show "b \<in> ?rhs"
      proof (cases "nd_body n = BSimple")
        case False
        then have "b \<in> (edges s')\<^sup>* `` set_mset R"
          using all_reachable [OF s'(2) acyclic_subset [OF assms(3) sub] live n'] n(2) by simp
        then show ?thesis using rtrancl_mono [OF sub] by blast
      qed (use n in auto)
    qed
    have "b \<in> dom s'" if "b \<in> dom s" "nd_body (the (s b)) = BSimple" for b
      using that keepsD(1) [OF s'(3), of b "the (s b)"] by auto
    then show "?rhs \<subseteq> dom s'" using reachable_exist [OF s'(2,3) assms(2)] by blast
  qed
  then show ?thesis using s'(1,2) live by (auto simp: json_decref_def)
qed

text \<open>An array of null and a string that also somebody else holds.\<close>

definition demo_store :: json_store where
  "demo_store = [1 \<mapsto> \<lparr>nd_refcount = 1, nd_body = BArray [2, 3]\<rparr>, 2 \<mapsto> \<lparr>nd_refcount = no_count, nd_body = BSimple\<rparr>,
     3 \<mapsto> \<lparr>nd_refcount = 2, nd_body = BString ''x''\<rparr>]"

lemma demo_store_held: "held demo_store b = (if b = 1 then [2, 3] else [])"
  by (simp add: held_def demo_store_def)

lemma json_decref_frees_witness:
  "\<exists>s'. json_decref 4 (Some 1) demo_store = Some s' \<and> refs_ok {1, 2, 3} {#3#} s' \<and> dom s' = {2, 3}"
proof -
  have ok: "refs_ok {1, 2, 3} {#1, 3#} demo_store"
  proof (rule refs_okI)
    show "nd_refcount m < no_count \<and> nd_refcount m = count {#1, 3#} b + indegree {1, 2, 3} demo_store b"
      if "demo_store b = Some m" "nd_body m \<noteq> BSimple" for b m
      using that by (auto simp: indegree_def demo_store_held) (auto simp: demo_store_def no_count_def split: if_splits)
  qed (auto simp: demo_store_held, auto simp: demo_store_def split: if_splits)
  have e: "edges demo_store = {(1, 2), (1, 3)}" by (auto simp: edges_def demo_store_held split: if_splits)
  have ac: "acyclic (edges demo_store)" by (rule acyclic_subset [OF wf_acyclic [OF wf_less_than]]) (simp add: e)
  have "live demo_store = {1, 2, 3}" "dom demo_store = {1, 2, 3}"
    by (auto simp: live_def demo_store_def no_count_def split: if_splits)
  moreover have "{b \<in> {1, 2, 3}. nd_body (the (demo_store b)) = BSimple} = {2}" by (auto simp: demo_store_def)
  moreover have "(edges demo_store)\<^sup>* `` set_mset {#3#} = {3}" unfolding e by (auto elim: converse_rtranclE)
  ultimately show ?thesis using json_decref_frees [of "{1, 2, 3}" 1 "{#3#}" demo_store 4] ok ac by (simp add: insert_commute) blast
qed

end
